(* ===== verification/Blight_Prelude.thy ===== *)
theory Blight_Prelude
  imports Main "HOL-Library.Word"
begin

text \<open>
  What the components share.

  The kernel and the run-time library are built with \<^verbatim>\<open>PROFILE=release\<close>
  (\<^verbatim>\<open>kernel/Makefile\<close>), so \<^verbatim>\<open>usize\<close> arithmetic wraps around without a check, while an
  index out of range, an \<^verbatim>\<open>unwrap\<close> of \<^verbatim>\<open>None\<close> and \<^verbatim>\<open>panic!\<close> still abort.
  A \<^verbatim>\<open>usize\<close> is a natural number below \<open>2 ^ 64\<close> and the wrapping operations are
  written out (\<open>uadd\<close>, \<open>usub\<close>, \<open>umul\<close>); bit masks and bitmaps are words.

  An operation that can panic or run forever has the type \<open>'a run\<close>: \<open>None\<close> when the code
  does not return, \<open>Some (Inl Panic)\<close> when it aborts, \<open>Some (Inr v)\<close> when it returns \<open>v\<close>.
  An error result of the source (\<^verbatim>\<open>Result\<close>) is a value of a sum type inside \<open>v\<close>.
\<close>

unbundle bit_operations_syntax

section \<open>Machine integers\<close>

type_synonym usize = nat
type_synonym u8 = "8 word"
type_synonym u32 = "32 word"
type_synonym u64 = "64 word"

named_theorems usize_arith
  \<open>a wrapping operation is the plain one when the result is in range\<close>

abbreviation usize_span :: nat where
  "usize_span \<equiv> 18446744073709551616"

definition uadd :: "usize \<Rightarrow> usize \<Rightarrow> usize" where
  "uadd a b = (a + b) mod usize_span"

definition usub :: "usize \<Rightarrow> usize \<Rightarrow> usize" where
  "usub a b = (if b \<le> a then a - b else (a + usize_span) - b)"

definition umul :: "usize \<Rightarrow> usize \<Rightarrow> usize" where
  "umul a b = (a * b) mod usize_span"

lemma uadd_exact [usize_arith]: "a + b < usize_span \<Longrightarrow> uadd a b = a + b"
  by (simp add: uadd_def)

lemma usub_exact [usize_arith]: "b \<le> a \<Longrightarrow> usub a b = a - b"
  by (simp add: usub_def)

lemma umul_exact [usize_arith]: "a * b < usize_span \<Longrightarrow> umul a b = a * b"
  by (simp add: umul_def)

lemma uadd_bound: "uadd a b < usize_span"
  by (simp add: uadd_def)

text \<open>\<^verbatim>\<open>x & !m\<close> on a \<^verbatim>\<open>usize\<close>: with \<open>m = 2 ^ n - 1\<close> it rounds down to a
  multiple of \<open>2 ^ n\<close>.\<close>

definition and_not :: "usize \<Rightarrow> usize \<Rightarrow> usize" where
  "and_not x m = unat ((of_nat x :: u64) AND NOT (of_nat m))"

lemma and_not_mask:
  assumes "x < usize_span"
  shows "and_not x (2 ^ n - 1) = x div 2 ^ n * 2 ^ n"
proof -
  let ?w = "of_nat x :: u64"
  have m: "(of_nat (2 ^ n - 1) :: u64) = mask n"
    by (simp add: mask_eq_exp_minus_1 of_nat_diff)
  have x: "unat ?w = x"
    using assms by (simp add: unat_of_nat)
  have "(?w AND mask n) + (?w AND NOT (mask n)) = (?w AND mask n) OR (?w AND NOT (mask n))"
    by (rule disjunctive_add_eq_or) (auto intro!: bit_eqI simp: bit_simps)
  also have "\<dots> = ?w"
    by (rule bit_eqI) (auto simp: bit_simps)
  finally have "?w = (?w AND mask n) + (?w AND NOT (mask n))" ..
  then have "?w AND NOT (mask n) = ?w - take_bit n ?w"
    by (simp add: take_bit_eq_mask algebra_simps)
  moreover have "unat (take_bit n ?w) = x mod 2 ^ n"
    by (metis x take_bit_eq_mod unsigned_take_bit_eq)
  moreover have "unat (?w - take_bit n ?w) = unat ?w - unat (take_bit n ?w)"
    by (rule unat_sub) (simp add: word_le_nat_alt calculation(2) x)
  ultimately show ?thesis
    unfolding and_not_def m using x by (simp add: minus_mod_eq_div_mult)
qed

section \<open>Runs: panics and divergence as values\<close>

datatype fault = Panic

type_synonym 'a run = "(fault + 'a) option"

abbreviation returns :: "'a \<Rightarrow> 'a run" where
  "returns v \<equiv> Some (Inr v)"

abbreviation panics :: "'a run" where
  "panics \<equiv> Some (Inl Panic)"

definition and_then :: "'a run \<Rightarrow> ('a \<Rightarrow> 'b run) \<Rightarrow> 'b run" where
  "and_then r f = (case r of None \<Rightarrow> None
     | Some (Inl e) \<Rightarrow> Some (Inl e)
     | Some (Inr v) \<Rightarrow> f v)"

lemma and_then_simps [simp]:
  "and_then None f = None"
  "and_then (Some (Inl e)) f = Some (Inl e)"
  "and_then (returns v) f = f v"
  by (simp_all add: and_then_def)

lemma and_then_returns:
  "and_then r f = returns w \<longleftrightarrow> (\<exists>v. r = returns v \<and> f v = returns w)"
  by (auto simp: and_then_def split: option.splits sum.splits)

section \<open>Bits of a 64-bit word\<close>

text \<open>\<^verbatim>\<open>w & (1 << i)\<close>, \<^verbatim>\<open>w & !(1 << i)\<close> and \<^verbatim>\<open>w | (1 << i)\<close>. The simplifier writes
  \<open>2 ^ i\<close> for \<open>push_bit i 1\<close>.\<close>

lemma word_and_bit_eq_0 [simp]:
  fixes w :: "'a::len word"
  assumes "i < LENGTH('a)"
  shows "w AND 2 ^ i = 0 \<longleftrightarrow> \<not> bit w i"
proof -
  have "w AND 2 ^ i = (if bit w i then 2 ^ i else 0)"
    by (rule bit_eqI) (auto simp: bit_simps)
  then show ?thesis using assms by simp
qed

lemma bit_clear_iff:
  fixes w :: "'a::len word"
  shows "bit (w AND NOT (2 ^ i)) j \<longleftrightarrow> bit w j \<and> j \<noteq> i"
  by (auto simp: bit_simps dest: bit_imp_le_length)

lemma bit_set_iff:
  fixes w :: "'a::len word"
  assumes "i < LENGTH('a)"
  shows "bit (w OR 2 ^ i) j \<longleftrightarrow> bit w j \<or> j = i"
  using assms by (auto simp: bit_simps)

section \<open>Counting\<close>

text \<open>The number of indices below \<open>n\<close> at which a predicate holds, as a bounded sum.\<close>

definition count_below :: "nat \<Rightarrow> (nat \<Rightarrow> bool) \<Rightarrow> nat" where
  "count_below n P = card {k. k < n \<and> P k}"

lemma count_below_0 [simp]: "count_below 0 P = 0"
  by (simp add: count_below_def)

lemma count_below_Suc [simp]:
  "count_below (Suc n) P = count_below n P + (if P n then 1 else 0)"
proof -
  have "{k. k < Suc n \<and> P k} = (if P n then insert n {k. k < n \<and> P k} else {k. k < n \<and> P k})"
    by (auto simp: less_Suc_eq)
  then show ?thesis by (simp add: count_below_def)
qed

lemma count_below_cong:
  "(\<And>k. k < n \<Longrightarrow> P k = Q k) \<Longrightarrow> count_below n P = count_below n Q"
  by (induction n) auto

lemma count_below_le: "count_below n P \<le> n"
  by (induction n) auto

lemma count_below_remove:
  assumes "i < n" "P i"
  shows "count_below n (\<lambda>k. P k \<and> k \<noteq> i) = count_below n P - 1"
    and "0 < count_below n P"
proof -
  let ?A = "{k. k < n \<and> P k \<and> k \<noteq> i}"
  have "{k. k < n \<and> P k} = insert i ?A"
    using assms by auto
  moreover have "card (insert i ?A) = Suc (card ?A)"
    by (rule card_insert_disjoint) auto
  ultimately have "card {k. k < n \<and> P k} = Suc (card ?A)"
    by simp
  then show "count_below n (\<lambda>k. P k \<and> k \<noteq> i) = count_below n P - 1" "0 < count_below n P"
    by (simp_all add: count_below_def)
qed

lemma count_below_insert:
  assumes "i < n" "\<not> P i"
  shows "count_below n (\<lambda>k. P k \<or> k = i) = Suc (count_below n P)"
proof -
  have "{k. k < n \<and> (P k \<or> k = i)} = insert i {k. k < n \<and> P k}"
    using assms by auto
  then show ?thesis using assms by (simp add: count_below_def)
qed

lemma count_below_mono: "m \<le> n \<Longrightarrow> count_below m P \<le> count_below n P"
  unfolding count_below_def by (rule card_mono) auto

lemma count_below_eq_0: "count_below n P = 0 \<longleftrightarrow> (\<forall>k < n. \<not> P k)"
  by (induction n) (auto simp: less_Suc_eq)

lemma count_below_pos: "0 < count_below n P \<longleftrightarrow> (\<exists>k < n. P k)"
  using count_below_eq_0 [of n P] by auto

end
