(* ===== verification/Fallible.thy ===== *)
theory Fallible
  imports Blight_Prelude
begin

text \<open>
  Error codes and fallible operations.

  The kernel (\<^verbatim>\<open>kernel/src/kernel.rs\<close>) and the run-time library
  (\<^verbatim>\<open>programs/rtlib/src/lib.rs\<close>) have the same enumeration \<^verbatim>\<open>ErrorCode\<close>, which crosses the
  system call boundary as a number. A method that returns a \<^verbatim>\<open>Result\<close> and changes \<^verbatim>\<open>self\<close> is an
  operation \<open>('s, 'a) fallible\<close>: it may panic or run forever (\<open>run\<close>), and otherwise returns
  an error or a value together with the new state, which the code keeps in both cases.
  \<open>try_then\<close> is the operator \<^verbatim>\<open>?\<close>. The text of an error is left out.
\<close>

section \<open>Error codes\<close>

datatype error_code =
    NoError | OutOfMemory | NotSupported | NotFound | NotIssued | UnexpectedEoF
  | InvalidPID | InvalidTID | InvalidFD | InvalidOp | InvalidBus | InvalidDrive
  | InvalidMountPoint | InvalidPath | InvalidHandle | InvalidBuffer | InvalidArgument
  | InvalidFormat | NotAllowed | OutOfBoundIO | IOError | Other

text \<open>\<^verbatim>\<open>code as usize\<close> and \<^verbatim>\<open>ErrorCode::from\<close>.\<close>

fun error_number :: "error_code \<Rightarrow> usize" where
  "error_number NoError = 0" | "error_number OutOfMemory = 1" | "error_number NotSupported = 2"
| "error_number NotFound = 3" | "error_number NotIssued = 4" | "error_number UnexpectedEoF = 5"
| "error_number InvalidPID = 6" | "error_number InvalidTID = 7" | "error_number InvalidFD = 8"
| "error_number InvalidOp = 9" | "error_number InvalidBus = 10" | "error_number InvalidDrive = 11"
| "error_number InvalidMountPoint = 12" | "error_number InvalidPath = 13"
| "error_number InvalidHandle = 14" | "error_number InvalidBuffer = 15"
| "error_number InvalidArgument = 16" | "error_number InvalidFormat = 17"
| "error_number NotAllowed = 18" | "error_number OutOfBoundIO = 19" | "error_number IOError = 20"
| "error_number Other = 255"

definition error_from :: "usize \<Rightarrow> error_code" where
  "error_from code =
     (if code \<le> 20
      then [NoError, OutOfMemory, NotSupported, NotFound, NotIssued, UnexpectedEoF, InvalidPID,
            InvalidTID, InvalidFD, InvalidOp, InvalidBus, InvalidDrive, InvalidMountPoint,
            InvalidPath, InvalidHandle, InvalidBuffer, InvalidArgument, InvalidFormat, NotAllowed,
            OutOfBoundIO, IOError] ! code
      else Other)"

lemma error_from_number [simp]: "error_from (error_number e) = e"
  by (cases e) (simp_all add: error_from_def)

section \<open>Fallible operations\<close>

type_synonym ('s, 'a) fallible = "'s \<Rightarrow> ((error_code + 'a) \<times> 's) run"

definition succeed :: "'a \<Rightarrow> ('s, 'a) fallible" where
  "succeed v s = returns (Inr v, s)"

definition throw :: "error_code \<Rightarrow> ('s, 'a) fallible" where
  "throw e s = returns (Inl e, s)"

definition try_then :: "('s, 'a) fallible \<Rightarrow> ('a \<Rightarrow> ('s, 'b) fallible) \<Rightarrow> ('s, 'b) fallible" where
  "try_then m f s = and_then (m s)
     (\<lambda>(r, s'). case r of Inl e \<Rightarrow> returns (Inl e, s') | Inr v \<Rightarrow> f v s')"

lemma try_then_simps [simp]:
  "m s = None \<Longrightarrow> try_then m f s = None"
  "m s = Some (Inl p) \<Longrightarrow> try_then m f s = Some (Inl p)"
  "m s = returns (Inl e, s') \<Longrightarrow> try_then m f s = returns (Inl e, s')"
  "m s = returns (Inr v, s') \<Longrightarrow> try_then m f s = f v s'"
  by (simp_all add: try_then_def)

lemma try_then_succeed [simp]: "try_then (succeed v) f s = f v s"
  and try_then_throw [simp]: "try_then (throw e) f s = returns (Inl e, s)"
  by (simp_all add: succeed_def throw_def)

lemma try_then_cong [fundef_cong]:
  assumes "s = s'" and "m s' = m' s'"
    and "\<And>v t. m' s' = returns (Inr v, t) \<Longrightarrow> f v t = g v t"
  shows "try_then m f s = try_then m' g s'"
  using assms by (auto simp: try_then_def and_then_def split: option.splits sum.splits)

text \<open>Loops that call themselves under \<^verbatim>\<open>?\<close> are monotone, so \<^verbatim>\<open>partial_function\<close> accepts
  them.\<close>

lemma and_then_mono [partial_function_mono]:
  assumes "mono_option B" and "\<And>y. mono_option (\<lambda>f. C y f)"
  shows "mono_option (\<lambda>f. and_then (B f) (\<lambda>y. C y f))"
proof (rule monotoneI)
  fix f g :: "'a \<Rightarrow> 'b option"
  assume fg: "option.le_fun f g"
  have B: "option_ord (B f) (B g)" and C: "option_ord (C y f) (C y g)" for y
    using assms fg by (auto dest: monotoneD)
  show "option_ord (and_then (B f) (\<lambda>y. C y f)) (and_then (B g) (\<lambda>y. C y g))"
    using B C by (cases "B f"; cases "B g") (auto simp: and_then_def flat_ord_def split: sum.splits)
qed

lemma try_then_mono [partial_function_mono]:
  assumes "mono_option (\<lambda>f. B f s)" and "\<And>v t. mono_option (\<lambda>f. C f v t)"
  shows "mono_option (\<lambda>f. try_then (B f) (C f) s)"
  unfolding try_then_def
proof (intro and_then_mono assms)
  fix y :: "(error_code + 'c) \<times> 'd"
  show "mono_option (\<lambda>f. case y of (Inl e, s') \<Rightarrow> returns (Inl e, s') | (Inr v, s') \<Rightarrow> C f v s')"
    by (cases y; cases "fst y") (auto intro: assms intro!: option.const_mono)
qed

text \<open>Checked indexing: out of range, the code panics.\<close>

definition item_at :: "'a list \<Rightarrow> nat \<Rightarrow> 'a run" where
  "item_at xs i = (if i < length xs then returns (xs ! i) else panics)"

definition write_at :: "'a list \<Rightarrow> nat \<Rightarrow> 'a \<Rightarrow> 'a list run" where
  "write_at xs i v = (if i < length xs then returns (xs[i := v]) else panics)"

lemma item_at_in [simp]: "i < length xs \<Longrightarrow> item_at xs i = returns (xs ! i)"
  and write_at_in [simp]: "i < length xs \<Longrightarrow> write_at xs i v = returns (xs[i := v])"
  by (simp_all add: item_at_def write_at_def)

fun run_fold :: "('x \<Rightarrow> 's \<Rightarrow> 's run) \<Rightarrow> 'x list \<Rightarrow> 's \<Rightarrow> 's run" where
  "run_fold f [] s = returns s"
| "run_fold f (x # xs) s = and_then (f x s) (run_fold f xs)"

lemma run_fold_append: "run_fold f (xs @ ys) s = and_then (run_fold f xs s) (run_fold f ys)"
  by (induction xs arbitrary: s) (auto simp: and_then_def split: option.splits sum.splits)

text \<open>A loop whose steps all succeed and keep an invariant succeeds and keeps it.\<close>

lemma run_fold_invariant:
  assumes "P 0 s" and "\<And>n s. n < length xs \<Longrightarrow> P n s \<Longrightarrow> \<exists>s'. f (xs ! n) s = returns s' \<and> P (Suc n) s'"
  shows "\<exists>s'. run_fold f xs s = returns s' \<and> P (length xs) s'"
  using assms
proof (induction xs arbitrary: s P)
  case (Cons x xs)
  from Cons.prems(2) [of 0] Cons.prems(1) obtain s1 where s1: "f x s = returns s1" "P (Suc 0) s1"
    by auto
  have "\<exists>s'. run_fold f xs s1 = returns s' \<and> P (Suc (length xs)) s'"
    by (rule Cons.IH [where P = "\<lambda>n. P (Suc n)"]) (use s1 Cons.prems(2) [of "Suc n" for n] in auto)
  then show ?case using s1 by simp
qed simp

end
