(* ===== verification/Frame_Pool.thy ===== *)
theory Frame_Pool
  imports Blight_Prelude
begin

text \<open>
  The interface between the physical memory manager and the code that lives on its frames
  (the kernel heap, kernel stacks, page tables): what a client may rely on when it takes
  frames and gives them back, whatever call it uses. \<open>take s F s'\<close> says that some
  allocation call turned \<open>s\<close> into \<open>s'\<close> and handed out the frames \<open>F\<close>; \<open>give s F s'\<close>
  says that some freeing call returned them.
\<close>

locale frame_pool =
  fixes inv :: "'s \<Rightarrow> bool"
    and avail :: "'s \<Rightarrow> nat set"
    and managed :: "'s \<Rightarrow> nat set"
    and take :: "'s \<Rightarrow> nat set \<Rightarrow> 's \<Rightarrow> bool"
    and give :: "'s \<Rightarrow> nat set \<Rightarrow> 's \<Rightarrow> bool"
  assumes avail_managed: "inv s \<Longrightarrow> avail s \<subseteq> managed s"
    and take_inv: "inv s \<Longrightarrow> take s F s' \<Longrightarrow> inv s'"
    and take_avail: "inv s \<Longrightarrow> take s F s' \<Longrightarrow> F \<subseteq> avail s \<and> avail s' = avail s - F"
    and take_managed: "inv s \<Longrightarrow> take s F s' \<Longrightarrow> managed s' = managed s"
    and give_inv: "inv s \<Longrightarrow> give s F s' \<Longrightarrow> inv s'"
    and give_avail: "inv s \<Longrightarrow> give s F s' \<Longrightarrow> F \<subseteq> managed s \<Longrightarrow> avail s' = avail s \<union> F"
    and give_managed: "inv s \<Longrightarrow> give s F s' \<Longrightarrow> managed s' = managed s"
begin

lemma take_give_restores:
  assumes "inv s" "take s F s'" "give s' F s''"
  shows "inv s'' \<and> avail s'' = avail s \<and> managed s'' = managed s"
proof -
  have i: "inv s'" using assms(1,2) by (rule take_inv)
  have f: "F \<subseteq> avail s" "avail s' = avail s - F" "managed s' = managed s"
    using take_avail take_managed assms(1,2) by blast+
  have "F \<subseteq> managed s'" using avail_managed [OF assms(1)] f by blast
  then show ?thesis
    using give_avail [OF i assms(3)] give_inv [OF i assms(3)] give_managed [OF i assms(3)] f by auto
qed

text \<open>
  The clients' side: the list \<open>L\<close> of frame sets that are out. \<open>ledger_ok M s L\<close> is the
  agreement between it and the manager, \<open>M\<close> being the frames that were free at the start.
\<close>

definition ledger_ok :: "nat set \<Rightarrow> 's \<Rightarrow> nat set list \<Rightarrow> bool" where
  "ledger_ok M s L \<longleftrightarrow> inv s \<and> sorted_wrt disjnt L
     \<and> avail s \<union> \<Union> (set L) = M \<and> avail s \<inter> \<Union> (set L) = {} \<and> M \<subseteq> managed s"

lemma ledger_start: "inv s \<Longrightarrow> ledger_ok (avail s) s []"
  by (simp add: ledger_ok_def avail_managed)

lemma ledger_take:
  assumes "ledger_ok M s L" "take s F s'"
  shows "ledger_ok M s' (F # L)"
proof -
  have i: "inv s" using assms(1) by (simp add: ledger_ok_def)
  have f: "F \<subseteq> avail s" "avail s' = avail s - F" "managed s' = managed s" "inv s'"
    using take_avail take_managed take_inv i assms(2) by blast+
  have "\<forall>G \<in> set L. disjnt F G"
    using assms(1) f(1) by (auto simp: ledger_ok_def disjnt_def)
  then show ?thesis
    using assms(1) f by (auto simp: ledger_ok_def)
qed

lemma ledger_give:
  assumes "ledger_ok M s L" "F \<in> set L" "give s F s'"
  shows "ledger_ok M s' (remove1 F L)"
proof -
  have i: "inv s" and M: "F \<subseteq> managed s"
    using assms(1,2) by (auto simp: ledger_ok_def)
  have f: "avail s' = avail s \<union> F" "managed s' = managed s" "inv s'"
    using give_avail [OF i assms(3) M] give_managed [OF i assms(3)] give_inv [OF i assms(3)] by simp_all
  obtain xs ys where L: "L = xs @ F # ys" "F \<notin> set xs"
    using split_list_first [OF assms(2)] by blast
  have r: "remove1 F L = xs @ ys"
    using L by (simp add: remove1_append)
  have d: "sorted_wrt disjnt (xs @ ys)" "\<forall>G \<in> set (xs @ ys). disjnt G F"
    using assms(1) L(1) by (auto simp: ledger_ok_def sorted_wrt_append disjnt_sym)
  then show ?thesis
    using assms(1) f L(1) unfolding r by (auto simp: ledger_ok_def disjnt_def)
qed

end

end
