(* ===== verification/Phys_Mem.thy ===== *)
theory Phys_Mem
  imports Fallible Frame_Pool
begin

text \<open>
  The physical memory manager, \<^verbatim>\<open>kernel/src/mem/phys.rs\<close>.

  \<open>frames_bitmap\<close> is the struct \<^verbatim>\<open>FramesBitmap\<close>; its extra field \<open>bm_words\<close> holds the
  64-bit words at \<^verbatim>\<open>base\<close>, \<^verbatim>\<open>base + 8\<close>, ... that \<^verbatim>\<open>is_used\<close> and \<^verbatim>\<open>mark\<close> reach through raw
  pointers. Every public function takes the \<^verbatim>\<open>BITMAP\<close> spinlock for its whole body, so
  each is one atomic operation on the record, passed and returned explicitly.
  A bit set to 1 is a free frame.
\<close>

section \<open>Data\<close>

record pm_map_element =
  me_base :: usize
  me_len :: usize
  me_avail :: bool

abbreviation PHY_FRAME_SIZE :: usize where
  "PHY_FRAME_SIZE \<equiv> 4096"

record frames_bitmap =
  total_frames :: usize
  free_frames :: usize
  first_phys_addr :: usize
  last_phys_addr :: usize
  bm_base :: usize
  bm_size :: usize
  red_zone_start :: usize
  red_zone_end :: usize
  bm_words :: "nat \<Rightarrow> u64"

definition round_up :: "usize \<Rightarrow> usize \<Rightarrow> usize" where
  "round_up num multiple = umul (usub (uadd num multiple) 1 div multiple) multiple"

definition round_down :: "usize \<Rightarrow> usize \<Rightarrow> usize" where
  "round_down num multiple = umul (num div multiple) multiple"

section \<open>Methods of the bitmap\<close>

definition new_frames_bitmap :: "(nat \<Rightarrow> u64) \<Rightarrow> frames_bitmap" where
  "new_frames_bitmap ws = \<lparr>total_frames = 0, free_frames = 0, first_phys_addr = 0,
     last_phys_addr = 0, bm_base = 0, bm_size = 0, red_zone_start = 0, red_zone_end = 0,
     bm_words = ws\<rparr>"

definition is_valid :: "frames_bitmap \<Rightarrow> usize \<Rightarrow> bool" where
  "is_valid bm addr =
     (if addr < first_phys_addr bm \<or> addr > last_phys_addr bm \<or>
         (addr \<ge> red_zone_start bm \<and> addr \<le> red_zone_end bm)
      then False else True)"

definition is_used :: "frames_bitmap \<Rightarrow> usize \<Rightarrow> bool" where
  "is_used bm addr =
     (let index = addr div PHY_FRAME_SIZE;
          word_i = index div 64;
          bit_i = index mod 64
      in bm_words bm word_i AND push_bit bit_i 1 = 0)"

definition mark :: "frames_bitmap \<Rightarrow> usize \<Rightarrow> bool \<Rightarrow> frames_bitmap" where
  "mark bm addr used =
     (let index = addr div PHY_FRAME_SIZE;
          word_i = index div 64;
          bit_i = index mod 64;
          w = bm_words bm word_i
      in if used then
           (if w AND push_bit bit_i 1 \<noteq> 0
            then bm\<lparr>bm_words := (bm_words bm)(word_i := w AND NOT (push_bit bit_i 1)),
                    free_frames := usub (free_frames bm) 1\<rparr>
            else bm)
         else
           (if w AND push_bit bit_i 1 = 0
            then bm\<lparr>bm_words := (bm_words bm)(word_i := w OR push_bit bit_i 1),
                    free_frames := uadd (free_frames bm) 1\<rparr>
            else bm))"

partial_function (option) mark_range ::
  "frames_bitmap \<Rightarrow> usize \<Rightarrow> usize \<Rightarrow> bool \<Rightarrow> frames_bitmap option" where
  "mark_range bm addr end_addr used =
     (if addr < end_addr
      then mark_range (mark bm addr used) (uadd addr PHY_FRAME_SIZE) end_addr used
      else Some bm)"

definition mark_continuous ::
  "frames_bitmap \<Rightarrow> usize \<Rightarrow> usize \<Rightarrow> bool \<Rightarrow> frames_bitmap option" where
  "mark_continuous bm start_addr end_addr used = mark_range bm start_addr end_addr used"

section \<open>Initialisation\<close>

fun last_usable :: "pm_map_element list \<Rightarrow> usize \<Rightarrow> usize" where
  "last_usable [] last_alloc_ram = last_alloc_ram"
| "last_usable (e # mmap) last_alloc_ram =
     last_usable mmap
       (if me_avail e then
          (if uadd (me_base e) (me_len e) > last_alloc_ram
           then uadd (me_base e) (me_len e) else last_alloc_ram)
        else last_alloc_ram)"

text \<open>One pass over the memory map: steps 3 (usable entries, marked free) and 4
  (reserved entries, marked used) of \<^verbatim>\<open>PhysMem::init\<close>.\<close>

fun mark_entries :: "frames_bitmap \<Rightarrow> pm_map_element list \<Rightarrow> bool \<Rightarrow> frames_bitmap option" where
  "mark_entries bm [] avail = Some bm"
| "mark_entries bm (e # mmap) avail =
     (if me_avail e = avail then
        (let start = round_up (me_base e) PHY_FRAME_SIZE;
             end_addr = usub (round_down (uadd start (me_len e)) PHY_FRAME_SIZE) 1
         in if start < last_phys_addr bm
            then (case mark_continuous bm start end_addr (\<not> avail) of
                    None \<Rightarrow> None | Some bm' \<Rightarrow> mark_entries bm' mmap avail)
            else mark_entries bm mmap avail)
      else mark_entries bm mmap avail)"

text \<open>\<open>ram\<close> gives the word that memory holds at a byte address before the bitmap is
  placed there; \<^verbatim>\<open>write_bytes\<close> clears the first \<^verbatim>\<open>size\<close> bytes of it.\<close>

definition place_bitmap ::
  "frames_bitmap \<Rightarrow> (usize \<Rightarrow> u64) \<Rightarrow> usize \<Rightarrow> (usize \<times> usize) option \<Rightarrow> frames_bitmap" where
  "place_bitmap bm ram kernel_end kmod =
     (let base0 = round_up (uadd kernel_end 1) PHY_FRAME_SIZE;
          base = (case kmod of
                    Some (_, mod_end) \<Rightarrow>
                      (if mod_end > kernel_end then round_up (uadd mod_end 1) PHY_FRAME_SIZE
                       else base0)
                  | None \<Rightarrow> base0)
      in bm\<lparr>bm_base := base,
            bm_words := (\<lambda>i. if 8 * i < bm_size bm then 0 else ram (uadd base (8 * i))),
            free_frames := 0\<rparr>)"

definition pm_init ::
  "frames_bitmap \<Rightarrow> (usize \<Rightarrow> u64) \<Rightarrow> pm_map_element list \<Rightarrow> usize \<Rightarrow> usize \<Rightarrow>
   (usize \<times> usize) option \<Rightarrow> frames_bitmap option" where
  "pm_init bm0 ram mmap kernel_start kernel_end kmod =
     (let last_alloc_ram = last_usable mmap 0;
          bm1 = bm0\<lparr>last_phys_addr := usub last_alloc_ram 1,
                    total_frames := last_alloc_ram div PHY_FRAME_SIZE,
                    bm_size := round_up (last_alloc_ram div PHY_FRAME_SIZE) 8\<rparr>;
          bm2 = place_bitmap bm1 ram kernel_end kmod
      in case mark_entries bm2 mmap True of None \<Rightarrow> None | Some bm3 \<Rightarrow>
         (case mark_entries bm3 mmap False of None \<Rightarrow> None | Some bm4 \<Rightarrow>
          (let bm5 = bm4\<lparr>red_zone_start := round_down kernel_start PHY_FRAME_SIZE,
                         red_zone_end :=
                           usub (round_up (uadd (bm_base bm4) (bm_size bm4)) PHY_FRAME_SIZE) 1\<rparr>
           in case mark_continuous bm5 (red_zone_start bm5) (red_zone_end bm5) True of
                None \<Rightarrow> None
              | Some bm6 \<Rightarrow>
                  (case kmod of
                     Some (mod_start, mod_end) \<Rightarrow> mark_continuous bm6 mod_start mod_end True
                   | None \<Rightarrow> Some bm6))))"

section \<open>Public interface\<close>

definition pm_is_used :: "frames_bitmap \<Rightarrow> usize \<Rightarrow> bool" where
  "pm_is_used bm addr = (if is_valid bm addr then is_used bm addr else True)"

definition pm_mark :: "frames_bitmap \<Rightarrow> usize \<Rightarrow> bool \<Rightarrow> frames_bitmap" where
  "pm_mark bm addr used = (if is_valid bm addr then mark bm addr used else bm)"

definition pm_mark_continuous ::
  "frames_bitmap \<Rightarrow> usize \<Rightarrow> usize \<Rightarrow> bool \<Rightarrow> frames_bitmap" where
  "pm_mark_continuous bm addr num_frames used =
     foldl (\<lambda>b i. if is_valid b addr then mark b (uadd addr (umul i PHY_FRAME_SIZE)) used else b)
       bm [0..<num_frames]"

definition total_frame_count :: "frames_bitmap \<Rightarrow> usize" where
  "total_frame_count bm = total_frames bm"

definition total_memory :: "frames_bitmap \<Rightarrow> usize" where
  "total_memory bm = umul (total_frame_count bm) PHY_FRAME_SIZE"

definition free_frame_count :: "frames_bitmap \<Rightarrow> usize" where
  "free_frame_count bm = free_frames bm"

definition free_memory :: "frames_bitmap \<Rightarrow> usize" where
  "free_memory bm = umul (free_frame_count bm) PHY_FRAME_SIZE"

text \<open>The loops take the caller's slice \<open>frames\<close> and return it with the slots they filled.\<close>

partial_function (option) alloc_frames_loop ::
  "frames_bitmap \<Rightarrow> usize \<Rightarrow> usize list \<Rightarrow> nat \<Rightarrow>
   (frames_bitmap \<times> usize list \<times> nat) run" where
  "alloc_frames_loop bm addr frames allocated =
     (if addr < last_phys_addr bm then
        (if \<not> is_used bm addr then
           (if allocated < length frames then
              (if allocated + 1 = length frames
               then returns (mark bm addr True, frames[allocated := addr], allocated + 1)
               else alloc_frames_loop (mark bm addr True) (uadd addr PHY_FRAME_SIZE)
                      (frames[allocated := addr]) (allocated + 1))
            else panics)
         else alloc_frames_loop bm (uadd addr PHY_FRAME_SIZE) frames allocated)
      else returns (bm, frames, allocated))"

definition unmark_all :: "frames_bitmap \<Rightarrow> usize list \<Rightarrow> frames_bitmap" where
  "unmark_all bm fs = foldl (\<lambda>b a. mark b a False) bm fs"

definition alloc_frames ::
  "frames_bitmap \<Rightarrow> usize list \<Rightarrow> ((error_code + nat) \<times> usize list \<times> frames_bitmap) run" where
  "alloc_frames bm frames =
     (if free_frames bm < length frames then returns (Inl OutOfMemory, frames, bm)
      else and_then (alloc_frames_loop bm (first_phys_addr bm) frames 0)
        (\<lambda>(bm', frames', allocated).
           if allocated = length frames' then returns (Inr allocated, frames', bm')
           else returns (Inl OutOfMemory, frames', unmark_all bm' (take allocated frames'))))"

partial_function (option) alloc_high_loop ::
  "frames_bitmap \<Rightarrow> usize \<Rightarrow> usize list \<Rightarrow> nat \<Rightarrow>
   (frames_bitmap \<times> usize list \<times> nat) run" where
  "alloc_high_loop bm addr frames allocated =
     (if addr \<ge> first_phys_addr bm then
        (if \<not> is_used bm addr then
           (if allocated < length frames then
              (if allocated + 1 = length frames
               then returns (mark bm addr True, frames[allocated := addr], allocated + 1)
               else alloc_high_loop (mark bm addr True) (usub addr PHY_FRAME_SIZE)
                      (frames[allocated := addr]) (allocated + 1))
            else panics)
         else alloc_high_loop bm (usub addr PHY_FRAME_SIZE) frames allocated)
      else returns (bm, frames, allocated))"

definition alloc_high_frames ::
  "frames_bitmap \<Rightarrow> usize list \<Rightarrow> ((error_code + nat) \<times> usize list \<times> frames_bitmap) run" where
  "alloc_high_frames bm frames =
     (if free_frames bm < length frames then returns (Inl OutOfMemory, frames, bm)
      else and_then
        (alloc_high_loop bm (and_not (last_phys_addr bm) (PHY_FRAME_SIZE - 1)) frames 0)
        (\<lambda>(bm', frames', allocated).
           if allocated = length frames' then returns (Inr allocated, rev frames', bm')
           else returns (Inl OutOfMemory, frames', unmark_all bm' (take allocated frames'))))"

definition pm_free :: "frames_bitmap \<Rightarrow> usize \<Rightarrow> frames_bitmap" where
  "pm_free bm addr =
     (if is_valid bm addr \<and> is_used bm addr then mark bm addr False else bm)"

definition pm_free_frames :: "frames_bitmap \<Rightarrow> usize list \<Rightarrow> frames_bitmap" where
  "pm_free_frames bm frames = foldl pm_free bm frames"

definition pm_alloc :: "frames_bitmap \<Rightarrow> ((error_code + usize) \<times> frames_bitmap) run" where
  "pm_alloc bm =
     and_then (alloc_frames bm [0])
       (\<lambda>(r, addr, bm'). case r of
            Inl e \<Rightarrow> returns (Inl e, bm')
          | Inr cnt \<Rightarrow>
              (if cnt = 1 then returns (Inr (addr ! 0), bm')
               else if cnt \<le> length addr
                 then returns (Inl OutOfMemory, pm_free_frames bm' (take cnt addr))
               else panics))"

partial_function (option) alloc_continuous_loop ::
  "frames_bitmap \<Rightarrow> usize \<Rightarrow> usize \<Rightarrow> nat \<Rightarrow> nat \<Rightarrow> (usize option \<times> frames_bitmap) option" where
  "alloc_continuous_loop bm addr ret cnt num_frames =
     (if addr < last_phys_addr bm then
        (if \<not> is_used bm addr then
           (let cnt' = cnt + 1;
                ret' = (if cnt' = 1 then addr else ret)
            in if cnt' = num_frames
               then Option.bind
                      (mark_continuous bm ret' (usub (uadd addr PHY_FRAME_SIZE) 1) True)
                      (\<lambda>bm'. Some (Some ret', bm'))
               else alloc_continuous_loop bm (uadd addr PHY_FRAME_SIZE) ret' cnt' num_frames)
         else alloc_continuous_loop bm (uadd addr PHY_FRAME_SIZE) 0 0 num_frames)
      else Some (None, bm))"

definition alloc_continuous ::
  "frames_bitmap \<Rightarrow> usize \<Rightarrow> ((error_code + usize) \<times> frames_bitmap) option" where
  "alloc_continuous bm num_frames =
     (if num_frames > free_frames bm then Some (Inl OutOfMemory, bm)
      else Option.bind
        (alloc_continuous_loop bm (first_phys_addr bm) (first_phys_addr bm) 0 num_frames)
        (\<lambda>(result, bm'). case result of
            Some adr \<Rightarrow> Some (Inr adr, bm')
          | None \<Rightarrow> Some (Inl OutOfMemory, bm')))"

definition free_continuous :: "frames_bitmap \<Rightarrow> usize \<Rightarrow> usize \<Rightarrow> frames_bitmap" where
  "free_continuous bm addr num_frames =
     foldl (\<lambda>b i. pm_free b (uadd addr (umul i PHY_FRAME_SIZE))) bm [0..<num_frames]"

section \<open>The bitmap as a set of free frames\<close>

definition frame_free :: "frames_bitmap \<Rightarrow> nat \<Rightarrow> bool" where
  "frame_free bm k \<longleftrightarrow> bit (bm_words bm (k div 64)) (k mod 64)"

definition frame_span :: "frames_bitmap \<Rightarrow> nat" where
  "frame_span bm = last_phys_addr bm div PHY_FRAME_SIZE + 1"

definition free_set :: "frames_bitmap \<Rightarrow> nat set" where
  "free_set bm = {k. k < frame_span bm \<and> frame_free bm k}"

definition in_red_zone :: "frames_bitmap \<Rightarrow> nat \<Rightarrow> bool" where
  "in_red_zone bm k \<longleftrightarrow>
     red_zone_start bm \<le> PHY_FRAME_SIZE * k \<and> PHY_FRAME_SIZE * k \<le> red_zone_end bm"

text \<open>What the fields other than the words and the counter say; no operation after
  \<^verbatim>\<open>init\<close> changes it.\<close>

definition geometry :: "frames_bitmap \<Rightarrow> usize list" where
  "geometry bm = [total_frames bm, first_phys_addr bm, last_phys_addr bm, bm_base bm,
     bm_size bm, red_zone_start bm, red_zone_end bm]"

lemma geometry_fields:
  assumes "geometry bm' = geometry bm"
  shows "first_phys_addr bm' = first_phys_addr bm" "last_phys_addr bm' = last_phys_addr bm"
    "red_zone_start bm' = red_zone_start bm" "red_zone_end bm' = red_zone_end bm"
    "frame_span bm' = frame_span bm" "in_red_zone bm' = in_red_zone bm"
    "is_valid bm' = is_valid bm"
  using assms by (auto simp: geometry_def frame_span_def in_red_zone_def is_valid_def fun_eq_iff)

definition span_ok :: "frames_bitmap \<Rightarrow> bool" where
  "span_ok bm \<longleftrightarrow> first_phys_addr bm = 0 \<and> last_phys_addr bm mod PHY_FRAME_SIZE \<noteq> 0
     \<and> last_phys_addr bm + 2 * PHY_FRAME_SIZE \<le> usize_span"

definition pmm_geom_ok :: "frames_bitmap \<Rightarrow> bool" where
  "pmm_geom_ok bm \<longleftrightarrow> span_ok bm
     \<and> red_zone_start bm mod PHY_FRAME_SIZE = 0
     \<and> Suc (red_zone_end bm) mod PHY_FRAME_SIZE = 0"

text \<open>The invariant of the manager: the counter is the number of set bits in the scanned
  range, and no frame of the red zone is free.\<close>

definition pmm_ok :: "frames_bitmap \<Rightarrow> bool" where
  "pmm_ok bm \<longleftrightarrow> pmm_geom_ok bm \<and> free_frames bm = card (free_set bm)
     \<and> (\<forall>k \<in> free_set bm. \<not> in_red_zone bm k)"

lemma pmm_geom_ok_cong:
  assumes "geometry bm' = geometry bm"
  shows "pmm_geom_ok bm' = pmm_geom_ok bm" "span_ok bm' = span_ok bm"
  using assms by (simp_all add: pmm_geom_ok_def span_ok_def geometry_def)

lemma pmm_geom_span: "pmm_geom_ok bm \<Longrightarrow> span_ok bm"
  by (simp add: pmm_geom_ok_def span_ok_def)

lemma finite_free_set [simp]: "finite (free_set bm)"
  by (simp add: free_set_def)

lemma card_free_set: "card (free_set bm) \<le> frame_span bm"
proof -
  have "card (free_set bm) \<le> card {..<frame_span bm}"
    by (rule card_mono) (auto simp: free_set_def)
  then show ?thesis by simp
qed

lemma span_bound:
  "span_ok bm \<Longrightarrow> PHY_FRAME_SIZE * frame_span bm + PHY_FRAME_SIZE \<le> usize_span"
  using div_le_mono [of "last_phys_addr bm" "usize_span - 2 * PHY_FRAME_SIZE" PHY_FRAME_SIZE]
  by (simp add: span_ok_def frame_span_def)

lemmas frame_span_bound = span_bound [OF pmm_geom_span]

lemma frame_lt_iff:
  fixes l :: nat
  assumes "l mod PHY_FRAME_SIZE \<noteq> 0"
  shows "PHY_FRAME_SIZE * k < l \<longleftrightarrow> k < l div PHY_FRAME_SIZE + 1"
proof -
  have "PHY_FRAME_SIZE * k \<noteq> l" using assms by auto
  moreover have "k \<le> l div PHY_FRAME_SIZE \<longleftrightarrow> k * PHY_FRAME_SIZE \<le> l"
    by (rule less_eq_div_iff_mult_less_eq) simp
  ultimately show ?thesis by (auto simp: mult.commute)
qed

lemma span_scanned:
  "span_ok bm \<Longrightarrow> PHY_FRAME_SIZE * k < last_phys_addr bm \<longleftrightarrow> k < frame_span bm"
  unfolding frame_span_def by (rule frame_lt_iff) (simp add: span_ok_def)

lemmas scanned_iff = span_scanned [OF pmm_geom_span]

lemma is_used_iff: "is_used bm addr \<longleftrightarrow> \<not> frame_free bm (addr div PHY_FRAME_SIZE)"
  by (simp add: is_used_def frame_free_def Let_def)

lemma geometry_mark [simp]: "geometry (mark bm addr used) = geometry bm"
  by (simp add: mark_def geometry_def Let_def)

lemmas mark_fields [simp] = geometry_fields [OF geometry_mark] pmm_geom_ok_cong [OF geometry_mark]

lemma frame_free_mark:
  "frame_free (mark bm addr used) k =
     (if k = addr div PHY_FRAME_SIZE then \<not> used else frame_free bm k)"
proof -
  have "k = j \<longleftrightarrow> k div 64 = j div 64 \<and> k mod 64 = j mod 64" for j :: nat
    by (metis div_mult_mod_eq)
  then show ?thesis
    by (auto simp: mark_def frame_free_def Let_def bit_clear_iff bit_set_iff)
qed

lemma free_frames_mark:
  "free_frames (mark bm addr used) =
     (if used \<and> frame_free bm (addr div PHY_FRAME_SIZE) then usub (free_frames bm) 1
      else if \<not> used \<and> \<not> frame_free bm (addr div PHY_FRAME_SIZE) then uadd (free_frames bm) 1
      else free_frames bm)"
  by (auto simp: mark_def frame_free_def Let_def)

lemma mark_same_frame: "addr div PHY_FRAME_SIZE = a div PHY_FRAME_SIZE \<Longrightarrow> mark bm addr = mark bm a"
  by (simp add: mark_def fun_eq_iff)

lemma free_set_mark:
  "free_set (mark bm addr used) =
     (if used then free_set bm - {addr div PHY_FRAME_SIZE}
      else if addr div PHY_FRAME_SIZE < frame_span bm then insert (addr div PHY_FRAME_SIZE) (free_set bm)
      else free_set bm)"
  by (auto simp: free_set_def frame_free_mark)

subsection \<open>Runs of marks\<close>

definition mark_frames :: "frames_bitmap \<Rightarrow> nat list \<Rightarrow> bool \<Rightarrow> frames_bitmap" where
  "mark_frames bm ks used = foldl (\<lambda>b k. mark b (PHY_FRAME_SIZE * k) used) bm ks"

lemma mark_frames_Nil [simp]: "mark_frames bm [] used = bm"
  by (simp add: mark_frames_def)

lemma mark_frames_Cons [simp]:
  "mark_frames bm (k # ks) used = mark_frames (mark bm (PHY_FRAME_SIZE * k) used) ks used"
  by (simp add: mark_frames_def)

lemma mark_frames_append [simp]:
  "mark_frames bm (ks @ ls) used = mark_frames (mark_frames bm ks used) ls used"
  by (simp add: mark_frames_def)

lemma geometry_mark_frames [simp]: "geometry (mark_frames bm ks used) = geometry bm"
  by (induction ks arbitrary: bm) auto

lemmas mark_frames_fields [simp] =
  geometry_fields [OF geometry_mark_frames] pmm_geom_ok_cong [OF geometry_mark_frames]

lemma frame_free_mark_frames:
  "frame_free (mark_frames bm ks used) k = (if k \<in> set ks then \<not> used else frame_free bm k)"
  by (induction ks arbitrary: bm) (auto simp: frame_free_mark)

lemma free_set_mark_frames_used: "free_set (mark_frames bm ks True) = free_set bm - set ks"
  by (auto simp: free_set_def frame_free_mark_frames)

lemma free_set_mark_frames_free:
  "set ks \<subseteq> {..<frame_span bm} \<Longrightarrow> free_set (mark_frames bm ks False) = free_set bm \<union> set ks"
  by (auto simp: free_set_def frame_free_mark_frames)

text \<open>The counter keeps up with the marks.\<close>

definition count_ok :: "frames_bitmap \<Rightarrow> bool" where
  "count_ok bm \<longleftrightarrow> span_ok bm \<and> free_frames bm = card (free_set bm)"

lemma count_ok_mark:
  assumes "count_ok bm" "addr div PHY_FRAME_SIZE < frame_span bm"
  shows "count_ok (mark bm addr used)"
proof -
  let ?k = "addr div PHY_FRAME_SIZE"
  have g: "span_ok bm"
    using assms by (simp add: count_ok_def)
  have c: "free_frames bm = card (free_set bm)"
    using assms by (simp add: count_ok_def)
  have b: "card (free_set bm) < usize_span - 1"
  proof -
    have "PHY_FRAME_SIZE * frame_span bm + PHY_FRAME_SIZE \<le> usize_span"
      using assms by (intro span_bound) (simp add: count_ok_def)
    with card_free_set [of bm] show ?thesis by linarith
  qed
  have m: "?k \<in> free_set bm \<longleftrightarrow> frame_free bm ?k"
    using assms by (simp add: free_set_def)
  have p: "?k \<in> free_set bm \<Longrightarrow> 1 \<le> card (free_set bm)"
    by (metis One_nat_def Suc_leI card_gt_0_iff empty_iff finite_free_set)
  show ?thesis
  proof (cases "used = (?k \<in> free_set bm)")
    case True
    then show ?thesis
    proof (cases used)
      case True
      with \<open>used = _\<close> p m show ?thesis
        by (simp add: count_ok_def g free_frames_mark c free_set_mark usub_exact)
    next
      case False
      with \<open>used = _\<close> b m assms(2) show ?thesis
        by (simp add: count_ok_def g free_frames_mark c free_set_mark uadd_exact)
    qed
  next
    case False
    with m assms(2) show ?thesis
      by (cases used) (simp_all add: count_ok_def g free_frames_mark c free_set_mark insert_absorb)
  qed
qed

lemma count_ok_mark_frames:
  assumes "count_ok bm" "set ks \<subseteq> {..<frame_span bm}"
  shows "count_ok (mark_frames bm ks used)"
  using assms
proof (induction ks arbitrary: bm)
  case (Cons k ks)
  then have "count_ok (mark bm (PHY_FRAME_SIZE * k) used)"
    by (intro count_ok_mark) auto
  with Cons show ?case by simp
qed simp

lemma pmm_ok_count: "pmm_ok bm \<Longrightarrow> count_ok bm"
  by (simp add: pmm_ok_def count_ok_def pmm_geom_span)

lemma pmm_ok_geom: "pmm_ok bm \<Longrightarrow> pmm_geom_ok bm"
  by (simp add: pmm_ok_def)

lemma pmm_ok_mark_used:
  assumes "pmm_ok bm" "set ks \<subseteq> {..<frame_span bm}"
  shows "pmm_ok (mark_frames bm ks True)"
  using count_ok_mark_frames [OF pmm_ok_count, OF assms, of True] assms
  by (auto simp: pmm_ok_def count_ok_def free_set_mark_frames_used)

lemma pmm_ok_mark_free:
  assumes "pmm_ok bm" "set ks \<subseteq> {..<frame_span bm}" "\<forall>k \<in> set ks. \<not> in_red_zone bm k"
  shows "pmm_ok (mark_frames bm ks False)"
  using count_ok_mark_frames [OF pmm_ok_count, OF assms(1,2), of False] assms
  by (auto simp: pmm_ok_def count_ok_def free_set_mark_frames_free)

subsection \<open>The marking loop\<close>

lemma div_frame_add: "(addr + PHY_FRAME_SIZE) div PHY_FRAME_SIZE = Suc (addr div PHY_FRAME_SIZE)"
  by simp

text \<open>\<^verbatim>\<open>mark_continuous\<close> returns, and marks one frame for each step from \<open>start\<close>.\<close>

definition frames_from :: "usize \<Rightarrow> usize \<Rightarrow> nat list" where
  "frames_from a e = [a div PHY_FRAME_SIZE ..<
     a div PHY_FRAME_SIZE + (e - a + (PHY_FRAME_SIZE - 1)) div PHY_FRAME_SIZE]"

lemma frames_from_step:
  assumes "a < e"
  shows "frames_from a e = a div PHY_FRAME_SIZE # frames_from (a + PHY_FRAME_SIZE) e"
proof -
  let ?q = "a div PHY_FRAME_SIZE"
  let ?m = "(e - (a + PHY_FRAME_SIZE) + (PHY_FRAME_SIZE - 1)) div PHY_FRAME_SIZE"
  have "(e - a + (PHY_FRAME_SIZE - 1)) div PHY_FRAME_SIZE = Suc ?m"
  proof (cases "a + PHY_FRAME_SIZE \<le> e")
    case True
    then have "e - a + (PHY_FRAME_SIZE - 1) =
        (e - (a + PHY_FRAME_SIZE) + (PHY_FRAME_SIZE - 1)) + PHY_FRAME_SIZE"
      by simp
    then show ?thesis by (simp only: div_frame_add)
  next
    case False
    with assms have "e - a + (PHY_FRAME_SIZE - 1) = (e - a - 1) + PHY_FRAME_SIZE"
      "e - a - 1 < PHY_FRAME_SIZE" "e - (a + PHY_FRAME_SIZE) = 0"
      by simp_all
    then show ?thesis by (simp only: div_frame_add) simp
  qed
  then have "frames_from a e = [?q ..< ?q + Suc ?m]"
    by (simp only: frames_from_def)
  moreover have "frames_from (a + PHY_FRAME_SIZE) e = [Suc ?q ..< Suc ?q + ?m]"
    by (simp only: frames_from_def div_frame_add)
  ultimately show ?thesis by (simp only: upt_conv_Cons) simp
qed

lemma frames_from_empty: "e \<le> a \<Longrightarrow> frames_from a e = []"
  by (simp add: frames_from_def)

lemma mark_frame_of:
  "mark bm (PHY_FRAME_SIZE * (addr div PHY_FRAME_SIZE)) used = mark bm addr used"
  by (rule fun_cong [OF mark_same_frame]) simp

lemma mark_range_eq:
  assumes "e + PHY_FRAME_SIZE \<le> usize_span"
  shows "mark_range bm a e used = Some (mark_frames bm (frames_from a e) used)"
proof (induction "e - a" arbitrary: bm a rule: less_induct)
  case less
  show ?case
  proof (cases "a < e")
    case True
    with assms have "uadd a PHY_FRAME_SIZE = a + PHY_FRAME_SIZE"
      by (intro uadd_exact) simp
    with less.hyps [of "a + PHY_FRAME_SIZE"] True show ?thesis
      by (subst mark_range.simps) (simp add: frames_from_step mark_frame_of)
  next
    case False
    then show ?thesis
      by (subst mark_range.simps) (simp add: frames_from_empty)
  qed
qed

lemma frames_from_aligned:
  "frames_from (PHY_FRAME_SIZE * i) (PHY_FRAME_SIZE * j) = [i..<j]"
  "0 < n \<Longrightarrow> frames_from (PHY_FRAME_SIZE * i) (PHY_FRAME_SIZE * (i + n) - 1) = [i..<i + n]"
proof -
  have *: "(PHY_FRAME_SIZE * j - PHY_FRAME_SIZE * i + (PHY_FRAME_SIZE - 1)) div PHY_FRAME_SIZE = j - i"
    by (simp add: diff_mult_distrib2 [symmetric])
  show "frames_from (PHY_FRAME_SIZE * i) (PHY_FRAME_SIZE * j) = [i..<j]"
    unfolding frames_from_def * by (cases "i \<le> j") simp_all
  assume n: "0 < n"
  have "PHY_FRAME_SIZE * (i + n) - 1 - PHY_FRAME_SIZE * i + (PHY_FRAME_SIZE - 1)
      = PHY_FRAME_SIZE * n + (PHY_FRAME_SIZE - 2)"
    using n by (simp add: algebra_simps)
  then show "frames_from (PHY_FRAME_SIZE * i) (PHY_FRAME_SIZE * (i + n) - 1) = [i..<i + n]"
    by (simp add: frames_from_def)
qed

section \<open>Allocation of single frames, lowest first\<close>

definition free_above :: "frames_bitmap \<Rightarrow> nat \<Rightarrow> nat list" where
  "free_above bm i = filter (frame_free bm) [i..<frame_span bm]"

lemma free_above_step:
  assumes "i < frame_span bm"
  shows "free_above bm i = (if frame_free bm i then i # free_above bm (Suc i) else free_above bm (Suc i))"
  using assms by (simp add: free_above_def upt_conv_Cons)

lemma free_above_mark:
  "i < j \<Longrightarrow> free_above (mark bm (PHY_FRAME_SIZE * i) used) j = free_above bm j"
  by (auto simp: free_above_def frame_free_mark intro!: filter_cong)

lemma set_free_above: "set (free_above bm i) = {k \<in> free_set bm. i \<le> k}"
  by (auto simp: free_above_def free_set_def)

lemma free_above_0: "free_above bm 0 = sorted_list_of_set (free_set bm)"
proof -
  have "sorted_list_of_set (set (free_above bm 0)) = free_above bm 0"
    by (rule sorted_list_of_set.idem_if_sorted_distinct)
      (simp_all add: free_above_def sorted_wrt_filter)
  then show ?thesis by (simp add: set_free_above)
qed

lemma list_update_middle:
  "n < length xs \<Longrightarrow> take (Suc n) (xs[n := y]) = take n xs @ [y]"
  by (simp add: take_Suc_conv_app_nth)

lemma alloc_frames_loop_eq:
  assumes "pmm_geom_ok bm" "i \<le> frame_span bm" "allocated < length frames"
  shows "alloc_frames_loop bm (PHY_FRAME_SIZE * i) frames allocated =
    (let L = take (length frames - allocated) (free_above bm i)
     in returns (mark_frames bm L True,
          take allocated frames @ map ((*) PHY_FRAME_SIZE) L @ drop (allocated + length L) frames,
          allocated + length L))"
  using assms
proof (induction "frame_span bm - i" arbitrary: bm i frames allocated)
  case 0
  then have "\<not> PHY_FRAME_SIZE * i < last_phys_addr bm"
    using scanned_iff by simp
  with 0 show ?case
    by (subst alloc_frames_loop.simps) (simp add: free_above_def)
next
  case (Suc d)
  then have i: "i < frame_span bm" and l: "PHY_FRAME_SIZE * i < last_phys_addr bm"
    by (simp_all add: scanned_iff)
  have next_addr: "uadd (PHY_FRAME_SIZE * i) PHY_FRAME_SIZE = PHY_FRAME_SIZE * Suc i"
    using l Suc.prems(1) by (simp add: uadd_exact pmm_geom_ok_def span_ok_def)
  show ?case
  proof (cases "frame_free bm i")
    case False
    then have "alloc_frames_loop bm (PHY_FRAME_SIZE * i) frames allocated
        = alloc_frames_loop bm (PHY_FRAME_SIZE * Suc i) frames allocated"
      by (subst alloc_frames_loop.simps) (simp only: l is_used_iff next_addr, simp)
    with Suc.hyps(1) [of bm "Suc i" allocated frames] Suc.hyps(2) Suc.prems i False
    show ?thesis by (simp add: free_above_step)
  next
    case True
    let ?bm = "mark bm (PHY_FRAME_SIZE * i) True"
    let ?fr = "frames[allocated := PHY_FRAME_SIZE * i]"
    have step: "alloc_frames_loop bm (PHY_FRAME_SIZE * i) frames allocated =
        (if allocated + 1 = length frames then returns (?bm, ?fr, allocated + 1)
         else alloc_frames_loop ?bm (PHY_FRAME_SIZE * Suc i) ?fr (allocated + 1))"
      using True Suc.prems(3)
      by (subst alloc_frames_loop.simps) (simp only: l is_used_iff next_addr, simp)
    show ?thesis
    proof (cases "allocated + 1 = length frames")
      case True
      then have "length frames - allocated = Suc 0" by simp
      then show ?thesis
        using step True i \<open>frame_free bm i\<close> Suc.prems(3)
        by (simp add: free_above_step list_update_append upd_conv_take_nth_drop)
    next
      case False
      let ?L = "take (length frames - Suc allocated) (free_above bm (Suc i))"
      have "alloc_frames_loop ?bm (PHY_FRAME_SIZE * Suc i) ?fr (allocated + 1) =
          (let L = ?L
           in returns (mark_frames ?bm L True,
                take (allocated + 1) ?fr @ map ((*) PHY_FRAME_SIZE) L
                  @ drop (allocated + 1 + length L) ?fr,
                allocated + 1 + length L))"
        using Suc.hyps(1) [of ?bm "Suc i" "allocated + 1" ?fr] Suc.hyps(2) Suc.prems False i
        by (simp add: free_above_mark)
      moreover have "length frames - allocated = Suc (length frames - Suc allocated)"
        using Suc.prems(3) by simp
      ultimately show ?thesis
        using step False i \<open>frame_free bm i\<close> Suc.prems(3)
        by (simp add: free_above_step Let_def list_update_middle)
    qed
  qed
qed

definition lowest_free :: "frames_bitmap \<Rightarrow> nat \<Rightarrow> nat list" where
  "lowest_free bm n = take n (sorted_list_of_set (free_set bm))"

lemma lowest_free_facts:
  "set (lowest_free bm n) \<subseteq> free_set bm" "distinct (lowest_free bm n)"
  "n \<le> card (free_set bm) \<Longrightarrow> length (lowest_free bm n) = n"
  by (auto simp: lowest_free_def dest: in_set_takeD)

lemma free_set_span: "free_set bm \<subseteq> {..<frame_span bm}"
  by (auto simp: free_set_def)

lemma alloc_frames_spec:
  assumes ok: "pmm_ok bm" and ne: "frames \<noteq> []"
  shows "alloc_frames bm frames =
    (if length frames \<le> card (free_set bm)
     then returns (Inr (length frames), map ((*) PHY_FRAME_SIZE) (lowest_free bm (length frames)),
            mark_frames bm (lowest_free bm (length frames)) True)
     else returns (Inl OutOfMemory, frames, bm))"
proof -
  have g: "pmm_geom_ok bm" and c: "free_frames bm = card (free_set bm)"
    using ok by (simp_all add: pmm_ok_def)
  have f: "first_phys_addr bm = 0" using g by (simp add: pmm_geom_ok_def span_ok_def)
  have "alloc_frames_loop bm 0 frames 0 =
      returns (mark_frames bm (lowest_free bm (length frames)) True,
        map ((*) PHY_FRAME_SIZE) (lowest_free bm (length frames))
          @ drop (length (lowest_free bm (length frames))) frames,
        length (lowest_free bm (length frames)))"
    using alloc_frames_loop_eq [OF g, of 0 0 frames] ne
    by (simp add: free_above_0 lowest_free_def Let_def)
  then show ?thesis
    using lowest_free_facts(3) [of "length frames" bm]
    by (simp add: alloc_frames_def c f)
qed

lemma alloc_frames_empty:
  assumes ok: "pmm_ok bm" and ne: "free_set bm \<noteq> {}"
  shows "alloc_frames bm [] = panics"
proof -
  have g: "pmm_geom_ok bm" and f: "first_phys_addr bm = 0"
    using ok by (simp_all add: pmm_ok_def pmm_geom_ok_def span_ok_def)
  have "i \<le> frame_span bm \<Longrightarrow> \<exists>k \<in> free_set bm. i \<le> k \<Longrightarrow>
      alloc_frames_loop bm (PHY_FRAME_SIZE * i) [] 0 = panics" for i
  proof (induction "frame_span bm - i" arbitrary: i)
    case 0
    then show ?case by (auto simp: free_set_def)
  next
    case (Suc d)
    then have l: "PHY_FRAME_SIZE * i < last_phys_addr bm"
      using scanned_iff [OF g] by simp
    have next_addr: "uadd (PHY_FRAME_SIZE * i) PHY_FRAME_SIZE = PHY_FRAME_SIZE * Suc i"
      using l g by (simp add: uadd_exact pmm_geom_ok_def span_ok_def)
    show ?case
    proof (cases "frame_free bm i")
      case True
      then show ?thesis
        by (subst alloc_frames_loop.simps) (simp only: l is_used_iff, simp)
    next
      case False
      have ex: "\<exists>k \<in> free_set bm. Suc i \<le> k"
        using Suc.prems(2) False by (auto simp: free_set_def intro: le_neq_implies_less Suc_leI)
      have "alloc_frames_loop bm (PHY_FRAME_SIZE * i) [] 0
          = alloc_frames_loop bm (PHY_FRAME_SIZE * Suc i) [] 0"
        using False by (subst alloc_frames_loop.simps) (simp only: l is_used_iff next_addr, simp)
      then show ?thesis
        using Suc.hyps(1) [of "Suc i"] Suc.hyps(2) ex by simp
    qed
  qed
  from this [of 0] ne have "alloc_frames_loop bm 0 [] 0 = panics" by auto
  then show ?thesis by (simp add: alloc_frames_def f)
qed

lemma pm_alloc_spec:
  assumes ok: "pmm_ok bm"
  shows "pm_alloc bm =
    (if free_set bm = {} then returns (Inl OutOfMemory, bm)
     else returns (Inr (PHY_FRAME_SIZE * Min (free_set bm)),
            mark bm (PHY_FRAME_SIZE * Min (free_set bm)) True))"
proof (cases "free_set bm = {}")
  case True
  then show ?thesis
    using alloc_frames_spec [OF ok, of "[0]"] by (simp add: pm_alloc_def)
next
  case False
  then have "1 \<le> card (free_set bm)"
    by (simp add: Suc_leI card_gt_0_iff)
  moreover have "lowest_free bm 1 = [Min (free_set bm)]"
  proof -
    have "sorted_list_of_set (free_set bm) =
        Min (free_set bm) # sorted_list_of_set (free_set bm - {Min (free_set bm)})"
      using False by (intro sorted_list_of_set_nonempty) simp_all
    then show ?thesis by (simp add: lowest_free_def)
  qed
  ultimately show ?thesis
    using alloc_frames_spec [OF ok, of "[0]"] False by (simp add: pm_alloc_def)
qed

section \<open>Allocation of single frames, highest first\<close>

definition free_upto :: "frames_bitmap \<Rightarrow> nat \<Rightarrow> nat list" where
  "free_upto bm i = rev (filter (frame_free bm) [0..<Suc i])"

lemma free_upto_mark:
  "i < j \<Longrightarrow> free_upto (mark bm (PHY_FRAME_SIZE * j) used) i = free_upto bm i"
  by (auto simp: free_upto_def frame_free_mark intro!: arg_cong [where f = rev] filter_cong)

lemma free_upto_0: "free_upto bm 0 = (if frame_free bm 0 then [0] else [])"
  by (simp add: free_upto_def)

lemma free_upto_Suc:
  "free_upto bm (Suc i) = (if frame_free bm (Suc i) then Suc i # free_upto bm i else free_upto bm i)"
  by (simp add: free_upto_def)

lemma alloc_high_step:
  assumes "pmm_geom_ok bm" "allocated < length frames"
  shows "alloc_high_loop bm (PHY_FRAME_SIZE * Suc i) frames allocated =
    (if frame_free bm (Suc i) then
       (if allocated + 1 = length frames
        then returns (mark bm (PHY_FRAME_SIZE * Suc i) True,
               frames[allocated := PHY_FRAME_SIZE * Suc i], allocated + 1)
        else alloc_high_loop (mark bm (PHY_FRAME_SIZE * Suc i) True) (PHY_FRAME_SIZE * i)
               (frames[allocated := PHY_FRAME_SIZE * Suc i]) (allocated + 1))
     else alloc_high_loop bm (PHY_FRAME_SIZE * i) frames allocated)"
proof -
  have "usub (PHY_FRAME_SIZE * Suc i) PHY_FRAME_SIZE = PHY_FRAME_SIZE * i"
    by (simp add: usub_exact)
  moreover have "PHY_FRAME_SIZE * Suc i \<ge> first_phys_addr bm"
    using assms(1) by (simp add: pmm_geom_ok_def span_ok_def)
  ultimately show ?thesis
    using assms(2) by (subst alloc_high_loop.simps) (simp only: is_used_iff, simp)
qed

lemma alloc_high_loop_eq:
  assumes "pmm_geom_ok bm" "allocated < length frames"
    and "length frames - allocated \<le> length (free_upto bm i)"
  shows "alloc_high_loop bm (PHY_FRAME_SIZE * i) frames allocated =
    (let L = take (length frames - allocated) (free_upto bm i)
     in returns (mark_frames bm L True,
          take allocated frames @ map ((*) PHY_FRAME_SIZE) L, length frames))"
  using assms
proof (induction i arbitrary: bm frames allocated)
  case 0
  then have "frame_free bm 0" "length frames = Suc allocated"
    by (auto simp: free_upto_0 split: if_splits)
  moreover have "first_phys_addr bm = 0"
    using 0 by (simp add: pmm_geom_ok_def span_ok_def)
  ultimately show ?case
    using list_update_middle [of allocated frames 0]
    by (subst alloc_high_loop.simps) (simp add: is_used_iff free_upto_0)
next
  case (Suc i)
  show ?case
  proof (cases "frame_free bm (Suc i)")
    case False
    with Suc.IH [of bm allocated frames] Suc.prems show ?thesis
      by (simp add: alloc_high_step free_upto_Suc del: mult_Suc_right)
  next
    case True
    let ?a = "PHY_FRAME_SIZE * Suc i"
    let ?bm = "mark bm ?a True"
    let ?fr = "frames[allocated := ?a]"
    show ?thesis
    proof (cases "allocated + 1 = length frames")
      case True
      then have "length frames - allocated = Suc 0" "length frames = Suc allocated" by simp_all
      then show ?thesis
        using \<open>frame_free bm (Suc i)\<close> Suc.prems list_update_middle [of allocated frames ?a]
        by (simp add: alloc_high_step free_upto_Suc del: mult_Suc_right)
    next
      case False
      have d: "length frames - allocated = Suc (length frames - Suc allocated)"
        using Suc.prems(2) by simp
      have "alloc_high_loop ?bm (PHY_FRAME_SIZE * i) ?fr (allocated + 1) =
          (let L = take (length frames - Suc allocated) (free_upto bm i)
           in returns (mark_frames ?bm L True,
                take (Suc allocated) ?fr @ map ((*) PHY_FRAME_SIZE) L, length frames))"
        using Suc.IH [of ?bm "allocated + 1" ?fr] Suc.prems False True d
        by (simp add: free_upto_mark free_upto_Suc del: mult_Suc_right)
      then show ?thesis
        using True False Suc.prems d
        by (simp add: alloc_high_step free_upto_Suc list_update_middle Let_def del: mult_Suc_right)
    qed
  qed
qed

definition highest_free :: "frames_bitmap \<Rightarrow> nat \<Rightarrow> nat list" where
  "highest_free bm n = rev (take n (rev (sorted_list_of_set (free_set bm))))"

lemma highest_free_facts:
  "set (highest_free bm n) \<subseteq> free_set bm" "distinct (highest_free bm n)"
  "n \<le> card (free_set bm) \<Longrightarrow> length (highest_free bm n) = n"
  by (auto simp: highest_free_def dest: in_set_takeD)

lemma free_upto_last: "free_upto bm (last_phys_addr bm div PHY_FRAME_SIZE) =
    rev (sorted_list_of_set (free_set bm))"
  using free_above_0 [of bm] by (simp add: free_upto_def free_above_def frame_span_def)

lemma alloc_high_frames_spec:
  assumes ok: "pmm_ok bm" and ne: "frames \<noteq> []"
  shows "alloc_high_frames bm frames =
    (if length frames \<le> card (free_set bm)
     then returns (Inr (length frames), map ((*) PHY_FRAME_SIZE) (highest_free bm (length frames)),
            mark_frames bm (rev (highest_free bm (length frames))) True)
     else returns (Inl OutOfMemory, frames, bm))"
proof (cases "length frames \<le> card (free_set bm)")
  case True
  have g: "pmm_geom_ok bm" and c: "free_frames bm = card (free_set bm)"
    using ok by (simp_all add: pmm_ok_def)
  have l: "last_phys_addr bm < usize_span"
    using g by (simp add: pmm_geom_ok_def span_ok_def)
  let ?i = "last_phys_addr bm div PHY_FRAME_SIZE"
  have a: "and_not (last_phys_addr bm) (PHY_FRAME_SIZE - 1) = PHY_FRAME_SIZE * ?i"
    using and_not_mask [OF l, of 12] by (simp add: mult.commute)
  have "alloc_high_loop bm (PHY_FRAME_SIZE * ?i) frames 0 =
      returns (mark_frames bm (rev (highest_free bm (length frames))) True,
        map ((*) PHY_FRAME_SIZE) (rev (highest_free bm (length frames))), length frames)"
    using alloc_high_loop_eq [OF g, of 0 frames ?i] ne True
    by (simp add: free_upto_last highest_free_def Let_def)
  then show ?thesis
    using True highest_free_facts(3) [OF True]
    unfolding alloc_high_frames_def c a by (simp add: rev_map)
next
  case False
  then show ?thesis using ok by (simp add: alloc_high_frames_def pmm_ok_def)
qed

section \<open>Contiguous allocation, first fit\<close>

text \<open>\<open>n\<close> free frames in a row from frame \<open>j\<close> on.\<close>

definition run_at :: "frames_bitmap \<Rightarrow> nat \<Rightarrow> nat \<Rightarrow> bool" where
  "run_at bm j n \<longleftrightarrow> {j..<j + n} \<subseteq> free_set bm"

lemma run_at_span: "run_at bm j n \<Longrightarrow> 0 < n \<Longrightarrow> j + n \<le> frame_span bm"
proof -
  assume "run_at bm j n" "0 < n"
  then have "j + n - 1 \<in> free_set bm"
    by (auto simp: run_at_def)
  then have "j + n - 1 < frame_span bm" by (simp add: free_set_def)
  then show ?thesis using \<open>0 < n\<close> by linarith
qed

definition first_run :: "frames_bitmap \<Rightarrow> nat \<Rightarrow> nat" where
  "first_run bm n = (LEAST j. run_at bm j n)"

lemma first_run_run: "run_at bm j n \<Longrightarrow> run_at bm (first_run bm n) n"
  unfolding first_run_def by (rule LeastI)

lemma alloc_continuous_step:
  assumes "pmm_geom_ok bm" "i < frame_span bm"
  shows "alloc_continuous_loop bm (PHY_FRAME_SIZE * i) ret cnt n =
    (let ret' = if cnt = 0 then PHY_FRAME_SIZE * i else ret
     in if \<not> frame_free bm i then alloc_continuous_loop bm (PHY_FRAME_SIZE * Suc i) 0 0 n
        else if cnt + 1 = n
        then Option.bind (mark_continuous bm ret' (PHY_FRAME_SIZE * Suc i - 1) True)
               (\<lambda>bm'. Some (Some ret', bm'))
        else alloc_continuous_loop bm (PHY_FRAME_SIZE * Suc i) ret' (cnt + 1) n)"
proof -
  have l: "PHY_FRAME_SIZE * i < last_phys_addr bm"
    using assms by (simp add: scanned_iff)
  have a: "uadd (PHY_FRAME_SIZE * i) PHY_FRAME_SIZE = PHY_FRAME_SIZE * Suc i"
    using l assms(1) by (simp add: uadd_exact pmm_geom_ok_def span_ok_def)
  have e: "usub (PHY_FRAME_SIZE * Suc i) 1 = PHY_FRAME_SIZE * Suc i - 1"
    by (simp add: usub_exact)
  have c: "cnt + 1 = 1 \<longleftrightarrow> cnt = 0" by simp
  show ?thesis
    by (subst alloc_continuous_loop.simps) (simp only: l is_used_iff a e c Let_def, simp)
qed

lemma alloc_continuous_loop_eq:
  assumes "pmm_geom_ok bm" "i \<le> frame_span bm" "cnt \<le> i" "cnt < n"
    and "{i - cnt..<i} \<subseteq> free_set bm" "0 < cnt \<Longrightarrow> ret = PHY_FRAME_SIZE * (i - cnt)"
    and "\<And>j. j < i - cnt \<Longrightarrow> \<not> run_at bm j n"
  shows "alloc_continuous_loop bm (PHY_FRAME_SIZE * i) ret cnt n =
    (if \<exists>j. run_at bm j n
     then Some (Some (PHY_FRAME_SIZE * first_run bm n),
            mark_frames bm [first_run bm n..<first_run bm n + n] True)
     else Some (None, bm))"
  using assms(2-)
proof (induction "frame_span bm - i" arbitrary: i ret cnt)
  case 0
  have "\<not> run_at bm j n" for j
  proof
    assume r: "run_at bm j n"
    then have "j + n \<le> i" using run_at_span [OF r] 0 by simp
    then have "j < i - cnt" using 0 by simp
    then show False using r 0 by blast
  qed
  moreover have "\<not> PHY_FRAME_SIZE * i < last_phys_addr bm"
    using 0 scanned_iff [OF assms(1)] by simp
  ultimately show ?case
    by (subst alloc_continuous_loop.simps) simp
next
  case (Suc d)
  then have i: "i < frame_span bm" and l: "PHY_FRAME_SIZE * i < last_phys_addr bm"
    by (simp_all add: scanned_iff [OF assms(1)])
  note step = alloc_continuous_step [OF assms(1) i, of ret cnt n, unfolded Let_def]
  show ?case
  proof (cases "frame_free bm i")
    case False
    have "\<not> run_at bm j n" if "j < Suc i" for j
    proof (cases "j < i - cnt")
      case True
      then show ?thesis by (rule Suc.prems(6))
    next
      case c: False
      have "i \<in> {j..<j + n}" using that c Suc.prems(2,3) by auto
      then show ?thesis using False by (auto simp: run_at_def free_set_def)
    qed
    then show ?thesis
      using Suc.hyps(1) [of "Suc i" 0 0] Suc.hyps(2) Suc.prems i step False by simp
  next
    case True
    let ?ret = "if cnt = 0 then PHY_FRAME_SIZE * i else ret"
    have ret: "?ret = PHY_FRAME_SIZE * (i - cnt)"
      using Suc.prems(5) by auto
    have run: "{i - cnt..<Suc i} \<subseteq> free_set bm"
    proof -
      have "{i - cnt..<Suc i} = insert i {i - cnt..<i}"
        by auto
      then show ?thesis using Suc.prems(4) True i by (simp add: free_set_def)
    qed
    show ?thesis
    proof (cases "cnt + 1 = n")
      case cn: True
      have j: "i - cnt + n = Suc i" and n0: "0 < n" using cn Suc.prems(2) by auto
      have r: "run_at bm (i - cnt) n"
        using run unfolding run_at_def j .
      have first: "first_run bm n = i - cnt"
        unfolding first_run_def
      proof (rule Least_equality)
        show "i - cnt \<le> y" if "run_at bm y n" for y
          using that Suc.prems(6) leI by blast
      qed (rule r)
      have "PHY_FRAME_SIZE * (i - cnt + n) - 1 + PHY_FRAME_SIZE \<le> usize_span"
        using frame_span_bound [OF assms(1)] i unfolding j by simp
      then have "mark_continuous bm ?ret (PHY_FRAME_SIZE * Suc i - 1) True =
          Some (mark_frames bm [i - cnt..<i - cnt + n] True)"
        unfolding mark_continuous_def ret j [symmetric]
        by (simp only: mark_range_eq frames_from_aligned(2) [OF n0])
      then have "alloc_continuous_loop bm (PHY_FRAME_SIZE * i) ret cnt n =
          Some (Some (PHY_FRAME_SIZE * (i - cnt)), mark_frames bm [i - cnt..<i - cnt + n] True)"
        using True cn step unfolding ret by (simp del: mult_Suc_right)
      then show ?thesis using r first by auto
    next
      case cn: False
      have step': "alloc_continuous_loop bm (PHY_FRAME_SIZE * i) ret cnt n =
          alloc_continuous_loop bm (PHY_FRAME_SIZE * Suc i) ?ret (cnt + 1) n"
        using True cn step by simp
      show ?thesis
        unfolding step'
      proof (rule Suc.hyps(1))
        show "d = frame_span bm - Suc i" "Suc i \<le> frame_span bm"
          using Suc.hyps(2) i by simp_all
        show "cnt + 1 \<le> Suc i" "cnt + 1 < n"
          using Suc.prems(2,3) cn by simp_all
        show "{Suc i - (cnt + 1)..<Suc i} \<subseteq> free_set bm"
          using run by simp
        show "?ret = PHY_FRAME_SIZE * (Suc i - (cnt + 1))"
          using ret by simp
        show "\<not> run_at bm j n" if "j < Suc i - (cnt + 1)" for j
          using that Suc.prems(6) by simp
      qed
    qed
  qed
qed

lemma run_at_card: "run_at bm j n \<Longrightarrow> n \<le> card (free_set bm)"
  using card_mono [OF finite_free_set, of "{j..<j + n}" bm] by (simp add: run_at_def)

lemma alloc_continuous_spec:
  assumes ok: "pmm_ok bm" and n: "0 < n"
  shows "alloc_continuous bm n =
    (if \<exists>j. run_at bm j n
     then Some (Inr (PHY_FRAME_SIZE * first_run bm n),
            mark_frames bm [first_run bm n..<first_run bm n + n] True)
     else Some (Inl OutOfMemory, bm))"
proof (cases "n \<le> card (free_set bm)")
  case True
  have g: "pmm_geom_ok bm" and c: "free_frames bm = card (free_set bm)"
    using ok by (simp_all add: pmm_ok_def)
  have f: "first_phys_addr bm = 0" using g by (simp add: pmm_geom_ok_def span_ok_def)
  show ?thesis
    using alloc_continuous_loop_eq [OF g, of 0 0 n 0] n True
    by (simp add: alloc_continuous_def c f)
next
  case False
  then show ?thesis
    using ok run_at_card [of bm _ n] by (auto simp: alloc_continuous_def pmm_ok_def)
qed

section \<open>Freeing\<close>

lemma red_zone_frame:
  assumes "pmm_geom_ok bm"
  shows "red_zone_start bm \<le> a \<and> a \<le> red_zone_end bm \<longleftrightarrow> in_red_zone bm (a div PHY_FRAME_SIZE)"
proof -
  obtain s where s: "red_zone_start bm = PHY_FRAME_SIZE * s"
    using assms by (auto simp: pmm_geom_ok_def span_ok_def)
  obtain e where e: "Suc (red_zone_end bm) = PHY_FRAME_SIZE * e"
    using assms by (auto simp: pmm_geom_ok_def span_ok_def)
  have "s \<le> a div PHY_FRAME_SIZE \<longleftrightarrow> s * PHY_FRAME_SIZE \<le> a"
    by (rule less_eq_div_iff_mult_less_eq) simp
  moreover have "a div PHY_FRAME_SIZE < e \<longleftrightarrow> a < e * PHY_FRAME_SIZE"
    by (rule div_less_iff_less_mult) simp
  ultimately show ?thesis
    using s e by (auto simp: in_red_zone_def less_Suc_eq_le [symmetric] mult.commute)
qed

lemma is_valid_iff:
  assumes "pmm_geom_ok bm"
  shows "is_valid bm a \<longleftrightarrow> a \<le> last_phys_addr bm \<and> \<not> in_red_zone bm (a div PHY_FRAME_SIZE)"
  using assms red_zone_frame [OF assms, of a]
  by (auto simp: is_valid_def pmm_geom_ok_def span_ok_def)

lemma valid_in_span: "a \<le> last_phys_addr bm \<Longrightarrow> a div PHY_FRAME_SIZE < frame_span bm"
  using div_le_mono [of a "last_phys_addr bm" PHY_FRAME_SIZE] by (simp add: frame_span_def)

lemma geometry_pm_free [simp]: "geometry (pm_free bm a) = geometry bm"
  by (simp add: pm_free_def)

lemmas pm_free_fields [simp] = geometry_fields [OF geometry_pm_free] pmm_geom_ok_cong [OF geometry_pm_free]

lemma pmm_ok_mark_one:
  assumes "pmm_ok bm" "is_valid bm a"
  shows "pmm_ok (mark bm a used)"
proof -
  let ?k = "a div PHY_FRAME_SIZE"
  have k: "?k < frame_span bm" "\<not> in_red_zone bm ?k"
    using assms is_valid_iff [OF pmm_ok_geom] valid_in_span by blast+
  have "mark bm a used = mark_frames bm [?k] used"
    by (simp add: mark_frame_of)
  then show ?thesis
    using k assms(1) pmm_ok_mark_used [of bm "[?k]"] pmm_ok_mark_free [of bm "[?k]"]
    by (cases used) simp_all
qed

lemma pmm_ok_pm_free: "pmm_ok bm \<Longrightarrow> pmm_ok (pm_free bm a)"
  by (simp add: pm_free_def pmm_ok_mark_one)

lemma free_set_pm_free:
  assumes "pmm_geom_ok bm"
  shows "free_set (pm_free bm a) =
    (if is_valid bm a then insert (a div PHY_FRAME_SIZE) (free_set bm) else free_set bm)"
  using assms valid_in_span [of a bm]
  by (auto simp: pm_free_def free_set_mark is_used_iff is_valid_iff free_set_def frame_free_mark)

lemma pm_free_frames_spec:
  assumes "pmm_ok bm"
  shows "pmm_ok (pm_free_frames bm fs)"
    and "free_set (pm_free_frames bm fs) =
      free_set bm \<union> {a div PHY_FRAME_SIZE | a. a \<in> set fs \<and> is_valid bm a}"
    and "geometry (pm_free_frames bm fs) = geometry bm"
proof -
  have "pmm_ok (pm_free_frames bm fs) \<and> geometry (pm_free_frames bm fs) = geometry bm \<and>
     free_set (pm_free_frames bm fs) =
      free_set bm \<union> {a div PHY_FRAME_SIZE | a. a \<in> set fs \<and> is_valid bm a}"
    using assms
  proof (induction fs arbitrary: bm)
    case Nil
    then show ?case by (simp add: pm_free_frames_def)
  next
    case (Cons a fs)
    have "pm_free_frames bm (a # fs) = pm_free_frames (pm_free bm a) fs"
      by (simp add: pm_free_frames_def)
    then show ?case
      using Cons.IH [OF pmm_ok_pm_free, OF Cons.prems, of a]
        free_set_pm_free [OF pmm_ok_geom, OF Cons.prems, of a]
      by auto
  qed
  then show "pmm_ok (pm_free_frames bm fs)" "free_set (pm_free_frames bm fs) =
      free_set bm \<union> {a div PHY_FRAME_SIZE | a. a \<in> set fs \<and> is_valid bm a}"
    "geometry (pm_free_frames bm fs) = geometry bm" by simp_all
qed

lemma free_continuous_frames:
  "free_continuous bm a n = pm_free_frames bm (map (\<lambda>i. uadd a (umul i PHY_FRAME_SIZE)) [0..<n])"
  by (simp add: free_continuous_def pm_free_frames_def foldl_map)

lemma free_continuous_spec:
  assumes ok: "pmm_ok bm" and in_span: "j + n \<le> frame_span bm"
  shows "pmm_ok (free_continuous bm (PHY_FRAME_SIZE * j) n)"
    and "free_set (free_continuous bm (PHY_FRAME_SIZE * j) n) =
      free_set bm \<union> {k \<in> {j..<j + n}. \<not> in_red_zone bm k}"
    and "geometry (free_continuous bm (PHY_FRAME_SIZE * j) n) = geometry bm"
proof -
  have g: "pmm_geom_ok bm" using ok by (rule pmm_ok_geom)
  have a: "map (\<lambda>i. uadd (PHY_FRAME_SIZE * j) (umul i PHY_FRAME_SIZE)) [0..<n]
      = map ((*) PHY_FRAME_SIZE) [j..<j + n]"
  proof (rule nth_equalityI)
    fix i
    assume "i < length (map (\<lambda>i. uadd (PHY_FRAME_SIZE * j) (umul i PHY_FRAME_SIZE)) [0..<n])"
    then have "PHY_FRAME_SIZE * (j + i) < usize_span" and i: "i < n"
      using frame_span_bound [OF g] in_span by simp_all
    then have "uadd (PHY_FRAME_SIZE * j) (umul i PHY_FRAME_SIZE) = PHY_FRAME_SIZE * (j + i)"
      by (simp add: uadd_exact umul_exact)
    then show "map (\<lambda>i. uadd (PHY_FRAME_SIZE * j) (umul i PHY_FRAME_SIZE)) [0..<n] ! i =
        map ((*) PHY_FRAME_SIZE) [j..<j + n] ! i"
      using i by simp
  qed simp
  show "pmm_ok (free_continuous bm (PHY_FRAME_SIZE * j) n)"
    "geometry (free_continuous bm (PHY_FRAME_SIZE * j) n) = geometry bm"
    by (simp_all add: free_continuous_frames pm_free_frames_spec ok)
  have v: "is_valid bm (PHY_FRAME_SIZE * k) \<longleftrightarrow> \<not> in_red_zone bm k" if "k < frame_span bm" for k
    using that scanned_iff [OF g, of k] by (simp add: is_valid_iff [OF g])
  have "{b div PHY_FRAME_SIZE | b. b \<in> set (map ((*) PHY_FRAME_SIZE) [j..<j + n]) \<and> is_valid bm b}
      = {k \<in> {j..<j + n}. \<not> in_red_zone bm k}"
    using v in_span by (force simp: image_iff)
  then show "free_set (free_continuous bm (PHY_FRAME_SIZE * j) n) =
      free_set bm \<union> {k \<in> {j..<j + n}. \<not> in_red_zone bm k}"
    by (simp only: free_continuous_frames a pm_free_frames_spec(2) [OF ok])
qed

section \<open>Initialisation\<close>

lemma round_up_eq:
  assumes "n + m < usize_span" "0 < m"
  shows "round_up n m = (n + m - 1) div m * m"
proof -
  have "(n + m - 1) div m * m \<le> n + m - 1" by (rule div_times_less_eq_dividend)
  then have "umul ((n + m - 1) div m) m = (n + m - 1) div m * m"
    using assms by (intro umul_exact) linarith
  then show ?thesis
    using assms by (simp add: round_up_def uadd_exact usub_exact)
qed

lemma round_down_eq:
  assumes "n < usize_span"
  shows "round_down n m = n div m * m"
  unfolding round_down_def
  by (rule umul_exact) (rule le_less_trans [OF div_times_less_eq_dividend assms])

lemma last_usable_ge: "acc \<le> last_usable mmap acc"
proof (induction mmap acc rule: last_usable.induct)
  case (2 e mmap acc)
  let ?acc = "if me_avail e then (if uadd (me_base e) (me_len e) > acc
    then uadd (me_base e) (me_len e) else acc) else acc"
  have "acc \<le> ?acc" by simp
  also have "?acc \<le> last_usable mmap ?acc" by (rule 2)
  finally show ?case by simp
qed simp

lemma last_usable_entry:
  "e \<in> set mmap \<Longrightarrow> me_avail e \<Longrightarrow> me_base e + me_len e < usize_span \<Longrightarrow>
     me_base e + me_len e \<le> last_usable mmap acc"
proof (induction mmap arbitrary: acc)
  case (Cons a mmap)
  show ?case
  proof (cases "e = a")
    case True
    let ?acc = "if uadd (me_base e) (me_len e) > acc then uadd (me_base e) (me_len e) else acc"
    have "last_usable (a # mmap) acc = last_usable mmap ?acc"
      using True Cons.prems(2) by simp
    moreover have "me_base e + me_len e \<le> ?acc"
      using Cons.prems(3) by (simp add: uadd_exact)
    ultimately show ?thesis
      using last_usable_ge [of ?acc mmap] by linarith
  next
    case False
    with Cons show ?thesis by simp
  qed
qed simp

text \<open>The frames that one entry of the memory map marks.\<close>

definition entry_first :: "pm_map_element \<Rightarrow> nat" where
  "entry_first e = (me_base e + (PHY_FRAME_SIZE - 1)) div PHY_FRAME_SIZE"

definition entry_frames :: "pm_map_element \<Rightarrow> nat list" where
  "entry_frames e = [entry_first e ..< entry_first e + me_len e div PHY_FRAME_SIZE]"

definition entry_sane :: "pm_map_element \<Rightarrow> bool" where
  "entry_sane e \<longleftrightarrow> me_base e + me_len e + 3 * PHY_FRAME_SIZE \<le> usize_span
     \<and> PHY_FRAME_SIZE \<le> me_base e + me_len e"

lemma entry_first_le: "me_base e \<le> PHY_FRAME_SIZE * entry_first e"
  "PHY_FRAME_SIZE * entry_first e \<le> me_base e + (PHY_FRAME_SIZE - 1)"
proof -
  let ?x = "me_base e + (PHY_FRAME_SIZE - 1)"
  have "?x = PHY_FRAME_SIZE * (?x div PHY_FRAME_SIZE) + ?x mod PHY_FRAME_SIZE" by simp
  moreover have "?x mod PHY_FRAME_SIZE < PHY_FRAME_SIZE" by simp
  ultimately show "me_base e \<le> PHY_FRAME_SIZE * entry_first e"
    "PHY_FRAME_SIZE * entry_first e \<le> ?x"
    unfolding entry_first_def by linarith+
qed

lemma entry_first_aligned: "me_base e mod PHY_FRAME_SIZE = 0 \<Longrightarrow> PHY_FRAME_SIZE * entry_first e = me_base e"
  by (auto simp: entry_first_def)

lemma mark_entry:
  assumes "entry_sane e"
  shows "mark_continuous bm (round_up (me_base e) PHY_FRAME_SIZE)
      (usub (round_down (uadd (round_up (me_base e) PHY_FRAME_SIZE) (me_len e)) PHY_FRAME_SIZE) 1) used
    = Some (mark_frames bm (entry_frames e) used)"
proof -
  let ?f = "entry_first e" and ?n = "me_len e div PHY_FRAME_SIZE"
  have b: "me_base e + me_len e + 3 * PHY_FRAME_SIZE \<le> usize_span" "PHY_FRAME_SIZE \<le> me_base e + me_len e"
    using assms by (simp_all add: entry_sane_def)
  have s: "round_up (me_base e) PHY_FRAME_SIZE = PHY_FRAME_SIZE * ?f"
    using b by (simp add: round_up_eq entry_first_def mult.commute)
  have sl: "PHY_FRAME_SIZE * ?f + me_len e < usize_span"
    using b entry_first_le(2) [of e] by linarith
  have d: "(PHY_FRAME_SIZE * ?f + me_len e) div PHY_FRAME_SIZE = ?f + ?n"
    by simp
  have r: "round_down (uadd (PHY_FRAME_SIZE * ?f) (me_len e)) PHY_FRAME_SIZE = PHY_FRAME_SIZE * (?f + ?n)"
    using sl d by (simp only: uadd_exact round_down_eq mult.commute)
  have "0 < ?f \<or> 0 < ?n"
  proof (rule ccontr)
    assume "\<not> (0 < ?f \<or> 0 < ?n)"
    then have "?f = 0" "me_len e < PHY_FRAME_SIZE" by (simp_all add: div_eq_0_iff)
    moreover have "me_base e = 0" using entry_first_le(1) [of e] \<open>?f = 0\<close> by simp
    ultimately show False using b by simp
  qed
  then have "1 \<le> ?f + ?n" by linarith
  then have "PHY_FRAME_SIZE * 1 \<le> PHY_FRAME_SIZE * (?f + ?n)"
    by (rule mult_le_mono2)
  then have u: "usub (PHY_FRAME_SIZE * (?f + ?n)) 1 = PHY_FRAME_SIZE * (?f + ?n) - 1"
    by (intro usub_exact) (rule order_trans [rotated], assumption, simp)
  have "PHY_FRAME_SIZE * ?n \<le> me_len e" by simp
  then have e: "PHY_FRAME_SIZE * (?f + ?n) - 1 + PHY_FRAME_SIZE \<le> usize_span"
    using b entry_first_le(2) [of e] by simp
  show ?thesis
  proof (cases "?n = 0")
    case True
    then show ?thesis
      unfolding mark_continuous_def s r u mark_range_eq [OF e]
      by (simp add: frames_from_empty entry_frames_def)
  next
    case False
    then have n: "0 < ?n" by simp
    show ?thesis
      unfolding mark_continuous_def s r u mark_range_eq [OF e]
      by (simp only: frames_from_aligned(2) [OF n] entry_frames_def)
  qed
qed

definition pass_frames :: "usize \<Rightarrow> pm_map_element list \<Rightarrow> bool \<Rightarrow> nat list" where
  "pass_frames lim mmap avail = concat (map entry_frames
     (filter (\<lambda>e. me_avail e = avail \<and> round_up (me_base e) PHY_FRAME_SIZE < lim) mmap))"

lemma mark_entries_eq:
  assumes "\<forall>e \<in> set mmap. entry_sane e"
  shows "mark_entries bm mmap avail =
    Some (mark_frames bm (pass_frames (last_phys_addr bm) mmap avail) (\<not> avail))"
  using assms
proof (induction mmap arbitrary: bm)
  case Nil
  then show ?case by (simp add: pass_frames_def)
next
  case (Cons e mmap)
  then show ?case
    by (simp add: mark_entry [unfolded One_nat_def] pass_frames_def Let_def)
qed

text \<open>What the boot code must hand over: ranges far from the end of the address space, no
  entry that ends within the first frame, page-aligned starts of usable entries, no reserved
  entry across the top of usable memory, and room for the bitmap and the module below it.\<close>

definition kernel_bitmap_base :: "usize \<Rightarrow> (usize \<times> usize) option \<Rightarrow> usize" where
  "kernel_bitmap_base kernel_end kmod = (case kmod of
     Some (_, mod_end) \<Rightarrow>
       (max kernel_end mod_end + PHY_FRAME_SIZE) div PHY_FRAME_SIZE * PHY_FRAME_SIZE
   | None \<Rightarrow> (kernel_end + PHY_FRAME_SIZE) div PHY_FRAME_SIZE * PHY_FRAME_SIZE)"

definition boot_bitmap_size :: "usize \<Rightarrow> usize" where
  "boot_bitmap_size ram_top = (ram_top div PHY_FRAME_SIZE + 7) div 8 * 8"

definition boot_ok ::
  "pm_map_element list \<Rightarrow> usize \<Rightarrow> usize \<Rightarrow> (usize \<times> usize) option \<Rightarrow> bool" where
  "boot_ok mmap kernel_start kernel_end kmod \<longleftrightarrow>
     (let ram_top = last_usable mmap 0 in
      (\<forall>e \<in> set mmap. entry_sane e)
    \<and> (\<forall>e \<in> set mmap. if me_avail e then me_base e mod PHY_FRAME_SIZE = 0
         else me_base e + me_len e \<le> ram_top \<or> ram_top \<le> me_base e)
    \<and> PHY_FRAME_SIZE \<le> ram_top \<and> ram_top mod PHY_FRAME_SIZE \<noteq> 1
    \<and> ram_top + 3 * PHY_FRAME_SIZE \<le> usize_span
    \<and> kernel_start \<le> kernel_end
    \<and> kernel_bitmap_base kernel_end kmod + boot_bitmap_size ram_top \<le> ram_top
    \<and> (case kmod of None \<Rightarrow> True | Some (mod_start, mod_end) \<Rightarrow> mod_end \<le> ram_top))"

definition usable_frame :: "pm_map_element list \<Rightarrow> nat \<Rightarrow> bool" where
  "usable_frame mmap k \<longleftrightarrow> (\<exists>e \<in> set mmap. me_avail e \<and> me_base e \<le> PHY_FRAME_SIZE * k
     \<and> PHY_FRAME_SIZE * k + PHY_FRAME_SIZE \<le> me_base e + me_len e)"

definition reserved_frame :: "pm_map_element list \<Rightarrow> nat \<Rightarrow> bool" where
  "reserved_frame mmap k \<longleftrightarrow> (\<exists>e \<in> set mmap. \<not> me_avail e \<and> k \<in> set (entry_frames e))"

lemma entry_frames_aligned:
  assumes "me_base e mod PHY_FRAME_SIZE = 0"
  shows "k \<in> set (entry_frames e) \<longleftrightarrow> me_base e \<le> PHY_FRAME_SIZE * k
     \<and> PHY_FRAME_SIZE * k + PHY_FRAME_SIZE \<le> me_base e + me_len e"
proof -
  have f: "me_base e = PHY_FRAME_SIZE * entry_first e"
    using entry_first_aligned [OF assms] by simp
  have "k - entry_first e < me_len e div PHY_FRAME_SIZE \<longleftrightarrow>
      Suc (k - entry_first e) * PHY_FRAME_SIZE \<le> me_len e"
    using less_eq_div_iff_mult_less_eq [of PHY_FRAME_SIZE "Suc (k - entry_first e)" "me_len e"]
    by (simp add: Suc_le_eq)
  then show ?thesis
    unfolding f by (auto simp: entry_frames_def algebra_simps)
qed

lemma entry_start: "entry_sane e \<Longrightarrow> round_up (me_base e) PHY_FRAME_SIZE = PHY_FRAME_SIZE * entry_first e"
  by (simp add: entry_sane_def round_up_eq entry_first_def mult.commute)

lemma pass_usable:
  assumes boot: "boot_ok mmap ks ke kmod"
  shows "k \<in> set (pass_frames (last_usable mmap 0 - 1) mmap True) \<longleftrightarrow> usable_frame mmap k"
proof -
  let ?t = "last_usable mmap 0"
  have s: "entry_sane e" if "e \<in> set mmap" for e
    using boot that by (simp add: boot_ok_def Let_def)
  have al: "me_base e mod PHY_FRAME_SIZE = 0" if "e \<in> set mmap" "me_avail e" for e
    using boot that by (auto simp: boot_ok_def Let_def)
  have "round_up (me_base e) PHY_FRAME_SIZE < ?t - 1"
    if e: "e \<in> set mmap" "me_avail e" and k: "k \<in> set (entry_frames e)" for e
  proof -
    have "me_base e + me_len e \<le> ?t"
      using e s [of e] by (intro last_usable_entry) (simp_all add: entry_sane_def)
    moreover have "me_base e \<le> PHY_FRAME_SIZE * k"
      "PHY_FRAME_SIZE * k + PHY_FRAME_SIZE \<le> me_base e + me_len e"
      using k by (simp_all add: entry_frames_aligned [OF al [OF e]])
    ultimately show ?thesis
      unfolding entry_start [OF s [OF e(1)]] entry_first_aligned [OF al [OF e]] by linarith
  qed
  then show ?thesis
    using al by (auto simp: pass_frames_def usable_frame_def entry_frames_aligned)
qed

lemma usable_below_top:
  assumes boot: "boot_ok mmap ks ke kmod" and "usable_frame mmap k"
  shows "PHY_FRAME_SIZE * k + PHY_FRAME_SIZE \<le> last_usable mmap 0"
proof -
  obtain e where e: "e \<in> set mmap" "me_avail e"
    "PHY_FRAME_SIZE * k + PHY_FRAME_SIZE \<le> me_base e + me_len e"
    using assms(2) by (auto simp: usable_frame_def)
  have "entry_sane e"
    using boot e by (simp add: boot_ok_def Let_def)
  with e have "me_base e + me_len e \<le> last_usable mmap 0"
    by (intro last_usable_entry) (simp_all add: entry_sane_def)
  with e show ?thesis by simp
qed

lemma entry_frame_end:
  "k \<in> set (entry_frames e) \<Longrightarrow> PHY_FRAME_SIZE * k < me_base e + me_len e"
proof -
  assume k: "k \<in> set (entry_frames e)"
  then have "Suc k \<le> entry_first e + me_len e div PHY_FRAME_SIZE"
    by (simp add: entry_frames_def)
  then have "PHY_FRAME_SIZE * Suc k \<le> PHY_FRAME_SIZE * (entry_first e + me_len e div PHY_FRAME_SIZE)"
    by (rule mult_le_mono2)
  moreover have "PHY_FRAME_SIZE * (me_len e div PHY_FRAME_SIZE) \<le> me_len e" by simp
  ultimately show ?thesis using entry_first_le(2) [of e] by (simp add: distrib_left)
qed

lemma pass_reserved:
  assumes boot: "boot_ok mmap ks ke kmod"
  shows "k \<in> set (pass_frames (last_usable mmap 0 - 1) mmap False) \<Longrightarrow>
      PHY_FRAME_SIZE * k < last_usable mmap 0"
    and "usable_frame mmap k \<Longrightarrow>
      k \<in> set (pass_frames (last_usable mmap 0 - 1) mmap False) \<longleftrightarrow> reserved_frame mmap k"
proof -
  let ?t = "last_usable mmap 0"
  have s: "entry_sane e" if "e \<in> set mmap" for e
    using boot that by (simp add: boot_ok_def Let_def)
  have st: "round_up (me_base e) PHY_FRAME_SIZE = PHY_FRAME_SIZE * entry_first e" if "e \<in> set mmap" for e
    using entry_start s that by blast
  have r: "me_base e + me_len e \<le> ?t \<or> ?t \<le> me_base e" if "e \<in> set mmap" "\<not> me_avail e" for e
    using boot that by (auto simp: boot_ok_def Let_def)
  show "PHY_FRAME_SIZE * k < ?t" if k: "k \<in> set (pass_frames (?t - 1) mmap False)"
  proof -
    obtain e where e: "e \<in> set mmap" "\<not> me_avail e" "k \<in> set (entry_frames e)"
      "PHY_FRAME_SIZE * entry_first e < ?t - 1"
      using k st by (auto simp: pass_frames_def)
    then have "me_base e + me_len e \<le> ?t"
      using r [of e] entry_first_le(1) [of e] by auto
    then show ?thesis using entry_frame_end [OF e(3)] by simp
  qed
  assume u: "usable_frame mmap k"
  have "PHY_FRAME_SIZE * entry_first e < ?t - 1" if "k \<in> set (entry_frames e)" for e
  proof -
    have "PHY_FRAME_SIZE * entry_first e \<le> PHY_FRAME_SIZE * k"
      using that by (simp add: entry_frames_def)
    then show ?thesis using usable_below_top [OF boot u] by linarith
  qed
  then show "k \<in> set (pass_frames (?t - 1) mmap False) \<longleftrightarrow> reserved_frame mmap k"
    using st by (auto simp: pass_frames_def reserved_frame_def)
qed

lemma place_bitmap_ready:
  fixes ws ram mmap ks ke kmod
  defines "t \<equiv> last_usable mmap 0"
  defines "bm1 \<equiv> (new_frames_bitmap ws)\<lparr>last_phys_addr := usub t 1, total_frames := t div PHY_FRAME_SIZE,
      bm_size := round_up (t div PHY_FRAME_SIZE) 8\<rparr>"
  defines "bm \<equiv> place_bitmap bm1 ram ke kmod"
  assumes boot: "boot_ok mmap ks ke kmod"
  shows "count_ok bm" "free_set bm = {}" "last_phys_addr bm = t - 1"
    "bm_base bm = kernel_bitmap_base ke kmod" "bm_size bm = boot_bitmap_size t"
proof -
  have t: "PHY_FRAME_SIZE \<le> t" "t mod PHY_FRAME_SIZE \<noteq> 1" "t + 3 * PHY_FRAME_SIZE \<le> usize_span"
    and bb: "kernel_bitmap_base ke kmod \<le> t"
    using boot by (simp_all add: boot_ok_def t_def Let_def)
  have "t div PHY_FRAME_SIZE + 8 < usize_span"
    using t div_le_dividend [of t PHY_FRAME_SIZE] by linarith
  then have sz: "round_up (t div PHY_FRAME_SIZE) 8 = boot_bitmap_size t"
    by (subst round_up_eq) (simp_all add: boot_bitmap_size_def)
  show l: "last_phys_addr bm = t - 1" and sz': "bm_size bm = boot_bitmap_size t"
    using t by (simp_all add: bm_def bm1_def place_bitmap_def Let_def sz usub_exact)
  have near: "x + PHY_FRAME_SIZE < 2 * PHY_FRAME_SIZE + t"
    if "(x + PHY_FRAME_SIZE) div PHY_FRAME_SIZE * PHY_FRAME_SIZE \<le> t" for x
  proof -
    have "x + PHY_FRAME_SIZE = (x + PHY_FRAME_SIZE) div PHY_FRAME_SIZE * PHY_FRAME_SIZE
        + (x + PHY_FRAME_SIZE) mod PHY_FRAME_SIZE"
      by (rule div_mult_mod_eq [symmetric])
    moreover have "(x + PHY_FRAME_SIZE) mod PHY_FRAME_SIZE < PHY_FRAME_SIZE" by simp
    ultimately show ?thesis using that by linarith
  qed
  have up: "round_up (uadd x 1) PHY_FRAME_SIZE = (x + PHY_FRAME_SIZE) div PHY_FRAME_SIZE * PHY_FRAME_SIZE"
    if "(x + PHY_FRAME_SIZE) div PHY_FRAME_SIZE * PHY_FRAME_SIZE \<le> t" for x
    using near [OF that] t by (simp add: uadd_exact round_up_eq)
  show "bm_base bm = kernel_bitmap_base ke kmod"
    using bb up
    by (auto simp: bm_def place_bitmap_def Let_def kernel_bitmap_base_def max_def split: option.splits)
  have "\<not> frame_free bm k" if "k < frame_span bm" for k
  proof -
    have "k \<le> t div PHY_FRAME_SIZE"
      using that l div_le_mono [of "t - 1" t PHY_FRAME_SIZE] by (simp add: frame_span_def)
    moreover have "1 \<le> t div PHY_FRAME_SIZE"
      using t(1) div_le_mono [of PHY_FRAME_SIZE t PHY_FRAME_SIZE] by simp
    ultimately have "8 * (k div 64) < boot_bitmap_size t"
      unfolding boot_bitmap_size_def by linarith
    then have "bm_words bm (k div 64) = 0"
      by (simp add: bm_def bm1_def place_bitmap_def Let_def sz)
    then show ?thesis by (simp add: frame_free_def)
  qed
  then show e: "free_set bm = {}" by (auto simp: free_set_def)
  have "(t - 1) mod PHY_FRAME_SIZE \<noteq> 0"
  proof
    assume "(t - 1) mod PHY_FRAME_SIZE = 0"
    then obtain q where "t - 1 = PHY_FRAME_SIZE * q" by auto
    then have "t = PHY_FRAME_SIZE * q + 1" using t(1) by linarith
    then show False using t(2) by simp
  qed
  moreover have "first_phys_addr bm = 0" "free_frames bm = 0"
    by (simp_all add: bm_def bm1_def place_bitmap_def Let_def new_frames_bitmap_def)
  ultimately show "count_ok bm"
    using l t e by (simp add: count_ok_def span_ok_def)
qed

definition boot_red_end :: "pm_map_element list \<Rightarrow> usize \<Rightarrow> (usize \<times> usize) option \<Rightarrow> nat" where
  "boot_red_end mmap ke kmod =
     (kernel_bitmap_base ke kmod + boot_bitmap_size (last_usable mmap 0) + (PHY_FRAME_SIZE - 1))
       div PHY_FRAME_SIZE"

definition module_frames :: "(usize \<times> usize) option \<Rightarrow> nat list" where
  "module_frames kmod = (case kmod of None \<Rightarrow> [] | Some (s, e) \<Rightarrow> frames_from s e)"

lemma count_ok_red_zone [simp]:
  "count_ok (bm\<lparr>red_zone_start := s, red_zone_end := e\<rparr>) = count_ok bm"
  "free_set (bm\<lparr>red_zone_start := s, red_zone_end := e\<rparr>) = free_set bm"
  "frame_span (bm\<lparr>red_zone_start := s, red_zone_end := e\<rparr>) = frame_span bm"
  by (simp_all add: count_ok_def span_ok_def free_set_def frame_span_def frame_free_def)

lemma boot_red_facts:
  assumes boot: "boot_ok mmap ks ke kmod"
  defines "t \<equiv> last_usable mmap 0"
  shows "round_down ks PHY_FRAME_SIZE = PHY_FRAME_SIZE * (ks div PHY_FRAME_SIZE)"
    and "usub (round_up (uadd (kernel_bitmap_base ke kmod) (boot_bitmap_size t)) PHY_FRAME_SIZE) 1 =
      PHY_FRAME_SIZE * boot_red_end mmap ke kmod - 1"
    and "ks div PHY_FRAME_SIZE < boot_red_end mmap ke kmod"
    and "k < boot_red_end mmap ke kmod \<Longrightarrow> PHY_FRAME_SIZE * k < t"
proof -
  let ?b = "kernel_bitmap_base ke kmod" and ?z = "boot_bitmap_size t"
  let ?E = "boot_red_end mmap ke kmod"
  have bz: "?b + ?z \<le> t" and t: "t + 3 * PHY_FRAME_SIZE \<le> usize_span" and kk: "ks \<le> ke"
    using boot by (simp_all add: boot_ok_def t_def Let_def)
  have kb: "(ke + PHY_FRAME_SIZE) div PHY_FRAME_SIZE * PHY_FRAME_SIZE \<le> ?b"
    by (auto simp: kernel_bitmap_base_def split: option.splits intro!: mult_le_mono1 div_le_mono)
  have q: "Suc (ks div PHY_FRAME_SIZE) \<le> (ke + PHY_FRAME_SIZE) div PHY_FRAME_SIZE"
    using div_le_mono [OF kk, of PHY_FRAME_SIZE] by simp
  have "?b div PHY_FRAME_SIZE \<le> ?E"
    unfolding boot_red_end_def t_def by (rule div_le_mono) simp
  moreover have "(ke + PHY_FRAME_SIZE) div PHY_FRAME_SIZE \<le> ?b div PHY_FRAME_SIZE"
    using div_le_mono [OF kb, of PHY_FRAME_SIZE] by simp
  ultimately show lt: "ks div PHY_FRAME_SIZE < ?E" using q by linarith
  have "ks < usize_span"
  proof -
    have "ke < (ke + PHY_FRAME_SIZE) div PHY_FRAME_SIZE * PHY_FRAME_SIZE"
      using mod_less_divisor [of PHY_FRAME_SIZE ke] div_mult_mod_eq [of ke PHY_FRAME_SIZE] by simp
    then show ?thesis using kk kb bz t by linarith
  qed
  then show "round_down ks PHY_FRAME_SIZE = PHY_FRAME_SIZE * (ks div PHY_FRAME_SIZE)"
    by (simp only: round_down_eq mult.commute)
  have "round_up (uadd ?b ?z) PHY_FRAME_SIZE = PHY_FRAME_SIZE * ?E"
    using bz t by (simp add: uadd_exact round_up_eq boot_red_end_def t_def mult.commute)
  then show "usub (round_up (uadd ?b ?z) PHY_FRAME_SIZE) 1 = PHY_FRAME_SIZE * ?E - 1"
    using lt by (simp add: usub_exact)
  assume k: "k < ?E"
  have "?E * PHY_FRAME_SIZE \<le> ?b + ?z + (PHY_FRAME_SIZE - 1)"
    unfolding boot_red_end_def t_def by (rule div_times_less_eq_dividend)
  moreover have "Suc k * PHY_FRAME_SIZE \<le> ?E * PHY_FRAME_SIZE"
    using k by (intro mult_le_mono1) simp
  ultimately show "PHY_FRAME_SIZE * k < t" using bz by simp
qed

lemma frames_from_bound: "k \<in> set (frames_from a e) \<Longrightarrow> PHY_FRAME_SIZE * k < e"
proof -
  assume k: "k \<in> set (frames_from a e)"
  let ?m = "(e - a + (PHY_FRAME_SIZE - 1)) div PHY_FRAME_SIZE"
  have lt: "a < e"
  proof (rule ccontr)
    assume "\<not> a < e"
    then show False using k by (simp add: frames_from_empty)
  qed
  have "Suc k \<le> a div PHY_FRAME_SIZE + ?m" using k by (simp add: frames_from_def)
  then have "PHY_FRAME_SIZE * Suc k \<le> PHY_FRAME_SIZE * (a div PHY_FRAME_SIZE + ?m)"
    by (rule mult_le_mono2)
  moreover have "PHY_FRAME_SIZE * (a div PHY_FRAME_SIZE) \<le> a"
    "PHY_FRAME_SIZE * ?m \<le> e - a + (PHY_FRAME_SIZE - 1)"
    by (rule times_div_less_eq_dividend)+
  moreover have "f * k < e" if "f + f * k \<le> x + y" "x \<le> a" "y \<le> e - a + (f - 1)" "0 < f" for f x y :: nat
    using that lt by linarith
  ultimately show ?thesis by (simp only: distrib_left mult_Suc_right)
qed

lemma pm_init_spec:
  assumes boot: "boot_ok mmap ks ke kmod"
  shows "\<exists>bm. pm_init (new_frames_bitmap ws) ram mmap ks ke kmod = Some bm \<and> pmm_ok bm
    \<and> last_phys_addr bm = last_usable mmap 0 - 1
    \<and> red_zone_start bm = PHY_FRAME_SIZE * (ks div PHY_FRAME_SIZE)
    \<and> red_zone_end bm = PHY_FRAME_SIZE * boot_red_end mmap ke kmod - 1
    \<and> free_set bm = {k. usable_frame mmap k \<and> \<not> reserved_frame mmap k
        \<and> \<not> (ks div PHY_FRAME_SIZE \<le> k \<and> k < boot_red_end mmap ke kmod)
        \<and> k \<notin> set (module_frames kmod)}"
proof -
  let ?t = "last_usable mmap 0" and ?E = "boot_red_end mmap ke kmod"
  let ?S = "ks div PHY_FRAME_SIZE"
  define bm1 where "bm1 = (new_frames_bitmap ws)\<lparr>last_phys_addr := usub ?t 1,
      total_frames := ?t div PHY_FRAME_SIZE, bm_size := round_up (?t div PHY_FRAME_SIZE) 8\<rparr>"
  define bm2 where "bm2 = place_bitmap bm1 ram ke kmod"
  note ready = place_bitmap_ready [OF boot, of ws ram, folded bm1_def, folded bm2_def]
  note red = boot_red_facts [OF boot]
  have sane: "\<forall>e \<in> set mmap. entry_sane e" and t: "?t + 3 * PHY_FRAME_SIZE \<le> usize_span"
    and kt: "case kmod of None \<Rightarrow> True | Some (mod_start, mod_end) \<Rightarrow> mod_end \<le> ?t"
    and t1: "PHY_FRAME_SIZE \<le> ?t"
    using boot by (simp_all add: boot_ok_def Let_def)
  have span: "k < frame_span bm2" if "PHY_FRAME_SIZE * k < ?t" for k
    using that t1 ready(3) less_eq_div_iff_mult_less_eq [of PHY_FRAME_SIZE k "?t - 1"]
    by (simp add: frame_span_def less_Suc_eq_le mult.commute)
  let ?A = "pass_frames (?t - 1) mmap True" and ?R = "pass_frames (?t - 1) mmap False"
  define bm3 where "bm3 = mark_frames bm2 ?A False"
  define bm4 where "bm4 = mark_frames bm3 ?R True"
  define bm5 where "bm5 = bm4\<lparr>red_zone_start := PHY_FRAME_SIZE * ?S, red_zone_end := PHY_FRAME_SIZE * ?E - 1\<rparr>"
  define bm6 where "bm6 = mark_frames bm5 [?S..<?E] True"
  define bm7 where "bm7 = mark_frames bm6 (module_frames kmod) True"
  have A: "set ?A \<subseteq> {..<frame_span bm2}"
    using pass_usable [OF boot] usable_below_top [OF boot] span by fastforce
  have R: "set ?R \<subseteq> {..<frame_span bm2}"
    using pass_reserved(1) [OF boot] span by auto
  have RZ: "set [?S..<?E] \<subseteq> {..<frame_span bm2}"
    using red(4) span by auto
  have M: "set (module_frames kmod) \<subseteq> {..<frame_span bm2}"
  proof (cases kmod)
    case (Some m)
    then obtain s e where m: "kmod = Some (s, e)" "e \<le> ?t" using kt by (cases m) auto
    have "k < frame_span bm2" if "k \<in> set (frames_from s e)" for k
      using frames_from_bound [OF that] m(2) by (intro span) (rule order_less_le_trans)
    then show ?thesis using m(1) by (auto simp: module_frames_def)
  qed (simp add: module_frames_def)
  have c5: "count_ok bm5"
    using ready(1) A R unfolding bm5_def bm4_def bm3_def by (simp add: count_ok_mark_frames)
  have sp5: "frame_span bm5 = frame_span bm2"
    unfolding bm5_def bm4_def bm3_def by simp
  have c7: "count_ok bm7"
    using c5 RZ M sp5 unfolding bm7_def bm6_def by (simp add: count_ok_mark_frames)
  have "free_set bm5 = set ?A - set ?R"
    using ready(2) A unfolding bm5_def bm4_def bm3_def
    by (simp add: free_set_mark_frames_used free_set_mark_frames_free)
  then have f7: "free_set bm7 = set ?A - set ?R - {?S..<?E} - set (module_frames kmod)"
    unfolding bm7_def bm6_def by (simp add: free_set_mark_frames_used)
  have E0: "0 < ?E" using red(3) by simp
  have rz: "red_zone_start bm7 = PHY_FRAME_SIZE * ?S" "red_zone_end bm7 = PHY_FRAME_SIZE * ?E - 1"
    unfolding bm7_def bm6_def bm5_def by simp_all
  have zone: "in_red_zone bm7 k \<longleftrightarrow> ?S \<le> k \<and> k < ?E" for k
    using E0 by (auto simp: in_red_zone_def rz less_eq_Suc_le)
  have Esuc: "Suc (PHY_FRAME_SIZE * ?E - 1) = PHY_FRAME_SIZE * ?E"
    using E0 by linarith
  have ok: "pmm_ok bm7"
    using c7 f7 zone unfolding pmm_ok_def count_ok_def pmm_geom_ok_def rz Esuc by simp
  have e3: "mark_entries bm2 mmap True = Some bm3"
    using mark_entries_eq [OF sane, of bm2 True] ready(3) by (simp add: bm3_def)
  have e4: "mark_entries bm3 mmap False = Some bm4"
    using mark_entries_eq [OF sane, of bm3 False] ready(3) by (simp add: bm4_def bm3_def)
  have Eb: "PHY_FRAME_SIZE * ?E \<le> ?t + PHY_FRAME_SIZE"
    using red(4) [of "?E - 1"] E0 by (simp add: diff_mult_distrib2)
  have n: "0 < ?E - ?S" and nE: "?S + (?E - ?S) = ?E" using red(3) by simp_all
  have e6: "mark_continuous bm5 (PHY_FRAME_SIZE * ?S) (PHY_FRAME_SIZE * ?E - 1) True = Some bm6"
    using Eb t frames_from_aligned(2) [OF n, of ?S, unfolded nE]
    unfolding mark_continuous_def bm6_def by (subst mark_range_eq) simp_all
  have e7: "mark_continuous bm6 s e True = Some bm7" if "kmod = Some (s, e)" for s e
    using that kt t unfolding mark_continuous_def bm7_def
    by (subst mark_range_eq) (simp_all add: module_frames_def)
  have b4: "bm_base bm4 = kernel_bitmap_base ke kmod" "bm_size bm4 = boot_bitmap_size ?t"
    using ready(4,5) geometry_mark_frames [of bm2 ?A False] geometry_mark_frames [of bm3 ?R True]
    unfolding bm4_def bm3_def by (simp_all add: geometry_def)
  have init: "pm_init (new_frames_bitmap ws) ram mmap ks ke kmod = Some bm7"
  proof -
    have "pm_init (new_frames_bitmap ws) ram mmap ks ke kmod =
      (case mark_continuous bm5 (PHY_FRAME_SIZE * ?S) (PHY_FRAME_SIZE * ?E - 1) True of
         None \<Rightarrow> None
       | Some bm6 \<Rightarrow> (case kmod of Some (mod_start, mod_end) \<Rightarrow> mark_continuous bm6 mod_start mod_end True
           | None \<Rightarrow> Some bm6))"
      unfolding pm_init_def Let_def bm1_def [symmetric] bm2_def [symmetric]
      by (simp only: e3 e4 option.case b4 red(1,2) bm5_def [symmetric]) (simp add: bm5_def)
    then show ?thesis
      using e6 e7 by (auto simp: bm7_def module_frames_def split: option.splits)
  qed
  have f: "free_set bm7 = {k. usable_frame mmap k \<and> \<not> reserved_frame mmap k
        \<and> \<not> (?S \<le> k \<and> k < ?E) \<and> k \<notin> set (module_frames kmod)}"
    using f7 pass_usable [OF boot] pass_reserved(2) [OF boot] by auto
  have "last_phys_addr bm7 = ?t - 1"
    using ready(3) unfolding bm7_def bm6_def bm5_def bm4_def bm3_def by simp
  with init ok rz f show ?thesis by blast
qed

section \<open>The manager as a pool of frames\<close>

definition managed_frames :: "frames_bitmap \<Rightarrow> nat set" where
  "managed_frames bm = {k. k < frame_span bm \<and> \<not> in_red_zone bm k}"

abbreviation frame_of :: "usize \<Rightarrow> nat" where
  "frame_of a \<equiv> a div PHY_FRAME_SIZE"

text \<open>The four ways to take frames, and the three to return them.\<close>

inductive pm_take :: "frames_bitmap \<Rightarrow> nat set \<Rightarrow> frames_bitmap \<Rightarrow> bool" where
  take_continuous: "alloc_continuous bm n = Some (Inr a, bm') \<Longrightarrow> 0 < n \<Longrightarrow>
     pm_take bm {frame_of a..<frame_of a + n} bm'"
| take_frames: "alloc_frames bm fs = returns (Inr c, fs', bm') \<Longrightarrow> fs \<noteq> [] \<Longrightarrow>
     pm_take bm (frame_of ` set fs') bm'"
| take_high: "alloc_high_frames bm fs = returns (Inr c, fs', bm') \<Longrightarrow> fs \<noteq> [] \<Longrightarrow>
     pm_take bm (frame_of ` set fs') bm'"
| take_one: "pm_alloc bm = returns (Inr a, bm') \<Longrightarrow> pm_take bm {frame_of a} bm'"

inductive pm_give :: "frames_bitmap \<Rightarrow> nat set \<Rightarrow> frames_bitmap \<Rightarrow> bool" where
  give_continuous: "j + n \<le> frame_span bm \<Longrightarrow>
     pm_give bm {j..<j + n} (free_continuous bm (PHY_FRAME_SIZE * j) n)"
| give_frames: "\<forall>a \<in> set fs. a mod PHY_FRAME_SIZE = 0 \<Longrightarrow>
     pm_give bm (frame_of ` set fs) (pm_free_frames bm fs)"
| give_one: "a mod PHY_FRAME_SIZE = 0 \<Longrightarrow> pm_give bm {frame_of a} (pm_free bm a)"

lemma frame_of_image [simp]: "frame_of ` set (map ((*) PHY_FRAME_SIZE) ks) = set ks"
  by (force simp: image_iff)

lemma aligned_valid:
  assumes "pmm_geom_ok bm" "a mod PHY_FRAME_SIZE = 0" "frame_of a \<in> managed_frames bm"
  shows "is_valid bm a"
proof -
  have "a = PHY_FRAME_SIZE * frame_of a" using assms(2) by auto
  then show ?thesis
    using assms(3) scanned_iff [OF assms(1), of "frame_of a"] is_valid_iff [OF assms(1), of a]
    by (simp add: managed_frames_def)
qed

lemma pm_take_facts:
  assumes "pm_take bm F bm'" "pmm_ok bm"
  shows "pmm_ok bm' \<and> F \<subseteq> free_set bm \<and> free_set bm' = free_set bm - F \<and> geometry bm' = geometry bm"
  using assms
proof (cases rule: pm_take.cases)
  case (take_continuous n a)
  then have "\<exists>j. run_at bm j n" "a = PHY_FRAME_SIZE * first_run bm n"
    "bm' = mark_frames bm [first_run bm n..<first_run bm n + n] True"
    using alloc_continuous_spec [OF assms(2) take_continuous(3)] by (auto split: if_splits)
  moreover from this(1) have r: "{first_run bm n..<first_run bm n + n} \<subseteq> free_set bm"
    using first_run_run by (auto simp: run_at_def)
  ultimately show ?thesis
    using take_continuous free_set_span [of bm] assms(2)
    by (auto simp: free_set_mark_frames_used intro!: pmm_ok_mark_used)
next
  case (take_frames fs c fs')
  then have "fs' = map ((*) PHY_FRAME_SIZE) (lowest_free bm (length fs))"
    "bm' = mark_frames bm (lowest_free bm (length fs)) True"
    using alloc_frames_spec [OF assms(2) take_frames(3)] by (auto split: if_splits)
  then show ?thesis
    using take_frames lowest_free_facts(1) [of bm "length fs"] free_set_span [of bm] assms(2)
    by (auto simp: free_set_mark_frames_used intro!: pmm_ok_mark_used simp del: set_map)
next
  case (take_high fs c fs')
  then have "fs' = map ((*) PHY_FRAME_SIZE) (highest_free bm (length fs))"
    "bm' = mark_frames bm (rev (highest_free bm (length fs))) True"
    using alloc_high_frames_spec [OF assms(2) take_high(3)] by (auto split: if_splits)
  then show ?thesis
    using take_high highest_free_facts(1) [of bm "length fs"] free_set_span [of bm] assms(2)
    by (auto simp: free_set_mark_frames_used intro!: pmm_ok_mark_used simp del: set_map)
next
  case (take_one a)
  then have ne: "free_set bm \<noteq> {}" and a: "a = PHY_FRAME_SIZE * Min (free_set bm)"
    and b: "bm' = mark_frames bm [Min (free_set bm)] True"
    using pm_alloc_spec [OF assms(2)] by (auto split: if_splits)
  then have m: "Min (free_set bm) \<in> free_set bm" by simp
  then have "pmm_ok bm'"
    unfolding b using free_set_span [of bm] assms(2) by (intro pmm_ok_mark_used) auto
  then show ?thesis
    using m b a take_one(1) by (simp only: free_set_mark_frames_used geometry_mark_frames) simp
qed

lemma pm_give_facts:
  assumes "pm_give bm F bm'" "pmm_ok bm"
  shows "pmm_ok bm' \<and> geometry bm' = geometry bm
    \<and> (F \<subseteq> managed_frames bm \<longrightarrow> free_set bm' = free_set bm \<union> F)"
  using assms
proof (cases rule: pm_give.cases)
  case (give_continuous j n)
  then show ?thesis
    using free_continuous_spec [OF assms(2) give_continuous(3)]
    by (auto simp: managed_frames_def)
next
  case (give_frames fs)
  have v: "is_valid bm a" if "a \<in> set fs" "frame_of ` set fs \<subseteq> managed_frames bm" for a
  proof (rule aligned_valid [OF pmm_ok_geom [OF assms(2)]])
    show "a mod PHY_FRAME_SIZE = 0" using that(1) give_frames(3) by blast
    show "frame_of a \<in> managed_frames bm" using that by blast
  qed
  have e: "{frame_of a | a. a \<in> set fs \<and> is_valid bm a} = frame_of ` set fs"
    if "frame_of ` set fs \<subseteq> managed_frames bm"
    unfolding image_def using v [OF _ that] by (intro Collect_cong) metis
  show ?thesis
    unfolding give_frames(1,2)
  proof (intro conjI impI)
    assume "frame_of ` set fs \<subseteq> managed_frames bm"
    then show "free_set (pm_free_frames bm fs) = free_set bm \<union> frame_of ` set fs"
      unfolding pm_free_frames_spec(2) [OF assms(2)] by (simp only: e)
  qed (rule pm_free_frames_spec [OF assms(2)])+
next
  case (give_one a)
  then show ?thesis
    using pmm_ok_pm_free [OF assms(2)] aligned_valid [OF pmm_ok_geom [OF assms(2)] give_one(3)]
    by (auto simp: free_set_pm_free pmm_ok_geom assms(2))
qed

lemma managed_cong:
  assumes "geometry bm' = geometry bm"
  shows "managed_frames bm' = managed_frames bm"
  unfolding managed_frames_def geometry_fields(5,6) [OF assms] ..

interpretation pm: frame_pool pmm_ok free_set managed_frames pm_take pm_give
proof unfold_locales
  fix s s' F
  assume ok: "pmm_ok s"
  show "free_set s \<subseteq> managed_frames s"
    using ok by (auto simp: pmm_ok_def managed_frames_def free_set_def)
  show "pmm_ok s'" "F \<subseteq> free_set s \<and> free_set s' = free_set s - F"
    "managed_frames s' = managed_frames s" if "pm_take s F s'"
    using pm_take_facts [OF that ok] managed_cong by blast+
  show "pmm_ok s'" "managed_frames s' = managed_frames s" if "pm_give s F s'"
    using pm_give_facts [OF that ok] managed_cong by blast+
  show "free_set s' = free_set s \<union> F" if "pm_give s F s'" "F \<subseteq> managed_frames s"
    using pm_give_facts [OF that(1) ok] that(2) by simp
qed

text \<open>Any sequence of allocations and matching frees, with the list of what is out.\<close>

inductive pm_trace :: "frames_bitmap \<Rightarrow> frames_bitmap \<Rightarrow> nat set list \<Rightarrow> bool" for bm0 where
  trace_start: "pm_trace bm0 bm0 []"
| trace_take: "pm_trace bm0 bm L \<Longrightarrow> pm_take bm F bm' \<Longrightarrow> pm_trace bm0 bm' (F # L)"
| trace_give: "pm_trace bm0 bm L \<Longrightarrow> F \<in> set L \<Longrightarrow> pm_give bm F bm' \<Longrightarrow>
     pm_trace bm0 bm' (remove1 F L)"

lemma pm_trace_ledger:
  "pm_trace bm0 bm L \<Longrightarrow> pmm_ok bm0 \<Longrightarrow> pm.ledger_ok (free_set bm0) bm L"
  by (induction rule: pm_trace.induct)
    (auto intro: pm.ledger_start pm.ledger_take pm.ledger_give)

end
