(* ===== verification/Kernel_Heap.thy ===== *)
theory Kernel_Heap
  imports Phys_Mem
begin

text \<open>
  The kernel heap, \<^verbatim>\<open>kernel/src/mem/heap.rs\<close>: requests up to 4032 bytes are served from
  clusters of 64 equal units tracked by a 64-bit bitmap, described by pages of 255 cluster
  descriptors chained per size class; larger ones go to the physical memory manager.

  Descriptor pages are reached through raw pointers; the model keeps them in a store
  \<open>cdp_store\<close> from page addresses to their content. The words \<^verbatim>\<open>prev\<close> and \<^verbatim>\<open>next\<close> of a page
  multiplex an address (high 56 bits) with a byte of metadata, exactly as the code does.
  \<^verbatim>\<open>KALLOC_ROOT\<close> is locked for the whole of an allocation or a release, so both are single
  operations on the record \<open>kheap\<close>, which contains the manager's state.
\<close>

section \<open>Data\<close>

record kalloc_cd =
  base_addr :: usize
  au_bitmap :: u64

record kalloc_cd_page =
  descriptors :: "kalloc_cd list"
  prev_word :: u64
  next_word :: u64

record kheap =
  pmm :: frames_bitmap
  kalloc_root :: "usize list"
  cdp_store :: "usize \<Rightarrow> kalloc_cd_page"
  kalloc_desc_pages :: usize
  kalloc_cluster_pages :: usize

abbreviation DESCRIPTOR_COUNT :: nat where
  "DESCRIPTOR_COUNT \<equiv> 255"

abbreviation KALLOC_ROOT_ENTRIES :: nat where
  "KALLOC_ROOT_ENTRIES \<equiv> 64"

abbreviation LOW_BYTE :: u64 where
  "LOW_BYTE \<equiv> 0xFF"

abbreviation HIGH_BYTES :: u64 where
  "HIGH_BYTES \<equiv> 0xFFFFFFFFFFFFFF00"

definition kalloc_cd_new :: kalloc_cd where
  "kalloc_cd_new = \<lparr>base_addr = 0, au_bitmap = 0xFFFFFFFFFFFFFFFF\<rparr>"

section \<open>Descriptor pages\<close>

definition cdp_init :: "kheap \<Rightarrow> usize \<Rightarrow> usize \<Rightarrow> kheap" where
  "cdp_init h addr prev = h\<lparr>cdp_store := (cdp_store h)(addr :=
     \<lparr>descriptors = replicate DESCRIPTOR_COUNT kalloc_cd_new,
      prev_word = of_nat prev OR 0, next_word = 0xFF\<rparr>)\<rparr>"

definition get_desc_bitmap :: "kheap \<Rightarrow> usize \<Rightarrow> nat \<Rightarrow> u64" where
  "get_desc_bitmap h addr index = au_bitmap (descriptors (cdp_store h addr) ! index)"

definition get_desc_base :: "kheap \<Rightarrow> usize \<Rightarrow> nat \<Rightarrow> usize" where
  "get_desc_base h addr index = base_addr (descriptors (cdp_store h addr) ! index)"

definition cdp_prev :: "kheap \<Rightarrow> usize \<Rightarrow> usize" where
  "cdp_prev h addr = unat (prev_word (cdp_store h addr) AND HIGH_BYTES)"

definition free_desc_index :: "kheap \<Rightarrow> usize \<Rightarrow> usize" where
  "free_desc_index h addr = unat (prev_word (cdp_store h addr) AND LOW_BYTE)"

definition set_prev :: "kheap \<Rightarrow> usize \<Rightarrow> usize \<Rightarrow> kheap" where
  "set_prev h addr prev = (let dp = cdp_store h addr in
     h\<lparr>cdp_store := (cdp_store h)(addr :=
       dp\<lparr>prev_word := (prev_word dp AND LOW_BYTE) OR (of_nat prev AND HIGH_BYTES)\<rparr>)\<rparr>)"

definition set_free_desc_index :: "kheap \<Rightarrow> usize \<Rightarrow> usize \<Rightarrow> kheap" where
  "set_free_desc_index h addr index = (let dp = cdp_store h addr in
     h\<lparr>cdp_store := (cdp_store h)(addr :=
       dp\<lparr>prev_word := (prev_word dp AND HIGH_BYTES) OR (of_nat index AND LOW_BYTE)\<rparr>)\<rparr>)"

definition cdp_next :: "kheap \<Rightarrow> usize \<Rightarrow> usize" where
  "cdp_next h addr = unat (next_word (cdp_store h addr) AND HIGH_BYTES)"

definition free_desc_count :: "kheap \<Rightarrow> usize \<Rightarrow> usize" where
  "free_desc_count h addr = unat (next_word (cdp_store h addr) AND LOW_BYTE)"

definition set_next :: "kheap \<Rightarrow> usize \<Rightarrow> usize \<Rightarrow> kheap" where
  "set_next h addr nxt = (let dp = cdp_store h addr in
     h\<lparr>cdp_store := (cdp_store h)(addr :=
       dp\<lparr>next_word := (next_word dp AND LOW_BYTE) OR (of_nat nxt AND HIGH_BYTES)\<rparr>)\<rparr>)"

definition set_free_desc_count :: "kheap \<Rightarrow> usize \<Rightarrow> usize \<Rightarrow> kheap" where
  "set_free_desc_count h addr cnt = (let dp = cdp_store h addr in
     h\<lparr>cdp_store := (cdp_store h)(addr :=
       dp\<lparr>next_word := (next_word dp AND HIGH_BYTES) OR (of_nat cnt AND LOW_BYTE)\<rparr>)\<rparr>)"

text \<open>A write through \<^verbatim>\<open>&mut (*ptr).descriptors[index]\<close>.\<close>

definition put_desc :: "kheap \<Rightarrow> usize \<Rightarrow> nat \<Rightarrow> kalloc_cd \<Rightarrow> kheap" where
  "put_desc h addr index cd = (let dp = cdp_store h addr in
     h\<lparr>cdp_store := (cdp_store h)(addr := dp\<lparr>descriptors := (descriptors dp)[index := cd]\<rparr>)\<rparr>)"

definition alloc_and_init :: "kheap \<Rightarrow> usize \<Rightarrow> (usize \<times> kheap) run" where
  "alloc_and_init h prev = and_then (pm_alloc (pmm h))
     (\<lambda>(r, bm). case r of
        Inr addr \<Rightarrow>
          (let h1 = cdp_init (h\<lparr>pmm := bm\<rparr>) addr prev
           in returns (addr, h1\<lparr>kalloc_desc_pages := uadd (kalloc_desc_pages h1) 1\<rparr>))
      | Inl _ \<Rightarrow> panics)"

definition cdp_free :: "kheap \<Rightarrow> usize \<Rightarrow> kheap" where
  "cdp_free h addr =
     (let prev = cdp_prev h addr;
          nxt = cdp_next h addr;
          h1 = (if prev \<noteq> 0 then set_next h prev nxt else h);
          h2 = (if nxt \<noteq> 0 then set_prev h1 nxt prev else h1)
      in h2\<lparr>pmm := pm_free (pmm h2) addr, kalloc_desc_pages := usub (kalloc_desc_pages h2) 1\<rparr>)"

section \<open>Clusters\<close>

definition trailing_zeros :: "u64 \<Rightarrow> nat" where
  "trailing_zeros w = (case filter (bit w) [0..<64] of [] \<Rightarrow> 64 | i # _ \<Rightarrow> i)"

definition cluster_alloc :: "kheap \<Rightarrow> nat \<Rightarrow> (usize \<times> kheap) run" where
  "cluster_alloc h au_index =
     (case alloc_continuous (pmm h) au_index of
        None \<Rightarrow> None
      | Some (Inr addr, bm) \<Rightarrow>
          returns (addr, h\<lparr>pmm := bm,
            kalloc_cluster_pages := uadd (kalloc_cluster_pages h) au_index\<rparr>)
      | Some (Inl _, bm) \<Rightarrow> panics)"

definition cluster_free :: "kheap \<Rightarrow> usize \<Rightarrow> nat \<Rightarrow> kheap" where
  "cluster_free h addr au_index =
     h\<lparr>kalloc_cluster_pages := usub (kalloc_cluster_pages h) au_index,
       pmm := free_continuous (pmm h) addr au_index\<rparr>"

text \<open>Step 1: the first descriptor page of the chain with a free unit, and its count.\<close>

partial_function (option) find_free_page :: "kheap \<Rightarrow> usize \<Rightarrow> usize \<Rightarrow> (usize \<times> usize) option" where
  "find_free_page h cur cnt =
     (if cur \<noteq> 0 then
        (if free_desc_count h cur > 0 then Some (cur, free_desc_count h cur)
         else find_free_page h (cdp_next h cur) (free_desc_count h cur))
      else Some (cur, cnt))"

definition ensure_free_page :: "kheap \<Rightarrow> nat \<Rightarrow> usize \<Rightarrow> usize \<Rightarrow> (usize \<times> usize \<times> kheap) run" where
  "ensure_free_page h au_index cur cnt =
     (if cnt = 0 then
        and_then (alloc_and_init h 0)
          (\<lambda>(new, h1).
             (let h2 = set_next h1 new (kalloc_root h1 ! au_index);
                  h3 = set_prev h2 (kalloc_root h2 ! au_index) new;
                  h4 = h3\<lparr>kalloc_root := (kalloc_root h3)[au_index := new]\<rparr>
              in returns (new, free_desc_count h4 new, h4)))
      else returns (cur, cnt, h))"

text \<open>The scan for the new \<^verbatim>\<open>free_desc_index\<close> of a page.\<close>

definition first_nonfull :: "kheap \<Rightarrow> usize \<Rightarrow> nat" where
  "first_nonfull h addr =
     (case find (\<lambda>i. get_desc_bitmap h addr i \<noteq> 0) [0..<DESCRIPTOR_COUNT] of
        None \<Rightarrow> 0 | Some i \<Rightarrow> i)"

text \<open>Steps 2 to 5, on the page \<open>cur\<close> whose count is \<open>cnt\<close>.\<close>

definition take_unit :: "kheap \<Rightarrow> nat \<Rightarrow> usize \<Rightarrow> usize \<Rightarrow> (usize \<times> kheap) run" where
  "take_unit h au_index cur cnt =
     (let idx = free_desc_index h cur in
      if idx \<ge> DESCRIPTOR_COUNT then panics else
      let cd = descriptors (cdp_store h cur) ! idx in
      if au_bitmap cd = 0 then panics else
      and_then
        (if base_addr cd = 0
         then and_then (cluster_alloc h au_index)
                (\<lambda>(b, h1). returns (cd\<lparr>base_addr := b\<rparr>, h1))
         else returns (cd, h))
        (\<lambda>(cd, h1).
           let bit_index = trailing_zeros (au_bitmap cd) in
           if bit_index \<ge> 64 then panics else
           let offset = umul (umul bit_index au_index) 64;
               cd' = cd\<lparr>au_bitmap := au_bitmap cd AND NOT (push_bit bit_index 1)\<rparr>;
               h2 = put_desc h1 cur idx cd';
               h3 = (if au_bitmap cd' = 0 then
                       (let h' = set_free_desc_count h2 cur (usub cnt 1)
                        in if cnt > 1 then set_free_desc_index h' cur (first_nonfull h' cur) else h')
                     else h2)
           in returns (uadd (base_addr cd') offset, h3)))"

definition cluster_search_alloc :: "kheap \<Rightarrow> nat \<Rightarrow> (usize \<times> kheap) run" where
  "cluster_search_alloc h au_index =
     (case find_free_page h (kalloc_root h ! au_index) 0 of
        None \<Rightarrow> None
      | Some (cur, cnt) \<Rightarrow>
          and_then (ensure_free_page h au_index cur cnt)
            (\<lambda>(cur, cnt, h1). take_unit h1 au_index cur cnt))"

text \<open>The descriptor of a page whose cluster contains \<open>addr\<close>: the inner loop of
  \<^verbatim>\<open>cluster_search_free\<close> with its two \<^verbatim>\<open>continue\<close>s.\<close>

definition owning_desc :: "kheap \<Rightarrow> usize \<Rightarrow> usize \<Rightarrow> usize \<Rightarrow> nat option" where
  "owning_desc h page addr cluster_size =
     find (\<lambda>i. let b = get_desc_base h page i in
             \<not> (b = 0) \<and> \<not> (addr < b \<or> addr \<ge> uadd b cluster_size))
       [0..<DESCRIPTOR_COUNT]"

definition release_unit :: "kheap \<Rightarrow> nat \<Rightarrow> usize \<Rightarrow> usize \<Rightarrow> nat \<Rightarrow> kheap" where
  "release_unit h au_index page addr i =
     (let cd = descriptors (cdp_store h page) ! i;
          offset = usub addr (base_addr cd);
          bit_index = offset div umul au_index 64
      in if bit_index \<ge> 64 then h
         else
           let cd_was_full = (au_bitmap cd = 0);
               cd1 = cd\<lparr>au_bitmap := au_bitmap cd OR push_bit bit_index 1\<rparr>;
               h1 = put_desc h page i cd1;
               h2 = (if au_bitmap cd1 = 0xFFFFFFFFFFFFFFFF
                     then put_desc (cluster_free h1 (base_addr cd1) au_index) page i
                            (cd1\<lparr>base_addr := 0\<rparr>)
                     else h1);
               cdp_free_count = free_desc_count h2 page
           in if cd_was_full then
                (let h3 = set_free_desc_count h2 page (uadd cdp_free_count 1)
                 in if cdp_free_count = 0 then set_free_desc_index h3 page i else h3)
              else
                (let cur_idx = free_desc_index h2 page
                 in if i < cur_idx then set_free_desc_index h2 page i else h2))"

partial_function (option) free_search :: "kheap \<Rightarrow> nat \<Rightarrow> usize \<Rightarrow> usize \<Rightarrow> kheap option" where
  "free_search h au_index cur addr =
     (if cur \<noteq> 0 then
        (case owning_desc h cur addr (umul au_index PHY_FRAME_SIZE) of
           Some i \<Rightarrow> Some (release_unit h au_index cur addr i)
         | None \<Rightarrow> free_search h au_index (cdp_next h cur) addr)
      else Some h)"

definition cluster_search_free :: "kheap \<Rightarrow> usize \<Rightarrow> nat \<Rightarrow> kheap option" where
  "cluster_search_free h addr au_index = free_search h au_index (kalloc_root h ! au_index) addr"

section \<open>Entry points\<close>

definition tlsf_alloc :: "kheap \<Rightarrow> usize \<Rightarrow> usize \<Rightarrow> (usize \<times> kheap) run" where
  "tlsf_alloc h sz align =
     (if sz = 0 \<or> align > 64 then returns (0, h)
      else
        let au = round_up sz 64;
            au_index = au div 64
        in if au_index < KALLOC_ROOT_ENTRIES then
             and_then
               (if kalloc_root h ! au_index = 0
                then and_then (alloc_and_init h 0)
                       (\<lambda>(a, h1). returns (h1\<lparr>kalloc_root := (kalloc_root h1)[au_index := a]\<rparr>))
                else returns h)
               (\<lambda>h1. cluster_search_alloc h1 au_index)
           else returns (0, h))"

definition tlsf_free :: "kheap \<Rightarrow> usize \<Rightarrow> usize \<Rightarrow> (bool \<times> kheap) option" where
  "tlsf_free h ptr sz =
     (let au = round_up sz 64;
          au_index = au div 64
      in if au_index < KALLOC_ROOT_ENTRIES then
           (case cluster_search_free h ptr au_index of
              None \<Rightarrow> None | Some h1 \<Rightarrow> Some (True, h1))
         else Some (False, h))"

definition kalloc_alloc :: "kheap \<Rightarrow> usize \<Rightarrow> usize \<Rightarrow> (usize \<times> kheap) run" where
  "kalloc_alloc h sz align =
     and_then (tlsf_alloc h sz align)
       (\<lambda>(addr, h1).
          if addr = 0 then
            (let page_count = round_up sz PHY_FRAME_SIZE div PHY_FRAME_SIZE
             in case alloc_continuous (pmm h1) page_count of
                  None \<Rightarrow> None
                | Some (Inr pbase, bm) \<Rightarrow> returns (pbase, h1\<lparr>pmm := bm\<rparr>)
                | Some (Inl e, bm) \<Rightarrow> returns (0, h1\<lparr>pmm := bm\<rparr>))
          else returns (addr, h1))"

definition kalloc_dealloc :: "kheap \<Rightarrow> usize \<Rightarrow> usize \<Rightarrow> kheap option" where
  "kalloc_dealloc h ptr sz =
     (case tlsf_free h ptr sz of
        None \<Rightarrow> None
      | Some (ok, h1) \<Rightarrow>
          if ok = False then
            (let page_count = round_up sz PHY_FRAME_SIZE div PHY_FRAME_SIZE
             in Some (h1\<lparr>pmm := free_continuous (pmm h1) ptr page_count\<rparr>))
          else Some h1)"

definition metadata_pages_used :: "kheap \<Rightarrow> usize" where
  "metadata_pages_used h = kalloc_desc_pages h"

definition userdata_pages_used :: "kheap \<Rightarrow> usize" where
  "userdata_pages_used h = kalloc_cluster_pages h"

end
