(* ===== verification/Object_Allocator.thy ===== *)
theory Object_Allocator
  imports Blight_Prelude
begin

text \<open>
  What a heap promises to the code that allocates objects on it, whatever its data
  structures are: the set of live objects is exactly what the calls made it, and the extents
  of live objects never overlap each other or the memory the heap keeps for itself.
\<close>

locale object_allocator =
  fixes inv :: "'s \<Rightarrow> bool"
    and objs :: "'s \<Rightarrow> 'o set"
    and extent :: "'o \<Rightarrow> nat set"
    and spare :: "'s \<Rightarrow> nat set"
    and alloc :: "'s \<Rightarrow> 'o \<Rightarrow> 's \<Rightarrow> bool"
    and free :: "'s \<Rightarrow> 'o \<Rightarrow> 's \<Rightarrow> bool"
  assumes alloc_inv: "inv s \<Longrightarrow> alloc s x s' \<Longrightarrow> inv s'"
    and alloc_fresh: "inv s \<Longrightarrow> alloc s x s' \<Longrightarrow> x \<notin> objs s"
    and alloc_objs: "inv s \<Longrightarrow> alloc s x s' \<Longrightarrow> objs s' = insert x (objs s)"
    and free_inv: "inv s \<Longrightarrow> x \<in> objs s \<Longrightarrow> free s x s' \<Longrightarrow> inv s'"
    and free_objs: "inv s \<Longrightarrow> x \<in> objs s \<Longrightarrow> free s x s' \<Longrightarrow> objs s' = objs s - {x}"
    and extent_disjoint: "inv s \<Longrightarrow> x \<in> objs s \<Longrightarrow> y \<in> objs s \<Longrightarrow> x \<noteq> y \<Longrightarrow>
      extent x \<inter> extent y = {}"
    and extent_spare: "inv s \<Longrightarrow> x \<in> objs s \<Longrightarrow> extent x \<inter> spare s = {}"
begin

lemma alloc_free_restores:
  assumes "inv s" "alloc s x s'" "free s' x s''"
  shows "inv s'' \<and> objs s'' = objs s"
proof -
  have "inv s'" "x \<notin> objs s" "objs s' = insert x (objs s)"
    using assms alloc_inv alloc_fresh alloc_objs by blast+
  then show ?thesis using free_inv [of s' x s''] free_objs [of s' x s''] assms(3) by simp
qed

text \<open>A new object overlaps no object that was live before.\<close>

lemma alloc_apart:
  assumes "inv s" "alloc s x s'" "y \<in> objs s"
  shows "extent x \<inter> extent y = {}"
proof -
  have "inv s'" "x \<noteq> y" "x \<in> objs s'" "y \<in> objs s'"
    using assms alloc_inv alloc_fresh [OF assms(1,2)] alloc_objs [OF assms(1,2)] by auto
  then show ?thesis using extent_disjoint by blast
qed

text \<open>A client's history: what it was given and has not returned.\<close>

definition client_ok :: "'o set \<Rightarrow> 's \<Rightarrow> 'o list \<Rightarrow> bool" where
  "client_ok O0 s xs \<longleftrightarrow> inv s \<and> distinct xs \<and> set xs \<inter> O0 = {} \<and> objs s = set xs \<union> O0"

lemma client_start: "inv s \<Longrightarrow> client_ok (objs s) s []"
  by (simp add: client_ok_def)

lemma client_alloc: "client_ok O0 s xs \<Longrightarrow> alloc s x s' \<Longrightarrow> client_ok O0 s' (x # xs)"
  using alloc_inv [of s x s'] alloc_fresh [of s x s'] alloc_objs [of s x s']
  by (auto simp: client_ok_def)

lemma client_free:
  assumes "client_ok O0 s xs" "x \<in> set xs" "free s x s'"
  shows "client_ok O0 s' (remove1 x xs)"
proof -
  have i: "inv s" "x \<in> objs s" using assms(1,2) by (auto simp: client_ok_def)
  show ?thesis
    using free_inv [OF i assms(3)] free_objs [OF i assms(3)] assms(1,2)
    by (auto simp: client_ok_def)
qed

lemma client_disjoint:
  assumes "client_ok O0 s xs"
  shows "sorted_wrt (\<lambda>x y. extent x \<inter> extent y = {}) xs" "\<forall>x \<in> set xs. extent x \<inter> spare s = {}"
proof -
  have i: "inv s" "set xs \<subseteq> objs s" and d: "distinct xs" using assms by (auto simp: client_ok_def)
  from d i(2) show "sorted_wrt (\<lambda>x y. extent x \<inter> extent y = {}) xs"
  proof (induction xs)
    case (Cons x xs)
    have "extent x \<inter> extent y = {}" if "y \<in> set xs" for y
      using extent_disjoint [OF i(1), of x y] Cons.prems that by auto
    then show ?case using Cons by simp
  qed simp
  show "\<forall>x \<in> set xs. extent x \<inter> spare s = {}" using extent_spare [OF i(1)] i(2) by blast
qed

end

end
