(* ===== verification/Kernel_Heap_Inv.thy ===== *)
theory Kernel_Heap_Inv
  imports Kernel_Heap Object_Allocator
begin

text \<open>
  The invariant of the kernel heap and the lemmas about its operations.

  The ghost argument \<open>P\<close> lists, for each size class, the addresses of its descriptor pages
  in chain order (\<open>chain\<close> is the usual list abstraction of a linked structure). Every frame
  the heap holds has exactly one owner: a descriptor page, or the cluster of one descriptor.
  \<open>live\<close> is the set of allocated units, as pairs of a size class and an address.
\<close>

section \<open>The multiplexed words\<close>

lemma low_high_masks: "LOW_BYTE = mask 8" "HIGH_BYTES = NOT (mask 8)"
  by (simp_all add: mask_eq_exp_minus_1)

lemma mux_low_high:
  "((a AND LOW_BYTE) OR (b AND HIGH_BYTES)) AND LOW_BYTE = a AND LOW_BYTE"
  "((a AND LOW_BYTE) OR (b AND HIGH_BYTES)) AND HIGH_BYTES = b AND HIGH_BYTES"
  "((a AND HIGH_BYTES) OR (b AND LOW_BYTE)) AND LOW_BYTE = b AND LOW_BYTE"
  "((a AND HIGH_BYTES) OR (b AND LOW_BYTE)) AND HIGH_BYTES = a AND HIGH_BYTES"
  unfolding low_high_masks by (auto intro!: bit_eqI simp: bit_simps)

lemma unat_low_byte: "unat ((of_nat n :: u64) AND LOW_BYTE) = n mod 256"
proof -
  have "unat (take_bit 8 (of_nat n :: u64)) = take_bit 8 (unat (of_nat n :: u64))"
    by (rule unsigned_take_bit_eq)
  also have "\<dots> = n mod usize_span mod 256"
    by (simp add: unat_of_nat take_bit_eq_mod)
  also have "\<dots> = n mod 256"
    by (rule mod_mod_cancel) simp
  finally show ?thesis unfolding low_high_masks by (simp add: take_bit_eq_mask)
qed

lemma unat_high_bytes:
  assumes "p < usize_span" "p mod 256 = 0"
  shows "unat ((of_nat p :: u64) AND HIGH_BYTES) = p"
proof -
  have m: "(of_nat (2 ^ 8 - 1) :: u64) = mask 8"
    by (simp add: mask_eq_exp_minus_1)
  have "unat ((of_nat p :: u64) AND HIGH_BYTES) = and_not p (2 ^ 8 - 1)"
    unfolding and_not_def m low_high_masks ..
  also have "\<dots> = p" using assms and_not_mask [of p 8] by (auto simp: mult.commute)
  finally show ?thesis .
qed

abbreviation descs :: "kheap \<Rightarrow> usize \<Rightarrow> kalloc_cd list" where
  "descs h p \<equiv> descriptors (cdp_store h p)"

lemmas cdp_accessors = cdp_next_def free_desc_count_def free_desc_index_def cdp_prev_def get_desc_bitmap_def
  get_desc_base_def

lemma cdp_init_view [simp]:
  "descs (cdp_init h a v) p = (if p = a then replicate DESCRIPTOR_COUNT kalloc_cd_new else descs h p)"
  "cdp_next (cdp_init h a v) p = (if p = a then 0 else cdp_next h p)"
  "free_desc_count (cdp_init h a v) p = (if p = a then 255 else free_desc_count h p)"
  "p \<noteq> a \<Longrightarrow> free_desc_index (cdp_init h a v) p = free_desc_index h p"
  "free_desc_index (cdp_init h a 0) a = 0"
  "pmm (cdp_init h a v) = pmm h" "kalloc_root (cdp_init h a v) = kalloc_root h"
  by (simp_all add: cdp_init_def cdp_accessors)

lemma set_prev_view [simp]:
  "descs (set_prev h a v) p = descs h p"
  "cdp_next (set_prev h a v) p = cdp_next h p"
  "free_desc_count (set_prev h a v) p = free_desc_count h p"
  "free_desc_index (set_prev h a v) p = free_desc_index h p"
  "pmm (set_prev h a v) = pmm h" "kalloc_root (set_prev h a v) = kalloc_root h"
  by (simp_all add: set_prev_def cdp_accessors Let_def mux_low_high)

lemma set_next_view [simp]:
  "descs (set_next h a v) p = descs h p"
  "v < usize_span \<Longrightarrow> v mod 256 = 0 \<Longrightarrow>
     cdp_next (set_next h a v) p = (if p = a then v else cdp_next h p)"
  "free_desc_count (set_next h a v) p = free_desc_count h p"
  "free_desc_index (set_next h a v) p = free_desc_index h p"
  "pmm (set_next h a v) = pmm h" "kalloc_root (set_next h a v) = kalloc_root h"
  by (simp_all add: set_next_def cdp_accessors Let_def mux_low_high unat_high_bytes)

lemma set_count_view [simp]:
  "descs (set_free_desc_count h a v) p = descs h p"
  "cdp_next (set_free_desc_count h a v) p = cdp_next h p"
  "free_desc_count (set_free_desc_count h a v) p = (if p = a then v mod 256 else free_desc_count h p)"
  "free_desc_index (set_free_desc_count h a v) p = free_desc_index h p"
  "pmm (set_free_desc_count h a v) = pmm h"
  "kalloc_root (set_free_desc_count h a v) = kalloc_root h"
  by (simp_all add: set_free_desc_count_def cdp_accessors Let_def mux_low_high unat_low_byte)

lemma set_index_view [simp]:
  "descs (set_free_desc_index h a v) p = descs h p"
  "cdp_next (set_free_desc_index h a v) p = cdp_next h p"
  "free_desc_count (set_free_desc_index h a v) p = free_desc_count h p"
  "free_desc_index (set_free_desc_index h a v) p = (if p = a then v mod 256 else free_desc_index h p)"
  "pmm (set_free_desc_index h a v) = pmm h"
  "kalloc_root (set_free_desc_index h a v) = kalloc_root h"
  by (simp_all add: set_free_desc_index_def cdp_accessors Let_def mux_low_high unat_low_byte)

lemma put_desc_view [simp]:
  "descs (put_desc h a k cd) p = (if p = a then (descs h p)[k := cd] else descs h p)"
  "cdp_next (put_desc h a k cd) p = cdp_next h p"
  "free_desc_count (put_desc h a k cd) p = free_desc_count h p"
  "free_desc_index (put_desc h a k cd) p = free_desc_index h p"
  "pmm (put_desc h a k cd) = pmm h" "kalloc_root (put_desc h a k cd) = kalloc_root h"
  by (simp_all add: put_desc_def cdp_accessors Let_def)

lemma field_update_view [simp]:
  "cdp_next (h\<lparr>pmm := b\<rparr>) p = cdp_next h p" "cdp_next (h\<lparr>kalloc_root := r\<rparr>) p = cdp_next h p"
  "cdp_next (h\<lparr>kalloc_desc_pages := n\<rparr>) p = cdp_next h p"
  "cdp_next (h\<lparr>kalloc_cluster_pages := n\<rparr>) p = cdp_next h p"
  "free_desc_count (h\<lparr>pmm := b\<rparr>) p = free_desc_count h p"
  "free_desc_count (h\<lparr>kalloc_root := r\<rparr>) p = free_desc_count h p"
  "free_desc_count (h\<lparr>kalloc_desc_pages := n\<rparr>) p = free_desc_count h p"
  "free_desc_count (h\<lparr>kalloc_cluster_pages := n\<rparr>) p = free_desc_count h p"
  "free_desc_index (h\<lparr>pmm := b\<rparr>) p = free_desc_index h p"
  "free_desc_index (h\<lparr>kalloc_root := r\<rparr>) p = free_desc_index h p"
  "free_desc_index (h\<lparr>kalloc_desc_pages := n\<rparr>) p = free_desc_index h p"
  "free_desc_index (h\<lparr>kalloc_cluster_pages := n\<rparr>) p = free_desc_index h p"
  by (simp_all add: cdp_accessors)

section \<open>Bitmaps\<close>

lemma trailing_zeros_facts:
  assumes "w \<noteq> 0"
  shows "trailing_zeros w < 64" "bit w (trailing_zeros w)" "\<And>i. i < trailing_zeros w \<Longrightarrow> \<not> bit w i"
proof -
  have "\<exists>i < 64. bit w i"
  proof (rule ccontr)
    assume "\<not> (\<exists>i < 64. bit w i)"
    then have "w = 0" by (intro bit_word_eqI) simp
    then show False using assms by simp
  qed
  then obtain i js where f: "filter (bit w) [0..<64] = i # js"
    by (metis (no_types, lifting) atLeastLessThan_iff filter_empty_conv list.exhaust set_upt zero_le)
  then have t: "trailing_zeros w = i" by (simp add: trailing_zeros_def)
  have "i \<in> set (filter (bit w) [0..<64])" unfolding f by simp
  then show "trailing_zeros w < 64" "bit w (trailing_zeros w)" unfolding t by auto
  have s: "sorted_wrt (<) (filter (bit w) [0..<64])" by (intro sorted_wrt_filter) simp
  show "\<not> bit w j" if "j < trailing_zeros w" for j
  proof
    assume "bit w j"
    then have "j \<in> set (filter (bit w) [0..<64])"
      using that \<open>trailing_zeros w < 64\<close> by auto
    then show False using s that unfolding f t by auto
  qed
qed

lemma all_ones_iff: "w = 0xFFFFFFFFFFFFFFFF \<longleftrightarrow> (\<forall>b < 64. bit w b)" for w :: u64
proof -
  have m: "(0xFFFFFFFFFFFFFFFF :: u64) = -1" by simp
  show ?thesis unfolding m by (auto simp: bit_eq_iff)
qed


section \<open>The invariant\<close>

abbreviation ALL_FREE :: u64 where
  "ALL_FREE \<equiv> 0xFFFFFFFFFFFFFFFF"

text \<open>The frames of a descriptor's cluster in size class \<open>i\<close>, and the addresses of its
  allocated units.\<close>

definition cl_frames :: "nat \<Rightarrow> kalloc_cd \<Rightarrow> nat set" where
  "cl_frames i cd = (if base_addr cd = 0 then {}
     else {frame_of (base_addr cd)..<frame_of (base_addr cd) + i})"

definition cd_live :: "nat \<Rightarrow> kalloc_cd \<Rightarrow> usize set" where
  "cd_live i cd = (if base_addr cd = 0 then {}
     else {base_addr cd + b * (64 * i) | b. b < 64 \<and> \<not> bit (au_bitmap cd) b})"

definition cd_ok :: "kalloc_cd \<Rightarrow> bool" where
  "cd_ok cd \<longleftrightarrow> (if base_addr cd = 0 then au_bitmap cd = ALL_FREE
     else base_addr cd mod PHY_FRAME_SIZE = 0 \<and> au_bitmap cd \<noteq> ALL_FREE)"

definition nonfull :: "kheap \<Rightarrow> usize \<Rightarrow> nat \<Rightarrow> bool" where
  "nonfull h p k \<longleftrightarrow> au_bitmap (descs h p ! k) \<noteq> 0"

text \<open>A descriptor page is consistent: its count is the number of descriptors with a free
  unit, and its index points to one of them when there is any.\<close>

definition page_ok :: "kheap \<Rightarrow> usize \<Rightarrow> bool" where
  "page_ok h p \<longleftrightarrow> length (descs h p) = DESCRIPTOR_COUNT \<and> (\<forall>cd \<in> set (descs h p). cd_ok cd)
     \<and> free_desc_count h p = count_below DESCRIPTOR_COUNT (nonfull h p)
     \<and> (0 < free_desc_count h p \<longrightarrow>
          free_desc_index h p < DESCRIPTOR_COUNT \<and> nonfull h p (free_desc_index h p))"

primrec chain :: "kheap \<Rightarrow> usize \<Rightarrow> usize list \<Rightarrow> bool" where
  "chain h a [] \<longleftrightarrow> a = 0"
| "chain h a (p # ps) \<longleftrightarrow> a = p \<and> p \<noteq> 0 \<and> chain h (cdp_next h p) ps"

datatype owner = PageOf nat usize | ClusterOf nat usize nat

definition owners :: "(nat \<Rightarrow> usize list) \<Rightarrow> owner set" where
  "owners P = {PageOf i p | i p. i < KALLOC_ROOT_ENTRIES \<and> p \<in> set (P i)}
     \<union> {ClusterOf i p k | i p k. i < KALLOC_ROOT_ENTRIES \<and> p \<in> set (P i) \<and> k < DESCRIPTOR_COUNT}"

primrec own_frames :: "kheap \<Rightarrow> owner \<Rightarrow> nat set" where
  "own_frames h (PageOf i p) = {frame_of p}"
| "own_frames h (ClusterOf i p k) = cl_frames i (descs h p ! k)"

text \<open>\<open>P i\<close> lists the descriptor pages of class \<open>i\<close>. Every frame the heap holds has one
  owner, is managed and is not free.\<close>

definition heap_pages_ok :: "(nat \<Rightarrow> usize list) \<Rightarrow> kheap \<Rightarrow> bool" where
  "heap_pages_ok P h \<longleftrightarrow> (\<forall>i < KALLOC_ROOT_ENTRIES. chain h (kalloc_root h ! i) (P i) \<and> distinct (P i)
     \<and> (\<forall>p \<in> set (P i). p mod PHY_FRAME_SIZE = 0 \<and> page_ok h p))"

definition heap_owned_ok :: "(nat \<Rightarrow> usize list) \<Rightarrow> kheap \<Rightarrow> bool" where
  "heap_owned_ok P h \<longleftrightarrow>
     (\<forall>x \<in> owners P. own_frames h x \<subseteq> managed_frames (pmm h) - free_set (pmm h))
   \<and> (\<forall>x \<in> owners P. \<forall>y \<in> owners P. x \<noteq> y \<longrightarrow> own_frames h x \<inter> own_frames h y = {})"

definition heap_ok :: "(nat \<Rightarrow> usize list) \<Rightarrow> kheap \<Rightarrow> bool" where
  "heap_ok P h \<longleftrightarrow> pmm_ok (pmm h) \<and> 0 \<notin> free_set (pmm h)
     \<and> length (kalloc_root h) = KALLOC_ROOT_ENTRIES \<and> P 0 = []
     \<and> heap_pages_ok P h \<and> heap_owned_ok P h"

definition live :: "(nat \<Rightarrow> usize list) \<Rightarrow> kheap \<Rightarrow> (nat \<times> usize) set" where
  "live P h = {(i, a). i < KALLOC_ROOT_ENTRIES \<and>
     (\<exists>p \<in> set (P i). \<exists>k < DESCRIPTOR_COUNT. a \<in> cd_live i (descs h p ! k))}"

lemma heap_okD:
  assumes "heap_ok P h"
  shows "pmm_ok (pmm h)" "0 \<notin> free_set (pmm h)" "length (kalloc_root h) = KALLOC_ROOT_ENTRIES"
    "P 0 = []" "heap_pages_ok P h" "heap_owned_ok P h"
  using assms by (simp_all add: heap_ok_def)

lemma heap_pageD:
  assumes "heap_ok P h" "i < KALLOC_ROOT_ENTRIES"
  shows "chain h (kalloc_root h ! i) (P i)" "distinct (P i)"
    "\<And>p. p \<in> set (P i) \<Longrightarrow> p mod PHY_FRAME_SIZE = 0" "\<And>p. p \<in> set (P i) \<Longrightarrow> page_ok h p"
  using assms by (simp_all add: heap_ok_def heap_pages_ok_def)

lemma chain_nonzero: "chain h a ps \<Longrightarrow> p \<in> set ps \<Longrightarrow> p \<noteq> 0"
  by (induction ps arbitrary: a) auto

lemma chain_cong:
  "(\<And>p. p \<in> set ps \<Longrightarrow> cdp_next h' p = cdp_next h p) \<Longrightarrow> chain h' a ps = chain h a ps"
  by (induction ps arbitrary: a) auto

lemma page_ok_cong:
  assumes "descs h' p = descs h p" "free_desc_count h' p = free_desc_count h p"
    "free_desc_index h' p = free_desc_index h p"
  shows "page_ok h' p = page_ok h p"
proof -
  have "nonfull h' p = nonfull h p" by (simp add: fun_eq_iff nonfull_def assms)
  then show ?thesis by (simp add: page_ok_def assms)
qed

lemma ownersI:
  "i < KALLOC_ROOT_ENTRIES \<Longrightarrow> p \<in> set (P i) \<Longrightarrow> PageOf i p \<in> owners P"
  "i < KALLOC_ROOT_ENTRIES \<Longrightarrow> p \<in> set (P i) \<Longrightarrow> k < DESCRIPTOR_COUNT \<Longrightarrow> ClusterOf i p k \<in> owners P"
  by (auto simp: owners_def)

lemma page_class_unique:
  assumes "heap_ok P h" "i < KALLOC_ROOT_ENTRIES" "j < KALLOC_ROOT_ENTRIES" "p \<in> set (P i)" "p \<in> set (P j)"
  shows "i = j"
proof (rule ccontr)
  assume "i \<noteq> j"
  then have "own_frames h (PageOf i p) \<inter> own_frames h (PageOf j p) = {}"
    using heap_okD(6) [OF assms(1)] ownersI(1) assms(2-) unfolding heap_owned_ok_def
    by (metis owner.inject(1))
  then show False by simp
qed

section \<open>Two ways to change the heap\<close>

text \<open>A fresh descriptor page at the head of class \<open>i\<close>.\<close>

lemma heap_ok_new_page:
  assumes ok: "heap_ok P h" and i: "0 < i" "i < KALLOC_ROOT_ENTRIES"
    and a: "pm_alloc (pmm h) = returns (Inr a, pmm h')"
    and root: "kalloc_root h' = (kalloc_root h)[i := a]"
    and des: "\<And>p. descs h' p = (if p = a then replicate DESCRIPTOR_COUNT kalloc_cd_new else descs h p)"
    and nxt: "\<And>p. cdp_next h' p = (if p = a then kalloc_root h ! i else cdp_next h p)"
    and cnt: "\<And>p. free_desc_count h' p = (if p = a then 255 else free_desc_count h p)"
    and idx: "\<And>p. free_desc_index h' p = (if p = a then 0 else free_desc_index h p)"
  shows "heap_ok (P(i := a # P i)) h'" "live (P(i := a # P i)) h' = live P h"
    "a \<notin> set (P i)" "a \<noteq> 0" "managed_frames (pmm h') = managed_frames (pmm h)"
proof -
  let ?P = "P(i := a # P i)"
  note D = heap_okD [OF ok]
  have t: "pm_take (pmm h) {frame_of a} (pmm h')" using a by (rule pm_take.take_one)
  have f: "frame_of a \<in> free_set (pmm h)" "free_set (pmm h') = free_set (pmm h) - {frame_of a}"
    "pmm_ok (pmm h')"
    using pm_take_facts [OF t D(1)] by simp_all
  show m: "managed_frames (pmm h') = managed_frames (pmm h)" using pm.take_managed [OF D(1) t] .
  have al: "a mod PHY_FRAME_SIZE = 0"
    using pm_alloc_spec [OF D(1)] a by (auto split: if_splits)
  show a0: "a \<noteq> 0"
  proof
    assume "a = 0"
    then show False using f(1) D(2) by simp
  qed
  have new: "a \<notin> set (P j)" if "j < KALLOC_ROOT_ENTRIES" for j
  proof
    assume "a \<in> set (P j)"
    then have "own_frames h (PageOf j a) \<subseteq> managed_frames (pmm h) - free_set (pmm h)"
      using that D(6) ownersI(1) unfolding heap_owned_ok_def by blast
    then show False using f(1) by simp
  qed
  then show "a \<notin> set (P i)" using i by simp
  have same: "page_ok h' p = page_ok h p" "cdp_next h' p = cdp_next h p" "descs h' p = descs h p"
    if "p \<in> set (P j)" "j < KALLOC_ROOT_ENTRIES" for p j
  proof -
    have ne: "p \<noteq> a" using that new by blast
    then show "page_ok h' p = page_ok h p" by (intro page_ok_cong) (simp_all add: des cnt idx)
    show "cdp_next h' p = cdp_next h p" "descs h' p = descs h p"
      using ne by (simp_all add: des nxt)
  qed
  have fresh: "page_ok h' a"
  proof -
    have "nonfull h' a k" if "k < 255" for k
      using that by (simp add: nonfull_def des kalloc_cd_new_def)
    then have "count_below 255 (nonfull h' a) = count_below 255 (\<lambda>_. True)" "nonfull h' a 0"
      by (auto intro: count_below_cong)
    moreover have "count_below 255 (\<lambda>_. True) = 255" by (simp add: count_below_def)
    ultimately show ?thesis
      by (simp add: page_ok_def des cnt idx cd_ok_def kalloc_cd_new_def)
  qed
  have pages: "heap_pages_ok ?P h'"
    unfolding heap_pages_ok_def
  proof (intro allI impI)
    fix j assume j: "j < KALLOC_ROOT_ENTRIES"
    have c: "chain h' b (P j) = chain h b (P j)" for b
      using same(2) j by (intro chain_cong) blast
    note pj = heap_pageD [OF ok j]
    show "chain h' (kalloc_root h' ! j) (?P j) \<and> distinct (?P j)
        \<and> (\<forall>p \<in> set (?P j). p mod PHY_FRAME_SIZE = 0 \<and> page_ok h' p)"
      using pj same(1) j c new [OF j] a0 al fresh D(3) i root nxt by (auto simp: nth_list_update)
  qed
  have own: "own_frames h' x = own_frames h x" if "x \<in> owners P" for x
    using that same(3) by (cases x) (auto simp: owners_def)
  have own_new: "own_frames h' (PageOf i a) = {frame_of a}"
    "own_frames h' (ClusterOf i a k) = {}" if "k < DESCRIPTOR_COUNT" for k
    using that by (simp_all add: cl_frames_def des kalloc_cd_new_def)
  have ow: "owners ?P = owners P \<union> {PageOf i a} \<union> {ClusterOf i a k | k. k < DESCRIPTOR_COUNT}"
    using i by (auto simp: owners_def)
  have old: "own_frames h x \<subseteq> managed_frames (pmm h) - free_set (pmm h)" if "x \<in> owners P" for x
    using that D(6) by (simp add: heap_owned_ok_def)
  have avoid: "frame_of a \<notin> own_frames h x" if "x \<in> owners P" for x
    using old [OF that] f(1) by blast
  have "heap_owned_ok ?P h'"
    unfolding heap_owned_ok_def
  proof (intro conjI ballI impI)
    fix x assume "x \<in> owners ?P"
    then consider "x \<in> owners P" | "x = PageOf i a" | k where "x = ClusterOf i a k" "k < DESCRIPTOR_COUNT"
      unfolding ow by blast
    then show "own_frames h' x \<subseteq> managed_frames (pmm h') - free_set (pmm h')"
    proof cases
      case 1 then show ?thesis using old [OF 1] by (auto simp: own m f(2))
    next
      case 2 then show ?thesis using f(1,2) m pm.avail_managed [OF D(1)] by auto
    next
      case 3 then show ?thesis using own_new(2) by simp
    qed
  next
    fix x y assume xy: "x \<in> owners ?P" "y \<in> owners ?P" "x \<noteq> y"
    have "own_frames h' x \<inter> own_frames h' y = {}" if "x \<in> owners P" "y \<in> owners P"
      using that xy(3) D(6) by (simp add: own heap_owned_ok_def)
    moreover have "own_frames h' z = {} \<or> z \<in> owners P \<or> z = PageOf i a" if "z \<in> owners ?P" for z
      using that own_new(2) unfolding ow by auto
    ultimately show "own_frames h' x \<inter> own_frames h' y = {}"
      using xy avoid own own_new(1) by (metis disjoint_insert(1) inf_bot_left inf_bot_right inf_commute own_frames.simps(1))
  qed
  then show "heap_ok ?P h'"
    using f D i root pages by (simp add: heap_ok_def)
  have "cd_live j (kalloc_cd_new) = {}" for j by (simp add: cd_live_def kalloc_cd_new_def)
  then have none: "b \<notin> cd_live j (descs h' a ! k)" if "k < DESCRIPTOR_COUNT" for j b k
    using that by (simp add: des)
  have "(j, b) \<in> live ?P h' \<longleftrightarrow> (j, b) \<in> live P h" for j b
  proof (cases "j < KALLOC_ROOT_ENTRIES")
    case True
    have "(\<exists>p \<in> set (?P j). \<exists>k < DESCRIPTOR_COUNT. b \<in> cd_live j (descs h' p ! k))
        \<longleftrightarrow> (\<exists>p \<in> set (P j). \<exists>k < DESCRIPTOR_COUNT. b \<in> cd_live j (descs h' p ! k))"
      using none by auto
    also have "\<dots> \<longleftrightarrow> (\<exists>p \<in> set (P j). \<exists>k < DESCRIPTOR_COUNT. b \<in> cd_live j (descs h p ! k))"
      using same(3) [OF _ True] by (intro bex_cong) simp_all
    finally show ?thesis using True by (simp add: live_def)
  qed (simp add: live_def)
  then show "live ?P h' = live P h" by auto
qed


text \<open>A change of one descriptor.\<close>

lemma frame_of_mono: "a \<le> b \<Longrightarrow> frame_of a \<le> frame_of b"
  by (rule div_le_mono)

lemma cd_live_frames:
  assumes "cd_ok cd" "a \<in> cd_live i cd" "0 < i"
  shows "frame_of a \<in> cl_frames i cd"
proof -
  obtain b where b: "base_addr cd \<noteq> 0" "a = base_addr cd + b * (64 * i)" "b < 64"
    using assms(2) by (auto simp: cd_live_def split: if_splits)
  then have m: "base_addr cd mod PHY_FRAME_SIZE = 0"
    using assms(1) by (simp add: cd_ok_def)
  then obtain f where f: "base_addr cd = PHY_FRAME_SIZE * f"
    by (auto simp: mod_eq_0_iff_dvd)
  have "b * (64 * i) < i * PHY_FRAME_SIZE" using b(3) assms(3) by simp
  then have "b * (64 * i) div PHY_FRAME_SIZE < i" by (simp add: less_mult_imp_div_less)
  then show ?thesis
    using b f by (auto simp: cl_frames_def)
qed

lemma live_unique:
  assumes ok: "heap_ok P h" and i: "i < KALLOC_ROOT_ENTRIES" "p \<in> set (P i)" "k < DESCRIPTOR_COUNT"
    "a \<in> cd_live i (descs h p ! k)"
    and j: "j < KALLOC_ROOT_ENTRIES" "q \<in> set (P j)" "m < DESCRIPTOR_COUNT" "a \<in> cd_live j (descs h q ! m)"
  shows "j = i" "q = p" "m = k"
proof -
  have c: "frame_of a \<in> own_frames h (ClusterOf j q m) \<and> ClusterOf j q m \<in> owners P"
    if "j < KALLOC_ROOT_ENTRIES" "q \<in> set (P j)" "m < DESCRIPTOR_COUNT" "a \<in> cd_live j (descs h q ! m)"
    for j q m
  proof -
    have "cd_ok (descs h q ! m)" using heap_pageD(4) [OF ok that(1,2)] that(3) by (simp add: page_ok_def)
    moreover have "0 < j" using that(2) heap_okD(4) [OF ok] by (cases j) auto
    ultimately show ?thesis using cd_live_frames that(4) ownersI(2) [where P = P, OF that(1-3)] by simp
  qed
  have "ClusterOf i p k = ClusterOf j q m"
    using c [OF i] c [OF j] heap_okD(6) [OF ok] unfolding heap_owned_ok_def by (metis disjoint_iff)
  then show "j = i" "q = p" "m = k" by simp_all
qed

lemma heap_ok_desc_update:
  assumes ok: "heap_ok P h" and i: "i < KALLOC_ROOT_ENTRIES" and p: "p \<in> set (P i)"
    and k: "k < DESCRIPTOR_COUNT"
    and des: "\<And>q. descs h' q = (if q = p then (descs h p)[k := cd'] else descs h q)"
    and nxt: "\<And>q. cdp_next h' q = cdp_next h q"
    and cnt: "\<And>q. q \<noteq> p \<Longrightarrow> free_desc_count h' q = free_desc_count h q"
    and idx: "\<And>q. q \<noteq> p \<Longrightarrow> free_desc_index h' q = free_desc_index h q"
    and root: "kalloc_root h' = kalloc_root h"
    and pok: "page_ok h' p"
    and pm: "pmm_ok (pmm h')" "managed_frames (pmm h') = managed_frames (pmm h)" "0 \<notin> free_set (pmm h')"
    and grow: "cl_frames i cd' \<subseteq> cl_frames i (descs h p ! k) \<union> free_set (pmm h)"
    and shrink: "free_set (pmm h') \<subseteq> free_set (pmm h) \<union> cl_frames i (descs h p ! k)"
      "free_set (pmm h') \<inter> cl_frames i cd' = {}"
  shows "heap_ok P h'"
    "live P h' = live P h - Pair i ` cd_live i (descs h p ! k) \<union> Pair i ` cd_live i cd'"
proof -
  note D = heap_okD [OF ok]
  let ?c = "ClusterOf i p k"
  have i0: "0 < i" using p D(4) by (cases i) auto
  have c: "?c \<in> owners P" by (rule ownersI(2) [where P = P, OF i p k])
  have len: "length (descs h p) = DESCRIPTOR_COUNT"
    using heap_pageD(4) [OF ok i p] by (simp add: page_ok_def)
  have old: "own_frames h x \<subseteq> managed_frames (pmm h) - free_set (pmm h)" if "x \<in> owners P" for x
    using that D(6) by (simp add: heap_owned_ok_def)
  have dis: "own_frames h x \<inter> own_frames h y = {}" if "x \<in> owners P" "y \<in> owners P" "x \<noteq> y" for x y
    using that D(6) by (simp add: heap_owned_ok_def)
  have p_unique: "j = i" if "p \<in> set (P j)" "j < KALLOC_ROOT_ENTRIES" for j
    using page_class_unique [OF ok that(2) i that(1) p] .
  have own: "own_frames h' x = own_frames h x" if "x \<in> owners P" "x \<noteq> ?c" for x
    using that len by (cases x) (auto simp: owners_def des dest: p_unique)
  have own_c: "own_frames h' ?c = cl_frames i cd'" using len k by (simp add: des)
  have free_new: "free_set (pmm h) \<subseteq> managed_frames (pmm h)" using pm.avail_managed [OF D(1)] .
  have pages: "heap_pages_ok P h'"
    unfolding heap_pages_ok_def
  proof (intro allI impI)
    fix j assume j: "j < KALLOC_ROOT_ENTRIES"
    note pj = heap_pageD [OF ok j]
    have ch: "chain h' b (P j) = chain h b (P j)" for b by (intro chain_cong) (rule nxt)
    have "page_ok h' q" if "q \<in> set (P j)" for q
    proof (cases "q = p")
      case False
      have "page_ok h' q = page_ok h q"
        by (intro page_ok_cong) (simp_all add: des cnt idx False)
      then show ?thesis using pj(4) [OF that] by simp
    qed (simp add: pok)
    then show "chain h' (kalloc_root h' ! j) (P j) \<and> distinct (P j)
        \<and> (\<forall>p \<in> set (P j). p mod PHY_FRAME_SIZE = 0 \<and> page_ok h' p)"
      using pj root ch by simp
  qed
  have "heap_owned_ok P h'"
    unfolding heap_owned_ok_def
  proof (intro conjI ballI impI)
    fix x assume x: "x \<in> owners P"
    show "own_frames h' x \<subseteq> managed_frames (pmm h') - free_set (pmm h')"
    proof (cases "x = ?c")
      case True
      then show ?thesis using own_c grow shrink(2) old [OF c] free_new pm(2) by auto
    next
      case False
      then show ?thesis
        using own [OF x False] old [OF x] shrink(1) dis [OF x c False] pm(2) by auto
    qed
  next
    have aux: "own_frames h' ?c \<inter> own_frames h' y = {}" if y: "y \<in> owners P" "y \<noteq> ?c" for y
      using own [OF y] own_c grow old [OF y(1)] dis [OF c y(1)] y(2) by auto
    fix x y assume "x \<in> owners P" "y \<in> owners P" "x \<noteq> y"
    then show "own_frames h' x \<inter> own_frames h' y = {}"
      using aux [of x] aux [of y] own [of x] own [of y] dis [of x y] by (metis inf_commute)
  qed
  then show "heap_ok P h'" using D pm root pages by (simp add: heap_ok_def)
  have far: "a \<notin> cd_live j (descs h q ! m)"
    if a: "a \<in> cd_live i (descs h p ! k)" and q: "q \<in> set (P j)" "j < KALLOC_ROOT_ENTRIES" "m < DESCRIPTOR_COUNT"
      "(j, q, m) \<noteq> (i, p, k)" for a j q m
    using live_unique [OF ok i p k a q(2,1,3)] q(4) by blast
  have descr: "descs h' q ! m = (if q = p \<and> m = k then cd' else descs h q ! m)" if "m < DESCRIPTOR_COUNT" for q m
    using that len by (auto simp: des nth_list_update)
  have l: "live P h' = {(j, a). j < KALLOC_ROOT_ENTRIES \<and> (\<exists>q \<in> set (P j). \<exists>m < DESCRIPTOR_COUNT.
      a \<in> cd_live j (if q = p \<and> m = k then cd' else descs h q ! m))}"
    unfolding live_def using descr by (auto split: if_splits) metis+
  show "live P h' = live P h - Pair i ` cd_live i (descs h p ! k) \<union> Pair i ` cd_live i cd'"
  proof (intro set_eqI, clarify)
    fix j a
    show "(j, a) \<in> live P h' \<longleftrightarrow>
      (j, a) \<in> live P h - Pair i ` cd_live i (descs h p ! k) \<union> Pair i ` cd_live i cd'" (is "?l \<longleftrightarrow> ?r")
    proof
      assume ?l
      then obtain q m where q: "j < KALLOC_ROOT_ENTRIES" "q \<in> set (P j)" "m < DESCRIPTOR_COUNT"
        "a \<in> cd_live j (if q = p \<and> m = k then cd' else descs h q ! m)" unfolding l by blast
      show ?r
      proof (cases "q = p \<and> m = k")
        case True
        then show ?thesis using q p_unique [of j] by auto
      next
        case False
        have in_h: "a \<in> cd_live j (descs h q ! m)" using q(4) unfolding if_not_P [OF False] .
        then have "(j, a) \<in> live P h" using q by (auto simp: live_def)
        moreover have "a \<notin> cd_live i (descs h p ! k) \<or> j \<noteq> i"
          using far [of a q j m] in_h q False by auto
        ultimately show ?thesis by auto
      qed
    next
      assume r: ?r
      show ?l
      proof (cases "(j, a) \<in> Pair i ` cd_live i cd'")
        case True
        then show ?thesis using i p k unfolding l by auto
      next
        case False
        then have "(j, a) \<in> live P h" and n: "(j, a) \<notin> Pair i ` cd_live i (descs h p ! k)" using r by auto
        then obtain q m where q: "j < KALLOC_ROOT_ENTRIES" "q \<in> set (P j)" "m < DESCRIPTOR_COUNT"
          "a \<in> cd_live j (descs h q ! m)" by (auto simp: live_def)
        then have "\<not> (q = p \<and> m = k)" using n p_unique [of j] by auto
        then show ?thesis using q unfolding l by auto
      qed
    qed
  qed
qed


section \<open>Searching a chain\<close>

lemma find_free_page_chain:
  "chain h a ps \<Longrightarrow> find_free_page h a c =
     (case find (\<lambda>p. 0 < free_desc_count h p) ps of
        Some p \<Rightarrow> Some (p, free_desc_count h p)
      | None \<Rightarrow> Some (0, if ps = [] then c else 0))"
proof (induction ps arbitrary: a c)
  case Nil
  then show ?case by (subst find_free_page.simps) simp
next
  case (Cons p ps)
  then have a: "a = p" "p \<noteq> 0" by simp_all
  have "find_free_page h (cdp_next h p) (free_desc_count h p) =
     (case find (\<lambda>p. 0 < free_desc_count h p) ps of
        Some p \<Rightarrow> Some (p, free_desc_count h p)
      | None \<Rightarrow> Some (0, if ps = [] then free_desc_count h p else 0))"
    using Cons by simp
  then show ?case
    by (subst find_free_page.simps) (auto simp: a split: option.splits)
qed

lemma free_search_chain:
  "chain h a ps \<Longrightarrow> free_search h i a addr =
     (case find (\<lambda>p. owning_desc h p addr (umul i PHY_FRAME_SIZE) \<noteq> None) ps of
        Some p \<Rightarrow> Some (release_unit h i p addr (the (owning_desc h p addr (umul i PHY_FRAME_SIZE))))
      | None \<Rightarrow> Some h)"
proof (induction ps arbitrary: a)
  case Nil
  then show ?case by (subst free_search.simps) simp
next
  case (Cons p ps)
  then have a: "a = p" "p \<noteq> 0" by simp_all
  have ih: "free_search h i (cdp_next h p) addr =
     (case find (\<lambda>p. owning_desc h p addr (umul i PHY_FRAME_SIZE) \<noteq> None) ps of
        Some p \<Rightarrow> Some (release_unit h i p addr (the (owning_desc h p addr (umul i PHY_FRAME_SIZE))))
      | None \<Rightarrow> Some h)"
    using Cons by simp
  show ?case
    by (subst free_search.simps) (cases "owning_desc h p addr (umul i PHY_FRAME_SIZE)"; simp add: a ih)
qed

section \<open>Taking a unit\<close>

lemma first_nonfull_facts:
  assumes "\<exists>k < DESCRIPTOR_COUNT. nonfull h p k"
  shows "first_nonfull h p < DESCRIPTOR_COUNT" "nonfull h p (first_nonfull h p)"
proof -
  obtain k where k: "find (\<lambda>i. get_desc_bitmap h p i \<noteq> 0) [0..<DESCRIPTOR_COUNT] = Some k"
    using assms by (cases "find (\<lambda>i. get_desc_bitmap h p i \<noteq> 0) [0..<DESCRIPTOR_COUNT]")
      (auto simp: find_None_iff nonfull_def get_desc_bitmap_def)
  have "k < DESCRIPTOR_COUNT \<and> nonfull h p k"
    using k unfolding find_Some_iff by (auto simp: nonfull_def get_desc_bitmap_def)
  then show "first_nonfull h p < DESCRIPTOR_COUNT" "nonfull h p (first_nonfull h p)"
    using k by (simp_all add: first_nonfull_def)
qed

lemma page_ok_set_desc:
  assumes ok: "page_ok h p" and k: "k < DESCRIPTOR_COUNT" and cd: "cd_ok cd'"
    and des: "descs h' p = (descs h p)[k := cd']"
    and cnt: "free_desc_count h' p = count_below DESCRIPTOR_COUNT (nonfull h' p)"
    and idx: "0 < free_desc_count h' p \<Longrightarrow>
      free_desc_index h' p < DESCRIPTOR_COUNT \<and> nonfull h' p (free_desc_index h' p)"
  shows "page_ok h' p"
  using assms set_update_subset_insert [of "descs h p" k cd'] by (auto simp: page_ok_def)

lemma nonfull_set_desc:
  assumes "page_ok h p" "k < DESCRIPTOR_COUNT" "descs h' p = (descs h p)[k := cd']"
    "j < DESCRIPTOR_COUNT"
  shows "nonfull h' p j \<longleftrightarrow> (if j = k then au_bitmap cd' \<noteq> 0 else nonfull h p j)"
  using assms by (auto simp: nonfull_def page_ok_def nth_list_update)

lemma count_below_drop:
  assumes "k < n" "P k" "\<And>j. j < n \<Longrightarrow> Q j = (if j = k then b else P j)"
  shows "count_below n Q = (if b then count_below n P else count_below n P - 1)"
proof (cases b)
  case True
  have "Q j = P j" if "j < n" for j using assms(3) [OF that] assms(2) True by auto
  then have "count_below n Q = count_below n P" by (rule count_below_cong)
  then show ?thesis using True by simp
next
  case False
  have "count_below n Q = count_below n (\<lambda>j. P j \<and> j \<noteq> k)"
    using assms False by (intro count_below_cong) auto
  then show ?thesis using count_below_remove [of k n P] assms False by simp
qed


text \<open>A descriptor's unit \<open>t\<close> goes from free to allocated.\<close>

lemma cd_live_take:
  assumes "base_addr cd \<noteq> 0" "t < 64" "bit w t" "0 < i"
    "cd' = \<lparr>base_addr = base_addr cd, au_bitmap = w AND NOT (2 ^ t)\<rparr>" "au_bitmap cd = w"
  shows "cd_live i cd' = insert (base_addr cd + t * (64 * i)) (cd_live i cd)"
    "base_addr cd + t * (64 * i) \<notin> cd_live i cd"
proof -
  have "\<not> bit (au_bitmap cd') b \<longleftrightarrow> b = t \<or> \<not> bit w b" for b
    using assms by (auto simp: bit_clear_iff)
  then show "cd_live i cd' = insert (base_addr cd + t * (64 * i)) (cd_live i cd)"
    using assms by (auto simp: cd_live_def)
  show "base_addr cd + t * (64 * i) \<notin> cd_live i cd"
    using assms by (auto simp: cd_live_def)
qed

text \<open>The cluster behind the first free descriptor: the one it has, or a new one.\<close>

lemma cluster_ready:
  assumes ok: "pmm_ok (pmm h)" "0 \<notin> free_set (pmm h)" and cd: "cd_ok cd"
    and owned: "cl_frames i cd \<subseteq> managed_frames (pmm h) - free_set (pmm h)" and i: "0 < i"
  shows "(base_addr cd = 0 \<and> \<not> (\<exists>j. run_at (pmm h) j i) \<and>
      (if base_addr cd = 0 then and_then (cluster_alloc h i) (\<lambda>(b, h1). returns (cd\<lparr>base_addr := b\<rparr>, h1))
       else returns (cd, h)) = panics)
   \<or> (\<exists>b bm n. (if base_addr cd = 0 then and_then (cluster_alloc h i) (\<lambda>(b, h1). returns (cd\<lparr>base_addr := b\<rparr>, h1))
         else returns (cd, h)) = returns (cd\<lparr>base_addr := b\<rparr>, h\<lparr>pmm := bm, kalloc_cluster_pages := n\<rparr>)
       \<and> pmm_ok bm \<and> managed_frames bm = managed_frames (pmm h) \<and> free_set bm \<subseteq> free_set (pmm h)
       \<and> cl_frames i (cd\<lparr>base_addr := b\<rparr>) \<subseteq> cl_frames i cd \<union> free_set (pmm h)
       \<and> cl_frames i (cd\<lparr>base_addr := b\<rparr>) \<inter> free_set bm = {}
       \<and> b \<noteq> 0 \<and> b mod PHY_FRAME_SIZE = 0 \<and> b + i * PHY_FRAME_SIZE + PHY_FRAME_SIZE \<le> usize_span
       \<and> (base_addr cd \<noteq> 0 \<longrightarrow> b = base_addr cd))" (is "?A \<or> ?B")
proof (cases "base_addr cd = 0")
  case False
  have m: "base_addr cd mod PHY_FRAME_SIZE = 0" using False cd by (simp add: cd_ok_def)
  have "frame_of (base_addr cd) + i - 1 \<in> cl_frames i cd" using i False by (auto simp: cl_frames_def)
  then have "frame_of (base_addr cd) + i - 1 < frame_span (pmm h)"
    using owned by (auto simp: managed_frames_def)
  then have "frame_of (base_addr cd) + i \<le> frame_span (pmm h)" using i by linarith
  then have s: "PHY_FRAME_SIZE * (frame_of (base_addr cd) + i) + PHY_FRAME_SIZE \<le> usize_span"
    using frame_span_bound [OF pmm_ok_geom [OF ok(1)]] by simp
  have "PHY_FRAME_SIZE * frame_of (base_addr cd) = base_addr cd" using m by auto
  then have "base_addr cd + i * PHY_FRAME_SIZE + PHY_FRAME_SIZE \<le> usize_span"
    using s by (simp add: algebra_simps)
  moreover have "h\<lparr>pmm := pmm h, kalloc_cluster_pages := kalloc_cluster_pages h\<rparr> = h" by simp
  ultimately have ?B
    using False m owned ok
    by (intro exI [of _ "base_addr cd"] exI [of _ "pmm h"] exI [of _ "kalloc_cluster_pages h"]) auto
  then show ?thesis ..
next
  case True
  show ?thesis
  proof (cases "\<exists>j. run_at (pmm h) j i")
    case False
    then show ?thesis using True alloc_continuous_spec [OF ok(1) i] by (simp add: cluster_alloc_def)
  next
    case run: True
    let ?j = "first_run (pmm h) i"
    let ?bm = "mark_frames (pmm h) [?j..<?j + i] True"
    have a: "alloc_continuous (pmm h) i = Some (Inr (PHY_FRAME_SIZE * ?j), ?bm)"
      using alloc_continuous_spec [OF ok(1) i] run by simp
    have t: "pm_take (pmm h) {?j..<?j + i} ?bm"
      using pm_take.take_continuous [OF a i] by simp
    have f: "{?j..<?j + i} \<subseteq> free_set (pmm h)" "free_set ?bm = free_set (pmm h) - {?j..<?j + i}" "pmm_ok ?bm"
      using pm_take_facts [OF t ok(1)] by simp_all
    have j0: "?j \<noteq> 0"
    proof
      assume "?j = 0"
      then have "0 \<in> {?j..<?j + i}" using i by simp
      then show False using f(1) ok(2) by blast
    qed
    have "?j + i \<le> frame_span (pmm h)"
      using run first_run_run i by (metis run_at_span)
    then have "PHY_FRAME_SIZE * (?j + i) + PHY_FRAME_SIZE \<le> usize_span"
      using frame_span_bound [OF pmm_ok_geom [OF ok(1)]] by simp
    then have "?B"
      using True a f j0 pm.take_managed [OF ok(1) t]
      by (intro exI [of _ "PHY_FRAME_SIZE * ?j"] exI [of _ ?bm]
          exI [of _ "uadd (kalloc_cluster_pages h) i"])
        (auto simp: cluster_alloc_def cl_frames_def algebra_simps)
    then show ?thesis ..
  qed
qed


lemma take_unit_spec:
  assumes ok: "heap_ok P h" and i: "i < KALLOC_ROOT_ENTRIES" and p: "p \<in> set (P i)"
    and c: "c = free_desc_count h p" "0 < c"
  shows "(take_unit h i p c = panics \<and> \<not> (\<exists>j. run_at (pmm h) j i))
    \<or> (\<exists>a h'. take_unit h i p c = returns (a, h') \<and> heap_ok P h'
         \<and> (i, a) \<notin> live P h \<and> live P h' = insert (i, a) (live P h)
         \<and> managed_frames (pmm h') = managed_frames (pmm h) \<and> free_set (pmm h') \<subseteq> free_set (pmm h)
         \<and> a \<noteq> 0 \<and> a mod 64 = 0 \<and> a + 64 * i + PHY_FRAME_SIZE \<le> usize_span)" (is "?panic \<or> ?done")
proof -
  note D = heap_okD [OF ok]
  define k where "k = free_desc_index h p"
  define cd where "cd = descs h p ! k"
  have pok: "page_ok h p" using heap_pageD(4) [OF ok i p] .
  have i0: "0 < i" using p D(4) by (cases i) auto
  have k: "k < DESCRIPTOR_COUNT" "nonfull h p k" using pok c by (simp_all add: page_ok_def k_def)
  have w0: "au_bitmap cd \<noteq> 0" using k by (simp add: nonfull_def cd_def)
  have cdok: "cd_ok cd" using pok k by (simp add: page_ok_def cd_def)
  have owned: "cl_frames i cd \<subseteq> managed_frames (pmm h) - free_set (pmm h)"
    using D(6) ownersI(2) [where P = P, OF i p k(1)] unfolding heap_owned_ok_def cd_def by force
  have c_le: "c \<le> DESCRIPTOR_COUNT" using pok c count_below_le by (metis page_ok_def)
  show ?thesis
    using cluster_ready [OF D(1,2) cdok owned i0]
  proof (elim disjE exE conjE)
    assume a: "(if base_addr cd = 0 then and_then (cluster_alloc h i) (\<lambda>(b, h1). returns (cd\<lparr>base_addr := b\<rparr>, h1))
       else returns (cd, h)) = panics" and "\<not> (\<exists>j. run_at (pmm h) j i)"
    then have ?panic
      using k w0 by (simp add: take_unit_def Let_def a flip: cd_def k_def)
    then show ?thesis ..
  next
    fix b bm n
    assume step: "(if base_addr cd = 0 then and_then (cluster_alloc h i) (\<lambda>(b, h1). returns (cd\<lparr>base_addr := b\<rparr>, h1))
         else returns (cd, h)) = returns (cd\<lparr>base_addr := b\<rparr>, h\<lparr>pmm := bm, kalloc_cluster_pages := n\<rparr>)"
      and bm: "pmm_ok bm" "managed_frames bm = managed_frames (pmm h)" "free_set bm \<subseteq> free_set (pmm h)"
      and fr: "cl_frames i (cd\<lparr>base_addr := b\<rparr>) \<subseteq> cl_frames i cd \<union> free_set (pmm h)"
        "cl_frames i (cd\<lparr>base_addr := b\<rparr>) \<inter> free_set bm = {}"
      and b: "b \<noteq> 0" "b mod PHY_FRAME_SIZE = 0" "b + i * PHY_FRAME_SIZE + PHY_FRAME_SIZE \<le> usize_span"
        "base_addr cd \<noteq> 0 \<longrightarrow> b = base_addr cd"
    define t where "t = trailing_zeros (au_bitmap cd)"
    have t: "t < 64" "bit (au_bitmap cd) t" using trailing_zeros_facts [OF w0] by (simp_all add: t_def)
    define cd' where "cd' = \<lparr>base_addr = b, au_bitmap = au_bitmap cd AND NOT (2 ^ t)\<rparr>"
    have cd'_eq: "cd\<lparr>base_addr := b, au_bitmap := au_bitmap cd AND NOT (2 ^ t)\<rparr> = cd'" by (simp add: cd'_def)
    define h2 where "h2 = put_desc (h\<lparr>pmm := bm, kalloc_cluster_pages := n\<rparr>) p k cd'"
    define h3 where "h3 = (if au_bitmap cd' = 0 then
                       (let h' = set_free_desc_count h2 p (usub c 1)
                        in if c > 1 then set_free_desc_index h' p (first_nonfull h' p) else h')
                     else h2)"
    have ti: "t * i < 4096" "t * i * 64 < i * PHY_FRAME_SIZE"
      using t(1) i i0 mult_strict_mono [of t 64 i 64] by auto
    have off: "umul (umul t i) 64 = t * i * 64"
    proof -
      have "t * i < usize_span" "t * i * 64 < usize_span" using ti(1) by linarith+
      then show ?thesis by (simp only: umul_exact)
    qed
    have sum: "uadd b (t * i * 64) = b + t * (64 * i)"
    proof -
      have "b + t * i * 64 < usize_span" using b(3) ti(2) by linarith
      then have "uadd b (t * i * 64) = b + t * i * 64" by (rule uadd_exact)
      then show ?thesis by (simp only: ac_simps)
    qed
    have run: "take_unit h i p c = returns (b + t * (64 * i), h3)"
    proof -
      have k': "\<not> DESCRIPTOR_COUNT \<le> k" using k(1) by simp
      have t': "\<not> 64 \<le> t" using t(1) by simp
      have sel: "au_bitmap (cd\<lparr>base_addr := b\<rparr>) = au_bitmap cd" by simp
      have upd: "cd\<lparr>base_addr := b, au_bitmap := w\<rparr> = \<lparr>base_addr = b, au_bitmap = w\<rparr>" for w by simp
      show ?thesis
        by (simp only: take_unit_def Let_def k_def [symmetric] cd_def [symmetric] k' w0 if_False step
            and_then_simps prod.case sel t_def [symmetric] t' off upd)
          (simp add: h3_def h2_def cd'_def Let_def sum)
    qed
    have des: "descs h3 q = (if q = p then (descs h p)[k := cd'] else descs h q)" for q
      by (simp add: h3_def h2_def Let_def)
    have nxt: "cdp_next h3 q = cdp_next h q" for q by (simp add: h3_def h2_def Let_def)
    have oth: "free_desc_count h3 q = free_desc_count h q" "free_desc_index h3 q = free_desc_index h q"
      if "q \<noteq> p" for q
      using that by (simp_all add: h3_def h2_def Let_def)
    have pm3: "pmm h3 = bm" "kalloc_root h3 = kalloc_root h" by (simp_all add: h3_def h2_def Let_def)
    have cd'ok: "cd_ok cd'"
      using t b by (auto simp: cd_ok_def cd'_def all_ones_iff bit_clear_iff)
    have nf: "nonfull h3 p j \<longleftrightarrow> (if j = k then au_bitmap cd' \<noteq> 0 else nonfull h p j)"
      if "j < DESCRIPTOR_COUNT" for j
      using nonfull_set_desc [OF pok k(1) _ that, of h3 cd'] des by simp
    have cb: "count_below DESCRIPTOR_COUNT (nonfull h3 p) = (if au_bitmap cd' \<noteq> 0 then c else c - 1)"
      using count_below_drop [OF k nf] pok c by (simp add: page_ok_def)
    have cnt3: "free_desc_count h3 p = (if au_bitmap cd' \<noteq> 0 then c else c - 1)"
      using c c_le by (simp add: h3_def h2_def Let_def usub_exact)
    have pok3: "page_ok h3 p"
    proof (rule page_ok_set_desc [OF pok k(1) cd'ok])
      show "descs h3 p = (descs h p)[k := cd']" by (simp add: des)
      show "free_desc_count h3 p = count_below DESCRIPTOR_COUNT (nonfull h3 p)" by (simp add: cnt3 cb)
      assume pos: "0 < free_desc_count h3 p"
      show "free_desc_index h3 p < DESCRIPTOR_COUNT \<and> nonfull h3 p (free_desc_index h3 p)"
      proof (cases "au_bitmap cd' = 0")
        case False
        then have "free_desc_index h3 p = k" by (simp add: h3_def h2_def k_def)
        then show ?thesis using k nf [OF k(1)] False by simp
      next
        case True
        then have c1: "1 < c" using pos cnt3 by simp
        define h' where "h' = set_free_desc_count h2 p (usub c 1)"
        have h3: "h3 = set_free_desc_index h' p (first_nonfull h' p)"
          using True c1 by (simp add: h3_def h'_def Let_def)
        have n': "nonfull h' p = nonfull h3 p" by (simp add: fun_eq_iff nonfull_def h3)
        have "\<exists>k < DESCRIPTOR_COUNT. nonfull h' p k"
          using pos unfolding n' cnt3 cb [symmetric] by (simp add: count_below_pos)
        note ff = first_nonfull_facts [OF this]
        have "free_desc_index h3 p = first_nonfull h' p" using ff(1) by (simp add: h3)
        then show ?thesis using ff n' by simp
      qed
    qed
    have fr': "cl_frames i cd' = cl_frames i (cd\<lparr>base_addr := b\<rparr>)"
      by (simp add: cl_frames_def cd'_def)
    have z: "0 \<notin> free_set (pmm h3)" using bm(3) D(2) pm3 by auto
    have pr: "pmm_ok (pmm h3)" "managed_frames (pmm h3) = managed_frames (pmm h)"
      "cl_frames i cd' \<subseteq> cl_frames i (descs h p ! k) \<union> free_set (pmm h)"
      "free_set (pmm h3) \<subseteq> free_set (pmm h) \<union> cl_frames i (descs h p ! k)"
      "free_set (pmm h3) \<inter> cl_frames i cd' = {}"
      using bm fr pm3 by (auto simp: fr' simp flip: cd_def)
    note up = heap_ok_desc_update [OF ok i p k(1) des nxt oth(1) oth(2) pm3(2) pok3 pr(1,2) z pr(3-5)]
    have lv0: "cd_live i (cd\<lparr>base_addr := b\<rparr>) = cd_live i cd"
    proof (cases "base_addr cd = 0")
      case True
      then have "au_bitmap cd = ALL_FREE" using cdok by (simp add: cd_ok_def)
      then have "\<forall>b < 64. bit (au_bitmap cd) b" unfolding all_ones_iff .
      then show ?thesis using True by (auto simp: cd_live_def)
    next
      case False
      then show ?thesis using b(4) by simp
    qed
    note lv = cd_live_take [of "cd\<lparr>base_addr := b\<rparr>" t "au_bitmap cd" i cd']
    have lv1: "cd_live i cd' = insert (b + t * (64 * i)) (cd_live i cd)"
        "b + t * (64 * i) \<notin> cd_live i cd"
      using lv b(1) t i0 lv0 by (simp_all add: cd'_def)
    have sub: "Pair i ` cd_live i cd \<subseteq> live P h"
      using i p k(1) by (auto simp: live_def cd_def)
    have new: "(i, b + t * (64 * i)) \<notin> live P h"
    proof
      assume "(i, b + t * (64 * i)) \<in> live P h"
      then obtain q m where q: "q \<in> set (P i)" "m < DESCRIPTOR_COUNT"
        "b + t * (64 * i) \<in> cd_live i (descs h q ! m)" by (auto simp: live_def)
      then have ne: "\<not> (q = p \<and> m = k)" using lv1(2) by (auto simp: cd_def)
      have "descs h3 p ! k = cd'" using pok k(1) by (simp add: des page_ok_def)
      moreover have "descs h3 q ! m = descs h q ! m" using ne by (auto simp: des)
      ultimately show False
        using live_unique(2,3) [OF up(1) i p k(1) _ i q(1,2), of "b + t * (64 * i)"] q(3) lv1(1) ne by simp
    qed
    have "live P h3 = insert (i, b + t * (64 * i)) (live P h)"
      using up(2) lv1 sub by (auto simp flip: cd_def)
    moreover have "(b + t * (64 * i)) mod 64 = 0"
    proof -
      have "b mod 64 = b mod PHY_FRAME_SIZE mod 64" by (rule mod_mod_cancel [symmetric]) simp
      then show ?thesis using b(2) by (simp add: mod_add_left_eq [symmetric])
    qed
    moreover have "b + t * (64 * i) + 64 * i + PHY_FRAME_SIZE \<le> usize_span"
    proof -
      have "(t + 1) * (64 * i) \<le> 64 * (64 * i)" using t(1) by (intro mult_le_mono1) simp
      moreover have "(t + 1) * (64 * i) = t * (64 * i) + 64 * i" "64 * (64 * i) = i * PHY_FRAME_SIZE"
        by simp_all
      ultimately show ?thesis using b(3) by linarith
    qed
    ultimately have ?done
      using run up(1) new bm pm3 b(1) by (intro exI [of _ "b + t * (64 * i)"] exI [of _ h3]) simp
    then show ?thesis ..
  qed
qed


section \<open>Allocation\<close>

lemma alloc_and_init_spec:
  assumes "pmm_ok (pmm h)"
  shows "alloc_and_init h v = (if free_set (pmm h) = {} then panics
    else let a = PHY_FRAME_SIZE * Min (free_set (pmm h))
         in returns (a, (cdp_init (h\<lparr>pmm := mark (pmm h) a True\<rparr>) a v)
              \<lparr>kalloc_desc_pages := uadd (kalloc_desc_pages (cdp_init (h\<lparr>pmm := mark (pmm h) a True\<rparr>) a v)) 1\<rparr>))"
  using pm_alloc_spec [OF assms] by (simp add: alloc_and_init_def Let_def)

lemma chain_head:
  assumes "heap_ok P h" "i < KALLOC_ROOT_ENTRIES"
  shows "kalloc_root h ! i < usize_span" "kalloc_root h ! i mod 256 = 0"
    "P i = [] \<longleftrightarrow> kalloc_root h ! i = 0"
proof -
  note c = heap_pageD [OF assms]
  show n: "P i = [] \<longleftrightarrow> kalloc_root h ! i = 0" using c(1) by (cases "P i") auto
  have "kalloc_root h ! i < usize_span \<and> kalloc_root h ! i mod 256 = 0"
  proof (cases "P i")
    case Nil
    then show ?thesis using n by simp
  next
    case (Cons p ps)
    then have r: "kalloc_root h ! i = p" "p \<in> set (P i)" using c(1) by simp_all
    have "p mod 256 = p mod PHY_FRAME_SIZE mod 256" by (rule mod_mod_cancel [symmetric]) simp
    moreover have "p < usize_span"
    proof -
      have "PageOf i p \<in> owners P" by (rule ownersI(1) [where P = P, OF assms(2) r(2)])
      then have "frame_of p < frame_span (pmm h)"
        using heap_okD(6) [OF assms(1)] unfolding heap_owned_ok_def managed_frames_def by force
      then have "frame_of p + 1 \<le> frame_span (pmm h)" by simp
      then have "PHY_FRAME_SIZE * (frame_of p + 1) \<le> PHY_FRAME_SIZE * frame_span (pmm h)" by (rule mult_le_mono2)
      moreover have "PHY_FRAME_SIZE * frame_of p = p" using c(3) [OF r(2)] by auto
      ultimately have "p + PHY_FRAME_SIZE \<le> PHY_FRAME_SIZE * frame_span (pmm h)"
        by (simp only: distrib_left mult_1_right)
      then show ?thesis
        using frame_span_bound [OF pmm_ok_geom [OF heap_okD(1) [OF assms(1)]]] by linarith
    qed
    ultimately show ?thesis using r c(3) by simp
  qed
  then show "kalloc_root h ! i < usize_span" "kalloc_root h ! i mod 256 = 0" by simp_all
qed

text \<open>A new page in front of the chain, and as the first page of an empty chain.\<close>

lemma ensure_free_page_new:
  assumes ok: "heap_ok P h" and i: "0 < i" "i < KALLOC_ROOT_ENTRIES" and r: "kalloc_root h ! i \<noteq> 0"
  shows "(ensure_free_page h i cur 0 = panics \<and> free_set (pmm h) = {})
    \<or> (\<exists>a h'. ensure_free_page h i cur 0 = returns (a, 255, h') \<and> heap_ok (P(i := a # P i)) h'
        \<and> free_desc_count h' a = 255 \<and> live (P(i := a # P i)) h' = live P h
        \<and> managed_frames (pmm h') = managed_frames (pmm h)
        \<and> free_set (pmm h) \<noteq> {} \<and> free_set (pmm h') = free_set (pmm h) - {Min (free_set (pmm h))})"
proof (cases "free_set (pmm h) = {}")
  case True
  then show ?thesis
    using alloc_and_init_spec [OF heap_okD(1) [OF ok], of 0] by (simp add: ensure_free_page_def)
next
  case False
  note D = heap_okD [OF ok]
  define a where "a = PHY_FRAME_SIZE * Min (free_set (pmm h))"
  have pa: "pm_alloc (pmm h) = returns (Inr a, mark (pmm h) a True)"
    using pm_alloc_spec [OF D(1)] False by (simp add: a_def)
  define h1 where "h1 = (cdp_init (h\<lparr>pmm := mark (pmm h) a True\<rparr>) a 0)
              \<lparr>kalloc_desc_pages := uadd (kalloc_desc_pages (cdp_init (h\<lparr>pmm := mark (pmm h) a True\<rparr>) a 0)) 1\<rparr>"
  have al: "alloc_and_init h 0 = returns (a, h1)"
    using alloc_and_init_spec [OF D(1), of 0] False by (simp add: a_def h1_def Let_def)
  define h2 where "h2 = set_next h1 a (kalloc_root h1 ! i)"
  define h3 where "h3 = set_prev h2 (kalloc_root h2 ! i) a"
  define h4 where "h4 = h3\<lparr>kalloc_root := (kalloc_root h3)[i := a]\<rparr>"
  have e: "ensure_free_page h i cur 0 = returns (a, free_desc_count h4 a, h4)"
    by (simp add: ensure_free_page_def al Let_def h4_def h3_def h2_def)
  note head = chain_head [OF ok i(2)]
  have v: "kalloc_root h1 = kalloc_root h" by (simp add: h1_def)
  have pm4: "pmm h4 = mark (pmm h) a True" by (simp add: h4_def h3_def h2_def h1_def)
  have cnt: "free_desc_count h4 q = (if q = a then 255 else free_desc_count h q)" for q
    by (simp add: h4_def h3_def h2_def h1_def)
  have "cdp_next h4 q = (if q = a then kalloc_root h ! i else cdp_next h q)" for q
    using head(1,2) by (simp add: h4_def h3_def h2_def v) (simp add: h1_def)
  note new = heap_ok_new_page [OF ok i, of a h4, unfolded pm4, OF pa _ _ this cnt]
  have n: "heap_ok (P(i := a # P i)) h4" "live (P(i := a # P i)) h4 = live P h"
    "managed_frames (mark (pmm h) a True) = managed_frames (pmm h)"
    by (rule new; simp add: h4_def h3_def h2_def h1_def)+
  have "free_set (mark (pmm h) a True) = free_set (pmm h) - {Min (free_set (pmm h))}"
    using pm_take_facts [OF pm_take.take_one [OF pa] D(1)] by (simp add: a_def)
  then show ?thesis using e n pm4 cnt False by (intro disjI2 exI [of _ a] exI [of _ h4]) simp
qed


section \<open>Releasing a unit\<close>

lemma cd_live_drop:
  assumes "base_addr cd \<noteq> 0" "t < 64" "0 < i"
    "cd' = \<lparr>base_addr = base_addr cd, au_bitmap = au_bitmap cd OR 2 ^ t\<rparr>"
  shows "cd_live i cd' = cd_live i cd - {base_addr cd + t * (64 * i)}"
proof -
  have "bit (au_bitmap cd') b \<longleftrightarrow> bit (au_bitmap cd) b \<or> b = t" for b
    using bit_set_iff [of t "au_bitmap cd" b] assms(2,4) by simp
  then show ?thesis using assms by (auto simp: cd_live_def)
qed

lemma cluster_range:
  assumes ok: "heap_ok P h" and i: "i < KALLOC_ROOT_ENTRIES" and p: "p \<in> set (P i)" "k < DESCRIPTOR_COUNT"
    and b: "base_addr (descs h p ! k) \<noteq> 0"
  shows "base_addr (descs h p ! k) mod PHY_FRAME_SIZE = 0"
    "base_addr (descs h p ! k) + i * PHY_FRAME_SIZE + PHY_FRAME_SIZE \<le> usize_span"
    "uadd (base_addr (descs h p ! k)) (umul i PHY_FRAME_SIZE) = base_addr (descs h p ! k) + i * PHY_FRAME_SIZE"
    "frame_of (base_addr (descs h p ! k)) + i \<le> frame_span (pmm h)"
proof -
  let ?cd = "descs h p ! k"
  have i0: "0 < i" using p heap_okD(4) [OF ok] by (cases i) auto
  have "cd_ok ?cd" using heap_pageD(4) [OF ok i p(1)] p(2) by (simp add: page_ok_def)
  then show m: "base_addr ?cd mod PHY_FRAME_SIZE = 0" using b by (simp add: cd_ok_def)
  have "frame_of (base_addr ?cd) + i - 1 \<in> own_frames h (ClusterOf i p k)"
    using i0 b by (auto simp: cl_frames_def)
  then have "frame_of (base_addr ?cd) + i - 1 < frame_span (pmm h)"
    using heap_okD(6) [OF ok] ownersI(2) [where P = P, OF i p]
    unfolding heap_owned_ok_def managed_frames_def by blast
  then show s: "frame_of (base_addr ?cd) + i \<le> frame_span (pmm h)" using i0 by linarith
  have "PHY_FRAME_SIZE * (frame_of (base_addr ?cd) + i) \<le> PHY_FRAME_SIZE * frame_span (pmm h)"
    using s by (rule mult_le_mono2)
  moreover have "PHY_FRAME_SIZE * frame_of (base_addr ?cd) = base_addr ?cd" using m by auto
  ultimately have "base_addr ?cd + PHY_FRAME_SIZE * i \<le> PHY_FRAME_SIZE * frame_span (pmm h)"
    by (simp only: distrib_left)
  then show s2: "base_addr ?cd + i * PHY_FRAME_SIZE + PHY_FRAME_SIZE \<le> usize_span"
    using frame_span_bound [OF pmm_ok_geom [OF heap_okD(1) [OF ok]]] by linarith
  have "umul i PHY_FRAME_SIZE = i * PHY_FRAME_SIZE" using i by (intro umul_exact) simp
  moreover have "uadd (base_addr ?cd) (i * PHY_FRAME_SIZE) = base_addr ?cd + i * PHY_FRAME_SIZE"
    by (rule uadd_exact) (use s2 in linarith)
  ultimately show "uadd (base_addr ?cd) (umul i PHY_FRAME_SIZE) = base_addr ?cd + i * PHY_FRAME_SIZE"
    by simp
qed

lemma in_cluster_frame:
  assumes "b mod PHY_FRAME_SIZE = 0"
  shows "b \<le> a \<and> a < b + i * PHY_FRAME_SIZE \<longleftrightarrow> frame_of b \<le> frame_of a \<and> frame_of a < frame_of b + i"
proof -
  obtain f where f: "b = f * PHY_FRAME_SIZE" using assms by (auto simp: mod_eq_0_iff_dvd mult.commute)
  have 1: "b \<le> a \<longleftrightarrow> f \<le> frame_of a"
    unfolding f by (rule less_eq_div_iff_mult_less_eq [symmetric]) simp
  have 2: "b + i * PHY_FRAME_SIZE \<le> a \<longleftrightarrow> f + i \<le> frame_of a"
    unfolding f distrib_right [symmetric] by (rule less_eq_div_iff_mult_less_eq [symmetric]) simp
  have "frame_of b = f" by (simp add: f)
  then show ?thesis using 1 2 by auto
qed

lemma find_unique:
  assumes "\<And>m. m < n \<Longrightarrow> Q m \<longleftrightarrow> b \<and> m = k" "k < n"
  shows "find Q [0..<n] = (if b then Some k else None)"
proof (cases "find Q [0..<n]")
  case None
  then show ?thesis using assms by (auto simp: find_None_iff)
next
  case (Some m)
  then have "m < n" "Q m" unfolding find_Some_iff by auto
  then show ?thesis using assms Some by auto
qed

lemma owning_desc_live:
  assumes ok: "heap_ok P h" and i: "i < KALLOC_ROOT_ENTRIES" and p: "p \<in> set (P i)"
    and k: "k < DESCRIPTOR_COUNT" and a: "a \<in> cd_live i (descs h p ! k)" and q: "q \<in> set (P i)"
  shows "owning_desc h q a (umul i PHY_FRAME_SIZE) = (if q = p then Some k else None)"
proof -
  have i0: "0 < i" using p heap_okD(4) [OF ok] by (cases i) auto
  have "cd_ok (descs h p ! k)" using heap_pageD(4) [OF ok i p] k by (simp add: page_ok_def)
  then have f: "frame_of a \<in> own_frames h (ClusterOf i p k)" using cd_live_frames [OF _ a i0] by simp
  have iff: "\<not> get_desc_base h q m = 0 \<and> \<not> (a < get_desc_base h q m \<or>
      a \<ge> uadd (get_desc_base h q m) (umul i PHY_FRAME_SIZE)) \<longleftrightarrow> q = p \<and> m = k"
    (is "?in \<longleftrightarrow> _") if m: "m < DESCRIPTOR_COUNT" for m
  proof (cases "base_addr (descs h q ! m) = 0")
    case True
    then show ?thesis using f by (auto simp: get_desc_base_def cl_frames_def)
  next
    case False
    note r = cluster_range [OF ok i q m False]
    have "?in \<longleftrightarrow> base_addr (descs h q ! m) \<le> a \<and> a < base_addr (descs h q ! m) + i * PHY_FRAME_SIZE"
      using False r(3) unfolding get_desc_base_def by (simp only: simp_thms not_less not_le de_Morgan_disj)
    also have "\<dots> \<longleftrightarrow> frame_of a \<in> own_frames h (ClusterOf i q m)"
      unfolding in_cluster_frame [OF r(1)] using False by (simp add: cl_frames_def)
    also have "\<dots> \<longleftrightarrow> q = p \<and> m = k"
      using f heap_okD(6) [OF ok] ownersI(2) [where P = P, OF i q m] ownersI(2) [where P = P, OF i p k]
      unfolding heap_owned_ok_def by (metis disjoint_iff owner.inject(2))
    finally show ?thesis .
  qed
  show ?thesis
    unfolding owning_desc_def Let_def by (rule find_unique [OF _ k]) (rule iff)
qed


text \<open>Releasing the live unit \<open>a\<close> of descriptor \<open>k\<close> of page \<open>p\<close>.\<close>

lemma release_unit_spec:
  assumes ok: "heap_ok P h" and i: "i < KALLOC_ROOT_ENTRIES" and p: "p \<in> set (P i)"
    and k: "k < DESCRIPTOR_COUNT" and a: "a \<in> cd_live i (descs h p ! k)"
  shows "heap_ok P (release_unit h i p a k)"
    "live P (release_unit h i p a k) = live P h - {(i, a)}"
    "managed_frames (pmm (release_unit h i p a k)) = managed_frames (pmm h)"
    "free_set (pmm (release_unit h i p a k)) = free_set (pmm h) \<union>
       (if cd_live i (descs h p ! k) = {a} then cl_frames i (descs h p ! k) else {})"
proof -
  note D = heap_okD [OF ok]
  have i0: "0 < i" using p D(4) by (cases i) auto
  define cd where "cd = descs h p ! k"
  obtain t where b0: "base_addr cd \<noteq> 0" and t: "t < 64" "\<not> bit (au_bitmap cd) t"
    "a = base_addr cd + t * (64 * i)"
    using a by (auto simp: cd_live_def cd_def split: if_splits)
  note r = cluster_range [OF ok i p k b0 [unfolded cd_def], folded cd_def]
  have pok: "page_ok h p" using heap_pageD(4) [OF ok i p] .
  have cnt_le: "free_desc_count h p \<le> DESCRIPTOR_COUNT"
    using pok count_below_le by (metis page_ok_def)
  define full where "full = (au_bitmap cd = 0)"
  define w where "w = au_bitmap cd OR 2 ^ t"
  have wt: "bit w t" using bit_set_iff [of t "au_bitmap cd" t] t(1) by (simp add: w_def)
  then have w0: "w \<noteq> 0" by auto
  define cd1 where "cd1 = \<lparr>base_addr = base_addr cd, au_bitmap = w\<rparr>"
  define cd' where "cd' = (if w = ALL_FREE then kalloc_cd_new else cd1)"
  define h1 where "h1 = put_desc h p k cd1"
  define h2 where "h2 = (if w = ALL_FREE
     then put_desc (cluster_free h1 (base_addr cd) i) p k \<lparr>base_addr = 0, au_bitmap = w\<rparr> else h1)"
  define h3 where "h3 = (if full
     then (let h3 = set_free_desc_count h2 p (uadd (free_desc_count h2 p) 1)
           in if free_desc_count h2 p = 0 then set_free_desc_index h3 p k else h3)
     else if k < free_desc_index h2 p then set_free_desc_index h2 p k else h2)"
  have run: "release_unit h i p a k = h3"
  proof -
    have au: "umul i 64 = 64 * i" using i by (simp add: umul_exact)
    have off: "usub a (base_addr cd) div (64 * i) = t"
      using i0 t(3) by (simp add: usub_exact)
    have upd: "cd\<lparr>au_bitmap := w\<rparr> = cd1" "cd1\<lparr>base_addr := 0\<rparr> = \<lparr>base_addr = 0, au_bitmap = w\<rparr>"
      "au_bitmap cd1 = w" "base_addr cd1 = base_addr cd" by (simp_all add: cd1_def)
    have t': "\<not> 64 \<le> t" using t(1) by simp
    have pb: "push_bit t 1 = (2 ^ t :: u64)" by simp
    show ?thesis
      by (simp only: release_unit_def Let_def cd_def [symmetric] au off t' if_False pb w_def [symmetric]
          full_def [symmetric] upd h1_def [symmetric] h2_def [symmetric]) (simp add: h3_def Let_def)
  qed
  have des1: "descs h2 q = (if q = p then (descs h p)[k := cd'] else descs h q)" for q
    by (auto simp: h2_def h1_def cluster_free_def cd'_def kalloc_cd_new_def)
  have des: "descs h3 q = (if q = p then (descs h p)[k := cd'] else descs h q)" for q
    using des1 by (simp add: h3_def Let_def)
  have v2: "cdp_next h2 q = cdp_next h q" "free_desc_count h2 q = free_desc_count h q"
    "free_desc_index h2 q = free_desc_index h q" for q
    by (simp_all add: h2_def h1_def cluster_free_def)
  have nxt: "cdp_next h3 q = cdp_next h q" for q by (simp add: h3_def Let_def v2)
  have oth: "free_desc_count h3 q = free_desc_count h q" "free_desc_index h3 q = free_desc_index h q"
    if "q \<noteq> p" for q
    using that by (simp_all add: h3_def Let_def v2)
  have root: "kalloc_root h3 = kalloc_root h"
    by (simp add: h3_def h2_def h1_def Let_def cluster_free_def)
  have pm3: "pmm h3 = (if w = ALL_FREE then free_continuous (pmm h) (base_addr cd) i else pmm h)"
    by (simp add: h3_def h2_def h1_def Let_def cluster_free_def)
  have cd'0: "au_bitmap cd' \<noteq> 0" using w0 by (simp add: cd'_def cd1_def kalloc_cd_new_def)
  have cd'ok: "cd_ok cd'" using r(1) b0 by (simp add: cd'_def cd1_def cd_ok_def kalloc_cd_new_def)
  have nf: "nonfull h3 p j \<longleftrightarrow> (if j = k then True else nonfull h p j)" if "j < DESCRIPTOR_COUNT" for j
    using nonfull_set_desc [OF pok k _ that, of h3 cd'] des cd'0 by simp
  have was: "nonfull h p k \<longleftrightarrow> \<not> full" by (simp add: nonfull_def full_def cd_def)
  have cb: "count_below DESCRIPTOR_COUNT (nonfull h3 p) = free_desc_count h p + (if full then 1 else 0)"
  proof (cases full)
    case True
    have "count_below DESCRIPTOR_COUNT (nonfull h3 p) = count_below DESCRIPTOR_COUNT (\<lambda>j. nonfull h p j \<or> j = k)"
      using nf by (intro count_below_cong) auto
    then show ?thesis using count_below_insert [of k DESCRIPTOR_COUNT "nonfull h p"] k was True pok
      by (simp add: page_ok_def)
  next
    case False
    have "count_below DESCRIPTOR_COUNT (nonfull h3 p) = count_below DESCRIPTOR_COUNT (nonfull h p)"
      using nf was False by (intro count_below_cong) auto
    then show ?thesis using False pok by (simp add: page_ok_def)
  qed
  have cnt3: "free_desc_count h3 p = free_desc_count h p + (if full then 1 else 0)"
  proof -
    have "free_desc_count h p + (if full then 1 else 0) \<le> 255" using cb count_below_le by metis
    then show ?thesis by (cases full) (simp_all add: h3_def Let_def v2 uadd_exact)
  qed
  have pok3: "page_ok h3 p"
  proof (rule page_ok_set_desc [OF pok k cd'ok])
    show "descs h3 p = (descs h p)[k := cd']" by (simp add: des)
    show "free_desc_count h3 p = count_below DESCRIPTOR_COUNT (nonfull h3 p)" by (simp add: cnt3 cb)
    have keep: "free_desc_index h p < DESCRIPTOR_COUNT \<and> nonfull h3 p (free_desc_index h p)"
      if "0 < free_desc_count h p"
      using that pok nf by (auto simp: page_ok_def)
    show "free_desc_index h3 p < DESCRIPTOR_COUNT \<and> nonfull h3 p (free_desc_index h3 p)"
    proof (cases "free_desc_index h3 p = k")
      case True
      then show ?thesis using k nf [OF k] by simp
    next
      case False
      have "free_desc_index h3 p = free_desc_index h p \<and> 0 < free_desc_count h p"
      proof (cases full)
        case True
        then show ?thesis using False k by (auto simp: h3_def Let_def v2 split: if_splits)
      next
        case nfull: False
        then have "0 < free_desc_count h p"
          using pok was k by (auto simp: page_ok_def count_below_pos)
        then show ?thesis using False nfull k by (auto simp: h3_def v2 split: if_splits)
      qed
      then show ?thesis using keep by simp
    qed
  qed
  have cl: "cl_frames i cd = {frame_of (base_addr cd)..<frame_of (base_addr cd) + i}"
    using b0 by (simp add: cl_frames_def)
  have owned: "cl_frames i cd \<subseteq> managed_frames (pmm h) - free_set (pmm h)"
    using D(6) ownersI(2) [where P = P, OF i p k] unfolding heap_owned_ok_def cd_def by force
  have pm: "pmm_ok (pmm h3) \<and> managed_frames (pmm h3) = managed_frames (pmm h)
    \<and> free_set (pmm h3) = free_set (pmm h) \<union> (if w = ALL_FREE then cl_frames i cd else {})"
  proof (cases "w = ALL_FREE")
    case True
    have "PHY_FRAME_SIZE * frame_of (base_addr cd) = base_addr cd" using r(1) by auto
    then have g: "pm_give (pmm h) (cl_frames i cd) (pmm h3)"
      using pm_give.give_continuous [OF r(4)] True pm3 cl by simp
    show ?thesis
      using pm.give_inv [OF D(1) g] pm.give_avail [OF D(1) g] pm.give_managed [OF D(1) g] owned True by auto
  qed (simp add: pm3 D(1))
  have z: "0 \<notin> free_set (pmm h3)"
  proof -
    have "PHY_FRAME_SIZE * frame_of (base_addr cd) = base_addr cd" using r(1) by auto
    then have "0 < frame_of (base_addr cd)" using b0 by (cases "frame_of (base_addr cd)") auto
    then show ?thesis using pm D(2) by (auto simp: cl)
  qed
  have fr': "cl_frames i cd' = (if w = ALL_FREE then {} else cl_frames i cd)"
    by (simp add: cl_frames_def cd'_def cd1_def kalloc_cd_new_def)
  have pr: "pmm_ok (pmm h3)" "managed_frames (pmm h3) = managed_frames (pmm h)"
      "cl_frames i cd' \<subseteq> cl_frames i (descs h p ! k) \<union> free_set (pmm h)"
      "free_set (pmm h3) \<subseteq> free_set (pmm h) \<union> cl_frames i (descs h p ! k)"
      "free_set (pmm h3) \<inter> cl_frames i cd' = {}"
    using pm owned by (auto simp: fr' simp flip: cd_def)
  note up = heap_ok_desc_update [OF ok i p k des nxt oth(1) oth(2) root pok3 pr(1,2) z pr(3-5)]
  have live1: "cd_live i cd1 = cd_live i cd - {a}"
    using cd_live_drop [OF b0 t(1) i0, of cd1] t(3) by (simp add: cd1_def w_def)
  have all: "w = ALL_FREE \<longleftrightarrow> cd_live i cd = {a}"
  proof -
    have "w = ALL_FREE \<longleftrightarrow> cd_live i cd1 = {}"
      unfolding all_ones_iff using b0 by (auto simp: cd_live_def cd1_def)
    then show ?thesis using live1 a by (auto simp: cd_def)
  qed
  have lv: "cd_live i cd' = cd_live i cd - {a}"
  proof -
    have 1: "cd_live i cd1 = cd_live i cd - {a}" by (rule live1)
    have "cd_live i cd1 = {}" "cd_live i cd' = {}" if "w = ALL_FREE"
    proof -
      have "\<forall>b < 64. bit w b" using that unfolding all_ones_iff .
      then show "cd_live i cd1 = {}" by (simp add: cd_live_def cd1_def)
      show "cd_live i cd' = {}" using that by (simp add: cd_live_def cd'_def kalloc_cd_new_def)
    qed
    then show ?thesis using 1 by (auto simp: cd'_def)
  qed
  have sub: "Pair i ` cd_live i cd \<subseteq> live P h"
    using i p k by (auto simp: live_def cd_def)
  show "heap_ok P (release_unit h i p a k)"
    "managed_frames (pmm (release_unit h i p a k)) = managed_frames (pmm h)"
    "free_set (pmm (release_unit h i p a k)) = free_set (pmm h) \<union>
       (if cd_live i (descs h p ! k) = {a} then cl_frames i (descs h p ! k) else {})"
    using up(1) pm all by (simp_all add: run cd_def)
  have "a \<in> cd_live i cd" using a by (simp add: cd_def)
  then show "live P (release_unit h i p a k) = live P h - {(i, a)}"
    using up(2) lv sub by (auto simp: run simp flip: cd_def)
qed


lemma cluster_search_free_run:
  assumes ok: "heap_ok P h" and i: "i < KALLOC_ROOT_ENTRIES" and p: "p \<in> set (P i)"
    and k: "k < DESCRIPTOR_COUNT" and a: "a \<in> cd_live i (descs h p ! k)"
  shows "cluster_search_free h a i = Some (release_unit h i p a k)"
proof -
  note od = owning_desc_live [OF ok i p k a]
  have "find (\<lambda>q. owning_desc h q a (umul i PHY_FRAME_SIZE) \<noteq> None) (P i) = Some p"
  proof (cases "find (\<lambda>q. owning_desc h q a (umul i PHY_FRAME_SIZE) \<noteq> None) (P i)")
    case None
    then have "owning_desc h p a (umul i PHY_FRAME_SIZE) = None" using p by (auto simp: find_None_iff)
    then show ?thesis using od [OF p] by simp
  next
    case (Some q)
    then have "q \<in> set (P i)" "owning_desc h q a (umul i PHY_FRAME_SIZE) \<noteq> None"
      unfolding find_Some_iff by auto
    then show ?thesis using od [of q] Some by (auto split: if_splits)
  qed
  then show "cluster_search_free h a i = Some (release_unit h i p a k)"
    using free_search_chain [OF heap_pageD(1) [OF ok i], of i a] od [OF p]
    by (simp add: cluster_search_free_def)
qed

lemma cluster_search_free_spec:
  assumes ok: "heap_ok P h" and l: "(i, a) \<in> live P h"
  shows "\<exists>h'. cluster_search_free h a i = Some h' \<and> heap_ok P h' \<and> live P h' = live P h - {(i, a)}
    \<and> managed_frames (pmm h') = managed_frames (pmm h) \<and> free_set (pmm h) \<subseteq> free_set (pmm h')"
proof -
  obtain p k where "i < KALLOC_ROOT_ENTRIES" "p \<in> set (P i)" "k < DESCRIPTOR_COUNT"
    "a \<in> cd_live i (descs h p ! k)" using l by (auto simp: live_def)
  note this' = ok this
  show ?thesis using cluster_search_free_run [OF this'] release_unit_spec [OF this'] by auto
qed

text \<open>An address outside the heap's frames belongs to no descriptor.\<close>

definition heap_frames :: "(nat \<Rightarrow> usize list) \<Rightarrow> kheap \<Rightarrow> nat set" where
  "heap_frames P h = \<Union> (own_frames h ` owners P)"

lemma cluster_search_free_foreign:
  assumes ok: "heap_ok P h" and i: "i < KALLOC_ROOT_ENTRIES" and a: "frame_of a \<notin> heap_frames P h"
  shows "cluster_search_free h a i = Some h"
proof -
  have "\<not> (\<not> get_desc_base h q m = 0 \<and> \<not> (a < get_desc_base h q m \<or>
      a \<ge> uadd (get_desc_base h q m) (umul i PHY_FRAME_SIZE)))"
    if q: "q \<in> set (P i)" and m: "m < DESCRIPTOR_COUNT" for q m
  proof (cases "base_addr (descs h q ! m) = 0")
    case False
    note r = cluster_range [OF ok i q m False]
    have "frame_of a \<notin> own_frames h (ClusterOf i q m)"
      using a ownersI(2) [where P = P, OF i q m] by (auto simp: heap_frames_def)
    then show ?thesis
      using in_cluster_frame [OF r(1), of a i] r(3) False
      by (auto simp: get_desc_base_def cl_frames_def)
  qed (simp add: get_desc_base_def)
  then have "owning_desc h q a (umul i PHY_FRAME_SIZE) = None" if "q \<in> set (P i)" for q
    using that unfolding owning_desc_def Let_def find_None_iff by auto
  then have "find (\<lambda>q. owning_desc h q a (umul i PHY_FRAME_SIZE) \<noteq> None) (P i) = None"
    by (simp add: find_None_iff)
  then show ?thesis
    using free_search_chain [OF heap_pageD(1) [OF ok i], of i a] by (simp add: cluster_search_free_def)
qed

text \<open>The request is small: it has a size class, and its alignment does not exceed a unit's.\<close>

definition small_request :: "usize \<Rightarrow> usize \<Rightarrow> bool" where
  "small_request sz align \<longleftrightarrow> 0 < sz \<and> sz \<le> 4032 \<and> align \<le> 64"

definition au_class :: "usize \<Rightarrow> nat" where
  "au_class sz = (sz + 63) div 64"

lemma au_class_round_up:
  assumes "sz + 64 < usize_span"
  shows "round_up sz 64 div 64 = au_class sz"
proof -
  have "round_up sz 64 = (sz + 63) div 64 * 64"
    using round_up_eq [of sz 64] assms by simp
  then show ?thesis by (simp add: au_class_def)
qed


lemma first_page_new:
  assumes ok: "heap_ok P h" and i: "0 < i" "i < KALLOC_ROOT_ENTRIES" and r: "kalloc_root h ! i = 0"
  shows "(alloc_and_init h 0 = panics \<and> free_set (pmm h) = {})
    \<or> (\<exists>a h1. alloc_and_init h 0 = returns (a, h1)
        \<and> heap_ok (P(i := a # P i)) (h1\<lparr>kalloc_root := (kalloc_root h1)[i := a]\<rparr>)
        \<and> free_desc_count h1 a = 255 \<and> kalloc_root h1 = kalloc_root h
        \<and> live (P(i := a # P i)) (h1\<lparr>kalloc_root := (kalloc_root h1)[i := a]\<rparr>) = live P h
        \<and> managed_frames (pmm h1) = managed_frames (pmm h)
        \<and> free_set (pmm h) \<noteq> {} \<and> free_set (pmm h1) = free_set (pmm h) - {Min (free_set (pmm h))})"
proof (cases "free_set (pmm h) = {}")
  case True
  then show ?thesis
    using alloc_and_init_spec [OF heap_okD(1) [OF ok], of 0] by simp
next
  case False
  note D = heap_okD [OF ok]
  define a where "a = PHY_FRAME_SIZE * Min (free_set (pmm h))"
  have pa: "pm_alloc (pmm h) = returns (Inr a, mark (pmm h) a True)"
    using pm_alloc_spec [OF D(1)] False by (simp add: a_def)
  define h1 where "h1 = (cdp_init (h\<lparr>pmm := mark (pmm h) a True\<rparr>) a 0)
              \<lparr>kalloc_desc_pages := uadd (kalloc_desc_pages (cdp_init (h\<lparr>pmm := mark (pmm h) a True\<rparr>) a 0)) 1\<rparr>"
  have al: "alloc_and_init h 0 = returns (a, h1)"
    using alloc_and_init_spec [OF D(1), of 0] False by (simp add: a_def h1_def Let_def)
  define h4 where "h4 = h1\<lparr>kalloc_root := (kalloc_root h1)[i := a]\<rparr>"
  have pm4: "pmm h4 = mark (pmm h) a True" by (simp add: h4_def h1_def)
  have cnt: "free_desc_count h4 q = (if q = a then 255 else free_desc_count h q)" for q
    by (simp add: h4_def h1_def)
  have "cdp_next h4 q = (if q = a then kalloc_root h ! i else cdp_next h q)" for q
    by (simp add: h4_def h1_def r)
  note new = heap_ok_new_page [OF ok i, of a h4, unfolded pm4, OF pa _ _ this cnt]
  have n: "heap_ok (P(i := a # P i)) h4" "live (P(i := a # P i)) h4 = live P h"
    "managed_frames (mark (pmm h) a True) = managed_frames (pmm h)"
    by (rule new; simp add: h4_def h1_def)+
  have "free_set (mark (pmm h) a True) = free_set (pmm h) - {Min (free_set (pmm h))}"
    using pm_take_facts [OF pm_take.take_one [OF pa] D(1)] by (simp add: a_def)
  then show ?thesis using al n cnt False unfolding h4_def
    by (intro disjI2 exI [of _ a] exI [of _ h1]) (simp add: h1_def)
qed

lemma run_after_page:
  assumes "free_set bm' = free_set bm - {Min (free_set bm)}" "run_at bm j (Suc n)"
  shows "\<exists>j. run_at bm' j n"
proof -
  have s: "{j..j + n} \<subseteq> free_set bm" using assms(2) by (simp add: run_at_def atLeastLessThanSuc_atLeastAtMost)
  then have "j \<in> free_set bm" by auto
  then have "Min (free_set bm) \<le> j" by simp
  then have "run_at bm' (Suc j) n" using s assms(1) by (auto simp: run_at_def)
  then show ?thesis ..
qed

lemma run_Suc: "run_at bm j (Suc n) \<Longrightarrow> run_at bm j n \<and> free_set bm \<noteq> {}"
  by (auto simp: run_at_def)

text \<open>What an allocation from class \<open>i\<close> promises about its result.\<close>

definition unit_taken :: "(nat \<Rightarrow> usize list) \<Rightarrow> kheap \<Rightarrow> nat \<Rightarrow> usize \<Rightarrow> kheap \<Rightarrow> (nat \<Rightarrow> usize list) \<Rightarrow> bool" where
  "unit_taken P h i a h' P' \<longleftrightarrow> heap_ok P' h' \<and> (i, a) \<notin> live P h \<and> live P' h' = insert (i, a) (live P h)
     \<and> managed_frames (pmm h') = managed_frames (pmm h) \<and> free_set (pmm h') \<subseteq> free_set (pmm h)
     \<and> a \<noteq> 0 \<and> a mod 64 = 0 \<and> a + 64 * i + PHY_FRAME_SIZE \<le> usize_span"

lemma cluster_search_alloc_spec:
  assumes ok: "heap_ok P h" and i: "0 < i" "i < KALLOC_ROOT_ENTRIES" and r: "kalloc_root h ! i \<noteq> 0"
  shows "(cluster_search_alloc h i = panics \<and> \<not> (\<exists>j. run_at (pmm h) j (Suc i))
      \<and> ((\<exists>p \<in> set (P i). 0 < free_desc_count h p) \<longrightarrow> \<not> (\<exists>j. run_at (pmm h) j i)))
    \<or> (\<exists>a h' P'. cluster_search_alloc h i = returns (a, h') \<and> unit_taken P h i a h' P')"
proof (cases "find (\<lambda>p. 0 < free_desc_count h p) (P i)")
  case (Some p)
  then have p: "p \<in> set (P i)" "0 < free_desc_count h p" unfolding find_Some_iff by auto
  have "cluster_search_alloc h i = take_unit h i p (free_desc_count h p)"
    using find_free_page_chain [OF heap_pageD(1) [OF ok i(2)], of 0] Some p(2)
    by (simp add: cluster_search_alloc_def ensure_free_page_def)
  then show ?thesis
    using take_unit_spec [OF ok i(2) p(1) refl p(2)] run_Suc unfolding unit_taken_def by metis
next
  case None
  have none: "\<not> (\<exists>p \<in> set (P i). 0 < free_desc_count h p)" using None by (auto simp: find_None_iff)
  have e: "cluster_search_alloc h i =
      and_then (ensure_free_page h i 0 0) (\<lambda>(cur, cnt, h1). take_unit h1 i cur cnt)"
    using find_free_page_chain [OF heap_pageD(1) [OF ok i(2)], of 0] None
    by (simp add: cluster_search_alloc_def)
  show ?thesis
    using ensure_free_page_new [OF ok i r, of 0]
  proof (elim disjE exE conjE)
    assume "ensure_free_page h i 0 0 = panics" "free_set (pmm h) = {}"
    then show ?thesis using e none run_Suc by (metis and_then_simps(2))
  next
    fix a h1
    assume en: "ensure_free_page h i 0 0 = returns (a, 255, h1)" and ok1: "heap_ok (P(i := a # P i)) h1"
      and c: "free_desc_count h1 a = 255" and l: "live (P(i := a # P i)) h1 = live P h"
      and m: "managed_frames (pmm h1) = managed_frames (pmm h)"
      and f: "free_set (pmm h1) = free_set (pmm h) - {Min (free_set (pmm h))}"
    have e1: "cluster_search_alloc h i = take_unit h1 i a 255" using e en by simp
    have "(take_unit h1 i a 255 = panics \<and> \<not> (\<exists>j. run_at (pmm h1) j i))
        \<or> (\<exists>b h'. take_unit h1 i a 255 = returns (b, h') \<and> unit_taken P h i b h' (P(i := a # P i)))"
      using take_unit_spec [OF ok1 i(2), of a 255] c l m f unfolding unit_taken_def by auto
    then show ?thesis using e1 none run_after_page [OF f] by metis
  qed
qed


lemma small_request_class:
  assumes "small_request sz align"
  shows "0 < au_class sz" "au_class sz < KALLOC_ROOT_ENTRIES" "sz \<le> 64 * au_class sz"
    "round_up sz 64 div 64 = au_class sz" "\<not> (sz = 0 \<or> align > 64)"
proof -
  have sz: "0 < sz" "sz \<le> 4032" "align \<le> 64" using assms by (simp_all add: small_request_def)
  show "round_up sz 64 div 64 = au_class sz" using sz by (intro au_class_round_up) simp
  show "0 < au_class sz" "au_class sz < KALLOC_ROOT_ENTRIES" "sz \<le> 64 * au_class sz"
    "\<not> (sz = 0 \<or> align > 64)"
    using sz by (auto simp: au_class_def)
qed

lemma tlsf_alloc_spec:
  assumes ok: "heap_ok P h" and s: "small_request sz align"
  shows "(tlsf_alloc h sz align = panics \<and> \<not> (\<exists>j. run_at (pmm h) j (Suc (au_class sz))))
    \<or> (\<exists>a h' P'. tlsf_alloc h sz align = returns (a, h') \<and> unit_taken P h (au_class sz) a h' P')"
proof -
  let ?i = "au_class sz"
  note c = small_request_class [OF s]
  have e: "tlsf_alloc h sz align = and_then
               (if kalloc_root h ! ?i = 0
                then and_then (alloc_and_init h 0)
                       (\<lambda>(a, h1). returns (h1\<lparr>kalloc_root := (kalloc_root h1)[?i := a]\<rparr>))
                else returns h)
               (\<lambda>h1. cluster_search_alloc h1 ?i)"
    using c by (simp add: tlsf_alloc_def Let_def)
  show ?thesis
  proof (cases "kalloc_root h ! ?i = 0")
    case False
    then show ?thesis using e cluster_search_alloc_spec [OF ok c(1,2)] by auto
  next
    case True
    show ?thesis
      using first_page_new [OF ok c(1,2) True]
    proof (elim disjE exE conjE)
      assume "alloc_and_init h 0 = panics" "free_set (pmm h) = {}"
      then show ?thesis using e True run_Suc by auto
    next
      fix a :: usize and h1 :: kheap
      let ?h = "h1\<lparr>kalloc_root := (kalloc_root h1)[?i := a]\<rparr>"
      let ?P = "P(?i := a # P ?i)"
      assume al: "alloc_and_init h 0 = returns (a, h1)" and ok1: "heap_ok ?P ?h"
        and cnt: "free_desc_count h1 a = 255" and l: "live ?P ?h = live P h"
        and m: "managed_frames (pmm h1) = managed_frames (pmm h)"
        and f: "free_set (pmm h1) = free_set (pmm h) - {Min (free_set (pmm h))}"
      have e1: "tlsf_alloc h sz align = cluster_search_alloc ?h ?i" using e al True by simp
      have "kalloc_root ?h ! ?i \<noteq> 0" using chain_head(3) [OF ok1 c(2)] by simp
      note sp = cluster_search_alloc_spec [OF ok1 c(1,2) this]
      have "\<exists>p \<in> set (?P ?i). 0 < free_desc_count ?h p" using cnt by simp
      then have "(cluster_search_alloc ?h ?i = panics \<and> \<not> (\<exists>j. run_at (pmm h1) j ?i))
          \<or> (\<exists>b h' P'. cluster_search_alloc ?h ?i = returns (b, h') \<and> unit_taken P h ?i b h' P')"
        using sp l m f unfolding unit_taken_def by fastforce
      then show ?thesis unfolding e1 using run_after_page [OF f] by metis
    qed
  qed
qed

lemma kalloc_alloc_small:
  assumes ok: "heap_ok P h" and s: "small_request sz align"
  shows "(kalloc_alloc h sz align = panics \<and> \<not> (\<exists>j. run_at (pmm h) j (Suc (au_class sz))))
    \<or> (\<exists>a h' P'. kalloc_alloc h sz align = returns (a, h') \<and> unit_taken P h (au_class sz) a h' P')"
  using tlsf_alloc_spec [OF assms] by (auto simp: kalloc_alloc_def unit_taken_def)

lemma kalloc_dealloc_small:
  assumes ok: "heap_ok P h" and s: "small_request sz align" and l: "(au_class sz, a) \<in> live P h"
  shows "\<exists>h'. kalloc_dealloc h a sz = Some h' \<and> heap_ok P h' \<and> live P h' = live P h - {(au_class sz, a)}
    \<and> managed_frames (pmm h') = managed_frames (pmm h) \<and> free_set (pmm h) \<subseteq> free_set (pmm h')"
  using cluster_search_free_spec [OF ok l] small_request_class [OF s]
  by (auto simp: kalloc_dealloc_def tlsf_free_def)

text \<open>Requests that go to the physical memory manager.\<close>

definition large_request :: "usize \<Rightarrow> usize \<Rightarrow> bool" where
  "large_request sz align \<longleftrightarrow> 0 < sz \<and> sz + 2 * PHY_FRAME_SIZE \<le> usize_span \<and> (4032 < sz \<or> 64 < align)"

definition pages_for :: "usize \<Rightarrow> nat" where
  "pages_for sz = (sz + 4095) div PHY_FRAME_SIZE"

lemma pages_round_up:
  assumes "0 < sz" "sz + 2 * PHY_FRAME_SIZE \<le> usize_span"
  shows "round_up sz PHY_FRAME_SIZE div PHY_FRAME_SIZE = pages_for sz" "0 < pages_for sz"
    "sz \<le> PHY_FRAME_SIZE * pages_for sz"
proof -
  have "round_up sz PHY_FRAME_SIZE = (sz + 4095) div PHY_FRAME_SIZE * PHY_FRAME_SIZE"
    using round_up_eq [of sz PHY_FRAME_SIZE] assms(2) by simp
  then show "round_up sz PHY_FRAME_SIZE div PHY_FRAME_SIZE = pages_for sz" by (simp add: pages_for_def)
  show "sz \<le> PHY_FRAME_SIZE * pages_for sz" unfolding pages_for_def
    using div_times_less_eq_dividend [of "sz + 4095"] mod_less_divisor [of PHY_FRAME_SIZE "sz + 4095"]
      div_mult_mod_eq [of "sz + 4095" PHY_FRAME_SIZE] by linarith
  then show "0 < pages_for sz" using assms(1) by (cases "pages_for sz") auto
qed

lemma tlsf_alloc_large: "large_request sz align \<Longrightarrow> tlsf_alloc h sz align = returns (0, h)"
proof -
  assume l: "large_request sz align"
  then have "round_up sz 64 div 64 = au_class sz" by (intro au_class_round_up) (simp add: large_request_def)
  moreover have "KALLOC_ROOT_ENTRIES \<le> au_class sz" if "4032 < sz"
    using that by (simp add: au_class_def less_eq_div_iff_mult_less_eq)
  ultimately show ?thesis using l by (auto simp: tlsf_alloc_def large_request_def)
qed

lemma kalloc_alloc_large:
  assumes ok: "pmm_ok (pmm h)" and l: "large_request sz align"
  shows "kalloc_alloc h sz align =
    (if \<exists>j. run_at (pmm h) j (pages_for sz)
     then returns (PHY_FRAME_SIZE * first_run (pmm h) (pages_for sz),
       h\<lparr>pmm := mark_frames (pmm h) [first_run (pmm h) (pages_for sz)..<first_run (pmm h) (pages_for sz) + pages_for sz] True\<rparr>)
     else returns (0, h))"
proof -
  have p: "round_up sz PHY_FRAME_SIZE div PHY_FRAME_SIZE = pages_for sz" "0 < pages_for sz"
    using pages_round_up [of sz] l by (simp_all add: large_request_def)
  show ?thesis
    using alloc_continuous_spec [OF ok p(2)]
    by (simp add: kalloc_alloc_def tlsf_alloc_large [OF l] p)
qed


text \<open>Frames that the heap does not own come and go without touching it.\<close>

lemma heap_ok_pool:
  assumes ok: "heap_ok P h" and bm: "pmm_ok bm" "managed_frames bm = managed_frames (pmm h)"
    "0 \<notin> free_set bm" "free_set bm \<inter> heap_frames P h = {}"
  shows "heap_ok P (h\<lparr>pmm := bm\<rparr>)" "live P (h\<lparr>pmm := bm\<rparr>) = live P h"
    "heap_frames P (h\<lparr>pmm := bm\<rparr>) = heap_frames P h"
proof -
  let ?h = "h\<lparr>pmm := bm\<rparr>"
  have own: "own_frames ?h x = own_frames h x" for x by (cases x) simp_all
  have "chain ?h a ps = chain h a ps" for a ps by (intro chain_cong) simp
  moreover have "page_ok ?h p = page_ok h p" for p by (intro page_ok_cong) simp_all
  ultimately have "heap_pages_ok P ?h" using heap_okD(5) [OF ok] by (simp add: heap_pages_ok_def)
  moreover have "heap_owned_ok P ?h"
    using heap_okD(6) [OF ok] bm(2,4) unfolding heap_owned_ok_def heap_frames_def
    by (simp add: own) blast
  ultimately show "heap_ok P ?h" using bm heap_okD [OF ok] by (simp add: heap_ok_def)
  show "live P ?h = live P h" by (simp add: live_def)
  show "heap_frames P ?h = heap_frames P h" by (simp add: heap_frames_def own)
qed

lemma heap_frames_used: "heap_ok P h \<Longrightarrow> heap_frames P h \<subseteq> managed_frames (pmm h) - free_set (pmm h)"
  using heap_okD(6) [of P h] unfolding heap_owned_ok_def heap_frames_def by blast

lemma kalloc_large_keeps:
  assumes ok: "heap_ok P h" and l: "large_request sz align"
    and r: "kalloc_alloc h sz align = returns (a, h')" "a \<noteq> 0"
  shows "heap_ok P h' \<and> live P h' = live P h \<and> a mod PHY_FRAME_SIZE = 0
    \<and> {frame_of a..<frame_of a + pages_for sz} \<subseteq> free_set (pmm h) - heap_frames P h
    \<and> free_set (pmm h') = free_set (pmm h) - {frame_of a..<frame_of a + pages_for sz}
    \<and> managed_frames (pmm h') = managed_frames (pmm h) \<and> heap_frames P h' = heap_frames P h"
proof -
  note D = heap_okD [OF ok]
  have n: "0 < pages_for sz" using pages_round_up(2) [of sz] l by (simp add: large_request_def)
  let ?j = "first_run (pmm h) (pages_for sz)"
  define bm where "bm = mark_frames (pmm h) [?j..<?j + pages_for sz] True"
  have ex: "\<exists>j. run_at (pmm h) j (pages_for sz)"
    using kalloc_alloc_large [OF D(1) l] r by (auto split: if_splits)
  then have a: "a = PHY_FRAME_SIZE * ?j" and h': "h' = h\<lparr>pmm := bm\<rparr>"
    using kalloc_alloc_large [OF D(1) l] r(1) by (simp_all add: bm_def)
  then have al: "alloc_continuous (pmm h) (pages_for sz) = Some (Inr a, bm)" and am: "a mod PHY_FRAME_SIZE = 0"
    using alloc_continuous_spec [OF D(1) n] ex by (simp_all add: bm_def)
  have t: "pm_take (pmm h) {frame_of a..<frame_of a + pages_for sz} bm"
    using al n by (rule pm_take.take_continuous)
  note f = pm_take_facts [OF t D(1)] pm.take_managed [OF D(1) t]
  have "heap_frames P h \<inter> free_set (pmm h) = {}" using heap_frames_used [OF ok] by blast
  then show ?thesis
    using heap_ok_pool [OF ok, of bm] f D(2) am unfolding h' by auto
qed

lemma kalloc_large_free:
  assumes ok: "heap_ok P h" and sz: "4032 < sz" "sz + 2 * PHY_FRAME_SIZE \<le> usize_span"
    and a: "a mod PHY_FRAME_SIZE = 0" "a \<noteq> 0"
    and f: "{frame_of a..<frame_of a + pages_for sz} \<subseteq> managed_frames (pmm h) - heap_frames P h"
  shows "\<exists>h'. kalloc_dealloc h a sz = Some h' \<and> heap_ok P h' \<and> live P h' = live P h
    \<and> free_set (pmm h') = free_set (pmm h) \<union> {frame_of a..<frame_of a + pages_for sz}
    \<and> managed_frames (pmm h') = managed_frames (pmm h)"
proof -
  note D = heap_okD [OF ok]
  let ?n = "pages_for sz"
  let ?bm = "free_continuous (pmm h) a ?n"
  have "round_up sz 64 div 64 = au_class sz" using sz by (intro au_class_round_up) simp
  moreover have "KALLOC_ROOT_ENTRIES \<le> au_class sz"
    using sz by (simp add: au_class_def less_eq_div_iff_mult_less_eq)
  ultimately have e: "kalloc_dealloc h a sz = Some (h\<lparr>pmm := ?bm\<rparr>)"
    using pages_round_up(1) [of sz] sz by (simp add: kalloc_dealloc_def tlsf_free_def Let_def)
  have n: "0 < ?n" using pages_round_up(2) [of sz] sz by simp
  then have "frame_of a + ?n - 1 \<in> {frame_of a..<frame_of a + ?n}" by auto
  then have "frame_of a + ?n - 1 < frame_span (pmm h)" using f by (auto simp: managed_frames_def)
  then have s: "frame_of a + ?n \<le> frame_span (pmm h)" using n by linarith
  have a': "PHY_FRAME_SIZE * frame_of a = a" using a(1) by auto
  have g: "pm_give (pmm h) {frame_of a..<frame_of a + ?n} ?bm"
    using pm_give.give_continuous [OF s] a' by simp
  have m: "{frame_of a..<frame_of a + ?n} \<subseteq> managed_frames (pmm h)" using f by blast
  note facts = pm.give_inv [OF D(1) g] pm.give_avail [OF D(1) g m] pm.give_managed [OF D(1) g]
  have "0 < frame_of a" using a' a(2) by (cases "frame_of a") auto
  then have "0 \<notin> free_set ?bm" using D(2) facts(2) by auto
  moreover have "free_set ?bm \<inter> heap_frames P h = {}"
    using facts(2) f heap_frames_used [OF ok] by blast
  ultimately show ?thesis
    using heap_ok_pool [OF ok facts(1,3)] e facts by simp
qed

section \<open>Live objects\<close>

lemma live_cases:
  assumes "(i, a) \<in> live P h"
  obtains p k b where "i < KALLOC_ROOT_ENTRIES" "p \<in> set (P i)" "k < DESCRIPTOR_COUNT"
    "base_addr (descs h p ! k) \<noteq> 0" "b < 64" "a = base_addr (descs h p ! k) + b * (64 * i)"
    "\<not> bit (au_bitmap (descs h p ! k)) b"
  using assms by (auto simp: live_def cd_live_def split: if_splits)

lemma live_frames:
  assumes ok: "heap_ok P h" and l: "(i, a) \<in> live P h" and x: "x \<in> {a..<a + 64 * i}"
  obtains p k where "i < KALLOC_ROOT_ENTRIES" "p \<in> set (P i)" "k < DESCRIPTOR_COUNT"
    "a \<in> cd_live i (descs h p ! k)" "frame_of x \<in> own_frames h (ClusterOf i p k)"
proof -
  obtain p k where c: "i < KALLOC_ROOT_ENTRIES" "p \<in> set (P i)" "k < DESCRIPTOR_COUNT"
      "a \<in> cd_live i (descs h p ! k)" using l by (auto simp: live_def)
  let ?cd = "descs h p ! k"
  obtain b where b: "base_addr ?cd \<noteq> 0" "b < 64" "a = base_addr ?cd + b * (64 * i)"
    using c(4) by (auto simp: cd_live_def split: if_splits)
  have "(b + 1) * (64 * i) \<le> 64 * (64 * i)" using b(2) by (intro mult_le_mono1) simp
  moreover have "(b + 1) * (64 * i) = b * (64 * i) + 64 * i" "64 * (64 * i) = i * PHY_FRAME_SIZE"
    by simp_all
  ultimately have "base_addr ?cd \<le> x \<and> x < base_addr ?cd + i * PHY_FRAME_SIZE"
    using x b(3) unfolding atLeastLessThan_iff by linarith
  then have "frame_of x \<in> own_frames h (ClusterOf i p k)"
    using in_cluster_frame [OF cluster_range(1) [OF ok c(1-3) b(1)]] b(1) by (simp add: cl_frames_def)
  then show ?thesis using that c by blast
qed

lemma same_cluster_disjoint:
  assumes "b \<noteq> (c :: nat)"
  shows "{s + b * n..<s + b * n + n} \<inter> {s + c * n..<s + c * n + n} = {}"
proof (cases "b < c")
  case True
  then have "(b + 1) * n \<le> c * n" by (intro mult_le_mono1) simp
  then show ?thesis by auto
next
  case False
  then have "(c + 1) * n \<le> b * n" using assms by (intro mult_le_mono1) simp
  then show ?thesis by auto
qed

lemma live_disjoint:
  assumes ok: "heap_ok P h" and l: "(i, a) \<in> live P h" "(j, c) \<in> live P h" "(i, a) \<noteq> (j, c)"
  shows "{a..<a + 64 * i} \<inter> {c..<c + 64 * j} = {}"
proof (rule ccontr)
  assume "{a..<a + 64 * i} \<inter> {c..<c + 64 * j} \<noteq> {}"
  then obtain x where x: "x \<in> {a..<a + 64 * i}" "x \<in> {c..<c + 64 * j}" by blast
  obtain p k where p: "i < KALLOC_ROOT_ENTRIES" "p \<in> set (P i)" "k < DESCRIPTOR_COUNT"
    "a \<in> cd_live i (descs h p ! k)" "frame_of x \<in> own_frames h (ClusterOf i p k)"
    using live_frames [OF ok l(1) x(1)] .
  obtain q m where q: "j < KALLOC_ROOT_ENTRIES" "q \<in> set (P j)" "m < DESCRIPTOR_COUNT"
    "c \<in> cd_live j (descs h q ! m)" "frame_of x \<in> own_frames h (ClusterOf j q m)"
    using live_frames [OF ok l(2) x(2)] .
  have "ClusterOf i p k = ClusterOf j q m"
    using p(5) q(5) heap_okD(6) [OF ok] ownersI(2) [where P = P, OF p(1-3)] ownersI(2) [where P = P, OF q(1-3)]
    unfolding heap_owned_ok_def by (metis disjoint_iff)
  then have e: "j = i" "q = p" "m = k" by simp_all
  obtain b d where "a = base_addr (descs h p ! k) + b * (64 * i)" "c = base_addr (descs h p ! k) + d * (64 * i)"
    using p(4) q(4) by (auto simp: e cd_live_def split: if_splits)
  then show False using same_cluster_disjoint [of b d] l(3) x e by (metis disjoint_iff)
qed

lemma live_not_free:
  assumes ok: "heap_ok P h" and l: "(i, a) \<in> live P h" and x: "x \<in> {a..<a + 64 * i}"
  shows "frame_of x \<in> heap_frames P h"
  using live_frames [OF ok l x] ownersI(2) [where P = P] unfolding heap_frames_def by (metis UN_I)

section \<open>The heap without ghosts\<close>

text \<open>The page lists are determined by the heap, so they can be hidden.\<close>

lemma chain_unique: "chain h a ps \<Longrightarrow> chain h a qs \<Longrightarrow> ps = qs"
proof (induction ps arbitrary: a qs)
  case Nil
  then show ?case by (cases qs) auto
next
  case (Cons p ps)
  then show ?case by (cases qs) auto
qed

definition heap_inv :: "kheap \<Rightarrow> bool" where
  "heap_inv h \<longleftrightarrow> (\<exists>P. heap_ok P h)"

definition objects :: "kheap \<Rightarrow> (nat \<times> usize) set" where
  "objects h = {x. \<exists>P. heap_ok P h \<and> x \<in> live P h}"

definition held_frames :: "kheap \<Rightarrow> nat set" where
  "held_frames h = {f. \<exists>P. heap_ok P h \<and> f \<in> heap_frames P h}"

lemma heap_ok_unique:
  assumes "heap_ok P h" "heap_ok Q h" "i < KALLOC_ROOT_ENTRIES"
  shows "P i = Q i"
  using heap_pageD(1) [OF assms(1,3)] heap_pageD(1) [OF assms(2,3)] by (rule chain_unique)

lemma ghost_cong:
  assumes "\<And>i. i < KALLOC_ROOT_ENTRIES \<Longrightarrow> Q i = P i"
  shows "live Q h = live P h" "owners Q = owners P"
proof -
  show "live Q h = live P h"
    unfolding live_def using assms by (intro Collect_cong) (simp split: prod.split cong: conj_cong)
  have "{PageOf i p | i p. i < KALLOC_ROOT_ENTRIES \<and> p \<in> set (Q i)}
      = {PageOf i p | i p. i < KALLOC_ROOT_ENTRIES \<and> p \<in> set (P i)}"
    "{ClusterOf i p k | i p k. i < KALLOC_ROOT_ENTRIES \<and> p \<in> set (Q i) \<and> k < DESCRIPTOR_COUNT}
      = {ClusterOf i p k | i p k. i < KALLOC_ROOT_ENTRIES \<and> p \<in> set (P i) \<and> k < DESCRIPTOR_COUNT}"
    using assms by (intro Collect_cong; metis)+
  then show "owners Q = owners P" by (simp only: owners_def)
qed

lemma objects_live: "heap_ok P h \<Longrightarrow> objects h = live P h"
proof -
  assume P: "heap_ok P h"
  have "live Q h = live P h" if "heap_ok Q h" for Q
    using heap_ok_unique [OF that P] by (rule ghost_cong)
  then show ?thesis using P unfolding objects_def by blast
qed

lemma held_frames_eq: "heap_ok P h \<Longrightarrow> held_frames h = heap_frames P h"
proof -
  assume P: "heap_ok P h"
  have "owners Q = owners P" if "heap_ok Q h" for Q
    using heap_ok_unique [OF that P] by (rule ghost_cong)
  then have "heap_frames Q h = heap_frames P h" if "heap_ok Q h" for Q
    using that by (simp add: heap_frames_def)
  then show ?thesis using P unfolding held_frames_def by blast
qed

text \<open>The extent of an object is the unit, the spare memory the free frames.\<close>

definition unit_extent :: "nat \<times> usize \<Rightarrow> nat set" where
  "unit_extent x = {snd x..<snd x + 64 * fst x}"

definition spare_bytes :: "kheap \<Rightarrow> nat set" where
  "spare_bytes h = {x. frame_of x \<in> free_set (pmm h)}"

inductive unit_alloc :: "kheap \<Rightarrow> nat \<times> usize \<Rightarrow> kheap \<Rightarrow> bool" where
  "small_request sz align \<Longrightarrow> kalloc_alloc h sz align = returns (a, h') \<Longrightarrow>
     unit_alloc h (au_class sz, a) h'"

inductive unit_free :: "kheap \<Rightarrow> nat \<times> usize \<Rightarrow> kheap \<Rightarrow> bool" where
  "small_request sz align \<Longrightarrow> kalloc_dealloc h a sz = Some h' \<Longrightarrow>
     unit_free h (au_class sz, a) h'"

lemma unit_alloc_facts:
  assumes "heap_inv h" "unit_alloc h x h'"
  shows "heap_inv h' \<and> x \<notin> objects h \<and> objects h' = insert x (objects h)"
  using assms(2,1)
proof cases
  case (1 sz align a)
  obtain P where P: "heap_ok P h" using assms(1) by (auto simp: heap_inv_def)
  obtain P' where "unit_taken P h (au_class sz) a h' P'"
    using kalloc_alloc_small [OF P 1(2)] 1(3) by auto
  then show ?thesis
    using 1(1) objects_live [OF P] objects_live [of P' h'] by (auto simp: unit_taken_def heap_inv_def)
qed

lemma unit_free_facts:
  assumes "heap_inv h" "x \<in> objects h" "unit_free h x h'"
  shows "heap_inv h' \<and> objects h' = objects h - {x}"
  using assms(3,1,2)
proof cases
  case (1 sz align a)
  obtain P where P: "heap_ok P h" using assms(1) by (auto simp: heap_inv_def)
  have l: "(au_class sz, a) \<in> live P h" using 1(1) assms(2) objects_live [OF P] by simp
  then have "heap_ok P h' \<and> live P h' = live P h - {(au_class sz, a)}"
    using kalloc_dealloc_small [OF P 1(2) l] 1(3) by simp
  then show ?thesis
    using 1(1) objects_live [OF P] objects_live [of P h'] by (auto simp: heap_inv_def)
qed

lemma unit_extent_disjoint:
  assumes "heap_inv h" "x \<in> objects h" "y \<in> objects h" "x \<noteq> y"
  shows "unit_extent x \<inter> unit_extent y = {}"
proof -
  obtain P where P: "heap_ok P h" using assms(1) by (auto simp: heap_inv_def)
  show ?thesis
    using live_disjoint [OF P, of "fst x" "snd x" "fst y" "snd y"] assms(2-4) objects_live [OF P]
    by (simp add: unit_extent_def prod_eq_iff)
qed

lemma unit_extent_spare:
  assumes "heap_inv h" "x \<in> objects h"
  shows "unit_extent x \<inter> spare_bytes h = {}"
proof -
  obtain P where P: "heap_ok P h" using assms(1) by (auto simp: heap_inv_def)
  show ?thesis
    using live_not_free [OF P, of "fst x" "snd x"] heap_frames_used [OF P] assms(2) objects_live [OF P]
    by (fastforce simp: unit_extent_def spare_bytes_def)
qed

interpretation kheap: object_allocator heap_inv objects unit_extent spare_bytes unit_alloc unit_free
  by unfold_locales
    (use unit_alloc_facts unit_free_facts unit_extent_disjoint unit_extent_spare in blast)+

text \<open>Histories of the heap, from \<open>h0\<close> on.\<close>

inductive heap_history :: "kheap \<Rightarrow> kheap \<Rightarrow> (nat \<times> usize) list \<Rightarrow> bool" for h0 where
  history_start: "heap_history h0 h0 []"
| history_alloc: "heap_history h0 h xs \<Longrightarrow> unit_alloc h x h' \<Longrightarrow> heap_history h0 h' (x # xs)"
| history_free: "heap_history h0 h xs \<Longrightarrow> x \<in> set xs \<Longrightarrow> unit_free h x h' \<Longrightarrow>
    heap_history h0 h' (remove1 x xs)"

lemma heap_history_client:
  "heap_history h0 h xs \<Longrightarrow> heap_inv h0 \<Longrightarrow> kheap.client_ok (objects h0) h xs"
  by (induction rule: heap_history.induct)
    (auto intro: kheap.client_start kheap.client_alloc kheap.client_free)

section \<open>The heap at start\<close>

text \<open>\<^verbatim>\<open>KALLOC_ROOT\<close> is statically zeroed: no class has a page.\<close>

definition empty_kheap :: "frames_bitmap \<Rightarrow> (usize \<Rightarrow> kalloc_cd_page) \<Rightarrow> kheap" where
  "empty_kheap bm store = \<lparr>pmm = bm, kalloc_root = replicate KALLOC_ROOT_ENTRIES 0,
     cdp_store = store, kalloc_desc_pages = 0, kalloc_cluster_pages = 0\<rparr>"

lemma empty_kheap_ok:
  assumes "pmm_ok bm" "0 \<notin> free_set bm"
  shows "heap_ok (\<lambda>_. []) (empty_kheap bm store)"
  using assms by (simp add: heap_ok_def empty_kheap_def heap_pages_ok_def heap_owned_ok_def owners_def)

end
