(* ===== verification/Phys_Mem_Props.thy ===== *)
theory Phys_Mem_Props
  imports Phys_Mem
begin

text \<open>
  The properties of the physical memory manager, stated over the operations of
  \<open>Phys_Mem\<close>, with their witnesses on a small machine: four frames, the first one in the
  red zone, the other three free; and a PC-like memory map for \<^verbatim>\<open>init\<close>.
\<close>

section \<open>A small machine and a memory map\<close>

definition demo_bitmap :: frames_bitmap where
  "demo_bitmap = \<lparr>total_frames = 4, free_frames = 3, first_phys_addr = 0,
     last_phys_addr = 16383, bm_base = 0, bm_size = 8, red_zone_start = 0,
     red_zone_end = 4095, bm_words = (\<lambda>_. 0)(0 := 14)\<rparr>"

lemma demo_free_set: "free_set demo_bitmap = {1, 2, 3}"
proof -
  have "frame_span demo_bitmap = 4" by (simp add: frame_span_def demo_bitmap_def)
  moreover have "frame_free demo_bitmap k \<longleftrightarrow> k = 1 \<or> k = 2 \<or> k = 3" if "k < 4" for k
  proof -
    have "k = 0 \<or> k = 1 \<or> k = 2 \<or> k = 3" using that by linarith
    then show ?thesis by (elim disjE) (simp_all add: frame_free_def demo_bitmap_def)
  qed
  ultimately show ?thesis by (auto simp: free_set_def)
qed

lemma demo_ok: "pmm_ok demo_bitmap"
proof -
  have "pmm_geom_ok demo_bitmap"
    by (simp add: pmm_geom_ok_def span_ok_def demo_bitmap_def)
  moreover have "free_frames demo_bitmap = card (free_set demo_bitmap)"
    unfolding demo_free_set by (simp add: demo_bitmap_def)
  moreover have "\<forall>k \<in> free_set demo_bitmap. \<not> in_red_zone demo_bitmap k"
    unfolding demo_free_set by (simp add: in_red_zone_def demo_bitmap_def)
  ultimately show ?thesis by (simp add: pmm_ok_def)
qed

definition demo_mmap :: "pm_map_element list" where
  "demo_mmap =
     [\<lparr>me_base = 0, me_len = 0x9F000, me_avail = True\<rparr>,
      \<lparr>me_base = 0x9F000, me_len = 0x61000, me_avail = False\<rparr>,
      \<lparr>me_base = 0x100000, me_len = 0x700000, me_avail = True\<rparr>]"

lemma demo_boot_ok: "boot_ok demo_mmap 0x100000 0x1FFFFF None"
  by (simp add: boot_ok_def demo_mmap_def entry_sane_def uadd_def kernel_bitmap_base_def
      boot_bitmap_size_def Let_def)

section \<open>Properties\<close>

text \<open>Frames and byte ranges, without any rounding: some byte of frame \<open>k\<close> lies in \<open>a\<close>, \<open>\<dots>\<close>, \<open>b - 1\<close>.\<close>

definition touches :: "nat \<Rightarrow> nat \<Rightarrow> nat \<Rightarrow> bool" where
  "touches k a b \<longleftrightarrow> (\<exists>x \<in> {a..<b}. x div PHY_FRAME_SIZE = k)"

lemma touches_iff: "touches k a b \<longleftrightarrow> a < b \<and> a < PHY_FRAME_SIZE * Suc k \<and> PHY_FRAME_SIZE * k < b"
proof
  assume "touches k a b"
  then obtain x where x: "a \<le> x" "x < b" "x div PHY_FRAME_SIZE = k" by (auto simp: touches_def)
  have "PHY_FRAME_SIZE * (x div PHY_FRAME_SIZE) \<le> x" by simp
  moreover have "x < PHY_FRAME_SIZE * Suc (x div PHY_FRAME_SIZE)"
    using mod_less_divisor [of PHY_FRAME_SIZE x] mult_div_mod_eq [of PHY_FRAME_SIZE x] by simp
  ultimately show "a < b \<and> a < PHY_FRAME_SIZE * Suc k \<and> PHY_FRAME_SIZE * k < b" using x by auto
next
  assume h: "a < b \<and> a < PHY_FRAME_SIZE * Suc k \<and> PHY_FRAME_SIZE * k < b"
  let ?x = "max a (PHY_FRAME_SIZE * k)"
  have "?x div PHY_FRAME_SIZE = k" using h by (intro div_nat_eqI) auto
  then show "touches k a b" using h unfolding touches_def by (intro bexI [of _ ?x]) auto
qed

text \<open>The reserved entries consist of whole pages, and the boot module starts at one.\<close>

definition page_aligned_boot :: "pm_map_element list \<Rightarrow> (usize \<times> usize) option \<Rightarrow> bool" where
  "page_aligned_boot mmap kmod \<longleftrightarrow>
     (\<forall>e \<in> set mmap. me_avail e \<or> me_base e mod PHY_FRAME_SIZE = 0 \<and> me_len e mod PHY_FRAME_SIZE = 0)
     \<and> (case kmod of None \<Rightarrow> True | Some (mod_start, mod_end) \<Rightarrow> mod_start mod PHY_FRAME_SIZE = 0)"

lemma reserved_touches:
  assumes "page_aligned_boot mmap kmod"
  shows "reserved_frame mmap k \<longleftrightarrow>
    (\<exists>e \<in> set mmap. \<not> me_avail e \<and> touches k (me_base e) (me_base e + me_len e))"
proof -
  have "k \<in> set (entry_frames e) \<longleftrightarrow> touches k (me_base e) (me_base e + me_len e)" if "e \<in> set mmap" "\<not> me_avail e" for e
  proof -
    have al: "me_base e mod PHY_FRAME_SIZE = 0" "me_len e mod PHY_FRAME_SIZE = 0"
      using assms that by (auto simp: page_aligned_boot_def)
    then obtain i n where b: "me_base e = PHY_FRAME_SIZE * i" "me_len e = PHY_FRAME_SIZE * n" by (auto elim!: dvdE simp: mod_eq_0_iff_dvd)
    have "PHY_FRAME_SIZE * k + PHY_FRAME_SIZE \<le> PHY_FRAME_SIZE * i + PHY_FRAME_SIZE * n \<longleftrightarrow> Suc k \<le> i + n"
      "PHY_FRAME_SIZE * k < PHY_FRAME_SIZE * i + PHY_FRAME_SIZE * n \<longleftrightarrow> k < i + n"
      by linarith+
    then show ?thesis unfolding entry_frames_aligned [OF al(1)] touches_iff b by auto
  qed
  then show ?thesis by (auto simp: reserved_frame_def)
qed

lemma module_touches:
  assumes "page_aligned_boot mmap kmod"
  shows "k \<in> set (module_frames kmod) \<longleftrightarrow> (case kmod of None \<Rightarrow> False | Some (s, e) \<Rightarrow> touches k s e)"
proof (cases kmod)
  case (Some m)
  obtain s e where m: "kmod = Some (s, e)" using Some by (cases m) auto
  then have al: "s mod PHY_FRAME_SIZE = 0" using assms by (simp add: page_aligned_boot_def)
  then obtain i where s: "s = PHY_FRAME_SIZE * i" by auto
  have "k \<in> set (frames_from s e) \<longleftrightarrow> touches k s e"
    using frames_from_bound [of k s e] unfolding s touches_iff frames_from_def
    by (auto simp: less_eq_div_iff_mult_less_eq [symmetric])
  then show ?thesis using m by (simp add: module_frames_def)
qed (simp add: module_frames_def)

text \<open>The memory from the kernel's load address to the end of the bitmap, which \<^verbatim>\<open>init\<close> places at
  the first page behind the kernel and the module.\<close>

definition bitmap_end :: "pm_map_element list \<Rightarrow> usize \<Rightarrow> (usize \<times> usize) option \<Rightarrow> nat" where
  "bitmap_end mmap ke kmod = kernel_bitmap_base ke kmod + boot_bitmap_size (last_usable mmap 0)"

lemma red_touches:
  assumes boot: "boot_ok mmap ks ke kmod"
  shows "frame_of ks \<le> k \<and> k < boot_red_end mmap ke kmod \<longleftrightarrow> touches k ks (bitmap_end mmap ke kmod)"
proof -
  have e: "boot_red_end mmap ke kmod = (bitmap_end mmap ke kmod + (PHY_FRAME_SIZE - 1)) div PHY_FRAME_SIZE"
    by (simp add: boot_red_end_def bitmap_end_def)
  have "k < boot_red_end mmap ke kmod \<longleftrightarrow> PHY_FRAME_SIZE * k < bitmap_end mmap ke kmod"
    unfolding e using less_eq_div_iff_mult_less_eq [of PHY_FRAME_SIZE "Suc k" "bitmap_end mmap ke kmod + (PHY_FRAME_SIZE - 1)"]
    by (auto simp: Suc_le_eq)
  moreover have "frame_of ks \<le> k \<longleftrightarrow> ks < PHY_FRAME_SIZE * Suc k"
    using div_less_iff_less_mult [of PHY_FRAME_SIZE ks "Suc k"] by (simp add: less_Suc_eq_le mult.commute)
  moreover have "ks < bitmap_end mmap ke kmod"
  proof -
    have "ke < (ke + PHY_FRAME_SIZE) div PHY_FRAME_SIZE * PHY_FRAME_SIZE"
      using mod_less_divisor [of PHY_FRAME_SIZE ke] div_mult_mod_eq [of ke PHY_FRAME_SIZE] by simp
    moreover have "(ke + PHY_FRAME_SIZE) div PHY_FRAME_SIZE * PHY_FRAME_SIZE \<le> kernel_bitmap_base ke kmod"
      by (auto simp: kernel_bitmap_base_def split: option.splits intro!: mult_le_mono1 div_le_mono)
    moreover have "ks \<le> ke" using boot by (simp add: boot_ok_def Let_def)
    ultimately show ?thesis unfolding bitmap_end_def by linarith
  qed
  ultimately show ?thesis unfolding touches_iff by auto
qed

text \<open>C1. \<^verbatim>\<open>PhysMem::init\<close> on a sane memory map (\<open>boot_ok\<close>) whose reserved entries consist of whole pages
  and with a boot module that starts at a page returns with a consistent manager. A frame is
  then allocatable exactly when it lies wholly inside an entry that the map declares usable and has no
  byte in a reserved entry, none between the kernel's load address and the end of the bitmap,
  and none in the boot module.\<close>

theorem pm_init_correct:
  assumes "boot_ok mmap ks ke kmod" and "page_aligned_boot mmap kmod"
  shows "\<exists>bm. pm_init (new_frames_bitmap ws) ram mmap ks ke kmod = Some bm \<and> pmm_ok bm
    \<and> free_set bm = {k. usable_frame mmap k
        \<and> \<not> (\<exists>e \<in> set mmap. \<not> me_avail e \<and> touches k (me_base e) (me_base e + me_len e))
        \<and> \<not> touches k ks (bitmap_end mmap ke kmod)
        \<and> \<not> (case kmod of None \<Rightarrow> False | Some (s, e) \<Rightarrow> touches k s e)}"
  using pm_init_spec [OF assms(1), of ws ram]
  unfolding reserved_touches [OF assms(2), symmetric] red_touches [OF assms(1), symmetric] module_touches [OF assms(2), symmetric]
  by blast

theorem pm_init_correct_witness:
  "\<exists>bm. pm_init (new_frames_bitmap (\<lambda>_. 7)) (\<lambda>_. 5) demo_mmap 0x100000 0x1FFFFF None = Some bm
    \<and> pmm_ok bm \<and> 3 \<in> free_set bm \<and> 0x9F \<notin> free_set bm \<and> 0x100 \<notin> free_set bm
    \<and> 0x300 \<in> free_set bm"
proof -
  have al: "page_aligned_boot demo_mmap None" by (simp add: page_aligned_boot_def demo_mmap_def)
  obtain bm where "pm_init (new_frames_bitmap (\<lambda>_. 7)) (\<lambda>_. 5) demo_mmap 0x100000 0x1FFFFF None = Some bm"
    "pmm_ok bm" and f: "free_set bm = {k. usable_frame demo_mmap k
        \<and> \<not> (\<exists>e \<in> set demo_mmap. \<not> me_avail e \<and> touches k (me_base e) (me_base e + me_len e))
        \<and> \<not> touches k 0x100000 (bitmap_end demo_mmap 0x1FFFFF None)
        \<and> \<not> (case None of None \<Rightarrow> False | Some (s, e) \<Rightarrow> touches k s e)}"
    using pm_init_correct [OF demo_boot_ok al] by blast
  moreover have "3 \<in> free_set bm" "0x9F \<notin> free_set bm" "0x100 \<notin> free_set bm" "0x300 \<in> free_set bm"
    unfolding f
    by (simp_all add: usable_frame_def demo_mmap_def touches_iff bitmap_end_def kernel_bitmap_base_def
        boot_bitmap_size_def uadd_def)
  ultimately show ?thesis by blast
qed

text \<open>Without whole pages it does not: the last kilobyte of the first 640 is reserved, but its frame is
  allocatable, because the length of a reserved entry is rounded down.\<close>

lemma init_frees_reserved_bytes:
  defines "mmap \<equiv> [\<lparr>me_base = 0, me_len = 0x800000, me_avail = True\<rparr>, \<lparr>me_base = 0x9FC00, me_len = 0x400, me_avail = False\<rparr>]"
  shows "\<exists>bm. pm_init (new_frames_bitmap ws) ram mmap 0x100000 0x1FFFFF None = Some bm
    \<and> 0x9F \<in> free_set bm \<and> touches 0x9F 0x9FC00 (0x9FC00 + 0x400)"
proof -
  have b: "boot_ok mmap 0x100000 0x1FFFFF None"
    by (simp add: mmap_def boot_ok_def entry_sane_def uadd_def kernel_bitmap_base_def boot_bitmap_size_def Let_def)
  show ?thesis using pm_init_spec [OF b, of ws ram]
    by (auto simp: mmap_def usable_frame_def reserved_frame_def entry_frames_def entry_first_def boot_red_end_def
        kernel_bitmap_base_def boot_bitmap_size_def module_frames_def uadd_def touches_iff)
qed

text \<open>C2. \<^verbatim>\<open>alloc_frames\<close> with a non-empty slice: when enough frames are free it fills the
  slice with the addresses of the lowest free frames in ascending order, takes exactly
  those, and keeps the manager consistent; otherwise it reports \<^verbatim>\<open>OutOfMemory\<close> and
  changes nothing. The roll-back branch of the code is never taken.\<close>

theorem alloc_frames_lowest_first:
  assumes "pmm_ok bm" and "frames \<noteq> []"
  shows "if length frames \<le> card (free_set bm)
    then \<exists>bm'. alloc_frames bm frames = returns (Inr (length frames),
           map ((*) PHY_FRAME_SIZE) (take (length frames) (sorted_list_of_set (free_set bm))), bm')
         \<and> free_set bm' = free_set bm - set (take (length frames) (sorted_list_of_set (free_set bm)))
         \<and> pmm_ok bm'
    else alloc_frames bm frames = returns (Inl OutOfMemory, frames, bm)"
  using alloc_frames_spec [OF assms] pmm_ok_mark_used [OF assms(1)] lowest_free_facts(1) [of bm]
    free_set_span [of bm] unfolding lowest_free_def
  by (auto simp: free_set_mark_frames_used dest: in_set_takeD)

theorem alloc_frames_lowest_first_witness:
  "\<exists>bm'. alloc_frames demo_bitmap [0, 0] = returns (Inr 2, [4096, 8192], bm')
     \<and> free_set bm' = {3} \<and> pmm_ok bm'"
proof -
  have s: "sorted_list_of_set {1, 2, 3 :: nat} = [1, 2, 3]"
    by (simp add: sorted_list_of_set_insert_remove)
  show ?thesis
    using alloc_frames_lowest_first [OF demo_ok, of "[0, 0]"]
    unfolding demo_free_set s by (auto simp: insert_Diff_if)
qed

text \<open>\<^verbatim>\<open>alloc_high_frames\<close>: the same from the top of memory. It returns the highest free
  frames, in ascending order, and its scan never runs below address 0, although the lower
  bound \<^verbatim>\<open>first_phys_addr\<close> is 0 and the comparison \<open>addr \<ge> 0\<close> always holds.\<close>

theorem alloc_high_frames_highest:
  assumes "pmm_ok bm" and "frames \<noteq> []"
  shows "if length frames \<le> card (free_set bm)
    then \<exists>bm'. alloc_high_frames bm frames = returns (Inr (length frames),
           map ((*) PHY_FRAME_SIZE)
             (drop (card (free_set bm) - length frames) (sorted_list_of_set (free_set bm))), bm')
         \<and> free_set bm' = free_set bm -
             set (drop (card (free_set bm) - length frames) (sorted_list_of_set (free_set bm)))
         \<and> pmm_ok bm'
    else alloc_high_frames bm frames = returns (Inl OutOfMemory, frames, bm)"
proof -
  have h: "highest_free bm n = drop (card (free_set bm) - n) (sorted_list_of_set (free_set bm))" for n
    by (simp add: highest_free_def take_rev)
  show ?thesis
    using alloc_high_frames_spec [OF assms] pmm_ok_mark_used [OF assms(1)]
      highest_free_facts(1) [of bm "length frames"] free_set_span [of bm]
    unfolding h by (auto simp: free_set_mark_frames_used)
qed

theorem alloc_high_frames_highest_witness:
  "\<exists>bm'. alloc_high_frames demo_bitmap [0, 0] = returns (Inr 2, [8192, 12288], bm')
     \<and> free_set bm' = {1} \<and> pmm_ok bm'"
proof -
  have s: "sorted_list_of_set {1, 2, 3 :: nat} = [1, 2, 3]"
    by (simp add: sorted_list_of_set_insert_remove)
  show ?thesis
    using alloc_high_frames_highest [OF demo_ok, of "[0, 0]"]
    unfolding demo_free_set s by (auto simp: insert_Diff_if)
qed

text \<open>C3. \<^verbatim>\<open>alloc_continuous\<close> is first fit and complete: it fails exactly when no run of \<open>n\<close>
  consecutive free frames exists (and then changes nothing); otherwise it returns the
  address of the lowest such run and takes exactly the frames of the run.\<close>

theorem alloc_continuous_first_fit:
  assumes "pmm_ok bm" and "0 < n"
  shows "if \<exists>j. {j..<j + n} \<subseteq> free_set bm
    then \<exists>j bm'. alloc_continuous bm n = Some (Inr (PHY_FRAME_SIZE * j), bm')
        \<and> {j..<j + n} \<subseteq> free_set bm \<and> (\<forall>i < j. \<not> {i..<i + n} \<subseteq> free_set bm)
        \<and> free_set bm' = free_set bm - {j..<j + n} \<and> pmm_ok bm'
    else alloc_continuous bm n = Some (Inl OutOfMemory, bm)"
proof (cases "\<exists>j. run_at bm j n")
  case True
  let ?j = "first_run bm n"
  have r: "run_at bm ?j n" using True first_run_run by blast
  have "\<not> run_at bm i n" if "i < ?j" for i
    using that not_less_Least unfolding first_run_def by blast
  moreover have "pmm_ok (mark_frames bm [?j..<?j + n] True)"
    using r free_set_span [of bm] by (intro pmm_ok_mark_used assms) (auto simp: run_at_def)
  ultimately show ?thesis
    using True r alloc_continuous_spec [OF assms]
    by (auto simp: run_at_def free_set_mark_frames_used intro!: exI [of _ ?j])
next
  case False
  then show ?thesis using alloc_continuous_spec [OF assms] by (simp add: run_at_def)
qed

theorem alloc_continuous_first_fit_witness:
  "\<exists>bm'. alloc_continuous demo_bitmap 2 = Some (Inr 4096, bm') \<and> free_set bm' = {3}"
proof -
  have e: "\<exists>j. {j..<j + 2} \<subseteq> {1, 2, 3 :: nat}"
    by (rule exI [of _ 1]) auto
  obtain j bm' where a: "alloc_continuous demo_bitmap 2 = Some (Inr (PHY_FRAME_SIZE * j), bm')"
    "{j..<j + 2} \<subseteq> {1, 2, 3}" "\<forall>i < j. \<not> {i..<i + 2} \<subseteq> {1, 2, 3}"
    "free_set bm' = {1, 2, 3} - {j..<j + 2}"
    using alloc_continuous_first_fit [OF demo_ok, of 2] e unfolding demo_free_set by auto
  have "{1..<1 + 2} \<subseteq> {1, 2, 3 :: nat}" by auto
  then have "j \<le> 1" using a(3) by (metis not_le)
  moreover have "j \<noteq> 0"
  proof
    assume "j = 0"
    then have "0 \<in> {j..<j + 2}" by simp
    then show False using a(2) by auto
  qed
  ultimately have j: "j = 1" by simp
  have "{1, 2, 3} - {1..<1 + 2} = {3 :: nat}" by auto
  then show ?thesis using a(1,4) unfolding j by simp
qed

text \<open>Round trip: giving a contiguous allocation back with \<^verbatim>\<open>free_continuous\<close> restores
  the set of free frames and the counter.\<close>

theorem free_continuous_restores:
  assumes "pmm_ok bm" and "0 < n" and "alloc_continuous bm n = Some (Inr a, bm')"
  shows "free_set (free_continuous bm' a n) = free_set bm
    \<and> free_frame_count (free_continuous bm' a n) = free_frame_count bm
    \<and> pmm_ok (free_continuous bm' a n)"
proof -
  obtain j where j: "a = PHY_FRAME_SIZE * j" "{j..<j + n} \<subseteq> free_set bm"
    using alloc_continuous_first_fit [OF assms(1,2)] assms(3) by (auto split: if_splits)
  have t: "pm_take bm {j..<j + n} bm'"
    using pm_take.take_continuous [OF assms(3,2)] by (simp add: j)
  have "j + n \<le> frame_span bm'"
    using run_at_span [of bm j n] j(2) assms(2) pm_take_facts [OF t assms(1)] geometry_fields(5)
    by (metis run_at_def)
  then have g: "pm_give bm' {j..<j + n} (free_continuous bm' a n)"
    unfolding j(1) by (rule pm_give.give_continuous)
  show ?thesis
    using pm.take_give_restores [OF assms(1) t g] assms(1)
    by (simp add: pmm_ok_def free_frame_count_def)
qed

theorem free_continuous_restores_witness:
  "\<exists>bm'. alloc_continuous demo_bitmap 2 = Some (Inr 4096, bm')
     \<and> free_set (free_continuous bm' 4096 2) = {1, 2, 3}"
proof -
  obtain bm' where "alloc_continuous demo_bitmap 2 = Some (Inr 4096, bm')"
    using alloc_continuous_spec [OF demo_ok, of 2]
    by (metis alloc_continuous_first_fit_witness)
  then show ?thesis
    using free_continuous_restores [OF demo_ok _, of 2 4096 bm'] demo_free_set by simp
qed

text \<open>C4. Whatever mixture of \<^verbatim>\<open>alloc\<close>, \<^verbatim>\<open>alloc_frames\<close>, \<^verbatim>\<open>alloc_high_frames\<close> and
  \<^verbatim>\<open>alloc_continuous\<close> calls and matching frees a consistent manager goes through, the
  allocations that are out never share a frame with each other or with the free frames,
  no frame is lost or gained, none lies in the red zone, and the counter stays exact.\<close>

theorem live_allocations_never_overlap:
  assumes "pm_trace bm0 bm L" and "pmm_ok bm0"
  shows "pmm_ok bm \<and> sorted_wrt disjnt L \<and> free_set bm \<inter> \<Union> (set L) = {}
    \<and> free_set bm \<union> \<Union> (set L) = free_set bm0
    \<and> (\<forall>F \<in> set L. \<forall>k \<in> F. \<not> in_red_zone bm0 k)"
proof -
  have "free_set bm0 \<subseteq> {k. \<not> in_red_zone bm0 k}"
    using assms(2) by (auto simp: pmm_ok_def)
  then show ?thesis
    using pm_trace_ledger [OF assms] by (auto simp: pm.ledger_ok_def)
qed

theorem live_allocations_never_overlap_witness:
  "\<exists>bm. pm_trace demo_bitmap bm [{3}, {1, 2}] \<and> pmm_ok bm \<and> free_set bm = {}"
proof -
  obtain bm1 where a: "alloc_continuous demo_bitmap 2 = Some (Inr 4096, bm1)"
    and f1: "free_set bm1 = {3}"
    using alloc_continuous_spec [OF demo_ok, of 2] free_set_mark_frames_used [of demo_bitmap]
    by (metis alloc_continuous_first_fit_witness)
  have "pm_take demo_bitmap {1..<1 + 2} bm1"
    using pm_take.take_continuous [OF a] by simp
  moreover have "{1..<1 + 2} = {1, 2 :: nat}" by auto
  ultimately have t1: "pm_take demo_bitmap {1, 2} bm1" by simp
  have "pmm_ok bm1" using pm_take_facts [OF t1 demo_ok] by simp
  then have "pm_alloc bm1 = returns (Inr 12288, mark bm1 12288 True)"
    by (simp add: pm_alloc_spec f1)
  from pm_take.take_one [OF this] have t2: "pm_take bm1 {3} (mark bm1 12288 True)" by simp
  have tr: "pm_trace demo_bitmap (mark bm1 12288 True) [{3}, {1, 2}]"
    using pm_trace.trace_take [OF pm_trace.trace_take [OF pm_trace.trace_start t1] t2] .
  note ledger = live_allocations_never_overlap [OF tr demo_ok, unfolded demo_free_set]
  have "pmm_ok (mark bm1 12288 True)"
    and "free_set (mark bm1 12288 True) \<inter> \<Union> (set [{3}, {1, 2}]) = {}"
    and "free_set (mark bm1 12288 True) \<union> \<Union> (set [{3}, {1, 2}]) = {1, 2, 3}"
    using ledger by blast+
  moreover have "\<Union> (set [{3}, {1, 2}]) = {1, 2, 3 :: nat}" by auto
  moreover have "X = {}" if "X \<inter> S = {}" "X \<union> S = S" for X S :: "nat set"
    using that by blast
  ultimately have "free_set (mark bm1 12288 True) = {}" by metis
  with tr \<open>pmm_ok (mark bm1 12288 True)\<close> show ?thesis by blast
qed

text \<open>\<^verbatim>\<open>alloc_frames\<close> with an empty slice panics whenever a frame is free: the loop marks
  the frame used and writes \<^verbatim>\<open>frames[0]\<close> before it compares the count with the length.\<close>

theorem alloc_frames_empty_slice_panics:
  assumes "pmm_ok bm" and "free_set bm \<noteq> {}"
  shows "alloc_frames bm [] = panics"
  using assms by (rule alloc_frames_empty)

theorem alloc_frames_empty_slice_panics_witness: "alloc_frames demo_bitmap [] = panics"
  using alloc_frames_empty_slice_panics [OF demo_ok] demo_free_set by simp

lemma uadd_frame_aligned:
  assumes "a mod PHY_FRAME_SIZE = 0"
  shows "uadd a PHY_FRAME_SIZE mod PHY_FRAME_SIZE = 0"
proof -
  obtain q where "a + PHY_FRAME_SIZE = PHY_FRAME_SIZE * Suc q" using assms by auto
  moreover have "usize_span = PHY_FRAME_SIZE * 4503599627370496" by simp
  ultimately have "uadd a PHY_FRAME_SIZE = PHY_FRAME_SIZE * (Suc q mod 4503599627370496)"
    unfolding uadd_def by (simp only: mult_mod_right)
  then show ?thesis by simp
qed

lemma mark_range_top_diverges:
  assumes "a mod PHY_FRAME_SIZE = 0" "a < usize_span"
  shows "mark_range bm a (usize_span - 1) used = None"
proof (rule ccontr)
  assume "mark_range bm a (usize_span - 1) used \<noteq> None"
  then obtain r where r: "mark_range bm a (usize_span - 1) used = Some r" by auto
  let ?P = "\<lambda>a e. \<not> (e = usize_span - 1 \<and> a mod PHY_FRAME_SIZE = 0 \<and> a < usize_span)"
  have "?P a (usize_span - 1)"
  proof (rule mark_range.raw_induct [where P = "\<lambda>_ a e _ _. ?P a e", OF _ r])
    fix f bm a e u r'
    assume IH: "\<And>bm a e u r. f bm a e u = Some r \<Longrightarrow> ?P a e"
      and eq: "(if a < e then f (mark bm a u) (uadd a PHY_FRAME_SIZE) e u else Some bm) = Some r'"
    show "?P a e"
    proof
      assume h: "e = usize_span - 1 \<and> a mod PHY_FRAME_SIZE = 0 \<and> a < usize_span"
      have "a \<noteq> usize_span - 1" using h by auto
      then have "a < e" using h by linarith
      then have "f (mark bm a u) (uadd a PHY_FRAME_SIZE) e u = Some r'" using eq by simp
      then have "?P (uadd a PHY_FRAME_SIZE) e" by (rule IH)
      then show False
        using h uadd_frame_aligned [of a] uadd_bound [of a PHY_FRAME_SIZE] by metis
    qed
  qed
  then show False using assms by blast
qed

text \<open>\<^verbatim>\<open>PhysMem::init\<close> does not return on a memory map that starts with a usable entry
  at address 0 shorter than a page: its rounded end is 0, \<open>end - 1\<close> wraps to the largest
  address, and the marking loop steps past it and starts again at 0.\<close>

theorem init_short_first_entry_hangs:
  assumes "me_base e = 0" and "me_len e < PHY_FRAME_SIZE" and "me_avail e"
    and "1 < last_usable (e # mmap) 0"
  shows "pm_init bm0 ram (e # mmap) ks ke kmod = None"
proof -
  have s: "round_up 0 PHY_FRAME_SIZE = 0" by (simp add: round_up_def uadd_def usub_def umul_def)
  have "round_down (uadd 0 (me_len e)) PHY_FRAME_SIZE = 0"
    using assms(2) by (simp add: round_down_def uadd_def umul_def)
  then have e: "usub (round_down (uadd 0 (me_len e)) PHY_FRAME_SIZE) 1 = usize_span - 1"
    by (simp add: usub_def)
  have "mark_entries bm (e # mmap) True = None" if "0 < last_phys_addr bm" for bm
    using that mark_range_top_diverges [of 0 bm False]
    by (simp only: mark_entries.simps assms(1,3) s e Let_def mark_continuous_def) simp
  moreover have "0 < usub (last_usable (e # mmap) 0) 1"
    using assms(4) by (simp only: usub_exact)
  ultimately show ?thesis
    by (simp add: pm_init_def Let_def place_bitmap_def del: last_usable.simps mark_entries.simps)
qed

theorem init_short_first_entry_hangs_witness:
  "pm_init (new_frames_bitmap (\<lambda>_. 0)) (\<lambda>_. 0)
     (\<lparr>me_base = 0, me_len = 0x400, me_avail = True\<rparr> # demo_mmap) 0x100000 0x1FFFFF None = None"
  by (rule init_short_first_entry_hangs) (simp_all add: demo_mmap_def uadd_def)

text \<open>The end of a usable entry is computed from its rounded-up start, not from its own
  start: when the start is not page aligned and the length is a multiple of the page size,
  \<^verbatim>\<open>init\<close> marks as free a frame that reaches past the end of the entry.\<close>

theorem init_unaligned_entry_overshoots:
  assumes "entry_sane e" and "me_avail e" and "me_base e mod PHY_FRAME_SIZE \<noteq> 0"
    and "0 < m" and "me_len e = PHY_FRAME_SIZE * m"
    and "round_up (me_base e) PHY_FRAME_SIZE < last_phys_addr bm"
  shows "\<exists>bm' k. mark_entries bm [e] True = Some bm' \<and> frame_free bm' k
    \<and> PHY_FRAME_SIZE * k < me_base e + me_len e
    \<and> me_base e + me_len e < PHY_FRAME_SIZE * k + PHY_FRAME_SIZE"
proof -
  let ?k = "entry_first e + m - 1"
  have k: "?k \<in> set (entry_frames e)" using assms(4,5) by (simp add: entry_frames_def)
  have "me_base e \<noteq> PHY_FRAME_SIZE * entry_first e" using assms(3) by auto
  then have "me_base e < PHY_FRAME_SIZE * entry_first e" using entry_first_le(1) [of e] by simp
  moreover have "PHY_FRAME_SIZE * ?k + PHY_FRAME_SIZE = PHY_FRAME_SIZE * entry_first e + PHY_FRAME_SIZE * m"
    using assms(4) by (simp add: algebra_simps)
  ultimately have "me_base e + me_len e < PHY_FRAME_SIZE * ?k + PHY_FRAME_SIZE"
    using assms(5) by simp
  moreover have "mark_entries bm [e] True = Some (mark_frames bm (entry_frames e) False)"
    using mark_entries_eq [of "[e]" bm True] assms(1,2,6) by (simp add: pass_frames_def)
  moreover have "frame_free (mark_frames bm (entry_frames e) False) ?k"
    using k by (simp add: frame_free_mark_frames)
  ultimately show ?thesis using entry_frame_end [OF k] by blast
qed

theorem init_unaligned_entry_overshoots_witness:
  "\<exists>bm' k. mark_entries demo_bitmap [\<lparr>me_base = 0x800, me_len = 0x2000, me_avail = True\<rparr>] True = Some bm'
    \<and> frame_free bm' k \<and> PHY_FRAME_SIZE * k < 0x2800 \<and> 0x2800 < PHY_FRAME_SIZE * k + PHY_FRAME_SIZE"
  using init_unaligned_entry_overshoots
    [of "\<lparr>me_base = 0x800, me_len = 0x2000, me_avail = True\<rparr>" 2 demo_bitmap]
  by (simp add: entry_sane_def round_up_def uadd_def usub_def umul_def demo_bitmap_def)

end
