(* ===== verification/Kernel_Heap_Props.thy ===== *)
theory Kernel_Heap_Props
  imports Kernel_Heap_Inv Phys_Mem_Props
begin

text \<open>
  The properties of the kernel heap, over the operations of \<open>Kernel_Heap\<close> and the
  ghost-free invariant \<open>heap_inv\<close>, with their witnesses on an empty heap above the
  four-frame machine of \<open>Phys_Mem_Props\<close>.
\<close>

section \<open>A heap on a small machine\<close>

definition demo_heap :: kheap where
  "demo_heap = empty_kheap demo_bitmap
     (\<lambda>_. \<lparr>descriptors = [], prev_word = 0, next_word = 0\<rparr>)"

lemma demo_heap_ok: "heap_ok (\<lambda>_. []) demo_heap"
  unfolding demo_heap_def by (rule empty_kheap_ok [OF demo_ok]) (simp add: demo_free_set)

lemma demo_heap_inv: "heap_inv demo_heap"
  using demo_heap_ok by (auto simp: heap_inv_def)

lemma demo_heap_fields: "pmm demo_heap = demo_bitmap" "objects demo_heap = {}"
proof -
  show "pmm demo_heap = demo_bitmap" by (simp add: demo_heap_def empty_kheap_def)
  show "objects demo_heap = {}" using objects_live [OF demo_heap_ok] by (simp add: live_def)
qed

lemma demo_run: "run_at demo_bitmap 1 3" "run_at demo_bitmap 1 2"
  by (auto simp: run_at_def demo_free_set)

lemma demo_small: "small_request 100 8" "au_class 100 = 2" "small_request 64 64" "au_class 64 = 1"
  by (simp_all add: small_request_def au_class_def)

text \<open>One object of class 2, at an address the heap chose.\<close>

lemma demo_one_object:
  "\<exists>a h. kalloc_alloc demo_heap 100 8 = returns (a, h) \<and> heap_inv h \<and> objects h = {(2, a)}"
proof -
  obtain a h P where a: "kalloc_alloc demo_heap 100 8 = returns (a, h)" "unit_taken (\<lambda>_. []) demo_heap 2 a h P"
    using kalloc_alloc_small [OF demo_heap_ok demo_small(1)] demo_run(1)
    unfolding demo_small(2) demo_heap_fields(1) by (auto simp: numeral_3_eq_3)
  then have "heap_ok P h" "objects h = {(2, a)}"
    using objects_live [of P h] objects_live [OF demo_heap_ok] demo_heap_fields(2)
    by (auto simp: unit_taken_def)
  then show ?thesis using a(1) by (auto simp: heap_inv_def)
qed

section \<open>Properties\<close>

text \<open>C5. A small request (at most 4032 bytes, alignment at most 64) to \<^verbatim>\<open>KernelAlloc::alloc\<close>
  either aborts, and then the free frames contain no run one frame longer than the
  request's class, or returns a fresh, 64-byte aligned, non-null unit large enough for it;
  the set of live objects grows by exactly that unit and the heap stays consistent. The
  \<^verbatim>\<open>panic!\<close>s that report a corrupt page are unreachable, and the chain search ends.\<close>

theorem kalloc_small_correct:
  assumes "heap_inv h" and "small_request sz align"
  shows "(kalloc_alloc h sz align = panics \<and> \<not> (\<exists>j. run_at (pmm h) j (Suc (au_class sz))))
    \<or> (\<exists>a h'. kalloc_alloc h sz align = returns (a, h') \<and> heap_inv h' \<and> a \<noteq> 0 \<and> a mod 64 = 0
        \<and> sz \<le> 64 * au_class sz \<and> (au_class sz, a) \<notin> objects h
        \<and> objects h' = insert (au_class sz, a) (objects h)
        \<and> managed_frames (pmm h') = managed_frames (pmm h))"
proof -
  obtain P where P: "heap_ok P h" using assms(1) by (auto simp: heap_inv_def)
  have "heap_inv h' \<and> objects h' = live P' h'" if "heap_ok P' h'" for P' h'
    using that objects_live by (auto simp: heap_inv_def)
  then show ?thesis
    using kalloc_alloc_small [OF P assms(2)] small_request_class(3) [OF assms(2)] objects_live [OF P]
    unfolding unit_taken_def by metis
qed

theorem kalloc_small_correct_witness:
  "\<exists>a h'. kalloc_alloc demo_heap 100 8 = returns (a, h') \<and> heap_inv h' \<and> objects h' = {(2, a)}"
  using kalloc_small_correct [OF demo_heap_inv demo_small(1)] demo_run(1)
  unfolding demo_small(2) demo_heap_fields by (auto simp: numeral_3_eq_3)

text \<open>C6. After any history of small allocations and releases, the heap is consistent, its
  live objects are those it started with and those handed out and not returned, no two of
  the latter share a byte, and none lies in a frame the physical memory manager considers
  free.\<close>

theorem kalloc_history_safe:
  assumes "heap_history h0 h xs" and "heap_inv h0"
  shows "heap_inv h \<and> distinct xs \<and> objects h = set xs \<union> objects h0
    \<and> sorted_wrt (\<lambda>x y. unit_extent x \<inter> unit_extent y = {}) xs
    \<and> (\<forall>x \<in> set xs. unit_extent x \<inter> spare_bytes h = {})"
  using heap_history_client [OF assms] kheap.client_disjoint [OF heap_history_client [OF assms]]
  unfolding kheap.client_ok_def by blast

theorem kalloc_history_safe_witness:
  "\<exists>a h. heap_history demo_heap h [(2, a)] \<and> heap_inv h \<and> objects h = {(2, a)}
     \<and> unit_extent (2, a) \<inter> spare_bytes h = {}"
proof -
  obtain a h where a: "kalloc_alloc demo_heap 100 8 = returns (a, h)"
    using demo_one_object by blast
  have "unit_alloc demo_heap (2, a) h" using unit_alloc.intros [OF demo_small(1) a] demo_small(2) by simp
  then have t: "heap_history demo_heap h [(2, a)]" by (rule history_alloc [OF history_start])
  show ?thesis using kalloc_history_safe [OF t demo_heap_inv] t demo_heap_fields(2) by auto
qed

text \<open>C7. Releasing a live small object with \<^verbatim>\<open>KernelAlloc::dealloc\<close> always returns: the
  set of live objects loses exactly that object, the heap stays consistent, and no frame is
  taken from the physical memory manager.\<close>

theorem kalloc_small_free_correct:
  assumes "heap_inv h" and "small_request sz align" and "(au_class sz, a) \<in> objects h"
  shows "\<exists>h'. kalloc_dealloc h a sz = Some h' \<and> heap_inv h' \<and> objects h' = objects h - {(au_class sz, a)}
    \<and> free_set (pmm h) \<subseteq> free_set (pmm h') \<and> managed_frames (pmm h') = managed_frames (pmm h)"
proof -
  obtain P where P: "heap_ok P h" using assms(1) by (auto simp: heap_inv_def)
  have l: "(au_class sz, a) \<in> live P h" using assms(3) objects_live [OF P] by simp
  have "heap_inv h' \<and> objects h' = live P h'" if "heap_ok P h'" for h'
    using that objects_live by (auto simp: heap_inv_def)
  then show ?thesis
    using kalloc_dealloc_small [OF P assms(2) l] objects_live [OF P] by metis
qed

theorem kalloc_small_free_correct_witness:
  "\<exists>a h h'. kalloc_alloc demo_heap 100 8 = returns (a, h) \<and> kalloc_dealloc h a 100 = Some h'
     \<and> heap_inv h' \<and> objects h' = {}"
proof -
  obtain a h where a: "kalloc_alloc demo_heap 100 8 = returns (a, h)" "heap_inv h" "objects h = {(2, a)}"
    using demo_one_object by blast
  then show ?thesis
    using kalloc_small_free_correct [OF a(2) demo_small(1), of a] demo_small(2) by auto
qed

text \<open>A cluster of class \<open>i\<close> at address \<open>b\<close>: a descriptor of one of the pages of the class has this base.
  The cluster occupies \<open>i\<close> frames.\<close>

definition cluster_at :: "kheap \<Rightarrow> nat \<Rightarrow> usize \<Rightarrow> bool" where
  "cluster_at h i b \<longleftrightarrow> b \<noteq> 0 \<and> (\<exists>ps. chain h (kalloc_root h ! i) ps
     \<and> (\<exists>p \<in> set ps. \<exists>k < DESCRIPTOR_COUNT. base_addr (descs h p ! k) = b))"

text \<open>The live units of a class inside a cluster are those of its descriptor.\<close>

lemma cluster_objects:
  assumes ok: "heap_ok P h" and i: "i < KALLOC_ROOT_ENTRIES" and p: "p \<in> set (P i)" and k: "k < DESCRIPTOR_COUNT"
    and b: "base_addr (descs h p ! k) \<noteq> 0"
  shows "{c. (i, c) \<in> live P h} \<inter> {base_addr (descs h p ! k)..<base_addr (descs h p ! k) + i * PHY_FRAME_SIZE}
    = cd_live i (descs h p ! k)"
proof -
  note r = cluster_range [OF ok i p k b]
  have i0: "0 < i" using p heap_okD(4) [OF ok] by (cases i) auto
  have inside: "c \<in> {base_addr (descs h p ! k)..<base_addr (descs h p ! k) + i * PHY_FRAME_SIZE}
    \<longleftrightarrow> frame_of c \<in> own_frames h (ClusterOf i p k)" for c
    using in_cluster_frame [OF r(1), of c i] b by (simp add: cl_frames_def)
  have own: "frame_of c \<in> own_frames h (ClusterOf i q m)"
    if "q \<in> set (P i)" "m < DESCRIPTOR_COUNT" "c \<in> cd_live i (descs h q ! m)" for c q m
    using cd_live_frames [OF _ that(3) i0] heap_pageD(4) [OF ok i that(1)] that(2) by (simp add: page_ok_def)
  have "c \<in> cd_live i (descs h p ! k)" if l: "(i, c) \<in> live P h" and f: "frame_of c \<in> own_frames h (ClusterOf i p k)" for c
  proof -
    obtain q m where q: "q \<in> set (P i)" "m < DESCRIPTOR_COUNT" "c \<in> cd_live i (descs h q ! m)"
      using l by (auto simp: live_def)
    have "ClusterOf i q m = ClusterOf i p k"
      using own [OF q] f heap_okD(6) [OF ok] ownersI(2) [where P = P, OF i q(1,2)] ownersI(2) [where P = P, OF i p k]
      unfolding heap_owned_ok_def by (metis disjoint_iff)
    then show ?thesis using q(3) by simp
  qed
  then show ?thesis unfolding set_eq_iff Int_iff inside using own [OF p k] i p k by (auto simp: live_def)
qed

text \<open>C8. Clusters are given back when they run empty: releasing a live object \<open>a\<close> of a class of \<open>i\<close> frames
  finds the cluster it lies in. If \<open>a\<close> was the last live object there, exactly the \<open>i\<close> frames of the
  cluster, none of which was free before, become free; otherwise the set of free frames stays as it is.\<close>

theorem kalloc_free_returns_cluster:
  assumes "heap_inv h" and "small_request sz align" and "(i, a) \<in> objects h" and i: "i = au_class sz"
  shows "\<exists>h' b. kalloc_dealloc h a sz = Some h' \<and> heap_inv h' \<and> cluster_at h i b \<and> a \<in> {b..<b + i * PHY_FRAME_SIZE}
    \<and> {frame_of b..<frame_of b + i} \<inter> free_set (pmm h) = {}
    \<and> free_set (pmm h') = free_set (pmm h) \<union>
        (if {c. (i, c) \<in> objects h} \<inter> {b..<b + i * PHY_FRAME_SIZE} = {a} then {frame_of b..<frame_of b + i} else {})"
proof -
  obtain P where P: "heap_ok P h" using assms(1) by (auto simp: heap_inv_def)
  obtain p k where k: "i < KALLOC_ROOT_ENTRIES" "p \<in> set (P i)" "k < DESCRIPTOR_COUNT" "a \<in> cd_live i (descs h p ! k)"
    using assms(3) objects_live [OF P] by (auto simp: live_def)
  let ?b = "base_addr (descs h p ! k)"
  have b: "?b \<noteq> 0" using k(4) by (auto simp: cd_live_def split: if_splits)
  note u = release_unit_spec [OF P k] and cl = cluster_objects [OF P k(1-3) b]
  have "kalloc_dealloc h a sz = Some (release_unit h i p a k)"
    using cluster_search_free_run [OF P k] small_request_class [OF assms(2)] i by (simp add: kalloc_dealloc_def tlsf_free_def)
  moreover have "heap_inv (release_unit h i p a k)" using u(1) by (auto simp: heap_inv_def)
  moreover have "cluster_at h i ?b" using b k heap_pageD(1) [OF P k(1)] by (auto simp: cluster_at_def)
  moreover have "cl_frames i (descs h p ! k) \<inter> free_set (pmm h) = {}"
    using heap_okD(6) [OF P] ownersI(2) [where P = P, OF k(1-3)] unfolding heap_owned_ok_def by force
  moreover have "a \<in> {?b..<?b + i * PHY_FRAME_SIZE}" using cl k(4) by blast
  moreover have f: "cl_frames i (descs h p ! k) = {frame_of ?b..<frame_of ?b + i}" using b by (simp add: cl_frames_def)
  moreover have "free_set (pmm (release_unit h i p a k)) = free_set (pmm h) \<union>
      (if {c. (i, c) \<in> objects h} \<inter> {?b..<?b + i * PHY_FRAME_SIZE} = {a} then {frame_of ?b..<frame_of ?b + i} else {})"
    unfolding objects_live [OF P] cl using u(4) f by simp
  ultimately show ?thesis unfolding f by blast
qed

text \<open>The only object goes: the frames of its cluster are free again.\<close>

theorem kalloc_free_returns_cluster_witness:
  "\<exists>a h h' b. kalloc_alloc demo_heap 100 8 = returns (a, h) \<and> kalloc_dealloc h a 100 = Some h'
     \<and> cluster_at h 2 b \<and> free_set (pmm h') = free_set (pmm h) \<union> {frame_of b..<frame_of b + 2}"
proof -
  obtain a h where a: "kalloc_alloc demo_heap 100 8 = returns (a, h)" "heap_inv h" "objects h = {(2, a)}"
    using demo_one_object by blast
  obtain h' b where h': "kalloc_dealloc h a 100 = Some h'" "cluster_at h 2 b" "a \<in> {b..<b + 2 * PHY_FRAME_SIZE}"
    "free_set (pmm h') = free_set (pmm h) \<union>
        (if {c. (2, c) \<in> objects h} \<inter> {b..<b + 2 * PHY_FRAME_SIZE} = {a} then {frame_of b..<frame_of b + 2} else {})"
    using kalloc_free_returns_cluster [OF a(2) demo_small(1), of 2 a, unfolded a(3) demo_small(2)] unfolding a(3) by blast
  have "{c. (2, c) \<in> objects h} \<inter> {b..<b + 2 * PHY_FRAME_SIZE} = {a}" using a(3) h'(3) by auto
  then have "free_set (pmm h') = free_set (pmm h) \<union> {frame_of b..<frame_of b + 2}" using h'(4) by simp
  then show ?thesis using a(1) h'(1,2) by blast
qed

text \<open>A request above 4032 bytes is served in whole frames: \<^verbatim>\<open>alloc\<close> returns null and
  changes nothing when no run of that many free frames exists, otherwise a frame-aligned
  block of them, not held by the heap; \<^verbatim>\<open>dealloc\<close> of that block restores the set of free
  frames. The small objects are not touched by either.\<close>

theorem kalloc_large_roundtrip:
  assumes "heap_inv h" and "4032 < sz" and "sz + 2 * PHY_FRAME_SIZE \<le> usize_span"
  shows "if \<exists>j. run_at (pmm h) j (pages_for sz)
    then \<exists>a h' h''. kalloc_alloc h sz align = returns (a, h') \<and> a mod PHY_FRAME_SIZE = 0
      \<and> sz \<le> PHY_FRAME_SIZE * pages_for sz
      \<and> {frame_of a..<frame_of a + pages_for sz} \<subseteq> free_set (pmm h) - held_frames h
      \<and> free_set (pmm h') = free_set (pmm h) - {frame_of a..<frame_of a + pages_for sz}
      \<and> heap_inv h' \<and> objects h' = objects h
      \<and> kalloc_dealloc h' a sz = Some h'' \<and> heap_inv h'' \<and> objects h'' = objects h
      \<and> free_set (pmm h'') = free_set (pmm h)
    else kalloc_alloc h sz align = returns (0, h)"
proof -
  obtain P where P: "heap_ok P h" using assms(1) by (auto simp: heap_inv_def)
  have l: "large_request sz align" using assms(2,3) by (simp add: large_request_def)
  note al = kalloc_alloc_large [OF heap_okD(1) [OF P] l]
  show ?thesis
  proof (cases "\<exists>j. run_at (pmm h) j (pages_for sz)")
    case False
    then show ?thesis using al by simp
  next
    case True
    define a where "a = PHY_FRAME_SIZE * first_run (pmm h) (pages_for sz)"
    obtain h' where r: "kalloc_alloc h sz align = returns (a, h')" using al True by (simp add: a_def)
    have n: "0 < pages_for sz" using pages_round_up(2) [of sz] assms by simp
    have "first_run (pmm h) (pages_for sz) \<in> free_set (pmm h)"
      using True first_run_run n unfolding run_at_def by fastforce
    then have "first_run (pmm h) (pages_for sz) \<noteq> 0" using heap_okD(2) [OF P] by metis
    then have a0: "a \<noteq> 0" by (simp add: a_def)
    note k = kalloc_large_keeps [OF P l r a0]
    have P': "heap_ok P h'" using k by simp
    have fr: "{frame_of a..<frame_of a + pages_for sz} \<subseteq> managed_frames (pmm h') - heap_frames P h'"
      using k pm.avail_managed [OF heap_okD(1) [OF P]] by auto
    have am: "a mod PHY_FRAME_SIZE = 0" using k by blast
    obtain h'' where "kalloc_dealloc h' a sz = Some h''" "heap_ok P h''" "live P h'' = live P h'"
      "free_set (pmm h'') = free_set (pmm h') \<union> {frame_of a..<frame_of a + pages_for sz}"
      using kalloc_large_free [OF P' assms(2,3) am a0 fr] by blast
    then show ?thesis
      using r k True pages_round_up(3) [of sz] assms(2,3) P' objects_live [OF P] objects_live [OF P']
        objects_live [of P h''] held_frames_eq [OF P]
      by (auto simp: heap_inv_def)
  qed
qed

theorem kalloc_large_roundtrip_witness:
  "\<exists>a h' h''. kalloc_alloc demo_heap 5000 8 = returns (a, h')
     \<and> {frame_of a..<frame_of a + 2} \<subseteq> {1, 2, 3} \<and> kalloc_dealloc h' a 5000 = Some h''
     \<and> free_set (pmm h'') = {1, 2, 3}"
proof -
  have p: "pages_for 5000 = 2" by (simp add: pages_for_def)
  have ex: "\<exists>j. run_at demo_bitmap j 2" using demo_run(2) by blast
  show ?thesis
    using kalloc_large_roundtrip [OF demo_heap_inv, of 5000 8] ex
    unfolding p demo_heap_fields(1) demo_free_set by auto
qed

text \<open>An over-aligned small request (alignment above 64, at most 4032 bytes) is served
  from the physical memory manager, but \<^verbatim>\<open>dealloc\<close> decides by size alone and looks for the
  address among the clusters: it finds none, reports success and returns nothing. The frames
  stay taken for ever.\<close>

theorem overaligned_dealloc_leaks:
  assumes "heap_inv h" and "0 < sz" and "sz \<le> 4032" and "64 < align"
    and "kalloc_alloc h sz align = returns (a, h')" and "a \<noteq> 0"
  shows "free_set (pmm h') = free_set (pmm h) - {frame_of a..<frame_of a + pages_for sz}
    \<and> {frame_of a..<frame_of a + pages_for sz} \<subseteq> free_set (pmm h) \<and> 0 < pages_for sz
    \<and> kalloc_dealloc h' a sz = Some h'"
proof -
  obtain P where P: "heap_ok P h" using assms(1) by (auto simp: heap_inv_def)
  have l: "large_request sz align" using assms(2-4) by (simp add: large_request_def)
  note k = kalloc_large_keeps [OF P l assms(5,6)]
  have P': "heap_ok P h'" using k by simp
  have n: "0 < pages_for sz" using pages_round_up(2) [of sz] assms(2,3) by simp
  have "frame_of a \<in> {frame_of a..<frame_of a + pages_for sz}" using n by simp
  then have out: "frame_of a \<notin> heap_frames P h'" using k by blast
  have s: "small_request sz 8" using assms(2,3) by (simp add: small_request_def)
  note c = small_request_class [OF s]
  have "cluster_search_free h' a (au_class sz) = Some h'"
    by (rule cluster_search_free_foreign [OF P' c(2) out])
  then have "kalloc_dealloc h' a sz = Some h'"
    using c by (simp add: kalloc_dealloc_def tlsf_free_def Let_def)
  then show ?thesis using k n by auto
qed

theorem overaligned_dealloc_leaks_witness:
  "\<exists>a h'. kalloc_alloc demo_heap 100 128 = returns (a, h') \<and> free_set (pmm h') \<subset> {1, 2, 3}
     \<and> kalloc_dealloc h' a 100 = Some h'"
proof -
  have p: "pages_for 100 = 1" by (simp add: pages_for_def)
  have r: "run_at demo_bitmap 1 1" by (simp add: run_at_def demo_free_set)
  have l: "large_request 100 128" by (simp add: large_request_def)
  define a where "a = PHY_FRAME_SIZE * first_run demo_bitmap 1"
  obtain h' where al: "kalloc_alloc demo_heap 100 128 = returns (a, h')"
    using kalloc_alloc_large [of demo_heap, OF _ l] demo_ok r unfolding demo_heap_fields p a_def
    by (metis One_nat_def)
  have "first_run demo_bitmap 1 \<in> {1, 2, 3}"
    using first_run_run [OF r] by (simp add: run_at_def demo_free_set)
  then have "a \<noteq> 0" unfolding a_def by (cases "first_run demo_bitmap 1 = 0") auto
  then have "free_set (pmm h') = {1, 2, 3} - {frame_of a..<frame_of a + 1}
    \<and> {frame_of a..<frame_of a + 1} \<subseteq> {1, 2, 3 :: nat} \<and> kalloc_dealloc h' a 100 = Some h'"
    using overaligned_dealloc_leaks [OF demo_heap_inv _ _ _ al] unfolding p demo_heap_fields demo_free_set
    by simp
  then show ?thesis using al by (intro exI [of _ a] exI [of _ h']) auto
qed

text \<open>The two words of a descriptor page hold an address and a byte each without
  interference: every setter changes what its getter reads to the value written, for a page
  aligned address and a count or index below 256, and leaves the other three as they were.\<close>

theorem page_words_roundtrip:
  assumes "v < usize_span" and "v mod 256 = 0" and "n < 256"
  shows "cdp_next (set_next h p v) p = v \<and> free_desc_count (set_next h p v) p = free_desc_count h p
    \<and> free_desc_count (set_free_desc_count h p n) p = n \<and> cdp_next (set_free_desc_count h p n) p = cdp_next h p
    \<and> cdp_prev (set_prev h p v) p = v \<and> free_desc_index (set_prev h p v) p = free_desc_index h p
    \<and> free_desc_index (set_free_desc_index h p n) p = n
    \<and> cdp_prev (set_free_desc_index h p n) p = cdp_prev h p"
  using assms
  by (simp add: cdp_accessors set_next_def set_free_desc_count_def set_prev_def set_free_desc_index_def
      Let_def mux_low_high unat_high_bytes unat_low_byte)

theorem page_words_roundtrip_witness:
  "cdp_next (set_next demo_heap 8192 4096) 8192 = 4096
    \<and> free_desc_index (set_free_desc_index demo_heap 8192 17) 8192 = 17"
  using page_words_roundtrip [of 4096 17 demo_heap 8192] by simp

end
