(* ===== verification/Run_Queue.thy ===== *)
theory Run_Queue
  imports Blight_Prelude
begin

text \<open>
  The run queues of \<^verbatim>\<open>kernel/src/sched/sched_rr.rs\<close> and the dispatch over them
  (\<^verbatim>\<open>SchedulerOps\<close> in \<^verbatim>\<open>kernel/src/sched/mod.rs\<close>). The interface \<open>run_queue\<close> states what
  the scheduler relies on whatever the policy: the queue is a list of task ids, new tasks
  go to its end, and choosing the next task picks the head and neither loses nor adds one.
  Arming the system timer in the round-robin \<^verbatim>\<open>next_task\<close> is a hardware effect without a
  counterpart here.
\<close>

section \<open>The interface\<close>

locale run_queue =
  fixes items :: "'q \<Rightarrow> usize list"
    and add :: "usize \<Rightarrow> 'q \<Rightarrow> 'q"
    and rem :: "usize \<Rightarrow> 'q \<Rightarrow> 'q"
    and nxt :: "'q \<Rightarrow> usize option \<times> 'q"
  assumes items_add: "items (add t q) = items q @ [t]"
    and items_rem: "items (rem t q) = filter (\<lambda>x. x \<noteq> t) (items q)"
    and nxt_head: "fst (nxt q) = (case items q of [] \<Rightarrow> None | t # _ \<Rightarrow> Some t)"
    and nxt_items: "items (snd (nxt q)) = items q
      \<or> items (snd (nxt q)) = rotate1 (items q)"
begin

lemma set_add: "set (items (add t q)) = insert t (set (items q))"
  by (simp add: items_add)

lemma set_rem: "set (items (rem t q)) = set (items q) - {t}"
  by (auto simp: items_rem)

lemma set_nxt: "set (items (snd (nxt q))) = set (items q)"
  using nxt_items [of q] by auto

lemma distinct_add: "distinct (items q) \<Longrightarrow> t \<notin> set (items q) \<Longrightarrow> distinct (items (add t q))"
  by (simp add: items_add)

lemma distinct_rem: "distinct (items q) \<Longrightarrow> distinct (items (rem t q))"
  by (simp add: items_rem)

lemma distinct_nxt: "distinct (items (snd (nxt q))) = distinct (items q)"
  using nxt_items [of q] by auto

lemma nxt_empty: "fst (nxt q) = None \<longleftrightarrow> items q = []"
  by (simp add: nxt_head split: list.splits)

lemma nxt_member: "fst (nxt q) = Some t \<Longrightarrow> t \<in> set (items q)"
  by (auto simp: nxt_head split: list.splits)

lemma rem_add: "t \<notin> set (items q) \<Longrightarrow> items (rem t (add t q)) = items q"
  by (auto simp: items_rem items_add filter_id_conv)

end

section \<open>The two policies\<close>

record fcfs_scheduler =
  fcfs_queue :: "usize list"

definition fcfs_new :: fcfs_scheduler where
  "fcfs_new = \<lparr>fcfs_queue = []\<rparr>"

definition fcfs_add_task :: "usize \<Rightarrow> fcfs_scheduler \<Rightarrow> fcfs_scheduler" where
  "fcfs_add_task tid q = q\<lparr>fcfs_queue := fcfs_queue q @ [tid]\<rparr>"

definition fcfs_rem_task :: "usize \<Rightarrow> fcfs_scheduler \<Rightarrow> fcfs_scheduler" where
  "fcfs_rem_task tid q = q\<lparr>fcfs_queue := filter (\<lambda>x. x \<noteq> tid) (fcfs_queue q)\<rparr>"

definition fcfs_next_task :: "fcfs_scheduler \<Rightarrow> usize option \<times> fcfs_scheduler" where
  "fcfs_next_task q = (case fcfs_queue q of
     tid # rest \<Rightarrow> (Some tid, q\<lparr>fcfs_queue := tid # rest\<rparr>)
   | [] \<Rightarrow> (None, q))"

record rr_scheduler =
  rr_quantum :: usize
  rr_queue :: "usize list"

definition rr_new :: rr_scheduler where
  "rr_new = \<lparr>rr_quantum = 0, rr_queue = []\<rparr>"

definition rr_init :: "usize \<Rightarrow> rr_scheduler \<Rightarrow> rr_scheduler" where
  "rr_init quantum q = q\<lparr>rr_quantum := quantum\<rparr>"

definition rr_add_task :: "usize \<Rightarrow> rr_scheduler \<Rightarrow> rr_scheduler" where
  "rr_add_task tid q = q\<lparr>rr_queue := rr_queue q @ [tid]\<rparr>"

definition rr_rem_task :: "usize \<Rightarrow> rr_scheduler \<Rightarrow> rr_scheduler" where
  "rr_rem_task tid q = q\<lparr>rr_queue := filter (\<lambda>x. x \<noteq> tid) (rr_queue q)\<rparr>"

definition rr_next_task :: "rr_scheduler \<Rightarrow> usize option \<times> rr_scheduler" where
  "rr_next_task q = (case rr_queue q of
     tid # rest \<Rightarrow> (Some tid, q\<lparr>rr_queue := rest @ [tid]\<rparr>)
   | [] \<Rightarrow> (None, q))"

interpretation fcfs: run_queue fcfs_queue fcfs_add_task fcfs_rem_task fcfs_next_task
  by unfold_locales
    (auto simp: fcfs_add_task_def fcfs_rem_task_def fcfs_next_task_def split: list.splits)

interpretation rr: run_queue rr_queue rr_add_task rr_rem_task rr_next_task
  by unfold_locales
    (auto simp: rr_add_task_def rr_rem_task_def rr_next_task_def split: list.splits)

section \<open>Dispatch\<close>

datatype scheduler_ops = FirstComeFirstServe fcfs_scheduler | RoundRobin rr_scheduler

primrec ops_queue :: "scheduler_ops \<Rightarrow> usize list" where
  "ops_queue (FirstComeFirstServe q) = fcfs_queue q"
| "ops_queue (RoundRobin q) = rr_queue q"

primrec ops_add_task :: "usize \<Rightarrow> scheduler_ops \<Rightarrow> scheduler_ops" where
  "ops_add_task tid (FirstComeFirstServe q) = FirstComeFirstServe (fcfs_add_task tid q)"
| "ops_add_task tid (RoundRobin q) = RoundRobin (rr_add_task tid q)"

primrec ops_rem_task :: "usize \<Rightarrow> scheduler_ops \<Rightarrow> scheduler_ops" where
  "ops_rem_task tid (FirstComeFirstServe q) = FirstComeFirstServe (fcfs_rem_task tid q)"
| "ops_rem_task tid (RoundRobin q) = RoundRobin (rr_rem_task tid q)"

primrec ops_next_task :: "scheduler_ops \<Rightarrow> usize option \<times> scheduler_ops" where
  "ops_next_task (FirstComeFirstServe q) =
     (let (r, q') = fcfs_next_task q in (r, FirstComeFirstServe q'))"
| "ops_next_task (RoundRobin q) = (let (r, q') = rr_next_task q in (r, RoundRobin q'))"

interpretation ops: run_queue ops_queue ops_add_task ops_rem_task ops_next_task
proof unfold_locales
  fix t and q :: scheduler_ops
  show "ops_queue (ops_add_task t q) = ops_queue q @ [t]"
    by (cases q) (simp_all add: fcfs.items_add rr.items_add)
  show "ops_queue (ops_rem_task t q) = filter (\<lambda>x. x \<noteq> t) (ops_queue q)"
    by (cases q) (simp_all add: fcfs.items_rem rr.items_rem)
  show "fst (ops_next_task q) = (case ops_queue q of [] \<Rightarrow> None | t # _ \<Rightarrow> Some t)"
    by (cases q) (simp_all add: fcfs.nxt_head rr.nxt_head split_def)
  show "ops_queue (snd (ops_next_task q)) = ops_queue q
      \<or> ops_queue (snd (ops_next_task q)) = rotate1 (ops_queue q)"
    by (cases q) (simp_all add: fcfs.nxt_items rr.nxt_items split_def Let_def)
qed

text \<open>What the policies add to the interface: first come first served never moves on,
  round robin always does.\<close>

lemma fcfs_next_same: "snd (fcfs_next_task q) = q"
  by (cases q) (simp add: fcfs_next_task_def split: list.splits)

lemma rr_next_rotates: "rr_queue (snd (rr_next_task q)) = rotate1 (rr_queue q)"
  by (simp add: rr_next_task_def split: list.splits)

lemma ops_next_fcfs: "ops_next_task (FirstComeFirstServe q) =
    ((case fcfs_queue q of [] \<Rightarrow> None | t # _ \<Rightarrow> Some t), FirstComeFirstServe q)"
  using fcfs_next_same [of q] fcfs.nxt_head [of q] by (simp add: split_def)

lemma ops_next_rr: "ops_next_task (RoundRobin q) =
    ((case rr_queue q of [] \<Rightarrow> None | t # _ \<Rightarrow> Some t), RoundRobin (q\<lparr>rr_queue := rotate1 (rr_queue q)\<rparr>))"
  by (cases q) (auto simp: rr_next_task_def split: list.splits)

end
