(* ===== verification/Scheduler.thy ===== *)
theory Scheduler
  imports BTree_Map Run_Queue Phys_Mem
begin

text \<open>
  The task scheduler, \<^verbatim>\<open>kernel/src/sched/mod.rs\<close>: tasks, per-CPU task pools and run
  queues, blocking and waking, inter-processor messages, the per-CPU worker, joining,
  migration, the load balancer and wait channels.

  The state \<open>kernel\<close> has the per-CPU variables of every CPU (\<open>percpu\<close>) and the shared ones.
  An operation takes the number \<open>c\<close> of the CPU it runs on (\<^verbatim>\<open>cpu_id()\<close>). A trigger of
  the timer interrupt (\<^verbatim>\<open>int 0x21\<close>) is a synchronous call of \<open>preempt_irq\<close>; an operation
  that blocks ends there, and what it does when it is resumed is an operation of its own.
  Clock readings are an input: \<open>clk n\<close> is the value of the \<open>n\<close>-th reading.

  \<^verbatim>\<open>let _ = Preemption::lock();\<close> drops the guard at once, so it leaves no effect to model.
  A task's register image (\<^verbatim>\<open>TaskContext\<close>, assembly) is reduced to its entry point and
  argument. The reference counter \<^verbatim>\<open>blocked_count\<close> is an \<open>int\<close>: it would take \<open>2 ^ 63\<close>
  pending wake-ups to wrap it.
\<close>

section \<open>Tasks\<close>

datatype task_state = New | Ready | Running | Blocked | Sleeping | Migrating | Terminating | Dropped

record task_context =
  ctx_ep :: usize
  ctx_arg :: usize
  ctx_tid :: usize

record task =
  t_tid :: usize
  t_pid :: usize
  t_name :: string
  t_state :: task_state
  t_cpu :: usize
  kstack_base :: usize
  kstack_pages :: usize
  wakeup_time :: u64
  blocked_count :: int
  joiners :: "usize list"
  t_ctx :: task_context
  msg_ret :: usize

definition task_new :: task where
  "task_new = \<lparr>t_tid = 0, t_pid = 0, t_name = [], t_state = New, t_cpu = 0, kstack_base = 0,
     kstack_pages = 0, wakeup_time = 0, blocked_count = 0, joiners = [],
     t_ctx = \<lparr>ctx_ep = 0, ctx_arg = 0, ctx_tid = 0\<rparr>, msg_ret = 0\<rparr>"

definition runnable :: "task \<Rightarrow> bool" where
  "runnable t \<longleftrightarrow> t_state t = Ready \<or> t_state t = Running"

section \<open>Messages and the load balancer\<close>

datatype ipm_payload =
    RespondAndUnblock usize usize
  | CreateTask usize usize usize usize usize string
  | MoveTask task
  | Unblock usize
  | AddJoiner usize usize usize

record ipm =
  dest_cpu :: usize
  payload :: ipm_payload

record cpu_load =
  cpuid :: usize
  num_tasks :: usize

type_synonym load_balancer = "cpu_load list"

definition lb_add_cpu :: "usize \<Rightarrow> load_balancer \<Rightarrow> load_balancer" where
  "lb_add_cpu c lb = lb @ [\<lparr>cpuid = c, num_tasks = 0\<rparr>]"

text \<open>\<^verbatim>\<open>iter_mut().find(..)\<close>: the first entry of the CPU, if any, is updated.\<close>

fun lb_update :: "(usize \<Rightarrow> usize) \<Rightarrow> usize \<Rightarrow> load_balancer \<Rightarrow> load_balancer" where
  "lb_update f c [] = []"
| "lb_update f c (l # ls) =
     (if cpuid l = c then l\<lparr>num_tasks := f (num_tasks l)\<rparr> # ls else l # lb_update f c ls)"

definition lb_add_task :: "usize \<Rightarrow> load_balancer \<Rightarrow> load_balancer" where
  "lb_add_task = lb_update (\<lambda>n. uadd n 1)"

definition lb_rem_task :: "usize \<Rightarrow> load_balancer \<Rightarrow> load_balancer" where
  "lb_rem_task = lb_update (\<lambda>n. usub n 1)"

definition select_cpu :: "load_balancer \<Rightarrow> usize" where
  "select_cpu lb = snd (foldl (\<lambda>(least, sel) l.
     if num_tasks l < least then (num_tasks l, cpuid l) else (least, sel)) (usize_span - 1, 0) lb)"

section \<open>The kernel's scheduling state\<close>

record percpu =
  curr_tid :: usize
  task_pool :: "(usize, task) bt_map"
  sched :: scheduler_ops

record kernel =
  cpu :: "usize \<Rightarrow> percpu"
  default_kstack_size :: usize
  next_task_id :: usize
  msg_queue :: "ipm list"
  tid_cpu_map :: "(usize, usize) bt_map"
  lbal :: load_balancer
  phys :: frames_bitmap

abbreviation pool :: "kernel \<Rightarrow> usize \<Rightarrow> (usize, task) bt_map" where
  "pool k c \<equiv> task_pool (cpu k c)"

definition put_cpu :: "usize \<Rightarrow> percpu \<Rightarrow> kernel \<Rightarrow> kernel" where
  "put_cpu c p k = k\<lparr>cpu := (cpu k)(c := p)\<rparr>"

text \<open>A write through \<^verbatim>\<open>TASK_POOL.borrow_mut().get_mut(&tid)\<close>, and a change of the CPU's
  run queue.\<close>

definition put_task :: "usize \<Rightarrow> usize \<Rightarrow> task \<Rightarrow> kernel \<Rightarrow> kernel" where
  "put_task c tid t k = put_cpu c ((cpu k c)\<lparr>task_pool := bt_insert tid t (pool k c)\<rparr>) k"

definition map_sched :: "usize \<Rightarrow> (scheduler_ops \<Rightarrow> scheduler_ops) \<Rightarrow> kernel \<Rightarrow> kernel" where
  "map_sched c f k = put_cpu c ((cpu k c)\<lparr>sched := f (sched (cpu k c))\<rparr>) k"

definition send_ipm :: "ipm \<Rightarrow> kernel \<Rightarrow> kernel" where
  "send_ipm m k = k\<lparr>msg_queue := msg_queue k @ [m]\<rparr>"

definition config_first_come_first_served :: "usize \<Rightarrow> kernel \<Rightarrow> kernel" where
  "config_first_come_first_served c k =
     (let k1 = map_sched c (\<lambda>_. FirstComeFirstServe fcfs_new) k
      in k1\<lparr>lbal := lb_add_cpu c (lbal k1)\<rparr>)"

definition config_round_robin :: "usize \<Rightarrow> usize \<Rightarrow> kernel \<Rightarrow> kernel" where
  "config_round_robin c quantum k =
     (let k1 = map_sched c (\<lambda>_. RoundRobin (rr_init quantum rr_new)) k
      in k1\<lparr>lbal := lb_add_cpu c (lbal k1)\<rparr>)"

section \<open>Choosing the next task\<close>

text \<open>The loop of \<^verbatim>\<open>preempt_irq\<close>: the head of the queue, skipping tasks that sleep on.\<close>

partial_function (option) pick_next ::
  "(nat \<Rightarrow> u64) \<Rightarrow> nat \<Rightarrow> percpu \<Rightarrow> (usize \<times> percpu) run" where
  "pick_next clk n p =
     (case ops_next_task (sched p) of
        (None, s) \<Rightarrow> panics
      | (Some tid, s) \<Rightarrow>
          (case bt_get (task_pool p) tid of
             None \<Rightarrow> panics
           | Some t \<Rightarrow>
               if t_state t = Sleeping then
                 (if clk n \<ge> wakeup_time t then
                    returns (tid, p\<lparr>sched := s, task_pool := bt_insert tid
                      (t\<lparr>t_state := Ready, wakeup_time := 0\<rparr>) (task_pool p)\<rparr>)
                  else pick_next clk (Suc n) (p\<lparr>sched := s\<rparr>))
               else returns (tid, p\<lparr>sched := s\<rparr>)))"

definition preempt_irq :: "(nat \<Rightarrow> u64) \<Rightarrow> usize \<Rightarrow> kernel \<Rightarrow> kernel run" where
  "preempt_irq clk c k =
     (let cur_task = curr_tid (cpu k c) in
      and_then (pick_next clk 0 (cpu k c))
        (\<lambda>(tid, p).
           case bt_get (task_pool p) cur_task of
             None \<Rightarrow> panics
           | Some old \<Rightarrow>
               (case bt_get (task_pool p) tid of
                  None \<Rightarrow> panics
                | Some nt \<Rightarrow>
                    let p1 = p\<lparr>curr_tid := t_tid nt\<rparr> in
                    returns (put_cpu c
                      (if t_tid old \<noteq> t_tid nt then
                         (let pool1 = (if t_state old = Running
                                then bt_insert cur_task (old\<lparr>t_state := Ready\<rparr>) (task_pool p1)
                                else task_pool p1)
                          in p1\<lparr>task_pool := bt_insert tid (nt\<lparr>t_state := Running\<rparr>) pool1\<rparr>)
                       else p1) k))))"

section \<open>Blocking and waking\<close>

definition block_task :: "(nat \<Rightarrow> u64) \<Rightarrow> usize \<Rightarrow> usize \<Rightarrow> kernel \<Rightarrow> kernel run" where
  "block_task clk c tid k =
     (case bt_get (pool k c) tid of
        None \<Rightarrow> panics
      | Some t \<Rightarrow>
          let t1 = t\<lparr>blocked_count := blocked_count t + 1\<rparr> in
          if blocked_count t \<noteq> 0 then returns (put_task c tid t1 k)
          else
            let t2 = (if t_state t1 \<noteq> Migrating then t1\<lparr>t_state := Blocked\<rparr> else t1)
            in preempt_irq clk c (map_sched c (ops_rem_task tid) (put_task c tid t2 k)))"

definition unblock_task :: "usize \<Rightarrow> usize \<Rightarrow> kernel \<Rightarrow> kernel run" where
  "unblock_task c tid k =
     (case bt_get (tid_cpu_map k) tid of
        None \<Rightarrow> returns k
      | Some target_cpu \<Rightarrow>
          if c = target_cpu then
            (case bt_get (pool k c) tid of
               None \<Rightarrow> panics
             | Some t \<Rightarrow>
                 if t_state t = Sleeping
                 then returns (put_task c tid (t\<lparr>t_state := Ready, wakeup_time := 0\<rparr>) k)
                 else
                   let t1 = t\<lparr>blocked_count := blocked_count t - 1\<rparr> in
                   if blocked_count t = 1
                   then returns (map_sched c (ops_add_task tid)
                          (put_task c tid (t1\<lparr>t_state := Ready\<rparr>) k))
                   else returns (put_task c tid t1 k))
          else returns (send_ipm \<lparr>dest_cpu = target_cpu, payload = Unblock tid\<rparr> k))"

fun unblock_all :: "usize \<Rightarrow> usize list \<Rightarrow> kernel \<Rightarrow> kernel run" where
  "unblock_all c [] k = returns k"
| "unblock_all c (tid # tids) k = and_then (unblock_task c tid k) (unblock_all c tids)"

text \<open>\<^verbatim>\<open>Task::sleep\<close> for a number of clock ticks.\<close>

definition task_sleep :: "(nat \<Rightarrow> u64) \<Rightarrow> usize \<Rightarrow> u64 \<Rightarrow> kernel \<Rightarrow> kernel run" where
  "task_sleep clk c ticks k =
     (let tid = curr_tid (cpu k c);
          k1 = (case bt_get (pool k c) tid of
             Some t \<Rightarrow> put_task c tid (t\<lparr>wakeup_time := clk 0 + ticks, t_state := Sleeping\<rparr>) k
           | None \<Rightarrow> k)
      in preempt_irq (\<lambda>n. clk (Suc n)) c k1)"

section \<open>Creation and termination\<close>

text \<open>\<^verbatim>\<open>stack_alloc\<close>: the address and the length in words of the new stack.\<close>

definition stack_alloc :: "usize \<Rightarrow> kernel \<Rightarrow> ((usize \<times> usize) option \<times> kernel) option" where
  "stack_alloc stack_pgs k =
     (case alloc_continuous (phys k) stack_pgs of
        None \<Rightarrow> None
      | Some (Inr base_addr, bm) \<Rightarrow>
          Some (Some (base_addr, umul stack_pgs PHY_FRAME_SIZE div 8), k\<lparr>phys := bm\<rparr>)
      | Some (Inl _, bm) \<Rightarrow> Some (None, k\<lparr>phys := bm\<rparr>))"

definition create_task ::
  "usize \<Rightarrow> usize \<Rightarrow> usize \<Rightarrow> usize \<Rightarrow> string \<Rightarrow> kernel \<Rightarrow> (usize \<times> kernel) option" where
  "create_task c func func_arg stack_pgs name k =
     (case stack_alloc stack_pgs k of
        None \<Rightarrow> None
      | Some (None, k1) \<Rightarrow> Some (0, k1)
      | Some (Some (base, words), k1) \<Rightarrow>
          let tid = next_task_id k1;
              k2 = k1\<lparr>next_task_id := uadd tid 1\<rparr>;
              t = task_new\<lparr>t_tid := tid, t_cpu := c, t_name := name, kstack_base := base,
                     kstack_pages := umul words 8 div PHY_FRAME_SIZE,
                     t_ctx := \<lparr>ctx_ep = func, ctx_arg = func_arg, ctx_tid = tid\<rparr>\<rparr>;
              k3 = put_task c tid t k2;
              k4 = k3\<lparr>tid_cpu_map := bt_insert tid c (tid_cpu_map k3)\<rparr>;
              k5 = map_sched c (ops_add_task tid) k4;
              k6 = put_task c tid (t\<lparr>t_state := Ready\<rparr>) k5
          in Some (tid, k6\<lparr>lbal := lb_add_task c (lbal k6)\<rparr>))"

definition terminate_task :: "(nat \<Rightarrow> u64) \<Rightarrow> usize \<Rightarrow> kernel \<Rightarrow> kernel run" where
  "terminate_task clk c k =
     (let term_tid = curr_tid (cpu k c);
          k1 = map_sched c (ops_rem_task term_tid) k;
          k2 = k1\<lparr>lbal := lb_rem_task c (lbal k1)\<rparr>
      in case bt_get (pool k2 c) term_tid of
           None \<Rightarrow> panics
         | Some t \<Rightarrow> preempt_irq clk c (put_task c term_tid (t\<lparr>t_state := Terminating\<rparr>) k2))"

text \<open>\<^verbatim>\<open>impl Drop for Task\<close>. What a user process does when one of its tasks is dropped is
  the argument \<open>hook\<close>; \<^verbatim>\<open>AddressSpace::task_dropped\<close> does nothing for kernel tasks.\<close>

type_synonym drop_hook = "usize \<Rightarrow> usize \<Rightarrow> frames_bitmap \<Rightarrow> frames_bitmap"

definition task_dropped :: "drop_hook \<Rightarrow> usize \<Rightarrow> usize \<Rightarrow> kernel \<Rightarrow> kernel" where
  "task_dropped hook pid tid k = (if pid = 0 then k else k\<lparr>phys := hook pid tid (phys k)\<rparr>)"

definition drop_task :: "drop_hook \<Rightarrow> usize \<Rightarrow> task \<Rightarrow> kernel \<Rightarrow> kernel run" where
  "drop_task hook c t k =
     (if t_state t \<noteq> Terminating then returns k
      else
        and_then (unblock_all c (joiners t) k)
          (\<lambda>k1. let k2 = task_dropped hook (t_pid t) (t_tid t) k1
                in returns (k2\<lparr>phys := free_continuous (phys k2) (kstack_base t) (kstack_pages t)\<rparr>)))"

text \<open>\<^verbatim>\<open>start_scheduling\<close>: the worker is created and becomes the running task.\<close>

definition start_scheduling :: "usize \<Rightarrow> usize \<Rightarrow> string \<Rightarrow> kernel \<Rightarrow> kernel run" where
  "start_scheduling c worker_fn name k =
     (case create_task c worker_fn 0 2 name k of
        None \<Rightarrow> None
      | Some (tid, k1) \<Rightarrow>
          (case bt_get (pool k1 c) tid of
             None \<Rightarrow> panics
           | Some t \<Rightarrow>
               let k2 = put_cpu c ((cpu k1 c)\<lparr>curr_tid := tid\<rparr>) k1
               in returns (put_task c tid (t\<lparr>t_state := Running\<rparr>) k2)))"

end
