(* ===== verification/Task_Ops.thy ===== *)
theory Task_Ops
  imports Scheduler
begin

text \<open>
  What runs on top of the scheduler's primitives, \<^verbatim>\<open>kernel/src/sched/mod.rs\<close>: the public
  task operations (spawn, join, sleep, wake, exit, migrate), the processing of
  inter-processor messages, one round of the per-CPU worker, and wait channels.
\<close>

section \<open>Task accessors\<close>

definition current_pid :: "usize \<Rightarrow> kernel \<Rightarrow> usize run" where
  "current_pid c k = (case bt_get (pool k c) (curr_tid (cpu k c)) of
     None \<Rightarrow> panics | Some t \<Rightarrow> returns (t_pid t))"

definition task_exists :: "usize \<Rightarrow> kernel \<Rightarrow> bool" where
  "task_exists tid k = (case bt_get (tid_cpu_map k) tid of Some _ \<Rightarrow> True | None \<Rightarrow> False)"

definition get_msg_ret :: "usize \<Rightarrow> usize \<Rightarrow> kernel \<Rightarrow> usize run" where
  "get_msg_ret c tid k = (case bt_get (pool k c) tid of
     None \<Rightarrow> panics | Some t \<Rightarrow> returns (msg_ret t))"

definition set_msg_ret :: "usize \<Rightarrow> usize \<Rightarrow> usize \<Rightarrow> kernel \<Rightarrow> kernel run" where
  "set_msg_ret c tid val k = (case bt_get (pool k c) tid of
     None \<Rightarrow> panics | Some t \<Rightarrow> returns (put_task c tid (t\<lparr>msg_ret := val\<rparr>) k))"

definition set_pid :: "usize \<Rightarrow> usize \<Rightarrow> kernel \<Rightarrow> kernel run" where
  "set_pid c pid k = (let tid = curr_tid (cpu k c) in case bt_get (pool k c) tid of
     None \<Rightarrow> returns k
   | Some t \<Rightarrow> if t_pid t = 0 then returns (put_task c tid (t\<lparr>t_pid := pid\<rparr>) k) else panics)"

section \<open>Blocking operations\<close>

text \<open>\<^verbatim>\<open>Task::block\<close>, \<^verbatim>\<open>Task::wake\<close> and \<^verbatim>\<open>Task::exit\<close>.\<close>

definition task_block :: "(nat \<Rightarrow> u64) \<Rightarrow> usize \<Rightarrow> kernel \<Rightarrow> kernel run" where
  "task_block clk c k = block_task clk c (curr_tid (cpu k c)) k"

definition task_wake :: "usize \<Rightarrow> usize \<Rightarrow> kernel \<Rightarrow> kernel run" where
  "task_wake c tid k = unblock_task c tid k"

definition task_exit :: "(nat \<Rightarrow> u64) \<Rightarrow> usize \<Rightarrow> kernel \<Rightarrow> kernel run" where
  "task_exit clk c k = terminate_task clk c k"

text \<open>\<^verbatim>\<open>Task::spawn_on_cpu\<close> up to the point where it returns or blocks, and what it does
  when it is resumed. \<open>Inl\<close> is the returned task id.\<close>

definition kstack_pgs :: "kernel \<Rightarrow> usize" where
  "kstack_pgs k = round_up (default_kstack_size k) PHY_FRAME_SIZE div PHY_FRAME_SIZE"

definition spawn_on_cpu :: "(nat \<Rightarrow> u64) \<Rightarrow> usize \<Rightarrow> usize \<Rightarrow> usize \<Rightarrow> usize \<Rightarrow> string \<Rightarrow> kernel
    \<Rightarrow> (usize option \<times> kernel) run" where
  "spawn_on_cpu clk c func func_arg target_cpu name k =
     (let tid = curr_tid (cpu k c); stack_pgs = kstack_pgs k in
      if target_cpu = c then
        (case create_task c func func_arg stack_pgs name k of
           None \<Rightarrow> None
         | Some (new_tid, k1) \<Rightarrow> returns (Some new_tid, k1))
      else
        and_then (task_block clk c (send_ipm \<lparr>dest_cpu = target_cpu,
            payload = CreateTask tid c func func_arg stack_pgs name\<rparr> k))
          (\<lambda>k1. returns (None, k1)))"

definition spawn_resume :: "usize \<Rightarrow> usize \<Rightarrow> kernel \<Rightarrow> (usize \<times> kernel) run" where
  "spawn_resume c tid k =
     and_then (get_msg_ret c tid k) (\<lambda>ret. and_then (set_msg_ret c tid 0 k) (\<lambda>k1. returns (ret, k1)))"

definition spawn_named :: "(nat \<Rightarrow> u64) \<Rightarrow> usize \<Rightarrow> usize \<Rightarrow> usize \<Rightarrow> string \<Rightarrow> kernel
    \<Rightarrow> (usize option \<times> kernel) run" where
  "spawn_named clk c func func_arg name k =
     spawn_on_cpu clk c func func_arg (select_cpu (lbal k)) name k"

text \<open>\<^verbatim>\<open>Task::join\<close>: the target is gone; the caller is blocked in the target's list; or it
  is blocked until the target's CPU answers, and goes on in \<open>join_resume\<close>.\<close>

datatype join_progress = JoinDone | JoinQueued | JoinAwaitsReply

definition task_join :: "(nat \<Rightarrow> u64) \<Rightarrow> usize \<Rightarrow> usize \<Rightarrow> kernel \<Rightarrow> (join_progress \<times> kernel) run" where
  "task_join clk c tid k =
     (let cur_tid = curr_tid (cpu k c) in
      case bt_get (tid_cpu_map k) tid of
        None \<Rightarrow> returns (JoinDone, k)
      | Some target_cpu \<Rightarrow>
          (case (if c = target_cpu then bt_get (pool k c) tid else None) of
             Some t \<Rightarrow>
               and_then (block_task clk c cur_tid
                   (put_task c tid (t\<lparr>joiners := joiners t @ [cur_tid]\<rparr>) k))
                 (\<lambda>k1. returns (JoinQueued, k1))
           | None \<Rightarrow>
               and_then (task_block clk c (send_ipm \<lparr>dest_cpu = target_cpu,
                   payload = AddJoiner tid cur_tid c\<rparr> k))
                 (\<lambda>k1. returns (JoinAwaitsReply, k1))))"

text \<open>After the reply: whether the caller has to poll \<open>task_exists\<close>; if not, it blocks.\<close>

definition join_resume :: "(nat \<Rightarrow> u64) \<Rightarrow> usize \<Rightarrow> usize \<Rightarrow> usize \<Rightarrow> kernel \<Rightarrow> (bool \<times> kernel) run" where
  "join_resume clk c cur_tid tid k =
     and_then (get_msg_ret c cur_tid k)
       (\<lambda>ret. and_then (set_msg_ret c cur_tid 0 k)
          (\<lambda>k1. if ret \<noteq> tid then returns (True, k1)
                else and_then (task_block clk c k1) (\<lambda>k2. returns (False, k2))))"

definition migrate_to_cpu :: "(nat \<Rightarrow> u64) \<Rightarrow> usize \<Rightarrow> usize \<Rightarrow> usize \<Rightarrow> kernel \<Rightarrow> kernel run" where
  "migrate_to_cpu clk cpu_count c new_cpu k =
     (if new_cpu = c \<or> new_cpu \<ge> cpu_count then returns k
      else
        let tid = curr_tid (cpu k c);
            k1 = (case bt_get (pool k c) tid of
               Some t \<Rightarrow> put_task c tid (t\<lparr>t_cpu := new_cpu, t_state := Migrating\<rparr>) k
             | None \<Rightarrow> k)
        in block_task clk c tid k1)"

section \<open>Inter-processor messages\<close>

definition process_ipm :: "usize \<Rightarrow> ipm_payload \<Rightarrow> kernel \<Rightarrow> kernel run" where
  "process_ipm c msg k =
     (case msg of
        MoveTask t \<Rightarrow>
          (let new_tid = t_tid t;
               k1 = put_task c new_tid t k
           in case bt_get (tid_cpu_map k1) new_tid of
                None \<Rightarrow> panics
              | Some _ \<Rightarrow>
                  let k2 = k1\<lparr>tid_cpu_map := bt_insert new_tid c (tid_cpu_map k1)\<rparr>;
                      k3 = k2\<lparr>lbal := lb_add_task c (lbal k2)\<rparr>
                  in unblock_task c new_tid k3)
      | Unblock tid \<Rightarrow> unblock_task c tid k
      | CreateTask caller_tid caller_cpu func func_arg stack_pgs name \<Rightarrow>
          (case create_task c func func_arg stack_pgs name k of
             None \<Rightarrow> None
           | Some (new_tid, k1) \<Rightarrow>
               returns (send_ipm \<lparr>dest_cpu = caller_cpu,
                 payload = RespondAndUnblock caller_tid new_tid\<rparr> k1))
      | RespondAndUnblock caller_tid ret \<Rightarrow>
          and_then (set_msg_ret c caller_tid ret k) (unblock_task c caller_tid)
      | AddJoiner dest_tid joiner_tid joiner_cpu \<Rightarrow>
          (case bt_get (pool k c) dest_tid of
             Some t \<Rightarrow>
               returns (send_ipm \<lparr>dest_cpu = joiner_cpu, payload = RespondAndUnblock joiner_tid dest_tid\<rparr>
                 (put_task c dest_tid (t\<lparr>joiners := joiners t @ [joiner_tid]\<rparr>) k))
           | None \<Rightarrow>
               returns (send_ipm \<lparr>dest_cpu = joiner_cpu,
                 payload = RespondAndUnblock joiner_tid 0\<rparr> k)))"

fun process_ipms :: "usize \<Rightarrow> ipm list \<Rightarrow> kernel \<Rightarrow> kernel run" where
  "process_ipms c [] k = returns k"
| "process_ipms c (m # ms) k = and_then (process_ipm c (payload m) k) (process_ipms c ms)"

section \<open>The worker\<close>

text \<open>The scan of the pool: it stops at a terminating task, and remembers the last
  migrating one before it. The result is the target, \<open>delete\<close> and \<open>move_out\<close>.\<close>

fun worker_scan :: "(usize, task) bt_map \<Rightarrow> usize \<times> bool \<times> bool \<Rightarrow> usize \<times> bool \<times> bool" where
  "worker_scan [] acc = acc"
| "worker_scan ((tid, t) # m) (target, del, mv) =
     (case t_state t of
        Terminating \<Rightarrow> (tid, True, mv)
      | Migrating \<Rightarrow> worker_scan m (tid, del, True)
      | _ \<Rightarrow> worker_scan m (target, del, mv))"

definition worker_reap :: "drop_hook \<Rightarrow> usize \<Rightarrow> kernel \<Rightarrow> kernel run" where
  "worker_reap hook c k =
     (let worker_tid = curr_tid (cpu k c);
          (target, del, mv) = worker_scan (pool k c) (0, False, False);
          without = (\<lambda>k. put_cpu c ((cpu k c)\<lparr>task_pool := bt_remove target (pool k c)\<rparr>) k)
      in if del then
           (if target = worker_tid then returns k
            else case bt_get (pool k c) target of
              None \<Rightarrow> returns (k\<lparr>tid_cpu_map := bt_remove target (tid_cpu_map k)\<rparr>)
            | Some t \<Rightarrow>
                and_then (drop_task hook c t (without k))
                  (\<lambda>k1. returns (k1\<lparr>tid_cpu_map := bt_remove target (tid_cpu_map k1)\<rparr>)))
         else if mv then
           (case bt_get (pool k c) target of
              None \<Rightarrow> panics
            | Some t \<Rightarrow>
                let k1 = without k;
                    k2 = k1\<lparr>lbal := lb_rem_task c (lbal k1)\<rparr>
                in returns (send_ipm \<lparr>dest_cpu = t_cpu t,
                     payload = MoveTask (t\<lparr>t_state := Blocked\<rparr>)\<rparr> k2))
         else returns k)"

definition worker_messages :: "usize \<Rightarrow> kernel \<Rightarrow> kernel run" where
  "worker_messages c k =
     (let msgs = filter (\<lambda>m. dest_cpu m = c) (msg_queue k)
      in process_ipms c msgs (k\<lparr>msg_queue := filter (\<lambda>m. dest_cpu m \<noteq> c) (msg_queue k)\<rparr>))"

text \<open>One round of \<^verbatim>\<open>percpu_sched_worker\<close>, up to the \<^verbatim>\<open>hlt\<close>.\<close>

definition worker_round :: "drop_hook \<Rightarrow> usize \<Rightarrow> kernel \<Rightarrow> kernel run" where
  "worker_round hook c k = and_then (worker_reap hook c k) (worker_messages c)"

section \<open>Wait channels\<close>

text \<open>A channel is the list of the waiting task ids.\<close>

type_synonym wait_channel = "usize list"

definition wc_wait :: "(nat \<Rightarrow> u64) \<Rightarrow> usize \<Rightarrow> wait_channel \<Rightarrow> kernel \<Rightarrow> (wait_channel \<times> kernel) run" where
  "wc_wait clk c w k =
     (let tid = curr_tid (cpu k c)
      in and_then (block_task clk c tid k) (\<lambda>k1. returns (w @ [tid], k1)))"

fun wc_signal :: "usize \<Rightarrow> nat \<Rightarrow> wait_channel \<Rightarrow> kernel \<Rightarrow> (wait_channel \<times> kernel) run" where
  "wc_signal c 0 w k = returns (w, k)"
| "wc_signal c (Suc n) [] k = wc_signal c n [] k"
| "wc_signal c (Suc n) (tid # w) k = and_then (unblock_task c tid k) (wc_signal c n w)"

fun wc_signal_all :: "usize \<Rightarrow> wait_channel \<Rightarrow> kernel \<Rightarrow> (wait_channel \<times> kernel) run" where
  "wc_signal_all c [] k = returns ([], k)"
| "wc_signal_all c (tid # w) k = and_then (unblock_task c tid k) (wc_signal_all c w)"

section \<open>Preemption locks\<close>

text \<open>The CPU's interrupt flag and the guard that saves it.\<close>

definition preemption_lock :: "bool \<Rightarrow> bool \<times> bool" where
  "preemption_lock ints = (ints, False)"

definition preemption_drop :: "bool \<Rightarrow> bool \<Rightarrow> bool" where
  "preemption_drop saved ints = (if saved then True else ints)"

end
