(* ===== verification/Sched_Inv.thy ===== *)
theory Sched_Inv
  imports Task_Ops
begin

text \<open>
  The invariant of the scheduler and its preservation. \<open>cpu_ok\<close> relates the run queue of a
  CPU to its task pool; \<open>sys_ok\<close> places every task in at most one pool or message.
\<close>

section \<open>One CPU\<close>

abbreviation queue :: "percpu \<Rightarrow> usize list" where
  "queue p \<equiv> ops_queue (sched p)"

abbreviation active_states :: "task_state set" where
  "active_states \<equiv> {Ready, Running, Sleeping}"

definition entry_ok :: "bool \<Rightarrow> usize \<Rightarrow> task \<Rightarrow> bool" where
  "entry_ok queued tid t \<longleftrightarrow> t_tid t = tid \<and> (queued \<longleftrightarrow> t_state t \<in> active_states)
     \<and> (if t_state t \<in> {Blocked, Migrating} then blocked_count t = 1 else blocked_count t \<le> 0)
     \<and> t_state t \<noteq> New \<and> t_state t \<noteq> Dropped"

definition cpu_ok :: "percpu \<Rightarrow> bool" where
  "cpu_ok p \<longleftrightarrow> bt_ok (task_pool p) \<and> distinct (queue p)
     \<and> (\<forall>tid \<in> set (queue p). bt_get (task_pool p) tid \<noteq> None)
     \<and> (\<forall>tid t. bt_get (task_pool p) tid = Some t \<longrightarrow> entry_ok (tid \<in> set (queue p)) tid t)"

definition started :: "percpu \<Rightarrow> bool" where
  "started p \<longleftrightarrow> curr_tid p \<in> set (queue p)"

lemma cpu_okD:
  assumes "cpu_ok p"
  shows "bt_ok (task_pool p)" "distinct (queue p)"
    "\<And>tid. tid \<in> set (queue p) \<Longrightarrow> \<exists>t. bt_get (task_pool p) tid = Some t"
    "\<And>tid t. bt_get (task_pool p) tid = Some t \<Longrightarrow> entry_ok (tid \<in> set (queue p)) tid t"
  using assms by (auto simp: cpu_ok_def)

text \<open>The general step: one entry is written, and the queue changes for it only.\<close>

lemma cpu_ok_write:
  assumes ok: "cpu_ok p" and pool: "task_pool p' = bt_insert tid t (task_pool p)"
    and dist: "distinct (queue p')" and others: "\<And>u. u \<noteq> tid \<Longrightarrow> u \<in> set (queue p') \<longleftrightarrow> u \<in> set (queue p)"
    and entry: "entry_ok (tid \<in> set (queue p')) tid t"
  shows "cpu_ok p'"
  unfolding cpu_ok_def
proof (intro conjI allI impI ballI)
  show "bt_ok (task_pool p')" using cpu_okD(1) [OF ok] by (simp add: pool)
  show "distinct (queue p')" by (rule dist)
  show "bt_get (task_pool p') u \<noteq> None" if "u \<in> set (queue p')" for u
    using that others [of u] cpu_okD(3) [OF ok, of u] by (auto simp: pool)
  show "entry_ok (u \<in> set (queue p')) u v" if "bt_get (task_pool p') u = Some v" for u v
    using that others [of u] entry cpu_okD(4) [OF ok, of u v] by (cases "u = tid") (simp_all add: pool)
qed

lemma cpu_ok_remove:
  assumes ok: "cpu_ok p" and "tid \<notin> set (queue p)"
  shows "cpu_ok (p\<lparr>task_pool := bt_remove tid (task_pool p)\<rparr>)"
  using assms unfolding cpu_ok_def by auto

lemma cpu_ok_queue:
  assumes "cpu_ok p" "set (ops_queue s) = set (queue p)" "distinct (ops_queue s) = distinct (queue p)"
  shows "cpu_ok (p\<lparr>sched := s\<rparr>)"
  using assms by (simp add: cpu_ok_def)

lemma cpu_ok_curr [simp]: "cpu_ok (p\<lparr>curr_tid := t\<rparr>) = cpu_ok p"
  by (simp add: cpu_ok_def)

section \<open>Choosing the next task\<close>

text \<open>What holds of a choice whatever the policy: it is queued, awake, and only the tasks
  that were due have been woken.\<close>

definition choice_ok :: "percpu \<Rightarrow> usize \<Rightarrow> percpu \<Rightarrow> bool" where
  "choice_ok p tid p' \<longleftrightarrow> cpu_ok p' \<and> curr_tid p' = curr_tid p \<and> tid \<in> set (queue p')
     \<and> set (queue p') = set (queue p) \<and> fst ` set (task_pool p') = fst ` set (task_pool p)
     \<and> (\<exists>t. bt_get (task_pool p') tid = Some t \<and> runnable t)
     \<and> (\<forall>u. u \<noteq> tid \<longrightarrow> bt_get (task_pool p') u = bt_get (task_pool p) u)"

lemma keys_insert_same: "bt_get m k = Some v \<Longrightarrow> insert k (fst ` set m) = fst ` set m"
  by (force dest: map_of_SomeD)

lemma pick_next_choice:
  assumes "pick_next clk n p = Some r" "cpu_ok p" "queue p \<noteq> []"
  shows "\<exists>tid p'. r = Inr (tid, p') \<and> choice_ok p tid p'"
  using assms
proof (induction rule: pick_next.raw_induct [rotated, consumes 1])
  case (1 pn clk n p r)
  obtain s tid where nx: "ops_next_task (sched p) = (Some tid, s)" and q: "tid \<in> set (queue p)"
    using ops.nxt_empty [of "sched p"] ops.nxt_member [of "sched p"] 1(4)
    by (metis option.exhaust prod.collapse)
  have s: "set (ops_queue s) = set (queue p)" "distinct (ops_queue s) = distinct (queue p)"
    using ops.set_nxt [of "sched p"] ops.distinct_nxt [of "sched p"] nx by simp_all
  obtain t where t: "bt_get (task_pool p) tid = Some t" using cpu_okD(3) [OF 1(3) q] by blast
  have ok': "cpu_ok (p\<lparr>sched := s\<rparr>)" using 1(3) s by (rule cpu_ok_queue)
  have e: "entry_ok True tid t" using cpu_okD(4) [OF 1(3) t] q by simp
  show ?case
  proof (cases "t_state t = Sleeping")
    case False
    then have "runnable t" using e by (auto simp: entry_ok_def runnable_def)
    then show ?thesis
      using 1(2) nx t False ok' s q by (auto simp: choice_ok_def)
  next
    case sleeping: True
    show ?thesis
    proof (cases "clk n \<ge> wakeup_time t")
      case True
      let ?t = "t\<lparr>t_state := Ready, wakeup_time := 0\<rparr>"
      let ?p = "p\<lparr>sched := s, task_pool := bt_insert tid ?t (task_pool p)\<rparr>"
      have "cpu_ok ?p"
      proof (rule cpu_ok_write [OF 1(3)])
        show "entry_ok (tid \<in> set (queue ?p)) tid ?t" using e q s by (simp add: entry_ok_def sleeping)
        show "distinct (queue ?p)" using s cpu_okD(2) [OF 1(3)] by simp
      qed (use s in simp_all)
      then show ?thesis
        using 1(2) nx t sleeping True s q keys_insert_same [OF t]
        by (auto simp: choice_ok_def runnable_def)
    next
      case False
      have "pn clk (Suc n) (p\<lparr>sched := s\<rparr>) = Some r"
        using 1(2) nx t sleeping False by simp
      moreover have "queue (p\<lparr>sched := s\<rparr>) \<noteq> []" using s q by auto
      ultimately obtain u p' where "r = Inr (u, p')" "choice_ok (p\<lparr>sched := s\<rparr>) u p'"
        using 1(1) ok' by blast
      then show ?thesis using s by (auto simp: choice_ok_def)
    qed
  qed
qed


section \<open>Switching\<close>

abbreviation keys :: "('k, 'v) bt_map \<Rightarrow> 'k set" where
  "keys m \<equiv> fst ` set m"

lemma key_iff: "k \<in> keys m \<longleftrightarrow> bt_get m k \<noteq> None"
  by (metis map_of_eq_None_iff)

lemma cpu_ok_state:
  assumes ok: "cpu_ok p" and t: "bt_get (task_pool p) tid = Some t"
    and s: "s \<in> active_states" "t_state t \<in> active_states"
  shows "cpu_ok (p\<lparr>task_pool := bt_insert tid (t\<lparr>t_state := s\<rparr>) (task_pool p)\<rparr>)"
proof (rule cpu_ok_write [OF ok])
  let ?p = "p\<lparr>task_pool := bt_insert tid (t\<lparr>t_state := s\<rparr>) (task_pool p)\<rparr>"
  show "entry_ok (tid \<in> set (queue ?p)) tid (t\<lparr>t_state := s\<rparr>)"
    using cpu_okD(4) [OF ok t] s by (auto simp: entry_ok_def)
  show "distinct (queue ?p)" using cpu_okD(2) [OF ok] by simp
qed simp_all

definition switched :: "percpu \<Rightarrow> percpu \<Rightarrow> bool" where
  "switched p p' \<longleftrightarrow> cpu_ok p' \<and> started p' \<and> set (queue p') = set (queue p)
     \<and> keys (task_pool p') = keys (task_pool p)"

lemma preempt_irq_switched:
  assumes r: "preempt_irq clk c k = Some r" and ok: "cpu_ok (cpu k c)" and q: "queue (cpu k c) \<noteq> []"
    and cur: "curr_tid (cpu k c) \<in> keys (pool k c)"
  shows "\<exists>p'. r = Inr (put_cpu c p' k) \<and> switched (cpu k c) p'"
proof -
  let ?p = "cpu k c" and ?cur = "curr_tid (cpu k c)"
  obtain r0 where r0: "pick_next clk 0 ?p = Some r0"
    using r by (auto simp: preempt_irq_def and_then_def Let_def split: option.splits)
  obtain tid p where tp: "r0 = Inr (tid, p)" and ch: "choice_ok ?p tid p"
    using pick_next_choice [OF r0 ok q] by blast
  obtain nt where nt: "bt_get (task_pool p) tid = Some nt" "runnable nt" using ch by (auto simp: choice_ok_def)
  have okp: "cpu_ok p" and tq: "tid \<in> set (queue p)" using ch by (auto simp: choice_ok_def)
  obtain old where old: "bt_get (task_pool p) ?cur = Some old"
    using cur ch by (metis choice_ok_def key_iff option.exhaust)
  have tids: "t_tid nt = tid" "t_tid old = ?cur"
    using cpu_okD(4) [OF okp nt(1)] cpu_okD(4) [OF okp old] by (simp_all add: entry_ok_def)
  define pool1 where "pool1 = (if t_state old = Running
     then bt_insert ?cur (old\<lparr>t_state := Ready\<rparr>) (task_pool p) else task_pool p)"
  define p' where "p' = (if ?cur \<noteq> tid
     then p\<lparr>curr_tid := tid, task_pool := bt_insert tid (nt\<lparr>t_state := Running\<rparr>) pool1\<rparr>
     else p\<lparr>curr_tid := tid\<rparr>)"
  have "r = Inr (put_cpu c p' k)"
    using r r0 nt(1) old by (auto simp: preempt_irq_def tp Let_def tids p'_def pool1_def)
  moreover have "switched ?p p'"
  proof -
    have ok1: "cpu_ok (p\<lparr>task_pool := pool1\<rparr>)"
      unfolding pool1_def using cpu_ok_state [OF okp old, of Ready] okp by simp
    have keys1: "keys pool1 = keys (task_pool p)"
      unfolding pool1_def using keys_insert_same [OF old] by simp
    have nt1: "?cur \<noteq> tid \<Longrightarrow> bt_get pool1 tid = Some nt" using nt(1) by (simp add: pool1_def)
    have "cpu_ok p'"
    proof (cases "?cur = tid")
      case True
      then show ?thesis using okp by (simp add: p'_def)
    next
      case False
      have "cpu_ok ((p\<lparr>task_pool := pool1\<rparr>)\<lparr>task_pool := bt_insert tid (nt\<lparr>t_state := Running\<rparr>)
          (task_pool (p\<lparr>task_pool := pool1\<rparr>))\<rparr>)"
        using nt nt1 [OF False] by (intro cpu_ok_state [OF ok1]) (auto simp: runnable_def)
      then show ?thesis using False by (simp add: p'_def cpu_ok_def)
    qed
    moreover have "keys (task_pool p') = keys (task_pool p)"
      using keys1 keys_insert_same [OF nt1] by (auto simp: p'_def)
    moreover have "started p'" using tq by (simp add: started_def p'_def)
    moreover have "set (queue p') = set (queue p)" by (simp add: p'_def)
    ultimately show ?thesis using ch by (simp add: switched_def choice_ok_def)
  qed
  ultimately show ?thesis by blast
qed

lemma put_cpu_simps [simp]:
  "cpu (put_cpu c p k) d = (if d = c then p else cpu k d)"
  "tid_cpu_map (put_cpu c p k) = tid_cpu_map k" "msg_queue (put_cpu c p k) = msg_queue k"
  "lbal (put_cpu c p k) = lbal k" "phys (put_cpu c p k) = phys k"
  "next_task_id (put_cpu c p k) = next_task_id k"
  "default_kstack_size (put_cpu c p k) = default_kstack_size k"
  by (simp_all add: put_cpu_def)

lemma put_cpu_put_cpu [simp]: "put_cpu c p (put_cpu c q k) = put_cpu c p k"
  by (simp add: put_cpu_def)

lemma put_task_eq: "put_task c tid t k = put_cpu c ((cpu k c)\<lparr>task_pool := bt_insert tid t (pool k c)\<rparr>) k"
  by (simp add: put_task_def)

section \<open>Blocking and waking on one CPU\<close>

text \<open>A step of CPU \<open>c\<close> that touches nothing but the CPU's own variables, keeps the pool's
  tasks, and leaves the CPU consistent and running.\<close>

definition local_step :: "usize \<Rightarrow> kernel \<Rightarrow> kernel \<Rightarrow> bool" where
  "local_step c k k' \<longleftrightarrow> (\<exists>p'. k' = put_cpu c p' k \<and> cpu_ok p' \<and> keys (task_pool p') = keys (pool k c)
     \<and> (started (cpu k c) \<longrightarrow> started p'))"

text \<open>The current task leaves the queue in state \<open>s\<close>, and another one is chosen.\<close>

lemma preempt_nonempty:
  assumes "preempt_irq clk c k = returns k'"
  shows "queue (cpu k c) \<noteq> []"
proof
  assume "queue (cpu k c) = []"
  then have "fst (ops_next_task (sched (cpu k c))) = None" using ops.nxt_head [of "sched (cpu k c)"] by simp
  then have "pick_next clk 0 (cpu k c) = panics" by (subst pick_next.simps) (simp add: case_prod_beta)
  then show False using assms by (simp add: preempt_irq_def Let_def)
qed

lemma leave_queue:
  assumes r: "preempt_irq clk c (map_sched c (ops_rem_task tid) (put_task c tid t' k)) = returns k'"
    and ok: "cpu_ok (cpu k c)" and t: "bt_get (pool k c) tid = Some t"
    and cur: "curr_tid (cpu k c) = tid" and e: "entry_ok False tid t'"
  shows "local_step c k k'"
proof -
  let ?k = "map_sched c (ops_rem_task tid) (put_task c tid t' k)"
  let ?p = "(cpu k c)\<lparr>task_pool := bt_insert tid t' (pool k c), sched := ops_rem_task tid (sched (cpu k c))\<rparr>"
  have k: "?k = put_cpu c ?p k" by (simp add: map_sched_def put_task_eq)
  have set: "set (queue ?p) = set (queue (cpu k c)) - {tid}" by (simp add: ops.set_rem)
  have ok': "cpu_ok ?p"
  proof (rule cpu_ok_write [OF ok])
    show "entry_ok (tid \<in> set (queue ?p)) tid t'" unfolding set using e by simp
    show "distinct (queue ?p)" using ops.distinct_rem [OF cpu_okD(2) [OF ok]] by simp
    show "u \<in> set (queue ?p) \<longleftrightarrow> u \<in> set (queue (cpu k c))" if "u \<noteq> tid" for u
      unfolding set using that by simp
  qed simp
  have keys: "keys (task_pool ?p) = keys (pool k c)" using keys_insert_same [OF t] by simp
  have ne: "queue ?p \<noteq> []" using preempt_nonempty [OF r] unfolding k by simp
  have "\<exists>p'. Inr k' = (Inr (put_cpu c p' ?k) :: fault + kernel) \<and> switched (cpu ?k c) p'"
  proof (rule preempt_irq_switched [OF r])
    show "cpu_ok (cpu ?k c)" unfolding k using ok' by simp
    show "queue (cpu ?k c) \<noteq> []" unfolding k using ne by simp
    show "curr_tid (cpu ?k c) \<in> keys (pool ?k c)" unfolding k using cur by simp
  qed
  then obtain p' where p': "k' = put_cpu c p' ?k" "switched ?p p'" unfolding k by auto
  then show ?thesis
    using keys unfolding k local_step_def by (auto simp: switched_def)
qed


lemma local_write:
  assumes ok: "cpu_ok (cpu k c)" and t: "bt_get (pool k c) tid = Some t"
    and e: "entry_ok (tid \<in> set (queue (cpu k c))) tid t'"
  shows "local_step c k (put_task c tid t' k)"
proof -
  let ?p = "(cpu k c)\<lparr>task_pool := bt_insert tid t' (pool k c)\<rparr>"
  have "cpu_ok ?p"
  proof (rule cpu_ok_write [OF ok])
    show "distinct (queue ?p)" using cpu_okD(2) [OF ok] by simp
    show "entry_ok (tid \<in> set (queue ?p)) tid t'" using e by simp
  qed simp_all
  then show ?thesis
    unfolding local_step_def put_task_eq using keys_insert_same [OF t]
    by (intro exI [of _ ?p]) (simp add: started_def)
qed

lemma block_task_local:
  assumes r: "block_task clk c tid k = returns k'" and ok: "cpu_ok (cpu k c)" and st: "started (cpu k c)"
    and cur: "curr_tid (cpu k c) = tid"
  shows "local_step c k k'"
proof -
  have tq: "tid \<in> set (queue (cpu k c))" using st cur by (simp add: started_def)
  obtain t where t: "bt_get (pool k c) tid = Some t" using cpu_okD(3) [OF ok tq] by blast
  have e: "entry_ok True tid t" using cpu_okD(4) [OF ok t] tq by simp
  show ?thesis
  proof (cases "blocked_count t = 0")
    case False
    let ?t = "t\<lparr>blocked_count := blocked_count t + 1\<rparr>"
    have "k' = put_task c tid ?t k" using r t False by (simp add: block_task_def)
    moreover have "entry_ok (tid \<in> set (queue (cpu k c))) tid ?t"
      using e tq False by (auto simp: entry_ok_def)
    ultimately show ?thesis using local_write [OF ok t] by blast
  next
    case True
    have m: "t_state t \<noteq> Migrating" using e by (auto simp: entry_ok_def)
    let ?t = "t\<lparr>blocked_count := 1, t_state := Blocked\<rparr>"
    have "preempt_irq clk c (map_sched c (ops_rem_task tid) (put_task c tid ?t k)) = returns k'"
      using r t True m by (simp add: block_task_def)
    then show ?thesis
      by (rule leave_queue [OF _ ok t cur]) (use e in \<open>auto simp: entry_ok_def\<close>)
  qed
qed

lemma enqueue_local:
  assumes ok: "cpu_ok (cpu k c)" and t: "bt_get (pool k c) tid = Some t"
    and out: "tid \<notin> set (queue (cpu k c))" and e: "entry_ok True tid t'"
  shows "local_step c k (map_sched c (ops_add_task tid) (put_task c tid t' k))"
proof -
  let ?p = "(cpu k c)\<lparr>task_pool := bt_insert tid t' (pool k c), sched := ops_add_task tid (sched (cpu k c))\<rparr>"
  have k: "map_sched c (ops_add_task tid) (put_task c tid t' k) = put_cpu c ?p k"
    by (simp add: map_sched_def put_task_eq)
  have set: "set (queue ?p) = insert tid (set (queue (cpu k c)))" by (simp add: ops.set_add)
  have "cpu_ok ?p"
  proof (rule cpu_ok_write [OF ok])
    show "distinct (queue ?p)" using ops.distinct_add [OF cpu_okD(2) [OF ok] out] by simp
    show "entry_ok (tid \<in> set (queue ?p)) tid t'" unfolding set using e by simp
    show "u \<in> set (queue ?p) \<longleftrightarrow> u \<in> set (queue (cpu k c))" if "u \<noteq> tid" for u
      unfolding set using that by simp
  qed simp
  moreover have "started (cpu k c) \<longrightarrow> started ?p" using set unfolding started_def by simp
  ultimately show ?thesis
    unfolding k local_step_def using keys_insert_same [OF t] by (intro exI [of _ ?p]) simp
qed

lemma unblock_task_local:
  assumes r: "unblock_task c tid k = returns k'" and ok: "cpu_ok (cpu k c)"
  shows "k' = k \<or> local_step c k k'
    \<or> (\<exists>d. bt_get (tid_cpu_map k) tid = Some d \<and> d \<noteq> c
          \<and> k' = send_ipm \<lparr>dest_cpu = d, payload = Unblock tid\<rparr> k)"
proof (cases "bt_get (tid_cpu_map k) tid")
  case None
  then show ?thesis using r by (simp add: unblock_task_def)
next
  case (Some d)
  show ?thesis
  proof (cases "c = d")
    case False
    then show ?thesis using r Some by (simp add: unblock_task_def)
  next
    case True
    obtain t where t: "bt_get (pool k c) tid = Some t"
      using r Some True by (auto simp: unblock_task_def split: option.splits)
    have e: "entry_ok (tid \<in> set (queue (cpu k c))) tid t" using cpu_okD(4) [OF ok t] .
    consider (sleep) "t_state t = Sleeping" | (wake) "t_state t \<noteq> Sleeping" "blocked_count t = 1"
      | (early) "t_state t \<noteq> Sleeping" "blocked_count t \<noteq> 1" by blast
    then have "local_step c k k'"
    proof cases
      case sleep
      let ?t = "t\<lparr>t_state := Ready, wakeup_time := 0\<rparr>"
      have "k' = put_task c tid ?t k" using r Some True t sleep by (simp add: unblock_task_def)
      then show ?thesis
        using local_write [OF ok t, of ?t] e sleep by (simp add: entry_ok_def)
    next
      case wake
      let ?t = "t\<lparr>blocked_count := 0, t_state := Ready\<rparr>"
      have "k' = map_sched c (ops_add_task tid) (put_task c tid ?t k)"
        using r Some True t wake by (simp add: unblock_task_def)
      moreover have "tid \<notin> set (queue (cpu k c))" "entry_ok True tid ?t"
        using e wake(2) by (auto simp: entry_ok_def split: if_splits)
      ultimately show ?thesis using enqueue_local [OF ok t] by simp
    next
      case early
      let ?t = "t\<lparr>blocked_count := blocked_count t - 1\<rparr>"
      have "k' = put_task c tid ?t k" using r Some True t early by (simp add: unblock_task_def)
      then show ?thesis
        using local_write [OF ok t, of ?t] e early by (auto simp: entry_ok_def split: if_splits)
    qed
    then show ?thesis by blast
  qed
qed

lemma task_sleep_local:
  assumes r: "task_sleep clk c ticks k = Some r" and ok: "cpu_ok (cpu k c)" and st: "started (cpu k c)"
  shows "\<exists>k'. r = Inr k' \<and> local_step c k k'"
proof -
  let ?tid = "curr_tid (cpu k c)"
  have tq: "?tid \<in> set (queue (cpu k c))" using st by (simp add: started_def)
  obtain t where t: "bt_get (pool k c) ?tid = Some t" using cpu_okD(3) [OF ok tq] by blast
  let ?t = "t\<lparr>wakeup_time := clk 0 + ticks, t_state := Sleeping\<rparr>"
  have e: "entry_ok (?tid \<in> set (queue (cpu k c))) ?tid ?t"
    using cpu_okD(4) [OF ok t] tq by (auto simp: entry_ok_def)
  obtain p1 where p1: "put_task c ?tid ?t k = put_cpu c p1 k" "cpu_ok p1" "keys (task_pool p1) = keys (pool k c)"
    "started p1"
    using local_write [OF ok t e] st by (auto simp: local_step_def)
  have r': "preempt_irq (\<lambda>n. clk (Suc n)) c (put_cpu c p1 k) = Some r"
    using r t by (simp add: task_sleep_def p1(1))
  have "\<exists>p'. r = Inr (put_cpu c p' (put_cpu c p1 k)) \<and> switched (cpu (put_cpu c p1 k) c) p'"
  proof (rule preempt_irq_switched [OF r'])
    show "queue (cpu (put_cpu c p1 k) c) \<noteq> []" using p1(4) by (auto simp: started_def)
    show "curr_tid (cpu (put_cpu c p1 k) c) \<in> keys (pool (put_cpu c p1 k) c)"
      using p1(4) cpu_okD(3) [OF p1(2)] by (auto simp: started_def key_iff)
  qed (simp add: p1(2))
  then show ?thesis using p1(3) by (auto simp: local_step_def switched_def)
qed


lemma terminate_task_local:
  assumes r: "terminate_task clk c k = returns k'" and ok: "cpu_ok (cpu k c)" and st: "started (cpu k c)"
  shows "local_step c (k\<lparr>lbal := lb_rem_task c (lbal k)\<rparr>) k'"
proof -
  let ?tid = "curr_tid (cpu k c)" and ?k = "k\<lparr>lbal := lb_rem_task c (lbal k)\<rparr>"
  have tq: "?tid \<in> set (queue (cpu k c))" using st by (simp add: started_def)
  obtain t where t: "bt_get (pool k c) ?tid = Some t" using cpu_okD(3) [OF ok tq] by blast
  let ?t = "t\<lparr>t_state := Terminating\<rparr>"
  have "preempt_irq clk c (map_sched c (ops_rem_task ?tid) (put_task c ?tid ?t ?k)) = returns k'"
  proof -
    have eq: "(cpu k c)\<lparr>task_pool := m, sched := s\<rparr> = (cpu k c)\<lparr>sched := s, task_pool := m\<rparr>" for s m by simp
    have "map_sched c (ops_rem_task ?tid) (put_task c ?tid ?t ?k)
        = put_task c ?tid ?t ((map_sched c (ops_rem_task ?tid) k)\<lparr>lbal := lb_rem_task c (lbal k)\<rparr>)"
      by (simp add: map_sched_def put_task_def put_cpu_def) (simp only: eq)
    moreover have "lbal (map_sched c (ops_rem_task ?tid) k) = lbal k" "pool (map_sched c (ops_rem_task ?tid) k) c = pool k c"
      by (simp_all add: map_sched_def)
    ultimately show ?thesis using r t by (simp add: terminate_task_def Let_def)
  qed
  then show ?thesis
  proof (rule leave_queue)
    show "entry_ok False ?tid ?t" using cpu_okD(4) [OF ok t] tq by (auto simp: entry_ok_def)
  qed (use ok t in simp_all)
qed

text \<open>A migration needs a task without an early wake-up pending: with one, \<^verbatim>\<open>block_task\<close>
  returns at once and leaves a \<^verbatim>\<open>Migrating\<close> task in the queue.\<close>

definition no_early_wakeup :: "usize \<Rightarrow> kernel \<Rightarrow> bool" where
  "no_early_wakeup c k \<longleftrightarrow> (\<forall>t. bt_get (pool k c) (curr_tid (cpu k c)) = Some t \<longrightarrow> blocked_count t = 0)"

lemma migrate_local:
  assumes r: "migrate_to_cpu clk n c d k = returns k'" and ok: "cpu_ok (cpu k c)" and st: "started (cpu k c)"
    and w: "no_early_wakeup c k"
  shows "k' = k \<or> local_step c k k'"
proof (cases "d = c \<or> d \<ge> n")
  case True
  then show ?thesis using r by (auto simp: migrate_to_cpu_def)
next
  case False
  let ?tid = "curr_tid (cpu k c)"
  have tq: "?tid \<in> set (queue (cpu k c))" using st by (simp add: started_def)
  obtain t where t: "bt_get (pool k c) ?tid = Some t" using cpu_okD(3) [OF ok tq] by blast
  have b: "blocked_count t = 0" using w t by (simp add: no_early_wakeup_def)
  let ?t1 = "t\<lparr>t_cpu := d, t_state := Migrating\<rparr>"
  let ?t = "?t1\<lparr>blocked_count := 1\<rparr>"
  have pt: "put_task c ?tid ?t (put_task c ?tid ?t1 k) = put_task c ?tid ?t k"
    by (simp add: put_task_eq)
  have "preempt_irq clk c (map_sched c (ops_rem_task ?tid) (put_task c ?tid ?t k)) = returns k'"
    using r t False b pt by (simp add: migrate_to_cpu_def block_task_def Let_def) (simp add: put_task_def)
  then have "local_step c k k'"
    by (rule leave_queue [OF _ ok t refl]) (use cpu_okD(4) [OF ok t] tq in \<open>auto simp: entry_ok_def\<close>)
  then show ?thesis by blast
qed

section \<open>The whole machine\<close>

definition moving :: "ipm list \<Rightarrow> task list" where
  "moving ms = List.map_filter (\<lambda>m. case payload m of MoveTask t \<Rightarrow> Some t | _ \<Rightarrow> None) ms"

lemma moving_simps [simp]:
  "moving [] = []" "moving (m # ms) = (case payload m of MoveTask t \<Rightarrow> [t] | _ \<Rightarrow> []) @ moving ms"
  "moving (ms @ ns) = moving ms @ moving ns"
proof -
  show "moving [] = []" and c: "moving (m # ms) = (case payload m of MoveTask t \<Rightarrow> [t] | _ \<Rightarrow> []) @ moving ms" for m ms
    by (simp_all add: moving_def List.map_filter_simps split: ipm_payload.split)
  show "moving (ms @ ns) = moving ms @ moving ns"
    by (induction ms) (simp_all add: c, simp add: moving_def List.map_filter_simps)
qed

text \<open>\<open>ms\<close> are messages that a worker has taken from the queue and not yet processed.\<close>

definition sys_ok_with :: "ipm list \<Rightarrow> kernel \<Rightarrow> bool" where
  "sys_ok_with ms k \<longleftrightarrow> (\<forall>c. cpu_ok (cpu k c)) \<and> bt_ok (tid_cpu_map k)
     \<and> (\<forall>c. \<forall>t \<in> keys (pool k c). bt_get (tid_cpu_map k) t = Some c)
     \<and> distinct (map t_tid (moving (ms @ msg_queue k)))
     \<and> (\<forall>t \<in> set (moving (ms @ msg_queue k)). t_state t = Blocked \<and> blocked_count t = 1
          \<and> t_tid t \<in> keys (tid_cpu_map k) \<and> (\<forall>c. t_tid t \<notin> keys (pool k c)))
     \<and> (\<forall>t \<in> keys (tid_cpu_map k). t < next_task_id k)"

abbreviation sys_ok :: "kernel \<Rightarrow> bool" where
  "sys_ok \<equiv> sys_ok_with []"

definition keeps :: "ipm list \<Rightarrow> kernel \<Rightarrow> kernel \<Rightarrow> bool" where
  "keeps ms k k' \<longleftrightarrow> sys_ok_with ms k' \<and> (\<forall>d. started (cpu k d) \<longrightarrow> started (cpu k' d))"

lemma sys_okD:
  assumes "sys_ok_with ms k"
  shows "cpu_ok (cpu k c)" "bt_ok (tid_cpu_map k)"
    "t \<in> keys (pool k c) \<Longrightarrow> bt_get (tid_cpu_map k) t = Some c"
    "tk \<in> set (moving (ms @ msg_queue k)) \<Longrightarrow> t_state tk = Blocked \<and> blocked_count tk = 1
       \<and> t_tid tk \<in> keys (tid_cpu_map k) \<and> t_tid tk \<notin> keys (pool k c)"
    "t \<in> keys (tid_cpu_map k) \<Longrightarrow> t < next_task_id k"
  using assms unfolding sys_ok_with_def by blast+

lemma keepsD: "keeps ms k k' \<Longrightarrow> sys_ok_with ms k'"
  by (simp add: keeps_def)

lemma keeps_refl: "sys_ok_with ms k \<Longrightarrow> keeps ms k k"
  by (simp add: keeps_def)

lemma keeps_trans: "keeps ms k k1 \<Longrightarrow> keeps ns k1 k2 \<Longrightarrow> keeps ns k k2"
  by (simp add: keeps_def)

lemma keeps_local:
  assumes "sys_ok_with ms k" "local_step c k k'"
  shows "keeps ms k k'"
proof -
  obtain p' where p: "k' = put_cpu c p' k" "cpu_ok p'" "keys (task_pool p') = keys (pool k c)"
    "started (cpu k c) \<longrightarrow> started p'"
    using assms(2) by (auto simp: local_step_def)
  have "keys (pool k' d) = keys (pool k d)" for d by (simp add: p(1,3))
  then show ?thesis
    using assms(1) p(2,4) unfolding keeps_def sys_ok_with_def by (simp add: p(1))
qed

lemma keeps_fields:
  assumes "sys_ok_with ms k"
  shows "keeps ms k (k\<lparr>lbal := l\<rparr>)" "keeps ms k (k\<lparr>phys := b\<rparr>)"
  using assms by (simp_all add: keeps_def sys_ok_with_def)

lemma keeps_send:
  assumes "sys_ok_with ms k" "\<forall>t. payload m \<noteq> MoveTask t"
  shows "keeps ms k (send_ipm m k)"
proof -
  have "moving (msg_queue k @ [m]) = moving (msg_queue k)"
    using assms(2) by (cases "payload m") auto
  then have "moving (ms @ msg_queue k @ [m]) = moving (ms @ msg_queue k)" by simp
  then show ?thesis
    using assms(1) by (simp add: keeps_def sys_ok_with_def send_ipm_def)
qed


section \<open>Every operation keeps the machine consistent\<close>

lemma keeps_unblock:
  assumes "sys_ok_with ms k" "unblock_task c tid k = returns k'"
  shows "keeps ms k k'"
  using unblock_task_local [OF assms(2) sys_okD(1) [OF assms(1)]]
proof (elim disjE exE conjE)
  fix d assume "k' = send_ipm \<lparr>dest_cpu = d, payload = Unblock tid\<rparr> k"
  then show ?thesis using keeps_send [OF assms(1)] by simp
qed (simp_all add: keeps_refl keeps_local assms(1))

lemma keeps_unblock_all:
  "sys_ok_with ms k \<Longrightarrow> unblock_all c tids k = returns k' \<Longrightarrow> keeps ms k k'"
proof (induction tids arbitrary: k)
  case Nil
  then show ?case by (simp add: keeps_refl)
next
  case (Cons tid tids)
  then obtain k1 where 1: "unblock_task c tid k = returns k1" "unblock_all c tids k1 = returns k'"
    by (auto simp: and_then_returns)
  have "keeps ms k k1" using keeps_unblock [OF Cons.prems(1) 1(1)] .
  then show ?case using Cons.IH [OF _ 1(2)] keeps_trans by (auto simp: keeps_def)
qed

lemma keeps_drop:
  assumes "sys_ok_with ms k" "drop_task hook c t k = returns k'"
  shows "keeps ms k k'"
proof (cases "t_state t = Terminating")
  case False
  then show ?thesis using assms by (simp add: drop_task_def keeps_refl)
next
  case True
  then obtain k1 where 1: "unblock_all c (joiners t) k = returns k1"
    and k': "k' = (task_dropped hook (t_pid t) (t_tid t) k1)\<lparr>phys :=
        free_continuous (phys (task_dropped hook (t_pid t) (t_tid t) k1)) (kstack_base t) (kstack_pages t)\<rparr>"
    using assms(2) by (auto simp: drop_task_def and_then_returns Let_def)
  have a: "keeps ms k k1" using keeps_unblock_all [OF assms(1) 1] .
  then have "keeps ms k1 (task_dropped hook (t_pid t) (t_tid t) k1)"
    using keeps_fields(2) by (simp add: task_dropped_def keeps_def)
  then have "keeps ms (task_dropped hook (t_pid t) (t_tid t) k1) k'"
    using keeps_fields(2) unfolding k' by (simp add: keeps_def)
  then show ?thesis
    using a \<open>keeps ms k1 (task_dropped hook (t_pid t) (t_tid t) k1)\<close> keeps_trans by blast
qed

lemma stack_alloc_fields:
  "stack_alloc n k = Some (r, k') \<Longrightarrow> \<exists>b. k' = k\<lparr>phys := b\<rparr>"
  by (auto simp: stack_alloc_def split: option.splits sum.splits prod.splits)

lemma cpu_ok_add:
  assumes ok: "cpu_ok p" and t: "bt_get (task_pool p) tid = None"
    and e: "entry_ok True tid t'" and p': "task_pool p' = bt_insert tid t' (task_pool p)"
      "sched p' = ops_add_task tid (sched p)"
  shows "cpu_ok p'"
proof -
  have out: "tid \<notin> set (queue p)" using cpu_okD(3) [OF ok, of tid] t by auto
  have set: "set (queue p') = insert tid (set (queue p))" by (simp add: ops.set_add p'(2))
  show ?thesis
  proof (rule cpu_ok_write [OF ok p'(1)])
    show "distinct (queue p')" using ops.distinct_add [OF cpu_okD(2) [OF ok] out] by (simp add: p'(2))
    show "entry_ok (tid \<in> set (queue p')) tid t'" unfolding set using e by simp
    show "u \<in> set (queue p') \<longleftrightarrow> u \<in> set (queue p)" if "u \<noteq> tid" for u
      unfolding set using that by simp
  qed
qed

text \<open>The state after a successful creation.\<close>

lemma create_task_result:
  assumes "create_task c func arg n name k = Some (tid, k')"
    and "\<And>r k1. stack_alloc n k = Some (r, k1) \<Longrightarrow> r \<noteq> None"
  obtains b t where "tid = next_task_id k" "t_tid t = tid" "t_state t = Ready" "blocked_count t = 0"
    "t_cpu t = c" "t_name t = name" "t_pid t = 0" "joiners t = []"
    "t_ctx t = \<lparr>ctx_ep = func, ctx_arg = arg, ctx_tid = tid\<rparr>"
    "stack_alloc n k = Some (Some (kstack_base t, umul n PHY_FRAME_SIZE div 8), k\<lparr>phys := b\<rparr>)"
    "kstack_pages t = umul (umul n PHY_FRAME_SIZE div 8) 8 div PHY_FRAME_SIZE"
    "k' = (put_cpu c ((cpu k c)\<lparr>task_pool := bt_insert tid t (pool k c),
        sched := ops_add_task tid (sched (cpu k c))\<rparr>) k)
      \<lparr>next_task_id := uadd tid 1, tid_cpu_map := bt_insert tid c (tid_cpu_map k),
       lbal := lb_add_task c (lbal k), phys := b\<rparr>"
proof -
  obtain base words k1 where s: "stack_alloc n k = Some (Some (base, words), k1)"
    using assms by (auto simp: create_task_def split: option.splits prod.splits)
  obtain b where k1: "k1 = k\<lparr>phys := b\<rparr>" using stack_alloc_fields [OF s] by blast
  have words: "words = umul n PHY_FRAME_SIZE div 8"
    using s by (auto simp: stack_alloc_def split: option.splits sum.splits prod.splits)
  define t0 where "t0 = task_new\<lparr>t_tid := next_task_id k, t_cpu := c, t_name := name, kstack_base := base,
                     kstack_pages := umul words 8 div PHY_FRAME_SIZE,
                     t_ctx := \<lparr>ctx_ep = func, ctx_arg = arg, ctx_tid = next_task_id k\<rparr>\<rparr>"
  define t where "t = t0\<lparr>t_state := Ready\<rparr>"
  have c: "tid = next_task_id k"
    "k' = (let k2 = k\<lparr>phys := b, next_task_id := uadd (next_task_id k) 1\<rparr>;
              k3 = put_task c (next_task_id k) t0 k2;
              k4 = k3\<lparr>tid_cpu_map := bt_insert (next_task_id k) c (tid_cpu_map k3)\<rparr>;
              k5 = map_sched c (ops_add_task (next_task_id k)) k4;
              k6 = put_task c (next_task_id k) t k5
          in k6\<lparr>lbal := lb_add_task c (lbal k6)\<rparr>)"
    using assms(1) s unfolding t_def t0_def by (auto simp: create_task_def k1 Let_def)
  show ?thesis
  proof (rule that [of t b])
    show "tid = next_task_id k" by (rule c(1))
    show "stack_alloc n k = Some (Some (kstack_base t, umul n PHY_FRAME_SIZE div 8), k\<lparr>phys := b\<rparr>)"
      using s by (simp add: k1 words t_def t0_def)
    show "k' = (put_cpu c ((cpu k c)\<lparr>task_pool := bt_insert tid t (pool k c),
        sched := ops_add_task tid (sched (cpu k c))\<rparr>) k)
      \<lparr>next_task_id := uadd tid 1, tid_cpu_map := bt_insert tid c (tid_cpu_map k),
       lbal := lb_add_task c (lbal k), phys := b\<rparr>"
    proof -
      have eq: "(cpu k c)\<lparr>sched := s, task_pool := m\<rparr> = (cpu k c)\<lparr>task_pool := m, sched := s\<rparr>" for s m by simp
      show ?thesis
        unfolding c(2) Let_def
        by (rule kernel.equality) (simp_all add: c(1) put_task_def map_sched_def put_cpu_def eq)
    qed
  qed (simp_all add: t_def t0_def task_new_def c(1) words)
qed


lemma keeps_create:
  assumes ok: "sys_ok_with ms k" and r: "create_task c func arg n name k = Some (tid, k')"
    and id: "next_task_id k + 1 < usize_span"
  shows "keeps ms k k'"
proof (cases "\<exists>k1. stack_alloc n k = Some (None, k1)")
  case True
  then obtain b where "k' = k\<lparr>phys := b\<rparr>"
    using r stack_alloc_fields [of n k None] by (auto simp: create_task_def)
  then show ?thesis using keeps_fields(2) [OF ok] by simp
next
  case False
  then obtain b t where t: "tid = next_task_id k" "t_tid t = tid" "t_state t = Ready" "blocked_count t = 0"
    and k': "k' = (put_cpu c ((cpu k c)\<lparr>task_pool := bt_insert tid t (pool k c),
        sched := ops_add_task tid (sched (cpu k c))\<rparr>) k)
      \<lparr>next_task_id := uadd tid 1, tid_cpu_map := bt_insert tid c (tid_cpu_map k),
       lbal := lb_add_task c (lbal k), phys := b\<rparr>"
    using create_task_result [OF r] by metis
  let ?p = "(cpu k c)\<lparr>task_pool := bt_insert tid t (pool k c), sched := ops_add_task tid (sched (cpu k c))\<rparr>"
  have new: "tid \<notin> keys (tid_cpu_map k)" using sys_okD(5) [OF ok, of tid] t(1) by auto
  have fresh: "tid \<notin> keys (pool k d)" for d
  proof
    assume "tid \<in> keys (pool k d)"
    then have "bt_get (tid_cpu_map k) tid = Some d" by (rule sys_okD(3) [OF ok])
    then show False using new by (simp add: key_iff)
  qed
  have cpuok: "cpu_ok ?p"
    by (rule cpu_ok_add [OF sys_okD(1) [OF ok]])
      (use fresh [of c] t in \<open>simp_all add: key_iff entry_ok_def\<close>)
  have fl: "t_tid u \<noteq> tid" if "u \<in> set (moving (ms @ msg_queue k))" for u
    using sys_okD(4) [OF ok that] new by auto
  have cpus: "cpu k' d = (if d = c then ?p else cpu k d)" for d by (simp add: k')
  have rest: "tid_cpu_map k' = bt_insert tid c (tid_cpu_map k)" "msg_queue k' = msg_queue k"
    "next_task_id k' = tid + 1"
    using id t(1) by (simp_all add: k' uadd_exact)
  have "sys_ok_with ms k'"
    unfolding sys_ok_with_def
  proof (intro conjI allI ballI)
    show "cpu_ok (cpu k' d)" for d using cpuok sys_okD(1) [OF ok] by (simp add: cpus)
    show "bt_ok (tid_cpu_map k')" using sys_okD(2) [OF ok] by (simp add: rest)
    show "bt_get (tid_cpu_map k') u = Some d" if "u \<in> keys (pool k' d)" for u d
      using that sys_okD(3) [OF ok, of u d] fresh [of d] by (cases "d = c") (auto simp: cpus rest)
    show "distinct (map t_tid (moving (ms @ msg_queue k')))"
      using ok unfolding rest sys_ok_with_def by blast
    fix u assume u: "u \<in> set (moving (ms @ msg_queue k'))"
    then have u': "u \<in> set (moving (ms @ msg_queue k))" by (simp only: rest)
    show "t_state u = Blocked" "blocked_count u = 1" "t_tid u \<in> keys (tid_cpu_map k')"
      using sys_okD(4) [OF ok u'] by (simp_all add: rest)
    show "t_tid u \<notin> keys (pool k' d)" for d
      using sys_okD(4) [OF ok u', of d] fl [OF u'] by (cases "d = c") (simp_all add: cpus)
  next
    show "u < next_task_id k'" if "u \<in> keys (tid_cpu_map k')" for u
    proof -
      have "u = tid \<or> u \<in> keys (tid_cpu_map k)" using that by (simp add: rest)
      then show ?thesis using sys_okD(5) [OF ok, of u] t(1) rest(3) by (elim disjE) simp_all
    qed
  qed
  moreover have "started (cpu k d) \<Longrightarrow> started (cpu k' d)" for d
    using ops.set_add by (auto simp: cpus started_def)
  ultimately show ?thesis by (simp add: keeps_def)
qed

lemma keeps_set_msg_ret:
  assumes ok: "sys_ok_with ms k" and r: "set_msg_ret c tid v k = returns k'"
  shows "keeps ms k k'"
proof -
  obtain t where t: "bt_get (pool k c) tid = Some t" "k' = put_task c tid (t\<lparr>msg_ret := v\<rparr>) k"
    using r by (auto simp: set_msg_ret_def split: option.splits)
  have "local_step c k k'"
    unfolding t(2) using cpu_okD(4) [OF sys_okD(1) [OF ok] t(1)]
    by (intro local_write [OF sys_okD(1) [OF ok] t(1)]) (simp add: entry_ok_def)
  then show ?thesis using keeps_local ok by blast
qed

lemma keeps_add_joiner:
  assumes ok: "sys_ok_with ms k" and t: "bt_get (pool k c) tid = Some t"
  shows "keeps ms k (put_task c tid (t\<lparr>joiners := js\<rparr>) k)"
proof -
  have "local_step c k (put_task c tid (t\<lparr>joiners := js\<rparr>) k)"
    using cpu_okD(4) [OF sys_okD(1) [OF ok] t]
    by (intro local_write [OF sys_okD(1) [OF ok] t]) (simp add: entry_ok_def)
  then show ?thesis using keeps_local ok by blast
qed

text \<open>A migrating task arrives.\<close>

lemma keeps_arrival:
  assumes ok: "sys_ok_with (m # ms) k" and m: "payload m = MoveTask t"
    and r: "process_ipm c (payload m) k = returns k'"
  shows "keeps ms k k'"
proof -
  let ?p = "(cpu k c)\<lparr>task_pool := bt_insert (t_tid t) t (pool k c)\<rparr>"
  let ?k = "(put_cpu c ?p k)\<lparr>tid_cpu_map := bt_insert (t_tid t) c (tid_cpu_map k), lbal := lb_add_task c (lbal k)\<rparr>"
  have t: "t_state t = Blocked" "blocked_count t = 1" "t_tid t \<in> keys (tid_cpu_map k)"
    and fresh: "t_tid t \<notin> keys (pool k d)" for d
    using sys_okD(4) [OF ok, of t] by (simp_all add: m)
  have un: "unblock_task c (t_tid t) ?k = returns k'"
    using r t(3) by (auto simp: m process_ipm_def put_task_eq Let_def key_iff)
  have oth: "t_tid u \<noteq> t_tid t" if "u \<in> set (moving (ms @ msg_queue k))" for u
  proof -
    have "t_tid t \<notin> t_tid ` set (moving (ms @ msg_queue k))"
      using ok by (simp add: sys_ok_with_def m image_Un)
    then show ?thesis using that by (metis image_eqI)
  qed
  have out: "t_tid t \<notin> set (queue (cpu k c))"
    using fresh [of c] cpu_okD(3) [OF sys_okD(1) [OF ok], of "t_tid t" c] by (auto simp: key_iff)
  have cpuok: "cpu_ok ?p"
  proof (rule cpu_ok_write [OF sys_okD(1) [OF ok]])
    show "entry_ok (t_tid t \<in> set (queue ?p)) (t_tid t) t" using out t by (simp add: entry_ok_def)
    show "distinct (queue ?p)" using cpu_okD(2) [OF sys_okD(1) [OF ok]] by simp
  qed simp_all
  have cpus: "cpu ?k d = (if d = c then ?p else cpu k d)" for d by simp
  have "sys_ok_with ms ?k"
    unfolding sys_ok_with_def
  proof (intro conjI allI ballI)
    show "cpu_ok (cpu ?k d)" for d using cpuok sys_okD(1) [OF ok] by simp
    show "bt_ok (tid_cpu_map ?k)" using sys_okD(2) [OF ok] by simp
    show "bt_get (tid_cpu_map ?k) u = Some d" if "u \<in> keys (pool ?k d)" for u d
    proof (cases "u = t_tid t")
      case True
      then have "d = c" using that fresh [of d] by (cases "d = c") simp_all
      then show ?thesis using True by simp
    next
      case False
      then have "u \<in> keys (pool k d)" using that by (cases "d = c") simp_all
      then show ?thesis using sys_okD(3) [OF ok, of u d] False by simp
    qed
    show "distinct (map t_tid (moving (ms @ msg_queue ?k)))"
      using ok by (simp add: sys_ok_with_def m)
    fix u assume u: "u \<in> set (moving (ms @ msg_queue ?k))"
    then have u': "u \<in> set (moving (ms @ msg_queue k))" by simp
    then have u'': "u \<in> set (moving ((m # ms) @ msg_queue k))" by simp
    show "t_state u = Blocked" "blocked_count u = 1" "t_tid u \<in> keys (tid_cpu_map ?k)"
      using sys_okD(4) [OF ok u''] by simp_all
    show "t_tid u \<notin> keys (pool ?k d)" for d
      using sys_okD(4) [OF ok u'', of d] oth [OF u'] by (cases "d = c") simp_all
  next
    show "u < next_task_id ?k" if "u \<in> keys (tid_cpu_map ?k)" for u
      using that sys_okD(5) [OF ok, of u] sys_okD(5) [OF ok t(3)] by auto
  qed
  then have "keeps ms k ?k" by (simp add: keeps_def started_def)
  then show ?thesis using keeps_unblock [OF _ un] keepsD keeps_trans by blast
qed


text \<open>Creation requests in a list of messages: each uses up a task id.\<close>

definition creates :: "ipm list \<Rightarrow> nat" where
  "creates ms = length (filter (\<lambda>m. case payload m of CreateTask _ _ _ _ _ _ \<Rightarrow> True | _ \<Rightarrow> False) ms)"

lemma creates_simps [simp]:
  "creates [] = 0" "creates (m # ms) = (case payload m of CreateTask _ _ _ _ _ _ \<Rightarrow> 1 | _ \<Rightarrow> 0) + creates ms"
  "creates (ms @ ns) = creates ms + creates ns"
  by (auto simp: creates_def split: ipm_payload.splits)

text \<open>Every other message.\<close>

lemma keeps_process:
  assumes ok: "sys_ok_with (m # ms) k" and r: "process_ipm c (payload m) k = returns k'"
    and id: "next_task_id k + creates [m] < usize_span"
  shows "keeps ms k k'"
proof (cases "\<exists>t. payload m = MoveTask t")
  case True
  then show ?thesis using keeps_arrival ok r by blast
next
  case False
  have ok': "sys_ok_with ms k"
  proof -
    have "moving ((m # ms) @ msg_queue k) = moving (ms @ msg_queue k)"
      using False by (cases "payload m") auto
    then show ?thesis using ok unfolding sys_ok_with_def by simp
  qed
  show ?thesis
  proof (cases "payload m")
    case (Unblock tid)
    then show ?thesis using r keeps_unblock [OF ok'] by (simp add: process_ipm_def)
  next
    case (RespondAndUnblock tid v)
    then obtain k1 where 1: "set_msg_ret c tid v k = returns k1" "unblock_task c tid k1 = returns k'"
      using r by (auto simp: process_ipm_def and_then_returns)
    have a: "keeps ms k k1" using keeps_set_msg_ret [OF ok' 1(1)] .
    have "keeps ms k1 k'" using keeps_unblock [OF keepsD [OF a] 1(2)] .
    then show ?thesis using keeps_trans a by blast
  next
    case (CreateTask ct cc f a n nm)
    then obtain tid k1 where 1: "create_task c f a n nm k = Some (tid, k1)"
      "k' = send_ipm \<lparr>dest_cpu = cc, payload = RespondAndUnblock ct tid\<rparr> k1"
      using r by (auto simp: process_ipm_def split: option.splits)
    have a: "keeps ms k k1" using keeps_create [OF ok' 1(1)] id CreateTask by simp
    then have "keeps ms k1 k'" unfolding 1(2) by (intro keeps_send) (simp_all add: keeps_def)
    then show ?thesis using keeps_trans a by blast
  next
    case (AddJoiner dt jt jc)
    show ?thesis
    proof (cases "bt_get (pool k c) dt")
      case None
      then have "k' = send_ipm \<lparr>dest_cpu = jc, payload = RespondAndUnblock jt 0\<rparr> k"
        using r AddJoiner by (simp add: process_ipm_def)
      then show ?thesis using keeps_send [OF ok'] by simp
    next
      case (Some t)
      let ?k1 = "put_task c dt (t\<lparr>joiners := joiners t @ [jt]\<rparr>) k"
      have k': "k' = send_ipm \<lparr>dest_cpu = jc, payload = RespondAndUnblock jt dt\<rparr> ?k1"
        using r AddJoiner Some by (simp add: process_ipm_def)
      have a: "keeps ms k ?k1" using keeps_add_joiner [OF ok' Some] .
      then have "keeps ms ?k1 k'" unfolding k' by (intro keeps_send) (simp_all add: keeps_def)
      then show ?thesis using keeps_trans a by blast
    qed
  qed (use False in simp)
qed

text \<open>Task ids are handed out once per creation: enough of them must be left for a batch.\<close>

lemma next_id_unblock: "unblock_task c tid k = returns k' \<Longrightarrow> next_task_id k' = next_task_id k"
  by (auto simp: unblock_task_def put_task_def map_sched_def send_ipm_def Let_def
      split: option.splits if_splits)

lemma next_id_set_msg_ret: "set_msg_ret c tid v k = returns k' \<Longrightarrow> next_task_id k' = next_task_id k"
  by (auto simp: set_msg_ret_def put_task_def split: option.splits)

lemma next_id_create:
  assumes "create_task c f a n nm k = Some (tid, k')" "next_task_id k + 1 < usize_span"
  shows "next_task_id k' \<le> next_task_id k + 1"
proof (cases "\<exists>k1. stack_alloc n k = Some (None, k1)")
  case True
  then show ?thesis
    using assms(1) stack_alloc_fields [of n k None] by (auto simp: create_task_def)
next
  case False
  then obtain b t where "tid = next_task_id k"
    "k' = (put_cpu c ((cpu k c)\<lparr>task_pool := bt_insert tid t (pool k c),
        sched := ops_add_task tid (sched (cpu k c))\<rparr>) k)
      \<lparr>next_task_id := uadd tid 1, tid_cpu_map := bt_insert tid c (tid_cpu_map k),
       lbal := lb_add_task c (lbal k), phys := b\<rparr>"
    using create_task_result [OF assms(1)] by metis
  then show ?thesis using assms(2) by (simp add: uadd_exact)
qed

lemma next_id_process:
  assumes "process_ipm c (payload m) k = returns k'" "next_task_id k + creates [m] < usize_span"
  shows "next_task_id k' \<le> next_task_id k + creates [m]"
  using assms
  by (auto simp: process_ipm_def put_task_def send_ipm_def and_then_returns Let_def
      dest!: next_id_unblock next_id_set_msg_ret next_id_create
      split: ipm_payload.splits option.splits)

lemma keeps_process_all:
  "sys_ok_with ms k \<Longrightarrow> process_ipms c ms k = returns k' \<Longrightarrow>
   next_task_id k + creates ms < usize_span \<Longrightarrow> keeps [] k k'"
proof (induction ms arbitrary: k)
  case Nil
  then show ?case by (simp add: keeps_refl)
next
  case (Cons m ms)
  then obtain k1 where 1: "process_ipm c (payload m) k = returns k1" "process_ipms c ms k1 = returns k'"
    by (auto simp: and_then_returns)
  have sum: "creates (m # ms) = creates [m] + creates ms" by simp
  have id: "next_task_id k + creates [m] < usize_span" using Cons.prems(3) unfolding sum by simp
  have a: "keeps ms k k1" using keeps_process [OF Cons.prems(1) 1(1) id] .
  have "next_task_id k1 + creates ms < usize_span"
    using next_id_process [OF 1(1) id] Cons.prems(3) unfolding sum by simp
  then show ?case using Cons.IH [OF keepsD [OF a] 1(2)] keeps_trans [OF a] by blast
qed

section \<open>The worker\<close>

lemma worker_scan_state:
  assumes "worker_scan m acc = (target, del, mv)"
  shows "(del \<longrightarrow> fst (snd acc) \<or> (\<exists>t. (target, t) \<in> set m \<and> t_state t = Terminating))
    \<and> (\<not> del \<and> mv \<longrightarrow> snd (snd acc) \<and> target = fst acc
          \<or> (\<exists>t. (target, t) \<in> set m \<and> t_state t = Migrating))"
  using assms
proof (induction m acc rule: worker_scan.induct)
  case (1 acc)
  then show ?case by auto
next
  case (2 tid t m tg d mv')
  show ?case
  proof (cases "t_state t = Terminating")
    case True
    then show ?thesis using 2 by auto
  next
    case False
    show ?thesis
    proof (cases "t_state t = Migrating")
      case True
      then show ?thesis using 2 by auto
    next
      case F: False
      then have e: "worker_scan ((tid, t) # m) (tg, d, mv') = worker_scan m (tg, d, mv')"
        using False by (cases "t_state t") simp_all
      show ?thesis using 2 F False unfolding e by (cases "t_state t") auto
    qed
  qed
qed

text \<open>What the scan finds, from the worker's initial values.\<close>

lemma worker_scan_found:
  assumes "worker_scan (task_pool p) (0, False, False) = (target, del, mv)" "bt_ok (task_pool p)"
  shows "del \<Longrightarrow> \<exists>t. bt_get (task_pool p) target = Some t \<and> t_state t = Terminating"
    "\<not> del \<Longrightarrow> mv \<Longrightarrow> \<exists>t. bt_get (task_pool p) target = Some t \<and> t_state t = Migrating"
  using worker_scan_state [OF assms(1)] bt_get_iff [OF assms(2)] by auto


text \<open>Taking an unqueued task out of its pool, and a task that is nowhere out of the map.\<close>

lemma keeps_take_out:
  assumes ok: "sys_ok_with ms k" and out: "tid \<notin> set (queue (cpu k c))"
  shows "keeps ms k (put_cpu c ((cpu k c)\<lparr>task_pool := bt_remove tid (pool k c)\<rparr>) k)"
proof -
  let ?p = "(cpu k c)\<lparr>task_pool := bt_remove tid (pool k c)\<rparr>"
  let ?k = "put_cpu c ?p k"
  have "cpu_ok ?p" using cpu_ok_remove [OF sys_okD(1) [OF ok] out] .
  then have c: "\<forall>d. cpu_ok (cpu ?k d)" using sys_okD(1) [OF ok] by simp
  have sub: "keys (pool ?k d) \<subseteq> keys (pool k d)" for d by simp
  have "sys_ok_with ms ?k"
    unfolding sys_ok_with_def
  proof (intro conjI c)
    show "bt_ok (tid_cpu_map ?k)" "\<forall>t \<in> keys (tid_cpu_map ?k). t < next_task_id ?k"
      "distinct (map t_tid (moving (ms @ msg_queue ?k)))"
      using ok by (simp_all add: sys_ok_with_def)
    show "\<forall>d. \<forall>t \<in> keys (pool ?k d). bt_get (tid_cpu_map ?k) t = Some d"
      using sys_okD(3) [OF ok] sub by (simp only: put_cpu_simps(2)) blast
    show "\<forall>t \<in> set (moving (ms @ msg_queue ?k)). t_state t = Blocked \<and> blocked_count t = 1
          \<and> t_tid t \<in> keys (tid_cpu_map ?k) \<and> (\<forall>d. t_tid t \<notin> keys (pool ?k d))"
      using sys_okD(4) [OF ok] sub by (simp only: put_cpu_simps(2,3)) blast
  qed
  then show ?thesis by (simp add: keeps_def started_def)
qed

lemma keeps_unmap:
  assumes ok: "sys_ok_with ms k" and out: "\<And>d. tid \<notin> keys (pool k d)"
    "tid \<notin> t_tid ` set (moving (ms @ msg_queue k))"
  shows "keeps ms k (k\<lparr>tid_cpu_map := bt_remove tid (tid_cpu_map k)\<rparr>)"
proof -
  let ?k = "k\<lparr>tid_cpu_map := bt_remove tid (tid_cpu_map k)\<rparr>"
  have "sys_ok_with ms ?k"
    unfolding sys_ok_with_def
  proof (intro conjI allI ballI)
    show "cpu_ok (cpu ?k d)" for d using sys_okD(1) [OF ok] by simp
    show "bt_ok (tid_cpu_map ?k)" using sys_okD(2) [OF ok] by simp
    show "bt_get (tid_cpu_map ?k) u = Some d" if "u \<in> keys (pool ?k d)" for u d
    proof -
      have u: "u \<in> keys (pool k d)" using that by simp
      then have "u \<noteq> tid" using out(1) by blast
      then show ?thesis using sys_okD(3) [OF ok u] by simp
    qed
    show "distinct (map t_tid (moving (ms @ msg_queue ?k)))" using ok by (simp add: sys_ok_with_def)
    fix u assume u: "u \<in> set (moving (ms @ msg_queue ?k))"
    then have u': "u \<in> set (moving (ms @ msg_queue k))" by simp
    then have "t_tid u \<noteq> tid" using out(2) by blast
    then show "t_state u = Blocked" "blocked_count u = 1" "t_tid u \<in> keys (tid_cpu_map ?k)"
      using sys_okD(4) [OF ok u'] by simp_all
    show "t_tid u \<notin> keys (pool ?k d)" for d using sys_okD(4) [OF ok u', of d] by simp
  next
    show "u < next_task_id ?k" if "u \<in> keys (tid_cpu_map ?k)" for u
    proof -
      have "tid_cpu_map ?k = bt_remove tid (tid_cpu_map k)" by simp
      then have "u \<in> keys (tid_cpu_map k)" using that unfolding keys_bt_remove by simp
      then show ?thesis using sys_okD(5) [OF ok] by simp
    qed
  qed
  then show ?thesis by (simp add: keeps_def)
qed

text \<open>Waking tasks adds no pool entry, no mapping and no moving task.\<close>

definition no_arrivals :: "kernel \<Rightarrow> kernel \<Rightarrow> bool" where
  "no_arrivals k k' \<longleftrightarrow> (\<forall>d. keys (pool k' d) = keys (pool k d)) \<and> tid_cpu_map k' = tid_cpu_map k
     \<and> moving (msg_queue k') = moving (msg_queue k) \<and> next_task_id k' = next_task_id k
     \<and> creates (msg_queue k') = creates (msg_queue k)"

lemma no_arrivals_unblock:
  assumes "sys_ok_with ms k" "unblock_task c tid k = returns k'"
  shows "no_arrivals k k'"
  using unblock_task_local [OF assms(2) sys_okD(1) [OF assms(1)]]
  by (elim disjE exE conjE) (simp_all add: no_arrivals_def local_step_def send_ipm_def, clarsimp)

lemma no_arrivals_unblock_all:
  "sys_ok_with ms k \<Longrightarrow> unblock_all c tids k = returns k' \<Longrightarrow> no_arrivals k k'"
proof (induction tids arbitrary: k)
  case Nil
  then show ?case by (simp add: no_arrivals_def)
next
  case (Cons tid tids)
  then obtain k1 where 1: "unblock_task c tid k = returns k1" "unblock_all c tids k1 = returns k'"
    by (auto simp: and_then_returns)
  have "no_arrivals k k1" using no_arrivals_unblock [OF Cons.prems(1) 1(1)] .
  moreover have "no_arrivals k1 k'" using Cons.IH [OF _ 1(2)] keepsD keeps_unblock [OF Cons.prems(1) 1(1)] by blast
  ultimately show ?case by (simp add: no_arrivals_def)
qed

lemma no_arrivals_drop:
  assumes "sys_ok_with ms k" "drop_task hook c t k = returns k'"
  shows "no_arrivals k k'"
proof (cases "t_state t = Terminating")
  case False
  then show ?thesis using assms by (simp add: drop_task_def no_arrivals_def)
next
  case True
  then obtain k1 where "unblock_all c (joiners t) k = returns k1"
    and k': "k' = (task_dropped hook (t_pid t) (t_tid t) k1)\<lparr>phys :=
        free_continuous (phys (task_dropped hook (t_pid t) (t_tid t) k1)) (kstack_base t) (kstack_pages t)\<rparr>"
    using assms(2) by (auto simp: drop_task_def and_then_returns Let_def)
  then show ?thesis
    using no_arrivals_unblock_all [OF assms(1)] by (simp add: no_arrivals_def task_dropped_def)
qed

lemma keeps_reap:
  assumes ok: "sys_ok_with [] k" and r: "worker_reap hook c k = returns k'"
  shows "keeps [] k k' \<and> next_task_id k' = next_task_id k \<and> creates (msg_queue k') = creates (msg_queue k)"
proof -
  obtain target del mv where sc: "worker_scan (pool k c) (0, False, False) = (target, del, mv)"
    by (metis prod_cases3)
  note found = worker_scan_found [OF sc cpu_okD(1) [OF sys_okD(1) [OF ok]]]
  let ?k1 = "put_cpu c ((cpu k c)\<lparr>task_pool := bt_remove target (pool k c)\<rparr>) k"
  have q: "target \<notin> set (queue (cpu k c))"
    if "bt_get (pool k c) target = Some t" "t_state t \<in> {Terminating, Migrating}" for t
    using cpu_okD(4) [OF sys_okD(1) [OF ok] that(1)] that(2) by (auto simp: entry_ok_def)
  have gone: "target \<notin> keys (pool ?k1 d) \<and> target \<notin> t_tid ` set (moving (msg_queue ?k1))"
    if "bt_get (pool k c) target = Some t" for t d
  proof -
    have in_c: "target \<in> keys (pool k c)" using that by (simp add: key_iff)
    then have m: "bt_get (tid_cpu_map k) target = Some c" by (rule sys_okD(3) [OF ok])
    have "target \<notin> keys (pool ?k1 d)"
    proof (cases "d = c")
      case False
      then show ?thesis using sys_okD(3) [OF ok, of target d] m by auto
    qed simp
    moreover have "target \<notin> t_tid ` set (moving (msg_queue k))"
    proof
      assume "target \<in> t_tid ` set (moving (msg_queue k))"
      then obtain u where "u \<in> set (moving ([] @ msg_queue k))" "t_tid u = target" by auto
      then show False using sys_okD(4) [OF ok, of u c] in_c by simp
    qed
    ultimately show ?thesis by simp
  qed
  show ?thesis
  proof (cases "del \<and> target \<noteq> curr_tid (cpu k c)")
    case True
    then obtain t where t: "bt_get (pool k c) target = Some t" "t_state t = Terminating" using found(1) by blast
    then obtain k2 where k2: "drop_task hook c t ?k1 = returns k2"
      and k': "k' = k2\<lparr>tid_cpu_map := bt_remove target (tid_cpu_map k2)\<rparr>"
      using r sc True by (auto simp: worker_reap_def and_then_returns)
    have a: "keeps [] k ?k1" using keeps_take_out [OF ok q] t by simp
    have b: "keeps [] ?k1 k2" using keeps_drop [OF keepsD [OF a] k2] .
    have n: "no_arrivals ?k1 k2" using no_arrivals_drop [OF keepsD [OF a] k2] .
    have "target \<notin> keys (pool k2 d)" "target \<notin> t_tid ` set (moving ([] @ msg_queue k2))" for d
      using gone [OF t(1), of d] n by (simp_all add: no_arrivals_def)
    then have "keeps [] k2 k'" unfolding k' by (rule keeps_unmap [OF keepsD [OF b]])
    then show ?thesis using a b keeps_trans n by (fastforce simp: no_arrivals_def k')
  next
    case F: False
    show ?thesis
    proof (cases "\<not> del \<and> mv")
      case True
      then obtain t where t: "bt_get (pool k c) target = Some t" "t_state t = Migrating" using found(2) by blast
      let ?t = "t\<lparr>t_state := Blocked\<rparr>"
      let ?k2 = "?k1\<lparr>lbal := lb_rem_task c (lbal ?k1)\<rparr>"
      let ?m = "\<lparr>dest_cpu = t_cpu t, payload = MoveTask ?t\<rparr>"
      have k': "k' = send_ipm ?m ?k2" using r sc True t by (simp add: worker_reap_def Let_def)
      have "keeps [] k ?k1" using keeps_take_out [OF ok q] t by simp
      then have a: "keeps [] k ?k2" using keeps_fields(1) keepsD keeps_trans by blast
      have e: "t_tid t = target" "blocked_count t = 1"
        using cpu_okD(4) [OF sys_okD(1) [OF ok] t(1)] t(2) by (simp_all add: entry_ok_def)
      have in_map: "target \<in> keys (tid_cpu_map k)"
        using sys_okD(3) [OF ok, of target c] t(1) by (simp add: key_iff)
      have mq: "moving (msg_queue k') = moving (msg_queue k) @ [?t]"
        by (simp add: k' send_ipm_def)
      have cpus: "cpu k' = cpu ?k1" "tid_cpu_map k' = tid_cpu_map k" "next_task_id k' = next_task_id k"
        "creates (msg_queue k') = creates (msg_queue k)"
        by (simp_all add: k' send_ipm_def)
      note ok2 = keepsD [OF a]
      have "sys_ok_with [] k'"
        unfolding sys_ok_with_def
      proof (intro conjI allI ballI)
        show "cpu_ok (cpu k' d)" for d using sys_okD(1) [OF ok2] by (simp add: cpus)
        show "bt_ok (tid_cpu_map k')" using sys_okD(2) [OF ok] by (simp add: cpus)
        show "bt_get (tid_cpu_map k') u = Some d" if "u \<in> keys (pool k' d)" for u d
          using sys_okD(3) [OF ok2, of u d] that by (simp add: cpus)
        show "distinct (map t_tid (moving ([] @ msg_queue k')))"
          using ok gone [OF t(1)] by (simp add: sys_ok_with_def mq e)
        fix u assume u: "u \<in> set (moving ([] @ msg_queue k'))"
        then have c: "u = ?t \<or> u \<in> set (moving ([] @ msg_queue k))" by (auto simp: mq)
        then show "t_state u = Blocked" "blocked_count u = 1" "t_tid u \<in> keys (tid_cpu_map k')"
          using sys_okD(4) [OF ok, of u] e in_map by (elim disjE; simp add: cpus)+
        show "t_tid u \<notin> keys (pool k' d)" for d
          using c
        proof
          assume "u = ?t"
          then show ?thesis using gone [OF t(1), of d] e by (simp add: cpus)
        next
          assume "u \<in> set (moving ([] @ msg_queue k))"
          then show ?thesis using sys_okD(4) [OF ok2, of u d] by (simp add: cpus)
        qed
      next
        show "u < next_task_id k'" if "u \<in> keys (tid_cpu_map k')" for u
          using sys_okD(5) [OF ok, of u] that by (simp add: cpus)
      qed
      moreover have "started (cpu k d) \<Longrightarrow> started (cpu k' d)" for d
        using a by (simp add: keeps_def cpus)
      ultimately show ?thesis by (simp add: keeps_def cpus)
    next
      case False
      have "k' = k"
        by (cases del) (use r sc F False in \<open>simp_all add: worker_reap_def Let_def\<close>)
      then show ?thesis using keeps_refl [OF ok] by simp
    qed
  qed
qed


lemma moving_filter: "set (moving ms) = set (moving (filter P ms)) \<union> set (moving (filter (\<lambda>m. \<not> P m) ms))"
  by (induction ms) auto

lemma moving_filter_sub: "set (moving (filter P ms)) \<subseteq> set (moving ms)"
  using moving_filter [of ms P] by blast

lemma moving_filter_distinct:
  "distinct (map t_tid (moving ms)) \<Longrightarrow> distinct (map t_tid (moving (filter P ms @ filter (\<lambda>m. \<not> P m) ms)))"
proof (induction ms)
  case (Cons m ms)
  let ?h = "case payload m of MoveTask t \<Rightarrow> [t] | _ \<Rightarrow> []"
  have ih: "distinct (map t_tid (moving (filter P ms @ filter (\<lambda>m. \<not> P m) ms)))" using Cons by simp
  have "set (map t_tid ?h) \<inter> set (map t_tid (moving ms)) = {}" using Cons.prems by auto
  moreover have "t_tid ` set (moving (filter P ms)) \<subseteq> t_tid ` set (moving ms)"
    "t_tid ` set (moving (filter (\<lambda>m. \<not> P m) ms)) \<subseteq> t_tid ` set (moving ms)"
    using moving_filter_sub by (blast intro: image_mono)+
  moreover have "distinct (map t_tid ?h)" by (simp split: ipm_payload.split)
  ultimately show ?case using ih by (cases "P m") (auto split: ipm_payload.splits)
qed simp

lemma creates_filter: "creates (filter P ms) \<le> creates ms"
  by (induction ms) (simp_all split: ipm_payload.split)

lemma keeps_round:
  assumes ok: "sys_ok_with [] k" and r: "worker_round hook c k = returns k'"
    and id: "next_task_id k + creates (msg_queue k) < usize_span"
  shows "keeps [] k k'"
proof -
  obtain k1 where 1: "worker_reap hook c k = returns k1" "worker_messages c k1 = returns k'"
    using r by (auto simp: worker_round_def and_then_returns)
  have a: "keeps [] k k1" "next_task_id k1 = next_task_id k" "creates (msg_queue k1) = creates (msg_queue k)"
    using keeps_reap [OF ok 1(1)] by simp_all
  note ok1 = keepsD [OF a(1)]
  let ?ms = "filter (\<lambda>m. dest_cpu m = c) (msg_queue k1)"
  let ?k2 = "k1\<lparr>msg_queue := filter (\<lambda>m. dest_cpu m \<noteq> c) (msg_queue k1)\<rparr>"
  have d: "distinct (map t_tid (moving (?ms @ msg_queue ?k2)))"
    using moving_filter_distinct [of "msg_queue k1" "\<lambda>m. dest_cpu m = c"] ok1 by (simp add: sys_ok_with_def)
  have s: "set (moving (?ms @ msg_queue ?k2)) = set (moving ([] @ msg_queue k1))"
    using moving_filter [of "msg_queue k1" "\<lambda>m. dest_cpu m = c"] by simp
  have "sys_ok_with ?ms ?k2"
    using ok1 d unfolding sys_ok_with_def s by simp
  then have b: "keeps ?ms k1 ?k2" by (simp add: keeps_def)
  have "next_task_id ?k2 + creates ?ms < usize_span"
    using id a(2,3) creates_filter [of "\<lambda>m. dest_cpu m = c" "msg_queue k1"] by simp
  moreover have "process_ipms c ?ms ?k2 = returns k'" using 1(2) by (simp add: worker_messages_def Let_def)
  ultimately have "keeps [] ?k2 k'" using keeps_process_all keepsD [OF b] by blast
  then show ?thesis using a b keeps_trans by blast
qed

end
