(* ===== verification/Sched_Steps.thy ===== *)
theory Sched_Steps
  imports Sched_Inv
begin

text \<open>
  The steps of the machine, one per operation of \<open>Scheduler\<close> and \<open>Task_Ops\<close> that a running
  task, the worker or the timer performs, and the invariant over all of them.

  Each operation is one step: interrupts inside an operation are left out, although the code
  does not mask them everywhere (\<^verbatim>\<open>let _ = Preemption::lock()\<close> drops the guard at once). A step exists
  where the operation returns; a panic stops the machine and has no next state, as when the only
  queued task blocks. Migration needs a task without an early wake-up (\<open>no_early_wakeup\<close>); what
  happens otherwise is in \<open>Sched_Props2\<close>.
\<close>

inductive sys_step :: "drop_hook \<Rightarrow> kernel \<Rightarrow> kernel \<Rightarrow> bool" for hook where
  step_timer: "started (cpu k c) \<Longrightarrow> preempt_irq clk c k = returns k' \<Longrightarrow> sys_step hook k k'"
| step_block: "started (cpu k c) \<Longrightarrow> task_block clk c k = returns k' \<Longrightarrow> sys_step hook k k'"
| step_wake: "task_wake c tid k = returns k' \<Longrightarrow> sys_step hook k k'"
| step_sleep: "started (cpu k c) \<Longrightarrow> task_sleep clk c ticks k = returns k' \<Longrightarrow> sys_step hook k k'"
| step_exit: "started (cpu k c) \<Longrightarrow> task_exit clk c k = returns k' \<Longrightarrow> sys_step hook k k'"
| step_spawn: "started (cpu k c) \<Longrightarrow> next_task_id k + 1 < usize_span \<Longrightarrow>
    spawn_on_cpu clk c func arg d name k = returns (r, k') \<Longrightarrow> sys_step hook k k'"
| step_spawned: "spawn_resume c tid k = returns (r, k') \<Longrightarrow> sys_step hook k k'"
| step_join: "started (cpu k c) \<Longrightarrow> task_join clk c tid k = returns (r, k') \<Longrightarrow> sys_step hook k k'"
| step_joined: "started (cpu k c) \<Longrightarrow> join_resume clk c (curr_tid (cpu k c)) tid k = returns (r, k') \<Longrightarrow>
    sys_step hook k k'"
| step_migrate: "started (cpu k c) \<Longrightarrow> no_early_wakeup c k \<Longrightarrow>
    migrate_to_cpu clk n c d k = returns k' \<Longrightarrow> sys_step hook k k'"
| step_set_pid: "set_pid c pid k = returns k' \<Longrightarrow> sys_step hook k k'"
| step_wait: "started (cpu k c) \<Longrightarrow> wc_wait clk c w k = returns (w', k') \<Longrightarrow> sys_step hook k k'"
| step_signal: "wc_signal c n w k = returns (w', k') \<Longrightarrow> sys_step hook k k'"
| step_signal_all: "wc_signal_all c w k = returns (w', k') \<Longrightarrow> sys_step hook k k'"
| step_worker: "next_task_id k + creates (msg_queue k) < usize_span \<Longrightarrow>
    worker_round hook c k = returns k' \<Longrightarrow> sys_step hook k k'"

section \<open>The operations keep the invariant\<close>

lemma keeps_timer:
  assumes ok: "sys_ok k" and st: "started (cpu k c)" and r: "preempt_irq clk c k = returns k'"
  shows "keeps [] k k'"
proof -
  have "\<exists>p'. Inr k' = (Inr (put_cpu c p' k) :: fault + kernel) \<and> switched (cpu k c) p'"
  proof (rule preempt_irq_switched [OF r sys_okD(1) [OF ok]])
    show "queue (cpu k c) \<noteq> []" using st by (auto simp: started_def)
    show "curr_tid (cpu k c) \<in> keys (pool k c)"
      using st cpu_okD(3) [OF sys_okD(1) [OF ok]] by (auto simp: started_def key_iff)
  qed
  then have "local_step c k k'" by (auto simp: local_step_def switched_def)
  then show ?thesis using keeps_local ok by blast
qed

lemma keeps_block:
  assumes "sys_ok k" "started (cpu k c)" "block_task clk c (curr_tid (cpu k c)) k = returns k'"
  shows "keeps [] k k'"
  using block_task_local [OF assms(3) sys_okD(1) [OF assms(1)] assms(2) refl] keeps_local [OF assms(1)] by blast

lemma started_put:
  "cpu (send_ipm m k) = cpu k" "started (cpu (put_task c tid t k) c) = started (cpu k c)"
  by (simp_all add: send_ipm_def put_task_eq started_def)

lemma curr_put_task: "curr_tid (cpu (put_task c tid t k) c) = curr_tid (cpu k c)"
  by (simp add: put_task_eq)

lemma keeps_spawn:
  assumes ok: "sys_ok k" and cr: "started (cpu k c)" and id: "next_task_id k + 1 < usize_span"
    and r: "spawn_on_cpu clk c func arg d name k = returns (x, k')"
  shows "keeps [] k k'"
proof (cases "d = c")
  case True
  then show ?thesis
    using r keeps_create [OF ok _ id] by (auto simp: spawn_on_cpu_def Let_def split: option.splits)
next
  case False
  let ?k = "send_ipm \<lparr>dest_cpu = d, payload = CreateTask (curr_tid (cpu k c)) c func arg (kstack_pgs k) name\<rparr> k"
  have a: "keeps [] k ?k" by (rule keeps_send [OF ok]) simp
  have b: "block_task clk c (curr_tid (cpu ?k c)) ?k = returns k'"
    using r False by (auto simp: spawn_on_cpu_def task_block_def Let_def and_then_returns started_put(1))
  have "keeps [] ?k k'" by (rule keeps_block [OF keepsD [OF a] _ b]) (simp add: started_put cr)
  then show ?thesis using keeps_trans a by blast
qed

lemma keeps_resume:
  assumes "sys_ok k" "and_then (get_msg_ret c tid k) (\<lambda>ret. and_then (set_msg_ret c tid 0 k) (f ret)) = returns y"
  shows "\<exists>ret t. bt_get (pool k c) tid = Some t \<and> f ret (put_task c tid (t\<lparr>msg_ret := 0\<rparr>) k) = returns y
    \<and> keeps [] k (put_task c tid (t\<lparr>msg_ret := 0\<rparr>) k)"
proof -
  obtain ret k1 where k1: "set_msg_ret c tid 0 k = returns k1" "f ret k1 = returns y"
    using assms(2) by (auto simp: and_then_returns)
  then obtain t where "bt_get (pool k c) tid = Some t" "k1 = put_task c tid (t\<lparr>msg_ret := 0\<rparr>) k"
    by (auto simp: set_msg_ret_def split: option.splits)
  then show ?thesis using k1 keeps_set_msg_ret [OF assms(1) k1(1)] by blast
qed

lemma keeps_join:
  assumes ok: "sys_ok k" and cr: "started (cpu k c)" and r: "task_join clk c tid k = returns (x, k')"
  shows "keeps [] k k'"
proof (cases "bt_get (tid_cpu_map k) tid")
  case None
  then show ?thesis using r keeps_refl [OF ok] by (simp add: task_join_def)
next
  case (Some d)
  show ?thesis
  proof (cases "if c = d then bt_get (pool k c) tid else None")
    case None
    let ?k = "send_ipm \<lparr>dest_cpu = d, payload = AddJoiner tid (curr_tid (cpu k c)) c\<rparr> k"
    have a: "keeps [] k ?k" by (rule keeps_send [OF ok]) simp
    have b: "block_task clk c (curr_tid (cpu ?k c)) ?k = returns k'"
      using r Some None by (auto simp: task_join_def task_block_def Let_def and_then_returns started_put(1))
    have "keeps [] ?k k'" by (rule keeps_block [OF keepsD [OF a] _ b]) (simp add: started_put cr)
    then show ?thesis using keeps_trans a by blast
  next
    case t: (Some t)
    then have get: "bt_get (pool k c) tid = Some t" by (simp split: if_splits)
    let ?k = "put_task c tid (t\<lparr>joiners := joiners t @ [curr_tid (cpu k c)]\<rparr>) k"
    have a: "keeps [] k ?k" using keeps_add_joiner [OF ok get] .
    have b: "block_task clk c (curr_tid (cpu ?k c)) ?k = returns k'"
      using r Some t by (auto simp: task_join_def Let_def and_then_returns curr_put_task)
    have "keeps [] ?k k'" by (rule keeps_block [OF keepsD [OF a] _ b]) (simp add: started_put cr)
    then show ?thesis using keeps_trans a by blast
  qed
qed

lemma keeps_joined:
  assumes ok: "sys_ok k" and cr: "started (cpu k c)"
    and r: "join_resume clk c (curr_tid (cpu k c)) tid k = returns (x, k')"
  shows "keeps [] k k'"
proof -
  obtain ret t where
    f: "(if ret \<noteq> tid then returns (True, put_task c (curr_tid (cpu k c)) (t\<lparr>msg_ret := 0\<rparr>) k)
         else and_then (task_block clk c (put_task c (curr_tid (cpu k c)) (t\<lparr>msg_ret := 0\<rparr>) k))
           (\<lambda>k2. returns (False, k2))) = returns (x, k')"
    and a: "keeps [] k (put_task c (curr_tid (cpu k c)) (t\<lparr>msg_ret := 0\<rparr>) k)"
    using keeps_resume [OF ok r [unfolded join_resume_def]] by blast
  show ?thesis
  proof (cases "ret = tid")
    case False
    then show ?thesis using f a by simp
  next
    case True
    let ?k = "put_task c (curr_tid (cpu k c)) (t\<lparr>msg_ret := 0\<rparr>) k"
    have b: "block_task clk c (curr_tid (cpu ?k c)) ?k = returns k'"
      using f True by (auto simp: task_block_def and_then_returns)
    have "keeps [] ?k k'" by (rule keeps_block [OF keepsD [OF a] _ b]) (simp add: started_put cr)
    then show ?thesis using keeps_trans a by blast
  qed
qed

lemma keeps_set_pid:
  assumes ok: "sys_ok k" and r: "set_pid c pid k = returns k'"
  shows "keeps [] k k'"
proof (cases "bt_get (pool k c) (curr_tid (cpu k c))")
  case None
  then show ?thesis using r keeps_refl [OF ok] by (simp add: set_pid_def)
next
  case (Some t)
  then have "k' = put_task c (curr_tid (cpu k c)) (t\<lparr>t_pid := pid\<rparr>) k"
    using r by (simp add: set_pid_def split: if_splits)
  moreover have "entry_ok (curr_tid (cpu k c) \<in> set (queue (cpu k c))) (curr_tid (cpu k c)) (t\<lparr>t_pid := pid\<rparr>)"
    using cpu_okD(4) [OF sys_okD(1) [OF ok] Some] by (simp add: entry_ok_def)
  ultimately have "local_step c k k'" using local_write [OF sys_okD(1) [OF ok] Some] by simp
  then show ?thesis using keeps_local ok by blast
qed

lemma keeps_signal:
  "sys_ok k \<Longrightarrow> wc_signal c n w k = returns (w', k') \<Longrightarrow> keeps [] k k'"
proof (induction c n w k rule: wc_signal.induct)
  case (3 c n tid w k)
  then obtain k1 where 1: "unblock_task c tid k = returns k1" "wc_signal c n w k1 = returns (w', k')"
    by (auto simp: and_then_returns)
  have "keeps [] k k1" using keeps_unblock [OF 3(2) 1(1)] .
  then show ?case using 3(1) [OF keepsD 1(2)] keeps_trans by blast
qed (simp_all add: keeps_refl)

lemma keeps_signal_all:
  "sys_ok k \<Longrightarrow> wc_signal_all c w k = returns (w', k') \<Longrightarrow> keeps [] k k'"
proof (induction c w k rule: wc_signal_all.induct)
  case (2 c tid w k)
  then obtain k1 where 1: "unblock_task c tid k = returns k1" "wc_signal_all c w k1 = returns (w', k')"
    by (auto simp: and_then_returns)
  have "keeps [] k k1" using keeps_unblock [OF 2(2) 1(1)] .
  then show ?case using 2(1) [OF keepsD 1(2)] keeps_trans by blast
qed (simp add: keeps_refl)

lemma keeps_exit:
  assumes ok: "sys_ok k" and cr: "started (cpu k c)" and r: "terminate_task clk c k = returns k'"
  shows "keeps [] k k'"
proof -
  have "local_step c (k\<lparr>lbal := lb_rem_task c (lbal k)\<rparr>) k'"
    by (rule terminate_task_local [OF r sys_okD(1) [OF ok] cr])
  then show ?thesis using keeps_fields(1) [OF ok] keeps_local keepsD keeps_trans by blast
qed

lemma keeps_sleep:
  assumes ok: "sys_ok k" and st: "started (cpu k c)" and r: "task_sleep clk c ticks k = returns k'"
  shows "keeps [] k k'"
  using task_sleep_local [OF r sys_okD(1) [OF ok] st] keeps_local [OF ok] by auto

lemma keeps_migrate:
  assumes ok: "sys_ok k" and cr: "started (cpu k c)" and w: "no_early_wakeup c k"
    and r: "migrate_to_cpu clk n c d k = returns k'"
  shows "keeps [] k k'"
proof -
  have "k' = k \<or> local_step c k k'"
    by (rule migrate_local [OF r sys_okD(1) [OF ok] cr w])
  then show ?thesis using keeps_local [OF ok] keeps_refl [OF ok] by auto
qed

lemma keeps_wait:
  assumes "sys_ok k" "started (cpu k c)" "wc_wait clk c w k = returns (w', k')"
  shows "keeps [] k k'"
  using assms keeps_block by (auto simp: wc_wait_def Let_def and_then_returns)

lemma keeps_spawned:
  assumes "sys_ok k" "spawn_resume c tid k = returns (r, k')"
  shows "keeps [] k k'"
  using keeps_resume [OF assms(1) assms(2) [unfolded spawn_resume_def]] by auto

lemmas step_keeps = keeps_timer keeps_block keeps_unblock keeps_sleep keeps_exit keeps_spawn keeps_spawned
  keeps_join keeps_joined keeps_migrate keeps_set_pid keeps_wait keeps_signal keeps_signal_all keeps_round

lemma sys_step_keeps: "sys_step hook k k' \<Longrightarrow> sys_ok k \<Longrightarrow> keeps [] k k'"
  by (induction rule: sys_step.induct)
    (simp_all only: task_block_def task_wake_def task_exit_def, (blast intro: step_keeps)+)

lemma reachable_keeps: "(sys_step hook)\<^sup>*\<^sup>* k k' \<Longrightarrow> sys_ok k \<Longrightarrow> keeps [] k k'"
proof (induction rule: rtranclp_induct)
  case base
  then show ?case by (rule keeps_refl)
next
  case (step k1 k2)
  then show ?case using sys_step_keeps keepsD keeps_trans by blast
qed

end
