(* ===== verification/Sched_Policy.thy ===== *)
theory Sched_Policy
  imports Sched_Steps
begin

text \<open>
  What the policies do on a timer interrupt: round robin gives the CPU to the first task in
  queue order that is due, and rotates; first come first served insists on the head.
\<close>

section \<open>Round robin\<close>

text \<open>At the \<open>n\<close>-th clock reading the task can be chosen.\<close>

definition due :: "(nat \<Rightarrow> u64) \<Rightarrow> nat \<Rightarrow> percpu \<Rightarrow> usize \<Rightarrow> bool" where
  "due clk n p tid \<longleftrightarrow> (case bt_get (task_pool p) tid of None \<Rightarrow> False
     | Some t \<Rightarrow> t_state t \<noteq> Sleeping \<or> clk n \<ge> wakeup_time t)"

definition woken :: "usize \<Rightarrow> percpu \<Rightarrow> percpu" where
  "woken tid p = (case bt_get (task_pool p) tid of None \<Rightarrow> p
     | Some t \<Rightarrow> if t_state t = Sleeping
         then p\<lparr>task_pool := bt_insert tid (t\<lparr>t_state := Ready, wakeup_time := 0\<rparr>) (task_pool p)\<rparr> else p)"

lemma pick_next_rr:
  assumes "sched p = RoundRobin q" "j < length (rr_queue q)" "due clk (n + j) p (rr_queue q ! j)"
    "\<And>i. i < j \<Longrightarrow> \<not> due clk (n + i) p (rr_queue q ! i)"
    "\<And>t. t \<in> set (rr_queue q) \<Longrightarrow> bt_get (task_pool p) t \<noteq> None"
  shows "pick_next clk n p = returns (rr_queue q ! j,
    (woken (rr_queue q ! j) p)\<lparr>sched := RoundRobin (q\<lparr>rr_queue := rotate (Suc j) (rr_queue q)\<rparr>)\<rparr>)"
  using assms
proof (induction j arbitrary: n p q)
  case 0
  then obtain x xs where xs: "rr_queue q = x # xs" by (cases "rr_queue q") auto
  obtain t where t: "bt_get (task_pool p) x = Some t" using 0(5) xs by fastforce
  have nx: "ops_next_task (sched p) = (Some x, RoundRobin (q\<lparr>rr_queue := xs @ [x]\<rparr>))"
    unfolding 0(1) ops_next_rr by (simp add: xs)
  have "t_state t = Sleeping \<Longrightarrow> clk n \<ge> wakeup_time t" using 0(3) by (simp add: xs due_def t)
  moreover have "p\<lparr>sched := s, task_pool := m\<rparr> = p\<lparr>task_pool := m, sched := s\<rparr>" for s m by simp
  ultimately show ?case
    by (subst pick_next.simps) (simp add: nx xs t woken_def)
next
  case (Suc j)
  then obtain x xs where xs: "rr_queue q = x # xs" by (cases "rr_queue q") auto
  obtain t where t: "bt_get (task_pool p) x = Some t" using Suc.prems(5) xs by fastforce
  let ?q = "q\<lparr>rr_queue := xs @ [x]\<rparr>"
  let ?p = "p\<lparr>sched := RoundRobin ?q\<rparr>"
  have nx: "ops_next_task (sched p) = (Some x, RoundRobin ?q)"
    unfolding Suc.prems(1) ops_next_rr by (simp add: xs)
  have "\<not> due clk n p x" using Suc.prems(4) [of 0] by (simp add: xs)
  then have s: "t_state t = Sleeping" "\<not> clk n \<ge> wakeup_time t" by (simp_all add: due_def t)
  have idx: "rr_queue ?q ! i = rr_queue q ! Suc i" if "i \<le> j" for i
    using that Suc.prems(2) by (simp add: xs nth_append)
  have due': "due clk (Suc n + i) ?p y = due clk (n + Suc i) p y" for i y by (simp add: due_def)
  have ih: "pick_next clk (Suc n) ?p = returns (rr_queue ?q ! j,
    (woken (rr_queue ?q ! j) ?p)\<lparr>sched := RoundRobin (?q\<lparr>rr_queue := rotate (Suc j) (rr_queue ?q)\<rparr>)\<rparr>)"
  proof (rule Suc.IH)
    show "due clk (Suc n + j) ?p (rr_queue ?q ! j)"
      using Suc.prems(3) idx [of j] unfolding due' by simp
    show "\<not> due clk (Suc n + i) ?p (rr_queue ?q ! i)" if "i < j" for i
      using Suc.prems(4) [of "Suc i"] idx [of i] that unfolding due' by simp
    show "j < length (rr_queue ?q)" using Suc.prems(2) by (simp add: xs)
    show "bt_get (task_pool ?p) t \<noteq> None" if "t \<in> set (rr_queue ?q)" for t
      using Suc.prems(5) [of t] that by (simp add: xs)
  qed simp
  have step: "pick_next clk n p = pick_next clk (Suc n) ?p"
    by (subst pick_next.simps) (simp add: nx t s)
  have w: "(woken y ?p)\<lparr>sched := z\<rparr> = (woken y p)\<lparr>sched := z\<rparr>" for y z
    by (simp add: woken_def split: option.split)
  have "rotate (Suc j) (xs @ [x]) = rotate (Suc (Suc j)) (x # xs)"
    using rotate1_rotate_swap [of "Suc j" "x # xs"] by simp
  then show ?case unfolding step ih w using idx [of j] by (simp add: xs)
qed


text \<open>The effect of a timer interrupt on a consistent CPU under round robin.\<close>

lemma first_due:
  assumes "m < length xs" "\<And>n. due clk n p (xs ! m)"
  shows "\<exists>j. j \<le> m \<and> due clk j p (xs ! j) \<and> (\<forall>i < j. \<not> due clk i p (xs ! i))"
proof -
  let ?j = "LEAST j. due clk j p (xs ! j)"
  have "due clk ?j p (xs ! ?j)" using assms(2) by (rule LeastI)
  moreover have "?j \<le> m" using assms(2) by (rule Least_le)
  moreover have "\<not> due clk i p (xs ! i)" if "i < ?j" for i using that by (rule not_less_Least)
  ultimately show ?thesis by blast
qed

lemma preempt_rr:
  assumes ok: "cpu_ok (cpu k c)" and st: "started (cpu k c)" and rr: "sched (cpu k c) = RoundRobin q"
    and j: "j < length (rr_queue q)" "due clk j (cpu k c) (rr_queue q ! j)"
      "\<forall>i < j. \<not> due clk i (cpu k c) (rr_queue q ! i)"
  shows "\<exists>k'. preempt_irq clk c k = returns k' \<and> curr_tid (cpu k' c) = rr_queue q ! j
    \<and> sched (cpu k' c) = RoundRobin (q\<lparr>rr_queue := rotate (Suc j) (rr_queue q)\<rparr>)
    \<and> (\<forall>u t'. bt_get (pool k' c) u = Some t' \<longrightarrow> (\<exists>t. bt_get (pool k c) u = Some t
          \<and> (t_state t' = t_state t \<or> t_state t' = Ready \<or> u = rr_queue q ! j \<and> t_state t' = Running)))
    \<and> (\<exists>t'. bt_get (pool k' c) (rr_queue q ! j) = Some t' \<and> runnable t'
          \<and> (curr_tid (cpu k c) \<noteq> rr_queue q ! j \<longrightarrow> t_state t' = Running))"
proof -
  let ?p = "cpu k c" and ?x = "rr_queue q ! j" and ?cur = "curr_tid (cpu k c)"
  let ?p' = "(woken ?x ?p)\<lparr>sched := RoundRobin (q\<lparr>rr_queue := rotate (Suc j) (rr_queue q)\<rparr>)\<rparr>"
  have queued: "bt_get (task_pool ?p) t \<noteq> None" if "t \<in> set (rr_queue q)" for t
    using cpu_okD(3) [OF ok, of t] that rr by auto
  have pn: "pick_next clk 0 ?p = returns (?x, ?p')"
    using j queued by (intro pick_next_rr [OF rr]) simp_all
  have xq: "?x \<in> set (queue ?p)" using rr j(1) by simp
  have curq: "?cur \<in> set (queue ?p)" using st by (simp add: started_def)
  obtain x0 where x0: "bt_get (task_pool ?p) ?x = Some x0" using cpu_okD(3) [OF ok xq] by blast
  obtain c0 where c0: "bt_get (task_pool ?p) ?cur = Some c0" using cpu_okD(3) [OF ok curq] by blast
  define w where "w = (if t_state x0 = Sleeping then x0\<lparr>t_state := Ready, wakeup_time := 0\<rparr> else x0)"
  have gw: "bt_get (task_pool (woken ?x ?p)) u = (if u = ?x then Some w else bt_get (task_pool ?p) u)" for u
    using x0 by (simp add: woken_def w_def)
  then have get: "bt_get (task_pool ?p') u = (if u = ?x then Some w else bt_get (task_pool ?p) u)" for u
    by simp
  have e: "entry_ok True ?x x0" "entry_ok True ?cur c0"
    using cpu_okD(4) [OF ok x0] cpu_okD(4) [OF ok c0] xq curq by simp_all
  have tw: "t_tid w = ?x" "t_tid c0 = ?cur" "runnable w"
    using e by (auto simp: entry_ok_def w_def runnable_def)
  have cw: "curr_tid ?p' = ?cur" by (simp add: woken_def split: option.split)
  define old where "old = (if ?cur = ?x then w else c0)"
  have old: "bt_get (task_pool ?p') ?cur = Some old" "t_tid old = ?cur"
    using c0 tw by (auto simp: gw old_def)
  define fin where "fin = (if ?cur \<noteq> ?x then
       (let pool1 = (if t_state old = Running then bt_insert ?cur (old\<lparr>t_state := Ready\<rparr>) (task_pool ?p') else task_pool ?p')
        in ?p'\<lparr>curr_tid := ?x, task_pool := bt_insert ?x (w\<lparr>t_state := Running\<rparr>) pool1\<rparr>)
     else ?p'\<lparr>curr_tid := ?x\<rparr>)"
  have gx: "bt_get (task_pool ?p') ?x = Some w" by (simp only: get simp_thms if_True)
  have run: "preempt_irq clk c k = returns (put_cpu c fin k)"
    unfolding preempt_irq_def Let_def pn and_then_simps prod.case old(1) option.case gx tw(1) old(2)
    by (auto simp: fin_def Let_def)
  have fget: "bt_get (task_pool fin) u =
      (if ?cur \<noteq> ?x then (if u = ?x then Some (w\<lparr>t_state := Running\<rparr>)
         else if u = ?cur \<and> t_state old = Running then Some (old\<lparr>t_state := Ready\<rparr>)
         else bt_get (task_pool ?p) u)
       else if u = ?x then Some w else bt_get (task_pool ?p) u)" for u
    unfolding fin_def Let_def using gw by simp
  have "\<exists>t. bt_get (pool k c) u = Some t
      \<and> (t_state t' = t_state t \<or> t_state t' = Ready \<or> u = ?x \<and> t_state t' = Running)"
    if "bt_get (task_pool fin) u = Some t'" for u t'
    using that x0 c0 unfolding fget by (auto simp: w_def old_def split: if_splits)
  moreover have "\<exists>t'. bt_get (task_pool fin) ?x = Some t' \<and> runnable t' \<and> (?cur \<noteq> ?x \<longrightarrow> t_state t' = Running)"
    unfolding fget using tw(3) by (simp add: runnable_def)
  moreover have "curr_tid fin = ?x" "sched fin = RoundRobin (q\<lparr>rr_queue := rotate (Suc j) (rr_queue q)\<rparr>)"
    by (simp_all add: fin_def Let_def)
  ultimately show ?thesis unfolding run by (intro exI [of _ "put_cpu c fin k"]) (simp only: put_cpu_simps simp_thms if_True, blast)
qed


text \<open>Nobody in the queue sleeps: each interrupt gives the CPU to the next task.\<close>

definition all_awake :: "percpu \<Rightarrow> bool" where
  "all_awake p \<longleftrightarrow> (\<forall>tid t. bt_get (task_pool p) tid = Some t \<longrightarrow> t_state t \<noteq> Sleeping)"

fun timer_irqs :: "(nat \<Rightarrow> nat \<Rightarrow> u64) \<Rightarrow> nat \<Rightarrow> usize \<Rightarrow> kernel \<Rightarrow> kernel run" where
  "timer_irqs clk 0 c k = returns k"
| "timer_irqs clk (Suc m) c k = and_then (timer_irqs clk m c k) (preempt_irq (clk m) c)"

lemma preempt_rr_awake:
  assumes ok: "sys_ok k" and st: "started (cpu k c)" and rr: "sched (cpu k c) = RoundRobin q"
    and aw: "all_awake (cpu k c)"
  shows "\<exists>k'. preempt_irq clk c k = returns k' \<and> curr_tid (cpu k' c) = hd (rr_queue q)
    \<and> sched (cpu k' c) = RoundRobin (q\<lparr>rr_queue := rotate1 (rr_queue q)\<rparr>)
    \<and> all_awake (cpu k' c) \<and> keeps [] k k'"
proof -
  have c: "cpu_ok (cpu k c)" by (rule sys_okD(1) [OF ok])
  have len: "0 < length (rr_queue q)" using st rr by (auto simp: started_def)
  then have hd: "rr_queue q ! 0 = hd (rr_queue q)" by (simp add: hd_conv_nth)
  have "rr_queue q ! 0 \<in> set (queue (cpu k c))" using rr len by simp
  then obtain t where t: "bt_get (pool k c) (rr_queue q ! 0) = Some t" using cpu_okD(3) [OF c] by blast
  then have d: "due clk 0 (cpu k c) (rr_queue q ! 0)" using aw by (simp add: due_def all_awake_def)
  obtain k' where k': "preempt_irq clk c k = returns k'" "curr_tid (cpu k' c) = rr_queue q ! 0"
    "sched (cpu k' c) = RoundRobin (q\<lparr>rr_queue := rotate (Suc 0) (rr_queue q)\<rparr>)"
    and st': "\<forall>u t'. bt_get (pool k' c) u = Some t' \<longrightarrow> (\<exists>t. bt_get (pool k c) u = Some t
          \<and> (t_state t' = t_state t \<or> t_state t' = Ready \<or> u = rr_queue q ! 0 \<and> t_state t' = Running))"
    using preempt_rr [OF c st rr len d] by auto
  have "all_awake (cpu k' c)"
    unfolding all_awake_def
  proof (intro allI impI)
    fix u t' assume "bt_get (pool k' c) u = Some t'"
    then show "t_state t' \<noteq> Sleeping" using st' aw unfolding all_awake_def by fastforce
  qed
  moreover have "keeps [] k k'" using keeps_timer [OF ok st k'(1)] .
  ultimately show ?thesis using k' hd by (intro exI [of _ k']) simp
qed

lemma timer_irqs_rr:
  assumes ok: "sys_ok k" and st: "started (cpu k c)" and rr: "sched (cpu k c) = RoundRobin q"
    and aw: "all_awake (cpu k c)"
  shows "\<exists>k'. timer_irqs clk m c k = returns k' \<and> keeps [] k k' \<and> all_awake (cpu k' c)
    \<and> sched (cpu k' c) = RoundRobin (q\<lparr>rr_queue := rotate m (rr_queue q)\<rparr>)
    \<and> (0 < m \<longrightarrow> curr_tid (cpu k' c) = rr_queue q ! ((m - 1) mod length (rr_queue q)))"
proof (induction m)
  case 0
  then show ?case using keeps_refl [OF ok] rr aw by simp
next
  case (Suc m)
  then obtain k1 where k1: "timer_irqs clk m c k = returns k1" "keeps [] k k1" "all_awake (cpu k1 c)"
    "sched (cpu k1 c) = RoundRobin (q\<lparr>rr_queue := rotate m (rr_queue q)\<rparr>)" by blast
  have st1: "started (cpu k1 c)" using k1(2) st by (simp add: keeps_def)
  have ne: "rr_queue q \<noteq> []" using st rr by (auto simp: started_def)
  have h: "hd (rotate m (rr_queue q)) = rr_queue q ! (m mod length (rr_queue q))"
    using ne by (rule hd_rotate_conv_nth)
  obtain k2 where "preempt_irq (clk m) c k1 = returns k2"
    "curr_tid (cpu k2 c) = hd (rotate m (rr_queue q))"
    "sched (cpu k2 c) = RoundRobin (q\<lparr>rr_queue := rotate1 (rotate m (rr_queue q))\<rparr>)"
    "all_awake (cpu k2 c)" "keeps [] k1 k2"
    using preempt_rr_awake [OF keepsD [OF k1(2)] st1 k1(4,3), of "clk m"] by auto
  then show ?case using k1(1,2) keeps_trans h by (intro exI [of _ k2]) auto
qed

section \<open>First come first served\<close>

lemma pick_next_fcfs_stuck:
  assumes "pick_next clk n p = Some r" "sched p = FirstComeFirstServe q" "fcfs_queue q = x # xs"
    "bt_get (task_pool p) x = Some t" "t_state t = Sleeping" "\<And>m. clk m < wakeup_time t"
  shows False
  using assms
proof (induction rule: pick_next.raw_induct [rotated, consumes 1])
  case (1 pn clk n p r)
  have nx: "ops_next_task (sched p) = (Some x, sched p)"
    unfolding 1(3) ops_next_fcfs by (simp add: 1(4))
  have "pn clk (Suc n) (p\<lparr>sched := sched p\<rparr>) = Some r"
    using 1(2,5,6) nx 1(7) [of n] by (simp split: if_splits)
  then show ?case using 1(1) [of clk "Suc n" "p\<lparr>sched := sched p\<rparr>" r] 1(3-7) by simp
qed

lemma pick_next_fcfs_head:
  assumes "sched p = FirstComeFirstServe q" "fcfs_queue q = x # xs"
    "bt_get (task_pool p) x = Some t" "t_state t \<noteq> Sleeping"
  shows "pick_next clk n p = returns (x, p)"
proof -
  have nx: "ops_next_task (sched p) = (Some x, sched p)"
    unfolding assms(1) ops_next_fcfs by (simp add: assms(2))
  show ?thesis using assms(3,4) by (subst pick_next.simps) (simp add: nx)
qed

end
