(* ===== verification/Sched_Props.thy ===== *)
theory Sched_Props
  imports Sched_Policy
begin

text \<open>
  The properties of the scheduler, over the operations of \<open>Scheduler\<close> and \<open>Task_Ops\<close>, with
  their witnesses on a two-CPU machine: CPU 0 runs its worker (task 0) and has task 1
  ready, CPU 1 runs its worker (task 2).
\<close>

section \<open>A two-CPU machine\<close>

definition demo_task :: "usize \<Rightarrow> task_state \<Rightarrow> int \<Rightarrow> task" where
  "demo_task tid s n = task_new\<lparr>t_tid := tid, t_state := s, blocked_count := n\<rparr>"

definition demo_bm :: frames_bitmap where
  "demo_bm = \<lparr>total_frames = 4, free_frames = 3, first_phys_addr = 0,
     last_phys_addr = 16383, bm_base = 0, bm_size = 8, red_zone_start = 0,
     red_zone_end = 4095, bm_words = (\<lambda>_. 0)(0 := 14)\<rparr>"

lemma demo_bm_free: "free_set demo_bm = {1, 2, 3}"
proof -
  have "frame_span demo_bm = 4" by (simp add: frame_span_def demo_bm_def)
  moreover have "frame_free demo_bm k \<longleftrightarrow> k = 1 \<or> k = 2 \<or> k = 3" if "k < 4" for k
  proof -
    have "k = 0 \<or> k = 1 \<or> k = 2 \<or> k = 3" using that by linarith
    then show ?thesis by (elim disjE) (simp_all add: frame_free_def demo_bm_def)
  qed
  ultimately show ?thesis by (auto simp: free_set_def)
qed

lemma demo_bm_ok: "pmm_ok demo_bm"
proof -
  have "pmm_geom_ok demo_bm" by (simp add: pmm_geom_ok_def span_ok_def demo_bm_def)
  moreover have "free_frames demo_bm = card (free_set demo_bm)"
    unfolding demo_bm_free by (simp add: demo_bm_def)
  moreover have "\<forall>k \<in> free_set demo_bm. \<not> in_red_zone demo_bm k"
    unfolding demo_bm_free by (simp add: in_red_zone_def demo_bm_def)
  ultimately show ?thesis by (simp add: pmm_ok_def)
qed

definition rr_of :: "usize list \<Rightarrow> scheduler_ops" where
  "rr_of q = RoundRobin \<lparr>rr_quantum = 200, rr_queue = q\<rparr>"

definition demo_cpus :: "usize \<Rightarrow> percpu" where
  "demo_cpus c =
     (if c = 0 then \<lparr>curr_tid = 1, task_pool = [(0, demo_task 0 Ready 0), (1, demo_task 1 Running 0)],
        sched = rr_of [0, 1]\<rparr>
      else if c = 1 then \<lparr>curr_tid = 2, task_pool = [(2, demo_task 2 Running 0)], sched = rr_of [2]\<rparr>
      else \<lparr>curr_tid = 0, task_pool = [], sched = rr_of []\<rparr>)"

definition demo_kernel :: kernel where
  "demo_kernel = \<lparr>cpu = demo_cpus, default_kstack_size = 4096, next_task_id = 3, msg_queue = [],
     tid_cpu_map = [(0, 0), (1, 0), (2, 1)],
     lbal = [\<lparr>cpuid = 0, num_tasks = 2\<rparr>, \<lparr>cpuid = 1, num_tasks = 1\<rparr>], phys = demo_bm\<rparr>"

lemmas demo_defs = demo_kernel_def demo_cpus_def demo_task_def task_new_def rr_of_def

lemma demo_cpu_ok: "cpu_ok (demo_cpus c)"
  by (auto simp: cpu_ok_def demo_cpus_def entry_ok_def demo_task_def task_new_def rr_of_def bt_ok_def
      split: if_splits)

lemma demo_sys_ok: "sys_ok demo_kernel"
  using demo_cpu_ok by (auto simp: sys_ok_with_def demo_kernel_def bt_ok_def demo_cpus_def)

text \<open>The current task is queued, and it is not the only one.\<close>

definition crowded :: "usize \<Rightarrow> kernel \<Rightarrow> bool" where
  "crowded c k \<longleftrightarrow> started (cpu k c) \<and> (\<exists>u \<in> set (queue (cpu k c)). u \<noteq> curr_tid (cpu k c))"

lemma demo_crowded: "crowded 0 demo_kernel"
  by (simp add: crowded_def started_def demo_defs)

section \<open>The invariant\<close>

text \<open>C9. From a consistent state on, after any sequence of scheduler operations (\<open>sys_step\<close>: timer
  interrupts, blocking, waking, sleeping, exit, spawning, joining, migration, wait channels and
  rounds of the worker), on any CPUs and in any order: every run queue holds exactly the ready,
  running and sleeping tasks of its CPU, each once; no task id is in two pools; the map from tasks
  to CPUs agrees with the pools; a task on its way to another CPU is in no pool; and a CPU that was
  running a queued task still does. The operations are atomic and have returned (a panic stops
  the machine), and no task migrates that has a wake-up pending: with one, the invariant fails.\<close>

theorem scheduler_consistent:
  assumes "(sys_step hook)\<^sup>*\<^sup>* k0 k" and "sys_ok k0"
  shows "sys_ok k
    \<and> (\<forall>c. distinct (queue (cpu k c)) \<and> set (queue (cpu k c)) =
        {tid. \<exists>t. bt_get (pool k c) tid = Some t \<and> t_state t \<in> active_states})
    \<and> (\<forall>c d tid. tid \<in> keys (pool k c) \<and> tid \<in> keys (pool k d) \<longrightarrow> c = d)
    \<and> (\<forall>c tid. tid \<in> keys (pool k c) \<longrightarrow> bt_get (tid_cpu_map k) tid = Some c)
    \<and> (\<forall>c. started (cpu k0 c) \<longrightarrow> started (cpu k c))"
proof -
  have ok: "sys_ok k" and st: "\<forall>c. started (cpu k0 c) \<longrightarrow> started (cpu k c)"
    using reachable_keeps [OF assms] by (simp_all add: keeps_def)
  have q: "distinct (queue (cpu k c)) \<and> set (queue (cpu k c)) =
      {tid. \<exists>t. bt_get (pool k c) tid = Some t \<and> t_state t \<in> active_states}" for c
  proof -
    note c = cpu_okD [OF sys_okD(1) [OF ok, of c]]
    have "tid \<in> set (queue (cpu k c)) \<longleftrightarrow> (\<exists>t. bt_get (pool k c) tid = Some t \<and> t_state t \<in> active_states)" for tid
      using c(3) [of tid] c(4) [of tid] unfolding entry_ok_def by blast
    then show ?thesis using c(2) by blast
  qed
  have m: "bt_get (tid_cpu_map k) tid = Some c" if "tid \<in> keys (pool k c)" for c tid
    using sys_okD(3) [OF ok that] .
  have "c = d" if "tid \<in> keys (pool k c)" "tid \<in> keys (pool k d)" for c d tid
    using m [OF that(1)] m [OF that(2)] by simp
  then show ?thesis using ok st q m by blast
qed

theorem scheduler_consistent_witness:
  "\<exists>k. preempt_irq (\<lambda>_. 0) 0 demo_kernel = returns k \<and> sys_ok k \<and> started (cpu k 0)"
proof -
  have st: "started (cpu demo_kernel 0)" using demo_crowded by (simp add: crowded_def)
  have "all_awake (cpu demo_kernel 0)" by (auto simp: all_awake_def demo_defs split: if_splits)
  then obtain k where k: "preempt_irq (\<lambda>_. 0) 0 demo_kernel = returns k"
    using preempt_rr_awake [OF demo_sys_ok st, of _ "\<lambda>_. 0"] by (auto simp: demo_defs)
  have "sys_step (\<lambda>_ _ b. b) demo_kernel k" using st k by (rule step_timer)
  then have "(sys_step (\<lambda>_ _ b. b))\<^sup>*\<^sup>* demo_kernel k" by simp
  then show ?thesis using scheduler_consistent [OF _ demo_sys_ok] st k by blast
qed

section \<open>The policies\<close>

text \<open>C10. Round robin is fair: when no queued task sleeps, the \<open>m\<close>-th timer interrupt gives
  the CPU to the \<open>m\<close>-th task in queue order, cyclically, whatever the clock reads. So every
  queued task runs within as many interrupts as there are tasks, and \<^verbatim>\<open>preempt_irq\<close> always
  returns.\<close>

theorem round_robin_fair:
  assumes "sys_ok k" and "started (cpu k c)" and "sched (cpu k c) = RoundRobin q"
    and "all_awake (cpu k c)"
  shows "\<exists>k'. timer_irqs clk (Suc m) c k = returns k' \<and> sys_ok k'
    \<and> curr_tid (cpu k' c) = rr_queue q ! (m mod length (rr_queue q))
    \<and> queue (cpu k' c) = rotate (Suc m) (rr_queue q)"
proof -
  obtain k' where k': "timer_irqs clk (Suc m) c k = returns k'" "keeps [] k k'"
    "sched (cpu k' c) = RoundRobin (q\<lparr>rr_queue := rotate (Suc m) (rr_queue q)\<rparr>)"
    "curr_tid (cpu k' c) = rr_queue q ! (m mod length (rr_queue q))"
    using timer_irqs_rr [OF assms, of clk "Suc m"] by auto
  then show ?thesis using keepsD [OF k'(2)] by (intro exI [of _ k']) simp
qed

theorem round_robin_fair_witness:
  "\<exists>k'. timer_irqs (\<lambda>_ _. 0) 2 0 demo_kernel = returns k' \<and> curr_tid (cpu k' 0) = 1
     \<and> queue (cpu k' 0) = [0, 1]"
proof -
  have st: "started (cpu demo_kernel 0)" using demo_crowded by (simp add: crowded_def)
  have aw: "all_awake (cpu demo_kernel 0)" by (auto simp: all_awake_def demo_defs split: if_splits)
  have rr: "sched (cpu demo_kernel 0) = RoundRobin \<lparr>rr_quantum = 200, rr_queue = [0, 1]\<rparr>"
    by (simp add: demo_defs)
  show ?thesis
    using round_robin_fair [OF demo_sys_ok st rr aw, of "\<lambda>_ _. 0" 1]
    by (auto simp: numeral_2_eq_2)
qed

text \<open>With sleeping tasks in the queue, round robin still returns as long as one task is
  awake (the worker is): it takes the first task in queue order that is awake, or whose
  wake-up time has come at the clock reading made for it, and the queue rotates past it. No
  task is lost, and the choice is runnable.\<close>

theorem round_robin_skips_sleepers:
  assumes "sys_ok k" and "started (cpu k c)" and "sched (cpu k c) = RoundRobin q"
    and "n < length (rr_queue q)" and "bt_get (pool k c) (rr_queue q ! n) = Some w" and "t_state w \<noteq> Sleeping"
  shows "\<exists>j k' t. j \<le> n \<and> due clk j (cpu k c) (rr_queue q ! j)
    \<and> (\<forall>i < j. \<not> due clk i (cpu k c) (rr_queue q ! i))
    \<and> preempt_irq clk c k = returns k' \<and> curr_tid (cpu k' c) = rr_queue q ! j
    \<and> queue (cpu k' c) = rotate (Suc j) (rr_queue q)
    \<and> bt_get (pool k' c) (rr_queue q ! j) = Some t \<and> runnable t \<and> sys_ok k'"
proof -
  have "due clk i (cpu k c) (rr_queue q ! n)" for i using assms(5,6) by (simp add: due_def)
  then obtain j where j: "j \<le> n" "due clk j (cpu k c) (rr_queue q ! j)"
    "\<forall>i < j. \<not> due clk i (cpu k c) (rr_queue q ! i)"
    using first_due [of n "rr_queue q" clk "cpu k c"] assms(4) by blast
  have jl: "j < length (rr_queue q)" using j(1) assms(4) by simp
  obtain k' t where k': "preempt_irq clk c k = returns k'" "curr_tid (cpu k' c) = rr_queue q ! j"
    "sched (cpu k' c) = RoundRobin (q\<lparr>rr_queue := rotate (Suc j) (rr_queue q)\<rparr>)"
    "bt_get (pool k' c) (rr_queue q ! j) = Some t" "runnable t"
    using preempt_rr [OF sys_okD(1) [OF assms(1)] assms(2,3) jl j(2,3)] by blast
  have "sys_ok k'" using keepsD [OF keeps_timer [OF assms(1,2) k'(1)]] .
  then show ?thesis using j k' by (intro exI [of _ j] exI [of _ k'] exI [of _ t]) simp
qed

definition demo_sleeper :: kernel where
  "demo_sleeper = demo_kernel\<lparr>cpu := demo_cpus(0 := \<lparr>curr_tid = 0,
     task_pool = [(0, demo_task 0 Running 0), (1, (demo_task 1 Sleeping 0)\<lparr>wakeup_time := 500\<rparr>)],
     sched = rr_of [1, 0]\<rparr>)\<rparr>"

lemma demo_sleeper_ok: "sys_ok demo_sleeper" "started (cpu demo_sleeper 0)"
proof -
  have "cpu_ok (cpu demo_sleeper c)" for c
    using demo_cpu_ok [of c] by (auto simp: cpu_ok_def demo_sleeper_def entry_ok_def demo_task_def
        task_new_def rr_of_def bt_ok_def)
  then show "sys_ok demo_sleeper"
    by (auto simp: sys_ok_with_def demo_sleeper_def demo_kernel_def bt_ok_def demo_cpus_def)
  show "started (cpu demo_sleeper 0)" by (simp add: demo_sleeper_def started_def rr_of_def)
qed

theorem round_robin_skips_sleepers_witness:
  "\<exists>k'. preempt_irq (\<lambda>_. 7) 0 demo_sleeper = returns k' \<and> curr_tid (cpu k' 0) = 0
     \<and> queue (cpu k' 0) = [1, 0]"
proof -
  have rr: "sched (cpu demo_sleeper 0) = RoundRobin \<lparr>rr_quantum = 200, rr_queue = [1, 0]\<rparr>"
    by (simp add: demo_sleeper_def rr_of_def)
  have w: "bt_get (pool demo_sleeper 0) ([1, 0] ! 1) = Some (demo_task 0 Running 0)"
    by (simp add: demo_sleeper_def)
  have nd: "\<not> due (\<lambda>_. 7) 0 (cpu demo_sleeper 0) 1" by (simp add: due_def demo_sleeper_def demo_task_def)
  obtain j k' where j: "j \<le> 1" "due (\<lambda>_. 7) j (cpu demo_sleeper 0) ([1, 0] ! j)"
    "preempt_irq (\<lambda>_. 7) 0 demo_sleeper = returns k'" "curr_tid (cpu k' 0) = [1, 0] ! j"
    "queue (cpu k' 0) = rotate (Suc j) [1, 0]"
    using round_robin_skips_sleepers [OF demo_sleeper_ok rr, of 1 "demo_task 0 Running 0" "\<lambda>_. 7"] w
    by (auto simp: demo_task_def)
  have "j \<noteq> 0"
  proof
    assume "j = 0"
    then show False using j(2) nd by simp
  qed
  then have "j = 1" using j(1) by simp
  then show ?thesis using j(3-5) by (intro exI [of _ k']) simp
qed

text \<open>First come first served never skips a sleeping head: while its wake-up time has not
  come, \<^verbatim>\<open>preempt_irq\<close> does not return, however many other tasks are ready.\<close>

theorem fcfs_sleeping_head_spins:
  assumes "sched (cpu k c) = FirstComeFirstServe q" and "fcfs_queue q = x # xs"
    and "bt_get (pool k c) x = Some t" and "t_state t = Sleeping" and "\<forall>n. clk n < wakeup_time t"
  shows "preempt_irq clk c k = None"
proof -
  have "pick_next clk 0 (cpu k c) = None"
  proof (cases "pick_next clk 0 (cpu k c)")
    case (Some r)
    then show ?thesis using pick_next_fcfs_stuck [OF Some assms(1-4)] assms(5) by blast
  qed
  then show ?thesis by (simp add: preempt_irq_def Let_def)
qed

theorem fcfs_sleeping_head_spins_witness:
  "preempt_irq (\<lambda>_. 7) 0 (map_sched 0 (\<lambda>_. FirstComeFirstServe \<lparr>fcfs_queue = [1, 0]\<rparr>) demo_sleeper) = None"
  by (rule fcfs_sleeping_head_spins [of _ _ "\<lparr>fcfs_queue = [1, 0]\<rparr>" 1 "[0]"
        "(demo_task 1 Sleeping 0)\<lparr>wakeup_time := 500\<rparr>"])
    (simp_all add: map_sched_def demo_sleeper_def demo_task_def)


section \<open>Blocking and waking\<close>

text \<open>No wake-up is lost: a wake-up that arrives at a task's CPU before the task blocks
  makes that \<^verbatim>\<open>block\<close> return at once, with the whole state as it was before both.\<close>

theorem early_wakeup_cancels_block:
  assumes "sys_ok k" and "bt_get (tid_cpu_map k) tid = Some c" and "bt_get (pool k c) tid = Some t"
    and "t_state t \<noteq> Sleeping" and "blocked_count t \<le> 0"
  shows "and_then (unblock_task c tid k) (block_task clk c tid) = returns k"
proof -
  let ?t = "t\<lparr>blocked_count := blocked_count t - 1\<rparr>"
  have u: "unblock_task c tid k = returns (put_task c tid ?t k)"
    using assms by (simp add: unblock_task_def)
  have b: "block_task clk c tid (put_task c tid ?t k) = returns (put_task c tid t k)"
    using assms(5) by (simp add: block_task_def put_task_eq)
  have "bt_insert tid t (pool k c) = pool k c"
    using cpu_okD(1) [OF sys_okD(1) [OF assms(1)]] assms(3) by (rule bt_insert_id)
  then have "put_task c tid t k = k" by (simp add: put_task_def put_cpu_def)
  then show ?thesis using u b by simp
qed

theorem early_wakeup_cancels_block_witness:
  "and_then (unblock_task 0 1 demo_kernel) (block_task (\<lambda>_. 0) 0 1) = returns demo_kernel"
  by (rule early_wakeup_cancels_block [OF demo_sys_ok, of _ _ "demo_task 1 Running 0"])
    (simp_all add: demo_defs)

text \<open>C11. The hand-shake of a running task under round robin, with no queued task sleeping, another task
  in the queue, and no wake-up pending: \<^verbatim>\<open>block\<close> takes it off the queue and gives the CPU to the next
  task in queue order; the wake-up that follows makes it ready at the end of the queue, with the
  count of pending wake-ups back at 0.\<close>

theorem block_then_wake:
  assumes "sys_ok k" and "crowded c k" and "sched (cpu k c) = RoundRobin q" and "all_awake (cpu k c)"
    and "bt_get (pool k c) (curr_tid (cpu k c)) = Some t" and "blocked_count t = 0"
  shows "\<exists>k1 k2 x xs t2. block_task clk c (curr_tid (cpu k c)) k = returns k1 \<and> sys_ok k1
    \<and> filter (\<lambda>u. u \<noteq> curr_tid (cpu k c)) (rr_queue q) = x # xs
    \<and> curr_tid (cpu k1 c) = x \<and> queue (cpu k1 c) = xs @ [x]
    \<and> unblock_task c (curr_tid (cpu k c)) k1 = returns k2 \<and> sys_ok k2
    \<and> curr_tid (cpu k2 c) = x \<and> queue (cpu k2 c) = xs @ [x, curr_tid (cpu k c)]
    \<and> bt_get (pool k2 c) (curr_tid (cpu k c)) = Some t2 \<and> t_state t2 = Ready \<and> blocked_count t2 = 0"
proof -
  let ?tid = "curr_tid (cpu k c)"
  have okc: "cpu_ok (cpu k c)" by (rule sys_okD(1) [OF assms(1)])
  have st: "started (cpu k c)" and oth: "\<exists>u \<in> set (rr_queue q). u \<noteq> ?tid"
    using assms(2,3) by (auto simp: crowded_def)
  have e: "entry_ok True ?tid t" using cpu_okD(4) [OF okc assms(5)] st by (simp add: started_def)
  have nm: "t_state t \<noteq> Migrating" using e by (auto simp: entry_ok_def)
  obtain x xs where f: "filter (\<lambda>u. u \<noteq> ?tid) (rr_queue q) = x # xs"
    using oth by (cases "filter (\<lambda>u. u \<noteq> ?tid) (rr_queue q)") (auto simp: filter_empty_conv)
  let ?t = "t\<lparr>blocked_count := 1, t_state := Blocked\<rparr>"
  let ?k = "map_sched c (ops_rem_task ?tid) (put_task c ?tid ?t k)"
  let ?q = "q\<lparr>rr_queue := x # xs\<rparr>"
  have blk: "block_task clk c ?tid k = preempt_irq clk c ?k"
    using assms(5,6) nm by (simp add: block_task_def)
  have sch: "sched (cpu ?k c) = RoundRobin ?q"
    using assms(3) f by (simp add: map_sched_def put_task_eq rr_rem_task_def)
  have poolk: "pool ?k c = bt_insert ?tid ?t (pool k c)" by (simp add: map_sched_def put_task_eq)
  have xq: "x \<in> set (rr_queue q)" "x \<noteq> ?tid" using f by (auto simp: filter_eq_Cons_iff)
  obtain tx where tx: "bt_get (pool k c) x = Some tx" using cpu_okD(3) [OF okc, of x] xq assms(3) by auto
  have txs: "t_state tx \<noteq> Sleeping" "runnable tx" "t_tid tx = x"
  proof -
    show "t_state tx \<noteq> Sleeping" using assms(4) tx by (auto simp: all_awake_def)
    then show "runnable tx" "t_tid tx = x"
      using cpu_okD(4) [OF okc tx] xq assms(3) by (auto simp: entry_ok_def runnable_def)
  qed
  have due: "due clk 0 (cpu ?k c) (rr_queue ?q ! 0)" using tx xq txs by (simp add: due_def poolk)
  have pn: "pick_next clk 0 (cpu ?k c) = returns (x,
      (cpu ?k c)\<lparr>sched := RoundRobin (?q\<lparr>rr_queue := xs @ [x]\<rparr>)\<rparr>)"
  proof -
    have nx: "ops_next_task (sched (cpu ?k c)) = (Some x, RoundRobin (?q\<lparr>rr_queue := xs @ [x]\<rparr>))"
      unfolding sch ops_next_rr by simp
    show ?thesis by (subst pick_next.simps) (use nx tx xq txs poolk in simp)
  qed
  let ?p1 = "(cpu ?k c)\<lparr>sched := RoundRobin (?q\<lparr>rr_queue := xs @ [x]\<rparr>), curr_tid := x,
      task_pool := bt_insert x (tx\<lparr>t_state := Running\<rparr>) (bt_insert ?tid ?t (pool k c))\<rparr>"
  have ct: "curr_tid (cpu ?k c) = ?tid" by (simp add: map_sched_def put_task_eq)
  have tt: "t_tid ?t = ?tid" using e by (simp add: entry_ok_def)
  have pre: "preempt_irq clk c ?k = returns (put_cpu c ?p1 ?k)"
    unfolding preempt_irq_def Let_def pn and_then_simps prod.case ct
    using tx xq txs tt by (simp add: poolk)
  let ?k1 = "put_cpu c ?p1 ?k"
  have b1: "block_task clk c ?tid k = returns ?k1" using blk pre by simp
  have ok1: "sys_ok ?k1" using keepsD [OF keeps_block [OF assms(1) st b1]] .
  have map1: "tid_cpu_map ?k1 = tid_cpu_map k" by (simp add: map_sched_def put_task_eq)
  have tm: "bt_get (tid_cpu_map ?k1) ?tid = Some c"
    unfolding map1 using assms(5) by (intro sys_okD(3) [OF assms(1)]) (simp add: key_iff)
  have g1: "bt_get (pool ?k1 c) ?tid = Some ?t" using xq by simp
  let ?t2 = "?t\<lparr>blocked_count := 0, t_state := Ready\<rparr>"
  let ?k2 = "map_sched c (ops_add_task ?tid) (put_task c ?tid ?t2 ?k1)"
  have u: "unblock_task c ?tid ?k1 = returns ?k2" using tm g1 by (simp add: unblock_task_def)
  have ok2: "sys_ok ?k2" using keepsD [OF keeps_unblock [OF ok1 u]] .
  have q2: "queue (cpu ?k2 c) = xs @ [x, ?tid]" "curr_tid (cpu ?k2 c) = x"
    "bt_get (pool ?k2 c) ?tid = Some ?t2"
    by (simp_all add: map_sched_def put_task_eq rr_add_task_def)
  have q1: "queue (cpu ?k1 c) = xs @ [x]" "curr_tid (cpu ?k1 c) = x" by simp_all
  show ?thesis
    using b1 ok1 f q1 u ok2 q2
    by (intro exI [of _ ?k1] exI [of _ ?k2] exI [of _ x] exI [of _ xs] exI [of _ ?t2]) simp
qed

theorem block_then_wake_witness:
  "\<exists>k1 k2. block_task (\<lambda>_. 0) 0 1 demo_kernel = returns k1 \<and> queue (cpu k1 0) = [0]
     \<and> unblock_task 0 1 k1 = returns k2 \<and> queue (cpu k2 0) = [0, 1]"
proof -
  have aw: "all_awake (cpu demo_kernel 0)" by (auto simp: all_awake_def demo_defs split: if_splits)
  have rr: "sched (cpu demo_kernel 0) = RoundRobin \<lparr>rr_quantum = 200, rr_queue = [0, 1]\<rparr>"
    and cur: "curr_tid (cpu demo_kernel 0) = 1" by (simp_all add: demo_defs)
  show ?thesis
    using block_then_wake [OF demo_sys_ok demo_crowded rr aw, of "demo_task 1 Running 0" "\<lambda>_. 0"]
    unfolding cur by (auto simp: demo_defs)
qed

end
