(* ===== verification/Sched_Props2.thy ===== *)
theory Sched_Props2
  imports Sched_Props
begin

text \<open>
  Further properties of the scheduler: creation and disposal of tasks, messages between
  CPUs, the load balancer, wait channels, and two ways in which a migrating task breaks it.
\<close>

section \<open>Stacks\<close>

lemma stack_alloc_run:
  assumes ok: "pmm_ok (phys k)" and n: "0 < n" and run: "run_at (phys k) j n"
  shows "\<exists>b. stack_alloc n k = Some (Some (PHY_FRAME_SIZE * first_run (phys k) n, umul n PHY_FRAME_SIZE div 8),
      k\<lparr>phys := b\<rparr>)
    \<and> pm_take (phys k) {first_run (phys k) n..<first_run (phys k) n + n} b
    \<and> umul (umul n PHY_FRAME_SIZE div 8) 8 div PHY_FRAME_SIZE = n
    \<and> first_run (phys k) n + n \<le> frame_span (phys k)"
proof -
  let ?f = "first_run (phys k) n"
  let ?b = "mark_frames (phys k) [?f..<?f + n] True"
  have a: "alloc_continuous (phys k) n = Some (Inr (PHY_FRAME_SIZE * ?f), ?b)"
    using alloc_continuous_spec [OF ok n] run by auto
  have t: "pm_take (phys k) {?f..<?f + n} ?b" using pm_take.take_continuous [OF a n] by simp
  have s: "?f + n \<le> frame_span (phys k)" using run_at_span [OF first_run_run [OF run] n] .
  then have "PHY_FRAME_SIZE * n \<le> PHY_FRAME_SIZE * frame_span (phys k)" by simp
  then have lt: "n * PHY_FRAME_SIZE < usize_span"
    using frame_span_bound [OF pmm_ok_geom [OF ok]] by linarith
  have u: "umul n PHY_FRAME_SIZE = n * PHY_FRAME_SIZE" by (rule umul_exact [OF lt])
  have w: "n * PHY_FRAME_SIZE div 8 = n * 512"
    using div_mult_self_is_m [of 8 "n * 512"] by (simp add: mult.assoc)
  have "umul (n * 512) 8 = n * PHY_FRAME_SIZE"
    using umul_exact [of "n * 512" 8] lt by (simp add: mult.assoc)
  then have "umul (umul n PHY_FRAME_SIZE div 8) 8 div PHY_FRAME_SIZE = n" unfolding u w by simp
  then show ?thesis using a t s by (auto simp: stack_alloc_def)
qed

text \<open>C12. Creating a task when enough contiguous frames are free: the task is ready at the end
  of its CPU's queue under the next id, its stack is \<open>n\<close> frames taken from the physical
  memory manager; and when the task is finally dropped, exactly these frames come back.\<close>

theorem task_stack_roundtrip:
  assumes "sys_ok k" and "pmm_ok (phys k)" and "0 < n" and "run_at (phys k) j n"
    and "next_task_id k + 1 < usize_span"
  shows "\<exists>k1 t. create_task c func arg n name k = Some (next_task_id k, k1) \<and> sys_ok k1 \<and> pmm_ok (phys k1)
    \<and> bt_get (pool k1 c) (next_task_id k) = Some t \<and> t_state t = Ready \<and> kstack_pages t = n
    \<and> queue (cpu k1 c) = queue (cpu k c) @ [next_task_id k]
    \<and> bt_get (tid_cpu_map k1) (next_task_id k) = Some c
    \<and> {frame_of (kstack_base t)..<frame_of (kstack_base t) + n} \<subseteq> free_set (phys k)
    \<and> free_set (phys k1) = free_set (phys k) - {frame_of (kstack_base t)..<frame_of (kstack_base t) + n}
    \<and> (\<exists>k3. drop_task hook c (t\<lparr>t_state := Terminating\<rparr>) k1 = returns k3 \<and> pmm_ok (phys k3)
         \<and> free_set (phys k3) = free_set (phys k))"
proof -
  let ?f = "first_run (phys k) n"
  obtain b where sa: "stack_alloc n k = Some (Some (PHY_FRAME_SIZE * ?f, umul n PHY_FRAME_SIZE div 8), k\<lparr>phys := b\<rparr>)"
    and tk: "pm_take (phys k) {?f..<?f + n} b" and pg: "umul (umul n PHY_FRAME_SIZE div 8) 8 div PHY_FRAME_SIZE = n"
    and sp: "?f + n \<le> frame_span (phys k)"
    using stack_alloc_run [OF assms(2-4)] by blast
  obtain k1 where cr: "create_task c func arg n name k = Some (next_task_id k, k1)"
    using sa by (simp add: create_task_def Let_def)
  obtain b' t where t: "t_tid t = next_task_id k" "t_state t = Ready" "t_pid t = 0" "joiners t = []"
    "stack_alloc n k = Some (Some (kstack_base t, umul n PHY_FRAME_SIZE div 8), k\<lparr>phys := b'\<rparr>)"
    "kstack_pages t = umul (umul n PHY_FRAME_SIZE div 8) 8 div PHY_FRAME_SIZE"
    and k1: "k1 = (put_cpu c ((cpu k c)\<lparr>task_pool := bt_insert (next_task_id k) t (pool k c),
        sched := ops_add_task (next_task_id k) (sched (cpu k c))\<rparr>) k)
      \<lparr>next_task_id := uadd (next_task_id k) 1, tid_cpu_map := bt_insert (next_task_id k) c (tid_cpu_map k),
       lbal := lb_add_task c (lbal k), phys := b'\<rparr>"
    by (rule create_task_result [OF cr]) (use sa in auto)
  have base: "kstack_base t = PHY_FRAME_SIZE * ?f" using t(5) sa by simp
  have b': "b' = b"
  proof -
    have "k\<lparr>phys := b'\<rparr> = k\<lparr>phys := b\<rparr>" using t(5) sa by simp
    then have "phys (k\<lparr>phys := b'\<rparr>) = phys (k\<lparr>phys := b\<rparr>)" by (simp only:)
    then show ?thesis by simp
  qed
  have ph: "phys k1 = b" by (simp add: k1 b')
  note take = pm_take_facts [OF tk assms(2)]
  let ?t = "t\<lparr>t_state := Terminating\<rparr>"
  let ?k3 = "k1\<lparr>phys := free_continuous b (PHY_FRAME_SIZE * ?f) n\<rparr>"
  have dr: "drop_task hook c ?t k1 = returns ?k3"
    using t(3,4,6) pg by (simp add: drop_task_def task_dropped_def ph base Let_def)
  have "?f + n \<le> frame_span b" using sp take by (simp add: frame_span_def geometry_def)
  then have g: "pm_give b {?f..<?f + n} (phys ?k3)" using pm_give.give_continuous by simp
  have restored: "pmm_ok (phys ?k3) \<and> free_set (phys ?k3) = free_set (phys k)"
    using pm.take_give_restores [OF assms(2) tk g] by blast
  have fb: "frame_of (kstack_base t) = ?f" by (simp add: base)
  have pages: "kstack_pages t = n" using t(6) pg by simp
  have ok1: "sys_ok k1" using keepsD [OF keeps_create [OF assms(1) cr assms(5)]] .
  have new: "bt_get (pool k1 c) (next_task_id k) = Some t" "bt_get (tid_cpu_map k1) (next_task_id k) = Some c"
    "queue (cpu k1 c) = queue (cpu k c) @ [next_task_id k]"
    by (simp_all add: k1 ops.items_add)
  show ?thesis
    by (intro exI [of _ k1] exI [of _ t] conjI cr ok1 new t(2) pages exI [of _ ?k3] dr)
      (use take restored in \<open>simp_all add: ph fb\<close>)
qed

theorem task_stack_roundtrip_witness:
  "\<exists>k1 t k3. create_task 0 77 5 2 ''shell'' demo_kernel = Some (3, k1) \<and> queue (cpu k1 0) = [0, 1, 3]
     \<and> bt_get (pool k1 0) 3 = Some t \<and> free_set (phys k1) \<subset> {1, 2, 3}
     \<and> drop_task (\<lambda>_ _ b. b) 0 (t\<lparr>t_state := Terminating\<rparr>) k1 = returns k3 \<and> free_set (phys k3) = {1, 2, 3}"
proof -
  have f: "phys demo_kernel = demo_bm" "next_task_id demo_kernel = 3" "queue (cpu demo_kernel 0) = [0, 1]"
    by (simp_all add: demo_defs)
  have r: "run_at (phys demo_kernel) 1 2" by (auto simp: f run_at_def demo_bm_free)
  obtain k1 t k3 where k: "create_task 0 77 5 2 ''shell'' demo_kernel = Some (3, k1)" "queue (cpu k1 0) = [0, 1, 3]"
     "bt_get (pool k1 0) 3 = Some t"
     "{frame_of (kstack_base t)..<frame_of (kstack_base t) + 2} \<subseteq> free_set demo_bm"
     "free_set (phys k1) = free_set demo_bm - {frame_of (kstack_base t)..<frame_of (kstack_base t) + 2}"
     "drop_task (\<lambda>_ _ b. b) 0 (t\<lparr>t_state := Terminating\<rparr>) k1 = returns k3" "free_set (phys k3) = free_set demo_bm"
    using task_stack_roundtrip [OF demo_sys_ok _ _ r, of 0 77 5 "''shell''" "\<lambda>_ _ b. b"] demo_bm_ok
    unfolding f by auto
  have "frame_of (kstack_base t) \<in> free_set demo_bm - free_set (phys k1)" using k(4,5) by auto
  then have "free_set (phys k1) \<subset> free_set demo_bm" using k(5) by blast
  then show ?thesis using k unfolding demo_bm_free by blast
qed

section \<open>Joining\<close>

lemma unblock_all_ready:
  assumes "distinct js"
    "\<And>j. j \<in> set js \<Longrightarrow> bt_get (tid_cpu_map k) j = Some c
       \<and> (\<exists>t. bt_get (pool k c) j = Some t \<and> t_state t \<noteq> Sleeping \<and> blocked_count t = 1)"
  shows "\<exists>k'. unblock_all c js k = returns k' \<and> queue (cpu k' c) = queue (cpu k c) @ js
    \<and> (\<forall>j \<in> set js. \<exists>t. bt_get (pool k' c) j = Some t \<and> t_state t = Ready)
    \<and> (\<forall>u. u \<notin> set js \<longrightarrow> bt_get (pool k' c) u = bt_get (pool k c) u)
    \<and> tid_cpu_map k' = tid_cpu_map k \<and> phys k' = phys k"
  using assms
proof (induction js arbitrary: k)
  case (Cons j js)
  obtain t where t: "bt_get (tid_cpu_map k) j = Some c" "bt_get (pool k c) j = Some t"
    "t_state t \<noteq> Sleeping" "blocked_count t = 1" using Cons.prems(2) [of j] by auto
  let ?t = "t\<lparr>blocked_count := 0, t_state := Ready\<rparr>"
  let ?k = "map_sched c (ops_add_task j) (put_task c j ?t k)"
  have u: "unblock_task c j k = returns ?k" using t by (simp add: unblock_task_def)
  have f: "queue (cpu ?k c) = queue (cpu k c) @ [j]" "pool ?k c = bt_insert j ?t (pool k c)"
    "tid_cpu_map ?k = tid_cpu_map k" "phys ?k = phys k"
    by (simp_all add: map_sched_def put_task_eq ops.items_add)
  have "\<exists>k'. unblock_all c js ?k = returns k' \<and> queue (cpu k' c) = queue (cpu ?k c) @ js
    \<and> (\<forall>j \<in> set js. \<exists>t. bt_get (pool k' c) j = Some t \<and> t_state t = Ready)
    \<and> (\<forall>u. u \<notin> set js \<longrightarrow> bt_get (pool k' c) u = bt_get (pool ?k c) u)
    \<and> tid_cpu_map k' = tid_cpu_map ?k \<and> phys k' = phys ?k"
    using Cons.prems by (intro Cons.IH) (auto simp: f)
  then show ?case using u Cons.prems(1) unfolding f by fastforce
qed simp

text \<open>C13. Joining ends: when the worker's scan finds a terminated task, the round removes it
  from the pool and from the map, and every task of this CPU that is blocked in its list of
  joiners becomes ready, in the order in which they joined.\<close>

theorem reap_wakes_joiners:
  assumes "sys_ok k" and "worker_scan (pool k c) (0, False, False) = (tid, True, mv)"
    and "tid \<noteq> curr_tid (cpu k c)" and "bt_get (pool k c) tid = Some t"
    and "distinct (joiners t)"
    and "\<forall>j \<in> set (joiners t). \<exists>u. bt_get (pool k c) j = Some u \<and> t_state u = Blocked"
  shows "\<exists>k'. worker_reap hook c k = returns k' \<and> sys_ok k' \<and> \<not> task_exists tid k'
    \<and> bt_get (pool k' c) tid = None \<and> queue (cpu k' c) = queue (cpu k c) @ joiners t
    \<and> (\<forall>j \<in> set (joiners t). \<exists>u. bt_get (pool k' c) j = Some u \<and> t_state u = Ready)"
proof -
  have okc: "cpu_ok (cpu k c)" by (rule sys_okD(1) [OF assms(1)])
  have dying: "t_state t = Terminating"
    using worker_scan_found(1) [OF assms(2) cpu_okD(1) [OF okc]] assms(4) by auto
  let ?k1 = "put_cpu c ((cpu k c)\<lparr>task_pool := bt_remove tid (pool k c)\<rparr>) k"
  have js: "bt_get (tid_cpu_map ?k1) j = Some c
       \<and> (\<exists>u. bt_get (pool ?k1 c) j = Some u \<and> t_state u \<noteq> Sleeping \<and> blocked_count u = 1)"
    if jt: "j \<in> set (joiners t)" for j
  proof -
    obtain u where u: "bt_get (pool k c) j = Some u" "t_state u = Blocked" using assms(6) jt by blast
    have "j \<noteq> tid" using u assms(4) dying by auto
    moreover have "blocked_count u = 1" using cpu_okD(4) [OF okc u(1)] u(2) by (simp add: entry_ok_def)
    moreover have "bt_get (tid_cpu_map k) j = Some c"
      using u(1) by (intro sys_okD(3) [OF assms(1)]) (simp add: key_iff)
    ultimately show ?thesis using u by simp
  qed
  obtain k2 where k2: "unblock_all c (joiners t) ?k1 = returns k2"
    "queue (cpu k2 c) = queue (cpu k c) @ joiners t"
    "\<forall>j \<in> set (joiners t). \<exists>t. bt_get (pool k2 c) j = Some t \<and> t_state t = Ready"
    "\<forall>u. u \<notin> set (joiners t) \<longrightarrow> bt_get (pool k2 c) u = bt_get (pool ?k1 c) u"
    "tid_cpu_map k2 = tid_cpu_map ?k1"
    using unblock_all_ready [OF assms(5) js] by auto
  have nt: "tid \<notin> set (joiners t)" using assms(4,6) dying by auto
  define k3 where "k3 = (task_dropped hook (t_pid t) (t_tid t) k2)\<lparr>phys :=
      free_continuous (phys (task_dropped hook (t_pid t) (t_tid t) k2)) (kstack_base t) (kstack_pages t)\<rparr>"
  have dr: "drop_task hook c t ?k1 = returns k3" using dying k2(1) by (simp add: drop_task_def k3_def Let_def)
  have k3: "cpu k3 = cpu k2" "tid_cpu_map k3 = tid_cpu_map k2" by (simp_all add: k3_def task_dropped_def)
  let ?k' = "k3\<lparr>tid_cpu_map := bt_remove tid (tid_cpu_map k3)\<rparr>"
  have r: "worker_reap hook c k = returns ?k'"
    using assms(2-4) dr by (simp add: worker_reap_def)
  have "bt_get (pool k2 c) tid = None" using k2(4) nt by simp
  then show ?thesis
    using r keeps_reap [OF assms(1) r] k2(2,3) keepsD
    by (intro exI [of _ ?k']) (auto simp: k3 task_exists_def)
qed

definition demo_joined :: kernel where
  "demo_joined = demo_kernel\<lparr>cpu := demo_cpus(0 := \<lparr>curr_tid = 0,
     task_pool = [(0, demo_task 0 Running 0), (1, (demo_task 1 Terminating 0)\<lparr>joiners := [4]\<rparr>), (4, demo_task 4 Blocked 1)],
     sched = rr_of [0]\<rparr>), tid_cpu_map := [(0, 0), (1, 0), (2, 1), (4, 0)], next_task_id := 5\<rparr>"

lemma demo_joined_ok: "sys_ok demo_joined"
proof -
  have "cpu_ok (cpu demo_joined c)" for c
    using demo_cpu_ok [of c] by (auto simp: cpu_ok_def demo_joined_def entry_ok_def demo_task_def
        task_new_def rr_of_def bt_ok_def split: if_splits)
  then show ?thesis
    by (auto simp: sys_ok_with_def demo_joined_def demo_kernel_def bt_ok_def demo_cpus_def)
qed

theorem reap_wakes_joiners_witness:
  "\<exists>k'. worker_reap (\<lambda>_ _ b. b) 0 demo_joined = returns k' \<and> \<not> task_exists 1 k' \<and> queue (cpu k' 0) = [0, 4]"
proof -
  let ?t = "(demo_task 1 Terminating 0)\<lparr>joiners := [4]\<rparr>"
  have s: "worker_scan (pool demo_joined 0) (0, False, False) = (1, True, False)"
    "bt_get (pool demo_joined 0) 1 = Some ?t" "curr_tid (cpu demo_joined 0) = 0" "queue (cpu demo_joined 0) = [0]"
    "joiners ?t = [4]"
    by (simp_all add: demo_joined_def demo_task_def rr_of_def)
  have b: "\<exists>u. bt_get (pool demo_joined 0) 4 = Some u \<and> t_state u = Blocked"
    by (simp add: demo_joined_def demo_task_def)
  show ?thesis
    using reap_wakes_joiners [OF demo_joined_ok s(1) _ s(2), of "\<lambda>_ _ b. b"] s(3-5) b by auto
qed

end
