(* ===== verification/Inflate.thy ===== *)
theory Inflate
  imports Fallible
begin

text \<open>
  The zlib decoder of the run-time library, \<^verbatim>\<open>programs/rtlib/src/zlib.rs\<close>: the bit reader,
  the construction of Huffman look-up tables, and the decoding of stored, fixed and dynamic
  DEFLATE blocks.

  The vector \<^verbatim>\<open>out\<close> that the methods receive by mutable reference travels in the state, in
  the field \<open>out_vec\<close>. The counter \<^verbatim>\<open>bitcnt\<close> is a \<^verbatim>\<open>u8\<close> and wraps at 256; a shift of a
  32-bit word uses its amount modulo 32. A code length (\<^verbatim>\<open>u8\<close>, never changed by arithmetic) is
  a natural number, and an entry of a symbol table (\<^verbatim>\<open>i32\<close>) an integer.
\<close>

section \<open>State\<close>

record zlib_decoder =
  input :: "u8 list"
  pos :: usize
  bitbuf :: u32
  bitcnt :: nat
  finished :: bool
  out_vec :: "u8 list"

type_synonym 'a zop = "(zlib_decoder, 'a) fallible"

definition zlib_new :: "u8 list \<Rightarrow> zlib_decoder" where
  "zlib_new inp = \<lparr>input = inp, pos = 0, bitbuf = 0, bitcnt = 0, finished = False, out_vec = []\<rparr>"

text \<open>\<^verbatim>\<open>out.push(b)\<close>.\<close>

definition push_out :: "u8 \<Rightarrow> zlib_decoder \<Rightarrow> zlib_decoder" where
  "push_out b z = z\<lparr>out_vec := out_vec z @ [b]\<rparr>"

section \<open>Bit-level helpers\<close>

definition read_byte :: "u8 zop" where
  "read_byte z =
     (if pos z \<ge> length (input z) then throw UnexpectedEoF z
      else succeed (input z ! pos z) (z\<lparr>pos := pos z + 1\<rparr>))"

text \<open>One turn of the loop in \<^verbatim>\<open>ensure_bits\<close>: the byte goes above the bits already there.\<close>

definition add_byte :: "u8 \<Rightarrow> zlib_decoder \<Rightarrow> zlib_decoder" where
  "add_byte b z = z\<lparr>bitbuf := bitbuf z OR push_bit (bitcnt z mod 32) (ucast b),
                    bitcnt := (bitcnt z + 8) mod 256\<rparr>"

function ensure_bits :: "nat \<Rightarrow> unit zop" where
  "ensure_bits n z =
     (if bitcnt z < n then try_then read_byte (\<lambda>b z. ensure_bits n (add_byte b z)) z
      else succeed () z)"
  by pat_completeness auto
termination
  by (relation "measure (\<lambda>(n, z). length (input z) - pos z)")
    (auto simp: read_byte_def throw_def succeed_def add_byte_def split: if_splits)

declare ensure_bits.simps [simp del]

text \<open>\<^verbatim>\<open>(1u32 << n) - 1\<close>, \<^verbatim>\<open>bitbuf >>= n\<close> and \<^verbatim>\<open>bitcnt -= n\<close>.\<close>

definition low_mask :: "nat \<Rightarrow> u32" where
  "low_mask n = push_bit (n mod 32) 1 - 1"

definition drop_bits :: "nat \<Rightarrow> zlib_decoder \<Rightarrow> zlib_decoder" where
  "drop_bits n z = z\<lparr>bitbuf := drop_bit (n mod 32) (bitbuf z),
                     bitcnt := (bitcnt z + 256 - n) mod 256\<rparr>"

definition read_bits :: "nat \<Rightarrow> u32 zop" where
  "read_bits n z =
     (if n = 0 then succeed 0 z
      else try_then (ensure_bits n)
        (\<lambda>_ z. succeed (bitbuf z AND low_mask n) (drop_bits n z)) z)"

definition byte_align :: "zlib_decoder \<Rightarrow> zlib_decoder" where
  "byte_align z = (if bitcnt z mod 8 \<noteq> 0 then drop_bits (bitcnt z mod 8) z else z)"

section \<open>Huffman tables\<close>

fun reverse_bits_loop :: "nat \<Rightarrow> u32 \<Rightarrow> u32 \<Rightarrow> u32" where
  "reverse_bits_loop 0 v r = r"
| "reverse_bits_loop (Suc n) v r =
     reverse_bits_loop n (drop_bit 1 v) (push_bit 1 r OR (v AND 1))"

definition reverse_bits :: "u32 \<Rightarrow> nat \<Rightarrow> u32" where
  "reverse_bits v bits = reverse_bits_loop bits v 0"

definition longest_code :: "nat list \<Rightarrow> nat" where
  "longest_code lens = foldl (\<lambda>max_len l. if l > max_len then l else max_len) 0 lens"

definition count_lengths :: "nat list \<Rightarrow> nat \<Rightarrow> usize list run" where
  "count_lengths lens max_len =
     run_fold (\<lambda>l bl. if l > 0 then and_then (item_at bl l) (\<lambda>n. write_at bl l (uadd n 1)) else returns bl)
       lens (replicate (max_len + 1) 0)"

definition first_codes :: "usize list \<Rightarrow> nat \<Rightarrow> (usize \<times> usize list) run" where
  "first_codes bl_count max_len =
     run_fold (\<lambda>bits (code, next_code).
         and_then (item_at bl_count (bits - 1)) (\<lambda>n.
           let code' = umul (uadd code n) 2
           in and_then (write_at next_code bits code') (\<lambda>nc. returns (code', nc))))
       [1..<max_len + 1] (0, replicate (max_len + 1) 0)"

text \<open>\<^verbatim>\<open>table_symbol\<close> and \<^verbatim>\<open>table_len\<close>.\<close>

type_synonym huffman_table = "int list \<times> nat list"

definition fill_entries :: "nat \<Rightarrow> usize \<Rightarrow> nat \<Rightarrow> nat \<Rightarrow> huffman_table \<Rightarrow> huffman_table run" where
  "fill_entries s base len repeat tab =
     run_fold (\<lambda>i (ts, tb).
         let idx = base OR push_bit len i
         in and_then (write_at ts idx (int s)) (\<lambda>ts'.
              and_then (write_at tb idx len) (\<lambda>tb'. returns (ts', tb'))))
       [0..<repeat] tab"

definition place_symbol :: "nat \<Rightarrow> nat \<times> nat \<Rightarrow> usize list \<times> huffman_table \<Rightarrow> (usize list \<times> huffman_table) run" where
  "place_symbol table_bits = (\<lambda>(s, len) (next_code, tab).
     if len \<noteq> 0 then
       and_then (item_at next_code len) (\<lambda>code.
         and_then (write_at next_code len (uadd code 1)) (\<lambda>next_code'.
           let rcode = unat (reverse_bits (of_nat code) len)
           in and_then (fill_entries s rcode len (2 ^ (table_bits - len)) tab)
                (\<lambda>tab'. returns (next_code', tab'))))
     else returns (next_code, tab))"

definition build_huffman_table :: "nat list \<Rightarrow> (error_code + huffman_table \<times> nat) run" where
  "build_huffman_table lens =
     (let max_len = longest_code lens in
      if max_len = 0 then returns (Inl InvalidFormat)
      else if max_len > 15 then returns (Inl InvalidFormat)
      else
        and_then (count_lengths lens max_len) (\<lambda>bl_count.
          and_then (first_codes bl_count max_len) (\<lambda>(_, next_code).
            and_then (run_fold (place_symbol max_len) (zip [0..<length lens] lens)
                        (next_code, replicate (2 ^ max_len) (-1), replicate (2 ^ max_len) 0))
              (\<lambda>(_, tab). returns (Inr (tab, max_len))))))"

definition build_table :: "nat list \<Rightarrow> (huffman_table \<times> nat) zop" where
  "build_table lens z = and_then (build_huffman_table lens) (\<lambda>r. returns (r, z))"

definition decode_symbol :: "huffman_table \<times> nat \<Rightarrow> nat zop" where
  "decode_symbol = (\<lambda>((table_symbol, table_len), table_bits).
     try_then (ensure_bits table_bits)
       (\<lambda>_ z. let idx = unat (bitbuf z AND low_mask table_bits) in
          and_then (item_at table_symbol idx) (\<lambda>sym.
            if sym < 0 then throw InvalidFormat z
            else and_then (item_at table_len idx) (\<lambda>len. succeed (nat sym) (drop_bits len z)))))"

section \<open>Compressed data\<close>

definition len_base :: "nat list" where
  "len_base = [3,4,5,6,7,8,9,10,11,13,15,17,19,23,27,31,35,43,51,59,67,83,99,115,131,163,195,227,258]"

definition len_extra :: "nat list" where
  "len_extra = [0,0,0,0,0,0,0,0,1,1,1,1,2,2,2,2,3,3,3,3,4,4,4,4,5,5,5,5,0]"

definition dist_base :: "nat list" where
  "dist_base = [1,2,3,4,5,7,9,13,17,25,33,49,65,97,129,193,257,385,513,769,1025,
     1537,2049,3073,4097,6145,8193,12289,16385,24577]"

definition dist_extra :: "nat list" where
  "dist_extra = [0,0,0,0,1,1,2,2,3,3,4,4,5,5,6,6,7,7,8,8,9,9,10,10,11,11,12,12,13,13]"

text \<open>The copy of \<open>length\<close> bytes from \<open>distance\<close> back; the bytes appended on the way are
  read again when the two overlap.\<close>

definition copy_back :: "nat \<Rightarrow> nat \<Rightarrow> unit zop" where
  "copy_back distance len z =
     (let start = length (out_vec z) - distance
      in and_then (run_fold (\<lambda>i z. and_then (item_at (out_vec z) (start + i mod distance))
                                     (\<lambda>b. returns (push_out b z)))
                     [0..<len] z)
           (succeed ()))"

text \<open>A length symbol (257 to 285): its length, then the distance, then the copy. The match
  on \<open>dist_sym < 0\<close> in the code cannot be taken: \<open>decode_symbol\<close> has excluded it.\<close>

definition extra_value :: "nat \<Rightarrow> nat zop" where
  "extra_value n = (if n = 0 then succeed 0 else try_then (read_bits n) (\<lambda>v. succeed (unat v)))"

definition copy_match :: "huffman_table \<times> nat \<Rightarrow> nat \<Rightarrow> unit zop" where
  "copy_match d_table idx =
     (if idx \<ge> length len_base then throw InvalidFormat
      else try_then (extra_value (len_extra ! idx)) (\<lambda>extra_bits.
        let len = len_base ! idx + extra_bits in
        try_then (decode_symbol d_table) (\<lambda>dist_idx.
          if dist_idx \<ge> length dist_base then throw InvalidFormat
          else try_then (extra_value (dist_extra ! dist_idx)) (\<lambda>extrad z.
            let distance = dist_base ! dist_idx + extrad in
            if distance = 0 \<or> distance > length (out_vec z) then throw InvalidFormat z
            else copy_back distance len z))))"

partial_function (option) inflate_using_tables ::
  "huffman_table \<times> nat \<Rightarrow> huffman_table \<times> nat \<Rightarrow> unit zop" where
  "inflate_using_tables ll_table d_table z =
     try_then (decode_symbol ll_table) (\<lambda>lit_sym z.
       if lit_sym < 256 then inflate_using_tables ll_table d_table (push_out (of_nat lit_sym) z)
       else if lit_sym = 256 then succeed () z
       else if 257 \<le> lit_sym \<and> lit_sym \<le> 285
       then try_then (copy_match d_table (lit_sym - 257)) (\<lambda>_ z. inflate_using_tables ll_table d_table z) z
       else throw InvalidFormat z) z"

section \<open>Blocks\<close>

fun copy_stored :: "nat \<Rightarrow> unit zop" where
  "copy_stored 0 z = succeed () z"
| "copy_stored (Suc n) z = try_then read_byte (\<lambda>b z. copy_stored n (push_out b z)) z"

definition read_u16 :: "(16 word) zop" where
  "read_u16 = try_then read_byte (\<lambda>lo. try_then read_byte (\<lambda>hi. succeed (push_bit 8 (ucast hi) OR ucast lo)))"

definition stored_block :: "unit zop" where
  "stored_block z =
     try_then read_u16 (\<lambda>len. try_then read_u16 (\<lambda>nlen.
       if len \<noteq> NOT nlen then throw InvalidFormat else copy_stored (unat len))) (byte_align z)"

definition coded_block :: "nat list \<Rightarrow> nat list \<Rightarrow> unit zop" where
  "coded_block litlen_lengths dist_lengths =
     try_then (build_table litlen_lengths) (\<lambda>ll_table.
       try_then (build_table dist_lengths) (\<lambda>d_table. inflate_using_tables ll_table d_table))"

definition fixed_litlen_lengths :: "nat list" where
  "fixed_litlen_lengths = map (\<lambda>i. if i \<le> 143 then 8 else if i \<le> 255 then 9 else if i \<le> 279 then 7 else 8) [0..<288]"

definition fixed_dist_lengths :: "nat list" where
  "fixed_dist_lengths = replicate 32 5"

definition fixed_block :: "unit zop" where
  "fixed_block = coded_block fixed_litlen_lengths fixed_dist_lengths"

definition cl_order :: "nat list" where
  "cl_order = [16,17,18,0,8,7,9,6,10,5,11,4,12,3,13,2,14,1,15]"

fun read_code_lengths :: "nat list \<Rightarrow> nat list \<Rightarrow> (nat list) zop" where
  "read_code_lengths [] cl_lengths z = succeed cl_lengths z"
| "read_code_lengths (s # order) cl_lengths z =
     try_then (read_bits 3) (\<lambda>v z.
       and_then (write_at cl_lengths s (unat v)) (\<lambda>cl. read_code_lengths order cl z)) z"

partial_function (option) read_lengths ::
  "huffman_table \<times> nat \<Rightarrow> nat \<Rightarrow> nat list \<Rightarrow> nat \<Rightarrow> (nat list) zop" where
  "read_lengths cl_table n lengths i z =
     (if i < n then
        try_then (decode_symbol cl_table) (\<lambda>s z.
          if s \<le> 15 then read_lengths cl_table n (lengths @ [s]) (i + 1) z
          else if s = 16 then
            (if lengths = [] then throw InvalidFormat z
             else try_then (read_bits 2) (\<lambda>extra z. let repeat = 3 + unat extra in
               read_lengths cl_table n (lengths @ replicate repeat (last lengths)) (i + repeat) z) z)
          else if s = 17 then
            try_then (read_bits 3) (\<lambda>extra z. let repeat = 3 + unat extra in
               read_lengths cl_table n (lengths @ replicate repeat 0) (i + repeat) z) z
          else if s = 18 then
            try_then (read_bits 7) (\<lambda>extra z. let repeat = 11 + unat extra in
               read_lengths cl_table n (lengths @ replicate repeat 0) (i + repeat) z) z
          else throw InvalidFormat z) z
      else succeed lengths z)"

definition dynamic_block :: "unit zop" where
  "dynamic_block =
     try_then (read_bits 5) (\<lambda>v1. try_then (read_bits 5) (\<lambda>v2. try_then (read_bits 4) (\<lambda>v3.
       let hlit = unat v1 + 257; hdist = unat v2 + 1; hclen = unat v3 + 4 in
       if hclen > length cl_order then (\<lambda>z. panics)
       else try_then (read_code_lengths (take hclen cl_order) (replicate 19 0)) (\<lambda>cl_lengths.
         try_then (build_table cl_lengths) (\<lambda>cl_table.
           try_then (read_lengths cl_table (hlit + hdist) [] 0) (\<lambda>lengths.
             if length lengths \<noteq> hlit + hdist then throw InvalidFormat
             else coded_block (take hlit lengths) (drop hlit lengths)))))))"

definition block_of_type :: "nat \<Rightarrow> unit zop" where
  "block_of_type btype =
     (if btype = 0 then stored_block else if btype = 1 then fixed_block
      else if btype = 2 then dynamic_block else throw InvalidFormat)"

partial_function (option) read_blocks :: "unit zop" where
  "read_blocks z =
     try_then (read_bits 1) (\<lambda>final_bit z. try_then (read_bits 2) (\<lambda>btype z.
       try_then (block_of_type (unat btype)) (\<lambda>_ z.
         if final_bit \<noteq> 0 then succeed () z else read_blocks z) z) z) z"

section \<open>The zlib stream\<close>

definition finish_stream :: "unit zop" where
  "finish_stream z =
     succeed () ((if pos z + 4 \<le> length (input z) then z\<lparr>pos := pos z + 4\<rparr> else z)\<lparr>finished := True\<rparr>)"

definition decompress_all :: "unit zop" where
  "decompress_all z =
     (if finished z then succeed () z
      else
        try_then read_byte (\<lambda>cmf. try_then read_byte (\<lambda>flg.
          if cmf AND 0x0F \<noteq> 8 then throw NotSupported
          else if (push_bit 8 (ucast cmf) OR ucast flg :: 16 word) mod 31 \<noteq> 0 then throw InvalidFormat
          else try_then read_blocks (\<lambda>_. finish_stream))) z)"

definition read_to_end :: "u8 list \<Rightarrow> unit zop" where
  "read_to_end out z = decompress_all (z\<lparr>out_vec := out\<rparr>)"

text \<open>\<^verbatim>\<open>read\<close>: the caller's buffer, after the call, and the number of bytes it received.\<close>

definition zlib_read :: "u8 list \<Rightarrow> (nat \<times> u8 list) zop" where
  "zlib_read buf z =
     try_then decompress_all (\<lambda>_ z.
       let tmp = out_vec z; n = min (length buf) (length tmp)
       in succeed (n, take n tmp @ drop n buf) (z\<lparr>finished := True\<rparr>)) (z\<lparr>out_vec := []\<rparr>)"

end
