(* ===== verification/Inflate_Bits.thy ===== *)
theory Inflate_Bits
  imports Inflate
begin

text \<open>
  The decoder as a reader of a bit stream: the bits it has yet to deliver, \<open>zbits\<close>, are those
  in the buffer followed by those of the bytes it has not fetched, least significant first.
  The lemmas say what each reading operation takes from that stream.
\<close>

named_theorems zread \<open>what the reading operations do to the bit stream\<close>

section \<open>Bits of numbers\<close>

definition nbits :: "nat \<Rightarrow> nat \<Rightarrow> bool list" where
  "nbits n v = map (bit v) [0..<n]"

definition byte_bits :: "u8 \<Rightarrow> bool list" where
  "byte_bits b = map (bit b) [0..<8]"

lemma length_nbits [simp]: "length (nbits n v) = n"
  and length_byte_bits [simp]: "length (byte_bits b) = 8"
  by (simp_all add: nbits_def byte_bits_def)

lemma nbits_nth [simp]: "i < n \<Longrightarrow> nbits n v ! i \<longleftrightarrow> bit v i"
  by (simp add: nbits_def)

lemma nbits_inject:
  assumes "nbits n x = nbits n y" and "x < 2 ^ n" and "y < 2 ^ n"
  shows "x = y"
proof (rule bit_eqI)
  fix i
  have lt: "bit v i \<Longrightarrow> i < n" if "v < 2 ^ n" for v :: nat
    using that by (metis bit_take_bit_iff take_bit_nat_eq_self)
  show "bit x i \<longleftrightarrow> bit y i"
  proof (cases "i < n")
    case True
    then show ?thesis using arg_cong [OF assms(1), of "\<lambda>l. l ! i"] by simp
  next
    case False
    then show ?thesis using lt [OF assms(2)] lt [OF assms(3)] by blast
  qed
qed

lemma concat_byte_bits_length [simp]: "length (concat (map byte_bits bs)) = 8 * length bs"
  by (induction bs) auto

section \<open>The stream\<close>

definition buffered :: "zlib_decoder \<Rightarrow> bool list" where
  "buffered z = map (bit (bitbuf z)) [0..<bitcnt z]"

definition zbits :: "zlib_decoder \<Rightarrow> bool list" where
  "zbits z = buffered z @ concat (map byte_bits (drop (pos z) (input z)))"

definition buf_ok :: "zlib_decoder \<Rightarrow> bool" where
  "buf_ok z \<longleftrightarrow> bitcnt z \<le> 22 \<and> (\<forall>i. bit (bitbuf z) i \<longrightarrow> i < bitcnt z) \<and> pos z \<le> length (input z)"

text \<open>Between the reads of a block only the position and the buffer change.\<close>

definition same_data :: "zlib_decoder \<Rightarrow> zlib_decoder \<Rightarrow> bool" where
  "same_data z z' \<longleftrightarrow> input z' = input z \<and> out_vec z' = out_vec z \<and> finished z' = finished z"

lemma same_data_refl [simp]: "same_data z z"
  by (simp add: same_data_def)

lemma same_data_trans: "same_data z z1 \<Longrightarrow> same_data z1 z2 \<Longrightarrow> same_data z z2"
  by (simp add: same_data_def)

lemma buf_ok_push [simp]: "buf_ok (push_out b z) = buf_ok z"
  and zbits_push [simp]: "zbits (push_out b z) = zbits z"
  and out_push [simp]: "out_vec (push_out b z) = out_vec z @ [b]"
  and input_push [simp]: "input (push_out b z) = input z"
  and finished_push [simp]: "finished (push_out b z) = finished z"
  by (simp_all add: buf_ok_def zbits_def buffered_def push_out_def)

lemma length_zbits: "length (zbits z) = bitcnt z + 8 * (length (input z) - pos z)"
  by (simp add: zbits_def buffered_def)

lemma read_byte_Some:
  "pos z < length (input z) \<Longrightarrow> read_byte z = returns (Inr (input z ! pos z), z\<lparr>pos := Suc (pos z)\<rparr>)"
  by (simp add: read_byte_def succeed_def)

lemma read_byte_eof:
  "\<not> pos z < length (input z) \<Longrightarrow> read_byte z = returns (Inl UnexpectedEoF, z)"
  by (simp add: read_byte_def throw_def)

lemma add_byte_bits:
  assumes "buf_ok z" and "bitcnt z < 15" and "pos z < length (input z)"
  shows "zbits (add_byte (input z ! pos z) (z\<lparr>pos := Suc (pos z)\<rparr>)) = zbits z"
    and "buf_ok (add_byte (input z ! pos z) (z\<lparr>pos := Suc (pos z)\<rparr>))"
proof -
  let ?b = "input z ! pos z"
  let ?w = "bitbuf z OR push_bit (bitcnt z) (ucast ?b)"
  have bits: "bit ?w i \<longleftrightarrow> (if i < bitcnt z then bit (bitbuf z) i else bit ?b (i - bitcnt z))"
    for i
    using assms bit_imp_le_length [of ?b "i - bitcnt z"]
    by (auto simp: buf_ok_def bit_simps not_less)
  have "map (bit ?w) [0..<bitcnt z + 8] = map (bit (bitbuf z)) [0..<bitcnt z] @ byte_bits ?b"
    by (rule nth_equalityI) (auto simp: byte_bits_def nth_append bits)
  moreover have "concat (map byte_bits (drop (pos z) (input z)))
      = byte_bits ?b @ concat (map byte_bits (drop (Suc (pos z)) (input z)))"
    using assms(3) by (simp add: Cons_nth_drop_Suc [symmetric])
  ultimately show "zbits (add_byte ?b (z\<lparr>pos := Suc (pos z)\<rparr>)) = zbits z"
    using assms by (simp add: zbits_def buffered_def add_byte_def)
  have "i < bitcnt z + 8" if "bit ?w i" for i
    using that bit_imp_le_length [of ?b "i - bitcnt z"] by (auto simp: bits split: if_splits)
  then show "buf_ok (add_byte ?b (z\<lparr>pos := Suc (pos z)\<rparr>))"
    using assms by (simp add: buf_ok_def add_byte_def)
qed

lemma sub_mod_256:
  fixes b n :: nat
  assumes "n \<le> b" and "b \<le> 22"
  shows "(b + 256 - n) mod 256 = b - n"
proof -
  have "b + 256 - n = (b - n) + 256" using assms by simp
  also have "\<dots> mod 256 = b - n" unfolding mod_add_self2 using assms by simp
  finally show ?thesis .
qed

lemma ensure_bits_run:
  assumes "buf_ok z" and "n \<le> 15"
  shows "\<exists>r z'. ensure_bits n z = returns (r, z') \<and> zbits z' = zbits z \<and> buf_ok z' \<and> same_data z z'
    \<and> (if n \<le> length (zbits z) then r = Inr () \<and> n \<le> bitcnt z' else r = Inl UnexpectedEoF)"
  using assms
proof (induction n z rule: ensure_bits.induct)
  case (1 n z)
  show ?case
  proof (cases "bitcnt z < n")
    case False
    then show ?thesis
      using 1(2) by (auto simp: ensure_bits.simps [of n z] succeed_def length_zbits)
  next
    case True
    show ?thesis
    proof (cases "pos z < length (input z)")
      case False
      then show ?thesis
        using True 1(2) by (auto simp: ensure_bits.simps [of n z] read_byte_eof length_zbits buf_ok_def)
    next
      case False': True
      let ?z = "add_byte (input z ! pos z) (z\<lparr>pos := Suc (pos z)\<rparr>)"
      have "bitcnt z < 15" using True 1(3) by simp
      note ab = add_byte_bits [OF 1(2) this False']
      have "ensure_bits n z = ensure_bits n ?z"
        using True False' by (simp add: ensure_bits.simps [of n z] read_byte_Some)
      then obtain r z' where e: "ensure_bits n z = returns (r, z')" "zbits z' = zbits ?z"
        "buf_ok z'" "same_data ?z z'"
        "if n \<le> length (zbits ?z) then r = Inr () \<and> n \<le> bitcnt z' else r = Inl UnexpectedEoF"
        using 1(1) [OF True read_byte_Some [OF False'] ab(2) 1(3)] by auto
      moreover have "same_data z ?z"
        by (simp add: same_data_def add_byte_def)
      ultimately show ?thesis
        by (intro exI [of _ r] exI [of _ z']) (simp add: ab(1) same_data_trans [of z ?z z'])
    qed
  qed
qed

lemma ensure_bits_ok [zread]:
  assumes "buf_ok z" and "n \<le> 15" and "n \<le> length (zbits z)"
  shows "\<exists>z'. ensure_bits n z = returns (Inr (), z') \<and> zbits z' = zbits z \<and> buf_ok z'
    \<and> same_data z z' \<and> n \<le> bitcnt z'"
  using ensure_bits_run [OF assms(1,2)] assms(3) by auto

lemma drop_bits_ok:
  assumes "buf_ok z" and "n \<le> bitcnt z"
  shows "zbits (drop_bits n z) = drop n (zbits z)" and "buf_ok (drop_bits n z)"
    and "same_data z (drop_bits n z)"
proof -
  have c: "(bitcnt z + 256 - n) mod 256 = bitcnt z - n" "n mod 32 = n"
    using assms sub_mod_256 by (auto simp: buf_ok_def)
  have "map (bit (drop_bit n (bitbuf z))) [0..<bitcnt z - n] = drop n (map (bit (bitbuf z)) [0..<bitcnt z])"
    by (rule nth_equalityI) (use assms in \<open>auto simp: bit_simps\<close>)
  then show "zbits (drop_bits n z) = drop n (zbits z)"
    using assms by (simp add: zbits_def buffered_def drop_bits_def c)
  show "buf_ok (drop_bits n z)"
    using assms by (fastforce simp: buf_ok_def drop_bits_def c bit_simps)
  show "same_data z (drop_bits n z)"
    by (simp add: same_data_def drop_bits_def)
qed

lemma low_mask_bits:
  assumes "n \<le> 22"
  shows "bit (w AND low_mask n) i \<longleftrightarrow> bit w i \<and> i < n"
proof -
  have "low_mask n = mask n"
    using assms by (simp add: low_mask_def mask_eq_exp_minus_1)
  then show ?thesis by (auto simp: bit_simps dest: bit_imp_le_length)
qed

lemma low_mask_value:
  assumes "buf_ok z" and "n \<le> bitcnt z"
  shows "nbits n (unat (bitbuf z AND low_mask n)) = take n (zbits z)"
    and "unat (bitbuf z AND low_mask n) < 2 ^ n"
proof -
  have n: "n \<le> 22" using assms by (simp add: buf_ok_def)
  show "nbits n (unat (bitbuf z AND low_mask n)) = take n (zbits z)"
    by (rule nth_equalityI)
      (use assms in \<open>auto simp: zbits_def buffered_def nth_append low_mask_bits [OF n] bit_unsigned_iff\<close>)
  have "take_bit n (unat (bitbuf z AND low_mask n)) = unat (bitbuf z AND low_mask n)"
    by (rule bit_eqI) (auto simp: bit_take_bit_iff bit_unsigned_iff low_mask_bits [OF n])
  then show "unat (bitbuf z AND low_mask n) < 2 ^ n"
    by (metis take_bit_nat_less_exp)
qed

lemma read_bits_run:
  assumes "buf_ok z" and "n \<le> 15"
  shows "\<exists>r z'. read_bits n z = returns (r, z') \<and> buf_ok z' \<and> same_data z z'
    \<and> (if n \<le> length (zbits z)
       then \<exists>v. r = Inr v \<and> nbits n (unat v) = take n (zbits z) \<and> unat v < 2 ^ n \<and> zbits z' = drop n (zbits z)
       else r = Inl UnexpectedEoF \<and> zbits z' = zbits z)"
proof (cases "n = 0")
  case True
  then show ?thesis using assms by (auto simp: read_bits_def succeed_def nbits_def)
next
  case False
  obtain r z' where e: "ensure_bits n z = returns (r, z')" "zbits z' = zbits z" "buf_ok z'" "same_data z z'"
    "if n \<le> length (zbits z) then r = Inr () \<and> n \<le> bitcnt z' else r = Inl UnexpectedEoF"
    using ensure_bits_run [OF assms] by blast
  show ?thesis
  proof (cases "n \<le> length (zbits z)")
    case True
    then have r: "r = Inr ()" "n \<le> bitcnt z'" using e(5) by auto
    show ?thesis
      using False True e r low_mask_value [OF e(3) r(2)] drop_bits_ok [OF e(3) r(2)]
      by (auto simp: read_bits_def succeed_def intro: same_data_trans)
  qed (use False e in \<open>auto simp: read_bits_def\<close>)
qed

lemma read_bits_ok [zread]:
  assumes "buf_ok z" and "n \<le> 15" and "zbits z = nbits n x @ bs" and "x < 2 ^ n"
  shows "\<exists>v z'. read_bits n z = returns (Inr v, z') \<and> unat v = x \<and> zbits z' = bs \<and> buf_ok z' \<and> same_data z z'"
proof -
  obtain v z' where "read_bits n z = returns (Inr v, z')" "buf_ok z'" "same_data z z'"
    "nbits n (unat v) = nbits n x" "unat v < 2 ^ n" "zbits z' = bs"
    using read_bits_run [OF assms(1,2)] assms(3) by auto
  then show ?thesis using nbits_inject [of n "unat v" x] assms(4) by blast
qed

lemma byte_align_ok:
  assumes "buf_ok z"
  shows "zbits (byte_align z) = drop (bitcnt z mod 8) (zbits z)" and "buf_ok (byte_align z)"
    and "same_data z (byte_align z)" and "bitcnt (byte_align z) = bitcnt z - bitcnt z mod 8"
proof -
  have "bitcnt z mod 8 \<le> bitcnt z" by simp
  note d = drop_bits_ok [OF assms this]
  show "zbits (byte_align z) = drop (bitcnt z mod 8) (zbits z)" "buf_ok (byte_align z)"
    "same_data z (byte_align z)"
    using d assms by (auto simp: byte_align_def)
  show "bitcnt (byte_align z) = bitcnt z - bitcnt z mod 8"
    using assms sub_mod_256 [of "bitcnt z mod 8" "bitcnt z"]
    by (auto simp: byte_align_def drop_bits_def buf_ok_def)
qed

end
