(* ===== verification/Huffman_Code.thy ===== *)
theory Huffman_Code
  imports Inflate_Bits
begin

text \<open>
  Canonical Huffman codes: the code DEFLATE assigns to a list of code lengths, and what makes
  it decodable. The codes of length \<open>l\<close> are consecutive numbers from \<open>first_code lens l\<close> on, in
  symbol order; when the lengths satisfy Kraft's inequality no code word is a prefix of
  another.
\<close>

section \<open>The code of a list of lengths\<close>

fun first_code :: "nat list \<Rightarrow> nat \<Rightarrow> nat" where
  "first_code lens 0 = 0"
| "first_code lens (Suc l) = 2 * (first_code lens l + (if l = 0 then 0 else count_list lens l))"

definition sym_code :: "nat list \<Rightarrow> nat \<Rightarrow> nat" where
  "sym_code lens s = first_code lens (lens ! s) + count_list (take s lens) (lens ! s)"

definition used :: "nat list \<Rightarrow> nat \<Rightarrow> bool" where
  "used lens s \<longleftrightarrow> s < length lens \<and> lens ! s \<noteq> 0"

text \<open>A code word is sent most significant bit first.\<close>

definition codeword :: "nat list \<Rightarrow> nat \<Rightarrow> bool list" where
  "codeword lens s = rev (nbits (lens ! s) (sym_code lens s))"

definition kraft_ok :: "nat list \<Rightarrow> bool" where
  "kraft_ok lens \<longleftrightarrow>
     sum_list (map (\<lambda>l. if l = 0 then 0 else 2 ^ (longest_code lens - l)) lens) \<le> (2 ^ longest_code lens :: nat)"

lemma length_codeword [simp]: "length (codeword lens s) = lens ! s"
  by (simp add: codeword_def)

section \<open>The longest length\<close>

lemma longest_fold:
  "foldl (\<lambda>m l. if l > m then l else m) a lens = Max (insert a (set lens))" for a :: nat
proof (induction lens arbitrary: a)
  case (Cons l lens)
  have "Max (insert (if l > a then l else a) (set lens)) = Max (insert a (insert l (set lens)))"
    by (cases "lens = []") (auto simp: Max_insert max_def)
  then show ?case using Cons by simp
qed simp

lemma longest_ge: "l \<in> set lens \<Longrightarrow> l \<le> longest_code lens"
  by (simp add: longest_code_def longest_fold)

lemma longest_nth: "s < length lens \<Longrightarrow> lens ! s \<le> longest_code lens"
  by (simp add: longest_ge)

lemma count_above_longest: "longest_code lens < l \<Longrightarrow> count_list lens l = 0"
  using longest_ge [of l lens] by (auto simp: count_list_0_iff)

section \<open>Kraft's inequality bounds the codes\<close>

lemma scale_step: "Suc m \<le> M \<Longrightarrow> 2 ^ (M - Suc m) * (2 * a) = (2 ^ (M - m) * a :: nat)"
  by (cases "M - m") (auto simp: diff_Suc)

lemma kraft_partial:
  fixes M :: nat
  assumes "m \<le> M"
  shows "2 ^ (M - m) * (first_code lens m + (if m = 0 then 0 else count_list lens m))
    = sum_list (map (\<lambda>l. if 0 < l \<and> l \<le> m then 2 ^ (M - l) else 0) lens)"
  using assms
proof (induction m)
  case 0
  have "(\<lambda>l. if 0 < l \<and> l \<le> 0 then 2 ^ (M - l) else (0 :: nat)) = (\<lambda>l. 0)"
    by (rule ext) (metis not_less)
  then show ?case unfolding first_code.simps by (rule ssubst) simp
next
  case (Suc m)
  have step: "sum_list (map (\<lambda>l. if 0 < l \<and> l \<le> Suc m then 2 ^ (M - l) else 0) xs)
    = sum_list (map (\<lambda>l. if 0 < l \<and> l \<le> m then 2 ^ (M - l) else 0) xs)
      + 2 ^ (M - Suc m) * count_list xs (Suc m)" for xs
    by (induction xs) (auto simp: le_Suc_eq)
  show ?case
    using Suc by (simp add: step distrib_left scale_step)
qed

lemma kraft_sum:
  assumes "kraft_ok lens" and "m \<le> longest_code lens" and "0 < m"
  shows "2 ^ (longest_code lens - m) * (first_code lens m + count_list lens m) \<le> 2 ^ longest_code lens"
proof -
  let ?M = "longest_code lens"
  have "sum_list (map (\<lambda>l. if 0 < l \<and> l \<le> m then 2 ^ (?M - l) else 0) lens)
      \<le> (sum_list (map (\<lambda>l. if l = 0 then 0 else 2 ^ (?M - l)) lens) :: nat)"
    by (rule sum_list_mono) auto
  then show ?thesis
    using kraft_partial [OF assms(2), of lens] assms by (auto simp: kraft_ok_def)
qed

lemma codes_fit:
  assumes "kraft_ok lens" and "m \<le> longest_code lens" and "0 < m"
  shows "first_code lens m + count_list lens m \<le> 2 ^ m"
proof -
  have "2 ^ (longest_code lens - m) * (first_code lens m + count_list lens m)
      \<le> 2 ^ (longest_code lens - m) * 2 ^ m"
    using kraft_sum [OF assms] assms(2) by (simp flip: power_add)
  then show ?thesis by simp
qed

section \<open>Code words occupy disjoint intervals\<close>

lemma rank_less: "s < length lens \<Longrightarrow> count_list (take s lens) (lens ! s) < count_list lens (lens ! s)"
proof -
  assume s: "s < length lens"
  have "lens = take s lens @ lens ! s # drop (Suc s) lens"
    using s by (simp add: id_take_nth_drop)
  then have "count_list lens (lens ! s) = count_list (take s lens @ lens ! s # drop (Suc s) lens) (lens ! s)"
    by simp
  then show ?thesis by simp
qed

lemma rank_mono:
  assumes "s < t" and "t \<le> length lens"
  shows "count_list (take s lens) (lens ! s) < count_list (take t lens) (lens ! s)"
proof -
  have "take (min s t) lens = take s lens" "lens ! s = take t lens ! s"
    using assms by (simp_all add: min_def)
  then show ?thesis
    using rank_less [of s "take t lens"] assms by (simp add: min_def)
qed

lemma sym_code_less:
  assumes "kraft_ok lens" and "used lens s"
  shows "sym_code lens s < 2 ^ (lens ! s)"
  using codes_fit [OF assms(1) longest_nth] rank_less [of s lens] assms(2)
  by (fastforce simp: used_def sym_code_def)

lemma first_code_mono:
  assumes "l < m" and "m \<le> M" and "0 < l"
  shows "2 ^ (M - l) * (first_code lens l + count_list lens l) \<le> 2 ^ (M - m) * first_code lens m"
  using assms
proof (induction m)
  case (Suc m)
  have le: "2 ^ (M - m) * first_code lens m \<le> 2 ^ (M - m) * (first_code lens m + count_list lens m)"
    by (rule mult_le_mono2) simp
  have "2 ^ (M - l) * (first_code lens l + count_list lens l)
      \<le> 2 ^ (M - m) * (first_code lens m + count_list lens m)"
    using Suc le by (cases "l = m") (simp, linarith)
  then show ?case
    using Suc scale_step [of m M "first_code lens m + count_list lens m"] by simp
qed simp

lemma intervals_disjoint:
  assumes "used lens s" and "used lens t" and "s \<noteq> t"
    and "lens ! s < lens ! t \<or> lens ! s = lens ! t \<and> s < t" and "lens ! t \<le> M"
  shows "2 ^ (M - lens ! s) * (sym_code lens s + 1) \<le> 2 ^ (M - lens ! t) * sym_code lens t"
proof (cases "lens ! s = lens ! t")
  case True
  then have "sym_code lens s + 1 \<le> sym_code lens t"
    using assms rank_mono [of s t lens] by (auto simp: sym_code_def used_def)
  then have "2 ^ (M - lens ! t) * (sym_code lens s + 1) \<le> 2 ^ (M - lens ! t) * sym_code lens t"
    by (rule mult_le_mono2)
  then show ?thesis using True by simp
next
  case False
  then have l: "lens ! s < lens ! t" using assms by auto
  have "2 ^ (M - lens ! s) * (sym_code lens s + 1)
      \<le> 2 ^ (M - lens ! s) * (first_code lens (lens ! s) + count_list lens (lens ! s))"
    using assms(1) rank_less [of s lens]
    by (intro mult_le_mono2) (auto simp: used_def sym_code_def Suc_le_eq)
  also have "\<dots> \<le> 2 ^ (M - lens ! t) * first_code lens (lens ! t)"
    using assms by (intro first_code_mono l) (auto simp: used_def)
  also have "\<dots> \<le> 2 ^ (M - lens ! t) * sym_code lens t"
    by (simp add: sym_code_def)
  finally show ?thesis .
qed

section \<open>No code word is a prefix of another\<close>

text \<open>The number whose bits, most significant first, are the given list.\<close>

definition msb_val :: "bool list \<Rightarrow> nat" where
  "msb_val bs = foldl (\<lambda>v b. 2 * v + of_bool b) 0 bs"

lemma msb_val_append: "msb_val (xs @ ys) = 2 ^ length ys * msb_val xs + msb_val ys"
proof -
  have gen: "foldl (\<lambda>v b. 2 * v + of_bool b) a ys = 2 ^ length ys * a + msb_val ys" for a ys
    unfolding msb_val_def
  proof (induction ys arbitrary: a)
    case (Cons y ys)
    show ?case
      using Cons [of "2 * a + of_bool y"] Cons [of "of_bool y"] by (simp add: algebra_simps)
  qed simp
  show ?thesis using gen [of "msb_val xs" ys] by (simp add: msb_val_def)
qed

lemma msb_val_less: "msb_val bs < 2 ^ length bs"
  by (induction bs rule: rev_induct) (auto simp: msb_val_def)

lemma msb_val_nbits: "v < 2 ^ n \<Longrightarrow> msb_val (rev (nbits n v)) = v"
proof (induction n arbitrary: v)
  case 0
  then show ?case by (simp add: msb_val_def nbits_def)
next
  case (Suc n)
  have "nbits (Suc n) v = odd v # nbits n (v div 2)"
    by (rule nth_equalityI)
      (auto simp: nth_Cons bit_0 bit_Suc simp del: upt_Suc split: nat.splits)
  moreover have "v div 2 < 2 ^ n" using Suc.prems by simp
  ultimately show ?case
    using Suc.IH [of "v div 2"] by (simp add: msb_val_append) (simp add: msb_val_def)
qed

lemma codeword_value:
  assumes "kraft_ok lens" and "used lens s"
  shows "msb_val (codeword lens s) = sym_code lens s"
  unfolding codeword_def by (rule msb_val_nbits) (rule sym_code_less [OF assms])

lemma codeword_prefix_interval:
  assumes "kraft_ok lens" and "used lens s" and "length bs = M" and "lens ! s \<le> M"
    and "take (lens ! s) bs = codeword lens s"
  shows "2 ^ (M - lens ! s) * sym_code lens s \<le> msb_val bs"
    and "msb_val bs < 2 ^ (M - lens ! s) * (sym_code lens s + 1)"
proof -
  have "bs = codeword lens s @ drop (lens ! s) bs"
    using assms(5) by (metis append_take_drop_id)
  then have "msb_val bs = 2 ^ (M - lens ! s) * sym_code lens s + msb_val (drop (lens ! s) bs)"
    using msb_val_append [of "codeword lens s" "drop (lens ! s) bs"] codeword_value [OF assms(1,2)]
      assms(3) by simp
  moreover have "msb_val (drop (lens ! s) bs) < 2 ^ (M - lens ! s)"
    using msb_val_less [of "drop (lens ! s) bs"] assms(3) by simp
  ultimately show "2 ^ (M - lens ! s) * sym_code lens s \<le> msb_val bs"
    and "msb_val bs < 2 ^ (M - lens ! s) * (sym_code lens s + 1)"
    by simp_all
qed

lemma codeword_unique:
  assumes "kraft_ok lens" and "used lens s" and "used lens t"
    and "length bs = M" and "lens ! s \<le> M" and "lens ! t \<le> M"
    and "take (lens ! s) bs = codeword lens s" and "take (lens ! t) bs = codeword lens t"
  shows "s = t"
proof (rule ccontr)
  assume ne: "s \<noteq> t"
  note s = codeword_prefix_interval [OF assms(1,2,4,5,7)]
  note t = codeword_prefix_interval [OF assms(1,3,4,6,8)]
  consider "lens ! s < lens ! t \<or> lens ! s = lens ! t \<and> s < t"
    | "lens ! t < lens ! s \<or> lens ! t = lens ! s \<and> t < s"
    using ne by linarith
  then show False
  proof cases
    case 1
    from intervals_disjoint [OF assms(2,3) ne 1 assms(6)] s t show False by linarith
  next
    case 2
    from intervals_disjoint [OF assms(3,2) ne [symmetric] 2 assms(5)] s t show False by linarith
  qed
qed

end
