(* ===== verification/Huffman_Table.thy ===== *)
theory Huffman_Table
  imports Huffman_Code
begin

text \<open>
  The look-up tables: \<open>build_huffman_table\<close> returns for any code lengths, the tables are well
  formed, and when the lengths satisfy Kraft's inequality the entry of every index is the
  symbol whose code word the index starts with. Then \<open>decode_symbol\<close> takes exactly one code
  word from the bit stream.
\<close>

section \<open>Reversal of a code\<close>

lemma reverse_loop_bit:
  "n \<le> 32 \<Longrightarrow> bit (reverse_bits_loop n v r) i \<longleftrightarrow>
     i < 32 \<and> (if i < n then bit v (n - 1 - i) else bit r (i - n))"
proof (induction n arbitrary: v r)
  case 0
  then show ?case by (auto dest: bit_imp_le_length)
next
  case (Suc n)
  have r: "bit (push_bit 1 r OR (v AND 1)) j \<longleftrightarrow> j < 32 \<and> (if j = 0 then bit v 0 else bit r (j - 1))" for j
    unfolding bit_or_iff bit_and_iff bit_push_bit_iff
    by (cases j) (auto simp: bit_1_iff dest: bit_imp_le_length)
  consider "i < n" | "i = n" | "n < i" by linarith
  moreover have "bit (reverse_bits_loop n (drop_bit 1 v) (push_bit 1 r OR (v AND 1))) i \<longleftrightarrow>
      i < 32 \<and> (if i < n then bit (drop_bit 1 v) (n - 1 - i) else bit (push_bit 1 r OR (v AND 1)) (i - n))"
    by (rule Suc.IH) (use Suc.prems in simp)
  ultimately show ?case
    unfolding reverse_bits_loop.simps r by cases (auto simp: bit_drop_bit_eq Suc_diff_Suc)
qed

lemma reverse_bits_nbits:
  assumes "n \<le> 15"
  shows "nbits n (unat (reverse_bits (of_nat code) n)) = rev (nbits n code)"
    and "unat (reverse_bits (of_nat code) n) < 2 ^ n"
proof -
  let ?r = "reverse_bits (of_nat code) n"
  have b: "bit ?r i \<longleftrightarrow> i < n \<and> bit code (n - 1 - i)" for i
    using assms by (auto simp: reverse_bits_def reverse_loop_bit bit_of_nat_iff)
  show "nbits n (unat ?r) = rev (nbits n code)"
    by (rule nth_equalityI) (auto simp: bit_unsigned_iff b rev_nth)
  have "take_bit n (unat ?r) = unat ?r"
    by (rule bit_eqI) (auto simp: bit_take_bit_iff bit_unsigned_iff b)
  then show "unat ?r < 2 ^ n"
    by (metis take_bit_nat_less_exp)
qed

lemma prefix_entry:
  fixes base i len :: nat
  assumes "base < 2 ^ len"
  shows "base OR push_bit len i = base + 2 ^ len * i"
proof -
  have "base AND push_bit len i = 0"
  proof (rule bit_eqI)
    fix j
    have "bit base j \<Longrightarrow> j < len"
      using assms by (metis bit_take_bit_iff take_bit_nat_eq_self)
    then show "bit (base AND push_bit len i) j = bit 0 j"
      by (auto simp: bit_simps)
  qed
  then have "base + push_bit len i = base OR push_bit len i"
    by (rule disjunctive_add_eq_or)
  then show ?thesis by (simp add: push_bit_eq_mult ac_simps)
qed

lemma take_nbits: "k \<le> n \<Longrightarrow> take k (nbits n v) = nbits k v"
  by (simp add: nbits_def take_map)

lemma nbits_mod: "nbits k v = nbits k w \<longleftrightarrow> v mod 2 ^ k = w mod 2 ^ k"
proof -
  have m: "nbits k (v mod 2 ^ k) = nbits k v" for v
    by (rule nth_equalityI) (auto simp: bit_take_bit_iff simp flip: take_bit_eq_mod)
  show ?thesis
    using nbits_inject [of k "v mod 2 ^ k" "w mod 2 ^ k"] m [of v] m [of w] by auto
qed

section \<open>Counting the lengths\<close>

lemma count_lengths_run:
  assumes "longest_code lens \<le> M"
  shows "\<exists>bl. count_lengths lens M = returns bl \<and> length bl = M + 1
    \<and> ((\<forall>l. 0 < l \<longrightarrow> count_list lens l < usize_span) \<longrightarrow>
        (\<forall>l \<le> M. bl ! l = (if l = 0 then 0 else count_list lens l)))"
proof -
  let ?P = "\<lambda>n bl. length bl = M + 1 \<and> ((\<forall>l. 0 < l \<longrightarrow> count_list lens l < usize_span) \<longrightarrow>
        (\<forall>l \<le> M. bl ! l = (if l = 0 then 0 else count_list (take n lens) l)))"
  have "\<exists>bl. count_lengths lens M = returns bl \<and> ?P (length lens) bl"
    unfolding count_lengths_def
  proof (rule run_fold_invariant [where P = ?P])
    fix n bl
    assume n: "n < length lens" and P: "?P n bl"
    have le: "lens ! n \<le> M" using longest_nth [OF n] assms by linarith
    have tk: "count_list (take (Suc n) lens) l = count_list (take n lens) l + of_bool (lens ! n = l)" for l
      using n by (simp add: take_Suc_conv_app_nth)
    have b: "count_list (take n lens) l + of_bool (lens ! n = l) \<le> count_list lens l" for l
      using tk [of l] by (metis append_take_drop_id count_list_append le_add1)
    show "\<exists>bl'. (if lens ! n > 0 then and_then (item_at bl (lens ! n))
        (\<lambda>k. write_at bl (lens ! n) (uadd k 1)) else returns bl) = returns bl' \<and> ?P (Suc n) bl'"
    proof (cases "lens ! n > 0")
      case False
      then show ?thesis using P tk by auto
    next
      case True
      have ex: "uadd (count_list (take n lens) (lens ! n)) 1 = Suc (count_list (take n lens) (lens ! n))"
        if small: "\<forall>l. 0 < l \<longrightarrow> count_list lens l < usize_span"
      proof -
        have "Suc (count_list (take n lens) (lens ! n)) < usize_span"
          using le_less_trans [OF b small [rule_format, OF True]] by simp
        then show ?thesis by (simp add: uadd_def)
      qed
      show ?thesis
        using True P le ex tk by (auto simp: nth_list_update)
    qed
  qed (auto simp: nth_append simp del: replicate.simps)
  then show ?thesis unfolding take_all [OF order_refl] .
qed

section \<open>First codes\<close>

lemma first_codes_run:
  assumes "length bl = M + 1" and "0 < M"
  shows "\<exists>c nc. first_codes bl M = returns (c, nc) \<and> length nc = M + 1
    \<and> ((\<forall>l \<le> M. bl ! l = (if l = 0 then 0 else count_list lens l) \<and> first_code lens l < usize_span) \<longrightarrow>
        (\<forall>l. 0 < l \<and> l \<le> M \<longrightarrow> nc ! l = first_code lens l))"
proof -
  let ?ok = "\<forall>l \<le> M. bl ! l = (if l = 0 then 0 else count_list lens l) \<and> first_code lens l < usize_span"
  let ?P = "\<lambda>n (c, nc). length nc = M + 1 \<and> (?ok \<longrightarrow> c = first_code lens n
    \<and> (\<forall>l. 0 < l \<and> l \<le> n \<longrightarrow> nc ! l = first_code lens l))"
  have "\<exists>s. first_codes bl M = returns s \<and> ?P (length [1..<M + 1]) s"
    unfolding first_codes_def
  proof (rule run_fold_invariant [where P = ?P])
    fix n s
    assume n: "n < length [1..<M + 1]" and P: "?P n s"
    obtain c nc where s: "s = (c, nc)" by (cases s)
    have nth: "[1..<M + 1] ! n = Suc n" and nM: "Suc n \<le> M"
      using n by (auto simp del: upt_Suc)
    have ex: "umul (uadd c (bl ! n)) 2 = first_code lens (Suc n)" if ok: ?ok
    proof -
      have c: "c = first_code lens n" using P s ok by simp
      have "first_code lens (Suc n) < usize_span" using ok nM by blast
      then show ?thesis
        using ok nM c by (simp add: uadd_def umul_def)
    qed
    show "\<exists>s'. (case s of (code, next_code) \<Rightarrow>
        and_then (item_at bl ([1..<M + 1] ! n - 1)) (\<lambda>k.
          let code' = umul (uadd code k) 2
          in and_then (write_at next_code ([1..<M + 1] ! n) code') (\<lambda>nc. returns (code', nc)))) = returns s'
        \<and> ?P (Suc n) s'"
      using P nM assms(1) ex unfolding nth s
      by (auto simp: Let_def nth_list_update le_Suc_eq simp del: first_code.simps)
  qed simp
  then obtain c nc where "first_codes bl M = returns (c, nc)" "?P M (c, nc)"
    by (auto simp del: upt_Suc)
  then show ?thesis by (intro exI [of _ c] exI [of _ nc]) (simp only: prod.case, blast)
qed

section \<open>Filling the entries of a symbol\<close>

lemma fill_entries_run:
  assumes "base < 2 ^ len" and "len \<le> M" and "length ts = 2 ^ M" and "length tb = 2 ^ M"
  shows "\<exists>ts' tb'. fill_entries s base len (2 ^ (M - len)) (ts, tb) = returns (ts', tb')
    \<and> length ts' = 2 ^ M \<and> length tb' = 2 ^ M
    \<and> (\<forall>idx < 2 ^ M. ts' ! idx = (if idx mod 2 ^ len = base then int s else ts ! idx)
        \<and> tb' ! idx = (if idx mod 2 ^ len = base then len else tb ! idx))"
proof -
  let ?P = "\<lambda>k (ts', tb'). length ts' = 2 ^ M \<and> length tb' = 2 ^ M
    \<and> (\<forall>idx < 2 ^ M. ts' ! idx = (if idx mod 2 ^ len = base \<and> idx div 2 ^ len < k then int s else ts ! idx)
        \<and> tb' ! idx = (if idx mod 2 ^ len = base \<and> idx div 2 ^ len < k then len else tb ! idx))"
  have split: "(2 :: nat) ^ M = 2 ^ len * 2 ^ (M - len)"
    using assms(2) by (simp flip: power_add)
  have "\<exists>t. fill_entries s base len (2 ^ (M - len)) (ts, tb) = returns t
      \<and> ?P (length [0..<(2 :: nat) ^ (M - len)]) t"
    unfolding fill_entries_def
  proof (rule run_fold_invariant [where P = ?P])
    fix k t
    assume k: "k < length [0..<(2 :: nat) ^ (M - len)]" and P: "?P k t"
    obtain ts' tb' where t: "t = (ts', tb')" by (cases t)
    have nth: "[0..<(2 :: nat) ^ (M - len)] ! k = k" and kl: "k < 2 ^ (M - len)" using k by auto
    let ?i = "base OR push_bit len k"
    have i: "?i = base + 2 ^ len * k" by (rule prefix_entry [OF assms(1)])
    have "2 ^ len * Suc k \<le> 2 ^ len * (2 :: nat) ^ (M - len)"
      using kl by (intro mult_le_mono2) simp
    then have lt: "?i < 2 ^ M" using assms(1) by (simp add: i split)
    have iff: "idx = ?i \<longleftrightarrow> idx mod 2 ^ len = base \<and> idx div 2 ^ len = k" for idx
    proof
      assume "idx = ?i"
      then show "idx mod 2 ^ len = base \<and> idx div 2 ^ len = k"
        using assms(1) by (simp add: i)
    next
      assume "idx mod 2 ^ len = base \<and> idx div 2 ^ len = k"
      then show "idx = ?i" using mod_mult_div_eq [of idx "2 ^ len"] by (simp add: i)
    qed
    have upd: "xs[?i := v] ! idx = (if idx mod 2 ^ len = base \<and> idx div 2 ^ len = k then v else xs ! idx)"
      if "length xs = 2 ^ M" "idx < 2 ^ M" for xs :: "'x list" and v idx
      using that iff [of idx] lt by (auto simp: nth_list_update)
    show "\<exists>t'. (case t of (ts, tb) \<Rightarrow>
        let idx = base OR push_bit len ([0..<(2 :: nat) ^ (M - len)] ! k)
        in and_then (write_at ts idx (int s)) (\<lambda>ts'.
             and_then (write_at tb idx len) (\<lambda>tb'. returns (ts', tb')))) = returns t' \<and> ?P (Suc k) t'"
      using P lt unfolding nth t by (auto simp: Let_def upd less_Suc_eq)
  qed (use assms in auto)
  moreover have "idx div 2 ^ len < 2 ^ (M - len)" if "idx < 2 ^ M" for idx :: nat
    using that unfolding split by (simp add: less_mult_imp_div_less mult.commute)
  ultimately show ?thesis by auto
qed

section \<open>The table of a list of lengths\<close>

fun table_ok :: "nat \<Rightarrow> huffman_table \<times> nat \<Rightarrow> bool" where
  "table_ok n ((ts, tb), bits) \<longleftrightarrow> 0 < bits \<and> bits \<le> 15 \<and> length ts = 2 ^ bits \<and> length tb = 2 ^ bits
     \<and> (\<forall>idx < 2 ^ bits. 0 \<le> ts ! idx \<longrightarrow> nat (ts ! idx) < n \<and> 0 < tb ! idx \<and> tb ! idx \<le> bits)"

definition starts_with :: "nat list \<Rightarrow> nat \<Rightarrow> bool list \<Rightarrow> bool" where
  "starts_with lens s bs \<longleftrightarrow> used lens s \<and> take (lens ! s) bs = codeword lens s"

fun table_for :: "nat list \<Rightarrow> huffman_table \<times> nat \<Rightarrow> bool" where
  "table_for lens ((ts, tb), bits) \<longleftrightarrow> bits = longest_code lens
     \<and> (\<forall>idx < 2 ^ bits. (\<forall>s. starts_with lens s (nbits bits idx) \<longrightarrow> ts ! idx = int s \<and> tb ! idx = lens ! s)
        \<and> ((\<forall>s. \<not> starts_with lens s (nbits bits idx)) \<longrightarrow> ts ! idx = -1))"

text \<open>The tables after the first \<open>n\<close> symbols.\<close>

definition placed :: "nat list \<Rightarrow> nat \<Rightarrow> usize list \<times> huffman_table \<Rightarrow> bool" where
  "placed lens n = (\<lambda>(nc, ts, tb). let M = longest_code lens in
     length nc = M + 1 \<and> length ts = 2 ^ M \<and> length tb = 2 ^ M
     \<and> (\<forall>idx < 2 ^ M. 0 \<le> ts ! idx \<longrightarrow> nat (ts ! idx) < n \<and> 0 < tb ! idx \<and> tb ! idx \<le> M)
     \<and> (kraft_ok lens \<longrightarrow>
          (\<forall>l. 0 < l \<and> l \<le> M \<longrightarrow> nc ! l = first_code lens l + count_list (take n lens) l)
          \<and> (\<forall>idx < 2 ^ M. (\<forall>s < n. starts_with lens s (nbits M idx) \<longrightarrow> ts ! idx = int s \<and> tb ! idx = lens ! s)
              \<and> ((\<forall>s < n. \<not> starts_with lens s (nbits M idx)) \<longrightarrow> ts ! idx = -1))))"

lemma starts_with_unique:
  assumes "kraft_ok lens" and "starts_with lens s bs" and "starts_with lens t bs"
    and "length bs = longest_code lens"
  shows "s = t"
  using codeword_unique [OF assms(1) _ _ assms(4)] assms(2,3) longest_nth
  by (auto simp: starts_with_def used_def)

lemma starts_with_entry:
  assumes "used lens s" and "longest_code lens \<le> 15"
  shows "starts_with lens s (nbits (longest_code lens) idx)
    \<longleftrightarrow> idx mod 2 ^ (lens ! s) = unat (reverse_bits (of_nat (sym_code lens s)) (lens ! s))"
proof -
  have le: "lens ! s \<le> longest_code lens" "lens ! s \<le> 15"
    using assms longest_nth [of s lens] by (auto simp: used_def)
  note rb = reverse_bits_nbits [OF le(2), of "sym_code lens s"]
  show ?thesis
    using assms rb nbits_mod [of "lens ! s" idx "unat (reverse_bits (of_nat (sym_code lens s)) (lens ! s))"]
    by (simp add: starts_with_def take_nbits [OF le(1)] codeword_def)
qed

lemma place_symbol_step:
  assumes M: "longest_code lens \<le> 15" and n: "n < length lens" and P: "placed lens n s"
  shows "\<exists>s'. place_symbol (longest_code lens) (n, lens ! n) s = returns s' \<and> placed lens (Suc n) s'"
proof -
  let ?M = "longest_code lens" and ?l = "lens ! n"
  obtain nc ts tb where s: "s = (nc, ts, tb)" by (cases s)
  have tk: "count_list (take (Suc n) lens) l = count_list (take n lens) l + of_bool (?l = l)" for l
    using n by (simp add: take_Suc_conv_app_nth)
  show ?thesis
  proof (cases "?l = 0")
    case True
    then have "\<not> starts_with lens n bs" for bs by (simp add: starts_with_def used_def)
    moreover have "count_list (take (Suc n) lens) l = count_list (take n lens) l" if "0 < l" for l
      using tk [of l] True that by simp
    ultimately show ?thesis
      using P True unfolding s
      by (auto simp: place_symbol_def placed_def Let_def less_Suc_eq)
  next
    case False
    let ?c = "nc ! ?l"
    let ?r = "unat (reverse_bits (of_nat ?c) ?l)"
    have l: "0 < ?l" "?l \<le> ?M" "?l \<le> 15" and u: "used lens n"
      using False longest_nth [OF n] M n by (auto simp: used_def)
    have len: "length nc = ?M + 1" "length ts = 2 ^ ?M" "length tb = 2 ^ ?M"
      using P by (auto simp: placed_def s Let_def)
    obtain ts' tb' where f: "fill_entries n ?r ?l (2 ^ (?M - ?l)) (ts, tb) = returns (ts', tb')"
      "length ts' = 2 ^ ?M" "length tb' = 2 ^ ?M"
      "\<forall>idx < 2 ^ ?M. ts' ! idx = (if idx mod 2 ^ ?l = ?r then int n else ts ! idx)
        \<and> tb' ! idx = (if idx mod 2 ^ ?l = ?r then ?l else tb ! idx)"
      using fill_entries_run [OF reverse_bits_nbits(2) [OF l(3)] l(2) len(2,3)] by blast
    have run: "place_symbol ?M (n, ?l) s = returns (nc[?l := uadd ?c 1], ts', tb')"
      using l len f(1) by (simp add: place_symbol_def s Let_def)
    have exact: "?c = sym_code lens n" "uadd ?c 1 = Suc ?c" if k: "kraft_ok lens"
    proof -
      show c: "?c = sym_code lens n"
        using P k l by (auto simp: placed_def s Let_def sym_code_def)
      have "sym_code lens n < 2 ^ 15"
        by (rule less_le_trans [OF sym_code_less [OF k u]]) (rule power_increasing [OF l(3)], simp)
      then show "uadd ?c 1 = Suc ?c" by (simp add: c uadd_def)
    qed
    have "placed lens (Suc n) (nc[?l := uadd ?c 1], ts', tb')"
      unfolding placed_def Let_def prod.case
    proof (intro conjI impI)
      show "length (nc[?l := uadd ?c 1]) = ?M + 1" "length ts' = 2 ^ ?M" "length tb' = 2 ^ ?M"
        using len f by simp_all
      show "\<forall>idx < 2 ^ ?M. 0 \<le> ts' ! idx \<longrightarrow> nat (ts' ! idx) < Suc n \<and> 0 < tb' ! idx \<and> tb' ! idx \<le> ?M"
      proof (intro allI impI)
        fix idx :: nat
        assume "idx < 2 ^ ?M" "0 \<le> ts' ! idx"
        then show "nat (ts' ! idx) < Suc n \<and> 0 < tb' ! idx \<and> tb' ! idx \<le> ?M"
          using P f(4) l by (cases "idx mod 2 ^ ?l = ?r") (auto simp: placed_def s Let_def less_Suc_eq)
      qed
    next
      assume k: "kraft_ok lens"
      show "\<forall>l. 0 < l \<and> l \<le> ?M \<longrightarrow> nc[?l := uadd ?c 1] ! l = first_code lens l + count_list (take (Suc n) lens) l"
        using P k exact [OF k] tk len l by (auto simp: placed_def s Let_def nth_list_update)
    next
      assume k: "kraft_ok lens"
      have m: "starts_with lens n (nbits ?M idx) \<longleftrightarrow> idx mod 2 ^ ?l = ?r" for idx
        using starts_with_entry [OF u M, of idx] exact(1) [OF k] by simp
      have uniq: "t = n" if "starts_with lens t (nbits ?M idx)" "starts_with lens n (nbits ?M idx)" for t idx
        using starts_with_unique [OF k that] by simp
      show "\<forall>idx < 2 ^ ?M. (\<forall>t < Suc n. starts_with lens t (nbits ?M idx) \<longrightarrow> ts' ! idx = int t \<and> tb' ! idx = lens ! t)
          \<and> ((\<forall>t < Suc n. \<not> starts_with lens t (nbits ?M idx)) \<longrightarrow> ts' ! idx = -1)"
        using P k f(4) uniq unfolding placed_def s Let_def prod.case m [symmetric]
        by (metis less_Suc_eq)
    qed
    then show ?thesis using run by blast
  qed
qed

lemma build_table_run:
  assumes "0 < longest_code lens" and "longest_code lens \<le> 15"
  shows "\<exists>T. build_huffman_table lens = returns (Inr T) \<and> table_ok (length lens) T
    \<and> snd T = longest_code lens \<and> (kraft_ok lens \<longrightarrow> table_for lens T)"
proof -
  let ?M = "longest_code lens"
  obtain bl where bl: "count_lengths lens ?M = returns bl" "length bl = ?M + 1"
    "(\<forall>l. 0 < l \<longrightarrow> count_list lens l < usize_span) \<longrightarrow>
      (\<forall>l \<le> ?M. bl ! l = (if l = 0 then 0 else count_list lens l))"
    using count_lengths_run [of lens ?M] by auto
  obtain c nc where nc: "first_codes bl ?M = returns (c, nc)" "length nc = ?M + 1"
    "(\<forall>l \<le> ?M. bl ! l = (if l = 0 then 0 else count_list lens l) \<and> first_code lens l < usize_span) \<longrightarrow>
      (\<forall>l. 0 < l \<and> l \<le> ?M \<longrightarrow> nc ! l = first_code lens l)"
    using first_codes_run [OF bl(2) assms(1), of lens] by blast
  have exact: "nc ! l = first_code lens l" if k: "kraft_ok lens" and l: "0 < l" "l \<le> ?M" for l
  proof -
    have small: "(2 :: nat) ^ m < usize_span" if "m \<le> ?M" for m
    proof -
      have "(2 :: nat) ^ m \<le> 2 ^ 15" using that assms(2) by (intro power_increasing) auto
      also have "\<dots> < usize_span" by simp
      finally show ?thesis .
    qed
    have fit: "first_code lens m + count_list lens m < usize_span" if "0 < m" "m \<le> ?M" for m
      by (rule le_less_trans [OF codes_fit [OF k that(2,1)] small [OF that(2)]])
    have cnt: "count_list lens m < usize_span" if "0 < m" for m
      using fit [OF that] count_above_longest [of lens m] by (cases "m \<le> ?M") (auto simp: not_le)
    have fc: "first_code lens m < usize_span" if "m \<le> ?M" for m
      using fit [of m] that by (cases "m = 0") auto
    show ?thesis using bl(3) nc(3) cnt fc l by auto
  qed
  have "\<exists>s. run_fold (place_symbol ?M) (zip [0..<length lens] lens)
        (nc, replicate (2 ^ ?M) (-1), replicate (2 ^ ?M) 0) = returns s
      \<and> placed lens (length (zip [0..<length lens] lens)) s"
  proof (rule run_fold_invariant [where P = "placed lens"])
    show "placed lens 0 (nc, replicate (2 ^ ?M) (-1), replicate (2 ^ ?M) 0)"
      using nc(2) exact by (simp add: placed_def Let_def)
    show "\<exists>s'. place_symbol ?M (zip [0..<length lens] lens ! n) s = returns s' \<and> placed lens (Suc n) s'"
      if "n < length (zip [0..<length lens] lens)" "placed lens n s" for n s
      using place_symbol_step [OF assms(2), of n s] that by simp
  qed
  then obtain nc' ts tb where run: "run_fold (place_symbol ?M) (zip [0..<length lens] lens)
      (nc, replicate (2 ^ ?M) (-1), replicate (2 ^ ?M) 0) = returns (nc', ts, tb)"
    and P: "placed lens (length lens) (nc', ts, tb)"
    by auto
  have "build_huffman_table lens = returns (Inr ((ts, tb), ?M))"
    using assms bl(1) nc(1) run by (simp add: build_huffman_table_def)
  moreover have "table_ok (length lens) ((ts, tb), ?M)"
    using P assms by (auto simp: placed_def Let_def)
  moreover have "starts_with lens s bs \<Longrightarrow> s < length lens" for s bs
    by (simp add: starts_with_def used_def)
  then have "kraft_ok lens \<longrightarrow> table_for lens ((ts, tb), ?M)"
    using P by (auto simp: placed_def Let_def)
  ultimately show ?thesis by fastforce
qed

section \<open>Decoding a symbol\<close>

lemma decode_symbol_run:
  assumes "table_ok n T" and "buf_ok z"
  shows "\<exists>r z'. decode_symbol T z = returns (r, z') \<and> buf_ok z' \<and> same_data z z'
    \<and> (case r of Inl e \<Rightarrow> zbits z' = zbits z | Inr s \<Rightarrow> s < n \<and> length (zbits z') < length (zbits z))"
proof -
  obtain ts tb bits where T: "T = ((ts, tb), bits)" by (metis prod.exhaust)
  obtain r z1 where e: "ensure_bits bits z = returns (r, z1)" "zbits z1 = zbits z" "buf_ok z1"
      "same_data z z1" "if bits \<le> length (zbits z) then r = Inr () \<and> bits \<le> bitcnt z1 else r = Inl UnexpectedEoF"
    using ensure_bits_run [OF assms(2), of bits] assms(1) T by auto
  show ?thesis
  proof (cases "bits \<le> length (zbits z)")
    case False
    then show ?thesis using e by (auto simp: T decode_symbol_def)
  next
    case True
    then have r: "r = Inr ()" "bits \<le> bitcnt z1" using e by auto
    let ?i = "unat (bitbuf z1 AND low_mask bits)"
    have i: "?i < 2 ^ bits" by (rule low_mask_value(2) [OF e(3) r(2)])
    show ?thesis
    proof (cases "ts ! ?i < 0")
      case neg: True
      then show ?thesis
        using e r i assms(1) by (auto simp: T decode_symbol_def throw_def)
    next
      case False
      then have s: "nat (ts ! ?i) < n" "0 < tb ! ?i" "tb ! ?i \<le> bits"
        using assms(1) i by (auto simp: T)
      have "tb ! ?i \<le> bitcnt z1" using s r by simp
      note d = drop_bits_ok [OF e(3) this]
      have "length (zbits (drop_bits (tb ! ?i) z1)) < length (zbits z)"
        using d(1) e(2) s True by simp
      moreover have "decode_symbol T z = returns (Inr (nat (ts ! ?i)), drop_bits (tb ! ?i) z1)"
        using e(1) r i False assms(1) by (simp add: T decode_symbol_def succeed_def Let_def)
      ultimately show ?thesis
        using s(1) d e(4) by (auto intro: same_data_trans)
    qed
  qed
qed

lemma decode_symbol_codeword [zread]:
  assumes "table_ok n T" and "table_for lens T" and "buf_ok z" and "used lens s"
    and "zbits z = codeword lens s @ bs" and "snd T \<le> length (zbits z)"
  shows "\<exists>z'. decode_symbol T z = returns (Inr s, z') \<and> zbits z' = bs \<and> buf_ok z' \<and> same_data z z'"
proof -
  obtain ts tb bits where T: "T = ((ts, tb), bits)" by (metis prod.exhaust)
  have bits: "bits = longest_code lens" "bits \<le> 15" "length ts = 2 ^ bits" "length tb = 2 ^ bits"
    using assms(1,2) by (auto simp: T)
  obtain z1 where e: "ensure_bits bits z = returns (Inr (), z1)" "zbits z1 = zbits z" "buf_ok z1"
      "same_data z z1" "bits \<le> bitcnt z1"
    using ensure_bits_ok [OF assms(3), of bits] bits assms(6) T by auto
  let ?i = "unat (bitbuf z1 AND low_mask bits)"
  have i: "?i < 2 ^ bits" "nbits bits ?i = take bits (zbits z)"
    using low_mask_value [OF e(3,5)] e(2) by simp_all
  have le: "lens ! s \<le> bits" using longest_nth [of s lens] assms(4) bits by (simp add: used_def)
  have "starts_with lens s (nbits bits ?i)"
    using assms(4,5) le by (simp add: starts_with_def i(2) min_def)
  then have t: "ts ! ?i = int s" "tb ! ?i = lens ! s"
    using assms(2) i(1) by (auto simp: T)
  have "lens ! s \<le> bitcnt z1" using le e(5) by simp
  note d = drop_bits_ok [OF e(3) this]
  have "decode_symbol T z = returns (Inr s, drop_bits (lens ! s) z1)"
    using e(1) t i(1) bits by (simp add: T decode_symbol_def succeed_def)
  then show ?thesis
    using d e(2,4) assms(5) by (auto intro: same_data_trans)
qed

end
