(* ===== verification/Inflate_Total.thy ===== *)
theory Inflate_Total
  imports Huffman_Table
begin

text \<open>
  The decoder returns on every input: an operation that \<open>runs\<close> neither panics nor loops, keeps
  the buffer consistent and never gives bits back. Loops end because every Huffman symbol and
  every block header takes at least one bit.
\<close>

section \<open>Operations that return\<close>

definition runs_at :: "'a zop \<Rightarrow> zlib_decoder \<Rightarrow> bool" where
  "runs_at m z \<longleftrightarrow> (\<exists>r z'. m z = returns (r, z') \<and> buf_ok z' \<and> input z' = input z
     \<and> length (zbits z') \<le> length (zbits z))"

definition runs :: "'a zop \<Rightarrow> bool" where
  "runs m \<longleftrightarrow> (\<forall>z. buf_ok z \<longrightarrow> runs_at m z)"

named_theorems running \<open>operations that return\<close>

lemma runs_atI:
  assumes "m z = returns (r, z')" and "buf_ok z'" and "input z' = input z" and "length (zbits z') \<le> length (zbits z)"
  shows "runs_at m z"
  using assms unfolding runs_at_def by blast

lemma runs_at_try:
  assumes "runs_at m z"
    and "\<And>v z'. \<lbrakk>m z = returns (Inr v, z'); buf_ok z'; length (zbits z') \<le> length (zbits z)\<rbrakk> \<Longrightarrow> runs_at (f v) z'"
  shows "runs_at (try_then m f) z"
proof -
  obtain r z' where m: "m z = returns (r, z')" "buf_ok z'" "input z' = input z" "length (zbits z') \<le> length (zbits z)"
    using assms(1) unfolding runs_at_def by blast
  show ?thesis
  proof (cases r)
    case (Inl e)
    then show ?thesis using m by (intro runs_atI) auto
  next
    case (Inr v)
    then show ?thesis
      using m assms(2) [of v z'] unfolding runs_at_def by fastforce
  qed
qed

lemma runsD: "runs m \<Longrightarrow> buf_ok z \<Longrightarrow> runs_at m z"
  by (simp add: runs_def)

lemma runs_try [running]: "runs m \<Longrightarrow> (\<And>v. runs (f v)) \<Longrightarrow> runs (try_then m f)"
  unfolding runs_def by (auto intro: runs_at_try)

lemma runs_succeed [running]: "runs (succeed v)"
  and runs_throw [running]: "runs (throw e)"
  by (auto simp: runs_def succeed_def throw_def intro!: runs_atI)

lemma runs_if [running]: "(b \<Longrightarrow> runs m) \<Longrightarrow> (\<not> b \<Longrightarrow> runs m') \<Longrightarrow> runs (if b then m else m')"
  by simp

lemma runs_Let [running]: "runs (f x) \<Longrightarrow> runs (Let x f)"
  by simp

lemma runs_ensure [running]: "n \<le> 15 \<Longrightarrow> runs (ensure_bits n)"
  unfolding runs_def
proof (intro allI impI)
  fix z
  assume "n \<le> 15" "buf_ok z"
  then obtain r z' where "ensure_bits n z = returns (r, z')" "zbits z' = zbits z" "buf_ok z'" "same_data z z'"
    using ensure_bits_run by blast
  then show "runs_at (ensure_bits n) z" by (auto simp: same_data_def intro: runs_atI)
qed

lemma runs_read_bits [running]: "n \<le> 15 \<Longrightarrow> runs (read_bits n)"
  unfolding runs_def
proof (intro allI impI)
  fix z
  assume "n \<le> 15" "buf_ok z"
  then obtain r z' where "read_bits n z = returns (r, z')" "buf_ok z'" "same_data z z'"
    "if n \<le> length (zbits z)
       then \<exists>v. r = Inr v \<and> nbits n (unat v) = take n (zbits z) \<and> unat v < 2 ^ n \<and> zbits z' = drop n (zbits z)
       else r = Inl UnexpectedEoF \<and> zbits z' = zbits z"
    using read_bits_run by blast
  then show "runs_at (read_bits n) z"
    by (auto simp: same_data_def intro!: runs_atI split: if_splits)
qed

lemma runs_read_byte [running]: "runs read_byte"
  unfolding runs_def
proof (intro allI impI)
  fix z
  assume "buf_ok z"
  then show "runs_at read_byte z"
    by (cases "pos z < length (input z)")
      (auto simp: read_byte_Some read_byte_eof buf_ok_def length_zbits intro!: runs_atI)
qed

lemma runs_decode [running]: "table_ok n T \<Longrightarrow> runs (decode_symbol T)"
  unfolding runs_def
proof (intro allI impI)
  fix z
  assume "table_ok n T" "buf_ok z"
  then obtain r z' where "decode_symbol T z = returns (r, z')" "buf_ok z'" "same_data z z'"
    "case r of Inl e \<Rightarrow> zbits z' = zbits z | Inr s \<Rightarrow> s < n \<and> length (zbits z') < length (zbits z)"
    using decode_symbol_run by blast
  then show "runs_at (decode_symbol T) z"
    by (cases r) (auto simp: same_data_def runs_at_def)
qed

section \<open>Copying a match\<close>

text \<open>The reference: one byte at a time, each read from \<open>d\<close> back at that moment.\<close>

fun lz_copy :: "nat \<Rightarrow> nat \<Rightarrow> 'a list \<Rightarrow> 'a list" where
  "lz_copy d 0 out = out"
| "lz_copy d (Suc n) out = lz_copy d n (out @ [out ! (length out - d)])"

lemma lz_copy_closed:
  assumes "0 < d" and "d \<le> length out"
  shows "lz_copy d n out = out @ map (\<lambda>j. out ! (length out - d + j mod d)) [0..<n]"
  using assms
proof (induction n arbitrary: out)
  case (Suc n)
  let ?x = "out ! (length out - d)"
  have shift: "(out @ [?x]) ! (length out + 1 - d + j mod d) = out ! (length out - d + Suc j mod d)" for j
  proof (cases "Suc (j mod d) = d")
    case True
    then show ?thesis using Suc.prems by (simp add: mod_Suc nth_append)
  next
    case False
    then have lt: "Suc (j mod d) < d" using Suc.prems(1) by (simp add: Suc_lessI)
    then have e: "length out + 1 - d + j mod d = length out - d + Suc (j mod d)"
      and i: "length out - d + Suc (j mod d) < length out"
      using Suc.prems by arith+
    have "Suc j mod d = Suc (j mod d)" using False by (simp add: mod_Suc)
    then show ?thesis using i unfolding e by (simp only: nth_append if_True)
  qed
  have "map (\<lambda>j. out ! (length out - d + j mod d)) [0..<Suc n]
      = ?x # map (\<lambda>j. out ! (length out - d + Suc j mod d)) [0..<n]"
    by (simp add: upt_conv_Cons map_Suc_upt [symmetric] del: upt_Suc)
  then show ?case
    using Suc.IH [of "out @ [?x]"] Suc.prems shift by simp
qed simp

lemma lz_copy_bytewise:
  assumes "0 < d" and "d \<le> length out"
  shows "length (lz_copy d n out) = length out + n"
    and "j < n \<Longrightarrow> lz_copy d n out ! (length out + j) = lz_copy d n out ! (length out + j - d)"
proof -
  show "length (lz_copy d n out) = length out + n"
    by (simp add: lz_copy_closed [OF assms])
  assume j: "j < n"
  show "lz_copy d n out ! (length out + j) = lz_copy d n out ! (length out + j - d)"
  proof (cases "j < d")
    case True
    then have "length out + j - d < length out" "length out + j - d = length out - d + j"
      using assms by arith+
    then show ?thesis
      using True j by (simp add: lz_copy_closed [OF assms] nth_append)
  next
    case False
    then obtain k where k: "j = d + k" by (metis le_add_diff_inverse not_less)
    then show ?thesis
      using assms j by (simp add: lz_copy_closed [OF assms] nth_append)
  qed
qed

lemma buf_ok_out [simp]: "buf_ok (z\<lparr>out_vec := o'\<rparr>) = buf_ok z"
  and zbits_out [simp]: "zbits (z\<lparr>out_vec := o'\<rparr>) = zbits z"
  by (simp_all add: buf_ok_def zbits_def buffered_def)

lemma copy_back_run:
  assumes "0 < d" and "d \<le> length (out_vec z)"
  shows "copy_back d n z = returns (Inr (), z\<lparr>out_vec := lz_copy d n (out_vec z)\<rparr>)"
proof -
  let ?o = "out_vec z"
  let ?P = "\<lambda>k s. s = z\<lparr>out_vec := ?o @ map (\<lambda>j. ?o ! (length ?o - d + j mod d)) [0..<k]\<rparr>"
  have "\<exists>s. run_fold (\<lambda>i z'. and_then (item_at (out_vec z') (length ?o - d + i mod d))
            (\<lambda>b. returns (push_out b z'))) [0..<n] z = returns s \<and> ?P (length [0..<n]) s"
  proof (rule run_fold_invariant [where P = ?P])
    fix k s
    assume k: "k < length [0..<n]" and s: "?P k s"
    have "k mod d < d" using assms(1) by simp
    then have i: "length ?o - d + k mod d < length ?o" using assms(2) by linarith
    then show "\<exists>s'. and_then (item_at (out_vec s) (length ?o - d + [0..<n] ! k mod d))
        (\<lambda>b. returns (push_out b s)) = returns s' \<and> ?P (Suc k) s'"
      using k s by (simp add: push_out_def nth_append)
  qed simp
  then show ?thesis
    by (simp add: copy_back_def succeed_def lz_copy_closed [OF assms] Let_def)
qed

lemma extras_small:
  "i < length len_base \<Longrightarrow> len_extra ! i \<le> 15"
  "i < length dist_base \<Longrightarrow> dist_extra ! i \<le> 15"
  "i < length dist_base \<Longrightarrow> 0 < dist_base ! i"
proof -
  have "\<forall>x \<in> set len_extra. x \<le> 15" "length len_extra = length len_base"
    "\<forall>x \<in> set dist_extra. x \<le> 15" "length dist_extra = length dist_base" "\<forall>x \<in> set dist_base. 0 < x"
    by (simp_all add: len_base_def len_extra_def dist_base_def dist_extra_def)
  then show "i < length len_base \<Longrightarrow> len_extra ! i \<le> 15"
    "i < length dist_base \<Longrightarrow> dist_extra ! i \<le> 15" "i < length dist_base \<Longrightarrow> 0 < dist_base ! i"
    by (metis nth_mem)+
qed

lemma runs_extra [running]: "n \<le> 15 \<Longrightarrow> runs (extra_value n)"
  unfolding extra_value_def by (intro running)

lemma runs_copy_match [running]:
  assumes "table_ok n D"
  shows "runs (copy_match D idx)"
  unfolding copy_match_def
proof (intro runs_decode [OF assms] running)
  fix extra_bits dist_idx extrad :: nat
  show "runs (\<lambda>z. let distance = dist_base ! dist_idx + extrad in
      if distance = 0 \<or> distance > length (out_vec z) then throw InvalidFormat z
      else copy_back distance (len_base ! idx + extra_bits) z)"
    unfolding runs_def Let_def
  proof (intro allI impI)
    fix z
    assume ok: "buf_ok z"
    let ?d = "dist_base ! dist_idx + extrad" and ?n = "len_base ! idx + extra_bits"
    have "runs_at (copy_back ?d ?n) z" if "\<not> (?d = 0 \<or> ?d > length (out_vec z))"
      by (rule runs_atI [OF copy_back_run]) (use that ok in auto)
    moreover have "runs_at (throw InvalidFormat :: unit zop) z"
      by (rule runsD [OF runs_throw ok])
    ultimately show "runs_at (\<lambda>z. if ?d = 0 \<or> ?d > length (out_vec z)
        then throw InvalidFormat z else copy_back ?d ?n z) z"
      unfolding runs_at_def by (cases "?d = 0 \<or> ?d > length (out_vec z)") auto
  qed
qed (auto simp: not_le extras_small)

section \<open>The loops end\<close>

lemma runs_inflate [running]:
  assumes "table_ok n T" and "table_ok m D"
  shows "runs (inflate_using_tables T D)"
  unfolding runs_def
proof (intro allI impI)
  fix z
  assume "buf_ok z"
  then show "runs_at (inflate_using_tables T D) z"
  proof (induction "length (zbits z)" arbitrary: z rule: less_induct)
    case less
    have dec: "runs_at (decode_symbol T) z"
      using runs_decode [OF assms(1)] less.prems by (simp add: runs_def)
    have "runs_at (try_then (decode_symbol T) (\<lambda>lit_sym z.
       if lit_sym < 256 then inflate_using_tables T D (push_out (of_nat lit_sym) z)
       else if lit_sym = 256 then succeed () z
       else if 257 \<le> lit_sym \<and> lit_sym \<le> 285
       then try_then (copy_match D (lit_sym - 257)) (\<lambda>_ z. inflate_using_tables T D z) z
       else throw InvalidFormat z)) z" (is "runs_at (try_then _ ?f) z")
    proof (rule runs_at_try [OF dec])
      fix v z'
      assume d: "decode_symbol T z = returns (Inr v, z')" and ok: "buf_ok z'"
      then have lt: "length (zbits z') < length (zbits z)"
        using decode_symbol_run [OF assms(1) less.prems] by auto
      have rec: "runs_at (inflate_using_tables T D) z''" if "buf_ok z''" "length (zbits z'') \<le> length (zbits z')" for z''
        using less.hyps [of z''] that lt by simp
      have m: "runs_at (try_then (copy_match D (v - 257)) (\<lambda>_ z. inflate_using_tables T D z)) z'"
        using runs_copy_match [OF assms(2), of "v - 257"] ok rec
        by (intro runs_at_try) (auto simp: runs_def)
      have p: "runs_at (\<lambda>z. inflate_using_tables T D (push_out (of_nat v) z)) z'"
        using rec [of "push_out (of_nat v) z'"] ok by (simp add: runs_at_def)
      have s: "runs_at (succeed ()) z'" "runs_at (throw InvalidFormat :: unit zop) z'"
        by (intro runsD [OF _ ok] running)+
      show "runs_at (?f v) z'"
        using m p s by (simp add: runs_at_def)
    qed
    then show ?case
      unfolding runs_at_def by (simp add: inflate_using_tables.simps [of T D z])
  qed
qed

lemma runs_read_lengths [running]:
  assumes "table_ok n T"
  shows "runs (read_lengths T k ls i)"
proof -
  have "runs_at (read_lengths T k ls i) z" if "buf_ok z" for z
    using that
  proof (induction "length (zbits z)" arbitrary: z ls i rule: less_induct)
    case less
    show ?case
    proof (cases "i < k")
      case False
      then show ?thesis
        using runs_succeed [of ls] less.prems
        by (simp add: runs_def runs_at_def read_lengths.simps [of T k ls i z])
    next
      case True
      let ?f = "\<lambda>s z. if s \<le> 15 then read_lengths T k (ls @ [s]) (i + 1) z
          else if s = 16 then
            (if ls = [] then throw InvalidFormat z
             else try_then (read_bits 2) (\<lambda>extra z. let repeat = 3 + unat extra in
               read_lengths T k (ls @ replicate repeat (last ls)) (i + repeat) z) z)
          else if s = 17 then
            try_then (read_bits 3) (\<lambda>extra z. let repeat = 3 + unat extra in
               read_lengths T k (ls @ replicate repeat 0) (i + repeat) z) z
          else if s = 18 then
            try_then (read_bits 7) (\<lambda>extra z. let repeat = 11 + unat extra in
               read_lengths T k (ls @ replicate repeat 0) (i + repeat) z) z
          else throw InvalidFormat z"
      have dec: "runs_at (decode_symbol T) z"
        using runs_decode [OF assms] less.prems by (simp add: runs_def)
      have "runs_at (try_then (decode_symbol T) ?f) z"
      proof (rule runs_at_try [OF dec])
        fix s z'
        assume d: "decode_symbol T z = returns (Inr s, z')" and ok: "buf_ok z'"
        then have lt: "length (zbits z') < length (zbits z)"
          using decode_symbol_run [OF assms less.prems] by auto
        have rec: "runs_at (read_lengths T k ls' i') z''"
          if "buf_ok z''" "length (zbits z'') \<le> length (zbits z')" for ls' i' z''
          using less.hyps [of z''] that lt by simp
        have rep: "runs_at (try_then (read_bits b) (\<lambda>extra z. let repeat = c + unat extra in
            read_lengths T k (ls @ replicate repeat x) (i + repeat) z)) z'" if "b \<le> 15" for b c x
          using runs_read_bits [OF that] ok rec
          by (intro runs_at_try) (auto simp: runs_def Let_def)
        have "runs_at (throw InvalidFormat :: (nat list) zop) z'"
          by (rule runsD [OF runs_throw ok])
        then show "runs_at (?f s) z'"
          using rec [OF ok order_refl] rep [of 2 3 "last ls"] rep [of 3 3 0] rep [of 7 11 0]
          by (simp add: runs_at_def)
      qed
      then show ?thesis
        using True unfolding runs_at_def by (simp add: read_lengths.simps [of T k ls i z])
    qed
  qed
  then show ?thesis by (simp add: runs_def)
qed

end
