(* ===== verification/Inflate_Decode.thy ===== *)
theory Inflate_Decode
  imports Inflate_Total
begin

text \<open>
  What the decoder makes of a stream: blocks and streams return, a block of Huffman codes
  yields the expansion of the tokens it encodes, and stored blocks yield their bytes.
\<close>

section \<open>Blocks return\<close>

lemma runs_build_table: "runs_at (try_then (build_table lens) f) z"
  if "buf_ok z" and "\<And>T. table_ok (length lens) T \<Longrightarrow> runs (f T)"
proof (cases "0 < longest_code lens \<and> longest_code lens \<le> 15")
  case True
  then obtain T where T: "build_huffman_table lens = returns (Inr T)" "table_ok (length lens) T"
    using build_table_run by blast
  show ?thesis
    using T(1) runsD [OF that(2) [OF T(2)] that(1)] by (simp add: runs_at_def build_table_def try_then_def)
next
  case False
  then have "build_huffman_table lens = returns (Inl InvalidFormat)"
    by (auto simp: build_huffman_table_def)
  then show ?thesis
    using that(1) by (auto simp: build_table_def try_then_def runs_at_def)
qed

lemma runs_with_table [running]:
  "(\<And>T. table_ok (length lens) T \<Longrightarrow> runs (f T)) \<Longrightarrow> runs (try_then (build_table lens) f)"
  by (simp add: runs_def runs_build_table)

lemma runs_coded_block [running]: "runs (coded_block lens dlens)"
  unfolding coded_block_def by (intro running)

lemma runs_copy_stored [running]: "runs (copy_stored n)"
proof (induction n)
  case 0
  have "copy_stored 0 = succeed ()" by (rule ext) simp
  then show ?case by (simp add: runs_succeed)
next
  case (Suc n)
  have "runs_at (\<lambda>z. copy_stored n (push_out b z)) z" if "buf_ok z" for b z
    using runsD [OF Suc, of "push_out b z"] that by (simp add: runs_at_def)
  then have push: "runs (\<lambda>z. copy_stored n (push_out b z))" for b
    by (simp add: runs_def)
  have "copy_stored (Suc n) = try_then read_byte (\<lambda>b z. copy_stored n (push_out b z))"
    by (rule ext) simp
  then show ?case by (simp add: running push)
qed

lemma runs_read_u16 [running]: "runs read_u16"
  unfolding read_u16_def by (intro running)

lemma runs_stored_block [running]: "runs stored_block"
  unfolding runs_def
proof (intro allI impI)
  fix z
  assume ok: "buf_ok z"
  let ?m = "try_then read_u16 (\<lambda>len. try_then read_u16 (\<lambda>nlen.
       if len \<noteq> NOT nlen then throw InvalidFormat else copy_stored (unat len)))"
  have "runs_at ?m (byte_align z)"
    by (rule runsD [OF _ byte_align_ok(2) [OF ok]]) (intro running)
  then show "runs_at stored_block z"
    using byte_align_ok [OF ok] by (auto simp: runs_at_def stored_block_def same_data_def)
qed

lemma runs_read_code_lengths [running]:
  "\<forall>s \<in> set order. s < length cl \<Longrightarrow> runs (read_code_lengths order cl)"
proof (induction order arbitrary: cl)
  case Nil
  have "read_code_lengths [] cl = succeed cl" by (rule ext) simp
  then show ?case by (simp add: runs_succeed)
next
  case (Cons s order)
  have "read_code_lengths (s # order) cl
      = try_then (read_bits 3) (\<lambda>v. read_code_lengths order (cl[s := unat v]))"
    using Cons.prems by (intro ext) (simp add: try_then_def)
  moreover have "runs (read_code_lengths order (cl[s := unat v]))" for v :: u32
    using Cons by simp
  ultimately show ?case by (simp add: running)
qed

lemma runs_dynamic_block [running]: "runs dynamic_block"
proof -
  have order: "\<forall>s \<in> set (take n cl_order). s < length (replicate 19 (0 :: nat))" for n
    by (auto simp: cl_order_def dest!: in_set_takeD)
  have four: "\<not> unat v + 4 > length cl_order" if "unat v < 2 ^ 4" for v :: u32
    using that by (simp add: cl_order_def)
  have bound: "unat v < 2 ^ 4" if v: "read_bits 4 z = returns (Inr v, z')" and ok: "buf_ok z" for v z z'
    using read_bits_run [OF ok, of 4] v by (auto split: if_splits)
  let ?body = "\<lambda>hlit hdist hclen. try_then (read_code_lengths (take hclen cl_order) (replicate 19 0)) (\<lambda>cl_lengths.
         try_then (build_table cl_lengths) (\<lambda>cl_table.
           try_then (read_lengths cl_table (hlit + hdist) [] 0) (\<lambda>lengths.
             if length lengths \<noteq> hlit + hdist then throw InvalidFormat
             else coded_block (take hlit lengths) (drop hlit lengths))))"
  have body: "runs (?body hlit hdist hclen)" for hlit hdist hclen
    by (intro running order)
  have "runs (try_then (read_bits 4) (\<lambda>v3. let hlit = unat v1 + 257; hdist = unat v2 + 1; hclen = unat v3 + 4 in
       if hclen > length cl_order then (\<lambda>z. panics) else ?body hlit hdist hclen))" for v1 v2 :: u32
    unfolding runs_def
  proof (intro allI impI)
    fix z
    assume ok: "buf_ok z"
    show "runs_at (try_then (read_bits 4) (\<lambda>v3. let hlit = unat v1 + 257; hdist = unat v2 + 1; hclen = unat v3 + 4 in
       if hclen > length cl_order then (\<lambda>z. panics) else ?body hlit hdist hclen)) z"
    proof (rule runs_at_try)
      show "runs_at (read_bits 4) z" by (rule runsD [OF runs_read_bits ok]) simp
      fix v z'
      assume v: "read_bits 4 z = returns (Inr v, z')" and ok': "buf_ok z'"
      show "runs_at (let hlit = unat v1 + 257; hdist = unat v2 + 1; hclen = unat v + 4 in
          if hclen > length cl_order then (\<lambda>z. panics) else ?body hlit hdist hclen) z'"
        unfolding Let_def using four [OF bound [OF v ok]]
          by (simp only: if_False) (rule runsD [OF body ok'])
    qed
  qed
  note last = this
  show ?thesis
    unfolding dynamic_block_def
    by (rule runs_try [OF runs_read_bits], simp, rule runs_try [OF runs_read_bits], simp, rule last)
qed

lemma runs_block [running]: "runs (block_of_type t)"
  unfolding block_of_type_def fixed_block_def by (intro running)

lemma runs_read_blocks [running]: "runs read_blocks"
  unfolding runs_def
proof (intro allI impI)
  fix z
  assume "buf_ok z"
  then show "runs_at read_blocks z"
  proof (induction "length (zbits z)" arbitrary: z rule: less_induct)
    case less
    have "runs_at (try_then (read_bits 1) (\<lambda>final_bit z. try_then (read_bits 2) (\<lambda>btype z.
       try_then (block_of_type (unat btype)) (\<lambda>_ z.
         if final_bit \<noteq> 0 then succeed () z else read_blocks z) z) z)) z"
    proof (rule runs_at_try)
      show "runs_at (read_bits 1) z" by (rule runsD [OF runs_read_bits less.prems]) simp
      fix final_bit z1
      assume f: "read_bits 1 z = returns (Inr final_bit, z1)" and ok1: "buf_ok z1"
      then have lt: "length (zbits z1) < length (zbits z)"
        using read_bits_run [OF less.prems, of 1] by (auto split: if_splits)
      show "runs_at (\<lambda>z. try_then (read_bits 2) (\<lambda>btype z.
         try_then (block_of_type (unat btype)) (\<lambda>_ z.
           if final_bit \<noteq> 0 then succeed () z else read_blocks z) z) z) z1"
      proof (rule runs_at_try)
        show "runs_at (read_bits 2) z1" by (rule runsD [OF runs_read_bits ok1]) simp
        fix btype z2
        assume ok2: "buf_ok z2" and le2: "length (zbits z2) \<le> length (zbits z1)"
        show "runs_at (\<lambda>z. try_then (block_of_type (unat btype)) (\<lambda>_ z.
           if final_bit \<noteq> 0 then succeed () z else read_blocks z) z) z2"
        proof (rule runs_at_try)
          show "runs_at (block_of_type (unat btype)) z2" by (rule runsD [OF runs_block ok2])
          fix u :: unit and z3
          assume ok3: "buf_ok z3" and le3: "length (zbits z3) \<le> length (zbits z2)"
          have "runs_at read_blocks z3" using less.hyps [of z3] lt le2 le3 ok3 by simp
          moreover have "runs_at (succeed ()) z3" by (rule runsD [OF runs_succeed ok3])
          ultimately show "runs_at (\<lambda>z. if final_bit \<noteq> 0 then succeed () z else read_blocks z) z3"
            by (simp add: runs_at_def)
        qed
      qed
    qed
    then show ?case unfolding runs_at_def by (simp add: read_blocks.simps [of z])
  qed
qed

lemma decompress_returns:
  assumes "buf_ok z"
  shows "\<exists>r z'. decompress_all z = returns (r, z')"
proof -
  have fin: "\<exists>r z'. finish_stream z = returns (r, z')" for z
    by (simp add: finish_stream_def succeed_def)
  have tail: "\<exists>r z'. try_then read_blocks (\<lambda>_. finish_stream) z = returns (r, z')" if "buf_ok z" for z
    using runsD [OF runs_read_blocks that] fin
    by (fastforce simp: runs_at_def try_then_def split: sum.splits)
  have byte: "\<exists>r z'. try_then read_byte f z = returns (r, z')"
    if "buf_ok z" "\<And>v z'. buf_ok z' \<Longrightarrow> \<exists>r z''. f v z' = returns (r, z'')" for z and f :: "u8 \<Rightarrow> unit zop"
    using runsD [OF runs_read_byte that(1)] that(2)
    by (fastforce simp: runs_at_def try_then_def split: sum.splits)
  show ?thesis
    unfolding decompress_all_def
    by (auto simp: succeed_def throw_def intro!: byte assms tail)
qed

section \<open>Tokens\<close>

text \<open>What a block of Huffman codes says: literal bytes, and matches given by their length
  symbol (less 257), the value of its extra bits, the distance symbol and its extra bits.\<close>

datatype token = Literal u8 | Match nat nat nat nat

fun token_bits :: "nat list \<Rightarrow> nat list \<Rightarrow> token \<Rightarrow> bool list" where
  "token_bits ll dl (Literal b) = codeword ll (unat b)"
| "token_bits ll dl (Match li le di de) =
     codeword ll (257 + li) @ nbits (len_extra ! li) le @ codeword dl di @ nbits (dist_extra ! di) de"

fun expand :: "token \<Rightarrow> u8 list \<Rightarrow> u8 list" where
  "expand (Literal b) out = out @ [b]"
| "expand (Match li le di de) out = lz_copy (dist_base ! di + de) (len_base ! li + le) out"

fun token_ok :: "nat list \<Rightarrow> nat list \<Rightarrow> u8 list \<Rightarrow> token \<Rightarrow> bool" where
  "token_ok ll dl out (Literal b) = used ll (unat b)"
| "token_ok ll dl out (Match li le di de) =
     (li < 29 \<and> used ll (257 + li) \<and> le < 2 ^ (len_extra ! li)
      \<and> di < 30 \<and> used dl di \<and> de < 2 ^ (dist_extra ! di) \<and> dist_base ! di + de \<le> length out)"

fun tokens_ok :: "nat list \<Rightarrow> nat list \<Rightarrow> u8 list \<Rightarrow> token list \<Rightarrow> bool" where
  "tokens_ok ll dl out [] = True"
| "tokens_ok ll dl out (t # ts) = (token_ok ll dl out t \<and> tokens_ok ll dl (expand t out) ts)"

lemma extra_value_ok:
  assumes "buf_ok z" and "n \<le> 15" and "zbits z = nbits n x @ bs" and "x < 2 ^ n"
  shows "\<exists>z'. extra_value n z = returns (Inr x, z') \<and> zbits z' = bs \<and> buf_ok z' \<and> same_data z z'"
proof (cases "n = 0")
  case True
  then show ?thesis using assms by (auto simp: extra_value_def succeed_def nbits_def)
next
  case False
  obtain v z' where "read_bits n z = returns (Inr v, z')" "unat v = x" "zbits z' = bs" "buf_ok z'" "same_data z z'"
    using read_bits_ok [OF assms] by blast
  then show ?thesis using False by (simp add: extra_value_def succeed_def)
qed

lemma table_bits: "table_ok n T \<Longrightarrow> snd T \<le> 15"
  by (auto elim!: table_ok.elims(2))

lemma copy_match_ok:
  assumes D: "table_ok m D" "table_for dl D" and ok: "buf_ok z"
    and z: "zbits z = nbits (len_extra ! li) le @ codeword dl di @ nbits (dist_extra ! di) de @ bs"
    and t: "li < 29" "le < 2 ^ (len_extra ! li)" "di < 30" "used dl di" "de < 2 ^ (dist_extra ! di)"
      "dist_base ! di + de \<le> length (out_vec z)"
    and bs: "15 \<le> length bs"
  shows "\<exists>z'. copy_match D li z = returns (Inr (), z') \<and> zbits z' = bs \<and> buf_ok z' \<and> input z' = input z
    \<and> finished z' = finished z \<and> out_vec z' = lz_copy (dist_base ! di + de) (len_base ! li + le) (out_vec z)"
proof -
  have n: "length len_base = 29" "length dist_base = 30" by (simp_all add: len_base_def dist_base_def)
  obtain z1 where z1: "extra_value (len_extra ! li) z = returns (Inr le, z1)"
    "zbits z1 = codeword dl di @ nbits (dist_extra ! di) de @ bs" "buf_ok z1" "same_data z z1"
    using extra_value_ok [OF ok _ z t(2)] extras_small(1) t(1) n by auto
  obtain z2 where z2: "decode_symbol D z1 = returns (Inr di, z2)"
    "zbits z2 = nbits (dist_extra ! di) de @ bs" "buf_ok z2" "same_data z1 z2"
    using decode_symbol_codeword [OF D z1(3) t(4) z1(2)] table_bits [OF D(1)] bs z1(2) by auto
  obtain z3 where z3: "extra_value (dist_extra ! di) z2 = returns (Inr de, z3)"
    "zbits z3 = bs" "buf_ok z3" "same_data z2 z3"
    using extra_value_ok [OF z2(3) _ z2(2) t(5)] extras_small(2) t(3) n by auto
  have out: "same_data z z3" using same_data_trans [OF same_data_trans [OF z1(4) z2(4)] z3(4)] .
  have d: "0 < dist_base ! di + de" "dist_base ! di + de \<le> length (out_vec z3)"
    using extras_small(3) [of di] t(3,6) n out by (auto simp: same_data_def)
  show ?thesis
    using z1(1) z2(1) z3 t(1,3) n d copy_back_run [OF d] out
    by (auto simp: copy_match_def same_data_def)
qed

lemma inflate_tokens:
  assumes T: "table_ok n T" "table_for ll T" and D: "table_ok m D" "table_for dl D"
    and eob: "used ll 256" and bs: "15 \<le> length bs"
  shows "\<lbrakk>buf_ok z; zbits z = concat (map (token_bits ll dl) ts) @ codeword ll 256 @ bs; tokens_ok ll dl (out_vec z) ts\<rbrakk>
    \<Longrightarrow> \<exists>z'. inflate_using_tables T D z = returns (Inr (), z') \<and> zbits z' = bs \<and> buf_ok z'
      \<and> input z' = input z \<and> finished z' = finished z \<and> out_vec z' = fold expand ts (out_vec z)"
proof (induction ts arbitrary: z)
  case Nil
  have "zbits z = codeword ll 256 @ bs" using Nil by simp
  from decode_symbol_codeword [OF T Nil(1) eob this] table_bits [OF T(1)] bs Nil
  show ?case
    by (auto simp: inflate_using_tables.simps [of T D z] succeed_def same_data_def)
next
  case (Cons t ts)
  let ?rest = "concat (map (token_bits ll dl) ts) @ codeword ll 256 @ bs"
  note sub = inflate_using_tables.simps [of T D z]
  show ?case
  proof (cases t)
    case (Literal b)
    have z: "zbits z = codeword ll (unat b) @ ?rest" and u: "used ll (unat b)"
      using Cons.prems Literal by auto
    obtain z1 where z1: "decode_symbol T z = returns (Inr (unat b), z1)" "zbits z1 = ?rest" "buf_ok z1" "same_data z z1"
      using decode_symbol_codeword [OF T Cons.prems(1) u z] table_bits [OF T(1)] bs z by auto
    have "unat b < 256" using unsigned_less [of b] by simp
    then show ?thesis
      using Cons.IH [of "push_out b z1"] Cons.prems(3) z1 Literal
      by (simp add: sub same_data_def)
  next
    case (Match li le di de)
    let ?tail = "nbits (len_extra ! li) le @ codeword dl di @ nbits (dist_extra ! di) de @ ?rest"
    have z: "zbits z = codeword ll (257 + li) @ ?tail" and u: "used ll (257 + li)"
      and t: "li < 29" "le < 2 ^ (len_extra ! li)" "di < 30" "used dl di" "de < 2 ^ (dist_extra ! di)"
        "dist_base ! di + de \<le> length (out_vec z)"
      using Cons.prems Match by auto
    obtain z1 where z1: "decode_symbol T z = returns (Inr (257 + li), z1)" "zbits z1 = ?tail" "buf_ok z1" "same_data z z1"
      using decode_symbol_codeword [OF T Cons.prems(1) u z] table_bits [OF T(1)] bs z by auto
    have l: "dist_base ! di + de \<le> length (out_vec z1)" "15 \<le> length ?rest"
      using t(6) z1(4) bs by (auto simp: same_data_def)
    obtain z2 where z2: "copy_match D li z1 = returns (Inr (), z2)" "zbits z2 = ?rest" "buf_ok z2"
      "input z2 = input z1" "finished z2 = finished z1"
      "out_vec z2 = lz_copy (dist_base ! di + de) (len_base ! li + le) (out_vec z1)"
      using copy_match_ok [OF D z1(3,2) t(1-5) l] by blast
    show ?thesis
      using Cons.IH [OF z2(3,2)] Cons.prems(3) z1 z2 Match t(1)
      by (simp add: sub same_data_def)
  qed
qed

lemma with_table:
  assumes "0 < longest_code lens" and "longest_code lens \<le> 15"
  shows "\<exists>T. table_ok (length lens) T \<and> (kraft_ok lens \<longrightarrow> table_for lens T)
    \<and> (\<forall>f z. try_then (build_table lens) f z = f T z)"
proof -
  obtain T where T: "build_huffman_table lens = returns (Inr T)" "table_ok (length lens) T"
    "kraft_ok lens \<longrightarrow> table_for lens T"
    using build_table_run [OF assms] by blast
  then have "\<forall>f z. try_then (build_table lens) f z = f T z"
    by (simp add: build_table_def)
  then show ?thesis using T(2,3) by blast
qed

lemma coded_block_tokens:
  assumes "kraft_ok ll" "0 < longest_code ll" "longest_code ll \<le> 15"
    and "kraft_ok dl" "0 < longest_code dl" "longest_code dl \<le> 15"
    and "used ll 256" and "15 \<le> length bs" and "buf_ok z"
    and "zbits z = concat (map (token_bits ll dl) ts) @ codeword ll 256 @ bs"
    and "tokens_ok ll dl (out_vec z) ts"
  shows "\<exists>z'. coded_block ll dl z = returns (Inr (), z') \<and> zbits z' = bs \<and> buf_ok z'
      \<and> input z' = input z \<and> finished z' = finished z \<and> out_vec z' = fold expand ts (out_vec z)"
proof -
  obtain T where T: "table_ok (length ll) T" "kraft_ok ll \<longrightarrow> table_for ll T"
      "\<forall>f z. try_then (build_table ll) f z = (f T z :: (fault + (error_code + unit) \<times> zlib_decoder) option)"
    using with_table [OF assms(2,3)] by blast
  obtain D where D: "table_ok (length dl) D" "kraft_ok dl \<longrightarrow> table_for dl D"
      "\<forall>f z. try_then (build_table dl) f z = (f D z :: (fault + (error_code + unit) \<times> zlib_decoder) option)"
    using with_table [OF assms(5,6)] by blast
  have "coded_block ll dl z = inflate_using_tables T D z"
    by (simp only: coded_block_def T(3) D(3))
  then show ?thesis
    using inflate_tokens [OF T(1) mp [OF T(2) assms(1)] D(1) mp [OF D(2) assms(4)] assms(7-11)] by simp
qed

end
