(* ===== verification/Inflate_Stream.thy ===== *)
theory Inflate_Stream
  imports Inflate_Decode
begin

text \<open>
  Encoders for two kinds of zlib streams, as specifications for the decoder: blocks with the
  fixed Huffman codes, and stored blocks. Both put the header \<open>78 01\<close> in front and the four
  bytes of the checksum, which the decoder does not look at, behind.
\<close>

section \<open>Packing bits into bytes\<close>

function pack_bits :: "bool list \<Rightarrow> u8 list" where
  "pack_bits bs = (if bs = [] then [] else horner_sum of_bool 2 (take 8 bs) # pack_bits (drop 8 bs))"
  by pat_completeness auto
termination by (relation "measure length") auto

declare pack_bits.simps [simp del]

lemma byte_bits_horner:
  assumes "length bs \<le> 8"
  shows "byte_bits (horner_sum of_bool 2 bs) = bs @ replicate (8 - length bs) False"
  by (rule nth_equalityI) (use assms in \<open>auto simp: byte_bits_def bit_horner_sum_bit_iff nth_append\<close>)

lemma pack_bits_inverse: "\<exists>pad. concat (map byte_bits (pack_bits bs)) = bs @ pad"
proof (induction bs rule: pack_bits.induct)
  case (1 bs)
  show ?case
  proof (cases "bs = []")
    case False
    note IH = 1 [OF False]
    show ?thesis
    proof (cases "length bs \<le> 8")
      case True
      then show ?thesis
        using False by (simp add: pack_bits.simps [of bs] pack_bits.simps [of "[]"] byte_bits_horner)
    next
      case long: False
      obtain pad where "concat (map byte_bits (pack_bits (drop 8 bs))) = drop 8 bs @ pad"
        using IH by blast
      moreover have "byte_bits (horner_sum of_bool 2 (take 8 bs)) = take 8 bs"
        using long byte_bits_horner [of "take 8 bs"] by simp
      ultimately have "concat (map byte_bits (pack_bits bs)) = take 8 bs @ drop 8 bs @ pad"
        using False by (simp add: pack_bits.simps [of bs])
      then show ?thesis
        by (simp only: append_assoc [symmetric] append_take_drop_id) blast
    qed
  qed simp
qed

section \<open>The fixed codes\<close>

lemma fixed_lengths:
  "length fixed_litlen_lengths = 288" "s < 288 \<Longrightarrow> used fixed_litlen_lengths s"
  "length fixed_dist_lengths = 32" "d < 32 \<Longrightarrow> used fixed_dist_lengths d"
  by (auto simp: fixed_litlen_lengths_def fixed_dist_lengths_def used_def)

lemma fixed_longest: "longest_code fixed_litlen_lengths = 9" "longest_code fixed_dist_lengths = 5"
  unfolding fixed_litlen_lengths_def fixed_dist_lengths_def longest_code_def
  by code_simp+

lemma fixed_kraft: "kraft_ok fixed_litlen_lengths" "kraft_ok fixed_dist_lengths"
  unfolding kraft_ok_def fixed_longest
  unfolding fixed_litlen_lengths_def fixed_dist_lengths_def
  by code_simp+

definition fixed_token_ok :: "u8 list \<Rightarrow> token \<Rightarrow> bool" where
  "fixed_token_ok out t = (case t of Literal b \<Rightarrow> True
     | Match li le di de \<Rightarrow> li < 29 \<and> le < 2 ^ (len_extra ! li) \<and> di < 30 \<and> de < 2 ^ (dist_extra ! di)
         \<and> dist_base ! di + de \<le> length out)"

text \<open>A token sequence is decodable when every match has symbols in range and a distance
  that reaches no further back than the data already there.\<close>

fun decodable :: "u8 list \<Rightarrow> token list \<Rightarrow> bool" where
  "decodable out [] = True"
| "decodable out (t # ts) = (fixed_token_ok out t \<and> decodable (expand t out) ts)"

lemma decodable_tokens_ok:
  "decodable out ts \<Longrightarrow> tokens_ok fixed_litlen_lengths fixed_dist_lengths out ts"
proof (induction ts arbitrary: out)
  case (Cons t ts)
  have "unat b < 256" for b :: u8 using unsigned_less [of b] by simp
  then have "unat b < 288" for b :: u8 using less_trans [of "unat b" 256 288] by simp
  then have "token_ok fixed_litlen_lengths fixed_dist_lengths out t"
    using Cons.prems by (cases t) (auto simp: fixed_token_ok_def fixed_lengths)
  then show ?case using Cons by simp
qed simp

lemma decodable_append:
  "decodable out (ts @ us) \<longleftrightarrow> decodable out ts \<and> decodable (fold expand ts out) us"
  by (induction ts arbitrary: out) auto

definition fixed_block_bits :: "bool \<Rightarrow> token list \<Rightarrow> bool list" where
  "fixed_block_bits final ts = nbits 1 (of_bool final) @ nbits 2 1
     @ concat (map (token_bits fixed_litlen_lengths fixed_dist_lengths) ts) @ codeword fixed_litlen_lengths 256"

fun blocks_bits :: "token list list \<Rightarrow> bool list" where
  "blocks_bits [] = []"
| "blocks_bits [ts] = fixed_block_bits True ts"
| "blocks_bits (ts # us # rest) = fixed_block_bits False ts @ blocks_bits (us # rest)"

definition zlib_encode :: "token list list \<Rightarrow> u8 list \<Rightarrow> u8 list" where
  "zlib_encode blocks checksum = [0x78, 0x01] @ pack_bits (blocks_bits blocks) @ checksum"

lemma header_bits:
  assumes "buf_ok z" and "zbits z = nbits 1 (of_bool final) @ nbits 2 t @ bs" and "t < 4"
  shows "\<exists>f z1 b z2. read_bits 1 z = returns (Inr f, z1) \<and> (f \<noteq> 0 \<longleftrightarrow> final)
    \<and> read_bits 2 z1 = returns (Inr b, z2) \<and> unat b = t \<and> zbits z2 = bs \<and> buf_ok z2 \<and> same_data z z2"
proof -
  obtain f z1 where 1: "read_bits 1 z = returns (Inr f, z1)" "unat f = of_bool final"
    "zbits z1 = nbits 2 t @ bs" "buf_ok z1" "same_data z z1"
    using read_bits_ok [OF assms(1) _ assms(2)] by (cases final) auto
  obtain b z2 where 2: "read_bits 2 z1 = returns (Inr b, z2)" "unat b = t" "zbits z2 = bs" "buf_ok z2" "same_data z1 z2"
    using read_bits_ok [OF 1(4) _ 1(3)] assms(3) by auto
  have "f \<noteq> 0 \<longleftrightarrow> final"
    using 1(2) by (cases final) (auto simp: unat_eq_0)
  then show ?thesis using 1 2 same_data_trans by blast
qed

lemma fixed_block_ok:
  assumes "buf_ok z" and "zbits z = concat (map (token_bits fixed_litlen_lengths fixed_dist_lengths) ts)
      @ codeword fixed_litlen_lengths 256 @ bs"
    and "15 \<le> length bs" and "decodable (out_vec z) ts"
  shows "\<exists>z'. block_of_type 1 z = returns (Inr (), z') \<and> zbits z' = bs \<and> buf_ok z' \<and> input z' = input z
    \<and> finished z' = finished z \<and> out_vec z' = fold expand ts (out_vec z)"
  using coded_block_tokens [OF fixed_kraft(1) _ _ fixed_kraft(2) _ _ _ assms(3,1,2) decodable_tokens_ok [OF assms(4)]]
  by (simp add: block_of_type_def fixed_block_def fixed_longest fixed_lengths)

lemma read_blocks_fixed:
  "\<lbrakk>blocks \<noteq> []; buf_ok z; zbits z = blocks_bits blocks @ bs; 15 \<le> length bs;
    decodable (out_vec z) (concat blocks)\<rbrakk>
   \<Longrightarrow> \<exists>z'. read_blocks z = returns (Inr (), z') \<and> zbits z' = bs \<and> buf_ok z' \<and> input z' = input z
     \<and> out_vec z' = fold expand (concat blocks) (out_vec z)"
proof (induction blocks arbitrary: z rule: blocks_bits.induct)
  case (2 ts)
  obtain f z1 b z2 where h: "read_bits 1 z = returns (Inr f, z1)" "f \<noteq> 0"
    "read_bits 2 z1 = returns (Inr b, z2)" "unat b = 1"
    "zbits z2 = concat (map (token_bits fixed_litlen_lengths fixed_dist_lengths) ts) @ codeword fixed_litlen_lengths 256 @ bs"
    "buf_ok z2" "same_data z z2"
    using header_bits [OF 2(2), of True 1] 2(3) by (auto simp: fixed_block_bits_def)
  obtain z3 where "block_of_type 1 z2 = returns (Inr (), z3)" "zbits z3 = bs" "buf_ok z3" "input z3 = input z2"
    "finished z3 = finished z2" "out_vec z3 = fold expand ts (out_vec z2)"
    using fixed_block_ok [OF h(6,5) 2(4)] 2(5) h(7) by (auto simp: same_data_def)
  then show ?case
    using h by (simp add: read_blocks.simps [of z] succeed_def same_data_def)
next
  case (3 ts us rest)
  let ?bs = "blocks_bits (us # rest) @ bs"
  obtain f z1 b z2 where h: "read_bits 1 z = returns (Inr f, z1)" "f = 0"
    "read_bits 2 z1 = returns (Inr b, z2)" "unat b = 1"
    "zbits z2 = concat (map (token_bits fixed_litlen_lengths fixed_dist_lengths) ts) @ codeword fixed_litlen_lengths 256 @ ?bs"
    "buf_ok z2" "same_data z z2"
    using header_bits [OF 3(3), of False 1] 3(4) by (auto simp: fixed_block_bits_def)
  obtain z3 where z3: "block_of_type 1 z2 = returns (Inr (), z3)" "zbits z3 = ?bs" "buf_ok z3" "input z3 = input z2"
    "out_vec z3 = fold expand ts (out_vec z2)"
    using fixed_block_ok [OF h(6,5)] 3(5,6) h(7) by (auto simp: same_data_def decodable_append)
  have "decodable (out_vec z3) (concat (us # rest))"
    using 3(6) z3(5) h(7) by (auto simp: same_data_def decodable_append)
  from 3(1) [OF _ z3(3,2) 3(5) this] obtain z4 where
    "read_blocks z3 = returns (Inr (), z4)" "zbits z4 = bs" "buf_ok z4" "input z4 = input z3"
    "out_vec z4 = fold expand (concat (us # rest)) (out_vec z3)"
    by auto
  then show ?case
    using h z3 by (simp add: read_blocks.simps [of z] same_data_def)
qed simp

lemma decompress_header:
  assumes "input z = 0x78 # 0x01 # body" and "pos z = 0" and "\<not> finished z"
  shows "decompress_all z = try_then read_blocks (\<lambda>_. finish_stream) (z\<lparr>pos := 2\<rparr>)"
proof -
  have m: "(0x78 :: u8) AND 0x0F = 8" "(push_bit 8 (ucast (0x78 :: u8)) OR ucast (0x01 :: u8) :: 16 word) mod 31 = 0"
    by code_simp+
  have b: "read_byte z = returns (Inr 0x78, z\<lparr>pos := 1\<rparr>)"
    "read_byte (z\<lparr>pos := 1\<rparr>) = returns (Inr 0x01, z\<lparr>pos := 2\<rparr>)"
    using assms by (simp_all add: read_byte_def succeed_def)
  show ?thesis
    unfolding decompress_all_def try_then_simps(4) [of read_byte, OF b(1)] try_then_simps(4) [of read_byte, OF b(2)]
    using assms(3) m by simp
qed

lemma finish_ok: "\<exists>z'. finish_stream z = returns (Inr (), z') \<and> out_vec z' = out_vec z \<and> finished z'"
  by (simp add: finish_stream_def succeed_def)

section \<open>Stored blocks\<close>

definition low_byte :: "nat \<Rightarrow> u8" where
  "low_byte n = of_nat n"

definition high_byte :: "nat \<Rightarrow> u8" where
  "high_byte n = of_nat (n div 256)"

definition stored_bytes :: "bool \<Rightarrow> u8 list \<Rightarrow> u8 list" where
  "stored_bytes final data =
     [of_bool final, low_byte (length data), high_byte (length data),
      NOT (low_byte (length data)), NOT (high_byte (length data))] @ data"

fun stored_stream :: "u8 list list \<Rightarrow> u8 list" where
  "stored_stream [] = []"
| "stored_stream [data] = stored_bytes True data"
| "stored_stream (data # d # rest) = stored_bytes False data @ stored_stream (d # rest)"

definition zlib_store :: "u8 list list \<Rightarrow> u8 list \<Rightarrow> u8 list" where
  "zlib_store chunks checksum = [0x78, 0x01] @ stored_stream chunks @ checksum"

text \<open>Nothing is buffered, and these bytes are still to be read.\<close>

definition at_bytes :: "zlib_decoder \<Rightarrow> u8 list \<Rightarrow> bool" where
  "at_bytes z bs \<longleftrightarrow> bitbuf z = 0 \<and> bitcnt z = 0 \<and> drop (pos z) (input z) = bs \<and> pos z \<le> length (input z)"

lemma read_byte_at:
  assumes "at_bytes z (b # bs)"
  shows "read_byte z = returns (Inr b, z\<lparr>pos := Suc (pos z)\<rparr>)" and "at_bytes (z\<lparr>pos := Suc (pos z)\<rparr>) bs"
proof -
  have d: "drop (pos z) (input z) = b # bs"
    using assms by (simp add: at_bytes_def)
  then have l: "pos z < length (input z)"
    by (metis drop_eq_Nil list.distinct(1) not_le)
  have "input z ! pos z = b" using d by (metis nth_via_drop)
  then show "read_byte z = returns (Inr b, z\<lparr>pos := Suc (pos z)\<rparr>)" by (simp add: read_byte_Some l)
  have "drop (Suc (pos z)) (input z) = bs" using d by (metis drop_Suc list.sel(3) tl_drop)
  then show "at_bytes (z\<lparr>pos := Suc (pos z)\<rparr>) bs" using assms l by (simp add: at_bytes_def)
qed

text \<open>The three header bits of a stored block, and the padding behind them.\<close>

lemma stored_header:
  assumes "at_bytes z (of_bool final # bs)"
  shows "\<exists>z1 z2. read_bits 1 z = returns (Inr (of_bool final), z1) \<and> read_bits 2 z1 = returns (Inr 0, z2)
    \<and> byte_align z2 = z\<lparr>pos := Suc (pos z)\<rparr>"
proof -
  let ?b = "of_bool final :: u8"
  have z: "bitbuf z = 0" "bitcnt z = 0" using assms by (simp_all add: at_bytes_def)
  have w: "(ucast ?b :: u32) = of_bool final" "(of_bool final :: u32) AND low_mask 1 = of_bool final"
    "drop_bit 1 (of_bool final :: u32) = 0"
    by (cases final; simp add: low_mask_def)+
  let ?z1 = "z\<lparr>pos := Suc (pos z), bitbuf := 0, bitcnt := 7\<rparr>"
  let ?z2 = "z\<lparr>pos := Suc (pos z), bitbuf := 0, bitcnt := 5\<rparr>"
  have a: "add_byte ?b (z\<lparr>pos := Suc (pos z)\<rparr>) = z\<lparr>pos := Suc (pos z), bitbuf := of_bool final, bitcnt := 8\<rparr>"
    using z w(1) by (simp add: add_byte_def)
  have "\<not> bitcnt (add_byte ?b (z\<lparr>pos := Suc (pos z)\<rparr>)) < 1" by (simp add: a)
  then have "ensure_bits 1 (add_byte ?b (z\<lparr>pos := Suc (pos z)\<rparr>)) = returns (Inr (), add_byte ?b (z\<lparr>pos := Suc (pos z)\<rparr>))"
    by (subst ensure_bits.simps) (simp add: succeed_def)
  then have "ensure_bits 1 z = returns (Inr (), add_byte ?b (z\<lparr>pos := Suc (pos z)\<rparr>))"
    using read_byte_at(1) [OF assms] z by (subst ensure_bits.simps) simp
  then have r1: "read_bits 1 z = returns (Inr (of_bool final), ?z1)"
    using w a by (simp add: read_bits_def succeed_def drop_bits_def)
  have r2: "read_bits 2 ?z1 = returns (Inr 0, ?z2)"
    by (simp add: read_bits_def ensure_bits.simps [of 2] succeed_def drop_bits_def)
  have "byte_align ?z2 = z\<lparr>pos := Suc (pos z)\<rparr>"
    using z by (simp add: byte_align_def drop_bits_def)
  then show ?thesis using r1 r2 by blast
qed

lemma stored_length_words:
  assumes "n < 65536"
  shows "(push_bit 8 (ucast (high_byte n)) OR ucast (low_byte n) :: 16 word) = of_nat n"
    and "(push_bit 8 (ucast (NOT (high_byte n))) OR ucast (NOT (low_byte n)) :: 16 word) = NOT (of_nat n)"
proof -
  have n: "bit (n div 256) i = bit n (i + 8)" for i
    using bit_drop_bit_eq [of 8 n] by (simp add: drop_bit_eq_div fun_eq_iff add.commute)
  show "(push_bit 8 (ucast (high_byte n)) OR ucast (low_byte n) :: 16 word) = of_nat n"
    by (rule bit_eqI) (auto simp: bit_simps bit_of_nat_iff high_byte_def low_byte_def n not_less)
  show "(push_bit 8 (ucast (NOT (high_byte n))) OR ucast (NOT (low_byte n)) :: 16 word) = NOT (of_nat n)"
    by (rule bit_eqI) (auto simp: bit_simps bit_of_nat_iff high_byte_def low_byte_def n not_less)
qed

lemma read_u16_at:
  assumes "at_bytes z (lo # hi # bs)"
  shows "read_u16 z = returns (Inr (push_bit 8 (ucast hi) OR ucast lo), z\<lparr>pos := Suc (Suc (pos z))\<rparr>)"
    and "at_bytes (z\<lparr>pos := Suc (Suc (pos z))\<rparr>) bs"
  using read_byte_at [OF assms] read_byte_at [of "z\<lparr>pos := Suc (pos z)\<rparr>" hi bs]
  by (simp_all add: read_u16_def succeed_def)

lemma copy_stored_at:
  "at_bytes z (data @ bs) \<Longrightarrow> \<exists>z'. copy_stored (length data) z = returns (Inr (), z') \<and> at_bytes z' bs
     \<and> out_vec z' = out_vec z @ data \<and> input z' = input z"
proof (induction data arbitrary: z)
  case Nil
  then show ?case by (simp add: succeed_def)
next
  case (Cons b data)
  have c: "at_bytes z (b # data @ bs)" using Cons.prems by simp
  let ?z = "push_out b (z\<lparr>pos := Suc (pos z)\<rparr>)"
  have "at_bytes ?z (data @ bs)"
    using read_byte_at(2) [OF c] by (simp add: at_bytes_def push_out_def)
  from Cons.IH [OF this] show ?case
    using read_byte_at(1) [OF c] by (auto simp: push_out_def)
qed

lemma stored_block_at:
  assumes "at_bytes z (stored_bytes final data @ bs)" and "length data < 65536"
  shows "\<exists>z1 z2 z3. read_bits 1 z = returns (Inr (of_bool final), z1) \<and> read_bits 2 z1 = returns (Inr 0, z2)
    \<and> block_of_type 0 z2 = returns (Inr (), z3) \<and> at_bytes z3 bs \<and> out_vec z3 = out_vec z @ data \<and> input z3 = input z"
proof -
  let ?n = "length data"
  have a: "at_bytes z (of_bool final # low_byte ?n # high_byte ?n # NOT (low_byte ?n) # NOT (high_byte ?n) # data @ bs)"
    using assms(1) by (simp add: stored_bytes_def)
  obtain z1 z2 where h: "read_bits 1 z = returns (Inr (of_bool final), z1)" "read_bits 2 z1 = returns (Inr 0, z2)"
    "byte_align z2 = z\<lparr>pos := Suc (pos z)\<rparr>"
    using stored_header [OF a] by blast
  note l = read_u16_at [OF read_byte_at(2) [OF a]]
  note nl = read_u16_at [OF l(2)]
  obtain z3 where z3: "copy_stored ?n (z\<lparr>pos := Suc (Suc (Suc (Suc (Suc (pos z)))))\<rparr>) = returns (Inr (), z3)"
    "at_bytes z3 bs" "out_vec z3 = out_vec z @ data" "input z3 = input z"
    using copy_stored_at [OF nl(2)] by auto
  have "unat (of_nat ?n :: 16 word) = ?n" using assms(2) by (simp add: unat_of_nat)
  then have "block_of_type 0 z2 = returns (Inr (), z3)"
    using h(3) l(1) nl(1) z3(1)
    by (simp add: block_of_type_def stored_block_def stored_length_words [OF assms(2)])
  then show ?thesis using h z3 by blast
qed

lemma read_blocks_stored:
  "\<lbrakk>chunks \<noteq> []; \<forall>data \<in> set chunks. length data < 65536; at_bytes z (stored_stream chunks @ bs)\<rbrakk>
   \<Longrightarrow> \<exists>z'. read_blocks z = returns (Inr (), z') \<and> at_bytes z' bs \<and> out_vec z' = out_vec z @ concat chunks"
proof (induction chunks arbitrary: z rule: stored_stream.induct)
  case (2 data)
  obtain z1 z2 z3 where "read_bits 1 z = returns (Inr 1, z1)" "read_bits 2 z1 = returns (Inr 0, z2)"
    "block_of_type 0 z2 = returns (Inr (), z3)" "at_bytes z3 bs" "out_vec z3 = out_vec z @ data"
    using stored_block_at [of z True data bs] 2 by auto
  then show ?case by (simp add: read_blocks.simps [of z] succeed_def)
next
  case (3 data d rest)
  obtain z1 z2 z3 where z: "read_bits 1 z = returns (Inr 0, z1)" "read_bits 2 z1 = returns (Inr 0, z2)"
    "block_of_type 0 z2 = returns (Inr (), z3)" "at_bytes z3 (stored_stream (d # rest) @ bs)" "out_vec z3 = out_vec z @ data"
    using stored_block_at [of z False data "stored_stream (d # rest) @ bs"] 3(3,4) by auto
  obtain z4 where "read_blocks z3 = returns (Inr (), z4)" "at_bytes z4 bs" "out_vec z4 = out_vec z3 @ concat (d # rest)"
    using 3(1) [OF _ _ z(4)] 3(3) by auto
  then show ?case using z by (simp add: read_blocks.simps [of z])
qed simp

text \<open>A whole stream of stored blocks.\<close>

lemma decompress_stored:
  assumes "chunks \<noteq> []" and "\<forall>data \<in> set chunks. length data < 65536"
  shows "\<exists>z'. decompress_all (zlib_new (zlib_store chunks checksum)) = returns (Inr (), z')
    \<and> out_vec z' = concat chunks \<and> finished z'"
proof -
  let ?z = "zlib_new (zlib_store chunks checksum)"
  have "at_bytes (?z\<lparr>pos := 2\<rparr>) (stored_stream chunks @ checksum)"
    by (simp add: at_bytes_def zlib_new_def zlib_store_def)
  then obtain z' where "read_blocks (?z\<lparr>pos := 2\<rparr>) = returns (Inr (), z')" "out_vec z' = concat chunks"
    using read_blocks_stored [OF assms] by (fastforce simp: zlib_new_def)
  moreover have "decompress_all ?z = try_then read_blocks (\<lambda>_. finish_stream) (?z\<lparr>pos := 2\<rparr>)"
    by (rule decompress_header) (simp_all add: zlib_new_def zlib_store_def)
  ultimately show ?thesis using finish_ok [of z'] by auto
qed

end
