(* ===== verification/Inflate_Props.thy ===== *)
theory Inflate_Props
  imports Inflate_Stream
begin

text \<open>The properties of the zlib decoder.\<close>

text \<open>C14. The decoder returns on every input: whatever the bytes, \<^verbatim>\<open>read\<close> and
  \<^verbatim>\<open>read_to_end\<close> end with success or an error. No index is out of range, no loop runs
  forever, not even on damaged or truncated data.\<close>

theorem zlib_always_returns:
  "(\<exists>r z'. zlib_read buf (zlib_new inp) = returns (r, z')) \<and> (\<exists>r z'. read_to_end out (zlib_new inp) = returns (r, z'))"
proof -
  have ok: "buf_ok (zlib_new inp)" by (simp add: buf_ok_def zlib_new_def)
  obtain r z where r: "decompress_all (zlib_new inp\<lparr>out_vec := []\<rparr>) = returns (r, z)"
    using decompress_returns [of "zlib_new inp\<lparr>out_vec := []\<rparr>"] ok by auto
  have "\<exists>r z'. zlib_read buf (zlib_new inp) = returns (r, z')"
    using r by (cases r) (auto simp: zlib_read_def succeed_def Let_def)
  moreover have "\<exists>r z'. read_to_end out (zlib_new inp) = returns (r, z')"
    using decompress_returns [of "zlib_new inp\<lparr>out_vec := out\<rparr>"] ok by (auto simp: read_to_end_def)
  ultimately show ?thesis by blast
qed

text \<open>C15. Huffman decoding: for code lengths of at most 15 bits that satisfy Kraft's
  inequality, the tables of \<^verbatim>\<open>build_huffman_table\<close> make \<^verbatim>\<open>decode_symbol\<close> the inverse of the
  canonical code. If the stream starts with the code word of a symbol (and at least as many
  bits as the longest code has are left), the symbol is returned and exactly its code word is
  taken, whatever follows.\<close>

theorem huffman_decodes_codeword:
  assumes "kraft_ok lens" and "0 < longest_code lens" and "longest_code lens \<le> 15"
    and "used lens s" and "buf_ok z" and "zbits z = codeword lens s @ bs"
    and "longest_code lens \<le> length (zbits z)"
  shows "\<exists>T z'. build_huffman_table lens = returns (Inr T) \<and> decode_symbol T z = returns (Inr s, z')
    \<and> zbits z' = bs \<and> buf_ok z' \<and> same_data z z'"
proof -
  obtain T where T: "build_huffman_table lens = returns (Inr T)" "table_ok (length lens) T"
    "snd T = longest_code lens" "table_for lens T"
    using build_table_run [OF assms(2,3)] assms(1) by blast
  then show ?thesis
    using decode_symbol_codeword [OF T(2,4) assms(5,4,6)] assms(7) by auto
qed

lemma huffman_decodes_codeword_witness:
  "\<exists>T z'. build_huffman_table [1, 2, 2] = returns (Inr T)
    \<and> decode_symbol T \<lparr>input = [], pos = 0, bitbuf = 1, bitcnt = 3, finished = False, out_vec = []\<rparr> = returns (Inr 1, z')
    \<and> zbits z' = [False]"
proof -
  let ?z = "\<lparr>input = [], pos = 0, bitbuf = 1, bitcnt = 3, finished = False, out_vec = []\<rparr> :: zlib_decoder"
  have "longest_code [1, 2, 2] = 2" "kraft_ok [1, 2, 2]" "used [1, 2, 2] 1"
    by (simp_all add: longest_code_def kraft_ok_def used_def)
  moreover have "buf_ok ?z" by (auto simp: buf_ok_def bit_1_iff)
  moreover have "zbits ?z = codeword [1, 2, 2] 1 @ [False]" by code_simp
  ultimately show ?thesis
    using huffman_decodes_codeword [of "[1, 2, 2]" 1 ?z "[False]"] by (auto simp: zbits_def buffered_def)
qed

text \<open>C16. The copy of a match, which the code writes as \<^verbatim>\<open>out[start + i % distance]\<close>, is
  the byte-at-a-time copy of the DEFLATE format, also when source and destination overlap:
  every appended byte equals the one \<open>distance\<close> before it, and nothing else changes.\<close>

theorem copy_back_is_bytewise:
  assumes "0 < d" and "d \<le> length (out_vec z)"
  shows "\<exists>out'. copy_back d n z = returns (Inr (), z\<lparr>out_vec := out'\<rparr>) \<and> out' = lz_copy d n (out_vec z)
    \<and> length out' = length (out_vec z) + n \<and> take (length (out_vec z)) out' = out_vec z
    \<and> (\<forall>j < n. out' ! (length (out_vec z) + j) = out' ! (length (out_vec z) + j - d))"
  using copy_back_run [OF assms] lz_copy_bytewise [OF assms] by (auto simp: lz_copy_closed [OF assms])

lemma copy_back_is_bytewise_witness:
  "copy_back 2 5 (zlib_new []\<lparr>out_vec := [7, 8, 9]\<rparr>)
    = returns (Inr (), zlib_new []\<lparr>out_vec := [7, 8, 9, 8, 9, 8, 9, 8]\<rparr>)"
  using copy_back_is_bytewise [of 2 "zlib_new []\<lparr>out_vec := [7, 8, 9]\<rparr>" 5] by (simp add: eval_nat_numeral)

text \<open>C17. Round trip through blocks with the fixed Huffman codes: a stream made of any
  blocks of literals and matches, whose matches reach no further back than the data, decodes
  to the expansion of the tokens, across block boundaries.\<close>

theorem fixed_blocks_roundtrip:
  assumes "blocks \<noteq> []" and "decodable [] (concat blocks)" and "length checksum = 4"
  shows "\<exists>z'. decompress_all (zlib_new (zlib_encode blocks checksum)) = returns (Inr (), z')
    \<and> out_vec z' = fold expand (concat blocks) [] \<and> finished z'"
proof -
  let ?z = "zlib_new (zlib_encode blocks checksum)"
  obtain pad where pad: "concat (map byte_bits (pack_bits (blocks_bits blocks))) = blocks_bits blocks @ pad"
    using pack_bits_inverse by blast
  let ?z2 = "?z\<lparr>pos := 2\<rparr>"
  have "buf_ok ?z2" by (simp add: buf_ok_def zlib_new_def zlib_encode_def)
  moreover have "zbits ?z2 = blocks_bits blocks @ (pad @ concat (map byte_bits checksum))"
    using pad by (simp add: zbits_def buffered_def zlib_new_def zlib_encode_def)
  moreover have "15 \<le> length (pad @ concat (map byte_bits checksum))"
    using assms(3) by simp
  ultimately obtain z' where "read_blocks ?z2 = returns (Inr (), z')" "out_vec z' = fold expand (concat blocks) []"
    using read_blocks_fixed [OF assms(1), of ?z2] assms(2) by (auto simp: zlib_new_def)
  moreover have "decompress_all ?z = try_then read_blocks (\<lambda>_. finish_stream) ?z2"
    by (rule decompress_header) (simp_all add: zlib_new_def zlib_encode_def)
  ultimately show ?thesis using finish_ok [of z'] by auto
qed

lemma fixed_blocks_roundtrip_witness:
  "\<exists>z'. decompress_all (zlib_new (zlib_encode [[Literal 97, Literal 98], [Match 2 0 1 0, Literal 99]] [1, 2, 3, 4]))
      = returns (Inr (), z') \<and> out_vec z' = [97, 98, 97, 98, 97, 98, 97, 99]"
proof -
  let ?blocks = "[[Literal 97, Literal 98], [Match 2 0 1 0, Literal 99]]"
  have "decodable [] (concat ?blocks)"
    by (simp add: fixed_token_ok_def dist_base_def)
  moreover have "fold expand (concat ?blocks) [] = [97, 98, 97, 98, 97, 98, 97, 99]"
    by code_simp
  ultimately show ?thesis
    using fixed_blocks_roundtrip [of ?blocks "[1, 2, 3, 4]"] by (simp only: list.distinct) fastforce
qed

text \<open>Round trip through stored blocks: any data, cut into chunks of fewer than 65536
  bytes, is recovered exactly from its stored form.\<close>

theorem stored_blocks_roundtrip:
  assumes "chunks \<noteq> []" and "\<forall>data \<in> set chunks. length data < 65536"
  shows "\<exists>z'. decompress_all (zlib_new (zlib_store chunks checksum)) = returns (Inr (), z')
    \<and> out_vec z' = concat chunks \<and> finished z'"
  by (rule decompress_stored [OF assms])

lemma stored_blocks_roundtrip_witness:
  "\<exists>z'. decompress_all (zlib_new (zlib_store [[1, 2, 3], [], [4]] [])) = returns (Inr (), z')
    \<and> out_vec z' = [1, 2, 3, 4] \<and> finished z'"
  using stored_blocks_roundtrip [of "[[1, 2, 3], [], [4]]" "[]"] by simp

end
