(* ===== verification/Mmu.thy ===== *)
theory Mmu
  imports Phys_Mem
begin

text \<open>
  The memory management unit of the x86-64 port, \<^verbatim>\<open>kernel/src/arch/x86_64/mmu.rs\<close>:
  four-level paging structures, the mapping of user pages, the dynamic mapping pools of the
  kernel and of a process, and the release of an address space.

  The state \<open>machine\<close> has the contents of physical memory, as the 64-bit word at each
  (8-byte aligned) address, and the physical memory manager. Frames are identity mapped for
  the kernel, so the code reaches a table by its physical address. TLB invalidation,
  privilege switches and control registers have no effect on this state; the register CR3
  that \<^verbatim>\<open>virt_to_phys\<close> reads is an argument. The kernel's static tables (linker symbols
  \<^verbatim>\<open>kpdpt0_tbl\<close>, \<^verbatim>\<open>kpd_tlbs\<close>, \<^verbatim>\<open>kpg_tbls\<close>) are given by their addresses.
\<close>

section \<open>State and constants\<close>

datatype memory_type = Normal | Device | OutputDMA

record machine =
  ram :: "usize \<Rightarrow> u64"
  frames :: frames_bitmap

record mmu_mapping =
  pml4_base :: usize
  pdpt0_base :: usize
  mapped_pages_count :: usize
  tlb_page_count :: usize

record kernel_tables =
  kpdpt0_tbl :: usize
  kpd_tlbs :: usize
  kpg_tbls :: usize

abbreviation PGENT_PRESENT :: u64 where "PGENT_PRESENT \<equiv> 0x1"
abbreviation PGENT_WRITABLE :: u64 where "PGENT_WRITABLE \<equiv> 0x2"
abbreviation PGENT_USERMODE :: u64 where "PGENT_USERMODE \<equiv> 0x4"
abbreviation PGENT_PWT :: u64 where "PGENT_PWT \<equiv> 0x8"
abbreviation PGENT_PCD :: u64 where "PGENT_PCD \<equiv> 0x10"
abbreviation PGENT_PS :: u64 where "PGENT_PS \<equiv> 0x80"
abbreviation PGENT_G :: u64 where "PGENT_G \<equiv> 0x100"
abbreviation PGENT_XD :: u64 where "PGENT_XD \<equiv> 0x8000000000000000"
abbreviation PGENT_BASE_MASK :: u64 where "PGENT_BASE_MASK \<equiv> 0xFFFFFFF000"

abbreviation PAGE_SIZE :: usize where "PAGE_SIZE \<equiv> 4096"
abbreviation MIN_KPOOL_VIRTUAL :: usize where "MIN_KPOOL_VIRTUAL \<equiv> 0x100000000"
abbreviation MAX_KPOOL_VIRTUAL :: usize where "MAX_KPOOL_VIRTUAL \<equiv> 0x200000000"
abbreviation KPOOL_PAGES :: usize where "KPOOL_PAGES \<equiv> (MAX_KPOOL_VIRTUAL - MIN_KPOOL_VIRTUAL) div PAGE_SIZE"
abbreviation MIN_VIRTUAL_USER :: usize where "MIN_VIRTUAL_USER \<equiv> 0x200000000"
abbreviation MAX_USTACK_VIRTUAL :: usize where "MAX_USTACK_VIRTUAL \<equiv> 0x7F00000000 - 1"
abbreviation MIN_DPOOL_VIRTUAL :: usize where "MIN_DPOOL_VIRTUAL \<equiv> 0x7F00000000"
abbreviation MAX_VIRTUAL :: usize where "MAX_VIRTUAL \<equiv> 0x8000000000 - 1"

definition mmu_new :: mmu_mapping where
  "mmu_new = \<lparr>pml4_base = 0, pdpt0_base = 0, mapped_pages_count = 0, tlb_page_count = 0\<rparr>"

definition entry_flags :: "bool \<Rightarrow> bool \<Rightarrow> bool \<Rightarrow> memory_type \<Rightarrow> u64" where
  "entry_flags kern w x cache =
     (let f0 = PGENT_PRESENT;
          f1 = (if w then f0 OR PGENT_WRITABLE else f0);
          f2 = (if kern then f1 OR PGENT_G else f1 OR PGENT_USERMODE);
          f3 = (case cache of Normal \<Rightarrow> f2 | Device \<Rightarrow> f2 OR PGENT_PCD | OutputDMA \<Rightarrow> f2 OR PGENT_PWT)
      in if \<not> x then f3 OR PGENT_XD else f3)"

section \<open>Tables\<close>

definition entry_addr :: "usize \<Rightarrow> usize \<Rightarrow> usize" where
  "entry_addr base index = uadd base (umul 8 index)"

definition write_table_entry :: "usize \<Rightarrow> usize \<Rightarrow> u64 \<Rightarrow> machine \<Rightarrow> machine" where
  "write_table_entry base index v M = M\<lparr>ram := (ram M)(entry_addr base index := v)\<rparr>"

definition read_table_entry :: "usize \<Rightarrow> usize \<Rightarrow> machine \<Rightarrow> u64" where
  "read_table_entry base index M = ram M (entry_addr base index)"

text \<open>\<^verbatim>\<open>write_bytes(0, 0x1000)\<close>, and the base address in an entry.\<close>

definition zero_frame :: "usize \<Rightarrow> machine \<Rightarrow> machine" where
  "zero_frame base M = M\<lparr>ram := (\<lambda>a. if base \<le> a \<and> a < base + 4096 then 0 else ram M a)\<rparr>"

definition entry_base :: "u64 \<Rightarrow> usize" where
  "entry_base e = unat (e AND PGENT_BASE_MASK)"

definition present :: "u64 \<Rightarrow> bool" where
  "present e \<longleftrightarrow> e AND PGENT_PRESENT \<noteq> 0"

definition pdpt0e_i :: "usize \<Rightarrow> usize" where
  "pdpt0e_i v = drop_bit 30 v AND 0x1FF"

definition pde_i :: "usize \<Rightarrow> usize" where
  "pde_i v = drop_bit 21 v AND 0x1FF"

definition pte_i :: "usize \<Rightarrow> usize" where
  "pte_i v = drop_bit 12 v AND 0x1FF"

text \<open>\<^verbatim>\<open>PhysMem::alloc().expect("Out of memory")\<close>.\<close>

definition alloc_frame :: "machine \<Rightarrow> (usize \<times> machine) run" where
  "alloc_frame M = and_then (pm_alloc (frames M))
     (\<lambda>(r, bm). case r of Inl e \<Rightarrow> panics | Inr a \<Rightarrow> returns (a, M\<lparr>frames := bm\<rparr>))"

definition free_frame :: "usize \<Rightarrow> machine \<Rightarrow> machine" where
  "free_frame a M = M\<lparr>frames := pm_free (frames M) a\<rparr>"

section \<open>Kernel pool\<close>

text \<open>\<^verbatim>\<open>global_init\<close>: the page directories and page tables of the kernel's pool.\<close>

definition kernel_flags :: u64 where
  "kernel_flags = PGENT_PRESENT OR PGENT_WRITABLE OR PGENT_G"

definition init_directory :: "kernel_tables \<Rightarrow> usize \<Rightarrow> machine \<Rightarrow> machine" where
  "init_directory kt i M =
     (let pd_base = uadd (kpd_tlbs kt) (umul (usub i 4) PAGE_SIZE);
          M' = foldl (\<lambda>M j.
            let pt_base = uadd (kpg_tbls kt) (umul (uadd (umul (usub i 4) 512) j) PAGE_SIZE)
            in write_table_entry pd_base j (of_nat pt_base OR kernel_flags) (zero_frame pt_base M)) M [0..<512]
      in write_table_entry (kpdpt0_tbl kt) i (of_nat pd_base OR kernel_flags) M')"

definition global_init :: "kernel_tables \<Rightarrow> machine \<Rightarrow> machine" where
  "global_init kt M = foldl (\<lambda>M i. init_directory kt i M) M [4..<8]"

definition kpool_free :: "usize \<Rightarrow> usize \<Rightarrow> machine \<Rightarrow> bool" where
  "kpool_free pte_addr frame_cnt M \<longleftrightarrow>
     (\<forall>w \<in> {0..<frame_cnt}. ram M (entry_addr pte_addr w) AND PGENT_PRESENT = 0)"

definition kpool_map :: "usize \<Rightarrow> usize \<Rightarrow> usize \<Rightarrow> memory_type \<Rightarrow> machine \<Rightarrow> machine" where
  "kpool_map pte_addr phys_base frame_cnt cache M =
     foldl (\<lambda>M w. M\<lparr>ram := (ram M)(entry_addr pte_addr w :=
         of_nat (uadd phys_base (umul w PAGE_SIZE)) OR entry_flags True True False cache)\<rparr>)
       M [0..<frame_cnt]"

text \<open>The scan of the pool: \<open>n\<close> pages are left, \<open>vaddr\<close> and its entry address move
  together. The loop does not look at the end of the pool.\<close>

fun kmap_scan :: "nat \<Rightarrow> usize \<Rightarrow> usize \<Rightarrow> usize \<Rightarrow> usize \<Rightarrow> memory_type \<Rightarrow> machine \<Rightarrow> usize option \<times> machine" where
  "kmap_scan 0 vaddr pte_addr phys_base frame_cnt cache M = (None, M)"
| "kmap_scan (Suc n) vaddr pte_addr phys_base frame_cnt cache M =
     (if kpool_free pte_addr frame_cnt M
      then (Some vaddr, kpool_map pte_addr phys_base frame_cnt cache M)
      else kmap_scan n (uadd vaddr PAGE_SIZE) (entry_addr pte_addr 1) phys_base frame_cnt cache M)"

definition kmap :: "kernel_tables \<Rightarrow> usize \<Rightarrow> usize \<Rightarrow> memory_type \<Rightarrow> machine \<Rightarrow> usize option \<times> machine" where
  "kmap kt phys_base frame_cnt cache M =
     kmap_scan KPOOL_PAGES MIN_KPOOL_VIRTUAL (kpg_tbls kt) phys_base frame_cnt cache M"

definition kunmap :: "kernel_tables \<Rightarrow> usize \<Rightarrow> usize \<Rightarrow> machine \<Rightarrow> machine" where
  "kunmap kt virt_base frame_cnt M =
     (if virt_base < MIN_KPOOL_VIRTUAL \<or> virt_base \<ge> MAX_KPOOL_VIRTUAL then M
      else
        let start = (virt_base - MIN_KPOOL_VIRTUAL) div PAGE_SIZE
        in foldl (\<lambda>M i. write_table_entry (kpg_tbls kt) i 0 M) M [start..<uadd start frame_cnt])"

section \<open>User mappings\<close>

definition mmu_init :: "kernel_tables \<Rightarrow> mmu_mapping \<Rightarrow> machine \<Rightarrow> (mmu_mapping \<times> machine) run" where
  "mmu_init kt m M =
     and_then (alloc_frame M) (\<lambda>(pml4, M1).
       and_then (alloc_frame M1) (\<lambda>(pdpt, M2).
         let M3 = zero_frame pdpt (zero_frame pml4 M2);
             M4 = write_table_entry pml4 0
                    (of_nat pdpt OR PGENT_PRESENT OR PGENT_WRITABLE OR PGENT_USERMODE) M3;
             M5 = foldl (\<lambda>M i. write_table_entry pdpt i
                    (PGENT_PRESENT OR PGENT_WRITABLE OR PGENT_PS OR PGENT_G OR push_bit 30 (of_nat i)) M)
                    M4 [0..<4];
             M6 = foldl (\<lambda>M i. write_table_entry pdpt i
                    (of_nat (uadd (kpd_tlbs kt) (umul (usub i 4) PAGE_SIZE)) OR kernel_flags) M)
                    M5 [4..<8]
         in returns (m\<lparr>pml4_base := pml4, pdpt0_base := pdpt, tlb_page_count := 2\<rparr>, M6)))"

text \<open>The table an entry points to, allocated and cleared when the entry is zero: the steps
  \<^verbatim>\<open>1GB Region\<close> and \<^verbatim>\<open>2 MB Region\<close> of \<^verbatim>\<open>map_pages\<close>.\<close>

definition table_below :: "usize \<Rightarrow> usize \<Rightarrow> mmu_mapping \<Rightarrow> machine \<Rightarrow> (usize \<times> mmu_mapping \<times> machine) run" where
  "table_below base i m M =
     (let e = read_table_entry base i M in
      if e = 0 then
        and_then (alloc_frame M) (\<lambda>(t, M1).
          returns (t, m\<lparr>tlb_page_count := uadd (tlb_page_count m) 1\<rparr>,
            write_table_entry base i (of_nat t OR entry_flags False True True Normal) (zero_frame t M1)))
      else returns (entry_base e, m, M))"

definition map_page :: "usize \<Rightarrow> usize \<Rightarrow> u64 \<Rightarrow> mmu_mapping \<Rightarrow> machine \<Rightarrow> (mmu_mapping \<times> machine) run" where
  "map_page vaddr phys flgs_pge m M =
     (let paddr = of_nat phys AND PGENT_BASE_MASK in
      and_then (table_below (pdpt0_base m) (pdpt0e_i vaddr) m M) (\<lambda>(pd_base, m1, M1).
        and_then (table_below pd_base (pde_i vaddr) m1 M1) (\<lambda>(pt_base, m2, M2).
          if present (read_table_entry pt_base (pte_i vaddr) M2) then panics
          else returns (m2, write_table_entry pt_base (pte_i vaddr)
                              ((paddr AND PGENT_BASE_MASK) OR flgs_pge) M2))))"

fun map_loop :: "usize \<Rightarrow> usize list \<Rightarrow> u64 \<Rightarrow> mmu_mapping \<Rightarrow> machine \<Rightarrow> (mmu_mapping \<times> machine) run" where
  "map_loop vaddr [] flgs m M = returns (m, M)"
| "map_loop vaddr (p # ps) flgs m M =
     and_then (map_page vaddr p flgs m M) (\<lambda>(m1, M1). map_loop (uadd vaddr PAGE_SIZE) ps flgs m1 M1)"

definition map_pages ::
  "usize \<Rightarrow> usize list \<Rightarrow> bool \<Rightarrow> bool \<Rightarrow> memory_type \<Rightarrow> mmu_mapping \<Rightarrow> machine \<Rightarrow> (bool \<times> mmu_mapping \<times> machine) run" where
  "map_pages virt_addr phys_addrs writeable exec cache m M =
     (let vaddr = entry_base (of_nat virt_addr) in
      if vaddr < MIN_VIRTUAL_USER \<or> vaddr > MAX_VIRTUAL then returns (False, m, M)
      else
        and_then (map_loop vaddr phys_addrs (entry_flags False writeable exec cache) m M)
          (\<lambda>(m1, M1). returns (True,
             m1\<lparr>mapped_pages_count := uadd (mapped_pages_count m1) (length phys_addrs)\<rparr>, M1)))"

text \<open>The walk through the tables that \<^verbatim>\<open>unmap_page\<close> and the two translations share: the
  base of the page table and the entry, when all three levels are present.\<close>

definition walk :: "usize \<Rightarrow> usize \<Rightarrow> machine \<Rightarrow> (usize \<times> u64) option" where
  "walk pdpt v M =
     (let pdpte = read_table_entry pdpt (pdpt0e_i v) M in
      if \<not> present pdpte then None else
      let pde = read_table_entry (entry_base pdpte) (pde_i v) M in
      if \<not> present pde then None else
      let pt_base = entry_base pde; pte = read_table_entry pt_base (pte_i v) M in
      if \<not> present pte then None else Some (pt_base, pte))"

definition virt_to_phys_from_map :: "usize \<Rightarrow> mmu_mapping \<Rightarrow> machine \<Rightarrow> usize option" where
  "virt_to_phys_from_map v m M = map_option (\<lambda>(_, pte). entry_base pte) (walk (pdpt0_base m) v M)"

definition virt_to_phys :: "usize \<Rightarrow> usize \<Rightarrow> machine \<Rightarrow> usize option" where
  "virt_to_phys cr3 v M =
     (let pdpt = entry_base (read_table_entry cr3 0 M)
      in map_option (\<lambda>(_, pte). entry_base pte) (walk pdpt v M))"

definition unmap_page :: "usize \<Rightarrow> mmu_mapping \<Rightarrow> machine \<Rightarrow> usize option \<times> mmu_mapping \<times> machine" where
  "unmap_page v m M =
     (case walk (pdpt0_base m) v M of
        None \<Rightarrow> (None, m, M)
      | Some (pt_base, pte) \<Rightarrow>
          (Some (entry_base pte),
           m\<lparr>mapped_pages_count := usub (mapped_pages_count m) 1\<rparr>,
           write_table_entry pt_base (pte_i v) (pte AND NOT PGENT_PRESENT) M))"

definition unmap_pages :: "usize \<Rightarrow> usize \<Rightarrow> mmu_mapping \<Rightarrow> machine \<Rightarrow> usize \<times> mmu_mapping \<times> machine" where
  "unmap_pages v num_pages m M =
     foldl (\<lambda>(n, m, M) i. case unmap_page (uadd v (umul i PAGE_SIZE)) m M of
         (r, m', M') \<Rightarrow> (if r \<noteq> None then uadd n 1 else n, m', M'))
       (0, m, M) [0..<num_pages]"

function dmap_scan :: "usize \<Rightarrow> usize list \<Rightarrow> mmu_mapping \<Rightarrow> machine \<Rightarrow> (usize option \<times> mmu_mapping \<times> machine) run" where
  "dmap_scan vaddr_start phys_addrs m M =
     (if vaddr_start < MAX_VIRTUAL then
        (if \<forall>w \<in> {0..<length phys_addrs}.
              virt_to_phys_from_map (uadd vaddr_start (umul w PAGE_SIZE)) m M = None
         then and_then (map_pages vaddr_start phys_addrs True False Normal m M)
                (\<lambda>(ok, m1, M1). returns (if ok then Some vaddr_start else None, m1, M1))
         else dmap_scan (vaddr_start + PAGE_SIZE) phys_addrs m M)
      else returns (None, m, M))"
  by pat_completeness auto
termination by (relation "measure (\<lambda>(v, _). MAX_VIRTUAL - v)") auto

definition dmap_pages :: "usize list \<Rightarrow> mmu_mapping \<Rightarrow> machine \<Rightarrow> (usize option \<times> mmu_mapping \<times> machine) run" where
  "dmap_pages phys_addrs m M = dmap_scan MIN_DPOOL_VIRTUAL phys_addrs m M"

section \<open>Release\<close>

definition drop_table :: "usize \<Rightarrow> usize \<Rightarrow> usize \<Rightarrow> machine \<Rightarrow> machine" where
  "drop_table i j pt_base M =
     foldl (\<lambda>M k.
         let pte = read_table_entry pt_base k M in
         if present pte then
           (let vaddr = push_bit 30 i OR push_bit 21 j OR push_bit 12 k
            in if vaddr > MIN_VIRTUAL_USER \<and> vaddr < MIN_DPOOL_VIRTUAL
               then free_frame (entry_base pte) M else M)
         else M) M [0..<512]"

definition drop_directory :: "usize \<Rightarrow> usize \<Rightarrow> machine \<Rightarrow> machine" where
  "drop_directory i pd_base M =
     foldl (\<lambda>M j.
         let pde = read_table_entry pd_base j M in
         if present pde \<and> pde AND PGENT_PS = 0
         then free_frame (entry_base pde) (drop_table i j (entry_base pde) M)
         else M) M [0..<512]"

definition mmu_drop :: "mmu_mapping \<Rightarrow> machine \<Rightarrow> machine" where
  "mmu_drop m M =
     (let M1 = foldl (\<lambda>M i.
            let e = read_table_entry (pdpt0_base m) i M in
            if present e \<and> e AND PGENT_PS = 0
            then free_frame (entry_base e) (drop_directory i (entry_base e) M)
            else M) M [0..<512]
      in free_frame (pml4_base m) (free_frame (pdpt0_base m) M1))"

end
