(* ===== verification/Mmu_Inv.thy ===== *)
theory Mmu_Inv
  imports Mmu
begin

text \<open>
  The paging structures of a process as a map: what the three levels of tables under the
  PDPT say about the user pages (entries 8 to 511 of the PDPT), the invariant that the tables
  are distinct frames the process holds, and the effect of allocating a table and of writing
  an entry.
\<close>

section \<open>Entries\<close>

definition page_base :: "usize \<Rightarrow> bool" where
  "page_base a \<longleftrightarrow> a mod 4096 = 0 \<and> a < 2 ^ 40"

definition plain_flags :: "u64 \<Rightarrow> bool" where
  "plain_flags f \<longleftrightarrow> f AND PGENT_BASE_MASK = 0 \<and> present f"

lemma base_mask_bit: "bit PGENT_BASE_MASK n \<longleftrightarrow> 12 \<le> n \<and> n < 40"
proof -
  have "PGENT_BASE_MASK = push_bit 12 (mask 28)" by (simp add: mask_eq_exp_minus_1)
  then show ?thesis
    unfolding \<open>PGENT_BASE_MASK = _\<close> bit_push_bit_iff bit_mask_iff by auto
qed

lemma page_base_bit:
  assumes "page_base a" and "bit a n"
  shows "12 \<le> n \<and> n < 40"
proof
  have "take_bit 12 a = 0" using assms(1) by (simp add: page_base_def take_bit_eq_mod)
  then show "12 \<le> n"
    using assms(2) bit_take_bit_iff [of 12 a n] by (auto simp: not_le)
  have "take_bit 40 a = a" using assms(1) by (simp add: page_base_def take_bit_nat_eq_self)
  then show "n < 40" using assms(2) bit_take_bit_iff [of 40 a n] by auto
qed

lemma page_base_word:
  assumes "page_base a"
  shows "(of_nat a :: u64) AND PGENT_BASE_MASK = of_nat a" and "unat (of_nat a :: u64) = a"
proof -
  show "(of_nat a :: u64) AND PGENT_BASE_MASK = of_nat a"
  proof (rule bit_eqI)
    fix n
    show "bit ((of_nat a :: u64) AND PGENT_BASE_MASK) n = bit (of_nat a :: u64) n"
      unfolding bit_and_iff base_mask_bit using page_base_bit [OF assms, of n] by (auto simp: bit_of_nat_iff)
  qed
  show "unat (of_nat a :: u64) = a"
    using assms by (simp add: page_base_def unat_of_nat)
qed

lemma page_base_entry [simp]: "page_base (entry_base e)"
proof -
  have b: "bit (entry_base e) n \<Longrightarrow> 12 \<le> n \<and> n < 40" for n
    unfolding entry_base_def bit_unsigned_iff bit_and_iff base_mask_bit by simp
  have "take_bit 12 (entry_base e) = 0"
    by (rule bit_eqI) (use b in \<open>force simp: bit_take_bit_iff\<close>)
  moreover have "take_bit 40 (entry_base e) = entry_base e"
    by (rule bit_eqI) (use b in \<open>auto simp: bit_take_bit_iff\<close>)
  then have "entry_base e < 2 ^ 40" by (metis take_bit_nat_less_exp)
  ultimately show ?thesis by (simp add: page_base_def take_bit_eq_mod)
qed

lemma entry_base_make:
  assumes "page_base a" and "plain_flags f"
  shows "entry_base (of_nat a OR f) = a"
proof -
  have "(of_nat a OR f) AND PGENT_BASE_MASK = of_nat a"
    using assms page_base_word(1) [OF assms(1)] by (simp add: plain_flags_def bit.conj_disj_distrib2)
  then show ?thesis using page_base_word(2) [OF assms(1)] by (simp add: entry_base_def)
qed

lemma present_bit: "present e \<longleftrightarrow> bit e 0"
  by (simp add: present_def and_one_eq odd_iff_mod_2_eq_one bit_0 mod2_eq_if)

text \<open>An entry of an upper level: it points to a table, not to a large page.\<close>

definition points :: "u64 \<Rightarrow> bool" where
  "points e \<longleftrightarrow> present e \<and> e AND PGENT_PS = 0"

lemma points_present: "points e \<Longrightarrow> present e"
  by (simp add: points_def)

lemma present_make: "plain_flags f \<Longrightarrow> present (w OR f)"
  by (simp add: plain_flags_def present_bit bit_or_iff)

lemma present_nonzero: "present e \<Longrightarrow> e \<noteq> 0"
  by (auto simp: present_def)

lemma entry_flags_plain: "plain_flags (entry_flags k w x c)"
  by (cases k; cases w; cases x; cases c)
    (simp_all add: plain_flags_def entry_flags_def present_def Let_def)

lemma entry_points:
  assumes "page_base a"
  shows "points (of_nat a OR entry_flags k w x c)"
proof -
  have "PGENT_BASE_MASK AND PGENT_PS = 0" by simp
  then have "(of_nat a :: u64) AND PGENT_PS = 0"
    using page_base_word(1) [OF assms] and.assoc [of "of_nat a :: u64" PGENT_BASE_MASK PGENT_PS] by (simp only: and_zero_eq)
  moreover have "entry_flags k w x c AND PGENT_PS = 0"
    by (cases k; cases w; cases x; cases c) (simp_all add: entry_flags_def Let_def)
  ultimately have "(of_nat a OR entry_flags k w x c) AND PGENT_PS = 0"
    by (simp only: bit.conj_disj_distrib2 or.idem)
  then show ?thesis using present_make [OF entry_flags_plain] by (simp add: points_def)
qed

section \<open>Indices\<close>

lemma index_div:
  "pdpt0e_i v = v div 2 ^ 30 mod 512" "pde_i v = v div 2 ^ 21 mod 512" "pte_i v = v div 2 ^ 12 mod 512"
proof -
  have "x AND 0x1FF = x mod 512" for x :: nat
    using take_bit_eq_mask [of 9 x] by (simp add: mask_eq_exp_minus_1 take_bit_eq_mod)
  then show "pdpt0e_i v = v div 2 ^ 30 mod 512" "pde_i v = v div 2 ^ 21 mod 512" "pte_i v = v div 2 ^ 12 mod 512"
    by (simp_all add: pdpt0e_i_def pde_i_def pte_i_def drop_bit_eq_div)
qed

lemma index_bounds [simp]: "pdpt0e_i v < 512" "pde_i v < 512" "pte_i v < 512"
  by (simp_all add: index_div)

definition user_addr :: "usize \<Rightarrow> bool" where
  "user_addr v \<longleftrightarrow> MIN_VIRTUAL_USER \<le> v \<and> v < 2 ^ 39"

lemma user_index: "user_addr v \<Longrightarrow> 8 \<le> pdpt0e_i v"
proof -
  assume v: "user_addr v"
  then have "8 \<le> v div 2 ^ 30" "v div 2 ^ 30 < 512"
    by (auto simp: user_addr_def less_eq_div_iff_mult_less_eq div_less_iff_less_mult)
  then show ?thesis by (simp add: index_div)
qed

text \<open>Two user addresses with the same three indices are on the same page.\<close>

lemma same_page:
  assumes "v < 2 ^ 39" and "u < 2 ^ 39"
    and "pdpt0e_i v = pdpt0e_i u" "pde_i v = pde_i u" "pte_i v = pte_i u"
  shows "v div 4096 = u div 4096"
proof -
  have d: "w div 4096 = 262144 * (w div 2 ^ 30) + 512 * (w div 2 ^ 21 mod 512) + w div 2 ^ 12 mod 512" for w :: nat
  proof -
    have 1: "w div 2 ^ 12 = 512 * (w div 2 ^ 12 div 512) + w div 2 ^ 12 mod 512" by simp
    have 2: "w div 2 ^ 12 div 512 = w div 2 ^ 21" by (simp add: div_mult2_eq [symmetric])
    have 3: "w div 2 ^ 21 = 512 * (w div 2 ^ 21 div 512) + w div 2 ^ 21 mod 512" by simp
    have 4: "w div 2 ^ 21 div 512 = w div 2 ^ 30" by (simp add: div_mult2_eq [symmetric])
    show ?thesis using 1 3 unfolding 2 4 by simp
  qed
  have "v div 2 ^ 30 < 512" "u div 2 ^ 30 < 512"
    using assms(1,2) by (simp_all add: div_less_iff_less_mult)
  then have 1: "v div 2 ^ 30 = u div 2 ^ 30"
    using assms(3) unfolding index_div by (metis mod_less)
  show ?thesis
    by (simp only: d 1 assms(4,5) [unfolded index_div])
qed

section \<open>Memory\<close>

lemma entry_addr_exact:
  assumes "page_base b" and "i < 512"
  shows "entry_addr b i = b + 8 * i"
proof -
  have "b < 1099511627776" using assms(1) by (simp add: page_base_def)
  then have "b + 8 * i < usize_span" "8 * i < usize_span" using assms(2) by linarith+
  then show ?thesis by (simp add: entry_addr_def uadd_exact umul_exact)
qed

lemma slot_frame: "page_base b \<Longrightarrow> i < 512 \<Longrightarrow> (b + 8 * i) div 4096 = b div 4096"
  using div_nat_eqI [of "4096" "b div 4096" "b + 8 * i"] by (auto simp: page_base_def)

lemma frame_inject: "page_base a \<Longrightarrow> page_base b \<Longrightarrow> a div 4096 = b div 4096 \<Longrightarrow> a = b"
  by (metis page_base_def mult_div_mod_eq add.right_neutral)

lemma same_slot:
  assumes "page_base b" "page_base b'" "i < 512" "i' < 512"
  shows "entry_addr b i = entry_addr b' i' \<longleftrightarrow> b = b' \<and> i = i'"
proof
  assume "entry_addr b i = entry_addr b' i'"
  then have e: "b + 8 * i = b' + 8 * i'" using assms by (simp add: entry_addr_exact)
  then have "b div 4096 = b' div 4096" using slot_frame [OF assms(1,3)] slot_frame [OF assms(2,4)] by metis
  then have "b = b'" by (rule frame_inject [OF assms(1,2)])
  then show "b = b' \<and> i = i'" using e by simp
qed simp

lemma read_write:
  assumes "page_base b" "page_base b'" "i < 512" "i' < 512"
  shows "read_table_entry b' i' (write_table_entry b i e M) =
    (if b' = b \<and> i' = i then e else read_table_entry b' i' M)"
  using same_slot [OF assms(2,1,4,3)] by (simp add: read_table_entry_def write_table_entry_def)

lemma read_zero:
  assumes "page_base b" "page_base a" "i < 512"
  shows "read_table_entry b i (zero_frame a M) = (if b = a then 0 else read_table_entry b i M)"
proof -
  have "a \<le> b + 8 * i \<and> b + 8 * i < a + 4096 \<longleftrightarrow> b = a"
  proof
    assume r: "a \<le> b + 8 * i \<and> b + 8 * i < a + 4096"
    have a: "a = 4096 * (a div 4096)" using assms(2) by (auto simp: page_base_def)
    have "(b + 8 * i) div 4096 = a div 4096"
      using a r by (intro div_nat_eqI) (simp_all only: mult_Suc_right, linarith+)
    then show "b = a" using slot_frame [OF assms(1,3)] frame_inject [OF assms(1,2)] by metis
  qed (use assms(3) in simp)
  then show ?thesis
    using assms by (simp add: read_table_entry_def zero_frame_def entry_addr_exact)
qed

lemma machine_simps [simp]:
  "frames (write_table_entry b i e M) = frames M" "frames (zero_frame a M) = frames M"
  "read_table_entry b i (M\<lparr>frames := fb\<rparr>) = read_table_entry b i M"
  by (simp_all add: write_table_entry_def zero_frame_def read_table_entry_def)

lemma alloc_frame_ok:
  assumes "pmm_ok (frames M)" and "free_set (frames M) \<noteq> {}" and "last_phys_addr (frames M) < 2 ^ 40"
  shows "\<exists>a fb. alloc_frame M = returns (a, M\<lparr>frames := fb\<rparr>) \<and> page_base a \<and> frame_of a \<in> free_set (frames M)
    \<and> free_set fb = free_set (frames M) - {frame_of a} \<and> pmm_ok fb \<and> geometry fb = geometry (frames M)"
proof -
  let ?a = "PHY_FRAME_SIZE * Min (free_set (frames M))"
  obtain fb where p: "pm_alloc (frames M) = returns (Inr ?a, fb)"
    using pm_alloc_spec [OF assms(1)] assms(2) by simp
  have f: "pmm_ok fb" "{frame_of ?a} \<subseteq> free_set (frames M)" "free_set fb = free_set (frames M) - {frame_of ?a}"
    "geometry fb = geometry (frames M)"
    using pm_take_facts [OF pm_take.take_one [OF p] assms(1)] by auto
  have "frame_of ?a < frame_span (frames M)" using f(2) by (auto simp: free_set_def)
  then have "frame_of ?a \<le> last_phys_addr (frames M) div PHY_FRAME_SIZE" by (simp add: frame_span_def)
  also have "\<dots> < 2 ^ 28" using assms(3) by (simp add: div_less_iff_less_mult)
  finally have "page_base ?a" by (simp add: page_base_def)
  then show ?thesis
    using p f by (intro exI [of _ ?a] exI [of _ fb]) (simp add: alloc_frame_def)
qed

section \<open>The tree of tables\<close>

definition next_base :: "u64 \<Rightarrow> usize option" where
  "next_base e = (if present e then Some (entry_base e) else None)"

definition dir_of :: "usize \<Rightarrow> machine \<Rightarrow> nat \<Rightarrow> usize option" where
  "dir_of p M i = next_base (read_table_entry p i M)"

definition tab_of :: "usize \<Rightarrow> machine \<Rightarrow> nat \<Rightarrow> nat \<Rightarrow> usize option" where
  "tab_of p M i j = (case dir_of p M i of None \<Rightarrow> None | Some d \<Rightarrow> next_base (read_table_entry d j M))"

definition leaf :: "usize \<Rightarrow> machine \<Rightarrow> nat \<Rightarrow> nat \<Rightarrow> nat \<Rightarrow> u64 option" where
  "leaf p M i j k = (case tab_of p M i j of None \<Rightarrow> None
     | Some t \<Rightarrow> let e = read_table_entry t k M in if present e then Some e else None)"

lemma walk_leaf:
  "walk p v M = map_option (\<lambda>e. (the (tab_of p M (pdpt0e_i v) (pde_i v)), e)) (leaf p M (pdpt0e_i v) (pde_i v) (pte_i v))"
  by (simp add: walk_def leaf_def tab_of_def dir_of_def next_base_def Let_def)

lemma translate_leaf:
  "virt_to_phys_from_map v m M = map_option entry_base (leaf (pdpt0_base m) M (pdpt0e_i v) (pde_i v) (pte_i v))"
  by (simp add: virt_to_phys_from_map_def walk_leaf option.map_comp o_def)

datatype node = Root | Dir nat | Tab nat nat

fun node_in :: "node \<Rightarrow> bool" where
  "node_in Root = True"
| "node_in (Dir i) = (8 \<le> i \<and> i < 512)"
| "node_in (Tab i j) = (8 \<le> i \<and> i < 512 \<and> j < 512)"

fun node_at :: "usize \<Rightarrow> machine \<Rightarrow> node \<Rightarrow> usize option" where
  "node_at p M Root = Some p"
| "node_at p M (Dir i) = dir_of p M i"
| "node_at p M (Tab i j) = tab_of p M i j"

text \<open>The frames that are free or hold a table: what mapping moves frames between.\<close>

definition nodes :: "usize \<Rightarrow> machine \<Rightarrow> usize set" where
  "nodes p M = {b. \<exists>n. node_in n \<and> node_at p M n = Some b}"

definition table_pool :: "usize \<Rightarrow> machine \<Rightarrow> nat set" where
  "table_pool p M = free_set (frames M) \<union> frame_of ` nodes p M"

text \<open>The tables are frames taken from the physical memory manager, no two nodes share one,
  and an entry that is not present is zero.\<close>

definition tables_ok :: "usize \<Rightarrow> machine \<Rightarrow> bool" where
  "tables_ok p M \<longleftrightarrow> pmm_ok (frames M) \<and> last_phys_addr (frames M) < 2 ^ 40
     \<and> (\<forall>n b. node_in n \<and> node_at p M n = Some b \<longrightarrow> page_base b \<and> frame_of b \<notin> free_set (frames M))
     \<and> (\<forall>n n' b. node_in n \<and> node_in n' \<and> node_at p M n = Some b \<and> node_at p M n' = Some b \<longrightarrow> n = n')
     \<and> (\<forall>i. 8 \<le> i \<and> i < 512 \<longrightarrow> read_table_entry p i M = 0 \<or> points (read_table_entry p i M))
     \<and> (\<forall>i j d. 8 \<le> i \<and> i < 512 \<and> j < 512 \<and> dir_of p M i = Some d
          \<longrightarrow> read_table_entry d j M = 0 \<or> points (read_table_entry d j M))"

lemma tables_okD:
  assumes "tables_ok p M"
  shows "pmm_ok (frames M)" and "last_phys_addr (frames M) < 2 ^ 40"
    and "node_in n \<Longrightarrow> node_at p M n = Some b \<Longrightarrow> page_base b"
    and "node_in n \<Longrightarrow> node_at p M n = Some b \<Longrightarrow> frame_of b \<notin> free_set (frames M)"
    and "node_in n \<Longrightarrow> node_in n' \<Longrightarrow> node_at p M n = Some b \<Longrightarrow> node_at p M n' = Some b \<Longrightarrow> n = n'"
    and "8 \<le> i \<Longrightarrow> i < 512 \<Longrightarrow> read_table_entry p i M = 0 \<or> points (read_table_entry p i M)"
    and "8 \<le> i \<Longrightarrow> i < 512 \<Longrightarrow> dir_of p M i = Some d \<Longrightarrow> j < 512 \<Longrightarrow>
      read_table_entry d j M = 0 \<or> points (read_table_entry d j M)"
  using assms unfolding tables_ok_def by blast+

lemma tables_okI:
  assumes "pmm_ok (frames M)" and "last_phys_addr (frames M) < 2 ^ 40"
    and "\<And>n b. node_in n \<Longrightarrow> node_at p M n = Some b \<Longrightarrow> page_base b \<and> frame_of b \<notin> free_set (frames M)"
    and "\<And>n n' b. node_in n \<Longrightarrow> node_in n' \<Longrightarrow> node_at p M n = Some b \<Longrightarrow> node_at p M n' = Some b \<Longrightarrow> n = n'"
    and "\<And>i. 8 \<le> i \<Longrightarrow> i < 512 \<Longrightarrow> read_table_entry p i M = 0 \<or> points (read_table_entry p i M)"
    and "\<And>i j d. 8 \<le> i \<Longrightarrow> i < 512 \<Longrightarrow> dir_of p M i = Some d \<Longrightarrow> j < 512 \<Longrightarrow>
      read_table_entry d j M = 0 \<or> points (read_table_entry d j M)"
  shows "tables_ok p M"
  unfolding tables_ok_def using assms by blast

section \<open>A new table\<close>

text \<open>What the allocation of a table under \<open>q\<close> does to memory: entry \<open>i\<close> of \<open>q\<close> points to
  the cleared frame \<open>a\<close>, which was free.\<close>

definition grown :: "usize \<Rightarrow> nat \<Rightarrow> u64 \<Rightarrow> usize \<Rightarrow> machine \<Rightarrow> machine \<Rightarrow> bool" where
  "grown q i e a M M' \<longleftrightarrow> page_base a \<and> points e \<and> entry_base e = a
     \<and> frame_of a \<in> free_set (frames M) \<and> free_set (frames M') = free_set (frames M) - {frame_of a}
     \<and> pmm_ok (frames M') \<and> geometry (frames M') = geometry (frames M)
     \<and> (\<forall>b x. page_base b \<and> x < 512 \<longrightarrow> read_table_entry b x M' =
           (if b = q \<and> x = i then e else if b = a then 0 else read_table_entry b x M))"

lemma grown_read:
  assumes "grown q i e a M M'" and "tables_ok p M" and "node_in n" and "node_at p M n = Some b" and "x < 512"
  shows "read_table_entry b x M' = (if b = q \<and> x = i then e else read_table_entry b x M)"
proof -
  have "page_base b" "frame_of b \<notin> free_set (frames M)"
    using tables_okD(3,4) [OF assms(2-4)] by auto
  moreover from this(2) have "b \<noteq> a" using assms(1) by (auto simp: grown_def)
  ultimately show ?thesis using assms(1,5) by (simp add: grown_def)
qed

lemma present_not_0 [simp]: "\<not> present 0"
  by (simp add: present_def)

lemma next_base_0 [simp]: "next_base 0 = None"
  by (simp add: next_base_def)

lemma tables_ok_grown:
  assumes g: "grown q i e a M M'" and ok: "tables_ok p M" and new: "node_in new" "node_at p M new = None"
    and at: "\<And>n. node_in n \<Longrightarrow> node_at p M' n = (if n = new then Some a else node_at p M n)"
    and root: "\<And>i. 8 \<le> i \<Longrightarrow> i < 512 \<Longrightarrow> read_table_entry p i M' = 0 \<or> points (read_table_entry p i M')"
    and dirs: "\<And>i j d. 8 \<le> i \<Longrightarrow> i < 512 \<Longrightarrow> dir_of p M' i = Some d \<Longrightarrow> j < 512 \<Longrightarrow>
      read_table_entry d j M' = 0 \<or> points (read_table_entry d j M')"
  shows "tables_ok p M'" and "table_pool p M' = table_pool p M"
proof -
  have "nodes p M' = insert a (nodes p M)"
  proof (intro equalityI subsetI)
    fix b
    assume "b \<in> nodes p M'"
    then show "b \<in> insert a (nodes p M)" using at by (auto simp: nodes_def split: if_splits)
  next
    fix b
    assume "b \<in> insert a (nodes p M)"
    then consider "b = a" | n where "node_in n" "node_at p M n = Some b" by (auto simp: nodes_def)
    then show "b \<in> nodes p M'"
    proof cases
      case 1
      then show ?thesis using at [OF new(1)] new(1) by (auto simp: nodes_def)
    next
      case 2
      then show ?thesis using at [OF 2(1)] new(2) by (auto simp: nodes_def intro!: exI [of _ n])
    qed
  qed
  then show "table_pool p M' = table_pool p M" using g by (auto simp: table_pool_def grown_def)
  show "tables_ok p M'"
proof (rule tables_okI)
  show "pmm_ok (frames M')" "last_phys_addr (frames M') < 2 ^ 40"
    using g tables_okD(2) [OF ok] geometry_fields(2) [of "frames M'" "frames M"] by (simp_all add: grown_def)
  have a: "page_base a" "frame_of a \<in> free_set (frames M)" "free_set (frames M') = free_set (frames M) - {frame_of a}"
    using g by (simp_all add: grown_def)
  show "page_base b \<and> frame_of b \<notin> free_set (frames M')" if "node_in n" "node_at p M' n = Some b" for n b
    using that at [OF that(1)] a tables_okD(3,4) [OF ok that(1)] by (auto split: if_splits)
  show "n = n'" if n: "node_in n" "node_in n'" "node_at p M' n = Some b" "node_at p M' n' = Some b" for n n' b
  proof -
    have "b \<noteq> a" if "node_in k" "node_at p M k = Some b" for k
      using tables_okD(4) [OF ok that] a(2) by auto
    then show ?thesis
      using n at [OF n(1)] at [OF n(2)] tables_okD(5) [OF ok n(1,2)] by (auto split: if_splits)
  qed
qed (use root dirs in blast)+
qed

lemma new_directory:
  assumes g: "grown p i e a M M'" and ok: "tables_ok p M" and i: "8 \<le> i" "i < 512" and none: "dir_of p M i = None"
  shows "tables_ok p M'" and "dir_of p M' i = Some a"
    and "\<And>i' j k. 8 \<le> i' \<Longrightarrow> i' < 512 \<Longrightarrow> j < 512 \<Longrightarrow> k < 512 \<Longrightarrow> leaf p M' i' j k = leaf p M i' j k"
    and "table_pool p M' = table_pool p M"
proof -
  have e: "points e" "present e" "entry_base e = a" "page_base a" using g by (simp_all add: grown_def points_present)
  have p: "page_base p" using tables_okD(3) [OF ok, of Root] by simp
  have pa: "p \<noteq> a" using g tables_okD(4) [OF ok, of Root] by (auto simp: grown_def)
  have rp: "read_table_entry p x M' = (if x = i then e else read_table_entry p x M)" if "x < 512" for x
    using grown_read [OF g ok, of Root p x] that by simp
  have ra: "read_table_entry a x M' = 0" if "x < 512" for x
    using g that e pa by (simp add: grown_def)
  have dir: "dir_of p M' x = (if x = i then Some a else dir_of p M x)" if "x < 512" for x
    using rp [OF that] e by (simp add: dir_of_def next_base_def)
  have rd: "read_table_entry d j M' = read_table_entry d j M" if "8 \<le> x" "x < 512" "dir_of p M x = Some d" "j < 512" for x d j
    using grown_read [OF g ok, of "Dir x" d j] tables_okD(5) [OF ok, of "Dir x" Root d] that by auto
  have tab: "tab_of p M' x j = tab_of p M x j" if "8 \<le> x" "x < 512" "j < 512" for x j
    using that dir none ra rd by (auto simp: tab_of_def split: option.splits)
  show dir_i: "dir_of p M' i = Some a" using dir i by simp
  show "leaf p M' x j k = leaf p M x j k" if x: "8 \<le> x" "x < 512" "j < 512" "k < 512" for x j k
  proof (cases "tab_of p M x j")
    case None
    then show ?thesis using tab [OF x(1-3)] by (simp add: leaf_def)
  next
    case (Some t)
    then have "read_table_entry t k M' = read_table_entry t k M"
      using grown_read [OF g ok, of "Tab x j" t k] tables_okD(5) [OF ok, of "Tab x j" Root t] x by auto
    then show ?thesis using tab [OF x(1-3)] Some by (simp add: leaf_def)
  qed
  have at: "node_at p M' n = (if n = Dir i then Some a else node_at p M n)" if "node_in n" for n
    using that dir tab by (cases n) auto
  have root: "read_table_entry p x M' = 0 \<or> points (read_table_entry p x M')" if "8 \<le> x" "x < 512" for x
      using rp that e tables_okD(6) [OF ok that] by simp
  have dirs: "read_table_entry d j M' = 0 \<or> points (read_table_entry d j M')"
      if "8 \<le> x" "x < 512" "dir_of p M' x = Some d" "j < 512" for x j d
      using that dir [of x] ra rd [OF that(1,2)] tables_okD(7) [OF ok that(1,2)] by (auto split: if_splits)
    show "tables_ok p M'" "table_pool p M' = table_pool p M"
    using tables_ok_grown [OF g ok _ _ at root dirs] i none by simp_all
qed

lemma new_table:
  assumes g: "grown d j e a M M'" and ok: "tables_ok p M" and i: "8 \<le> i" "i < 512" "j < 512"
    and d: "dir_of p M i = Some d" and none: "tab_of p M i j = None"
  shows "tables_ok p M'" and "tab_of p M' i j = Some a"
    and "\<And>i' j' k. 8 \<le> i' \<Longrightarrow> i' < 512 \<Longrightarrow> j' < 512 \<Longrightarrow> k < 512 \<Longrightarrow> leaf p M' i' j' k = leaf p M i' j' k"
    and "table_pool p M' = table_pool p M"
proof -
  have e: "points e" "present e" "entry_base e = a" "page_base a" using g by (simp_all add: grown_def points_present)
  have nd: "node_in (Dir i)" "node_at p M (Dir i) = Some d" using i d by simp_all
  have pd: "p \<noteq> d" using tables_okD(5) [OF ok nd(1) _ nd(2), of Root] by auto
  have da: "d \<noteq> a" using g tables_okD(4) [OF ok nd] by (auto simp: grown_def)
  have rp: "read_table_entry p x M' = read_table_entry p x M" if "x < 512" for x
    using grown_read [OF g ok, of Root p x] that pd by simp
  have dir: "dir_of p M' x = dir_of p M x" if "x < 512" for x
    using rp [OF that] by (simp add: dir_of_def)
  have rd: "read_table_entry d' y M' = (if x = i \<and> y = j then e else read_table_entry d' y M)"
    if "8 \<le> x" "x < 512" "dir_of p M x = Some d'" "y < 512" for x d' y
    using grown_read [OF g ok, of "Dir x" d' y] tables_okD(5) [OF ok, of "Dir x" "Dir i" d] that i d by auto
  have ra: "read_table_entry a x M' = 0" if "x < 512" for x
    using g that e da by (simp add: grown_def)
  have tab: "tab_of p M' x y = (if x = i \<and> y = j then Some a else tab_of p M x y)" if "8 \<le> x" "x < 512" "y < 512" for x y
    using that dir rd d e by (auto simp: tab_of_def next_base_def split: option.splits)
  show tab_ij: "tab_of p M' i j = Some a" using tab i by simp
  show "leaf p M' x y k = leaf p M x y k" if x: "8 \<le> x" "x < 512" "y < 512" "k < 512" for x y k
  proof (cases "tab_of p M x y")
    case None
    then show ?thesis using tab [OF x(1-3)] none ra x(4) by (auto simp: leaf_def)
  next
    case (Some t)
    then have "read_table_entry t k M' = read_table_entry t k M"
      using grown_read [OF g ok, of "Tab x y" t k] tables_okD(5) [OF ok, of "Tab x y" "Dir i" t] x nd by auto
    then show ?thesis using tab [OF x(1-3)] Some none by (auto simp: leaf_def)
  qed
  have at: "node_at p M' n = (if n = Tab i j then Some a else node_at p M n)" if "node_in n" for n
    using that dir tab by (cases n) auto
  have root: "read_table_entry p x M' = 0 \<or> points (read_table_entry p x M')" if "8 \<le> x" "x < 512" for x
      using rp that tables_okD(6) [OF ok that] by simp
  have dirs: "read_table_entry d' y M' = 0 \<or> points (read_table_entry d' y M')"
      if "8 \<le> x" "x < 512" "dir_of p M' x = Some d'" "y < 512" for x y d'
      using that dir [of x] rd [OF that(1,2)] e tables_okD(7) [OF ok that(1,2)] by auto
    show "tables_ok p M'" "table_pool p M' = table_pool p M"
    using tables_ok_grown [OF g ok _ _ at root dirs] i none by simp_all
qed

section \<open>Writing a leaf\<close>

lemma write_leaf:
  assumes ok: "tables_ok p M" and i: "8 \<le> i" "i < 512" "j < 512" "k < 512" and t: "tab_of p M i j = Some t"
  shows "tables_ok p (write_table_entry t k e M)"
    and "\<And>i' j'. 8 \<le> i' \<Longrightarrow> i' < 512 \<Longrightarrow> j' < 512 \<Longrightarrow> tab_of p (write_table_entry t k e M) i' j' = tab_of p M i' j'"
    and "\<And>i' j' k'. 8 \<le> i' \<Longrightarrow> i' < 512 \<Longrightarrow> j' < 512 \<Longrightarrow> k' < 512 \<Longrightarrow>
      leaf p (write_table_entry t k e M) i' j' k' =
        (if i' = i \<and> j' = j \<and> k' = k then (if present e then Some e else None) else leaf p M i' j' k')"
    and "table_pool p (write_table_entry t k e M) = table_pool p M"
proof -
  let ?M = "write_table_entry t k e M"
  have nt: "node_in (Tab i j)" "node_at p M (Tab i j) = Some t" using i t by simp_all
  have r: "read_table_entry b x ?M = (if n = Tab i j \<and> x = k then e else read_table_entry b x M)"
    if "node_in n" "node_at p M n = Some b" "x < 512" for n b x
    using read_write [OF tables_okD(3) [OF ok nt] tables_okD(3) [OF ok that(1,2)] i(4) that(3), of e M]
      tables_okD(5) [OF ok that(1) nt(1) that(2)] nt(2) that(2) by auto
  have dir: "dir_of p ?M x = dir_of p M x" if "x < 512" for x
    using r [of Root p x] that by (simp add: dir_of_def)
  show tab: "tab_of p ?M x y = tab_of p M x y" if "8 \<le> x" "x < 512" "y < 512" for x y
    using r [of "Dir x"] that dir by (auto simp: tab_of_def split: option.splits)
  show "leaf p ?M x y z = (if x = i \<and> y = j \<and> z = k then (if present e then Some e else None) else leaf p M x y z)"
    if "8 \<le> x" "x < 512" "y < 512" "z < 512" for x y z
    using r [of "Tab x y"] that tab [OF that(1-3)] t by (auto simp: leaf_def Let_def split: option.splits)
  have at: "node_at p ?M n = node_at p M n" if "node_in n" for n
    using that dir tab by (cases n) auto
  then have "nodes p ?M = nodes p M" unfolding nodes_def by auto
  then show "table_pool p ?M = table_pool p M" by (simp add: table_pool_def)
  show "tables_ok p ?M"
  proof (rule tables_okI)
    show "page_base b \<and> frame_of b \<notin> free_set (frames ?M)" if "node_in n" "node_at p ?M n = Some b" for n b
      using tables_okD(3,4) [OF ok that(1)] that at by simp
    show "n = n'" if "node_in n" "node_in n'" "node_at p ?M n = Some b" "node_at p ?M n' = Some b" for n n' b
      using tables_okD(5) [OF ok that(1,2)] that at by simp
    show "read_table_entry p x ?M = 0 \<or> points (read_table_entry p x ?M)" if "8 \<le> x" "x < 512" for x
      using r [of Root p x] that tables_okD(6) [OF ok that] by simp
    show "read_table_entry d y ?M = 0 \<or> points (read_table_entry d y ?M)"
      if "8 \<le> x" "x < 512" "dir_of p ?M x = Some d" "y < 512" for x y d
      using r [of "Dir x" d y] that dir [of x] tables_okD(7) [OF ok that(1,2)] by simp
  qed (use tables_okD(1,2) [OF ok] in simp_all)
qed

end
