(* ===== verification/Mmu_Map.thy ===== *)
theory Mmu_Map
  imports Mmu_Inv
begin

text \<open>
  What mapping, unmapping and translating user pages do, over the map that the tables
  represent: the entry of a page is what \<open>walk\<close> finds. Mapping a page takes at most two
  frames for tables; mapping a range updates the map on exactly its pages.
\<close>

section \<open>One page\<close>

lemma table_below_there:
  "next_base (read_table_entry q i M) = Some d \<Longrightarrow> table_below q i m M = returns (d, m, M)"
  by (auto simp: next_base_def table_below_def Let_def split: if_splits)

lemma table_below_new:
  assumes ok: "pmm_ok (frames M)" "last_phys_addr (frames M) < 2 ^ 40" "free_set (frames M) \<noteq> {}"
    and q: "page_base q" "frame_of q \<notin> free_set (frames M)" "i < 512"
    and none: "next_base (read_table_entry q i M) = None"
    and clean: "read_table_entry q i M = 0 \<or> points (read_table_entry q i M)"
  shows "\<exists>a e M'. table_below q i m M = returns (a, m\<lparr>tlb_page_count := uadd (tlb_page_count m) 1\<rparr>, M') \<and> grown q i e a M M'"
proof -
  obtain a fb where a: "alloc_frame M = returns (a, M\<lparr>frames := fb\<rparr>)" "page_base a" "frame_of a \<in> free_set (frames M)"
    "free_set fb = free_set (frames M) - {frame_of a}" "pmm_ok fb" "geometry fb = geometry (frames M)"
    using alloc_frame_ok [OF ok(1,3,2)] by blast
  let ?e = "of_nat a OR entry_flags False True True Normal"
  have 0: "read_table_entry q i M = 0" using none clean by (auto simp: next_base_def points_def split: if_splits)
  have e: "points ?e" "entry_base ?e = a"
    using entry_base_make [OF a(2) entry_flags_plain] entry_points [OF a(2)] by blast+
  have qa: "q \<noteq> a" using q a(3) by auto
  let ?M = "write_table_entry q i ?e (zero_frame a (M\<lparr>frames := fb\<rparr>))"
  have r: "read_table_entry b x ?M = (if b = q \<and> x = i then ?e else if b = a then 0 else read_table_entry b x M)"
    if "page_base b" "x < 512" for b x
  proof -
    have "read_table_entry b x (zero_frame a (M\<lparr>frames := fb\<rparr>)) = (if b = a then 0 else read_table_entry b x M)"
      using read_zero [OF that(1) a(2) that(2), of "M\<lparr>frames := fb\<rparr>"] by simp
    then show ?thesis unfolding read_write [OF q(1) that(1) q(3) that(2)] by (simp only:)
  qed
  have "grown q i ?e a M ?M"
  proof -
    have "free_set (frames ?M) = free_set (frames M) - {frame_of a}" "pmm_ok (frames ?M)"
      "geometry (frames ?M) = geometry (frames M)"
      using a(4-6) by simp_all
    then show ?thesis unfolding grown_def using a(2,3) e r by blast
  qed
  then show ?thesis
    using a(1) 0 by (intro exI [of _ a] exI [of _ ?e] exI [of _ ?M]) (simp add: table_below_def Let_def)
qed

text \<open>What a step of the mapping keeps of the mapping record and of the frames.\<close>

definition extends :: "mmu_mapping \<Rightarrow> machine \<Rightarrow> mmu_mapping \<Rightarrow> machine \<Rightarrow> nat \<Rightarrow> bool" where
  "extends m M m' M' n \<longleftrightarrow> pdpt0_base m' = pdpt0_base m \<and> pml4_base m' = pml4_base m
     \<and> mapped_pages_count m' = mapped_pages_count m \<and> tables_ok (pdpt0_base m) M'
     \<and> free_set (frames M') \<subseteq> free_set (frames M) \<and> card (free_set (frames M)) \<le> card (free_set (frames M')) + n
     \<and> table_pool (pdpt0_base m) M' = table_pool (pdpt0_base m) M
     \<and> geometry (frames M') = geometry (frames M)"

lemma extends_refl: "tables_ok (pdpt0_base m) M \<Longrightarrow> extends m M m M 0"
  by (simp add: extends_def)

lemma extends_trans: "extends m M m1 M1 k \<Longrightarrow> extends m1 M1 m2 M2 n \<Longrightarrow> extends m M m2 M2 (k + n)"
  by (auto simp: extends_def)

lemma extends_grown:
  assumes "grown q i e a M M'" and "tables_ok (pdpt0_base m) M'"
    and "table_pool (pdpt0_base m) M' = table_pool (pdpt0_base m) M"
  shows "extends m M (m\<lparr>tlb_page_count := c\<rparr>) M' 1"
proof -
  have "finite (free_set (frames M))" by (simp add: free_set_def)
  then show ?thesis using assms by (auto simp: extends_def grown_def card_Diff_singleton_if)
qed

definition same_leaves :: "usize \<Rightarrow> machine \<Rightarrow> machine \<Rightarrow> bool" where
  "same_leaves p M M' \<longleftrightarrow> (\<forall>i j k. 8 \<le> i \<and> i < 512 \<and> j < 512 \<and> k < 512 \<longrightarrow> leaf p M' i j k = leaf p M i j k)"

lemma directory_step:
  assumes ok: "tables_ok (pdpt0_base m) M" and i: "8 \<le> i" "i < 512" and free: "free_set (frames M) \<noteq> {}"
  shows "\<exists>d m' M'. table_below (pdpt0_base m) i m M = returns (d, m', M') \<and> extends m M m' M' 1
    \<and> dir_of (pdpt0_base m) M' i = Some d \<and> same_leaves (pdpt0_base m) M M'"
proof (cases "dir_of (pdpt0_base m) M i")
  case None
  let ?p = "pdpt0_base m"
  have p: "page_base ?p" "frame_of ?p \<notin> free_set (frames M)"
    using tables_okD(3,4) [OF ok, of Root] by simp_all
  obtain a e M' where "table_below ?p i m M = returns (a, m\<lparr>tlb_page_count := uadd (tlb_page_count m) 1\<rparr>, M')"
    "grown ?p i e a M M'"
    using table_below_new [OF tables_okD(1,2) [OF ok] free p i(2), of m] None tables_okD(6) [OF ok i]
    by (auto simp: dir_of_def)
  note step = this
  note n = new_directory [OF step(2) ok i None]
  show ?thesis
    using step(1) n(2,3) extends_grown [OF step(2) n(1,4)] unfolding same_leaves_def by blast
next
  case (Some d)
  have "extends m M m M 1" using extends_refl [OF ok] by (simp add: extends_def)
  then show ?thesis
    using Some table_below_there [of "pdpt0_base m" i M d m] by (auto simp: dir_of_def same_leaves_def)
qed

lemma table_step:
  assumes ok: "tables_ok (pdpt0_base m) M" and i: "8 \<le> i" "i < 512" "j < 512" and free: "free_set (frames M) \<noteq> {}"
    and d: "dir_of (pdpt0_base m) M i = Some d"
  shows "\<exists>t m' M'. table_below d j m M = returns (t, m', M') \<and> extends m M m' M' 1
    \<and> tab_of (pdpt0_base m) M' i j = Some t \<and> same_leaves (pdpt0_base m) M M'"
proof (cases "tab_of (pdpt0_base m) M i j")
  case None
  have p: "page_base d" "frame_of d \<notin> free_set (frames M)"
    using tables_okD(3,4) [OF ok, of "Dir i"] i d by simp_all
  obtain a e M' where "table_below d j m M = returns (a, m\<lparr>tlb_page_count := uadd (tlb_page_count m) 1\<rparr>, M')"
    "grown d j e a M M'"
    using table_below_new [OF tables_okD(1,2) [OF ok] free p i(3), of m] None d tables_okD(7) [OF ok i(1,2) d i(3)]
    by (auto simp: tab_of_def)
  note step = this
  note n = new_table [OF step(2) ok i d None]
  show ?thesis
    using step(1) n(2,3) extends_grown [OF step(2) n(1,4)] unfolding same_leaves_def by blast
next
  case (Some t)
  have "extends m M m M 1" using extends_refl [OF ok] by (simp add: extends_def)
  then show ?thesis
    using Some d table_below_there [of d j M t m] by (auto simp: tab_of_def same_leaves_def)
qed

text \<open>The entry of a user page.\<close>

definition page_entry :: "mmu_mapping \<Rightarrow> machine \<Rightarrow> usize \<Rightarrow> u64 option" where
  "page_entry m M v = map_option snd (walk (pdpt0_base m) v M)"

lemma page_entry_leaf: "page_entry m M v = leaf (pdpt0_base m) M (pdpt0e_i v) (pde_i v) (pte_i v)"
  by (simp add: page_entry_def walk_leaf option.map_comp o_def option.map_ident)

lemma translate_entry: "virt_to_phys_from_map v m M = map_option entry_base (page_entry m M v)"
  by (simp add: translate_leaf page_entry_leaf)

lemma same_page_index:
  assumes u: "user_addr u" and v: "user_addr v"
  shows "(pdpt0e_i u = pdpt0e_i v \<and> pde_i u = pde_i v \<and> pte_i u = pte_i v) = (u div 4096 = v div 4096)"
proof
  assume "u div 4096 = v div 4096"
  moreover have "w div 2 ^ 30 = w div 4096 div 262144" "w div 2 ^ 21 = w div 4096 div 512" for w :: nat
    by (simp_all add: div_mult2_eq [symmetric])
  ultimately show "pdpt0e_i u = pdpt0e_i v \<and> pde_i u = pde_i v \<and> pte_i u = pte_i v" unfolding index_div by simp
next
  assume "pdpt0e_i u = pdpt0e_i v \<and> pde_i u = pde_i v \<and> pte_i u = pte_i v"
  then show "u div 4096 = v div 4096" using same_page [of u v] u v by (simp add: user_addr_def)
qed

lemma map_page_ok:
  assumes ok: "tables_ok (pdpt0_base m) M" and v: "user_addr v" and f: "page_base f" "plain_flags fl"
    and free: "2 \<le> card (free_set (frames M))" and none: "page_entry m M v = None"
  shows "\<exists>m' M'. map_page v f fl m M = returns (m', M') \<and> extends m M m' M' 2
    \<and> (\<forall>u. user_addr u \<longrightarrow> page_entry m' M' u =
          (if u div 4096 = v div 4096 then Some (of_nat f OR fl) else page_entry m M u))"
proof -
  let ?p = "pdpt0_base m" and ?i = "pdpt0e_i v" and ?j = "pde_i v" and ?k = "pte_i v"
  have i: "8 \<le> ?i" using user_index [OF v] .
  have "free_set (frames M) \<noteq> {}" using free by auto
  then obtain d m1 M1 where 1: "table_below ?p ?i m M = returns (d, m1, M1)" "extends m M m1 M1 1"
    "dir_of ?p M1 ?i = Some d" "same_leaves ?p M M1"
    using directory_step [OF ok i] by auto
  have p1: "pdpt0_base m1 = ?p" "tables_ok (pdpt0_base m1) M1" and "free_set (frames M1) \<noteq> {}"
    using 1(2) free by (auto simp: extends_def)
  then obtain t m2 M2 where 2: "table_below d ?j m1 M1 = returns (t, m2, M2)" "extends m1 M1 m2 M2 1"
    "tab_of ?p M2 ?i ?j = Some t" "same_leaves ?p M1 M2"
    using table_step [of m1 M1 ?i ?j d] i 1(3) unfolding p1(1) by auto
  have p2: "pdpt0_base m2 = ?p" "tables_ok ?p M2" using 2(2) p1(1) by (simp_all add: extends_def)
  have e2: "leaf ?p M2 x y z = leaf ?p M x y z" if "8 \<le> x" "x < 512" "y < 512" "z < 512" for x y z
    using 1(4) 2(4) that by (simp add: same_leaves_def)
  let ?e = "of_nat f OR fl" and ?M = "write_table_entry t ?k (of_nat f OR fl) M2"
  have e: "present ?e" using f(2) by (rule present_make)
  have "leaf ?p M2 ?i ?j ?k = None" using e2 [OF i] none by (simp add: page_entry_leaf)
  then have np: "\<not> present (read_table_entry t ?k M2)" using 2(3) by (auto simp: leaf_def Let_def split: if_splits)
  have run: "map_page v f fl m M = returns (m2, ?M)"
    using 1(1) 2(1) np page_base_word(1) [OF f(1)] by (simp add: map_page_def Let_def)
  have "extends m2 M2 m2 ?M 0"
    using extends_refl [of m2 ?M] p2 write_leaf(1,4) [OF p2(2) i _ _ _ 2(3), of ?k ?e] by (simp add: extends_def)
  from extends_trans [OF extends_trans [OF 1(2) 2(2)] this] have "extends m M m2 ?M 2" by (simp add: numeral_2_eq_2)
  moreover have "page_entry m2 ?M u = (if u div 4096 = v div 4096 then Some ?e else page_entry m M u)" if u: "user_addr u" for u
  proof -
    have "(pdpt0e_i u = ?i \<and> pde_i u = ?j \<and> pte_i u = ?k) = (u div 4096 = v div 4096)"
      by (rule same_page_index [OF u v])
    then show ?thesis
      using write_leaf(3) [OF p2(2) i _ _ _ 2(3), of ?k "pdpt0e_i u" "pde_i u" "pte_i u" ?e] user_index [OF u] e e2
      by (auto simp: page_entry_leaf p2(1))
  qed
  ultimately show ?thesis using run by blast
qed

section \<open>A range of pages\<close>

text \<open>\<open>covers v n u\<close>: the address \<open>u\<close> lies on one of the \<open>n\<close> pages from \<open>v\<close>.\<close>

definition covers :: "usize \<Rightarrow> nat \<Rightarrow> usize \<Rightarrow> bool" where
  "covers v n u \<longleftrightarrow> v \<le> u \<and> u < v + 4096 * n"

lemma page_in_range:
  assumes "v mod 4096 = 0"
  shows "u div 4096 = v div 4096 \<longleftrightarrow> covers v 1 u"
proof -
  have v: "v = 4096 * (v div 4096)" using assms by auto
  have "v div 4096 = u div 4096 \<longleftrightarrow> 4096 * (v div 4096) \<le> u \<and> u < 4096 * (v div 4096) + 4096"
    by auto
  then show ?thesis using v by (auto simp: covers_def)
qed

lemma covers_Suc:
  assumes "v mod 4096 = 0"
  shows "covers v (Suc n) u \<longleftrightarrow> covers v 1 u \<or> covers (v + 4096) n u"
    and "covers v 1 u \<Longrightarrow> (u - v) div 4096 = 0"
    and "covers (v + 4096) n u \<Longrightarrow> \<not> covers v 1 u \<and> (u - v) div 4096 = Suc ((u - (v + 4096)) div 4096)"
proof -
  show "\<not> covers v 1 u \<and> (u - v) div 4096 = Suc ((u - (v + 4096)) div 4096)" if c: "covers (v + 4096) n u"
  proof -
    define d where "d = u - (v + 4096)"
    have u: "u = v + 4096 + d" using c by (simp add: covers_def d_def)
    then have "u - v = d + 4096" by simp
    then have "(u - v) div 4096 = Suc (d div 4096)" by simp
    moreover have "\<not> covers v 1 u" using u by (simp add: covers_def)
    ultimately show ?thesis by (simp add: d_def)
  qed
qed (auto simp: covers_def)

lemma map_loop_ok:
  assumes "tables_ok (pdpt0_base m) M" and "v mod 4096 = 0" and "MIN_VIRTUAL_USER \<le> v" and "v + 4096 * length ps \<le> 2 ^ 39"
    and "\<forall>p \<in> set ps. page_base p" and "plain_flags fl"
    and "2 * length ps \<le> card (free_set (frames M))"
    and "\<And>u. covers v (length ps) u \<Longrightarrow> page_entry m M u = None"
  shows "\<exists>m' M'. map_loop v ps fl m M = returns (m', M') \<and> extends m M m' M' (2 * length ps)
    \<and> (\<forall>u. user_addr u \<longrightarrow> page_entry m' M' u =
          (if covers v (length ps) u then Some (of_nat (ps ! ((u - v) div 4096)) OR fl) else page_entry m M u))"
  using assms
proof (induction ps arbitrary: v m M)
  case Nil
  then show ?case using extends_refl by (auto simp: covers_def)
next
  case (Cons p ps)
  let ?n = "length ps"
  have v: "user_addr v" "page_entry m M v = None" "page_base p" "2 \<le> card (free_set (frames M))"
  proof -
    have e: "v + 4096 \<le> 2 ^ 39" using Cons.prems(4) by simp
    then show "user_addr v" using Cons.prems(3) by (simp add: user_addr_def)
    show "page_entry m M v = None" by (rule Cons.prems(8)) (simp add: covers_def)
    show "page_base p" using Cons.prems(5) by simp
    show "2 \<le> card (free_set (frames M))" using Cons.prems(7) by simp
  qed
  obtain m1 M1 where 1: "map_page v p fl m M = returns (m1, M1)" "extends m M m1 M1 2"
    "\<And>u. user_addr u \<Longrightarrow> page_entry m1 M1 u = (if u div 4096 = v div 4096 then Some (of_nat p OR fl) else page_entry m M u)"
    using map_page_ok [OF Cons.prems(1) v(1,3) Cons.prems(6) v(4,2)] by blast
  have v1: "uadd v 4096 = v + 4096" using Cons.prems(4) by (simp add: usize_arith)
  have un: "page_entry m1 M1 u = None" if "covers (v + 4096) ?n u" for u
  proof -
    have "user_addr u" using that Cons.prems(3,4) by (simp add: user_addr_def covers_def)
    moreover have "\<not> covers v 1 u" "covers v (length (p # ps)) u"
      using covers_Suc(1,3) [OF Cons.prems(2), of ?n u] that by simp_all
    ultimately show ?thesis
      using 1(3) [of u] Cons.prems(8) [of u] page_in_range [OF Cons.prems(2), of u] by simp
  qed
  have "\<exists>m' M'. map_loop (v + 4096) ps fl m1 M1 = returns (m', M') \<and> extends m1 M1 m' M' (2 * ?n)
    \<and> (\<forall>u. user_addr u \<longrightarrow> page_entry m' M' u =
          (if covers (v + 4096) ?n u then Some (of_nat (ps ! ((u - (v + 4096)) div 4096)) OR fl) else page_entry m1 M1 u))"
  proof (rule Cons.IH)
    show "tables_ok (pdpt0_base m1) M1" using 1(2) by (simp add: extends_def)
    show "(v + 4096) mod 4096 = 0" using Cons.prems(2) by simp
    show "MIN_VIRTUAL_USER \<le> v + 4096" using Cons.prems(3) by simp
    show "v + 4096 + 4096 * ?n \<le> 2 ^ 39" using Cons.prems(4) by simp
    show "2 * ?n \<le> card (free_set (frames M1))" using 1(2) Cons.prems(7) by (simp add: extends_def)
  qed (use Cons.prems(5,6) un in simp_all)
  then obtain m2 M2 where 2: "map_loop (v + 4096) ps fl m1 M1 = returns (m2, M2)" "extends m1 M1 m2 M2 (2 * ?n)"
    "\<And>u. user_addr u \<Longrightarrow> page_entry m2 M2 u =
       (if covers (v + 4096) ?n u then Some (of_nat (ps ! ((u - (v + 4096)) div 4096)) OR fl) else page_entry m1 M1 u)"
    by blast
  have "extends m M m2 M2 (2 * length (p # ps))"
    using extends_trans [OF 1(2) 2(2)] by simp
  moreover have "page_entry m2 M2 u = (if covers v (length (p # ps)) u
      then Some (of_nat ((p # ps) ! ((u - v) div 4096)) OR fl) else page_entry m M u)" if "user_addr u" for u
  proof (cases "covers (v + 4096) ?n u")
    case True
    then show ?thesis using 2(3) [OF that] covers_Suc(1,3) [OF Cons.prems(2), of ?n u] by simp
  next
    case False
    then show ?thesis
      using 1(3) [OF that] 2(3) [OF that] page_in_range [OF Cons.prems(2), of u] covers_Suc(1) [OF Cons.prems(2), of ?n u] covers_Suc(2) [OF Cons.prems(2), of u] by simp
  qed
  ultimately show ?case using 1(1) 2(1) v1 by (intro exI [of _ m2] exI [of _ M2]) simp
qed

lemma aligned_base: "v mod 4096 = 0 \<Longrightarrow> v < 2 ^ 39 \<Longrightarrow> entry_base (of_nat v) = v"
  using page_base_word [of v] by (simp add: page_base_def entry_base_def)

lemma map_pages_ok:
  assumes "tables_ok (pdpt0_base m) M" and "v mod 4096 = 0" and "MIN_VIRTUAL_USER \<le> v" and "ps \<noteq> []"
    and "v + 4096 * length ps \<le> 2 ^ 39" and "\<forall>p \<in> set ps. page_base p"
    and "2 * length ps \<le> card (free_set (frames M))"
    and "\<And>u. covers v (length ps) u \<Longrightarrow> page_entry m M u = None"
  shows "\<exists>m' M'. map_pages v ps w x c m M = returns (True, m', M')
    \<and> extends m M (m'\<lparr>mapped_pages_count := mapped_pages_count m\<rparr>) M' (2 * length ps)
    \<and> mapped_pages_count m' = uadd (mapped_pages_count m) (length ps)
    \<and> (\<forall>u. user_addr u \<longrightarrow> page_entry m' M' u =
          (if covers v (length ps) u then Some (of_nat (ps ! ((u - v) div 4096)) OR entry_flags False w x c)
           else page_entry m M u))"
proof -
  have v: "v < 2 ^ 39" using assms(4,5) by (cases ps) auto
  obtain m1 M1 where 1: "map_loop v ps (entry_flags False w x c) m M = returns (m1, M1)"
    "extends m M m1 M1 (2 * length ps)"
    "\<And>u. user_addr u \<Longrightarrow> page_entry m1 M1 u =
       (if covers v (length ps) u then Some (of_nat (ps ! ((u - v) div 4096)) OR entry_flags False w x c) else page_entry m M u)"
    using map_loop_ok [OF assms(1-3,5,6) entry_flags_plain assms(7,8)] by blast
  have c: "mapped_pages_count m1 = mapped_pages_count m" using 1(2) by (simp add: extends_def)
  show ?thesis
    unfolding map_pages_def Let_def aligned_base [OF assms(2) v] 1(1)
    using assms(3) v 1(2,3) c by (auto simp: page_entry_def extends_def)
qed

end
