(* ===== verification/Mmu_Release.thy ===== *)
theory Mmu_Release
  imports Mmu_Map
begin

text \<open>
  Taking pages away: unmapping a page or a range, the state \<open>init\<close> builds, and the frames
  that dropping an address space gives back.
\<close>

section \<open>Unmapping\<close>

lemma not_present_cleared: "\<not> present (e AND NOT PGENT_PRESENT)"
  unfolding present_bit bit_and_iff bit_not_iff by simp

lemma unmap_page_none: "page_entry m M v = None \<Longrightarrow> unmap_page v m M = (None, m, M)"
  by (auto simp: page_entry_def unmap_page_def)

lemma unmap_page_some:
  assumes ok: "tables_ok (pdpt0_base m) M" and v: "user_addr v" and e: "page_entry m M v = Some e"
  shows "\<exists>M'. unmap_page v m M = (Some (entry_base e), m\<lparr>mapped_pages_count := usub (mapped_pages_count m) 1\<rparr>, M')
    \<and> tables_ok (pdpt0_base m) M' \<and> table_pool (pdpt0_base m) M' = table_pool (pdpt0_base m) M \<and> frames M' = frames M
    \<and> (\<forall>u. user_addr u \<longrightarrow> page_entry m M' u = (if u div 4096 = v div 4096 then None else page_entry m M u))"
proof -
  let ?p = "pdpt0_base m" and ?i = "pdpt0e_i v" and ?j = "pde_i v" and ?k = "pte_i v"
  have i: "8 \<le> ?i" using user_index [OF v] .
  have l: "leaf ?p M ?i ?j ?k = Some e" using e by (simp add: page_entry_leaf)
  then obtain t where t: "tab_of ?p M ?i ?j = Some t" by (auto simp: leaf_def split: option.splits)
  let ?M = "write_table_entry t ?k (e AND NOT PGENT_PRESENT) M"
  note w = write_leaf [OF ok i _ _ _ t, of ?k]
  have "page_entry m ?M u = (if u div 4096 = v div 4096 then None else page_entry m M u)" if u: "user_addr u" for u
    using w(3) [of "pdpt0e_i u" "pde_i u" "pte_i u"] user_index [OF u] not_present_cleared [of e] same_page_index [OF u v]
    by (auto simp: page_entry_leaf)
  moreover have "unmap_page v m M = (Some (entry_base e), m\<lparr>mapped_pages_count := usub (mapped_pages_count m) 1\<rparr>, ?M)"
    unfolding unmap_page_def walk_leaf using l t by simp
  ultimately show ?thesis using w(1,4) by (intro exI [of _ ?M]) simp
qed

text \<open>The record without its page counter, which unmapping changes.\<close>

lemma page_entry_count [simp]: "page_entry (m\<lparr>mapped_pages_count := c\<rparr>) M u = page_entry m M u"
  by (simp add: page_entry_def)

lemma unmap_pages_Suc:
  "unmap_pages v (Suc n) m M = (case unmap_pages v n m M of (c, m1, M1) \<Rightarrow>
     case unmap_page (uadd v (umul n 4096)) m1 M1 of (r, m2, M2) \<Rightarrow> (if r \<noteq> None then uadd c 1 else c, m2, M2))"
  by (simp add: unmap_pages_def case_prod_beta')

lemma unmap_pages_ok:
  assumes "tables_ok (pdpt0_base m) M" and "v mod 4096 = 0" and "MIN_VIRTUAL_USER \<le> v" and "v + 4096 * n \<le> 2 ^ 39"
    and "\<And>u. covers v n u \<Longrightarrow> page_entry m M u \<noteq> None" and "n \<le> mapped_pages_count m"
  shows "\<exists>M'. unmap_pages v n m M = (n, m\<lparr>mapped_pages_count := mapped_pages_count m - n\<rparr>, M')
    \<and> tables_ok (pdpt0_base m) M' \<and> table_pool (pdpt0_base m) M' = table_pool (pdpt0_base m) M \<and> frames M' = frames M
    \<and> (\<forall>u. user_addr u \<longrightarrow> page_entry m M' u = (if covers v n u then None else page_entry m M u))"
  using assms
proof (induction n)
  case 0
  have "\<not> covers v 0 u" for u by (simp add: covers_def)
  then show ?case using 0 by (simp add: unmap_pages_def)
next
  case (Suc n)
  have c: "covers v (Suc n) u" if "covers v n u" for u using that by (simp add: covers_def)
  obtain M1 where 1: "unmap_pages v n m M = (n, m\<lparr>mapped_pages_count := mapped_pages_count m - n\<rparr>, M1)"
    "tables_ok (pdpt0_base m) M1" "table_pool (pdpt0_base m) M1 = table_pool (pdpt0_base m) M" "frames M1 = frames M"
    "\<And>u. user_addr u \<Longrightarrow> page_entry m M1 u = (if covers v n u then None else page_entry m M u)"
    using Suc.IH Suc.prems c by auto
  let ?m = "m\<lparr>mapped_pages_count := mapped_pages_count m - n\<rparr>" and ?w = "v + 4096 * n"
  have n: "n < 2 ^ 39" "?w + 4096 \<le> 2 ^ 39" using Suc.prems(4) by simp_all
  then have w: "uadd v (umul n 4096) = ?w" "uadd n (Suc 0) = Suc n" by (simp_all add: umul_exact uadd_exact mult.commute)
  have uw: "user_addr ?w" "covers v (Suc n) ?w" "\<not> covers v n ?w" using n(2) Suc.prems(3) by (simp_all add: user_addr_def covers_def)
  then obtain e where e: "page_entry ?m M1 ?w = Some e" using 1(5) Suc.prems(5) by fastforce
  have "tables_ok (pdpt0_base ?m) M1" using 1(2) by simp
  from unmap_page_some [OF this uw(1) e] obtain M2 where 2:
    "unmap_page ?w ?m M1 = (Some (entry_base e), ?m\<lparr>mapped_pages_count := usub (mapped_pages_count ?m) 1\<rparr>, M2)"
    "tables_ok (pdpt0_base m) M2" "table_pool (pdpt0_base m) M2 = table_pool (pdpt0_base m) M1" "frames M2 = frames M1"
    "\<And>u. user_addr u \<Longrightarrow> page_entry m M2 u = (if u div 4096 = ?w div 4096 then None else page_entry m M1 u)"
    by auto
  have "?m\<lparr>mapped_pages_count := usub (mapped_pages_count ?m) 1\<rparr> = m\<lparr>mapped_pages_count := mapped_pages_count m - Suc n\<rparr>"
    using Suc.prems(6) by (simp add: usub_exact)
  then have "unmap_pages v (Suc n) m M = (Suc n, m\<lparr>mapped_pages_count := mapped_pages_count m - Suc n\<rparr>, M2)"
    unfolding unmap_pages_Suc 1(1) by (simp add: w 2(1))
  moreover have "page_entry m M2 u = (if covers v (Suc n) u then None else page_entry m M u)" if u: "user_addr u" for u
  proof -
    have "u div 4096 = ?w div 4096 \<longleftrightarrow> covers ?w 1 u" by (rule page_in_range) (use Suc.prems(2) in simp)
    moreover have "covers v (Suc n) u \<longleftrightarrow> covers v n u \<or> covers ?w 1 u" by (auto simp: covers_def)
    ultimately show ?thesis using 1(5) [OF u] 2(5) [OF u] by simp
  qed
  ultimately show ?case using 1(3,4) 2(2-4) by (intro exI [of _ M2]) simp
qed

section \<open>A fresh address space\<close>

lemma frames_writes [simp]: "frames (foldl (\<lambda>M i. write_table_entry b i (f i) M) M is) = frames M"
  by (induction "is" rule: rev_induct) simp_all

lemma read_writes:
  assumes "page_base b" "page_base b'" "x < 512" "set is \<subseteq> {..<512}"
  shows "read_table_entry b' x (foldl (\<lambda>M i. write_table_entry b i (f i) M) M is) =
      (if b' = b \<and> x \<in> set is then f x else read_table_entry b' x M)"
  using assms(4)
proof (induction "is" rule: rev_induct)
  case (snoc i "is")
  then have i: "i < 512" and IH: "set is \<subseteq> {..<512}" by simp_all
  show ?case
    unfolding foldl_append foldl.simps read_write [OF assms(1,2) i assms(3)] snoc(1) [OF IH] by auto
qed simp

lemma tables_ok_empty:
  assumes "pmm_ok (frames M)" "last_phys_addr (frames M) < 2 ^ 40" "page_base p" "frame_of p \<notin> free_set (frames M)"
    and 0: "\<And>i. 8 \<le> i \<Longrightarrow> i < 512 \<Longrightarrow> read_table_entry p i M = 0"
  shows "tables_ok p M" and "nodes p M = {p}" and "pdpt0_base m = p \<Longrightarrow> user_addr v \<Longrightarrow> page_entry m M v = None"
proof -
  have d: "dir_of p M i = None" if "8 \<le> i" "i < 512" for i using 0 [OF that] by (simp add: dir_of_def)
  have at: "node_in n \<Longrightarrow> node_at p M n = Some b \<Longrightarrow> n = Root \<and> b = p" for n b
    by (cases n) (auto simp: d tab_of_def)
  show "tables_ok p M"
  proof (rule tables_okI)
    show "n = n'" if "node_in n" "node_in n'" "node_at p M n = Some b" "node_at p M n' = Some b" for n n' b
      using that at by metis
    show "page_base b \<and> frame_of b \<notin> free_set (frames M)" if "node_in n" "node_at p M n = Some b" for n b
      using at [OF that] assms(3,4) by simp
  qed (use assms(1,2) 0 d in simp_all)
  show "nodes p M = {p}" using at by (fastforce simp: nodes_def intro: exI [of _ Root])
  show "page_entry m M v = None" if m: "pdpt0_base m = p" and v: "user_addr v"
    using m d [OF user_index [OF v]] by (simp add: page_entry_leaf leaf_def tab_of_def)
qed

lemma mmu_init_ok:
  assumes ok: "pmm_ok (frames M)" "last_phys_addr (frames M) < 2 ^ 40" and free: "2 \<le> card (free_set (frames M))"
  shows "\<exists>m' M'. mmu_init kt m M = returns (m', M') \<and> tables_ok (pdpt0_base m') M'
    \<and> mapped_pages_count m' = mapped_pages_count m
    \<and> frame_of (pml4_base m') \<in> free_set (frames M) \<and> frame_of (pdpt0_base m') \<in> free_set (frames M)
    \<and> frame_of (pml4_base m') \<noteq> frame_of (pdpt0_base m') \<and> page_base (pml4_base m')
    \<and> free_set (frames M') = free_set (frames M) - {frame_of (pml4_base m'), frame_of (pdpt0_base m')}
    \<and> last_phys_addr (frames M') = last_phys_addr (frames M)
    \<and> geometry (frames M') = geometry (frames M)
    \<and> nodes (pdpt0_base m') M' = {pdpt0_base m'}
    \<and> (\<forall>v. user_addr v \<longrightarrow> page_entry m' M' v = None)
    \<and> entry_base (read_table_entry (pml4_base m') 0 M') = pdpt0_base m'
    \<and> (\<forall>i < 4. read_table_entry (pdpt0_base m') i M' = PGENT_PRESENT OR PGENT_WRITABLE OR PGENT_PS OR PGENT_G OR push_bit 30 (of_nat i))
    \<and> (\<forall>i \<in> {4..<8}. read_table_entry (pdpt0_base m') i M' =
          of_nat (uadd (kpd_tlbs kt) (umul (usub i 4) PAGE_SIZE)) OR kernel_flags)"
proof -
  obtain a fb where 1: "alloc_frame M = returns (a, M\<lparr>frames := fb\<rparr>)" "page_base a" "frame_of a \<in> free_set (frames M)"
    "free_set fb = free_set (frames M) - {frame_of a}" "pmm_ok fb" "geometry fb = geometry (frames M)"
    using alloc_frame_ok [OF ok(1) _ ok(2)] free by fastforce
  let ?M1 = "M\<lparr>frames := fb\<rparr>"
  have "card (free_set fb) = card (free_set (frames M)) - 1" using 1(3,4) by simp
  then have "free_set fb \<noteq> {}" using free by auto
  moreover have "last_phys_addr fb < 2 ^ 40" using ok(2) 1(6) by (simp add: geometry_def)
  ultimately obtain b fc where 2: "alloc_frame ?M1 = returns (b, M\<lparr>frames := fc\<rparr>)" "page_base b" "frame_of b \<in> free_set fb"
    "free_set fc = free_set fb - {frame_of b}" "pmm_ok fc" "geometry fc = geometry fb"
    using alloc_frame_ok [of ?M1] 1(5) by auto
  have ab: "a \<noteq> b" "frame_of a \<noteq> frame_of b" using 2(3) 1(4) by auto
  let ?M3 = "zero_frame b (zero_frame a (M\<lparr>frames := fc\<rparr>))"
  let ?M4 = "write_table_entry a 0 (of_nat b OR PGENT_PRESENT OR PGENT_WRITABLE OR PGENT_USERMODE) ?M3"
  let ?f = "\<lambda>i. PGENT_PRESENT OR PGENT_WRITABLE OR PGENT_PS OR PGENT_G OR push_bit 30 (of_nat i)"
  let ?g = "\<lambda>i. of_nat (uadd (kpd_tlbs kt) (umul (usub i 4) PAGE_SIZE)) OR kernel_flags"
  let ?M5 = "foldl (\<lambda>M i. write_table_entry b i (?f i) M) ?M4 [0..<4]"
  let ?M6 = "foldl (\<lambda>M i. write_table_entry b i (?g i) M) ?M5 [4..<8]"
  let ?m = "m\<lparr>pml4_base := a, pdpt0_base := b, tlb_page_count := 2\<rparr>"
  have zero_512: "(0::nat) < 512" by simp
  have s: "set [0..<4] \<subseteq> {..<512::nat}" "set [4..<8] \<subseteq> {..<512::nat}" by auto
  have r: "read_table_entry b i ?M6 = (if i \<in> {4..<8} then ?g i else if i < 4 then ?f i else 0)" if "i < 512" for i
  proof -
    have "read_table_entry b i ?M4 = 0"
      using read_write [OF 1(2) 2(2) _ that, of 0] read_zero [OF 2(2) 2(2) that] ab by simp
    then show ?thesis
      unfolding read_writes [OF 2(2) 2(2) that s(2)] read_writes [OF 2(2) 2(2) that s(1)] by simp
  qed
  have f: "frames ?M6 = fc" by (simp only: frames_writes machine_simps) simp
  have "mmu_init kt m M = returns (?m, ?M6)"
    unfolding mmu_init_def Let_def 1(1) by (simp add: 2(1))
  moreover have p4: "read_table_entry a 0 ?M6 = of_nat b OR (PGENT_PRESENT OR PGENT_WRITABLE OR PGENT_USERMODE)"
    unfolding read_writes [OF 2(2) 1(2) zero_512 s(2)] read_writes [OF 2(2) 1(2) zero_512 s(1)]
      read_write [OF 1(2) 1(2) zero_512 zero_512] using ab by simp
  moreover have "entry_base (of_nat b OR (PGENT_PRESENT OR PGENT_WRITABLE OR PGENT_USERMODE)) = b"
    by (rule entry_base_make [OF 2(2)]) (simp add: plain_flags_def present_def)
  moreover have "last_phys_addr fc = last_phys_addr (frames M)" "frame_of b \<notin> free_set fc" "last_phys_addr fc < 2 ^ 40"
    using 1(6) 2(4,6) ok(2) by (simp_all add: geometry_def)
  moreover note e = tables_ok_empty [of ?M6 b]
  ultimately show ?thesis
    using 1 2 ab r f e(1,2) e(3) [of ?m]
    by (intro exI [of _ ?m] exI [of _ ?M6]) (auto simp: or.assoc)
qed

end
