(* ===== verification/Mmu_Drop.thy ===== *)
theory Mmu_Drop
  imports Mmu_Release
begin

text \<open>
  The frames that dropping an address space gives back, as a list: the three nested loops of
  \<^verbatim>\<open>drop\<close> read the tables, which they do not change, and free one frame after the other.
\<close>

section \<open>The loops as a list of frames\<close>

definition frees :: "usize list \<Rightarrow> machine \<Rightarrow> machine" where
  "frees as M = M\<lparr>frames := pm_free_frames (frames M) as\<rparr>"

lemma frees_simps [simp]:
  "frees [] M = M" "frees (as @ bs) M = frees bs (frees as M)" "free_frame a M = frees [a] M"
  "ram (frees as M) = ram M"
  by (simp_all add: frees_def pm_free_frames_def free_frame_def)

lemma read_frees [simp]: "read_table_entry b i (frees as M) = read_table_entry b i M"
  by (simp add: read_table_entry_def)

lemma read_cong: "ram M = ram M' \<Longrightarrow> read_table_entry b i M = read_table_entry b i M'"
  by (simp add: read_table_entry_def)

definition table_frees :: "usize \<Rightarrow> usize \<Rightarrow> usize \<Rightarrow> machine \<Rightarrow> usize list" where
  "table_frees i j t M = concat (map (\<lambda>k. let pte = read_table_entry t k M; v = push_bit 30 i OR push_bit 21 j OR push_bit 12 k in
     if present pte \<and> v > MIN_VIRTUAL_USER \<and> v < MIN_DPOOL_VIRTUAL then [entry_base pte] else []) [0..<512])"

definition directory_frees :: "usize \<Rightarrow> usize \<Rightarrow> machine \<Rightarrow> usize list" where
  "directory_frees i d M = concat (map (\<lambda>j. let pde = read_table_entry d j M in
     if points pde then table_frees i j (entry_base pde) M @ [entry_base pde] else []) [0..<512])"

definition root_frees :: "usize \<Rightarrow> machine \<Rightarrow> usize list" where
  "root_frees p M = concat (map (\<lambda>i. let e = read_table_entry p i M in
     if points e then directory_frees i (entry_base e) M @ [entry_base e] else []) [0..<512])"

lemma frees_cong:
  assumes "ram N = ram M"
  shows "table_frees i j t N = table_frees i j t M" "directory_frees i d N = directory_frees i d M"
proof -
  show "table_frees i j t N = table_frees i j t M" for i j t
    using read_cong [OF assms] by (simp add: table_frees_def)
  then show "directory_frees i d N = directory_frees i d M"
    using read_cong [OF assms] by (simp add: directory_frees_def Let_def cong: if_cong)
qed

lemma foldl_frees:
  assumes "\<And>N x. x \<in> set xs \<Longrightarrow> (\<And>b i. read_table_entry b i N = read_table_entry b i M) \<Longrightarrow>
    (\<And>i j t. table_frees i j t N = table_frees i j t M) \<Longrightarrow> (\<And>i d. directory_frees i d N = directory_frees i d M) \<Longrightarrow>
    f N x = frees (g x) N"
  shows "foldl f M xs = frees (concat (map g xs)) M"
proof -
  have "foldl f M ys = frees (concat (map g ys)) M" if "set ys \<subseteq> set xs" for ys
    using that
  proof (induction ys rule: rev_induct)
    case (snoc y ys)
    have r: "ram (frees (concat (map g ys)) M) = ram M" by simp
    show ?case
      using snoc assms [of y "frees (concat (map g ys)) M", OF _ read_cong [OF r] frees_cong [OF r]] by simp
  qed simp
  then show ?thesis by simp
qed

lemma drop_table_frees: "drop_table i j t M = frees (table_frees i j t M) M"
  unfolding drop_table_def table_frees_def
  by (rule foldl_frees) (simp add: Let_def)

lemma drop_directory_frees: "drop_directory i d M = frees (directory_frees i d M) M"
  unfolding drop_directory_def directory_frees_def
  by (rule foldl_frees) (simp add: Let_def points_def drop_table_frees)

lemma mmu_drop_frees: "mmu_drop m M = frees (root_frees (pdpt0_base m) M @ [pdpt0_base m, pml4_base m]) M"
proof -
  have "foldl (\<lambda>M i. let e = read_table_entry (pdpt0_base m) i M in
            if present e \<and> e AND PGENT_PS = 0
            then free_frame (entry_base e) (drop_directory i (entry_base e) M) else M) M [0..<512]
      = frees (root_frees (pdpt0_base m) M) M"
    unfolding root_frees_def
    by (rule foldl_frees) (simp add: Let_def points_def drop_directory_frees)
  moreover have "frees [a, b] N = frees [b] (frees [a] N)" for a b N
    by (simp add: frees_def pm_free_frames_def)
  ultimately show ?thesis unfolding mmu_drop_def Let_def by simp
qed

section \<open>Which frames\<close>

text \<open>Page number and indices of an address.\<close>

lemma or_add:
  fixes a b :: nat
  assumes "b < 2 ^ n"
  shows "push_bit n a OR b = a * 2 ^ n + b"
proof -
  have "push_bit n a AND b = 0"
  proof (rule bit_eqI)
    fix k
    have "bit b k \<Longrightarrow> k < n" using assms by (metis bit_take_bit_iff take_bit_nat_eq_self)
    then show "bit (push_bit n a AND b) k = bit (0 :: nat) k" by (auto simp: bit_simps)
  qed
  then have "push_bit n a + b = push_bit n a OR b" by (rule disjunctive_add_eq_or)
  then show ?thesis by (simp add: push_bit_eq_mult)
qed

definition page_at :: "nat \<Rightarrow> nat \<Rightarrow> nat \<Rightarrow> usize" where
  "page_at i j k = i * 2 ^ 30 + (j * 2 ^ 21 + k * 2 ^ 12)"

lemma page_at_or:
  assumes "j < 512" "k < 512"
  shows "push_bit 30 i OR push_bit 21 j OR push_bit 12 k = page_at i j k"
proof -
  have k: "push_bit 12 k = k * 2 ^ 12" by (simp add: push_bit_eq_mult)
  then have "push_bit 21 j OR push_bit 12 k = j * 2 ^ 21 + k * 2 ^ 12"
    using assms(2) by (simp add: or_add)
  moreover have "j * 2 ^ 21 + k * 2 ^ 12 < 2 ^ 30" using assms by simp
  ultimately show ?thesis unfolding page_at_def by (simp only: or_add)
qed

lemma page_at_index:
  assumes "i < 512" "j < 512" "k < 512"
  shows "pdpt0e_i (page_at i j k) = i" "pde_i (page_at i j k) = j" "pte_i (page_at i j k) = k"
    and "page_at i j k mod 4096 = 0" "8 \<le> i \<Longrightarrow> user_addr (page_at i j k)" "i < 8 \<Longrightarrow> page_at i j k < MIN_VIRTUAL_USER"
proof -
  have "page_at i j k div 2 ^ 30 = i" "page_at i j k div 2 ^ 21 = 512 * i + j" "page_at i j k div 2 ^ 12 = 512 * (512 * i + j) + k"
    unfolding page_at_def using assms by (intro div_nat_eqI; simp)+
  then show "pdpt0e_i (page_at i j k) = i" "pde_i (page_at i j k) = j" "pte_i (page_at i j k) = k"
    unfolding index_div using assms by (simp_all only: mod_mult_self3 mod_less mod_mult_self2 mod_mult_self1 mod_mult_self4)
  show "page_at i j k mod 4096 = 0"
    using mod_mult_self2_is_0 [of "i * 2 ^ 18 + j * 2 ^ 9 + k" 4096] by (simp add: page_at_def algebra_simps)
  show "user_addr (page_at i j k)" if "8 \<le> i" using assms that by (simp add: page_at_def user_addr_def)
  show "page_at i j k < MIN_VIRTUAL_USER" if "i < 8" using assms that by (simp add: page_at_def)
qed

lemma page_at_inverse:
  assumes "user_addr v" "v mod 4096 = 0"
  shows "page_at (pdpt0e_i v) (pde_i v) (pte_i v) = v"
proof -
  let ?u = "page_at (pdpt0e_i v) (pde_i v) (pte_i v)"
  have u: "user_addr ?u" "?u mod 4096 = 0"
    using page_at_index [of "pdpt0e_i v" "pde_i v" "pte_i v"] user_index [OF assms(1)] by simp_all
  have "?u div 4096 = v div 4096"
    using same_page_index [OF u(1) assms(1)] page_at_index(1-3) [of "pdpt0e_i v" "pde_i v" "pte_i v"] by simp
  then show ?thesis using assms(2) u(2) by (metis mult_div_mod_eq)
qed

text \<open>The user pages whose frames are given back, and the condition that keeps the kernel's
  own tables: what entries 0 to 7 reach is not the manager's to free.\<close>

definition released_pages :: "mmu_mapping \<Rightarrow> machine \<Rightarrow> usize set" where
  "released_pages m M = {a. \<exists>v e. user_addr v \<and> v mod 4096 = 0 \<and> MIN_VIRTUAL_USER < v \<and> v < MIN_DPOOL_VIRTUAL
     \<and> page_entry m M v = Some e \<and> a = entry_base e}"

definition kernel_part_reserved :: "usize \<Rightarrow> machine \<Rightarrow> bool" where
  "kernel_part_reserved p M \<longleftrightarrow> (\<forall>i < 8. let e = read_table_entry p i M in points e \<longrightarrow>
     \<not> is_valid (frames M) (entry_base e) \<and>
     (\<forall>j < 512. let e' = read_table_entry (entry_base e) j M in points e' \<longrightarrow> \<not> is_valid (frames M) (entry_base e')))"

lemma in_table_frees:
  assumes "j < 512"
  shows "a \<in> set (table_frees i j t M) \<longleftrightarrow> (\<exists>k < 512. present (read_table_entry t k M) \<and> MIN_VIRTUAL_USER < page_at i j k
     \<and> page_at i j k < MIN_DPOOL_VIRTUAL \<and> a = entry_base (read_table_entry t k M))"
  using assms by (auto simp: table_frees_def Let_def page_at_or)

lemma in_directory_frees:
  "a \<in> set (directory_frees i d M) \<longleftrightarrow> (\<exists>j < 512. points (read_table_entry d j M) \<and>
     (a = entry_base (read_table_entry d j M) \<or> a \<in> set (table_frees i j (entry_base (read_table_entry d j M)) M)))"
  by (auto simp: directory_frees_def Let_def)

lemma in_root_frees:
  "a \<in> set (root_frees p M) \<longleftrightarrow> (\<exists>i < 512. points (read_table_entry p i M) \<and>
     (a = entry_base (read_table_entry p i M) \<or> a \<in> set (directory_frees i (entry_base (read_table_entry p i M)) M)))"
  by (auto simp: root_frees_def Let_def)

lemma kernel_part_kept:
  assumes res: "kernel_part_reserved p M" and i: "i < 8" and e: "points (read_table_entry p i M)" and v: "is_valid (frames M) a"
  shows "a \<noteq> entry_base (read_table_entry p i M)" and "a \<notin> set (directory_frees i (entry_base (read_table_entry p i M)) M)"
proof -
  let ?d = "entry_base (read_table_entry p i M)"
  have r: "\<not> is_valid (frames M) ?d"
    "\<And>j. j < 512 \<Longrightarrow> points (read_table_entry ?d j M) \<Longrightarrow> \<not> is_valid (frames M) (entry_base (read_table_entry ?d j M))"
    using res i e by (auto simp: kernel_part_reserved_def Let_def)
  show "a \<noteq> ?d" using r(1) v by auto
  have "a \<notin> set (table_frees i j t M)" if "j < 512" for j t
  proof
    assume "a \<in> set (table_frees i j t M)"
    then obtain k where k: "k < 512" "MIN_VIRTUAL_USER < page_at i j k"
      unfolding in_table_frees [OF \<open>j < 512\<close>] by blast
    have "i < 512" using i by linarith
    from page_at_index(6) [OF this \<open>j < 512\<close> k(1) i] k(2) show False by linarith
  qed
  then show "a \<notin> set (directory_frees i ?d M)"
    unfolding in_directory_frees using r(2) v by auto
qed

lemma user_part_frees:
  assumes ok: "tables_ok (pdpt0_base m) M"
  shows "(\<exists>i < 512. 8 \<le> i \<and> points (read_table_entry (pdpt0_base m) i M) \<and>
     (a = entry_base (read_table_entry (pdpt0_base m) i M) \<or> a \<in> set (directory_frees i (entry_base (read_table_entry (pdpt0_base m) i M)) M)))
    \<longleftrightarrow> a \<in> released_pages m M \<or> (\<exists>n. n \<noteq> Root \<and> node_in n \<and> node_at (pdpt0_base m) M n = Some a)"
    (is "?L \<longleftrightarrow> ?R")
proof -
  let ?p = "pdpt0_base m"
  have dir: "dir_of ?p M i = Some d \<longleftrightarrow> points (read_table_entry ?p i M) \<and> d = entry_base (read_table_entry ?p i M)"
    if "8 \<le> i" "i < 512" for i d
    using tables_okD(6) [OF ok that] points_present [of "read_table_entry ?p i M"]
    by (auto simp: dir_of_def next_base_def)
  have tab: "tab_of ?p M i j = Some t \<longleftrightarrow> (\<exists>d. dir_of ?p M i = Some d \<and> points (read_table_entry d j M) \<and> t = entry_base (read_table_entry d j M))"
    if "8 \<le> i" "i < 512" "j < 512" for i j t
    using tables_okD(7) [OF ok that(1,2) _ that(3)] points_present
    by (fastforce simp: tab_of_def next_base_def split: option.splits)
  have pages: "(\<exists>i j k t. 8 \<le> i \<and> i < 512 \<and> j < 512 \<and> k < 512 \<and> tab_of ?p M i j = Some t \<and> present (read_table_entry t k M)
       \<and> MIN_VIRTUAL_USER < page_at i j k \<and> page_at i j k < MIN_DPOOL_VIRTUAL \<and> a = entry_base (read_table_entry t k M))
     \<longleftrightarrow> a \<in> released_pages m M" (is "?P \<longleftrightarrow> _")
  proof
    assume ?P
    then obtain i j k t where h: "8 \<le> i" "i < 512" "j < 512" "k < 512" "tab_of ?p M i j = Some t" "present (read_table_entry t k M)"
      "MIN_VIRTUAL_USER < page_at i j k" "page_at i j k < MIN_DPOOL_VIRTUAL" "a = entry_base (read_table_entry t k M)" by blast
    have "page_entry m M (page_at i j k) = Some (read_table_entry t k M)"
      using h(5,6) page_at_index(1-3) [OF h(2-4)] by (simp add: page_entry_leaf leaf_def Let_def)
    then show "a \<in> released_pages m M"
      unfolding released_pages_def using h page_at_index(4,5) [OF h(2-4)]
      by (intro CollectI exI [of _ "page_at i j k"] exI [of _ "read_table_entry t k M"]) simp
  next
    assume "a \<in> released_pages m M"
    then obtain v e where h: "user_addr v" "v mod 4096 = 0" "MIN_VIRTUAL_USER < v" "v < MIN_DPOOL_VIRTUAL"
      "page_entry m M v = Some e" "a = entry_base e" by (auto simp: released_pages_def)
    then obtain t where t: "tab_of ?p M (pdpt0e_i v) (pde_i v) = Some t" "present (read_table_entry t (pte_i v) M)"
      "e = read_table_entry t (pte_i v) M"
      by (auto simp: page_entry_leaf leaf_def Let_def split: option.splits if_splits)
    have "8 \<le> pdpt0e_i v" "page_at (pdpt0e_i v) (pde_i v) (pte_i v) = v"
      using user_index [OF h(1)] page_at_inverse [OF h(1,2)] by simp_all
    then show ?P
      using h t index_bounds [of v] by (intro exI [of _ "pdpt0e_i v"] exI [of _ "pde_i v"] exI [of _ "pte_i v"] exI [of _ t]) simp
  qed
  have nodes: "(\<exists>n. n \<noteq> Root \<and> node_in n \<and> node_at ?p M n = Some a) \<longleftrightarrow>
      (\<exists>i. 8 \<le> i \<and> i < 512 \<and> dir_of ?p M i = Some a) \<or> (\<exists>i j. 8 \<le> i \<and> i < 512 \<and> j < 512 \<and> tab_of ?p M i j = Some a)"
    (is "_ \<longleftrightarrow> ?N")
  proof
    assume "\<exists>n. n \<noteq> Root \<and> node_in n \<and> node_at ?p M n = Some a"
    then obtain n where "n \<noteq> Root" "node_in n" "node_at ?p M n = Some a" by blast
    then show ?N by (cases n) auto
  qed (auto intro: exI [of _ "Dir i" for i] exI [of _ "Tab i j" for i j])
  have "?L \<longleftrightarrow> ?N \<or> ?P"
  proof
    assume ?L
    then obtain i where i: "8 \<le> i" "i < 512" "points (read_table_entry ?p i M)" and
      c: "a = entry_base (read_table_entry ?p i M) \<or> a \<in> set (directory_frees i (entry_base (read_table_entry ?p i M)) M)"
      by blast
    define d where "d = entry_base (read_table_entry ?p i M)"
    have d: "dir_of ?p M i = Some d" using dir [OF i(1,2)] i(3) by (simp add: d_def)
    from c consider "a = d" | j where "j < 512" "points (read_table_entry d j M)" "a = entry_base (read_table_entry d j M)"
      | j where "j < 512" "points (read_table_entry d j M)" "a \<in> set (table_frees i j (entry_base (read_table_entry d j M)) M)"
      unfolding in_directory_frees d_def by blast
    then show "?N \<or> ?P"
    proof cases
      case 1
      then show ?thesis using d i by blast
    next
      case 2
      then have "tab_of ?p M i j = Some a" using tab [OF i(1,2)] d by blast
      then show ?thesis using i 2(1) by blast
    next
      case 3
      then have "tab_of ?p M i j = Some (entry_base (read_table_entry d j M))" using tab [OF i(1,2)] d by blast
      then show ?thesis using i 3(1,3) unfolding in_table_frees [OF 3(1)] by blast
    qed
  next
    have P: "\<exists>i j t. 8 \<le> i \<and> i < 512 \<and> j < 512 \<and> tab_of ?p M i j = Some t \<and> a \<in> set (table_frees i j t M)" if ?P
    proof -
      from that obtain i j k t where h: "8 \<le> i" "i < 512" "j < 512" "k < 512" "tab_of ?p M i j = Some t" "present (read_table_entry t k M)"
        "MIN_VIRTUAL_USER < page_at i j k" "page_at i j k < MIN_DPOOL_VIRTUAL" "a = entry_base (read_table_entry t k M)" by blast
      then have "a \<in> set (table_frees i j t M)" unfolding in_table_frees [OF h(3)] by blast
      then show ?thesis using h by blast
    qed
    have L: ?L if "i < 512" "8 \<le> i" "points (read_table_entry ?p i M)"
      "a = entry_base (read_table_entry ?p i M) \<or> a \<in> set (directory_frees i (entry_base (read_table_entry ?p i M)) M)" for i
      using that by (intro exI [of _ i] conjI)
    have L1: ?L if h: "8 \<le> i" "i < 512" "dir_of ?p M i = Some a" for i
      using L [OF h(2,1)] dir [OF h(1,2), of a] h(3) by simp
    have L2: ?L if h: "8 \<le> i" "i < 512" "j < 512" "tab_of ?p M i j = Some a" for i j
    proof -
      obtain d where "dir_of ?p M i = Some d" "points (read_table_entry d j M)" "a = entry_base (read_table_entry d j M)"
        using tab [OF h(1-3)] h(4) by blast
      then show ?thesis using L [OF h(2,1)] dir [OF h(1,2)] h(3) unfolding in_directory_frees by simp blast
    qed
    have L3: ?L if h: "8 \<le> i" "i < 512" "j < 512" "tab_of ?p M i j = Some t" "a \<in> set (table_frees i j t M)" for i j t
    proof -
      obtain d where "dir_of ?p M i = Some d" "points (read_table_entry d j M)" "t = entry_base (read_table_entry d j M)"
        using tab [OF h(1-3)] h(4) by blast
      then show ?thesis using L [OF h(2,1)] dir [OF h(1,2)] h(3,5) unfolding in_directory_frees by simp blast
    qed
    assume "?N \<or> ?P"
    then show ?L
    proof
      assume ?N
      then show ?L
      proof (elim disjE exE conjE)
        fix i assume "8 \<le> i" "i < 512" "dir_of ?p M i = Some a"
        then show ?L by (rule L1)
      next
        fix i j assume "8 \<le> i" "i < 512" "j < 512" "tab_of ?p M i j = Some a"
        then show ?L by (rule L2)
      qed
    next
      assume ?P
      from P [OF this] show ?L
      proof (elim exE conjE)
        fix i j t
        assume "8 \<le> i" "i < 512" "j < 512" "tab_of ?p M i j = Some t" "a \<in> set (table_frees i j t M)"
        then show ?L by (rule L3)
      qed
    qed
  qed
  then show ?thesis unfolding pages nodes by blast
qed

theorem mmu_drop_free_set:
  assumes ok: "tables_ok (pdpt0_base m) M" and res: "kernel_part_reserved (pdpt0_base m) M"
  shows "free_set (frames (mmu_drop m M)) = free_set (frames M) \<union>
    frame_of ` {a \<in> insert (pml4_base m) (nodes (pdpt0_base m) M) \<union> released_pages m M. is_valid (frames M) a}"
proof -
  let ?p = "pdpt0_base m"
  have split: "a \<in> set (root_frees ?p M) \<longleftrightarrow> a \<in> released_pages m M \<or> (\<exists>n. n \<noteq> Root \<and> node_in n \<and> node_at ?p M n = Some a)"
    if "is_valid (frames M) a" for a
  proof -
    have "8 \<le> i" if "i < 512" "points (read_table_entry ?p i M)"
      "a = entry_base (read_table_entry ?p i M) \<or> a \<in> set (directory_frees i (entry_base (read_table_entry ?p i M)) M)" for i
      using kernel_part_kept [OF res _ that(2) \<open>is_valid (frames M) a\<close>] that(3) by (cases "i < 8") auto
    then show ?thesis
      unfolding user_part_frees [OF ok, symmetric] in_root_frees by blast
  qed
  have root: "b \<in> nodes ?p M \<longleftrightarrow> b = ?p \<or> (\<exists>n. n \<noteq> Root \<and> node_in n \<and> node_at ?p M n = Some b)" for b
  proof
    assume "b \<in> nodes ?p M"
    then obtain n where n: "node_in n" "node_at ?p M n = Some b" by (auto simp: nodes_def)
    then show "b = ?p \<or> (\<exists>n. n \<noteq> Root \<and> node_in n \<and> node_at ?p M n = Some b)" by (cases "n = Root") auto
  qed (auto simp: nodes_def intro: exI [of _ Root])
  have "{a \<in> set (root_frees ?p M @ [?p, pml4_base m]). is_valid (frames M) a} =
      {a \<in> insert (pml4_base m) (nodes ?p M) \<union> released_pages m M. is_valid (frames M) a}"
    using split root by auto
  moreover have "free_set (frames (mmu_drop m M)) = free_set (frames M) \<union>
      frame_of ` {a \<in> set (root_frees ?p M @ [?p, pml4_base m]). is_valid (frames M) a}"
    unfolding mmu_drop_frees frees_def using pm_free_frames_spec(2) [OF tables_okD(1) [OF ok]] by auto
  ultimately show ?thesis by simp
qed

end
