(* ===== verification/Mmu_Props.thy ===== *)
theory Mmu_Props
  imports Mmu_Drop
begin

text \<open>
  The properties of the paging code: an initialised address space is empty, mapping a range
  updates the address map on exactly its pages and loses no frame, unmapping restores it,
  mapping a mapped page panics, and dropping an address space gives back its tables and pages
  except the page at the lowest user address.
\<close>

section \<open>A concrete address space\<close>

text \<open>16 frames of memory, of which frames 7 to 15 are free. Frame 6 has the PML4, frame 1 the
  PDPT, frame 2 a directory, frame 3 a table with two pages: frame 4 at the lowest user
  address and frame 5 after it.\<close>

definition demo_ram :: "usize \<Rightarrow> u64" where
  "demo_ram a = (if a = 0x1040 then 0x2007 else if a = 0x2000 then 0x3007
     else if a = 0x3000 then 0x4007 else if a = 0x3008 then 0x5007 else 0)"

definition demo_machine :: machine where
  "demo_machine = \<lparr>ram = demo_ram, frames = \<lparr>total_frames = 16, free_frames = 9, first_phys_addr = 0,
     last_phys_addr = 65535, bm_base = 0, bm_size = 8, red_zone_start = 0,
     red_zone_end = 4095, bm_words = (\<lambda>_. 0)(0 := 0xFF80)\<rparr>\<rparr>"

definition demo_map :: mmu_mapping where
  "demo_map = \<lparr>pml4_base = 0x6000, pdpt0_base = 0x1000, mapped_pages_count = 2, tlb_page_count = 4\<rparr>"

lemma demo_free: "free_set (frames demo_machine) = {7..15}"
proof -
  have s: "frame_span (frames demo_machine) = 16" by (simp add: frame_span_def demo_machine_def)
  have "frame_free (frames demo_machine) k \<longleftrightarrow> 7 \<le> k" if "k < 16" for k
  proof -
    have "k \<in> set [0..<16]" using that by simp
    then show ?thesis by (auto simp: upt_rec frame_free_def demo_machine_def)
  qed
  then show ?thesis unfolding free_set_def s by auto
qed

lemma demo_frames_ok: "pmm_ok (frames demo_machine)"
proof -
  have "pmm_geom_ok (frames demo_machine)" by (simp add: pmm_geom_ok_def span_ok_def demo_machine_def)
  moreover have "free_frames (frames demo_machine) = card (free_set (frames demo_machine))"
    unfolding demo_free by (simp add: demo_machine_def)
  moreover have "\<forall>k \<in> free_set (frames demo_machine). \<not> in_red_zone (frames demo_machine) k"
    unfolding demo_free by (auto simp: in_red_zone_def demo_machine_def)
  ultimately show ?thesis by (simp add: pmm_ok_def)
qed

lemma demo_base: "page_base 4096" "page_base 8192" "page_base 12288"
  by (simp_all add: page_base_def)

lemma demo_reads:
  assumes "i < 512"
  shows "read_table_entry 4096 i demo_machine = (if i = 8 then 0x2007 else 0)"
    and "read_table_entry 8192 i demo_machine = (if i = 0 then 0x3007 else 0)"
    and "read_table_entry 12288 i demo_machine = (if i = 0 then 0x4007 else if i = 1 then 0x5007 else 0)"
  using assms entry_addr_exact [OF demo_base(1) assms] entry_addr_exact [OF demo_base(2) assms]
    entry_addr_exact [OF demo_base(3) assms]
  by (auto simp: read_table_entry_def demo_machine_def demo_ram_def)

lemma demo_entries: "points 0x2007" "points 0x3007" "present 0x4007" "present 0x5007"
  "entry_base 0x2007 = 8192" "entry_base 0x3007 = 12288" "entry_base 0x4007 = 16384" "entry_base 0x5007 = 20480"
  by (simp_all add: points_def present_def entry_base_def)

lemma demo_tree:
  "i < 512 \<Longrightarrow> dir_of 4096 demo_machine i = (if i = 8 then Some 8192 else None)"
  "i < 512 \<Longrightarrow> j < 512 \<Longrightarrow> tab_of 4096 demo_machine i j = (if i = 8 \<and> j = 0 then Some 12288 else None)"
  "i < 512 \<Longrightarrow> j < 512 \<Longrightarrow> k < 512 \<Longrightarrow> leaf 4096 demo_machine i j k =
     (if i = 8 \<and> j = 0 \<and> k = 0 then Some 0x4007 else if i = 8 \<and> j = 0 \<and> k = 1 then Some 0x5007 else None)"
  using demo_entries by (simp_all add: dir_of_def tab_of_def leaf_def next_base_def points_present demo_reads Let_def)

lemma demo_node: "node_in n \<Longrightarrow> node_at 4096 demo_machine n = Some b \<longleftrightarrow>
    (n, b) \<in> {(Root, 4096), (Dir 8, 8192), (Tab 8 0, 12288)}"
  by (cases n) (auto simp: demo_tree)

lemma demo_tables_ok: "tables_ok (pdpt0_base demo_map) demo_machine"
proof -
  have p: "pdpt0_base demo_map = 4096" by (simp add: demo_map_def)
  show ?thesis
    unfolding p
  proof (rule tables_okI)
    show "pmm_ok (frames demo_machine)" by (rule demo_frames_ok)
    show "last_phys_addr (frames demo_machine) < 2 ^ 40" by (simp add: demo_machine_def)
    show "page_base b \<and> frame_of b \<notin> free_set (frames demo_machine)"
      if "node_in n" "node_at 4096 demo_machine n = Some b" for n b
      using that demo_base unfolding demo_node [OF that(1)] demo_free by auto
    show "n = n'" if "node_in n" "node_in n'" "node_at 4096 demo_machine n = Some b" "node_at 4096 demo_machine n' = Some b"
      for n n' b
      using that(3,4) unfolding demo_node [OF that(1)] demo_node [OF that(2)] by auto
  qed (use demo_entries demo_reads demo_tree in \<open>auto split: if_splits\<close>)
qed

lemma demo_page: "user_addr v \<Longrightarrow> page_entry demo_map demo_machine v =
    (if v div 4096 = 2097152 then Some 0x4007 else if v div 4096 = 2097153 then Some 0x5007 else None)"
proof -
  assume v: "user_addr v"
  have p: "pdpt0_base demo_map = 4096" by (simp add: demo_map_def)
  have 0: "user_addr 0x200000000" "user_addr 0x200001000" by (simp_all add: user_addr_def)
  have i: "pdpt0e_i 0x200000000 = 8" "pde_i 0x200000000 = 0" "pte_i 0x200000000 = 0"
    "pdpt0e_i 0x200001000 = 8" "pde_i 0x200001000 = 0" "pte_i 0x200001000 = 1"
    by (simp_all add: index_div)
  show ?thesis
    using same_page_index [OF v 0(1)] same_page_index [OF v 0(2)] unfolding i page_entry_leaf p
    by (simp add: demo_tree)
qed

definition demo_range :: "usize list" where
  "demo_range = [0xE000, 0xF000]"

lemma demo_range_ok:
  "(0x200200000::nat) mod 4096 = 0" "MIN_VIRTUAL_USER \<le> 0x200200000" "demo_range \<noteq> []"
  "0x200200000 + 4096 * length demo_range \<le> 2 ^ 39" "\<forall>p \<in> set demo_range. page_base p"
  "2 * length demo_range \<le> card (free_set (frames demo_machine))"
  "\<forall>u. covers 0x200200000 (length demo_range) u \<longrightarrow> page_entry demo_map demo_machine u = None"
  "mapped_pages_count demo_map + length demo_range < usize_span"
proof -
  show "\<forall>u. covers 0x200200000 (length demo_range) u \<longrightarrow> page_entry demo_map demo_machine u = None"
  proof (intro allI impI)
    fix u
    assume "covers 0x200200000 (length demo_range) u"
    then have "user_addr u" "2097664 \<le> u div 4096"
      by (auto simp: demo_range_def covers_def user_addr_def less_eq_div_iff_mult_less_eq)
    then show "page_entry demo_map demo_machine u = None" by (simp add: demo_page)
  qed
qed (simp_all add: demo_range_def page_base_def demo_free demo_map_def)

lemma demo_range_length: "length demo_range = 2"
  by (simp add: demo_range_def)

section \<open>Properties\<close>

text \<open>C18. Initialising an address space: two free frames become the PML4 and the PDPT, the
  tables are consistent, no user page is mapped, entry 0 of the PML4 leads to the PDPT, the
  first four gigabytes are identity mapped by large pages and the next four lead to the
  kernel's directories.\<close>

theorem fresh_address_space:
  assumes "pmm_ok (frames M)" and "last_phys_addr (frames M) < 2 ^ 40" and "2 \<le> card (free_set (frames M))"
  shows "\<exists>m M'. mmu_init kt mmu_new M = returns (m, M') \<and> tables_ok (pdpt0_base m) M'
    \<and> {frame_of (pml4_base m), frame_of (pdpt0_base m)} \<subseteq> free_set (frames M) \<and> frame_of (pml4_base m) \<noteq> frame_of (pdpt0_base m)
    \<and> free_set (frames M') = free_set (frames M) - {frame_of (pml4_base m), frame_of (pdpt0_base m)}
    \<and> (\<forall>v. user_addr v \<longrightarrow> virt_to_phys_from_map v m M' = None \<and> virt_to_phys (pml4_base m) v M' = None)
    \<and> (\<forall>i < 4. read_table_entry (pdpt0_base m) i M' =
          PGENT_PRESENT OR PGENT_WRITABLE OR PGENT_PS OR PGENT_G OR push_bit 30 (of_nat i))
    \<and> (\<forall>i \<in> {4..<8}. read_table_entry (pdpt0_base m) i M' =
          of_nat (uadd (kpd_tlbs kt) (umul (usub i 4) PAGE_SIZE)) OR kernel_flags)"
proof -
  obtain m M' where i: "mmu_init kt mmu_new M = returns (m, M')" "tables_ok (pdpt0_base m) M'"
    "frame_of (pml4_base m) \<in> free_set (frames M)" "frame_of (pdpt0_base m) \<in> free_set (frames M)"
    "frame_of (pml4_base m) \<noteq> frame_of (pdpt0_base m)"
    "free_set (frames M') = free_set (frames M) - {frame_of (pml4_base m), frame_of (pdpt0_base m)}"
    "\<And>v. user_addr v \<Longrightarrow> page_entry m M' v = None" "entry_base (read_table_entry (pml4_base m) 0 M') = pdpt0_base m"
    "\<forall>i < 4. read_table_entry (pdpt0_base m) i M' = PGENT_PRESENT OR PGENT_WRITABLE OR PGENT_PS OR PGENT_G OR push_bit 30 (of_nat i)"
    "\<forall>i \<in> {4..<8}. read_table_entry (pdpt0_base m) i M' = of_nat (uadd (kpd_tlbs kt) (umul (usub i 4) PAGE_SIZE)) OR kernel_flags"
    using mmu_init_ok [OF assms, of kt mmu_new] by blast
  have "virt_to_phys (pml4_base m) v M' = virt_to_phys_from_map v m M'" for v
    by (simp add: virt_to_phys_def virt_to_phys_from_map_def i(8))
  then have "virt_to_phys_from_map v m M' = None \<and> virt_to_phys (pml4_base m) v M' = None" if "user_addr v" for v
    using i(7) [OF that] by (simp add: translate_entry)
  then show ?thesis using i by (intro exI [of _ m] exI [of _ M']) simp
qed

theorem fresh_address_space_witness:
  "\<exists>m M'. mmu_init \<lparr>kpdpt0_tbl = 0x100, kpd_tlbs = 0x200, kpg_tbls = 0x300\<rparr> mmu_new demo_machine = returns (m, M')
     \<and> card (free_set (frames M')) = 7 \<and> virt_to_phys (pml4_base m) MIN_VIRTUAL_USER M' = None"
proof -
  have a: "last_phys_addr (frames demo_machine) < 2 ^ 40" by (simp add: demo_machine_def)
  have b: "2 \<le> card (free_set (frames demo_machine))" unfolding demo_free by simp
  obtain m M' where i: "mmu_init \<lparr>kpdpt0_tbl = 0x100, kpd_tlbs = 0x200, kpg_tbls = 0x300\<rparr> mmu_new demo_machine = returns (m, M')"
    "tables_ok (pdpt0_base m) M'" "frame_of (pml4_base m) \<noteq> frame_of (pdpt0_base m)"
    "{frame_of (pml4_base m), frame_of (pdpt0_base m)} \<subseteq> free_set (frames demo_machine)"
    "free_set (frames M') = free_set (frames demo_machine) - {frame_of (pml4_base m), frame_of (pdpt0_base m)}"
    "\<forall>v. user_addr v \<longrightarrow> virt_to_phys_from_map v m M' = None \<and> virt_to_phys (pml4_base m) v M' = None"
    using fresh_address_space [OF demo_frames_ok a b, of "\<lparr>kpdpt0_tbl = 0x100, kpd_tlbs = 0x200, kpg_tbls = 0x300\<rparr>"] by blast
  have "card (free_set (frames M')) = 7"
    using i(3,4) unfolding i(5) by (subst card_Diff_subset) (auto simp: demo_free)
  moreover have "user_addr MIN_VIRTUAL_USER" by (simp add: user_addr_def)
  ultimately show ?thesis using i(1,6) by blast
qed

text \<open>C19. Mapping a range of unmapped user pages to frames succeeds when twice as many frames
  are free as pages are asked for: it returns true, the address map is updated on exactly the
  pages of the range, with the access rights asked for, no other user page changes, the
  tables stay consistent and no frame is lost between the free frames and the tables.\<close>

theorem map_pages_refines:
  assumes "tables_ok (pdpt0_base m) M" and "v mod 4096 = 0" and "MIN_VIRTUAL_USER \<le> v" and "ps \<noteq> []"
    and "v + 4096 * length ps \<le> 2 ^ 39" and "\<forall>p \<in> set ps. page_base p"
    and "2 * length ps \<le> card (free_set (frames M))"
    and "\<forall>u. covers v (length ps) u \<longrightarrow> virt_to_phys_from_map u m M = None"
  shows "\<exists>m' M'. map_pages v ps w x c m M = returns (True, m', M') \<and> pdpt0_base m' = pdpt0_base m
    \<and> tables_ok (pdpt0_base m) M' \<and> table_pool (pdpt0_base m) M' = table_pool (pdpt0_base m) M
    \<and> mapped_pages_count m' = uadd (mapped_pages_count m) (length ps)
    \<and> (\<forall>u. user_addr u \<longrightarrow> virt_to_phys_from_map u m' M' =
          (if covers v (length ps) u then Some (ps ! ((u - v) div 4096)) else virt_to_phys_from_map u m M))
    \<and> (\<forall>u. user_addr u \<longrightarrow> page_entry m' M' u =
          (if covers v (length ps) u then Some (of_nat (ps ! ((u - v) div 4096)) OR entry_flags False w x c) else page_entry m M u))"
proof -
  have "\<And>u. covers v (length ps) u \<Longrightarrow> page_entry m M u = None" using assms(8) by (simp add: translate_entry)
  then obtain m' M' where r: "map_pages v ps w x c m M = returns (True, m', M')"
    "extends m M (m'\<lparr>mapped_pages_count := mapped_pages_count m\<rparr>) M' (2 * length ps)"
    "mapped_pages_count m' = uadd (mapped_pages_count m) (length ps)"
    "\<And>u. user_addr u \<Longrightarrow> page_entry m' M' u =
          (if covers v (length ps) u then Some (of_nat (ps ! ((u - v) div 4096)) OR entry_flags False w x c) else page_entry m M u)"
    using map_pages_ok [OF assms(1-7)] by blast
  have "entry_base (of_nat (ps ! ((u - v) div 4096)) OR entry_flags False w x c) = ps ! ((u - v) div 4096)"
    if "covers v (length ps) u" for u
  proof -
    have "(u - v) div 4096 < length ps" using that by (auto simp: covers_def div_less_iff_less_mult)
    then have "page_base (ps ! ((u - v) div 4096))" using assms(6) by simp
    then show ?thesis by (rule entry_base_make [OF _ entry_flags_plain])
  qed
  then show ?thesis using r by (intro exI [of _ m'] exI [of _ M']) (simp add: translate_entry extends_def)
qed

theorem map_pages_refines_witness:
  "\<exists>m' M'. map_pages 0x200200000 [0xE000, 0xF000] True False Normal demo_map demo_machine = returns (True, m', M')
     \<and> virt_to_phys_from_map 0x200201234 m' M' = Some 0xF000 \<and> virt_to_phys_from_map 0x200001000 m' M' = Some 0x5000"
proof -
  have "\<forall>u. covers 0x200200000 (length demo_range) u \<longrightarrow> virt_to_phys_from_map u demo_map demo_machine = None"
    using demo_range_ok(7) by (simp add: translate_entry)
  then obtain m' M' where r: "map_pages 0x200200000 demo_range True False Normal demo_map demo_machine = returns (True, m', M')"
    "\<forall>u. user_addr u \<longrightarrow> virt_to_phys_from_map u m' M' =
          (if covers 0x200200000 2 u then Some (demo_range ! ((u - 0x200200000) div 4096))
           else virt_to_phys_from_map u demo_map demo_machine)"
    using map_pages_refines [OF demo_tables_ok demo_range_ok(1-6), where w = True and x = False and c = Normal]
    unfolding demo_range_length by blast
  have "virt_to_phys_from_map 0x200201234 m' M' = Some 0xF000" "virt_to_phys_from_map 0x200001000 m' M' = Some 0x5000"
    using r(2) [rule_format, of "0x200201234"] r(2) [rule_format, of "0x200001000"] demo_page [of "0x200001000"]
    by (simp_all add: user_addr_def covers_def translate_entry demo_entries demo_range_def)
  then show ?thesis using r(1) unfolding demo_range_def by blast
qed

text \<open>C20. Unmapping the range that was just mapped finds every page of it, restores the address
  map and the page counter, and frees no frame.\<close>

theorem map_unmap_roundtrip:
  assumes "tables_ok (pdpt0_base m) M" and "v mod 4096 = 0" and "MIN_VIRTUAL_USER \<le> v" and "ps \<noteq> []"
    and "v + 4096 * length ps \<le> 2 ^ 39" and "\<forall>p \<in> set ps. page_base p"
    and "2 * length ps \<le> card (free_set (frames M))"
    and "\<forall>u. covers v (length ps) u \<longrightarrow> page_entry m M u = None"
    and "mapped_pages_count m + length ps < usize_span"
  shows "\<exists>m1 M1 M2. map_pages v ps w x c m M = returns (True, m1, M1)
    \<and> unmap_pages v (length ps) m1 M1 = (length ps, m1\<lparr>mapped_pages_count := mapped_pages_count m\<rparr>, M2)
    \<and> frames M2 = frames M1 \<and> tables_ok (pdpt0_base m) M2
    \<and> (\<forall>u. user_addr u \<longrightarrow> page_entry m1 M2 u = page_entry m M u)"
proof -
  obtain m1 M1 where r: "map_pages v ps w x c m M = returns (True, m1, M1)"
    "extends m M (m1\<lparr>mapped_pages_count := mapped_pages_count m\<rparr>) M1 (2 * length ps)"
    "mapped_pages_count m1 = uadd (mapped_pages_count m) (length ps)"
    "\<And>u. user_addr u \<Longrightarrow> page_entry m1 M1 u =
          (if covers v (length ps) u then Some (of_nat (ps ! ((u - v) div 4096)) OR entry_flags False w x c) else page_entry m M u)"
    using map_pages_ok [OF assms(1-7)] assms(8) by blast
  have p: "pdpt0_base m1 = pdpt0_base m" "tables_ok (pdpt0_base m1) M1" using r(2) by (simp_all add: extends_def)
  have c: "mapped_pages_count m1 = mapped_pages_count m + length ps" using r(3) assms(9) by (simp add: uadd_exact)
  have u: "user_addr u" if "covers v (length ps) u" for u
    using that assms(3,5) by (simp add: covers_def user_addr_def)
  obtain M2 where s: "unmap_pages v (length ps) m1 M1 =
      (length ps, m1\<lparr>mapped_pages_count := mapped_pages_count m1 - length ps\<rparr>, M2)"
    "tables_ok (pdpt0_base m1) M2" "frames M2 = frames M1"
    "\<And>u. user_addr u \<Longrightarrow> page_entry m1 M2 u = (if covers v (length ps) u then None else page_entry m1 M1 u)"
    using unmap_pages_ok [OF p(2) assms(2,3,5)] r(4) u c by fastforce
  have "page_entry m1 M2 u = page_entry m M u" if "user_addr u" for u
    using s(4) [OF that] r(4) [OF that] assms(8) by simp
  then show ?thesis using r(1) s(1-3) p(1) c by (intro exI [of _ m1] exI [of _ M1] exI [of _ M2]) simp
qed

theorem map_unmap_roundtrip_witness:
  "\<exists>m1 M1 M2. map_pages 0x200200000 [0xE000, 0xF000] True False Normal demo_map demo_machine = returns (True, m1, M1)
     \<and> unmap_pages 0x200200000 2 m1 M1 = (2, m1\<lparr>mapped_pages_count := 2\<rparr>, M2)
     \<and> page_entry m1 M2 0x200200000 = None \<and> page_entry m1 M2 0x200001000 = Some 0x5007"
proof -
  have c: "mapped_pages_count demo_map = 2" by (simp add: demo_map_def)
  obtain m1 M1 M2 where r: "map_pages 0x200200000 demo_range True False Normal demo_map demo_machine = returns (True, m1, M1)"
    "unmap_pages 0x200200000 2 m1 M1 = (2, m1\<lparr>mapped_pages_count := 2\<rparr>, M2)"
    "\<forall>u. user_addr u \<longrightarrow> page_entry m1 M2 u = page_entry demo_map demo_machine u"
    using map_unmap_roundtrip [OF demo_tables_ok demo_range_ok, where w = True and x = False and c = Normal]
    unfolding demo_range_length c by blast
  have "page_entry m1 M2 0x200200000 = None" "page_entry m1 M2 0x200001000 = Some 0x5007"
    using r(3) [rule_format, of "0x200200000"] r(3) [rule_format, of "0x200001000"] by (simp_all add: user_addr_def demo_page)
  then show ?thesis using r(1,2) unfolding demo_range_def by blast
qed

text \<open>Mapping a range whose first page is mapped already aborts the kernel.\<close>

theorem map_mapped_page_panics:
  assumes "user_addr v" and "v mod 4096 = 0" and "virt_to_phys_from_map v m M \<noteq> None"
  shows "map_pages v (p # ps) w x c m M = panics"
proof -
  have v: "v < 2 ^ 39" "MIN_VIRTUAL_USER \<le> v" using assms(1) by (simp_all add: user_addr_def)
  obtain e where "leaf (pdpt0_base m) M (pdpt0e_i v) (pde_i v) (pte_i v) = Some e"
    using assms(3) by (auto simp: translate_leaf)
  then obtain d t where "next_base (read_table_entry (pdpt0_base m) (pdpt0e_i v) M) = Some d"
    "next_base (read_table_entry d (pde_i v) M) = Some t" "present (read_table_entry t (pte_i v) M)"
    by (auto simp: leaf_def tab_of_def dir_of_def Let_def split: option.splits if_splits)
  then have "map_page v p fl m M = panics" for fl
    by (simp add: map_page_def Let_def table_below_there)
  then show ?thesis
    using v by (simp add: map_pages_def Let_def aligned_base [OF assms(2) v(1)])
qed

theorem map_mapped_page_panics_witness:
  "map_pages 0x200001000 [0xE000] True True Normal demo_map demo_machine = panics"
proof -
  have "user_addr 0x200001000" by (simp add: user_addr_def)
  then show ?thesis
    using map_mapped_page_panics [where v = "0x200001000" and m = demo_map and M = demo_machine] demo_page [of "0x200001000"]
    by (simp add: translate_entry)
qed

text \<open>C21. Dropping an address space gives back exactly its PML4, PDPT, directories and tables
  and the frames of the user pages below the dynamic pool, except that of the lowest user page,
  which is lost. What the kernel entries reach is kept as long as the manager does not own it.\<close>

theorem mmu_drop_releases:
  assumes "tables_ok (pdpt0_base m) M" and "kernel_part_reserved (pdpt0_base m) M"
  shows "free_set (frames (mmu_drop m M)) = free_set (frames M) \<union>
    frame_of ` {a. is_valid (frames M) a \<and> (a = pml4_base m \<or> a \<in> nodes (pdpt0_base m) M
      \<or> (\<exists>v e. user_addr v \<and> v mod 4096 = 0 \<and> MIN_VIRTUAL_USER < v \<and> v < MIN_DPOOL_VIRTUAL
            \<and> page_entry m M v = Some e \<and> a = entry_base e))}"
proof -
  have "{a \<in> insert (pml4_base m) (nodes (pdpt0_base m) M) \<union> released_pages m M. is_valid (frames M) a} =
    {a. is_valid (frames M) a \<and> (a = pml4_base m \<or> a \<in> nodes (pdpt0_base m) M \<or> a \<in> released_pages m M)}"
    by auto
  then show ?thesis using mmu_drop_free_set [OF assms] unfolding released_pages_def mem_Collect_eq by simp
qed

theorem mmu_drop_releases_witness:
  "page_entry demo_map demo_machine MIN_VIRTUAL_USER = Some 0x4007
   \<and> free_set (frames (mmu_drop demo_map demo_machine)) = {1..15} - {4}"
proof -
  let ?fr = "frames demo_machine"
  have k: "kernel_part_reserved (pdpt0_base demo_map) demo_machine"
    by (simp add: kernel_part_reserved_def demo_map_def demo_reads Let_def points_def)
  have n: "nodes (pdpt0_base demo_map) demo_machine = {4096, 8192, 12288}"
  proof -
    have "node_at 4096 demo_machine (Dir 8) = Some 8192" "node_at 4096 demo_machine (Tab 8 0) = Some 12288"
      by (simp_all add: demo_tree)
    then have "\<exists>n. node_in n \<and> node_at 4096 demo_machine n = Some 8192" "\<exists>n. node_in n \<and> node_at 4096 demo_machine n = Some 12288"
      "\<exists>n. node_in n \<and> node_at 4096 demo_machine n = Some 4096"
      by (intro exI [of _ "Dir 8"] exI [of _ "Tab 8 0"] exI [of _ Root]; simp)+
    then show ?thesis using demo_node by (auto simp: nodes_def demo_map_def)
  qed
  have p: "(\<exists>v e. user_addr v \<and> v mod 4096 = 0 \<and> MIN_VIRTUAL_USER < v \<and> v < MIN_DPOOL_VIRTUAL
      \<and> page_entry demo_map demo_machine v = Some e \<and> a = entry_base e) \<longleftrightarrow> a = 20480" (is "?L \<longleftrightarrow> _") for a
  proof
    assume ?L
    then obtain v e where h: "user_addr v" "v mod 4096 = 0" "MIN_VIRTUAL_USER < v" "page_entry demo_map demo_machine v = Some e"
      "a = entry_base e" by (elim exE conjE) (rule that)
    have "v div 4096 \<noteq> 2097152" 
    proof
      assume "v div 4096 = 2097152"
      then have "v = 4096 * 2097152" using h(2) mult_div_mod_eq [of 4096 v] by (simp only: add_0_right)
      then show False using h(3) by simp
    qed
    then show "a = 20480" using h(4,5) demo_page [OF h(1)] demo_entries by (auto split: if_splits)
  next
    assume "a = 20480"
    then show ?L
      using demo_page [of "0x200001000"] demo_entries by (intro exI [of _ "0x200001000"] exI [of _ "0x5007"]) (simp add: user_addr_def)
  qed
  have v: "is_valid ?fr a \<longleftrightarrow> 4096 \<le> a \<and> a \<le> 65535" for a by (auto simp: is_valid_def demo_machine_def)
  have "{a. is_valid ?fr a \<and> (a = pml4_base demo_map \<or> a \<in> nodes (pdpt0_base demo_map) demo_machine
      \<or> (\<exists>v e. user_addr v \<and> v mod 4096 = 0 \<and> MIN_VIRTUAL_USER < v \<and> v < MIN_DPOOL_VIRTUAL
            \<and> page_entry demo_map demo_machine v = Some e \<and> a = entry_base e))} = {0x1000, 0x2000, 0x3000, 0x5000, 0x6000}"
    unfolding n p v by (auto simp: demo_map_def)
  then have "free_set (frames (mmu_drop demo_map demo_machine)) = {7..15} \<union> frame_of ` {0x1000, 0x2000, 0x3000, 0x5000, 0x6000}"
    using mmu_drop_releases [OF demo_tables_ok k] unfolding demo_free by simp
  also have "\<dots> = {1..15} - {4}" by auto
  finally show ?thesis using demo_page [of MIN_VIRTUAL_USER] by (simp add: user_addr_def)
qed

end
