(* ===== verification/Address_Space.thy ===== *)
theory Address_Space
  imports Mmu Task_Ops Fallible
begin

text \<open>
  Processes and their address spaces, \<^verbatim>\<open>kernel/src/mem/virt.rs\<close>: the process table, the
  program image, the heap, the stacks of the tasks of a process, the dynamic mapping pool,
  page faults and file descriptors, on top of the paging code and the scheduler.

  The state \<open>vspace\<close> has the process table, the next process number, the scheduler's
  \<open>kernel\<close> (which owns the physical memory manager) and the contents of physical memory.
  An operation takes the number \<open>c\<close> of the CPU it runs on. A file object is of any type
  \<open>'f\<close>. Loading a segment of a program from its file is an argument; the switch to user mode
  is the value \<open>user_entry\<close> that the operation ends with.
\<close>

section \<open>State\<close>

record user_task =
  ut_tid :: usize
  user_sp :: usize
  ustack_base :: usize
  ustack_pages :: usize
  ustack_max_pages :: usize

record 'f address_space =
  as_pid :: usize
  as_name :: "u8 list"
  as_cmd_line :: "u8 list"
  vmap :: mmu_mapping
  img_pages :: usize
  ep_vaddr :: usize
  heap_base :: usize
  heap_pages :: usize
  stack_top :: usize
  children :: "user_task list"
  files :: "'f list"

record 'f vspace =
  processes :: "(usize, 'f address_space) bt_map"
  next_pid :: usize
  kern :: kernel
  memory :: "usize \<Rightarrow> u64"

abbreviation DEFAULT_USTACK_INIT_PAGES :: usize where "DEFAULT_USTACK_INIT_PAGES \<equiv> 4"
abbreviation DEFAULT_USTACK_EXPAND_PAGES :: usize where "DEFAULT_USTACK_EXPAND_PAGES \<equiv> 4"
abbreviation DEFAULT_USTACK_MAX_PAGES :: usize where "DEFAULT_USTACK_MAX_PAGES \<equiv> 4096"

text \<open>\<^verbatim>\<open>SyscallRsvdFDs::Max\<close>.\<close>

abbreviation RSVD_FDS :: usize where "RSVD_FDS \<equiv> 3"

definition div_round_up :: "usize \<Rightarrow> usize \<Rightarrow> usize" where
  "div_round_up num denom = usub (uadd num denom) 1 div denom"

definition ustack_top :: "user_task \<Rightarrow> usize" where
  "ustack_top u = uadd (usub (ustack_base u) (umul (ustack_pages u) PAGE_SIZE)) 1"

definition proc_new :: "'f address_space" where
  "proc_new = \<lparr>as_pid = 0, as_name = [], as_cmd_line = [], vmap = mmu_new, img_pages = 0,
     ep_vaddr = 0, heap_base = 0, heap_pages = 0, stack_top = MAX_USTACK_VIRTUAL,
     children = [], files = []\<rparr>"

text \<open>The memory the paging code works on, and the frame allocation \<^verbatim>\<open>Vec\<close> of zeros followed by
  \<^verbatim>\<open>alloc_high_frames\<close>.\<close>

definition machine_of :: "'f vspace \<Rightarrow> machine" where
  "machine_of vs = \<lparr>ram = memory vs, frames = phys (kern vs)\<rparr>"

definition put_machine :: "machine \<Rightarrow> 'f vspace \<Rightarrow> 'f vspace" where
  "put_machine M vs = vs\<lparr>memory := ram M, kern := (kern vs)\<lparr>phys := frames M\<rparr>\<rparr>"

type_synonym ('f, 'a) process_op = "('f address_space \<times> 'f vspace, 'a) fallible"

definition alloc_pages :: "nat \<Rightarrow> ('f, usize list) process_op" where
  "alloc_pages n = (\<lambda>(p, vs). and_then (alloc_high_frames (phys (kern vs)) (replicate n 0))
     (\<lambda>(r, fs, bm). returns (case r of Inl e \<Rightarrow> Inl e | Inr _ \<Rightarrow> Inr fs,
        p, vs\<lparr>kern := (kern vs)\<lparr>phys := bm\<rparr>\<rparr>)))"

text \<open>\<^verbatim>\<open>vmap.map_pages(..)\<close>, whose result the callers ignore.\<close>

definition map_frames :: "usize \<Rightarrow> usize list \<Rightarrow> bool \<Rightarrow> bool \<Rightarrow> ('f, unit) process_op" where
  "map_frames v fs w x = (\<lambda>(p, vs). and_then (map_pages v fs w x Normal (vmap p) (machine_of vs))
     (\<lambda>(ok, m, M). returns (Inr (), p\<lparr>vmap := m\<rparr>, put_machine M vs)))"

definition free_pages :: "usize list \<Rightarrow> ('f, unit) process_op" where
  "free_pages fs = (\<lambda>(p, vs). returns (Inr (), p, vs\<lparr>kern := (kern vs)\<lparr>phys := pm_free_frames (phys (kern vs)) fs\<rparr>\<rparr>))"

definition with_process :: "usize \<Rightarrow> ('f, 'a) process_op \<Rightarrow> ('f vspace, 'a) fallible" where
  "with_process pid op vs = (case bt_get (processes vs) pid of
       None \<Rightarrow> throw InvalidPID vs
     | Some p \<Rightarrow> and_then (op (p, vs)) (\<lambda>(r, p', vs').
         returns (r, vs'\<lparr>processes := bt_insert pid p' (processes vs')\<rparr>)))"

definition get_proc :: "('f, 'f address_space) process_op" where
  "get_proc = (\<lambda>(p, vs). succeed p (p, vs))"

definition put_proc :: "('f address_space \<Rightarrow> 'f address_space) \<Rightarrow> ('f, unit) process_op" where
  "put_proc f = (\<lambda>(p, vs). succeed () (f p, vs))"

section \<open>Process table\<close>

definition spawn :: "kernel_tables \<Rightarrow> u8 list \<Rightarrow> u8 list \<Rightarrow> ('f vspace, usize) fallible" where
  "spawn kt name cmd vs =
     (let pid = next_pid vs;
          procs = bt_insert pid proc_new (processes vs);
          vs1 = vs\<lparr>next_pid := uadd pid 1, processes := procs\<rparr>
      in case bt_get procs pid of
           None \<Rightarrow> throw InvalidPID vs1
         | Some p \<Rightarrow>
             and_then (mmu_init kt (vmap p) (machine_of vs1)) (\<lambda>(m, M).
               let p' = p\<lparr>as_name := name, as_cmd_line := cmd, heap_pages := 0, as_pid := pid, vmap := m\<rparr>
               in succeed pid (put_machine M (vs1\<lparr>processes := bt_insert pid p' procs\<rparr>))))"

definition get_main_tid :: "usize \<Rightarrow> 'f vspace \<Rightarrow> usize option" where
  "get_main_tid pid vs = (case bt_get (processes vs) pid of
       None \<Rightarrow> None
     | Some p \<Rightarrow> if length (children p) > 0 then Some (ut_tid (children p ! 0)) else None)"

record process_info =
  info_pid :: usize
  info_name :: "u8 list"
  info_cmd_line :: "u8 list"
  main_tid :: usize
  task_count :: usize
  fd_count :: usize
  img_base :: usize
  img_size :: usize
  info_heap_base :: usize
  heap_size :: usize
  info_stack_top :: usize
  total_mem_usage :: usize
  meta_mem_usage :: usize

text \<open>A byte array of fixed length with a copied prefix that leaves room for a zero.\<close>

definition fixed_bytes :: "nat \<Rightarrow> u8 list \<Rightarrow> u8 list" where
  "fixed_bytes n bs =
     (let len = (if length bs < n then length bs else n - 1)
      in take len bs @ drop len (replicate n 0))"

definition get_process_info :: "usize \<Rightarrow> 'f vspace \<Rightarrow> process_info option run" where
  "get_process_info pid vs = (case bt_get (processes vs) pid of
       None \<Rightarrow> returns None
     | Some p \<Rightarrow> and_then (item_at (children p) 0) (\<lambda>u.
         returns (Some \<lparr>info_pid = as_pid p, info_name = fixed_bytes 64 (as_name p),
           info_cmd_line = fixed_bytes 1024 (as_cmd_line p), main_tid = ut_tid u,
           task_count = length (children p), fd_count = length (files p),
           img_base = MIN_VIRTUAL_USER, img_size = umul (img_pages p) PHY_FRAME_SIZE,
           info_heap_base = heap_base p, heap_size = umul (heap_pages p) PHY_FRAME_SIZE,
           info_stack_top = stack_top p,
           total_mem_usage = umul (uadd (mapped_pages_count (vmap p)) (tlb_page_count (vmap p))) PAGE_SIZE,
           meta_mem_usage = umul (tlb_page_count (vmap p)) PAGE_SIZE\<rparr>)))"

section \<open>Tasks of a process\<close>

record user_entry =
  entry_pml4 :: usize
  entry_point :: usize
  entry_arg :: usize
  entry_sp :: usize

text \<open>\<^verbatim>\<open>Task::set_pid\<close> on the current task.\<close>

definition task_set_pid :: "usize \<Rightarrow> usize \<Rightarrow> ('f, unit) process_op" where
  "task_set_pid c pid = (\<lambda>(p, vs). and_then (set_pid c pid (kern vs)) (\<lambda>k. returns (Inr (), p, vs\<lparr>kern := k\<rparr>)))"

definition attach_task :: "usize \<Rightarrow> user_task \<Rightarrow> ('f, unit) process_op" where
  "attach_task c u = (\<lambda>(p, vs).
     if \<not> task_exists (ut_tid u) (kern vs) then throw InvalidTID (p, vs)
     else if usub (stack_top p) (umul (ustack_max_pages u) PAGE_SIZE)
               \<le> uadd (heap_base p) (umul (heap_pages p) PAGE_SIZE) then throw OutOfMemory (p, vs)
     else
       let u1 = u\<lparr>user_sp := uadd (stack_top p) 1, ustack_base := stack_top p,
                  ustack_pages := DEFAULT_USTACK_INIT_PAGES\<rparr>
       in try_then (alloc_pages (ustack_pages u1)) (\<lambda>fs.
          try_then (map_frames (ustack_top u1) fs True False) (\<lambda>_.
          try_then (task_set_pid c (as_pid p)) (\<lambda>_.
            put_proc (\<lambda>p. p\<lparr>stack_top := usub (stack_top p) (umul (ustack_max_pages u1) PAGE_SIZE),
                            children := children p @ [u1]\<rparr>)))) (p, vs))"

definition new_user_task :: "usize \<Rightarrow> user_task" where
  "new_user_task tid = \<lparr>ut_tid = tid, user_sp = 0, ustack_base = 0, ustack_pages = 0,
     ustack_max_pages = DEFAULT_USTACK_MAX_PAGES\<rparr>"

definition move_to_process :: "usize \<Rightarrow> usize \<Rightarrow> usize \<Rightarrow> usize \<Rightarrow> ('f vspace, user_entry) fallible" where
  "move_to_process c pid user_func func_arg vs =
     (if pid < 1 then throw InvalidPID vs
      else with_process pid
        (\<lambda>(p, vs). if length (children p) < 1 then throw InvalidArgument (p, vs)
          else try_then (attach_task c (new_user_task (curr_tid (cpu (kern vs) c)))) (\<lambda>_.
               try_then get_proc (\<lambda>p.
                 succeed \<lparr>entry_pml4 = pml4_base (vmap p), entry_point = user_func, entry_arg = func_arg,
                   entry_sp = user_sp (last (children p))\<rparr>)) (p, vs)) vs)"

section \<open>Loading a program\<close>

record elf_segment =
  p_type :: u32
  p_offset :: usize
  p_memsz :: usize

record elf_binary =
  elf_entry :: usize
  segments :: "elf_segment list"

abbreviation P_TYPE_LOAD :: u32 where "P_TYPE_LOAD \<equiv> 1"

text \<open>\<open>load i dest M\<close> is \<^verbatim>\<open>elf.load_segment(i, dest)\<close>: it copies segment \<open>i\<close> of the file to
  memory and returns the number of bytes.\<close>

type_synonym load_fn = "nat \<Rightarrow> usize \<Rightarrow> machine \<Rightarrow> (error_code + usize) \<times> machine"

definition image_size :: "elf_binary \<Rightarrow> usize" where
  "image_size elf = foldl (\<lambda>sz seg. if p_type seg = P_TYPE_LOAD then uadd sz (p_memsz seg) else sz) 0 (segments elf)"

definition load_at :: "load_fn \<Rightarrow> nat \<Rightarrow> usize \<Rightarrow> ('f, usize) process_op" where
  "load_at load i dest = (\<lambda>(p, vs). case load i dest (machine_of vs) of (r, M) \<Rightarrow> returns (r, p, put_machine M vs))"

text \<open>The copy loop: \<open>i\<close> is the index of the first of the segments left; an error frees the
  frames of the image.\<close>

fun load_segments :: "load_fn \<Rightarrow> usize list \<Rightarrow> nat \<Rightarrow> elf_segment list \<Rightarrow> usize \<Rightarrow> ('f, usize) process_op" where
  "load_segments load fs i [] xfer_len = succeed xfer_len"
| "load_segments load fs i (seg # segs) xfer_len =
     (if p_type seg = P_TYPE_LOAD
      then (\<lambda>s. and_then (load_at load i (uadd MIN_VIRTUAL_USER (p_offset seg)) s) (\<lambda>(r, s1).
             case r of Inr len \<Rightarrow> load_segments load fs (i + 1) segs (uadd xfer_len len) s1
                     | Inl e \<Rightarrow> try_then (free_pages fs) (\<lambda>_. throw e) s1))
      else load_segments load fs (i + 1) segs xfer_len)"

definition launch_process :: "usize \<Rightarrow> elf_binary \<Rightarrow> load_fn \<Rightarrow> ('f, user_entry) process_op" where
  "launch_process c elf load = (\<lambda>(p, vs).
     if length (children p) > 0 then throw InvalidOp (p, vs)
     else
       let mem_sz = image_size elf;
           frame_count = div_round_up mem_sz PHY_FRAME_SIZE
       in if frame_count < 1 then throw InvalidFormat (p, vs)
       else
         try_then (alloc_pages frame_count) (\<lambda>fs.
         try_then (put_proc (\<lambda>p. p\<lparr>ep_vaddr := elf_entry elf,
                      img_pages := div_round_up frame_count PHY_FRAME_SIZE,
                      heap_base := uadd MIN_VIRTUAL_USER (umul frame_count PHY_FRAME_SIZE)\<rparr>)) (\<lambda>_.
         try_then (map_frames MIN_VIRTUAL_USER fs True True) (\<lambda>_.
         try_then (load_segments load fs 0 (segments elf) 0) (\<lambda>xfer_len.
           if xfer_len \<noteq> mem_sz then try_then (free_pages fs) (\<lambda>_. throw IOError)
           else
             (\<lambda>(p, vs). try_then (attach_task c (new_user_task (curr_tid (cpu (kern vs) c)))) (\<lambda>_.
             try_then get_proc (\<lambda>p.
               if length (children p) \<noteq> 1 then try_then (free_pages fs) (\<lambda>_. throw Other)
               else succeed \<lparr>entry_pml4 = pml4_base (vmap p), entry_point = ep_vaddr p, entry_arg = 0,
                      entry_sp = user_sp (children p ! 0)\<rparr>)) (p, vs)))))) (p, vs))"

definition launch_elf :: "usize \<Rightarrow> usize \<Rightarrow> elf_binary \<Rightarrow> load_fn \<Rightarrow> ('f vspace, user_entry) fallible" where
  "launch_elf c pid elf load = with_process pid (launch_process c elf load)"

section \<open>Release\<close>

definition release_page :: "usize \<Rightarrow> mmu_mapping \<times> machine \<Rightarrow> mmu_mapping \<times> machine" where
  "release_page v = (\<lambda>(m, M). case unmap_page v m M of
       (None, m1, M1) \<Rightarrow> (m1, M1)
     | (Some a, m1, M1) \<Rightarrow> (m1, free_frame a M1))"

definition release_pages :: "usize list \<Rightarrow> 'f address_space \<times> 'f vspace \<Rightarrow> 'f address_space \<times> 'f vspace" where
  "release_pages pages = (\<lambda>(p, vs). case foldl (\<lambda>s v. release_page v s) (vmap p, machine_of vs) pages of
     (m, M) \<Rightarrow> (p\<lparr>vmap := m\<rparr>, put_machine M vs))"

text \<open>\<^verbatim>\<open>task_dropped\<close>: with its main task a process goes, and with it the mapping.\<close>

definition proc_task_dropped :: "usize \<Rightarrow> usize \<Rightarrow> 'f vspace \<Rightarrow> 'f vspace run" where
  "proc_task_dropped pid tid vs =
     (if pid = 0 then returns vs
      else case bt_get (processes vs) pid of
        None \<Rightarrow> returns vs
      | Some p \<Rightarrow> and_then (item_at (children p) 0) (\<lambda>u0.
          if ut_tid u0 = tid
          then returns (put_machine (mmu_drop (vmap p) (machine_of vs)) (vs\<lparr>processes := bt_remove pid (processes vs)\<rparr>))
          else
            let (p1, vs1) = (case find (\<lambda>u. ut_tid u = tid) (children p) of
                    None \<Rightarrow> (p, vs)
                  | Some u \<Rightarrow> release_pages (map (\<lambda>i. uadd (ustack_top u) (umul i PAGE_SIZE)) [0..<ustack_pages u]) (p, vs));
                p2 = p1\<lparr>children := filter (\<lambda>u. ut_tid u \<noteq> tid) (children p1)\<rparr>
            in returns (vs1\<lparr>processes := bt_insert pid p2 (processes vs1)\<rparr>)))"

section \<open>Heap and stack\<close>

definition in_current_process :: "usize \<Rightarrow> ('f, 'a) process_op \<Rightarrow> ('f vspace, 'a) fallible" where
  "in_current_process c op vs = and_then (current_pid c (kern vs)) (\<lambda>pid. with_process pid op vs)"

definition grow_heap :: "usize \<Rightarrow> ('f, usize \<times> usize) process_op" where
  "grow_heap delta = (\<lambda>(p, vs).
     let more_pages = div_round_up delta PHY_FRAME_SIZE;
         new_heap_pages = uadd (heap_pages p) more_pages;
         new_heap_size = umul new_heap_pages PHY_FRAME_SIZE
     in if uadd (heap_base p) new_heap_size \<ge> stack_top p then throw OutOfMemory (p, vs)
     else
       try_then (alloc_pages more_pages) (\<lambda>fs.
       try_then (map_frames (uadd (heap_base p) (umul (heap_pages p) PHY_FRAME_SIZE)) fs True False) (\<lambda>_.
       try_then (put_proc (\<lambda>p. p\<lparr>heap_pages := new_heap_pages\<rparr>)) (\<lambda>_.
         succeed (heap_base p, new_heap_size)))) (p, vs))"

definition shrink_heap :: "usize \<Rightarrow> ('f, usize \<times> usize) process_op" where
  "shrink_heap delta = (\<lambda>(p, vs).
     let shrink_pages = delta div PHY_FRAME_SIZE
     in if shrink_pages > heap_pages p then throw InvalidArgument (p, vs)
     else
       let (p1, vs1) = release_pages
             (map (\<lambda>i. uadd (heap_base p) (umul (usub (usub (heap_pages p) 1) i) PHY_FRAME_SIZE)) [0..<shrink_pages]) (p, vs);
           p2 = p1\<lparr>heap_pages := usub (heap_pages p1) shrink_pages\<rparr>
       in succeed (heap_base p2, umul (heap_pages p2) PHY_FRAME_SIZE) (p2, vs1))"

definition resize_heap :: "usize \<Rightarrow> int \<Rightarrow> ('f vspace, usize \<times> usize) fallible" where
  "resize_heap c delta = in_current_process c
     (if delta = 0 then (\<lambda>(p, vs). succeed (heap_base p, umul (heap_pages p) PHY_FRAME_SIZE) (p, vs))
      else if delta > 0 then grow_heap (nat delta)
      else shrink_heap (nat (- delta)))"

text \<open>The first child with the given task is updated, as \<^verbatim>\<open>iter_mut().find(..)\<close> does.\<close>

fun update_child :: "usize \<Rightarrow> (user_task \<Rightarrow> user_task) \<Rightarrow> user_task list \<Rightarrow> user_task list" where
  "update_child tid f [] = []"
| "update_child tid f (u # us) = (if ut_tid u = tid then f u # us else u # update_child tid f us)"

definition expand_stack :: "usize \<Rightarrow> usize \<Rightarrow> ('f, unit) process_op" where
  "expand_stack tid page_count = (\<lambda>(p, vs).
     case find (\<lambda>u. ut_tid u = tid) (children p) of
       None \<Rightarrow> throw InvalidTID (p, vs)
     | Some u \<Rightarrow>
         let new_stack_pages = uadd (ustack_pages u) page_count
         in if new_stack_pages > ustack_max_pages u then throw OutOfMemory (p, vs)
         else if usub (stack_top p) (umul new_stack_pages PAGE_SIZE)
                   \<le> uadd (heap_base p) (umul (heap_pages p) PHY_FRAME_SIZE) then throw OutOfMemory (p, vs)
         else
           try_then (alloc_pages page_count) (\<lambda>fs.
           try_then (map_frames (usub (ustack_top u) (umul page_count PAGE_SIZE)) fs True False) (\<lambda>_.
             put_proc (\<lambda>p. p\<lparr>children := update_child tid
                (\<lambda>u. u\<lparr>ustack_pages := uadd (ustack_pages u) page_count\<rparr>) (children p)\<rparr>))) (p, vs))"

section \<open>Dynamic mappings\<close>

definition dmap :: "usize \<Rightarrow> usize list \<Rightarrow> ('f vspace, usize) fallible" where
  "dmap c phys_addrs = in_current_process c (\<lambda>(p, vs).
     and_then (dmap_pages phys_addrs (vmap p) (machine_of vs)) (\<lambda>(r, m, M).
       case r of Some v \<Rightarrow> succeed v (p\<lparr>vmap := m\<rparr>, put_machine M vs)
               | None \<Rightarrow> throw OutOfMemory (p\<lparr>vmap := m\<rparr>, put_machine M vs)))"

definition dunmap :: "usize \<Rightarrow> usize \<Rightarrow> usize \<Rightarrow> ('f vspace, unit) fallible" where
  "dunmap c virt_addr page_count = in_current_process c (\<lambda>(p, vs).
     case unmap_pages virt_addr page_count (vmap p) (machine_of vs) of
       (n, m, M) \<Rightarrow> (if n \<noteq> page_count then throw Other else succeed ()) (p\<lparr>vmap := m\<rparr>, put_machine M vs))"

section \<open>Page faults\<close>

text \<open>\<open>text_start\<close> and \<open>text_end\<close> are the bounds of the kernel's code. A fault there is a user
  task returning from its entry function, and ends it.\<close>

definition handle_page_fault ::
  "(nat \<Rightarrow> u64) \<Rightarrow> usize \<Rightarrow> usize \<Rightarrow> usize \<Rightarrow> usize \<Rightarrow> bool \<Rightarrow> 'f vspace \<Rightarrow> (bool \<times> 'f vspace) run" where
  "handle_page_fault clk c text_start text_end fault_addr instr vs =
     (if fault_addr \<ge> text_start \<and> fault_addr < text_end
      then and_then (task_exit clk c (kern vs)) (\<lambda>k. returns (True, vs\<lparr>kern := k\<rparr>))
      else and_then (current_pid c (kern vs)) (\<lambda>pid.
        let tid = curr_tid (cpu (kern vs) c) in
        case bt_get (processes vs) pid of
          None \<Rightarrow> returns (False, vs)
        | Some p \<Rightarrow>
            (case find (\<lambda>u. ut_tid u = tid) (children p) of
               None \<Rightarrow> returns (False, vs)
             | Some u \<Rightarrow>
                 let prg_end = uadd MIN_VIRTUAL_USER (umul (img_pages p) PHY_FRAME_SIZE);
                     lowest = usub (uadd (ustack_base u) 1) (umul (ustack_max_pages u) PAGE_SIZE)
                 in if instr \<and> fault_addr \<ge> prg_end then returns (False, vs)
                 else if fault_addr < ustack_base u \<and> fault_addr > lowest
                 then
                   let multiple = DEFAULT_USTACK_EXPAND_PAGES;
                       extra = umul (div_round_up (usub (ustack_top u) fault_addr) (umul PAGE_SIZE multiple)) multiple
                   in and_then (with_process pid (expand_stack tid extra) vs) (\<lambda>(r, vs1).
                        case r of Inl e \<Rightarrow> returns (False, vs1) | Inr _ \<Rightarrow> returns (True, vs1))
                 else returns (False, vs))))"

section \<open>File descriptors\<close>

definition add_file :: "usize \<Rightarrow> 'f \<Rightarrow> 'f vspace \<Rightarrow> (usize \<times> 'f vspace) run" where
  "add_file pid fobj vs = (case bt_get (processes vs) pid of
       None \<Rightarrow> panics
     | Some p \<Rightarrow> let p1 = p\<lparr>files := files p @ [fobj]\<rparr>
         in returns (uadd (usub (length (files p1)) 1) RSVD_FDS, vs\<lparr>processes := bt_insert pid p1 (processes vs)\<rparr>))"

definition get_file :: "usize \<Rightarrow> usize \<Rightarrow> 'f vspace \<Rightarrow> error_code + 'f" where
  "get_file pid fd vs =
     (let fd_index = usub fd RSVD_FDS
      in case bt_get (processes vs) pid of
           None \<Rightarrow> Inl InvalidPID
         | Some p \<Rightarrow> if fd_index < length (files p) then Inr (files p ! fd_index) else Inl InvalidFD)"

definition remove_file :: "usize \<Rightarrow> usize \<Rightarrow> 'f vspace \<Rightarrow> 'f vspace" where
  "remove_file pid fd vs =
     (let fd_index = usub fd RSVD_FDS
      in case bt_get (processes vs) pid of
           None \<Rightarrow> vs
         | Some p \<Rightarrow>
             if fd_index < length (files p)
             then vs\<lparr>processes := bt_insert pid (p\<lparr>files := take fd_index (files p) @ drop (fd_index + 1) (files p)\<rparr>) (processes vs)\<rparr>
             else vs)"

end
