(* ===== verification/Address_Inv.thy ===== *)
theory Address_Inv
  imports Address_Space Mmu_Release
begin

text \<open>
  Lemmas on the steps the process operations are made of: allocating frames for a mapping,
  mapping them, and releasing mapped pages together with their frames. \<open>space_ok\<close> is the
  consistency of the tables of a process with the free frames.
\<close>

section \<open>Tables and the free frames\<close>

abbreviation space_ok :: "'f address_space \<Rightarrow> 'f vspace \<Rightarrow> bool" where
  "space_ok p vs \<equiv> tables_ok (pdpt0_base (vmap p)) (machine_of vs)"

abbreviation free_frames_of :: "'f vspace \<Rightarrow> nat set" where
  "free_frames_of vs \<equiv> free_set (phys (kern vs))"

abbreviation user_entry_of :: "'f address_space \<Rightarrow> 'f vspace \<Rightarrow> usize \<Rightarrow> u64 option" where
  "user_entry_of p vs u \<equiv> page_entry (vmap p) (machine_of vs) u"

abbreviation pool_of :: "'f address_space \<Rightarrow> 'f vspace \<Rightarrow> nat set" where
  "pool_of p vs \<equiv> table_pool (pdpt0_base (vmap p)) (machine_of vs)"

lemma machine_of_simps [simp]:
  "frames (machine_of vs) = phys (kern vs)" "ram (machine_of vs) = memory vs"
  "machine_of (put_machine M vs) = M" "processes (put_machine M vs) = processes vs"
  "kern (put_machine M vs) = (kern vs)\<lparr>phys := frames M\<rparr>" "next_pid (put_machine M vs) = next_pid vs"
  "machine_of (vs\<lparr>kern := k\<rparr>) = (machine_of vs)\<lparr>frames := phys k\<rparr>"
  "machine_of (vs\<lparr>processes := ps\<rparr>) = machine_of vs"
  by (simp_all add: machine_of_def put_machine_def)

lemma walk_frames [simp]:
  "page_entry m (M\<lparr>frames := fb\<rparr>) u = page_entry m M u"
  "dir_of p (M\<lparr>frames := fb\<rparr>) i = dir_of p M i" "tab_of p (M\<lparr>frames := fb\<rparr>) i j = tab_of p M i j"
  "leaf p (M\<lparr>frames := fb\<rparr>) i j k = leaf p M i j k"
  "node_at p (M\<lparr>frames := fb\<rparr>) n = node_at p M n" "nodes p (M\<lparr>frames := fb\<rparr>) = nodes p M"
proof -
  show 1: "dir_of p (M\<lparr>frames := fb\<rparr>) i = dir_of p M i" for i by (simp add: dir_of_def)
  show 2: "tab_of p (M\<lparr>frames := fb\<rparr>) i j = tab_of p M i j" for i j by (simp add: tab_of_def 1 split: option.split)
  show 3: "leaf p (M\<lparr>frames := fb\<rparr>) i j k = leaf p M i j k" for p i j k
    by (simp add: leaf_def tab_of_def dir_of_def split: option.split)
  show "page_entry m (M\<lparr>frames := fb\<rparr>) u = page_entry m M u" by (simp add: page_entry_leaf 3)
  show 4: "node_at p (M\<lparr>frames := fb\<rparr>) n = node_at p M n" for n by (cases n) (simp_all add: 1 2)
  show "nodes p (M\<lparr>frames := fb\<rparr>) = nodes p M" by (simp add: nodes_def 4)
qed

lemma tables_ok_frames:
  assumes ok: "tables_ok p M" and "pmm_ok fb" "last_phys_addr fb < 2 ^ 40"
    and free: "\<And>b. b \<in> nodes p M \<Longrightarrow> frame_of b \<notin> free_set fb"
  shows "tables_ok p (M\<lparr>frames := fb\<rparr>)"
proof (rule tables_okI)
  show "page_base b \<and> frame_of b \<notin> free_set (frames (M\<lparr>frames := fb\<rparr>))"
    if "node_in n" "node_at p (M\<lparr>frames := fb\<rparr>) n = Some b" for n b
    using that tables_okD(3) [OF ok, of n b] free [of b] by (auto simp: nodes_def)
  show "n = n'" if "node_in n" "node_in n'" "node_at p (M\<lparr>frames := fb\<rparr>) n = Some b" "node_at p (M\<lparr>frames := fb\<rparr>) n' = Some b" for n n' b
    using that tables_okD(5) [OF ok that(1,2)] by simp
qed (use assms(2,3) tables_okD(6,7) [OF ok] in simp_all)

lemma node_not_free: "tables_ok p M \<Longrightarrow> b \<in> nodes p M \<Longrightarrow> frame_of b \<notin> free_set (frames M) \<and> page_base b"
  using tables_okD(3,4) by (fastforce simp: nodes_def)

lemma node_frames: "tables_ok p M \<Longrightarrow> frame_of ` nodes p M = table_pool p M - free_set (frames M)"
  using node_not_free by (fastforce simp: table_pool_def)

section \<open>Taking frames\<close>

definition took :: "usize list \<Rightarrow> frames_bitmap \<Rightarrow> frames_bitmap \<Rightarrow> bool" where
  "took fs bm bm' \<longleftrightarrow> distinct fs \<and> (\<forall>a \<in> set fs. page_base a \<and> is_valid bm a) \<and> frame_of ` set fs \<subseteq> free_set bm
     \<and> free_set bm' = free_set bm - frame_of ` set fs \<and> pmm_ok bm' \<and> geometry bm' = geometry bm"

lemma alloc_pages_ok:
  assumes ok: "pmm_ok (phys (kern vs))" "last_phys_addr (phys (kern vs)) < 2 ^ 40" and n: "0 < n" "n \<le> card (free_frames_of vs)"
  shows "\<exists>fs bm. alloc_pages n (p, vs) = returns (Inr fs, p, vs\<lparr>kern := (kern vs)\<lparr>phys := bm\<rparr>\<rparr>) \<and> length fs = n
    \<and> took fs (phys (kern vs)) bm"
proof -
  let ?bm = "phys (kern vs)" and ?h = "highest_free (phys (kern vs)) n"
  let ?fs = "map ((*) PHY_FRAME_SIZE) ?h"
  have ne: "replicate n 0 \<noteq> ([] :: usize list)" using n(1) by simp
  obtain bm where a: "alloc_high_frames ?bm (replicate n 0) = returns (Inr n, ?fs, bm)"
    using alloc_high_frames_spec [OF ok(1) ne] n(2) by simp
  have t: "pmm_ok bm" "frame_of ` set ?fs \<subseteq> free_set ?bm" "free_set bm = free_set ?bm - frame_of ` set ?fs" "geometry bm = geometry ?bm"
    using pm_take_facts [OF pm_take.take_high [OF a ne] ok(1)] by auto
  have "page_base (PHY_FRAME_SIZE * k) \<and> is_valid ?bm (PHY_FRAME_SIZE * k)" if k: "k \<in> set ?h" for k
  proof -
    have f: "k \<in> free_set ?bm" using highest_free_facts(1) k by blast
    then have "k < frame_span ?bm" by (simp add: free_set_def)
    then have "k \<le> last_phys_addr ?bm div PHY_FRAME_SIZE" by (simp add: frame_span_def)
    then have l: "PHY_FRAME_SIZE * k \<le> last_phys_addr ?bm" by (simp add: less_eq_div_iff_mult_less_eq mult.commute)
    moreover have "\<not> in_red_zone ?bm k" using f ok(1) by (simp add: pmm_ok_def)
    ultimately show ?thesis
      using ok is_valid_iff [OF pmm_ok_geom [OF ok(1)]] by (simp add: page_base_def)
  qed
  then have "took ?fs ?bm bm"
    using t highest_free_facts(2) by (auto simp: took_def distinct_map inj_on_def)
  moreover have "length ?fs = n" using highest_free_facts(3) [OF n(2)] by simp
  ultimately show ?thesis using a by (intro exI [of _ ?fs] exI [of _ bm]) (simp add: alloc_pages_def)
qed

lemma alloc_pages_fails:
  assumes "pmm_ok (phys (kern vs))" and "card (free_frames_of vs) < n"
  shows "alloc_pages n (p, vs) = returns (Inl OutOfMemory, p, vs)"
proof -
  have ne: "replicate n 0 \<noteq> ([] :: usize list)" using assms(2) by auto
  show ?thesis using alloc_high_frames_spec [OF assms(1) ne] assms(2) by (simp add: alloc_pages_def)
qed

text \<open>Taking frames and mapping them, the two steps of every operation that adds pages. What
  is kept: the other fields of the process, the frames that are free or tables less the new
  pages, and all other user pages.\<close>

definition added :: "usize \<Rightarrow> usize list \<Rightarrow> u64 \<Rightarrow> 'f address_space \<Rightarrow> 'f vspace \<Rightarrow> 'f address_space \<Rightarrow> 'f vspace \<Rightarrow> bool" where
  "added v fs fl p vs p' vs' \<longleftrightarrow> p' = p\<lparr>vmap := vmap p'\<rparr> \<and> pdpt0_base (vmap p') = pdpt0_base (vmap p)
     \<and> pml4_base (vmap p') = pml4_base (vmap p)
     \<and> space_ok p' vs' \<and> processes vs' = processes vs \<and> next_pid vs' = next_pid vs
     \<and> kern vs' = (kern vs)\<lparr>phys := phys (kern vs')\<rparr> \<and> geometry (phys (kern vs')) = geometry (phys (kern vs))
     \<and> distinct fs \<and> (\<forall>a \<in> set fs. page_base a \<and> is_valid (phys (kern vs)) a) \<and> frame_of ` set fs \<subseteq> free_frames_of vs
     \<and> pool_of p' vs' = pool_of p vs - frame_of ` set fs
     \<and> (\<forall>u. user_addr u \<longrightarrow> user_entry_of p' vs' u =
          (if covers v (length fs) u then Some (of_nat (fs ! ((u - v) div 4096)) OR fl) else user_entry_of p vs u))"

lemma alloc_map:
  assumes ok: "space_ok p vs" and v: "v mod 4096 = 0" "MIN_VIRTUAL_USER \<le> v" "v + 4096 * n \<le> 2 ^ 39"
    and n: "0 < n" "3 * n \<le> card (free_frames_of vs)"
    and none: "\<And>u. covers v n u \<Longrightarrow> user_entry_of p vs u = None"
  shows "\<exists>fs vs1 p' vs'. alloc_pages n (p, vs) = returns (Inr fs, p, vs1)
    \<and> map_frames v fs w x (p, vs1) = returns (Inr (), p', vs') \<and> length fs = n
    \<and> added v fs (entry_flags False w x Normal) p vs p' vs'"
proof -
  let ?bm = "phys (kern vs)" and ?pd = "pdpt0_base (vmap p)"
  have pm: "pmm_ok ?bm" "last_phys_addr ?bm < 2 ^ 40" using tables_okD(1,2) [OF ok] by simp_all
  obtain fs bm where a: "alloc_pages n (p, vs) = returns (Inr fs, p, vs\<lparr>kern := (kern vs)\<lparr>phys := bm\<rparr>\<rparr>)" "length fs = n" "took fs ?bm bm"
    using alloc_pages_ok [OF pm n(1)] n(2) by force
  let ?M1 = "(machine_of vs)\<lparr>frames := bm\<rparr>" and ?vs1 = "vs\<lparr>kern := (kern vs)\<lparr>phys := bm\<rparr>\<rparr>"
  have t: "distinct fs" "\<forall>a \<in> set fs. page_base a \<and> is_valid ?bm a" "frame_of ` set fs \<subseteq> free_set ?bm"
    "free_set bm = free_set ?bm - frame_of ` set fs" "pmm_ok bm" "geometry bm = geometry ?bm"
    using a(3) by (simp_all add: took_def)
  have nn: "frame_of b \<notin> free_set bm" if "b \<in> nodes ?pd (machine_of vs)" for b
    using node_not_free [OF ok that] t(4) by simp
  have ok1: "tables_ok (pdpt0_base (vmap p)) ?M1"
    using tables_ok_frames [OF ok t(5) _ nn] geometry_fields(2) [OF t(6)] pm(2) by simp
  have "card (frame_of ` set fs) \<le> n" using card_image_le [of "set fs" frame_of] card_length [of fs] a(2) by simp
  then have "card (free_set ?bm) - n \<le> card (free_set bm)"
    using diff_card_le_card_Diff [of "frame_of ` set fs" "free_set ?bm"] t(4) by simp
  then have c: "2 * length fs \<le> card (free_set (frames ?M1))" using n(2) a(2) by simp
  have ne: "fs \<noteq> []" and pb: "\<forall>a \<in> set fs. page_base a" using a(2) n(1) t(2) by auto
  have v3: "v + 4096 * length fs \<le> 2 ^ 39" using v(3) a(2) by simp
  have un: "page_entry (vmap p) ?M1 u = None" if "covers v (length fs) u" for u using none that a(2) by simp
  obtain m' M' where r: "map_pages v fs w x Normal (vmap p) ?M1 = returns (True, m', M')"
    "extends (vmap p) ?M1 (m'\<lparr>mapped_pages_count := mapped_pages_count (vmap p)\<rparr>) M' (2 * length fs)"
    "\<And>u. user_addr u \<Longrightarrow> page_entry m' M' u = (if covers v (length fs) u
        then Some (of_nat (fs ! ((u - v) div 4096)) OR entry_flags False w x Normal) else page_entry (vmap p) ?M1 u)"
    using map_pages_ok [OF ok1 v(1,2) ne v3 pb c un] by blast
  let ?p' = "p\<lparr>vmap := m'\<rparr>" and ?vs' = "put_machine M' ?vs1"
  have e: "pdpt0_base m' = ?pd" "pml4_base m' = pml4_base (vmap p)" "tables_ok ?pd M'" "table_pool ?pd M' = table_pool ?pd ?M1"
    "geometry (frames M') = geometry ?bm"
    using r(2) t(6) by (simp_all add: extends_def)
  have "table_pool ?pd ?M1 = table_pool ?pd (machine_of vs) - frame_of ` set fs"
    using t(3,4) node_not_free [OF ok] by (fastforce simp: table_pool_def)
  then have "added v fs (entry_flags False w x Normal) p vs ?p' ?vs'"
    using e r(3) t(1-3) by (simp add: added_def)
  moreover have "map_frames v fs w x (p, ?vs1) = returns (Inr (), ?p', ?vs')"
    using r(1) by (simp add: map_frames_def)
  ultimately show ?thesis using a(1,2) by blast
qed

section \<open>Giving pages back\<close>

lemma release_page_ok:
  assumes ok: "tables_ok (pdpt0_base m) M" and v: "user_addr v" and e: "page_entry m M v = Some e"
    and a: "is_valid (frames M) (entry_base e)" "frame_of (entry_base e) \<notin> frame_of ` nodes (pdpt0_base m) M"
  shows "\<exists>m' M'. release_page v (m, M) = (m', M') \<and> pdpt0_base m' = pdpt0_base m \<and> pml4_base m' = pml4_base m
    \<and> tables_ok (pdpt0_base m) M' \<and> frame_of ` nodes (pdpt0_base m) M' = frame_of ` nodes (pdpt0_base m) M
    \<and> free_set (frames M') = insert (frame_of (entry_base e)) (free_set (frames M)) \<and> geometry (frames M') = geometry (frames M)
    \<and> (\<forall>u. user_addr u \<longrightarrow> page_entry m' M' u = (if u div 4096 = v div 4096 then None else page_entry m M u))"
proof -
  let ?p = "pdpt0_base m" and ?c = "usub (mapped_pages_count m) 1" and ?a = "entry_base e"
  obtain M1 where u: "unmap_page v m M = (Some ?a, m\<lparr>mapped_pages_count := ?c\<rparr>, M1)"
    "tables_ok ?p M1" "table_pool ?p M1 = table_pool ?p M" "frames M1 = frames M"
    "\<And>u. user_addr u \<Longrightarrow> page_entry m M1 u = (if u div 4096 = v div 4096 then None else page_entry m M u)"
    using unmap_page_some [OF ok v e] by blast
  have pm: "pmm_ok (frames M)" using tables_okD(1) [OF ok] .
  have n: "frame_of ` nodes ?p M1 = frame_of ` nodes ?p M" using node_frames [OF ok] node_frames [OF u(2)] u(3,4) by simp
  let ?fb = "pm_free (frames M) ?a"
  have f: "free_set ?fb = insert (frame_of ?a) (free_set (frames M))"
    using free_set_pm_free [OF pmm_ok_geom [OF pm]] a(1) by simp
  have nn: "frame_of b \<notin> free_set ?fb" if "b \<in> nodes ?p M1" for b
  proof -
    have "frame_of b \<noteq> frame_of ?a" using a(2) that unfolding n [symmetric] by (metis imageI)
    then show ?thesis using node_not_free [OF u(2) that] f u(4) by simp
  qed
  have pf: "pmm_ok ?fb" by (rule pmm_ok_pm_free [OF pm])
  have lp: "last_phys_addr ?fb < 2 ^ 40" using tables_okD(2) [OF ok] by simp
  have "tables_ok ?p (M1\<lparr>frames := ?fb\<rparr>)" by (rule tables_ok_frames [OF u(2) pf lp nn])
  moreover have "release_page v (m, M) = (m\<lparr>mapped_pages_count := ?c\<rparr>, M1\<lparr>frames := ?fb\<rparr>)"
    using u(1,4) by (simp add: release_page_def free_frame_def)
  ultimately show ?thesis
    using f n u(5) by (intro exI [of _ "m\<lparr>mapped_pages_count := ?c\<rparr>"] exI [of _ "M1\<lparr>frames := ?fb\<rparr>"]) simp
qed

definition entries_of :: "mmu_mapping \<Rightarrow> machine \<Rightarrow> usize list \<Rightarrow> usize set" where
  "entries_of m M pages = (\<lambda>v. entry_base (the (page_entry m M v))) ` set pages"

lemma release_pages_loop:
  assumes "tables_ok (pdpt0_base m) M" and "distinct (map (\<lambda>v. v div 4096) pages)" and "\<forall>v \<in> set pages. user_addr v"
    and "\<forall>v \<in> set pages. \<exists>e. page_entry m M v = Some e \<and> is_valid (frames M) (entry_base e)
      \<and> frame_of (entry_base e) \<notin> frame_of ` nodes (pdpt0_base m) M"
  shows "\<exists>m' M'. foldl (\<lambda>s v. release_page v s) (m, M) pages = (m', M') \<and> pdpt0_base m' = pdpt0_base m \<and> pml4_base m' = pml4_base m
    \<and> tables_ok (pdpt0_base m) M' \<and> frame_of ` nodes (pdpt0_base m) M' = frame_of ` nodes (pdpt0_base m) M
    \<and> free_set (frames M') = frame_of ` entries_of m M pages \<union> free_set (frames M) \<and> geometry (frames M') = geometry (frames M)
    \<and> (\<forall>u. user_addr u \<longrightarrow> page_entry m' M' u = (if u div 4096 \<in> (\<lambda>v. v div 4096) ` set pages then None else page_entry m M u))"
  using assms
proof (induction pages arbitrary: m M)
  case Nil
  then show ?case by (simp add: entries_of_def)
next
  case (Cons v pages)
  let ?p = "pdpt0_base m"
  have v: "user_addr v" using Cons.prems(3) by simp
  obtain e where e: "page_entry m M v = Some e" "is_valid (frames M) (entry_base e)" "frame_of (entry_base e) \<notin> frame_of ` nodes ?p M"
    using Cons.prems(4) by auto
  obtain m1 M1 where 1: "release_page v (m, M) = (m1, M1)" "pdpt0_base m1 = ?p" "pml4_base m1 = pml4_base m" "tables_ok ?p M1"
    "frame_of ` nodes ?p M1 = frame_of ` nodes ?p M" "free_set (frames M1) = insert (frame_of (entry_base e)) (free_set (frames M))"
    "geometry (frames M1) = geometry (frames M)"
    "\<And>u. user_addr u \<Longrightarrow> page_entry m1 M1 u = (if u div 4096 = v div 4096 then None else page_entry m M u)"
    using release_page_ok [OF Cons.prems(1) v e] by blast
  have same: "page_entry m1 M1 w = page_entry m M w" if "w \<in> set pages" for w
  proof -
    have "w div 4096 \<in> (\<lambda>v. v div 4096) ` set pages" "v div 4096 \<notin> (\<lambda>v. v div 4096) ` set pages"
      using Cons.prems(2) that by (simp_all add: imageI)
    then have "w div 4096 \<noteq> v div 4096" by metis
    then show ?thesis using 1(8) Cons.prems(3) that by simp
  qed
  have valid: "is_valid (frames M1) = is_valid (frames M)" using geometry_fields [OF 1(7)] by simp
  have ok1: "tables_ok (pdpt0_base m1) M1" using 1(2,4) by simp
  have h: "\<forall>w \<in> set pages. \<exists>e. page_entry m1 M1 w = Some e \<and> is_valid (frames M1) (entry_base e)
      \<and> frame_of (entry_base e) \<notin> frame_of ` nodes (pdpt0_base m1) M1"
    unfolding valid 1(2,5) using Cons.prems(4) same by simp
  have d: "distinct (map (\<lambda>v. v div 4096) pages)" "\<forall>v \<in> set pages. user_addr v" using Cons.prems(2,3) by simp_all
  obtain m2 M2 where 2: "foldl (\<lambda>s v. release_page v s) (m1, M1) pages = (m2, M2)" "pdpt0_base m2 = pdpt0_base m1"
    "pml4_base m2 = pml4_base m1" "tables_ok (pdpt0_base m1) M2"
    "frame_of ` nodes (pdpt0_base m1) M2 = frame_of ` nodes (pdpt0_base m1) M1"
    "free_set (frames M2) = frame_of ` entries_of m1 M1 pages \<union> free_set (frames M1)" "geometry (frames M2) = geometry (frames M1)"
    "\<And>u. user_addr u \<Longrightarrow> page_entry m2 M2 u = (if u div 4096 \<in> (\<lambda>v. v div 4096) ` set pages then None else page_entry m1 M1 u)"
    using Cons.IH [OF ok1 d h] by blast
  have "entries_of m M (v # pages) = insert (entry_base e) (entries_of m1 M1 pages)"
    using e(1) same by (simp add: entries_of_def)
  then show ?case
    using 1 2 by (intro exI [of _ m2] exI [of _ M2]) auto
qed

lemma release_pages_ok:
  assumes ok: "space_ok p vs" and pages: "distinct (map (\<lambda>v. v div 4096) pages)" "\<forall>v \<in> set pages. user_addr v"
    and e: "\<forall>v \<in> set pages. \<exists>e. user_entry_of p vs v = Some e \<and> is_valid (phys (kern vs)) (entry_base e)
      \<and> frame_of (entry_base e) \<notin> pool_of p vs"
  shows "\<exists>p' vs'. release_pages pages (p, vs) = (p', vs') \<and> p' = p\<lparr>vmap := vmap p'\<rparr> \<and> pdpt0_base (vmap p') = pdpt0_base (vmap p)
    \<and> space_ok p' vs' \<and> pool_of p' vs' = frame_of ` entries_of (vmap p) (machine_of vs) pages \<union> pool_of p vs
    \<and> free_frames_of vs' = frame_of ` entries_of (vmap p) (machine_of vs) pages \<union> free_frames_of vs
    \<and> processes vs' = processes vs \<and> kern vs' = (kern vs)\<lparr>phys := phys (kern vs')\<rparr>
    \<and> geometry (phys (kern vs')) = geometry (phys (kern vs))
    \<and> (\<forall>u. user_addr u \<longrightarrow> user_entry_of p' vs' u =
         (if u div 4096 \<in> (\<lambda>v. v div 4096) ` set pages then None else user_entry_of p vs u))"
proof -
  let ?E = "frame_of ` entries_of (vmap p) (machine_of vs) pages"
  have h: "\<forall>v \<in> set pages. \<exists>e. user_entry_of p vs v = Some e \<and> is_valid (frames (machine_of vs)) (entry_base e)
      \<and> frame_of (entry_base e) \<notin> frame_of ` nodes (pdpt0_base (vmap p)) (machine_of vs)"
    using e by (auto simp: table_pool_def)
  obtain m' M' where r: "foldl (\<lambda>s v. release_page v s) (vmap p, machine_of vs) pages = (m', M')"
    "pdpt0_base m' = pdpt0_base (vmap p)" "tables_ok (pdpt0_base (vmap p)) M'"
    "frame_of ` nodes (pdpt0_base (vmap p)) M' = frame_of ` nodes (pdpt0_base (vmap p)) (machine_of vs)"
    "free_set (frames M') = ?E \<union> free_frames_of vs" "geometry (frames M') = geometry (phys (kern vs))"
    "\<And>u. user_addr u \<Longrightarrow> page_entry m' M' u = (if u div 4096 \<in> (\<lambda>v. v div 4096) ` set pages then None else user_entry_of p vs u)"
    using release_pages_loop [OF ok pages h] by auto
  let ?p' = "p\<lparr>vmap := m'\<rparr>" and ?vs' = "put_machine M' vs"
  have "release_pages pages (p, vs) = (?p', ?vs')" using r(1) by (simp add: release_pages_def)
  moreover have "pool_of ?p' ?vs' = ?E \<union> pool_of p vs" using r(2,4,5) by (auto simp: table_pool_def)
  ultimately show ?thesis using r(2,3,5-7) by (intro exI [of _ ?p'] exI [of _ ?vs']) simp
qed

end
