(* ===== verification/Address_Heap.thy ===== *)
theory Address_Heap
  imports Address_Inv
begin

text \<open>
  The heap of a process: the invariant \<open>proc_heap_ok\<close> of its page range, and what growing and
  shrinking do to it. Growth by a stack fault is here too.
\<close>

section \<open>Invariant\<close>

definition heap_end :: "'f address_space \<Rightarrow> usize" where
  "heap_end p = heap_base p + 4096 * heap_pages p"

definition proc_heap_ok :: "'f address_space \<Rightarrow> 'f vspace \<Rightarrow> bool" where
  "proc_heap_ok p vs \<longleftrightarrow> space_ok p vs \<and> heap_base p mod 4096 = 0 \<and> MIN_VIRTUAL_USER \<le> heap_base p
     \<and> heap_end p \<le> stack_top p \<and> stack_top p \<le> MAX_USTACK_VIRTUAL
     \<and> (\<forall>u. heap_end p \<le> u \<and> u \<le> stack_top p \<longrightarrow> user_entry_of p vs u = None)
     \<and> (\<forall>u. covers (heap_base p) (heap_pages p) u \<longrightarrow> (\<exists>e. user_entry_of p vs u = Some e
          \<and> is_valid (phys (kern vs)) (entry_base e) \<and> frame_of (entry_base e) \<notin> pool_of p vs))
     \<and> (\<forall>u v. covers (heap_base p) (heap_pages p) u \<and> covers (heap_base p) (heap_pages p) v
          \<and> map_option entry_base (user_entry_of p vs u) = map_option entry_base (user_entry_of p vs v) \<longrightarrow> u div 4096 = v div 4096)"

lemma proc_heap_okD:
  assumes "proc_heap_ok p vs"
  shows "space_ok p vs" and "heap_base p mod 4096 = 0" and "MIN_VIRTUAL_USER \<le> heap_base p"
    and "heap_end p \<le> stack_top p" and "stack_top p \<le> MAX_USTACK_VIRTUAL"
    and "heap_end p \<le> u \<Longrightarrow> u \<le> stack_top p \<Longrightarrow> user_entry_of p vs u = None"
    and "covers (heap_base p) (heap_pages p) u \<Longrightarrow> \<exists>e. user_entry_of p vs u = Some e
          \<and> is_valid (phys (kern vs)) (entry_base e) \<and> frame_of (entry_base e) \<notin> pool_of p vs"
    and "covers (heap_base p) (heap_pages p) u \<Longrightarrow> covers (heap_base p) (heap_pages p) v \<Longrightarrow>
      map_option entry_base (user_entry_of p vs u) = map_option entry_base (user_entry_of p vs v) \<Longrightarrow> u div 4096 = v div 4096"
  using assms unfolding proc_heap_ok_def by blast+

lemma div_round_up_pages:
  assumes "n < 2 ^ 63"
  shows "div_round_up n 4096 = (n + 4095) div 4096"
  using assms by (simp add: div_round_up_def uadd_exact usub_exact)

lemma heap_exact:
  assumes ok: "proc_heap_ok p vs"
  shows "uadd (heap_base p) (umul (heap_pages p) 4096) = heap_end p" "heap_end p < 2 ^ 39" "heap_pages p < 2 ^ 27"
    "stack_top p < 2 ^ 39"
proof -
  have h: "heap_end p < 2 ^ 39" "stack_top p < 2 ^ 39" using proc_heap_okD(4,5) [OF ok] by simp_all
  then show "heap_end p < 2 ^ 39" "stack_top p < 2 ^ 39" .
  have "4096 * heap_pages p < 2 ^ 39" using h(1) by (simp add: heap_end_def)
  then show "heap_pages p < 2 ^ 27" by simp
  then show "uadd (heap_base p) (umul (heap_pages p) 4096) = heap_end p"
    using h(1) by (simp add: heap_end_def uadd_exact umul_exact mult.commute)
qed

lemma not_same_page: "v mod 4096 = 0 \<Longrightarrow> u < v \<Longrightarrow> v \<le> w \<Longrightarrow> u div 4096 \<noteq> w div 4096"
  for u v w :: nat
proof
  assume h: "v mod 4096 = 0" "u < v" "v \<le> w" "u div 4096 = w div 4096"
  have "v div 4096 = w div 4096" using div_le_mono [of u v 4096] div_le_mono [of v w 4096] h(2-4) by linarith
  then have "u div 4096 = v div 4096" using h(4) by simp
  then have "v \<le> u" using h(1) by (metis div_times_less_eq_dividend mult_div_mod_eq add.right_neutral mult.commute)
  then show False using h(2) by simp
qed

text \<open>The page an address is on.\<close>

lemma page_of_nth:
  assumes "covers v (length fs) u" and "covers v (length fs) w" and "v mod 4096 = 0"
    and "distinct fs" and "fs ! ((u - v) div 4096) = fs ! ((w - v) div 4096)"
  shows "u div 4096 = w div 4096"
proof -
  have l: "(u - v) div 4096 < length fs" "(w - v) div 4096 < length fs"
    using assms(1,2) by (auto simp: covers_def div_less_iff_less_mult)
  then have e: "(u - v) div 4096 = (w - v) div 4096" using assms(4,5) nth_eq_iff_index_eq by blast
  obtain q where q: "v = 4096 * q" using assms(3) by auto
  have "x div 4096 = q + (x - v) div 4096" if "v \<le> x" for x
  proof -
    have "x = 4096 * q + (x - v)" using that q by simp
    then show ?thesis by (metis div_mult_self4 mult.commute zero_neq_numeral add.commute)
  qed
  then show ?thesis using e assms(1,2) by (simp add: covers_def)
qed

section \<open>Growing\<close>

lemma added_entry:
  assumes "added v fs fl p vs p' vs'" and "plain_flags fl" and "covers v (length fs) u" and "user_addr u"
  shows "user_entry_of p' vs' u = Some (of_nat (fs ! ((u - v) div 4096)) OR fl)"
    and "entry_base (of_nat (fs ! ((u - v) div 4096)) OR fl) = fs ! ((u - v) div 4096)"
    and "fs ! ((u - v) div 4096) \<in> set fs"
proof -
  have "(u - v) div 4096 < length fs" using assms(3) by (auto simp: covers_def div_less_iff_less_mult)
  then show m: "fs ! ((u - v) div 4096) \<in> set fs" by simp
  then have "page_base (fs ! ((u - v) div 4096))" using assms(1) by (simp add: added_def)
  then show "entry_base (of_nat (fs ! ((u - v) div 4096)) OR fl) = fs ! ((u - v) div 4096)"
    by (rule entry_base_make [OF _ assms(2)])
  show "user_entry_of p' vs' u = Some (of_nat (fs ! ((u - v) div 4096)) OR fl)"
    using assms(1,3,4) by (simp add: added_def)
qed

lemma heap_ok_added:
  assumes ok: "proc_heap_ok p vs" and a: "added (heap_end p) fs fl p vs p' vs'" and fl: "plain_flags fl"
    and room: "heap_end p + 4096 * length fs \<le> stack_top p" and n: "fs \<noteq> []"
    and valid: "is_valid (phys (kern vs')) = is_valid (phys (kern vs))"
  shows "proc_heap_ok (p'\<lparr>heap_pages := heap_pages p + length fs\<rparr>) vs'"
proof -
  let ?q = "p'\<lparr>heap_pages := heap_pages p + length fs\<rparr>" and ?v = "heap_end p" and ?n = "length fs"
  obtain m where p': "p' = p\<lparr>vmap := m\<rparr>" using a unfolding added_def by metis
  have f: "heap_base ?q = heap_base p" "stack_top ?q = stack_top p" "vmap ?q = vmap p'" "heap_end ?q = heap_end p + 4096 * ?n"
    by (simp_all add: p' heap_end_def)
  note d = proc_heap_okD [OF ok]
  have al: "?v mod 4096 = 0" using d(2) by (simp add: heap_end_def mod_add_eq [symmetric])
  have ua: "user_addr u" if "heap_base p \<le> u" "u \<le> stack_top p" for u
    using that d(3,5) by (simp add: user_addr_def)
  have F: "frame_of ` set fs \<subseteq> free_frames_of vs" "pool_of p' vs' = pool_of p vs - frame_of ` set fs" "distinct fs"
    "\<forall>a \<in> set fs. page_base a \<and> is_valid (phys (kern vs)) a"
    using a unfolding added_def by blast+
  have free: "free_frames_of vs \<subseteq> pool_of p vs" by (simp add: table_pool_def)
  have new: "user_entry_of p' vs' u = Some (of_nat (fs ! ((u - ?v) div 4096)) OR fl)"
    "entry_base (of_nat (fs ! ((u - ?v) div 4096)) OR fl) = fs ! ((u - ?v) div 4096)" "fs ! ((u - ?v) div 4096) \<in> set fs"
    if "covers ?v ?n u" for u
    using added_entry [OF a fl that ua] that room by (auto simp: covers_def heap_end_def)
  have old: "user_entry_of p' vs' u = user_entry_of p vs u" if "\<not> covers ?v ?n u" "heap_base p \<le> u" "u \<le> stack_top p" for u
    using a that ua [OF that(2,3)] by (simp add: added_def)
  have split: "covers (heap_base p) (heap_pages p + ?n) u \<longleftrightarrow> covers (heap_base p) (heap_pages p) u \<or> covers ?v ?n u" for u
    by (auto simp: covers_def heap_end_def)
  have lo: "\<not> covers ?v ?n u \<and> heap_base p \<le> u \<and> u \<le> stack_top p" if "covers (heap_base p) (heap_pages p) u" for u
    using that d(4) by (auto simp: covers_def heap_end_def)
  have base: "map_option entry_base (user_entry_of p' vs' u) = (if covers ?v ?n u then Some (fs ! ((u - ?v) div 4096))
      else map_option entry_base (user_entry_of p vs u))" if "covers (heap_base p) (heap_pages p + ?n) u" for u
    using new [of u] old [of u] lo [of u] that split [of u] by auto
  have apart: "frame_of b \<notin> frame_of ` set fs" if "covers (heap_base p) (heap_pages p) u"
    "map_option entry_base (user_entry_of p vs u) = Some b" for u b
  proof -
    have "frame_of b \<notin> pool_of p vs" using d(7) [OF that(1)] that(2) by auto
    then show ?thesis using F(1) free by blast
  qed
  show ?thesis
    unfolding proc_heap_ok_def f
  proof (intro conjI allI impI)
    show "space_ok p' vs'" using a unfolding added_def by blast
    show "heap_base p mod 4096 = 0" "MIN_VIRTUAL_USER \<le> heap_base p" "stack_top p \<le> MAX_USTACK_VIRTUAL" by (rule d)+
    show "heap_end p + 4096 * ?n \<le> stack_top p" by (rule room)
    show "user_entry_of p' vs' u = None" if "heap_end p + 4096 * ?n \<le> u \<and> u \<le> stack_top p" for u
      using old [of u] that d(6) by (simp add: covers_def heap_end_def)
    show "\<exists>e. user_entry_of p' vs' u = Some e \<and> is_valid (phys (kern vs')) (entry_base e) \<and> frame_of (entry_base e) \<notin> pool_of p' vs'"
      if "covers (heap_base p) (heap_pages ?q) u" for u
    proof (cases "covers ?v ?n u")
      case True
      then show ?thesis using new [OF True] F valid by (auto simp: p')
    next
      case False
      then have c: "covers (heap_base p) (heap_pages p) u" using that split by simp
      then show ?thesis using d(7) [OF c] old [OF False] lo [OF c] F(2) valid by (auto simp: p')
    qed
    show "u div 4096 = w div 4096" if "covers (heap_base p) (heap_pages ?q) u \<and> covers (heap_base p) (heap_pages ?q) w
        \<and> map_option entry_base (user_entry_of p' vs' u) = map_option entry_base (user_entry_of p' vs' w)" for u w
    proof -
      have c: "covers (heap_base p) (heap_pages p + ?n) u" "covers (heap_base p) (heap_pages p + ?n) w" using that by simp_all
      have e: "(if covers ?v ?n u then Some (fs ! ((u - ?v) div 4096)) else map_option entry_base (user_entry_of p vs u)) =
          (if covers ?v ?n w then Some (fs ! ((w - ?v) div 4096)) else map_option entry_base (user_entry_of p vs w))"
        using that base [OF c(1)] base [OF c(2)] by simp
      have no: False if "covers ?v ?n x" "\<not> covers ?v ?n y" "covers (heap_base p) (heap_pages p) y"
        "Some (fs ! ((x - ?v) div 4096)) = map_option entry_base (user_entry_of p vs y)" for x y
        using apart [OF that(3), of "fs ! ((x - ?v) div 4096)"] that(4) new(3) [OF that(1)] by simp
      show ?thesis
      proof (cases "covers ?v ?n u"; cases "covers ?v ?n w")
        assume h: "covers ?v ?n u" "covers ?v ?n w"
        then show ?thesis using page_of_nth [OF h al F(3)] e by simp
      next
        assume h: "covers ?v ?n u" "\<not> covers ?v ?n w"
        then show ?thesis using no [OF h] e c(2) split by simp
      next
        assume h: "\<not> covers ?v ?n u" "covers ?v ?n w"
        then have "map_option entry_base (user_entry_of p vs u) = Some (fs ! ((w - ?v) div 4096))" using e by (simp only: if_True if_False)
        from no [OF h(2,1) _ this [symmetric]] show ?thesis using c(1) split h(1) by simp
      next
        assume h: "\<not> covers ?v ?n u" "\<not> covers ?v ?n w"
        then show ?thesis using d(8) [of u w] e c split by simp
      qed
    qed
  qed
qed

text \<open>Growth as the code does it: either refused with the state unchanged, or \<open>n\<close> fresh frames
  are mapped at the end of the heap.\<close>

lemma grow_heap_refused:
  assumes ok: "proc_heap_ok p vs" and d: "0 < delta" "delta < 2 ^ 63"
    and no: "stack_top p \<le> heap_end p + 4096 * ((delta + 4095) div 4096) \<or> card (free_frames_of vs) < (delta + 4095) div 4096"
  shows "grow_heap delta (p, vs) = returns (Inl OutOfMemory, p, vs)"
proof -
  let ?n = "(delta + 4095) div 4096"
  have n: "div_round_up delta 4096 = ?n" "?n \<le> 2 ^ 51" using div_round_up_pages d(2) by simp_all
  note e = heap_exact [OF ok]
  have s: "uadd (heap_pages p) ?n = heap_pages p + ?n" using n(2) e(3) by (simp add: uadd_exact)
  have "4096 * (heap_pages p + ?n) + heap_base p < usize_span"
    using n(2) e(2,3) by (simp add: heap_end_def)
  then have z: "umul (heap_pages p + ?n) 4096 = 4096 * (heap_pages p + ?n)"
    "uadd (heap_base p) (4096 * (heap_pages p + ?n)) = heap_end p + 4096 * ?n"
    by (simp_all add: umul_exact uadd_exact heap_end_def mult.commute distrib_left)
  have pm: "pmm_ok (phys (kern vs))" using tables_okD(1) [OF proc_heap_okD(1) [OF ok]] by simp
  show ?thesis
  proof (cases "stack_top p \<le> heap_end p + 4096 * ?n")
    case True
    then show ?thesis unfolding grow_heap_def Let_def split n(1) s z by (simp add: throw_def)
  next
    case False
    then have "alloc_pages ?n (p, vs) = returns (Inl OutOfMemory, p, vs)" using alloc_pages_fails [OF pm] no by blast
    then show ?thesis unfolding grow_heap_def Let_def split n(1) s z using False by simp
  qed
qed

lemma grow_heap_ok:
  assumes ok: "proc_heap_ok p vs" and d: "0 < delta" "delta < 2 ^ 63"
    and room: "heap_end p + 4096 * ((delta + 4095) div 4096) < stack_top p"
    and mem: "3 * ((delta + 4095) div 4096) \<le> card (free_frames_of vs)"
  shows "\<exists>fs p1 p' vs'. grow_heap delta (p, vs) = returns (Inr (heap_base p, 4096 * (heap_pages p + length fs)), p', vs')
    \<and> length fs = (delta + 4095) div 4096 \<and> p' = p1\<lparr>heap_pages := heap_pages p + length fs\<rparr>
    \<and> added (heap_end p) fs (entry_flags False True False Normal) p vs p1 vs' \<and> proc_heap_ok p' vs'"
proof -
  let ?n = "(delta + 4095) div 4096"
  have n: "div_round_up delta 4096 = ?n" "?n \<le> 2 ^ 51" "0 < ?n" using div_round_up_pages d by simp_all
  note e = heap_exact [OF ok] and h = proc_heap_okD [OF ok]
  have s: "uadd (heap_pages p) ?n = heap_pages p + ?n" using n(2) e(3) by (simp add: uadd_exact)
  have "4096 * (heap_pages p + ?n) + heap_base p < usize_span"
    using n(2) e(2,3) by (simp add: heap_end_def)
  then have z: "umul (heap_pages p + ?n) 4096 = 4096 * (heap_pages p + ?n)"
    "uadd (heap_base p) (4096 * (heap_pages p + ?n)) = heap_end p + 4096 * ?n"
    by (simp_all add: umul_exact uadd_exact heap_end_def mult.commute distrib_left)
  have al: "heap_end p mod 4096 = 0" using h(2) by (simp add: heap_end_def mod_add_eq [symmetric])
  have lo: "MIN_VIRTUAL_USER \<le> heap_end p" using h(3) by (simp add: heap_end_def)
  have hi: "heap_end p + 4096 * ?n \<le> 2 ^ 39" using room h(5) by simp
  have un: "user_entry_of p vs u = None" if "covers (heap_end p) ?n u" for u
    using h(6) [of u] that room by (simp add: covers_def)
  obtain fs vs1 p1 vs' where a: "alloc_pages ?n (p, vs) = returns (Inr fs, p, vs1)"
    "map_frames (heap_end p) fs True False (p, vs1) = returns (Inr (), p1, vs')" "length fs = ?n"
    "added (heap_end p) fs (entry_flags False True False Normal) p vs p1 vs'"
    using alloc_map [OF h(1) al lo hi n(3) mem un] by blast
  let ?p = "p1\<lparr>heap_pages := heap_pages p + ?n\<rparr>"
  have "grow_heap delta (p, vs) = returns (Inr (heap_base p, 4096 * (heap_pages p + ?n)), ?p, vs')"
    unfolding grow_heap_def Let_def split n(1) s z e(1) using room a(1,2) by (simp add: put_proc_def succeed_def)
  moreover have "proc_heap_ok ?p vs'"
  proof -
    have "geometry (phys (kern vs')) = geometry (phys (kern vs))" using a(4) unfolding added_def by blast
    then have "is_valid (phys (kern vs')) = is_valid (phys (kern vs))" by (rule geometry_fields)
    moreover have "heap_end p + 4096 * length fs \<le> stack_top p" "fs \<noteq> []" using room a(3) n(3) by auto
    ultimately show ?thesis using heap_ok_added [OF ok a(4) entry_flags_plain] a(3) by simp
  qed
  ultimately show ?thesis using a(3,4) by (intro exI [of _ fs] exI [of _ p1] exI [of _ ?p] exI [of _ vs']) simp
qed

section \<open>Shrinking\<close>

lemma div_between: "(a \<le> u div 4096 \<and> u div 4096 < b) \<longleftrightarrow> (4096 * a \<le> u \<and> u < 4096 * b)"
  for a b u :: nat
  using less_eq_div_iff_mult_less_eq [of 4096 a u] div_less_iff_less_mult [of 4096 u b] by (simp add: mult.commute)

lemma top_pages:
  assumes ok: "proc_heap_ok p vs" and k: "k \<le> heap_pages p"
  defines "L \<equiv> map (\<lambda>i. heap_base p + 4096 * (heap_pages p - 1 - i)) [0..<k]"
  shows "map (\<lambda>i. uadd (heap_base p) (umul (usub (usub (heap_pages p) 1) i) 4096)) [0..<k] = L"
    and "distinct (map (\<lambda>v. v div 4096) L)"
    and "v \<in> set L \<Longrightarrow> user_addr v \<and> covers (heap_base p) (heap_pages p) v"
    and "u div 4096 \<in> (\<lambda>v. v div 4096) ` set L \<longleftrightarrow> covers (heap_base p + 4096 * (heap_pages p - k)) k u"
proof -
  let ?h = "heap_pages p"
  note e = heap_exact [OF ok] and h = proc_heap_okD [OF ok]
  obtain q where q: "heap_base p = 4096 * q" using h(2) by auto
  have x: "uadd (heap_base p) (umul (usub (usub ?h 1) i) 4096) = heap_base p + 4096 * (?h - 1 - i)" if "i < k" for i
  proof -
    have "usub (usub ?h 1) i = ?h - 1 - i" using that k by (simp add: usub_exact)
    moreover have "4096 * (?h - 1 - i) + heap_base p < usize_span" using e(2) by (simp add: heap_end_def)
    ultimately show ?thesis by (simp add: umul_exact uadd_exact mult.commute)
  qed
  then show "map (\<lambda>i. uadd (heap_base p) (umul (usub (usub ?h 1) i) 4096)) [0..<k] = L" by (simp add: L_def)
  have dv: "(heap_base p + 4096 * (?h - 1 - i)) div 4096 = q + (?h - 1 - i)" for i by (simp add: q)
  have m: "map (\<lambda>v. v div 4096) L = map (\<lambda>i. q + (?h - 1 - i)) [0..<k]" by (simp only: L_def map_map o_def dv)
  show "distinct (map (\<lambda>v. v div 4096) L)"
    unfolding m distinct_map using k by (auto simp: inj_on_def)
  show "user_addr v \<and> covers (heap_base p) ?h v" if "v \<in> set L"
    using that k h(3) e(2) by (auto simp: L_def user_addr_def covers_def heap_end_def)
  have "(\<lambda>v. v div 4096) ` set L = (\<lambda>i. q + (?h - 1 - i)) ` {..<k}"
    using m by (metis atLeast_upt image_set lessThan_atLeast0 list.set_map set_upt)
  also have "\<dots> = {q + (?h - k)..<q + ?h}"
  proof (intro equalityI subsetI)
    fix y
    assume "y \<in> {q + (?h - k)..<q + ?h}"
    then have "y = q + (?h - 1 - (q + ?h - 1 - y))" "q + ?h - 1 - y < k" using k by auto
    then show "y \<in> (\<lambda>i. q + (?h - 1 - i)) ` {..<k}" by blast
  qed (use k in auto)
  finally have s: "(\<lambda>v. v div 4096) ` set L = {q + (?h - k)..<q + ?h}" .
  have a: "4096 * (q + (?h - k)) = heap_base p + 4096 * (?h - k)" "4096 * (q + ?h) = heap_base p + 4096 * (?h - k) + 4096 * k"
  proof -
    obtain r where r: "?h = r + k" using k by (metis le_add_diff_inverse2)
    show "4096 * (q + (?h - k)) = heap_base p + 4096 * (?h - k)" by (simp only: q distrib_left)
    show "4096 * (q + ?h) = heap_base p + 4096 * (?h - k) + 4096 * k" by (simp only: r q distrib_left add.assoc diff_add_inverse2)
  qed
  have "u div 4096 \<in> {q + (?h - k)..<q + ?h} \<longleftrightarrow> 4096 * (q + (?h - k)) \<le> u \<and> u < 4096 * (q + ?h)"
    unfolding atLeastLessThan_iff by (rule div_between)
  then show "u div 4096 \<in> (\<lambda>v. v div 4096) ` set L \<longleftrightarrow> covers (heap_base p + 4096 * (?h - k)) k u"
    unfolding s covers_def a .
qed

text \<open>The frames under a range of pages.\<close>

definition frames_under :: "'f address_space \<Rightarrow> 'f vspace \<Rightarrow> usize \<Rightarrow> nat \<Rightarrow> nat set" where
  "frames_under p vs v n = {frame_of (entry_base e) | e u. covers v n u \<and> user_entry_of p vs u = Some e}"

lemma frames_under_pages:
  assumes ok: "proc_heap_ok p vs" and k: "k \<le> heap_pages p"
  shows "frame_of ` entries_of (vmap p) (machine_of vs) (map (\<lambda>i. heap_base p + 4096 * (heap_pages p - 1 - i)) [0..<k])
    = frames_under p vs (heap_base p + 4096 * (heap_pages p - k)) k" (is "?L = ?R")
proof -
  let ?P = "map (\<lambda>i. heap_base p + 4096 * (heap_pages p - 1 - i)) [0..<k]"
  note t = top_pages [OF ok k]
  have same: "user_entry_of p vs u = user_entry_of p vs v" if "u div 4096 = v div 4096" "user_addr u" "user_addr v" for u v
    using same_page_index [OF that(2,3)] that(1) by (simp add: page_entry_leaf)
  have cov: "covers (heap_base p) (heap_pages p) u \<and> user_addr u" if "covers (heap_base p + 4096 * (heap_pages p - k)) k u" for u
    using that k heap_exact(2) [OF ok] proc_heap_okD(3) [OF ok] by (auto simp: covers_def user_addr_def heap_end_def)
  show ?thesis
  proof (intro equalityI subsetI)
    fix y
    assume "y \<in> ?L"
    then obtain v where v: "v \<in> set ?P" "y = frame_of (entry_base (the (user_entry_of p vs v)))"
      unfolding entries_of_def by blast
    obtain e where "user_entry_of p vs v = Some e" using proc_heap_okD(7) [OF ok] t(3) [OF v(1)] by blast
    moreover have "covers (heap_base p + 4096 * (heap_pages p - k)) k v" using t(4) [of v] v(1) by blast
    ultimately show "y \<in> ?R" unfolding frames_under_def
      using v(2) by (intro CollectI exI [of _ "the (user_entry_of p vs v)"] exI [of _ v]) simp
  next
    fix y
    assume "y \<in> ?R"
    then obtain u e where u: "covers (heap_base p + 4096 * (heap_pages p - k)) k u" "user_entry_of p vs u = Some e"
      "y = frame_of (entry_base e)" unfolding frames_under_def by blast
    have "u div 4096 \<in> (\<lambda>v. v div 4096) ` set ?P" by (rule t(4) [THEN iffD2, OF u(1)])
    then obtain v where v: "v \<in> set ?P" "u div 4096 = v div 4096" by (rule imageE)
    have "user_entry_of p vs v = Some e" using same [OF v(2)] cov [OF u(1)] t(3) [OF v(1)] u(2) by simp
    then have "entry_base e = entry_base (the (user_entry_of p vs v))" by simp
    then show "y \<in> ?L" unfolding entries_of_def u(3) using v(1) by (intro imageI image_eqI [of _ _ v])
  qed
qed

lemma shrink_heap_ok:
  assumes ok: "proc_heap_ok p vs" and k: "delta div 4096 \<le> heap_pages p"
  defines "k \<equiv> delta div 4096"
  shows "\<exists>p1 p' vs'. shrink_heap delta (p, vs) = returns (Inr (heap_base p, 4096 * (heap_pages p - k)), p', vs')
    \<and> p' = p1\<lparr>heap_pages := heap_pages p - k\<rparr> \<and> p1 = p\<lparr>vmap := vmap p1\<rparr> \<and> proc_heap_ok p' vs'
    \<and> free_frames_of vs' = frames_under p vs (heap_base p + 4096 * (heap_pages p - k)) k \<union> free_frames_of vs
    \<and> pool_of p' vs' = frames_under p vs (heap_base p + 4096 * (heap_pages p - k)) k \<union> pool_of p vs
    \<and> processes vs' = processes vs \<and> kern vs' = (kern vs)\<lparr>phys := phys (kern vs')\<rparr>
    \<and> (\<forall>u. user_addr u \<longrightarrow> user_entry_of p' vs' u =
         (if covers (heap_base p + 4096 * (heap_pages p - k)) k u then None else user_entry_of p vs u))"
proof -
  let ?P = "map (\<lambda>i. heap_base p + 4096 * (heap_pages p - 1 - i)) [0..<k]" and ?v = "heap_base p + 4096 * (heap_pages p - k)"
  have k': "k \<le> heap_pages p" using k by (simp add: k_def)
  note t = top_pages [OF ok k'] and h = proc_heap_okD [OF ok] and ex = heap_exact [OF ok]
  have ua: "\<forall>v \<in> set ?P. user_addr v" using t(3) by blast
  have en: "\<forall>v \<in> set ?P. \<exists>e. user_entry_of p vs v = Some e \<and> is_valid (phys (kern vs)) (entry_base e)
      \<and> frame_of (entry_base e) \<notin> pool_of p vs" using t(3) h(7) by blast
  obtain p1 vs1 where r: "release_pages ?P (p, vs) = (p1, vs1)" "p1 = p\<lparr>vmap := vmap p1\<rparr>" "pdpt0_base (vmap p1) = pdpt0_base (vmap p)"
    "space_ok p1 vs1" "pool_of p1 vs1 = frames_under p vs ?v k \<union> pool_of p vs"
    "free_frames_of vs1 = frames_under p vs ?v k \<union> free_frames_of vs"
    "processes vs1 = processes vs" "kern vs1 = (kern vs)\<lparr>phys := phys (kern vs1)\<rparr>" "geometry (phys (kern vs1)) = geometry (phys (kern vs))"
    "\<And>u. user_addr u \<Longrightarrow> user_entry_of p1 vs1 u = (if covers ?v k u then None else user_entry_of p vs u)"
    using release_pages_ok [OF h(1) t(2) ua en] unfolding frames_under_pages [OF ok k'] t(4) by blast
  obtain m where m: "p1 = p\<lparr>vmap := m\<rparr>" using r(2) by blast
  let ?p = "p1\<lparr>heap_pages := heap_pages p - k\<rparr>"
  have f: "heap_base ?p = heap_base p" "stack_top ?p = stack_top p" "vmap ?p = vmap p1" "heap_end ?p = ?v"
    "heap_pages p1 = heap_pages p" "heap_base p1 = heap_base p" by (simp_all add: m heap_end_def)
  have "usub (heap_pages p) k = heap_pages p - k" "umul (heap_pages p - k) 4096 = 4096 * (heap_pages p - k)"
    using k' ex(3) by (simp_all add: usub_exact umul_exact)
  then have run: "shrink_heap delta (p, vs) = returns (Inr (heap_base p, 4096 * (heap_pages p - k)), ?p, vs1)"
    unfolding shrink_heap_def Let_def split k_def [symmetric] t(1) r(1) using k' f by (simp add: succeed_def)
  have low: "covers (heap_base p) (heap_pages p) u \<and> \<not> covers ?v k u \<and> user_addr u"
    if "covers (heap_base p) (heap_pages p - k) u" for u
    using that k' ex(2) h(3) by (auto simp: covers_def user_addr_def heap_end_def)
  have valid: "is_valid (phys (kern vs1)) = is_valid (phys (kern vs))" by (rule geometry_fields [OF r(9)])
  have "proc_heap_ok ?p vs1"
    unfolding proc_heap_ok_def f
  proof (intro conjI allI impI)
    show "space_ok p1 vs1" by (rule r)
    show "heap_base p mod 4096 = 0" "MIN_VIRTUAL_USER \<le> heap_base p" "stack_top p \<le> MAX_USTACK_VIRTUAL" by (rule h)+
    show "?v \<le> stack_top p" using h(4) k' by (simp add: heap_end_def)
    show "user_entry_of p1 vs1 u = None" if u: "?v \<le> u \<and> u \<le> stack_top p" for u
    proof -
      have "user_addr u" using u h(3,5) by (simp add: user_addr_def)
      moreover have "covers ?v k u \<or> heap_end p \<le> u" using u k' by (auto simp: covers_def heap_end_def)
      ultimately show ?thesis using r(10) h(6) u by auto
    qed
    show "\<exists>e. user_entry_of p1 vs1 u = Some e \<and> is_valid (phys (kern vs1)) (entry_base e) \<and> frame_of (entry_base e) \<notin> pool_of p1 vs1"
      if "covers (heap_base p) (heap_pages ?p) u" for u
    proof -
      have c: "covers (heap_base p) (heap_pages p - k) u" using that by simp
      note lo = low [OF c]
      obtain e where e: "user_entry_of p vs u = Some e" "is_valid (phys (kern vs)) (entry_base e)" "frame_of (entry_base e) \<notin> pool_of p vs"
        using h(7) lo by blast
      have "frame_of (entry_base e) \<notin> frames_under p vs ?v k"
      proof
        assume "frame_of (entry_base e) \<in> frames_under p vs ?v k"
        then obtain e' w where w: "covers ?v k w" "user_entry_of p vs w = Some e'" "frame_of (entry_base e) = frame_of (entry_base e')"
          unfolding frames_under_def by auto
        have "entry_base e = entry_base e'" using w(3) frame_inject by simp
        moreover have "covers (heap_base p) (heap_pages p) w" using w(1) k' by (auto simp: covers_def)
        ultimately have "u div 4096 = w div 4096" using h(8) [of u w] lo e(1) w(2) by simp
        moreover have "u < ?v" "?v \<le> w" using c w(1) by (auto simp: covers_def)
        moreover have "?v mod 4096 = 0" using h(2) by (simp add: mod_add_eq [symmetric])
        ultimately show False by (metis not_same_page)
      qed
      then show ?thesis using e lo r(5,10) valid by simp
    qed
    show "u div 4096 = w div 4096" if c: "covers (heap_base p) (heap_pages ?p) u \<and> covers (heap_base p) (heap_pages ?p) w
      \<and> map_option entry_base (user_entry_of p1 vs1 u) = map_option entry_base (user_entry_of p1 vs1 w)" for u w
    proof -
      have "covers (heap_base p) (heap_pages p - k) u" "covers (heap_base p) (heap_pages p - k) w" using c by simp_all
      then show ?thesis using low [of u] low [of w] c r(10) h(8) [of u w] by simp
    qed
  qed
  moreover have "user_entry_of ?p vs1 u = (if covers ?v k u then None else user_entry_of p vs u)" if "user_addr u" for u
    unfolding f using r(10) [OF that] .
  moreover have "pool_of ?p vs1 = frames_under p vs ?v k \<union> pool_of p vs" unfolding f by (rule r(5))
  ultimately show ?thesis using run r(2,6-8) by blast
qed

end
