(* ===== verification/Address_Stack.thy ===== *)
theory Address_Stack
  imports Address_Heap
begin

text \<open>
  Growth of a user stack by a page fault, and a program that fails to load.
\<close>

section \<open>Stack\<close>

definition stack_low :: "user_task \<Rightarrow> usize" where
  "stack_low u = ustack_base u + 1 - 4096 * ustack_pages u"

definition stack_shape :: "user_task \<Rightarrow> bool" where
  "stack_shape u \<longleftrightarrow> (ustack_base u + 1) mod 4096 = 0 \<and> ustack_base u < 2 ^ 39 \<and> ustack_pages u \<le> ustack_max_pages u
     \<and> ustack_pages u mod 4 = 0 \<and> ustack_max_pages u mod 4 = 0
     \<and> MIN_VIRTUAL_USER + 4096 * ustack_max_pages u \<le> ustack_base u"

definition stack_limit :: "user_task \<Rightarrow> usize" where
  "stack_limit u = ustack_base u + 1 - 4096 * ustack_max_pages u"

text \<open>The pages the handler adds for a fault at \<open>a\<close>: the distance in steps of four pages.\<close>

definition extra_pages :: "user_task \<Rightarrow> usize \<Rightarrow> nat" where
  "extra_pages u a = 4 * ((stack_low u - a + 16383) div 16384)"

lemma stack_exact:
  assumes "stack_shape u"
  shows "ustack_top u = stack_low u" "usub (uadd (ustack_base u) 1) (umul (ustack_max_pages u) 4096) = stack_limit u"
    "stack_limit u \<le> stack_low u" "stack_low u \<le> 2 ^ 39" "MIN_VIRTUAL_USER \<le> stack_limit u" "stack_low u mod 4096 = 0"
    "stack_limit u + 4096 * (ustack_max_pages u - ustack_pages u) = stack_low u" "ustack_max_pages u < 2 ^ 27"
proof -
  let ?b = "ustack_base u" and ?n = "ustack_pages u" and ?m = "ustack_max_pages u"
  have s: "?b < 2 ^ 39" "?n \<le> ?m" "MIN_VIRTUAL_USER + 4096 * ?m \<le> ?b" using assms by (simp_all add: stack_shape_def)
  then have m: "4096 * ?m \<le> ?b" "4096 * ?n \<le> ?b" by linarith+
  show "?m < 2 ^ 27" using m(1) s(1) by simp
  have "usub ?b (umul ?n 4096) = ?b - 4096 * ?n" using m s(1) by (simp add: usub_exact umul_exact mult.commute)
  then show "ustack_top u = stack_low u" using m s(1) by (simp add: ustack_top_def stack_low_def uadd_exact)
  show "usub (uadd ?b 1) (umul ?m 4096) = stack_limit u"
    using m s(1) by (simp add: stack_limit_def usub_exact umul_exact uadd_exact mult.commute)
  show "stack_limit u \<le> stack_low u" using s(2) by (simp add: stack_limit_def stack_low_def)
  show "stack_low u \<le> 2 ^ 39" using s(1) by (simp add: stack_low_def)
  show "MIN_VIRTUAL_USER \<le> stack_limit u" using s(3) by (simp add: stack_limit_def)
  obtain q where q: "?b + 1 = 4096 * q" using assms by (auto simp: stack_shape_def)
  have "stack_low u = 4096 * (q - ?n)" by (simp only: stack_low_def q diff_mult_distrib2)
  then show "stack_low u mod 4096 = 0" by simp
  show "stack_limit u + 4096 * (?m - ?n) = stack_low u"
    using s(2) m(1) by (simp add: stack_limit_def stack_low_def diff_mult_distrib2)
qed

lemma extra_pages_fit:
  assumes u: "stack_shape u" and a: "stack_limit u < a" "a < stack_low u"
  shows "ustack_pages u + extra_pages u a \<le> ustack_max_pages u" "0 < extra_pages u a"
    "stack_low u - 4096 * extra_pages u a \<le> a" "4096 * extra_pages u a \<le> stack_low u"
    "umul (div_round_up (usub (ustack_top u) a) (umul 4096 4)) 4 = extra_pages u a"
proof -
  note e = stack_exact [OF u]
  obtain k where k: "ustack_max_pages u - ustack_pages u = 4 * k"
  proof -
    have "4 dvd ustack_max_pages u - ustack_pages u" using u by (simp add: stack_shape_def mod_eq_0_iff_dvd)
    then show ?thesis using that by (auto elim: dvdE)
  qed
  let ?d = "stack_low u - a"
  have d: "?d \<le> 16384 * k" "0 < ?d" using a e(7) k by simp_all
  have "(?d + 16383) div 16384 \<le> (16384 * k + 16383) div 16384" by (rule div_le_mono) (use d(1) in simp)
  also have "\<dots> = k" by simp
  finally have x: "extra_pages u a \<le> 4 * k" by (simp add: extra_pages_def)
  have "ustack_pages u \<le> ustack_max_pages u" using u by (simp add: stack_shape_def)
  then show "ustack_pages u + extra_pages u a \<le> ustack_max_pages u" using k x by linarith
  have "1 \<le> (?d + 16383) div 16384" using d(2) by (simp add: less_eq_div_iff_mult_less_eq)
  then show "0 < extra_pages u a" by (simp add: extra_pages_def)
  have "?d \<le> 16384 * ((?d + 16383) div 16384)"
    using mult_div_mod_eq [of 16384 "?d + 16383"] mod_less_divisor [of 16384 "?d + 16383"] by linarith
  then have "?d \<le> 4096 * extra_pages u a" by (simp add: extra_pages_def)
  then show "stack_low u - 4096 * extra_pages u a \<le> a" by simp
  have "4096 * extra_pages u a \<le> 4096 * (4 * k)" using x by simp
  then show "4096 * extra_pages u a \<le> stack_low u" using e(7) k by simp
  have "usub (ustack_top u) a = ?d" using a(2) by (simp add: e(1) usub_exact)
  moreover have "umul 4096 4 = 16384" by (simp add: umul_exact)
  moreover have "?d < 2 ^ 40" using e(4) by simp
  then have "div_round_up ?d 16384 = (?d + 16383) div 16384" by (simp add: div_round_up_def uadd_exact usub_exact)
  moreover have "umul ((?d + 16383) div 16384) 4 = extra_pages u a"
  proof -
    have "(?d + 16383) div 16384 \<le> ?d + 16383" by simp
    then have "(?d + 16383) div 16384 * 4 < usize_span" using \<open>?d < 2 ^ 40\<close> by simp
    then show ?thesis by (simp add: umul_exact extra_pages_def)
  qed
  ultimately show "umul (div_round_up (usub (ustack_top u) a) (umul 4096 4)) 4 = extra_pages u a" by simp
qed

lemma find_update_child:
  "find (\<lambda>u. ut_tid u = tid) us = Some u \<Longrightarrow> (\<And>u. ut_tid (f u) = ut_tid u) \<Longrightarrow>
    find (\<lambda>u. ut_tid u = tid) (update_child tid f us) = Some (f u)"
  by (induction us) (auto split: if_splits)

lemma expand_stack_ok:
  assumes ok: "space_ok p vs" and find: "find (\<lambda>u. ut_tid u = tid) (children p) = Some u" and u: "stack_shape u"
    and n: "0 < n" "ustack_pages u + n \<le> ustack_max_pages u"
    and room: "heap_end p + 4096 * (ustack_pages u + n) < stack_top p" "stack_top p < 2 ^ 39"
    and mem: "3 * n \<le> card (free_frames_of vs)"
    and none: "\<And>w. stack_low u - 4096 * n \<le> w \<Longrightarrow> w < stack_low u \<Longrightarrow> user_entry_of p vs w = None"
  shows "\<exists>fs p1 p' vs'. expand_stack tid n (p, vs) = returns (Inr (), p', vs') \<and> length fs = n
    \<and> p' = p1\<lparr>children := update_child tid (\<lambda>u. u\<lparr>ustack_pages := uadd (ustack_pages u) n\<rparr>) (children p)\<rparr>
    \<and> added (stack_low u - 4096 * n) fs (entry_flags False True False Normal) p vs p1 vs'"
proof -
  note e = stack_exact [OF u]
  let ?v = "stack_low u - 4096 * n"
  have nn: "4096 * n \<le> stack_low u" "4096 * n \<le> 4096 * (ustack_max_pages u - ustack_pages u)" using n(2) e(7) by linarith+
  have m: "ustack_pages u + n < 2 ^ 27" using n(2) e(8) by simp
  have hp: "heap_end p < 2 ^ 39" "heap_pages p < 2 ^ 27" "heap_base p < 2 ^ 39" using room by (simp_all add: heap_end_def)
  have x: "uadd (ustack_pages u) n = ustack_pages u + n" "umul (ustack_pages u + n) 4096 = 4096 * (ustack_pages u + n)"
    "umul n 4096 = 4096 * n" "usub (ustack_top u) (4096 * n) = ?v"
    using m nn(1) by (simp_all add: uadd_exact umul_exact usub_exact e(1) mult.commute)
  have y: "usub (stack_top p) (4096 * (ustack_pages u + n)) = stack_top p - 4096 * (ustack_pages u + n)"
    using room(1) by (simp add: usub_exact)
  have z: "uadd (heap_base p) (umul (heap_pages p) 4096) = heap_end p"
    using hp by (simp add: heap_end_def uadd_exact umul_exact mult.commute)
  have al: "?v mod 4096 = 0"
  proof -
    obtain q where q: "stack_low u = 4096 * q" using e(6) by auto
    show ?thesis unfolding q by (simp only: diff_mult_distrib2 [symmetric] mod_mult_self1_is_0)
  qed
  have lo: "MIN_VIRTUAL_USER \<le> ?v" using e(5,7) nn(2) by linarith
  have hi: "?v + 4096 * n \<le> 2 ^ 39" using nn(1) e(4) by simp
  have un: "user_entry_of p vs w = None" if "covers ?v n w" for w using none [of w] that nn(1) by (simp add: covers_def)
  obtain fs vs1 p1 vs' where a: "alloc_pages n (p, vs) = returns (Inr fs, p, vs1)"
    "map_frames ?v fs True False (p, vs1) = returns (Inr (), p1, vs')" "length fs = n"
    "added ?v fs (entry_flags False True False Normal) p vs p1 vs'"
    using alloc_map [OF ok al lo hi n(1) mem un] by blast
  have "children p1 = children p" using a(4) unfolding added_def by (metis address_space.select_convs(10) address_space.surjective address_space.update_convs(4))
  moreover have "\<not> ustack_pages u + n > ustack_max_pages u" "\<not> stack_top p - 4096 * (ustack_pages u + n) \<le> heap_end p"
    using n(2) room(1) by simp_all
  ultimately have "expand_stack tid n (p, vs) = returns (Inr (),
      p1\<lparr>children := update_child tid (\<lambda>u. u\<lparr>ustack_pages := uadd (ustack_pages u) n\<rparr>) (children p)\<rparr>, vs')"
    unfolding expand_stack_def split find option.case Let_def x(1) x(2) y z x(3) x(4) using a(1,2) by (simp add: put_proc_def succeed_def)
  then show ?thesis using a(3,4) by blast
qed

end
