(* ===== verification/Address_Props.thy ===== *)
theory Address_Props
  imports Address_Stack Mmu_Props
begin

text \<open>
  The properties of processes: resizing the heap, growing a stack on a page fault, and what a
  failed load leaves behind. The demonstration state has one CPU whose current task belongs to
  process 7, on the paging structures of \<open>Mmu_Props\<close>.
\<close>

section \<open>A concrete process\<close>

definition demo_bitmap :: frames_bitmap where
  "demo_bitmap = \<lparr>total_frames = 32, free_frames = 25, first_phys_addr = 0,
     last_phys_addr = 131071, bm_base = 0, bm_size = 8, red_zone_start = 0,
     red_zone_end = 4095, bm_words = (\<lambda>_. 0)(0 := 0xFFFFFF80)\<rparr>"

lemma demo_bitmap_free: "free_set demo_bitmap = {7..31}"
proof -
  have s: "frame_span demo_bitmap = 32" by (simp add: frame_span_def demo_bitmap_def)
  have "frame_free demo_bitmap k \<longleftrightarrow> 7 \<le> k" if "k < 32" for k
  proof -
    have "k \<in> set [0..<32]" using that by simp
    then show ?thesis by (auto simp: upt_rec frame_free_def demo_bitmap_def)
  qed
  then show ?thesis unfolding free_set_def s by auto
qed

lemma demo_bitmap_ok: "pmm_ok demo_bitmap"
proof -
  have "pmm_geom_ok demo_bitmap" by (simp add: pmm_geom_ok_def span_ok_def demo_bitmap_def)
  moreover have "free_frames demo_bitmap = card (free_set demo_bitmap)"
    unfolding demo_bitmap_free by (simp add: demo_bitmap_def)
  moreover have "\<forall>k \<in> free_set demo_bitmap. \<not> in_red_zone demo_bitmap k"
    unfolding demo_bitmap_free by (auto simp: in_red_zone_def demo_bitmap_def)
  ultimately show ?thesis by (simp add: pmm_ok_def)
qed

definition demo_user_kernel :: kernel where
  "demo_user_kernel = \<lparr>cpu = (\<lambda>c. \<lparr>curr_tid = 1, task_pool = [(1, task_new\<lparr>t_tid := 1, t_pid := 7, t_state := Running\<rparr>)],
     sched = FirstComeFirstServe \<lparr>fcfs_queue = [1]\<rparr>\<rparr>), default_kstack_size = 4096, next_task_id = 2,
     msg_queue = [], tid_cpu_map = [(1, 0)], lbal = [], phys = demo_bitmap\<rparr>"

definition demo_stack :: user_task where
  "demo_stack = \<lparr>ut_tid = 1, user_sp = 0x7F00000000, ustack_base = MAX_USTACK_VIRTUAL, ustack_pages = 4, ustack_max_pages = 4096\<rparr>"

definition demo_process :: "nat address_space" where
  "demo_process = proc_new\<lparr>as_pid := 7, vmap := demo_map, img_pages := 1, heap_base := 0x200002000,
     stack_top := MAX_USTACK_VIRTUAL - 4096 * 4096, children := [demo_stack]\<rparr>"

definition demo_vspace :: "nat vspace" where
  "demo_vspace = \<lparr>processes = [(7, demo_process)], next_pid = 8, kern = demo_user_kernel, memory = demo_ram\<rparr>"

lemma demo_machine_of: "machine_of demo_vspace = demo_machine\<lparr>frames := demo_bitmap\<rparr>"
  by (simp add: machine_of_def demo_vspace_def demo_user_kernel_def demo_machine_def)

lemma demo_space_ok: "space_ok demo_process demo_vspace"
proof -
  have "nodes (pdpt0_base demo_map) demo_machine \<subseteq> {4096, 8192, 12288}"
    using demo_node by (auto simp: nodes_def demo_map_def)
  then have nn: "frame_of b \<notin> free_set demo_bitmap" if "b \<in> nodes (pdpt0_base demo_map) demo_machine" for b
    using that unfolding demo_bitmap_free by auto
  have l: "last_phys_addr demo_bitmap < 2 ^ 40" by (simp add: demo_bitmap_def)
  have "tables_ok (pdpt0_base demo_map) (demo_machine\<lparr>frames := demo_bitmap\<rparr>)"
    by (rule tables_ok_frames [OF demo_tables_ok demo_bitmap_ok l nn])
  then show ?thesis unfolding demo_machine_of by (simp add: demo_process_def)
qed

lemma demo_user_entry: "user_addr v \<Longrightarrow> user_entry_of demo_process demo_vspace v =
    (if v div 4096 = 2097152 then Some 0x4007 else if v div 4096 = 2097153 then Some 0x5007 else None)"
  unfolding demo_machine_of using demo_page by (simp add: demo_process_def)

lemma demo_gap:
  assumes "0x200002000 \<le> u" and "u < 2 ^ 39"
  shows "user_entry_of demo_process demo_vspace u = None"
proof -
  have "user_addr u" "2097154 \<le> u div 4096"
    using assms by (auto simp: user_addr_def less_eq_div_iff_mult_less_eq)
  then show ?thesis by (simp add: demo_user_entry)
qed

lemma demo_state:
  "current_pid 0 (kern demo_vspace) = returns 7" "bt_get (processes demo_vspace) 7 = Some demo_process"
  "curr_tid (cpu (kern demo_vspace) 0) = 1" "free_frames_of demo_vspace = {7..31}"
  "phys (kern demo_vspace) = demo_bitmap"
  "heap_end demo_process = 0x200002000" "stack_top demo_process = 0x7EFEFFFFFF" "heap_pages demo_process = 0"
  "heap_base demo_process = 0x200002000"
  "find (\<lambda>u. ut_tid u = 1) (children demo_process) = Some demo_stack"
  using demo_bitmap_free
  by (simp_all add: current_pid_def demo_vspace_def demo_user_kernel_def heap_end_def demo_process_def demo_stack_def proc_new_def)

lemma demo_proc_heap_ok: "proc_heap_ok demo_process demo_vspace"
  unfolding proc_heap_ok_def demo_state
proof (intro conjI allI impI)
  show "space_ok demo_process demo_vspace" by (rule demo_space_ok)
  show "user_entry_of demo_process demo_vspace u = None" if "(0x200002000 :: nat) \<le> u \<and> u \<le> 0x7EFEFFFFFF" for u
    using that by (intro demo_gap) auto
qed (auto simp: covers_def)

section \<open>Properties\<close>

text \<open>C22. Growing the heap of the current process by \<open>d\<close> bytes, \<open>n\<close> pages when rounded up, from a
  state with the heap invariant (every page backed by a frame of its own, outside the free frames and
  the tables; the gap to the stacks unmapped). Two cases are settled. (1) When the heap would reach the
  stacks, or fewer than \<open>n\<close> frames are free, the call is refused with OutOfMemory and nothing
  changes. (2) When there is room and at least \<open>3 * n\<close> frames are free, which is enough for the pages
  and for any page tables they need, it succeeds: the base and the new size are returned, \<open>n\<close> distinct
  fresh frames are mapped writable and not executable right after the old end, no other user page
  changes, and the invariant holds again. With room and between \<open>n\<close> and \<open>3 * n\<close> free frames nothing
  is claimed: the mapping may panic for lack of a frame for a page table.\<close>

theorem heap_grows:
  assumes cur: "current_pid c (kern vs) = returns pid" "bt_get (processes vs) pid = Some p"
    and ok: "proc_heap_ok p vs" and d: "0 < d" "d < 2 ^ 63"
  defines "n \<equiv> (nat d + 4095) div 4096"
  shows "(stack_top p \<le> heap_end p + 4096 * n \<or> card (free_frames_of vs) < n \<longrightarrow>
      resize_heap c d vs = returns (Inl OutOfMemory, vs\<lparr>processes := bt_insert pid p (processes vs)\<rparr>))
    \<and> (heap_end p + 4096 * n < stack_top p \<and> 3 * n \<le> card (free_frames_of vs) \<longrightarrow>
      (\<exists>fs p' vs'. resize_heap c d vs = returns (Inr (heap_base p, 4096 * (heap_pages p + n)), vs')
        \<and> bt_get (processes vs') pid = Some p' \<and> proc_heap_ok p' vs' \<and> heap_pages p' = heap_pages p + n
        \<and> length fs = n \<and> distinct fs \<and> frame_of ` set fs \<subseteq> free_frames_of vs
        \<and> (\<forall>u. user_addr u \<longrightarrow> user_entry_of p' vs' u =
             (if covers (heap_end p) n u
              then Some (of_nat (fs ! ((u - heap_end p) div 4096)) OR entry_flags False True False Normal)
              else user_entry_of p vs u))))"
proof -
  have nd: "0 < nat d" "nat d < 2 ^ 63" using d by (simp_all add: nat_less_iff)
  have run: "resize_heap c d vs = and_then (grow_heap (nat d) (p, vs)) (\<lambda>(r, p', vs').
      returns (r, vs'\<lparr>processes := bt_insert pid p' (processes vs')\<rparr>))"
    using d(1) cur by (simp add: resize_heap_def in_current_process_def with_process_def)
  have refused: "stack_top p \<le> heap_end p + 4096 * n \<or> card (free_frames_of vs) < n \<longrightarrow>
      resize_heap c d vs = returns (Inl OutOfMemory, vs\<lparr>processes := bt_insert pid p (processes vs)\<rparr>)"
    unfolding run n_def using grow_heap_refused [OF ok nd] by auto
  show ?thesis
  proof (intro conjI refused impI)
    assume a: "heap_end p + 4096 * n < stack_top p \<and> 3 * n \<le> card (free_frames_of vs)"
    obtain fs p1 p' vs' where g: "grow_heap (nat d) (p, vs) = returns (Inr (heap_base p, 4096 * (heap_pages p + length fs)), p', vs')"
      "length fs = n" "p' = p1\<lparr>heap_pages := heap_pages p + length fs\<rparr>"
      "added (heap_end p) fs (entry_flags False True False Normal) p vs p1 vs'" "proc_heap_ok p' vs'"
      using grow_heap_ok [OF ok nd] a unfolding n_def by blast
    let ?vs = "vs'\<lparr>processes := bt_insert pid p' (processes vs')\<rparr>"
    have "resize_heap c d vs = returns (Inr (heap_base p, 4096 * (heap_pages p + n)), ?vs)"
      unfolding run using g(1,2) by simp
    moreover have "proc_heap_ok p' ?vs" using g(5) unfolding proc_heap_ok_def machine_of_simps by simp
    moreover have "distinct fs" "frame_of ` set fs \<subseteq> free_frames_of vs" using g(4) unfolding added_def by blast+
    moreover have "user_entry_of p' ?vs u = (if covers (heap_end p) n u
        then Some (of_nat (fs ! ((u - heap_end p) div 4096)) OR entry_flags False True False Normal)
        else user_entry_of p vs u)" if "user_addr u" for u
      using g(4) that unfolding added_def g(2) by (simp add: g(3))
    moreover have "heap_pages p' = heap_pages p + n" by (simp add: g(2,3))
    ultimately show "\<exists>fs p' vs'. resize_heap c d vs = returns (Inr (heap_base p, 4096 * (heap_pages p + n)), vs')
        \<and> bt_get (processes vs') pid = Some p' \<and> proc_heap_ok p' vs' \<and> heap_pages p' = heap_pages p + n
        \<and> length fs = n \<and> distinct fs \<and> frame_of ` set fs \<subseteq> free_frames_of vs
        \<and> (\<forall>u. user_addr u \<longrightarrow> user_entry_of p' vs' u =
             (if covers (heap_end p) n u
              then Some (of_nat (fs ! ((u - heap_end p) div 4096)) OR entry_flags False True False Normal)
              else user_entry_of p vs u))"
      using g(2) by (intro exI [of _ fs] exI [of _ p'] exI [of _ ?vs]) simp
  qed
qed

lemma current_pid_phys: "current_pid c (k\<lparr>phys := b\<rparr>) = current_pid c k"
  by (simp add: current_pid_def)

lemma demo_grow_room:
  "heap_end demo_process + 4096 * ((nat 5000 + 4095) div 4096) < stack_top demo_process"
  "3 * ((nat 5000 + 4095) div 4096) \<le> card (free_frames_of demo_vspace)"
  unfolding demo_state demo_bitmap_free by simp_all

theorem heap_grows_witness:
  "(\<exists>vs. resize_heap 0 5000 demo_vspace = returns (Inr (0x200002000, 8192), vs))
   \<and> resize_heap 0 (2 ^ 62) demo_vspace = returns (Inl OutOfMemory, demo_vspace)"
proof
  have "\<exists>fs p' vs'. resize_heap 0 5000 demo_vspace
      = returns (Inr (heap_base demo_process, 4096 * (heap_pages demo_process + (nat 5000 + 4095) div 4096)), vs')"
    using heap_grows [OF demo_state(1,2) demo_proc_heap_ok, of 5000] demo_grow_room by auto
  then show "\<exists>vs. resize_heap 0 5000 demo_vspace = returns (Inr (0x200002000, 8192), vs)"
    unfolding demo_state by simp
  have "resize_heap 0 (2 ^ 62) demo_vspace = returns (Inl OutOfMemory, demo_vspace\<lparr>processes := bt_insert 7 demo_process (processes demo_vspace)\<rparr>)"
    using heap_grows [OF demo_state(1,2) demo_proc_heap_ok, of "2 ^ 62"] unfolding demo_state by simp
  then show "resize_heap 0 (2 ^ 62) demo_vspace = returns (Inl OutOfMemory, demo_vspace)"
    by (simp add: demo_vspace_def)
qed

lemma resize_shrink:
  assumes "current_pid c (kern vs) = returns pid" "bt_get (processes vs) pid = Some p" and "0 < n"
  shows "resize_heap c (- (4096 * int n)) vs = and_then (shrink_heap (4096 * n) (p, vs)) (\<lambda>(r, p', vs').
      returns (r, vs'\<lparr>processes := bt_insert pid p' (processes vs')\<rparr>))"
proof -
  have "nat (- (- (4096 * int n))) = 4096 * n" by simp
  moreover have "- (4096 * int n) < 0" using assms(3) by simp
  ultimately show ?thesis
    using assms(1,2) by (simp add: resize_heap_def in_current_process_def with_process_def del: minus_minus)
qed

lemma frames_under_added:
  assumes a: "added v fs fl p vs p1 vs'" and fl: "plain_flags fl" and v: "MIN_VIRTUAL_USER \<le> v" "v + 4096 * length fs \<le> 2 ^ 39"
  shows "frames_under p1 vs' v (length fs) = frame_of ` set fs"
proof (intro equalityI subsetI)
  have ua: "user_addr u" if "covers v (length fs) u" for u using that v by (simp add: covers_def user_addr_def)
  fix y
  { assume "y \<in> frames_under p1 vs' v (length fs)"
    then obtain u e where u: "covers v (length fs) u" "user_entry_of p1 vs' u = Some e" "y = frame_of (entry_base e)"
      unfolding frames_under_def by blast
    note n = added_entry [OF a fl u(1) ua [OF u(1)]]
    have "entry_base e = fs ! ((u - v) div 4096)" using n(1,2) u(2) by simp
    then show "y \<in> frame_of ` set fs" using n(3) u(3) by simp }
  { assume "y \<in> frame_of ` set fs"
    then obtain i where i: "i < length fs" "y = frame_of (fs ! i)" by (auto simp: in_set_conv_nth)
    let ?u = "v + 4096 * i"
    have c: "covers v (length fs) ?u" using i(1) by (simp add: covers_def)
    have d: "(?u - v) div 4096 = i" by simp
    note n = added_entry [OF a fl c ua [OF c], unfolded d]
    show "y \<in> frames_under p1 vs' v (length fs)"
      unfolding frames_under_def using c n(1,2) i(2)
      by (intro CollectI exI [of _ "of_nat (fs ! i) OR fl"] exI [of _ ?u]) simp }
qed

text \<open>C23. Growing the heap and shrinking it by the same number of pages: both calls succeed, the
  old size and end are back, every user page has its old entry, and exactly the frames that
  were free or tables before are free or tables again.\<close>

theorem heap_roundtrip:
  assumes cur: "current_pid c (kern vs) = returns pid" "bt_get (processes vs) pid = Some p"
    and ok: "proc_heap_ok p vs" and d: "0 < d" "d < 2 ^ 63"
    and room: "heap_end p + 4096 * ((nat d + 4095) div 4096) < stack_top p"
    and mem: "3 * ((nat d + 4095) div 4096) \<le> card (free_frames_of vs)"
  defines "n \<equiv> (nat d + 4095) div 4096"
  shows "\<exists>v1 v2 p2. resize_heap c d vs = returns (Inr (heap_base p, 4096 * (heap_pages p + n)), v1)
    \<and> resize_heap c (- (4096 * int n)) v1 = returns (Inr (heap_base p, 4096 * heap_pages p), v2)
    \<and> bt_get (processes v2) pid = Some p2 \<and> proc_heap_ok p2 v2 \<and> heap_pages p2 = heap_pages p
    \<and> pool_of p2 v2 = pool_of p vs
    \<and> (\<forall>u. user_addr u \<longrightarrow> user_entry_of p2 v2 u = user_entry_of p vs u)"
proof -
  have nd: "0 < nat d" "nat d < 2 ^ 63" using d by (simp_all add: nat_less_iff)
  have n0: "0 < n" using nd(1) by (simp add: n_def div_greater_zero_iff)
  note h = proc_heap_okD [OF ok]
  obtain fs p1 p' vs' where g: "grow_heap (nat d) (p, vs) = returns (Inr (heap_base p, 4096 * (heap_pages p + length fs)), p', vs')"
    "length fs = n" "p' = p1\<lparr>heap_pages := heap_pages p + length fs\<rparr>"
    "added (heap_end p) fs (entry_flags False True False Normal) p vs p1 vs'" "proc_heap_ok p' vs'"
    using grow_heap_ok [OF ok nd room mem] unfolding n_def by blast
  let ?v1 = "vs'\<lparr>processes := bt_insert pid p' (processes vs')\<rparr>"
  have ok1: "proc_heap_ok p' ?v1" using g(5) unfolding proc_heap_ok_def machine_of_simps by simp
  have run1: "resize_heap c d vs = returns (Inr (heap_base p, 4096 * (heap_pages p + n)), ?v1)"
    using d(1) cur g(1,2) by (simp add: resize_heap_def in_current_process_def with_process_def)
  have a: "kern vs' = (kern vs)\<lparr>phys := phys (kern vs')\<rparr>" "pool_of p1 vs' = pool_of p vs - frame_of ` set fs"
    "frame_of ` set fs \<subseteq> free_frames_of vs" "p1 = p\<lparr>vmap := vmap p1\<rparr>"
    "\<And>u. user_addr u \<Longrightarrow> user_entry_of p1 vs' u = (if covers (heap_end p) n u
       then Some (of_nat (fs ! ((u - heap_end p) div 4096)) OR entry_flags False True False Normal) else user_entry_of p vs u)"
    using g(4) unfolding added_def g(2) by blast+
  obtain m where m: "p1 = p\<lparr>vmap := m\<rparr>" using a(4) by blast
  have f: "heap_pages p' = heap_pages p + n" "heap_base p' = heap_base p" "vmap p' = vmap p1" by (simp_all add: g(2,3) m)
  have cur1: "current_pid c (kern ?v1) = returns pid"
  proof -
    have "kern ?v1 = kern vs'" by simp
    then show ?thesis using cur(1) a(1) by (metis current_pid_phys)
  qed
  have k: "4096 * n div 4096 = n" "n \<le> heap_pages p'" by (simp_all add: f(1))
  obtain p1' p2 vs2 where s: "shrink_heap (4096 * n) (p', ?v1) = returns (Inr (heap_base p', 4096 * (heap_pages p' - n)), p2, vs2)"
    "p2 = p1'\<lparr>heap_pages := heap_pages p' - n\<rparr>" "proc_heap_ok p2 vs2"
    "pool_of p2 vs2 = frames_under p' ?v1 (heap_base p' + 4096 * (heap_pages p' - n)) n \<union> pool_of p' ?v1"
    "\<And>u. user_addr u \<Longrightarrow> user_entry_of p2 vs2 u =
         (if covers (heap_base p' + 4096 * (heap_pages p' - n)) n u then None else user_entry_of p' ?v1 u)"
    using shrink_heap_ok [OF ok1, of "4096 * n"] unfolding k(1) using k(2) by blast
  have e: "heap_base p' + 4096 * (heap_pages p' - n) = heap_end p" by (simp add: f heap_end_def)
  let ?v2 = "vs2\<lparr>processes := bt_insert pid p2 (processes vs2)\<rparr>"
  have run2: "resize_heap c (- (4096 * int n)) ?v1 = returns (Inr (heap_base p, 4096 * heap_pages p), ?v2)"
  proof -
    have "bt_get (processes ?v1) pid = Some p'" by simp
    from resize_shrink [OF cur1 this n0] show ?thesis unfolding s(1) f by simp
  qed
  have "frames_under p1 vs' (heap_end p) n = frame_of ` set fs"
    using frames_under_added [OF g(4) entry_flags_plain] h(3,5) room unfolding g(2) n_def by (simp add: heap_end_def)
  then have "frames_under p' ?v1 (heap_end p) n = frame_of ` set fs" by (simp add: frames_under_def f(3))
  moreover have "pool_of p' ?v1 = pool_of p vs - frame_of ` set fs" using a(2) by (simp add: f(3))
  moreover have "frame_of ` set fs \<subseteq> pool_of p vs" using a(3) by (auto simp: table_pool_def)
  ultimately have "pool_of p2 ?v2 = pool_of p vs" using s(4) unfolding e by auto
  moreover have "proc_heap_ok p2 ?v2" using s(3) unfolding proc_heap_ok_def machine_of_simps by simp
  moreover have "user_entry_of p2 ?v2 u = user_entry_of p vs u" if u: "user_addr u" for u
  proof (cases "covers (heap_end p) n u")
    case True
    then have "user_entry_of p vs u = None" using h(6) room by (simp add: covers_def n_def)
    then show ?thesis using True s(5) [OF u] by (simp add: e)
  next
    case False
    then show ?thesis using s(5) [OF u] a(5) [OF u] by (simp add: e f(3))
  qed
  moreover have "heap_pages p2 = heap_pages p" by (simp add: s(2) f(1))
  ultimately show ?thesis
    using run1 run2 by (intro exI [of _ ?v1] exI [of _ ?v2] exI [of _ p2]) simp
qed

theorem heap_roundtrip_witness:
  "\<exists>v1 v2. resize_heap 0 5000 demo_vspace = returns (Inr (0x200002000, 8192), v1)
    \<and> resize_heap 0 (- 8192) v1 = returns (Inr (0x200002000, 0), v2)"
proof -
  have n: "(nat 5000 + 4095) div 4096 = 2" by simp
  show ?thesis
    using heap_roundtrip [OF demo_state(1,2) demo_proc_heap_ok _ _ demo_grow_room] unfolding n demo_state by auto
qed

text \<open>C24. A data fault of the current task, outside the code of the kernel and strictly
  between the limit and the mapped part of its stack, which has at least one page. It is assumed
  that the stack is a whole number of groups of four pages, as is its maximum; that the pages to be
  added are not mapped; that there are three free frames for each of them (the page and any tables);
  and that the check of \<^verbatim>\<open>expand_stack\<close> passes, which wants the whole grown
  stack to fit between the end of the heap and \<open>stack_top\<close>, the bottom of the stack
  zone, although the stack grows into pages reserved for it. Then the handler returns true; the
  stack has grown in steps of four pages so far that the faulting page is mapped, writable and not
  executable, on fresh frames; the task stays within its maximum, every other user page keeps its
  entry and the tables stay consistent.\<close>

theorem stack_fault_grows:
  assumes cur: "current_pid c (kern vs) = returns pid" "bt_get (processes vs) pid = Some p"
    and child: "find (\<lambda>u. ut_tid u = curr_tid (cpu (kern vs) c)) (children p) = Some u"
    and ok: "space_ok p vs" and u: "stack_shape u" "0 < ustack_pages u"
    and code: "\<not> (text_start \<le> a \<and> a < text_end)" and a: "stack_limit u < a" "a < stack_low u"
    and room: "heap_end p + 4096 * (ustack_pages u + extra_pages u a) < stack_top p" "stack_top p < 2 ^ 39"
    and mem: "3 * extra_pages u a \<le> card (free_frames_of vs)"
    and none: "\<forall>w. stack_low u - 4096 * extra_pages u a \<le> w \<and> w < stack_low u \<longrightarrow> user_entry_of p vs w = None"
  defines "n \<equiv> extra_pages u a" and "v \<equiv> stack_low u - 4096 * extra_pages u a"
  shows "\<exists>fs p' vs'. handle_page_fault clk c text_start text_end a False vs = returns (True, vs')
    \<and> bt_get (processes vs') pid = Some p' \<and> space_ok p' vs'
    \<and> find (\<lambda>u. ut_tid u = curr_tid (cpu (kern vs) c)) (children p') = Some (u\<lparr>ustack_pages := ustack_pages u + n\<rparr>)
    \<and> ustack_pages u + n \<le> ustack_max_pages u \<and> covers v n a
    \<and> length fs = n \<and> distinct fs \<and> frame_of ` set fs \<subseteq> free_frames_of vs
    \<and> (\<forall>w. user_addr w \<longrightarrow> user_entry_of p' vs' w =
         (if covers v n w then Some (of_nat (fs ! ((w - v) div 4096)) OR entry_flags False True False Normal)
          else user_entry_of p vs w))"
proof -
  let ?tid = "curr_tid (cpu (kern vs) c)"
  note e = stack_exact [OF u(1)] and x = extra_pages_fit [OF u(1) a]
  have un: "\<And>w. stack_low u - 4096 * n \<le> w \<Longrightarrow> w < stack_low u \<Longrightarrow> user_entry_of p vs w = None"
    using none by (simp add: n_def)
  obtain fs p1 p' vs' where r: "expand_stack ?tid n (p, vs) = returns (Inr (), p', vs')" "length fs = n"
    "p' = p1\<lparr>children := update_child ?tid (\<lambda>u. u\<lparr>ustack_pages := uadd (ustack_pages u) n\<rparr>) (children p)\<rparr>"
    "added v fs (entry_flags False True False Normal) p vs p1 vs'"
    using expand_stack_ok [OF ok child u(1) _ _ room(1,2) mem un [unfolded n_def]] x(1,2) unfolding n_def v_def by blast
  let ?vs = "vs'\<lparr>processes := bt_insert pid p' (processes vs')\<rparr>"
  have b: "a < ustack_base u" using a(2) u by (auto simp: stack_low_def)
  have "with_process pid (expand_stack ?tid n) vs = returns (Inr (), ?vs)"
    using cur(2) r(1) by (simp add: with_process_def)
  then have "handle_page_fault clk c text_start text_end a False vs = returns (True, ?vs)"
    using cur child a(1) b unfolding handle_page_fault_def Let_def if_not_P [OF code]
    by (simp add: x(5) e(2) n_def [symmetric] del: One_nat_def)
  moreover have "space_ok p1 vs'" using r(4) unfolding added_def by blast
  then have "space_ok p' ?vs" by (simp add: r(3))
  moreover have "find (\<lambda>u. ut_tid u = ?tid) (children p') = Some (u\<lparr>ustack_pages := ustack_pages u + n\<rparr>)"
  proof -
    have "uadd (ustack_pages u) n = ustack_pages u + n" using x(1) e(8) by (simp add: n_def uadd_exact)
    then show ?thesis using find_update_child [OF child, of "\<lambda>u. u\<lparr>ustack_pages := uadd (ustack_pages u) n\<rparr>"] by (simp add: r(3))
  qed
  moreover have "covers v n a" using x(3,4) a(2) by (simp add: covers_def v_def n_def)
  moreover have "distinct fs" "frame_of ` set fs \<subseteq> free_frames_of vs" using r(4) unfolding added_def by blast+
  moreover have "user_entry_of p' ?vs w = (if covers v n w then Some (of_nat (fs ! ((w - v) div 4096)) OR entry_flags False True False Normal)
          else user_entry_of p vs w)" if "user_addr w" for w
    using r(4) that unfolding added_def r(2) by (simp add: r(3))
  ultimately show ?thesis using r(2) x(1)
    by (intro exI [of _ fs] exI [of _ p'] exI [of _ ?vs]) (simp add: n_def)
qed

theorem stack_fault_grows_witness:
  "\<exists>vs. handle_page_fault (\<lambda>_. 0) 0 0x100000 0x200000 0x7EFFFFB234 False demo_vspace = returns (True, vs)"
proof -
  let ?a = "0x7EFFFFB234 :: nat"
  have s: "stack_shape demo_stack" "0 < ustack_pages demo_stack" "stack_low demo_stack = 0x7EFFFFC000"
    "stack_limit demo_stack = 0x7EFF000000"
    by (simp_all add: stack_shape_def demo_stack_def stack_low_def stack_limit_def)
  have x: "extra_pages demo_stack ?a = 4" unfolding extra_pages_def s by simp
  have p: "ustack_pages demo_stack = 4" by (simp add: demo_stack_def)
  have c: "find (\<lambda>u. ut_tid u = curr_tid (cpu (kern demo_vspace) 0)) (children demo_process) = Some demo_stack"
    unfolding demo_state(3) by (rule demo_state)
  have n: "\<forall>w. stack_low demo_stack - 4096 * extra_pages demo_stack ?a \<le> w \<and> w < stack_low demo_stack \<longrightarrow>
      user_entry_of demo_process demo_vspace w = None"
    unfolding x s by (intro allI impI demo_gap) auto
  have t: "\<not> (0x100000 \<le> ?a \<and> ?a < 0x200000)" "stack_limit demo_stack < ?a" "?a < stack_low demo_stack"
    unfolding s by simp_all
  have r: "heap_end demo_process + 4096 * (ustack_pages demo_stack + extra_pages demo_stack ?a) < stack_top demo_process"
    "stack_top demo_process < 2 ^ 39" "3 * extra_pages demo_stack ?a \<le> card (free_frames_of demo_vspace)"
    unfolding x p demo_state demo_bitmap_free by simp_all
  show ?thesis
    using stack_fault_grows [OF demo_state(1,2) c demo_space_ok s(1,2) t(1-3) r n] by blast
qed

text \<open>A program whose first segment cannot be read: the launch returns the error, but the
  frames of the image are given back while they stay mapped. The process still reaches, at the
  lowest user address, a frame that the memory manager counts as free.\<close>

theorem failed_launch_keeps_mapping:
  assumes proc: "bt_get (processes vs) pid = Some p" "children p = []" and ok: "space_ok p vs"
    and elf: "segments elf = seg # segs" "p_type seg = P_TYPE_LOAD" "0 < image_size elf" "image_size elf < 2 ^ 38"
    and load: "\<forall>dest M. load 0 dest M = (Inl err, M)"
    and mem: "3 * ((image_size elf + 4095) div 4096) \<le> card (free_frames_of vs)"
    and none: "\<forall>u. covers MIN_VIRTUAL_USER ((image_size elf + 4095) div 4096) u \<longrightarrow> user_entry_of p vs u = None"
  shows "\<exists>p' vs' a. launch_elf c pid elf load vs = returns (Inl err, vs') \<and> bt_get (processes vs') pid = Some p'
    \<and> virt_to_phys_from_map MIN_VIRTUAL_USER (vmap p') (machine_of vs') = Some a \<and> frame_of a \<in> free_frames_of vs'"
proof -
  let ?n = "(image_size elf + 4095) div 4096" and ?v = "MIN_VIRTUAL_USER"
  have n: "div_round_up (image_size elf) 4096 = ?n" using elf(4) by (intro div_round_up_pages) simp
  have n0: "0 < ?n" using elf(3) by (simp add: div_greater_zero_iff)
  have hi: "?v + 4096 * ?n \<le> 2 ^ 39"
  proof -
    have "4096 * ?n \<le> image_size elf + 4095" using mult_div_mod_eq [of 4096 "image_size elf + 4095"] by linarith
    then show ?thesis using elf(4) by simp
  qed
  let ?p0 = "p\<lparr>ep_vaddr := elf_entry elf, img_pages := div_round_up ?n 4096, heap_base := uadd ?v (umul ?n 4096)\<rparr>"
  have al: "(0x200000000 :: nat) mod 4096 = 0" by simp
  have ok0: "space_ok ?p0 vs" using ok by simp
  have un: "user_entry_of ?p0 vs u = None" if "covers ?v ?n u" for u using none that by simp
  obtain fs vs1 p1 vs2 where a: "alloc_pages ?n (?p0, vs) = returns (Inr fs, ?p0, vs1)"
    "map_frames ?v fs True True (?p0, vs1) = returns (Inr (), p1, vs2)" "length fs = ?n"
    "added ?v fs (entry_flags False True True Normal) ?p0 vs p1 vs2"
    using alloc_map [OF ok0 al order_refl hi n0 mem un] by blast
  have a1: "alloc_pages ?n (p, vs) = returns (Inr fs, p, vs1)"
    using a(1) by (auto simp: alloc_pages_def and_then_def split: option.splits sum.splits prod.splits)
  let ?vs3 = "vs2\<lparr>kern := (kern vs2)\<lparr>phys := pm_free_frames (phys (kern vs2)) fs\<rparr>\<rparr>"
  have pm: "put_machine (machine_of vs2) vs2 = vs2" by (simp add: put_machine_def machine_of_def)
  have ls: "load_segments load fs 0 (segments elf) 0 (p1, vs2) = returns (Inl err, p1, ?vs3)"
    unfolding elf(1) using elf(2) load pm by (simp add: load_at_def free_pages_def throw_def)
  have "launch_process c elf load (p, vs) = returns (Inl err, p1, ?vs3)"
    unfolding launch_process_def Let_def split n using proc(2) n0 a1 a(2) ls
    by (simp add: put_proc_def succeed_def)
  then have run: "launch_elf c pid elf load vs = returns (Inl err, ?vs3\<lparr>processes := bt_insert pid p1 (processes ?vs3)\<rparr>)"
    using proc(1) by (simp add: launch_elf_def with_process_def)
  let ?vs4 = "?vs3\<lparr>processes := bt_insert pid p1 (processes ?vs3)\<rparr>"
  have c: "covers ?v (length fs) ?v" using n0 a(3) by (simp add: covers_def)
  have ua: "user_addr ?v" by (simp add: user_addr_def)
  note en = added_entry [OF a(4) entry_flags_plain c ua]
  have e: "virt_to_phys_from_map ?v (vmap p1) (machine_of ?vs4) = Some (fs ! ((?v - ?v) div 4096))"
    using en(1,2) by (simp add: translate_entry)
  have "geometry (phys (kern vs2)) = geometry (phys (kern vs))" using a(4) unfolding added_def by blast
  then have "is_valid (phys (kern vs2)) (fs ! ((?v - ?v) div 4096))"
    using geometry_fields(7) en(3) a(4) unfolding added_def by metis
  moreover have "pmm_ok (phys (kern vs2))" using a(4) tables_okD(1) [of _ "machine_of vs2"] unfolding added_def by auto
  ultimately have "frame_of (fs ! ((?v - ?v) div 4096)) \<in> free_frames_of ?vs4"
    using en(3) pm_free_frames_spec(2) by auto
  then show ?thesis using run e by (intro exI [of _ p1] exI [of _ ?vs4] exI [of _ "fs ! ((?v - ?v) div 4096)"]) simp
qed

definition demo_elf :: elf_binary where
  "demo_elf = \<lparr>elf_entry = 0x200000000, segments = [\<lparr>p_type = P_TYPE_LOAD, p_offset = 0, p_memsz = 5000\<rparr>]\<rparr>"

text \<open>A process that is not launched yet, with frame 2 as its PDPT, which has no user entry.\<close>

definition demo_fresh :: "nat vspace" where
  "demo_fresh = demo_vspace\<lparr>processes := [(7, proc_new\<lparr>as_pid := 7, vmap := demo_map\<lparr>pdpt0_base := 0x2000\<rparr>\<rparr>)]\<rparr>"

theorem failed_launch_keeps_mapping_witness:
  "\<exists>p' vs' a. launch_elf 0 7 demo_elf (\<lambda>i dest M. (Inl IOError, M)) demo_fresh = returns (Inl IOError, vs')
    \<and> bt_get (processes vs') 7 = Some p'
    \<and> virt_to_phys_from_map MIN_VIRTUAL_USER (vmap p') (machine_of vs') = Some a \<and> frame_of a \<in> free_frames_of vs'"
proof -
  let ?p = "proc_new\<lparr>as_pid := 7, vmap := demo_map\<lparr>pdpt0_base := 0x2000\<rparr>\<rparr> :: nat address_space"
  have m: "machine_of demo_fresh = demo_machine\<lparr>frames := demo_bitmap\<rparr>"
    unfolding demo_fresh_def machine_of_simps by (rule demo_machine_of)
  have p: "bt_get (processes demo_fresh) 7 = Some ?p" "children ?p = []" by (simp_all add: demo_fresh_def proc_new_def)
  have z: "read_table_entry 0x2000 i (machine_of demo_fresh) = 0" if "8 \<le> i" "i < 512" for i
    unfolding m using demo_reads(2) [OF that(2)] that(1) by simp
  have b: "pmm_ok (frames (machine_of demo_fresh))" "last_phys_addr (frames (machine_of demo_fresh)) < 2 ^ 40" "page_base 0x2000"
    "frame_of 0x2000 \<notin> free_set (frames (machine_of demo_fresh))"
    unfolding m using demo_bitmap_ok by (simp_all add: demo_bitmap_free demo_base) (simp add: demo_bitmap_def)
  have ok: "space_ok ?p demo_fresh" using tables_ok_empty(1) [OF b z] by simp
  have i: "image_size demo_elf = 5000" by (simp add: image_size_def demo_elf_def uadd_exact)
  have none: "\<forall>u. covers MIN_VIRTUAL_USER ((image_size demo_elf + 4095) div 4096) u \<longrightarrow> user_entry_of ?p demo_fresh u = None"
  proof (intro allI impI)
    fix u
    assume "covers MIN_VIRTUAL_USER ((image_size demo_elf + 4095) div 4096) u"
    then have "user_addr u" unfolding i by (simp add: covers_def user_addr_def)
    then show "user_entry_of ?p demo_fresh u = None" by (intro tables_ok_empty(3) [OF b z]) simp_all
  qed
  have f: "3 * ((image_size demo_elf + 4095) div 4096) \<le> card (free_frames_of demo_fresh)"
    unfolding i by (simp add: demo_fresh_def demo_state(5) demo_bitmap_free)
  have s: "segments demo_elf = \<lparr>p_type = P_TYPE_LOAD, p_offset = 0, p_memsz = 5000\<rparr> # []" by (simp add: demo_elf_def)
  show ?thesis
    using failed_launch_keeps_mapping [OF p ok s _ _ _ _ f none, of "\<lambda>i dest M. (Inl IOError, M)" IOError 0] unfolding i by simp
qed

end
