(* ===== verification/User_Heap.thy ===== *)
theory User_Heap
  imports Fallible
begin

text \<open>
  The heap of user programs, \<^verbatim>\<open>programs/rtlib/src/heap.rs\<close>: a first-fit allocator with an
  explicit free list and coalescing, on a region that the kernel grows and shrinks.

  Offsets are relative to the base of the region. \<open>word_at\<close> is the \<^verbatim>\<open>usize\<close> at an (8-byte
  aligned) offset; a block has its header there and, when it is free, the offset of the next
  free block in the word after it. \<open>os\<close> is the state of the operating system, on which the
  system call \<open>sys\<close> (the argument of every operation that can reach it) works: it returns the
  value the kernel writes to \<^verbatim>\<open>ret_code\<close> and the base and size in the argument block, which are
  zero when the kernel does not fill it in.
\<close>

section \<open>State\<close>

record 'k uheap =
  uh_base :: usize
  uh_size :: usize
  free_head :: usize
  word_at :: "usize \<Rightarrow> usize"
  os :: 'k

type_synonym 'k resize_call = "int \<Rightarrow> 'k \<Rightarrow> ((usize \<times> usize \<times> usize) \<times> 'k) run"

abbreviation UNULL :: usize where "UNULL \<equiv> 18446744073709551615"
abbreviation HEADER_SIZE :: usize where "HEADER_SIZE \<equiv> 8"
abbreviation MIN_PAYLOAD_SIZE :: usize where "MIN_PAYLOAD_SIZE \<equiv> 8"
abbreviation MIN_BLOCK_SIZE :: usize where "MIN_BLOCK_SIZE \<equiv> 16"
abbreviation INIT_HEAP_SIZE :: usize where "INIT_HEAP_SIZE \<equiv> 262144"
abbreviation HEAP_GROW_SIZE :: usize where "HEAP_GROW_SIZE \<equiv> 262144"

definition uheap_new :: "'k \<Rightarrow> 'k uheap" where
  "uheap_new k = \<lparr>uh_base = 0, uh_size = 0, free_head = UNULL, word_at = (\<lambda>_. 0), os = k\<rparr>"

definition align_up :: "usize \<Rightarrow> usize \<Rightarrow> usize" where
  "align_up x a = and_not (usub (uadd x a) 1) (usub a 1)"

section \<open>Words, headers and links\<close>

definition write_word :: "usize \<Rightarrow> usize \<Rightarrow> 'k uheap \<Rightarrow> 'k uheap" where
  "write_word offset v h = h\<lparr>word_at := (word_at h)(offset := v)\<rparr>"

definition get_block_size :: "usize \<Rightarrow> 'k uheap \<Rightarrow> usize run" where
  "get_block_size offset h =
     (if offset \<ge> uh_size h then panics else returns (and_not (word_at h offset) 1))"

definition is_allocated :: "usize \<Rightarrow> 'k uheap \<Rightarrow> bool run" where
  "is_allocated offset h =
     (if offset \<ge> uh_size h then panics else returns (word_at h offset AND 1 \<noteq> 0))"

definition set_header :: "usize \<Rightarrow> usize \<Rightarrow> bool \<Rightarrow> 'k uheap \<Rightarrow> 'k uheap run" where
  "set_header offset sz allocated h =
     (if offset \<ge> uh_size h \<or> sz > uh_size h - offset then panics
      else returns (write_word offset (sz OR (if allocated then 1 else 0)) h))"

definition next_free_block :: "usize \<Rightarrow> 'k uheap \<Rightarrow> usize run" where
  "next_free_block cur h =
     (if uadd cur MIN_BLOCK_SIZE > uh_size h then panics else returns (word_at h (uadd cur HEADER_SIZE)))"

definition set_free_next :: "usize \<Rightarrow> usize \<Rightarrow> 'k uheap \<Rightarrow> 'k uheap run" where
  "set_free_next cur nxt h =
     (if uadd cur MIN_BLOCK_SIZE > uh_size h then panics else returns (write_word (uadd cur HEADER_SIZE) nxt h))"

text \<open>\<^verbatim>\<open>match prev\<close>: the link of the previous free block, or the head of the list.\<close>

definition set_link :: "usize option \<Rightarrow> usize \<Rightarrow> 'k uheap \<Rightarrow> 'k uheap run" where
  "set_link prev nxt h = (case prev of Some p \<Rightarrow> set_free_next p nxt h | None \<Rightarrow> returns (h\<lparr>free_head := nxt\<rparr>))"

section \<open>The region\<close>

definition uheap_resize :: "'k resize_call \<Rightarrow> int \<Rightarrow> 'k uheap \<Rightarrow> ((usize \<times> usize) option \<times> 'k uheap) run" where
  "uheap_resize sys delta h = and_then (sys delta (os h)) (\<lambda>((retval, base, sz), k).
     if retval \<noteq> 24 then panics
     else returns (if base = 0 \<or> sz = 0 then None else Some (base, sz), h\<lparr>os := k\<rparr>))"

definition uheap_init :: "'k resize_call \<Rightarrow> 'k uheap \<Rightarrow> 'k uheap run" where
  "uheap_init sys h =
     (if uh_size h \<noteq> 0 then returns h
      else and_then (uheap_resize sys (int INIT_HEAP_SIZE) h) (\<lambda>(r, h1). case r of
          None \<Rightarrow> panics
        | Some (base, sz) \<Rightarrow>
            and_then (set_header 0 sz False (h1\<lparr>uh_base := base, uh_size := sz\<rparr>)) (\<lambda>h2.
            and_then (set_free_next 0 UNULL h2) (\<lambda>h3.
              returns (h3\<lparr>free_head := 0\<rparr>)))))"

section \<open>Allocation\<close>

text \<open>A fit was found: the block is split when the rest can be a block, and used whole
  otherwise.\<close>

definition take_block :: "usize option \<Rightarrow> usize \<Rightarrow> usize \<Rightarrow> usize \<Rightarrow> 'k uheap \<Rightarrow> 'k uheap run" where
  "take_block prev cur cur_size needed h =
     (let remain = cur_size - needed in
      if remain \<ge> MIN_BLOCK_SIZE then
        let new_free = uadd cur needed in
        and_then (set_header new_free remain False h) (\<lambda>h1.
        and_then (next_free_block cur h1) (\<lambda>free_next.
        and_then (set_free_next new_free free_next h1) (\<lambda>h2.
        and_then (set_header cur needed True h2) (\<lambda>h3.
          set_link prev new_free h3))))
      else
        and_then (set_header cur cur_size True h) (\<lambda>h1.
        and_then (next_free_block cur h1) (\<lambda>free_next.
          set_link prev free_next h1)))"

partial_function (option) alloc_search ::
  "usize \<Rightarrow> usize option \<Rightarrow> usize \<Rightarrow> 'k uheap \<Rightarrow> (usize option \<times> 'k uheap) run" where
  "alloc_search needed prev cur h =
     (if cur = UNULL then returns (None, h)
      else and_then (get_block_size cur h) (\<lambda>cur_size.
        if cur_size \<ge> needed
        then and_then (take_block prev cur cur_size needed h) (\<lambda>h1.
               returns (Some (uadd (uh_base h1) (uadd cur HEADER_SIZE)), h1))
        else and_then (next_free_block cur h) (\<lambda>nxt. alloc_search needed (Some cur) nxt h)))"

partial_function (option) last_free :: "usize \<Rightarrow> 'k uheap \<Rightarrow> usize run" where
  "last_free cur h = and_then (next_free_block cur h) (\<lambda>nxt.
     if nxt \<noteq> UNULL then last_free nxt h else returns cur)"

text \<open>The heap is out of blocks: the kernel is asked for more, which becomes a free block at the
  end of the free list. The result says whether the region has grown.\<close>

definition uheap_grow :: "'k resize_call \<Rightarrow> usize \<Rightarrow> 'k uheap \<Rightarrow> (bool \<times> 'k uheap) run" where
  "uheap_grow sys needed h =
     and_then (uheap_resize sys (int (align_up needed HEAP_GROW_SIZE)) h) (\<lambda>(r, h1). case r of
         None \<Rightarrow> returns (False, h1)
       | Some (base, sz) \<Rightarrow>
           let old = uh_size h1; h2 = h1\<lparr>uh_size := sz\<rparr> in
           and_then (set_header old (usub sz old) False h2) (\<lambda>h3.
           and_then (set_free_next old UNULL h3) (\<lambda>h4.
             if free_head h4 = UNULL then returns (True, h4\<lparr>free_head := old\<rparr>)
             else and_then (last_free (free_head h4) h4) (\<lambda>last.
                  and_then (set_free_next last old h4) (\<lambda>h5. returns (True, h5))))))"

text \<open>\<^verbatim>\<open>FirstFitHeap::alloc\<close>; a null pointer is \<open>None\<close>.\<close>

definition needed_size :: "usize \<Rightarrow> usize \<Rightarrow> usize" where
  "needed_size sz align = uadd HEADER_SIZE (align_up sz (align_up align MIN_PAYLOAD_SIZE))"

partial_function (option) uheap_alloc ::
  "'k resize_call \<Rightarrow> usize \<Rightarrow> usize \<Rightarrow> 'k uheap \<Rightarrow> (usize option \<times> 'k uheap) run" where
  "uheap_alloc sys sz align h =
     and_then (if free_head h = UNULL then uheap_init sys h else returns h) (\<lambda>h1.
       if sz = 0 then returns (None, h1)
       else
         let needed = needed_size sz align in
         and_then (alloc_search needed None (free_head h1) h1) (\<lambda>(r, h2). case r of
             Some p \<Rightarrow> returns (Some p, h2)
           | None \<Rightarrow> and_then (uheap_grow sys needed h2) (\<lambda>(grown, h3).
               if grown then uheap_alloc sys sz align h3 else returns (None, h3))))"

section \<open>Release\<close>

text \<open>The block in the free list at offset \<open>target\<close> with its predecessor.\<close>

partial_function (option) find_free :: "usize \<Rightarrow> usize option \<Rightarrow> usize \<Rightarrow> 'k uheap \<Rightarrow> usize option option run" where
  "find_free target prev cur h =
     (if cur = UNULL then returns None
      else if cur = target then returns (Some prev)
      else and_then (next_free_block cur h) (\<lambda>nxt. find_free target (Some cur) nxt h))"

definition unlink_free :: "usize option \<Rightarrow> usize \<Rightarrow> 'k uheap \<Rightarrow> 'k uheap run" where
  "unlink_free prev cur h = and_then (next_free_block cur h) (\<lambda>nxt. set_link prev nxt h)"

text \<open>Removal of a block from the free list, when it is there.\<close>

definition remove_free :: "usize \<Rightarrow> 'k uheap \<Rightarrow> 'k uheap run" where
  "remove_free target h = and_then (find_free target None (free_head h) h) (\<lambda>r. case r of
       None \<Rightarrow> returns h
     | Some prev \<Rightarrow> unlink_free prev target h)"

definition push_free :: "usize \<Rightarrow> 'k uheap \<Rightarrow> 'k uheap run" where
  "push_free block h = and_then (set_free_next block (free_head h) h) (\<lambda>h1. returns (h1\<lparr>free_head := block\<rparr>))"

partial_function (option) merge_right :: "usize \<Rightarrow> usize \<Rightarrow> 'k uheap \<Rightarrow> (usize \<times> 'k uheap) run" where
  "merge_right block sz h =
     (let right = uadd block sz in
      if right < uh_size h then
        and_then (find_free right None (free_head h) h) (\<lambda>r. case r of
            None \<Rightarrow> returns (sz, h)
          | Some prev \<Rightarrow>
              and_then (get_block_size right h) (\<lambda>right_size.
              and_then (set_header block (uadd sz right_size) False h) (\<lambda>h1.
              and_then (unlink_free prev right h1) (\<lambda>h2.
                merge_right block (uadd sz right_size) h2))))
      else returns (sz, h))"

text \<open>The free block that ends at \<open>block\<close>, with its size.\<close>

partial_function (option) find_left :: "usize \<Rightarrow> usize \<Rightarrow> 'k uheap \<Rightarrow> (usize \<times> usize) option run" where
  "find_left block cur h =
     (if cur = UNULL then returns None
      else and_then (get_block_size cur h) (\<lambda>cur_size.
        if uadd cur cur_size = block then returns (Some (cur, cur_size))
        else and_then (next_free_block cur h) (\<lambda>nxt. find_left block nxt h)))"

partial_function (option) merge_left :: "usize \<Rightarrow> usize \<Rightarrow> 'k uheap \<Rightarrow> 'k uheap run" where
  "merge_left block sz h = and_then (find_left block (free_head h) h) (\<lambda>r. case r of
       None \<Rightarrow> returns h
     | Some (cur, cur_size) \<Rightarrow>
         and_then (remove_free cur h) (\<lambda>h1.
         and_then (remove_free block h1) (\<lambda>h2.
         and_then (set_header cur (uadd cur_size sz) False h2) (\<lambda>h3.
         and_then (push_free cur h3) (\<lambda>h4.
           merge_left cur (uadd cur_size sz) h4)))))"

text \<open>\<^verbatim>\<open>FirstFitHeap::free\<close>; \<open>None\<close> is a null pointer.\<close>

definition uheap_free :: "usize option \<Rightarrow> 'k uheap \<Rightarrow> 'k uheap run" where
  "uheap_free ptr h = (case ptr of
       None \<Rightarrow> returns h
     | Some p \<Rightarrow>
         let off = usub p (uh_base h) in
         if off < HEADER_SIZE \<or> off \<ge> uh_size h then returns h
         else
           let block = off - HEADER_SIZE in
           and_then (is_allocated block h) (\<lambda>alloc.
             if \<not> alloc then returns h
             else
               and_then (get_block_size block h) (\<lambda>sz.
               and_then (set_header block sz False h) (\<lambda>h1.
               and_then (push_free block h1) (\<lambda>h2.
               and_then (merge_right block sz h2) (\<lambda>(size1, h3).
                 merge_left block size1 h3))))))"

section \<open>Giving memory back\<close>

partial_function (option) max_free :: "usize option \<Rightarrow> usize \<Rightarrow> 'k uheap \<Rightarrow> usize option run" where
  "max_free found cur h =
     (if cur = UNULL then returns found
      else and_then (next_free_block cur h) (\<lambda>nxt.
        max_free (case found of None \<Rightarrow> Some cur | Some l \<Rightarrow> if l < cur then Some cur else found) nxt h))"

definition release_unused_memory :: "'k resize_call \<Rightarrow> 'k uheap \<Rightarrow> (usize \<times> 'k uheap) run" where
  "release_unused_memory sys h = and_then (max_free None (free_head h) h) (\<lambda>r. case r of
       None \<Rightarrow> returns (0, h)
     | Some last_off \<Rightarrow>
         and_then (get_block_size last_off h) (\<lambda>last_size.
           if uadd last_off last_size = uh_size h \<and> last_size > HEAP_GROW_SIZE then
             and_then (uheap_resize sys (- int (last_size - HEAP_GROW_SIZE)) h) (\<lambda>(r, h1). case r of
                 None \<Rightarrow> returns (0, h1)
               | Some (base, sz) \<Rightarrow>
                   let bytes_released = usub (uh_size h1) sz;
                       h2 = write_word last_off (usub last_size bytes_released) (h1\<lparr>uh_size := sz\<rparr>) in
                   and_then (get_block_size last_off h2) (\<lambda>last_size'.
                     if uadd last_off last_size' \<noteq> uh_size h2 then panics
                     else returns (bytes_released, h2)))
           else returns (0, h)))"

end
