(* ===== verification/User_Heap_Inv.thy ===== *)
theory User_Heap_Inv
  imports User_Heap
begin

text \<open>
  The invariant of the user heap. The ghost argument \<open>bs\<close> lists the blocks of the region in
  address order as \<open>(offset, size, allocated)\<close>, and \<open>fl\<close> the offsets of the free blocks in the
  order of the free list: the blocks tile the region, every header says what its block is, and
  the links lead through exactly the free blocks.
\<close>

type_synonym block = "usize \<times> usize \<times> bool"

section \<open>Blocks\<close>

fun tiles :: "nat \<Rightarrow> block list \<Rightarrow> nat \<Rightarrow> bool" where
  "tiles a [] b \<longleftrightarrow> a = b"
| "tiles a ((off, sz, al) # bs) b \<longleftrightarrow> off = a \<and> 16 \<le> sz \<and> 8 dvd sz \<and> tiles (a + sz) bs b"

lemma tiles_append: "tiles a (xs @ ys) b \<longleftrightarrow> (\<exists>c. tiles a xs c \<and> tiles c ys b)"
  by (induction a xs b rule: tiles.induct) auto

lemma tiles_le: "tiles a bs b \<Longrightarrow> a \<le> b"
  by (induction a bs b rule: tiles.induct) auto

lemma tiles_member:
  "tiles a bs b \<Longrightarrow> (off, sz, al) \<in> set bs \<Longrightarrow> a \<le> off \<and> off + sz \<le> b \<and> 16 \<le> sz \<and> 8 dvd sz"
proof (induction a bs b rule: tiles.induct)
  case (2 a off' sz' al' bs b)
  then show ?case using tiles_le [of "a + sz'" bs b] by auto
qed simp

lemma tiles_aligned: "tiles a bs b \<Longrightarrow> 8 dvd a \<Longrightarrow> (off, sz, al) \<in> set bs \<Longrightarrow> 8 dvd off"
  by (induction a bs b rule: tiles.induct) auto

lemma tiles_end_aligned: "tiles a bs b \<Longrightarrow> 8 dvd a \<Longrightarrow> 8 dvd b"
  by (induction a bs b rule: tiles.induct) auto

text \<open>Two blocks are the same or apart.\<close>

lemma tiles_apart:
  assumes "tiles a bs b" "(o1, s1, a1) \<in> set bs" "(o2, s2, a2) \<in> set bs"
  shows "(o1, s1, a1) = (o2, s2, a2) \<or> o1 + s1 \<le> o2 \<or> o2 + s2 \<le> o1"
  using assms
proof (induction a bs b rule: tiles.induct)
  case (2 a off sz al bs b)
  then have t: "tiles (a + sz) bs b" "off = a" by auto
  show ?case using 2 tiles_member [OF t(1), of o1 s1 a1] tiles_member [OF t(1), of o2 s2 a2] t(2) by auto
qed simp

lemma tiles_same_offset:
  assumes "tiles a bs b" "(x, s1, a1) \<in> set bs" "(x, s2, a2) \<in> set bs"
  shows "s1 = s2 \<and> a1 = a2"
  using tiles_apart [OF assms] tiles_member [OF assms(1,2)] tiles_member [OF assms(1,3)] by auto

lemma tiles_distinct: "tiles a bs b \<Longrightarrow> distinct (map fst bs)"
proof (induction a bs b rule: tiles.induct)
  case (2 a off sz al bs b)
  then have t: "tiles (a + sz) bs b" "off = a" "16 \<le> sz" by auto
  have "off \<noteq> x" if "(x, s, c) \<in> set bs" for x s c using tiles_member [OF t(1) that] t by auto
  then show ?case using 2 t by fastforce
qed simp

section \<open>Words of a header\<close>

definition header :: "usize \<Rightarrow> bool \<Rightarrow> usize" where
  "header sz al = sz + (if al then 1 else 0)"

lemma or_header: "8 dvd sz \<Longrightarrow> sz OR (if al then 1 else 0) = header sz al"
  using dvd_trans [of 2 8 sz] by (auto simp: header_def or_one_eq or_Suc_0_eq)

lemma header_alloc: "8 dvd sz \<Longrightarrow> (header sz al AND 1 \<noteq> 0) = al"
  using dvd_trans [of 2 8 sz] by (auto simp: header_def and_one_eq and_Suc_0_eq)

lemma header_size:
  assumes "8 dvd sz" "sz < usize_span"
  shows "and_not (header sz al) 1 = sz"
proof -
  obtain k where k: "sz = 8 * k" using assms(1) by (auto simp: dvd_def)
  have "header sz al < usize_span" using k assms(2) by (auto simp: header_def)
  then have "and_not (header sz al) (2 ^ 1 - 1) = header sz al div 2 ^ 1 * 2 ^ 1" by (rule and_not_mask)
  then show ?thesis using k by (auto simp: header_def)
qed

section \<open>The free list\<close>

fun fseg :: "'k uheap \<Rightarrow> usize \<Rightarrow> usize list \<Rightarrow> usize \<Rightarrow> bool" where
  "fseg h a [] b \<longleftrightarrow> a = b"
| "fseg h a (x # xs) b \<longleftrightarrow> a = x \<and> x \<noteq> UNULL \<and> fseg h (word_at h (x + 8)) xs b"

lemma fseg_append: "fseg h a (xs @ ys) b \<longleftrightarrow> (\<exists>c. fseg h a xs c \<and> fseg h c ys b)"
  by (induction xs arbitrary: a) auto

lemma fseg_cong:
  "(\<And>x. x \<in> set xs \<Longrightarrow> word_at h' (x + 8) = word_at h (x + 8)) \<Longrightarrow> fseg h' a xs b = fseg h a xs b"
  by (induction xs arbitrary: a) auto

lemma fseg_null: "fseg h a xs UNULL \<Longrightarrow> a = UNULL \<longleftrightarrow> xs = []"
  by (cases xs) auto

definition prev_of :: "usize list \<Rightarrow> usize option" where
  "prev_of xs = (if xs = [] then None else Some (last xs))"

lemma prev_of_simps [simp]: "prev_of [] = None" "prev_of (xs @ [x]) = Some x"
  by (simp_all add: prev_of_def)

text \<open>Redirecting the link behind a prefix of the list.\<close>

definition relink :: "usize list \<Rightarrow> usize \<Rightarrow> 'k uheap \<Rightarrow> 'k uheap" where
  "relink xs a h = (if xs = [] then h\<lparr>free_head := a\<rparr> else write_word (last xs + 8) a h)"

lemma relink_view [simp]:
  "uh_size (relink xs a h) = uh_size h" "uh_base (relink xs a h) = uh_base h" "os (relink xs a h) = os h"
  by (simp_all add: relink_def write_word_def)

lemma relink_word: "word_at (relink xs a h) w = (if xs \<noteq> [] \<and> w = last xs + 8 then a else word_at h w)"
  by (simp add: relink_def write_word_def)

lemma relink_fseg:
  assumes "fseg h (free_head h) xs b" "distinct xs"
  shows "fseg (relink xs a h) (free_head (relink xs a h)) xs a"
proof (cases xs rule: rev_cases)
  case Nil
  then show ?thesis by (simp add: relink_def)
next
  case (snoc ys y)
  let ?h = "relink xs a h"
  have s: "fseg h (free_head h) ys y" "y \<noteq> UNULL" using assms(1) snoc by (auto simp: fseg_append)
  have "fseg ?h (free_head h) ys y"
    using s(1) assms(2) snoc by (subst fseg_cong [where h = h]) (auto simp: relink_word)
  then show ?thesis using s(2) snoc by (auto simp: fseg_append relink_word) (auto simp: relink_def write_word_def)
qed

lemma set_link_relink:
  assumes "\<And>x. x \<in> set xs \<Longrightarrow> x + 16 \<le> uh_size h" "uh_size h < usize_span"
  shows "set_link (prev_of xs) a h = returns (relink xs a h)"
proof (cases "xs = []")
  case False
  then have "last xs + 16 \<le> uh_size h" using assms(1) by simp
  then show ?thesis using False assms(2)
    by (simp add: set_link_def prev_of_def relink_def set_free_next_def usize_arith)
qed (simp add: set_link_def prev_of_def relink_def)

section \<open>The invariant\<close>

definition free_offs :: "block list \<Rightarrow> usize set" where
  "free_offs bs = {off. \<exists>sz. (off, sz, False) \<in> set bs}"

definition headers_ok :: "block list \<Rightarrow> 'k uheap \<Rightarrow> bool" where
  "headers_ok bs h \<longleftrightarrow> (\<forall>(off, sz, al) \<in> set bs. word_at h off = header sz al)"

lemma headers_okD: "headers_ok bs h \<Longrightarrow> (off, sz, al) \<in> set bs \<Longrightarrow> word_at h off = header sz al"
  by (auto simp: headers_ok_def)

definition uheap_ok :: "block list \<Rightarrow> usize list \<Rightarrow> 'k uheap \<Rightarrow> bool" where
  "uheap_ok bs fl h \<longleftrightarrow> tiles 0 bs (uh_size h) \<and> uh_base h + uh_size h < usize_span \<and> headers_ok bs h
     \<and> fseg h (free_head h) fl UNULL \<and> distinct fl \<and> set fl = free_offs bs"

text \<open>The live allocations, as the address of the payload and its size.\<close>

definition live_blocks :: "'k uheap \<Rightarrow> block list \<Rightarrow> (usize \<times> usize) set" where
  "live_blocks h bs = {(uh_base h + off + 8, sz - 8) | off sz. (off, sz, True) \<in> set bs}"

text \<open>The payloads of the allocated blocks keep their contents.\<close>

definition payloads_kept :: "block list \<Rightarrow> 'k uheap \<Rightarrow> 'k uheap \<Rightarrow> bool" where
  "payloads_kept bs h h' \<longleftrightarrow>
     (\<forall>(off, sz, al) \<in> set bs. al \<longrightarrow> (\<forall>i. 8 \<le> i \<and> i < sz \<longrightarrow> word_at h' (off + i) = word_at h (off + i)))"

lemma payloads_kept_refl: "payloads_kept bs h h"
  by (auto simp: payloads_kept_def)

lemma payloads_kept_trans:
  "payloads_kept bs h h1 \<Longrightarrow> payloads_kept bs' h1 h2 \<Longrightarrow>
   (\<And>x s. (x, s, True) \<in> set bs \<Longrightarrow> (x, s, True) \<in> set bs') \<Longrightarrow> payloads_kept bs h h2"
  unfolding payloads_kept_def by fastforce

lemma payloads_kept_sub: "payloads_kept bs h h' \<Longrightarrow> (\<And>x s. (x, s, True) \<in> set bs' \<Longrightarrow> (x, s, True) \<in> set bs) \<Longrightarrow> payloads_kept bs' h h'"
  by (fastforce simp: payloads_kept_def)

lemma uheap_okD:
  assumes "uheap_ok bs fl h"
  shows "tiles 0 bs (uh_size h)" "uh_base h + uh_size h < usize_span" "headers_ok bs h"
    "fseg h (free_head h) fl UNULL" "distinct fl" "set fl = free_offs bs"
  using assms by (simp_all add: uheap_ok_def)

lemma uheap_blockD:
  assumes "uheap_ok bs fl h" "(off, sz, al) \<in> set bs"
  shows "off + sz \<le> uh_size h" "16 \<le> sz" "8 dvd sz" "off + sz < usize_span" "off < uh_size h"
    "uadd off sz = off + sz" "uadd off 8 = off + 8" "uadd off 16 = off + 16" "off \<noteq> UNULL"
    "get_block_size off h = returns sz" "is_allocated off h = returns al"
    "next_free_block off h = returns (word_at h (off + 8))"
    "set_free_next off x h = returns (write_word (off + 8) x h)"
proof -
  note ok = uheap_okD [OF assms(1)]
  show b: "off + sz \<le> uh_size h" "16 \<le> sz" "8 dvd sz" "off + sz < usize_span" "off < uh_size h"
    using tiles_member [OF ok(1) assms(2)] ok(2) by auto
  show "uadd off sz = off + sz" "uadd off 8 = off + 8" "uadd off 16 = off + 16" "off \<noteq> UNULL"
    using b by (auto simp: usize_arith)
  have w: "word_at h off = header sz al" using ok(3) assms(2) by (auto simp: headers_ok_def)
  show "get_block_size off h = returns sz" using b w header_size [of sz al]
    by (simp add: get_block_size_def)
  show "is_allocated off h = returns al" using b w header_alloc [of sz al]
    by (simp add: is_allocated_def)
  show "next_free_block off h = returns (word_at h (off + 8))"
    "set_free_next off x h = returns (write_word (off + 8) x h)"
    using b by (auto simp: next_free_block_def set_free_next_def usize_arith)
qed

lemma uheap_freeD:
  assumes "uheap_ok bs fl h" "x \<in> set fl"
  obtains sz where "(x, sz, False) \<in> set bs"
  using assms by (auto simp: uheap_ok_def free_offs_def)

lemma relink_list:
  assumes "fseg h (free_head h) xs c" "fseg h a ys UNULL" "distinct (xs @ ys)"
  shows "fseg (relink xs a h) (free_head (relink xs a h)) (xs @ ys) UNULL"
proof -
  have "fseg (relink xs a h) a ys UNULL"
  proof (subst fseg_cong [where h = h])
    have "y \<noteq> last xs" if "y \<in> set ys" "xs \<noteq> []" for y using that assms(3) last_in_set [of xs] by (metis disjoint_iff distinct_append)
    then show "word_at (relink xs a h) (y + 8) = word_at h (y + 8)" if "y \<in> set ys" for y
      using that by (auto simp: relink_word)
  qed (rule assms(2))
  then show ?thesis using relink_fseg [OF assms(1), of a] assms(3) by (auto simp: fseg_append)
qed

lemma free_offs_simps [simp]:
  "free_offs [] = {}" "free_offs (xs @ ys) = free_offs xs \<union> free_offs ys"
  "free_offs ((off, sz, True) # xs) = free_offs xs"
  "free_offs ((off, sz, False) # xs) = insert off (free_offs xs)"
  by (auto simp: free_offs_def)

lemma live_blocks_simps [simp]:
  "live_blocks h (xs @ ys) = live_blocks h xs \<union> live_blocks h ys"
  "live_blocks h ((off, sz, True) # ys) = insert (uh_base h + off + 8, sz - 8) (live_blocks h ys)"
  "live_blocks h ((off, sz, False) # ys) = live_blocks h ys"
  "live_blocks h [] = {}"
  by (auto simp: live_blocks_def)

lemma live_blocks_base: "uh_base h' = uh_base h \<Longrightarrow> live_blocks h' bs = live_blocks h bs"
  by (simp add: live_blocks_def)

text \<open>Two states that agree on all words of some blocks.\<close>

definition agree_on :: "block list \<Rightarrow> 'k uheap \<Rightarrow> 'k uheap \<Rightarrow> bool" where
  "agree_on bs h h' \<longleftrightarrow> (\<forall>(off, sz, al) \<in> set bs. \<forall>i < sz. word_at h' (off + i) = word_at h (off + i))"

lemma agree_onI:
  assumes "tiles a (l @ mid @ r) b" "tiles p mid q"
    and "\<And>w. w < p \<or> q \<le> w \<Longrightarrow> word_at h' w = word_at h w" "mid \<noteq> []"
  shows "agree_on (l @ r) h h'"
proof -
  obtain s0 a0 m where m: "(p, s0, a0) \<in> set mid" using assms(2,4) by (cases mid) fastforce+
  obtain c d where cd: "tiles a l c" "tiles c mid d" "tiles d r b" using assms(1) by (auto simp: tiles_append)
  have c: "c = p" using assms(2,4) cd(2) by (cases mid) auto
  have "d = q" using assms(2) cd(2) unfolding c by (induction p mid q rule: tiles.induct) auto
  then have "off + s \<le> p \<or> q \<le> off" if "(off, s, al) \<in> set (l @ r)" for off s al
    using that tiles_member [OF cd(1), of off s al] tiles_member [OF cd(3), of off s al] c by auto
  then show ?thesis using assms(3) unfolding agree_on_def by fastforce
qed

lemma agree_onD: "agree_on bs h h' \<Longrightarrow> (off, s, al) \<in> set bs \<Longrightarrow> i < s \<Longrightarrow> word_at h' (off + i) = word_at h (off + i)"
  by (auto simp: agree_on_def)

lemma agree_fseg:
  assumes "agree_on bs h h'" "tiles a bs' b" "set bs \<subseteq> set bs'" "set xs \<subseteq> free_offs bs"
  shows "fseg h' c xs d = fseg h c xs d"
proof (rule fseg_cong)
  fix x assume "x \<in> set xs"
  then obtain s where s: "(x, s, False) \<in> set bs" using assms(4) by (auto simp: free_offs_def)
  moreover have "8 < s" using tiles_member [OF assms(2)] s assms(3) by fastforce
  ultimately show "word_at h' (x + 8) = word_at h (x + 8)" using assms(1) by (auto simp: agree_on_def)
qed

text \<open>The weaker agreement that a change of links keeps: on the headers and the payloads.\<close>

definition keeps :: "block list \<Rightarrow> 'k uheap \<Rightarrow> 'k uheap \<Rightarrow> bool" where
  "keeps bs h h' \<longleftrightarrow> (\<forall>(off, sz, al) \<in> set bs. \<forall>i < sz. al \<or> i = 0 \<longrightarrow> word_at h' (off + i) = word_at h (off + i))"

lemma uheap_keepsD:
  "keeps bs h h' \<Longrightarrow> (off, s, al) \<in> set bs \<Longrightarrow> i < s \<Longrightarrow> al \<or> i = 0 \<Longrightarrow> word_at h' (off + i) = word_at h (off + i)"
  by (auto simp: keeps_def)

lemma agree_keeps: "agree_on bs h h' \<Longrightarrow> keeps bs h h'"
  by (fastforce simp: keeps_def agree_on_def)

lemma uheap_keeps_trans: "keeps bs h h1 \<Longrightarrow> keeps bs' h1 h2 \<Longrightarrow> set bs' \<subseteq> set bs \<Longrightarrow> keeps bs' h h2"
  unfolding keeps_def by fastforce

lemma relink_keeps:
  assumes "tiles a bs b" "set xs \<subseteq> free_offs bs"
  shows "keeps bs h (relink xs c h)"
  unfolding keeps_def
proof (clarify)
  fix off s al i assume m: "(off, s, al) \<in> set bs" "i < s" "al \<or> i = 0"
  have "off + i \<noteq> last xs + 8" if "xs \<noteq> []"
  proof -
    have "last xs \<in> free_offs bs" using assms(2) last_in_set [OF \<open>xs \<noteq> []\<close>] by blast
    then obtain t where t: "(last xs, t, False) \<in> set bs" unfolding free_offs_def by auto
    show ?thesis
      using tiles_apart [OF assms(1) m(1) t] tiles_member [OF assms(1) t] tiles_member [OF assms(1) m(1)] m by auto
  qed
  then show "word_at (relink xs c h) (off + i) = word_at h (off + i)" by (auto simp: relink_word)
qed

text \<open>Replacing some consecutive blocks \<open>mid\<close> by others that tile the same part, and relinking
  the free list after its first part: the invariant holds again, and no other block loses a
  word of its payload.\<close>

lemma relink_ok:
  assumes ok: "uheap_ok (l @ mid @ r) fl h" and m: "\<And>a b. tiles a mid b \<Longrightarrow> tiles a mid' b"
    and keep: "keeps (l @ r) h h1" and hd: "headers_ok mid' h1"
    and v: "uh_size h1 = uh_size h" "uh_base h1 = uh_base h"
    and xs: "fseg h1 (free_head h1) xs c" and ys: "fseg h1 a ys UNULL"
    and d: "distinct (xs @ ys)" "set (xs @ ys) = free_offs (l @ mid' @ r)"
  shows "uheap_ok (l @ mid' @ r) (xs @ ys) (relink xs a h1)" "payloads_kept (l @ r) h (relink xs a h1)"
proof -
  note okD = uheap_okD [OF ok]
  have T: "tiles 0 (l @ mid' @ r) (uh_size h)" using okD(1) m by (auto simp: tiles_append)
  have rk: "keeps (l @ mid' @ r) h1 (relink xs a h1)" using relink_keeps [OF T] d(2) by auto
  have k: "word_at (relink xs a h1) (off + i) = word_at h (off + i)"
    if "(off, s, al) \<in> set l \<union> set r" "i < s" "al \<or> i = 0" for off s al i
  proof -
    have "word_at h1 (off + i) = word_at h (off + i)" by (rule uheap_keepsD [OF keep]) (use that in auto)
    moreover have "(off, s, al) \<in> set (l @ mid' @ r)" using that(1) by auto
    ultimately show ?thesis using uheap_keepsD [OF rk _ that(2,3)] by auto
  qed
  have "word_at (relink xs a h1) off = header s al" if "(off, s, al) \<in> set (l @ mid' @ r)" for off s al
  proof (cases "(off, s, al) \<in> set mid'")
    case True
    then show ?thesis using uheap_keepsD [OF rk that, of 0] tiles_member [OF T that] headers_okD [OF hd True] by simp
  next
    case False
    then have n: "(off, s, al) \<in> set l \<union> set r" using that by auto
    have "word_at (relink xs a h1) (off + 0) = word_at h (off + 0)"
      by (rule k [OF n]) (use tiles_member [OF T that] in auto)
    moreover have "(off, s, al) \<in> set (l @ mid @ r)" using n by auto
    ultimately show ?thesis using headers_okD [OF okD(3), of off s al] by simp
  qed
  then show "uheap_ok (l @ mid' @ r) (xs @ ys) (relink xs a h1)"
    using T v okD(2) relink_list [OF xs ys d(1)] d unfolding uheap_ok_def headers_ok_def by auto
  show "payloads_kept (l @ r) h (relink xs a h1)"
    using k unfolding payloads_kept_def by fastforce
qed

text \<open>The blocks around one of them.\<close>

lemma uheap_split:
  assumes "uheap_ok bs fl h" "(off, sz, al) \<in> set bs"
  obtains l r where "bs = l @ [(off, sz, al)] @ r" "off \<notin> free_offs (l @ r)"
proof -
  obtain l r where lr: "bs = l @ [(off, sz, al)] @ r" using split_list [OF assms(2)] by auto
  have "distinct (map fst bs)" using tiles_distinct uheap_okD(1) [OF assms(1)] by blast
  then have "off \<notin> free_offs (l @ r)" using lr by (auto simp: free_offs_def) force+
  then show thesis using that lr by blast
qed

lemma uheap_free_ex: "uheap_ok bs fl h \<Longrightarrow> x \<in> set fl \<Longrightarrow> \<exists>s. (x, s, False) \<in> set bs"
  by (auto simp: uheap_ok_def free_offs_def)

section \<open>Allocation\<close>

text \<open>The free list at a free block: the blocks before and after it.\<close>

lemma uheap_list_split:
  assumes ok: "uheap_ok (l @ [(cur, cs, False)] @ r) (xs @ cur # ys) h" and n: "cur \<notin> free_offs (l @ r)"
  shows "set xs \<union> set ys = free_offs (l @ r)" "fseg h (free_head h) xs cur" "fseg h (word_at h (cur + 8)) ys UNULL"
    "\<And>x. x \<in> set xs \<union> set ys \<Longrightarrow> x + 16 \<le> uh_size h"
proof -
  note okD = uheap_okD [OF ok]
  have c: "cur \<notin> set xs \<union> set ys" using okD(5) by auto
  have "insert cur (set xs \<union> set ys) = insert cur (free_offs (l @ r))" using okD(6) by simp
  then show "set xs \<union> set ys = free_offs (l @ r)" using c n by (metis insert_ident)
  show "fseg h (free_head h) xs cur" "fseg h (word_at h (cur + 8)) ys UNULL"
    using okD(4) by (auto simp: fseg_append)
  show "x + 16 \<le> uh_size h" if "x \<in> set xs \<union> set ys" for x
  proof -
    have "x \<in> set (xs @ cur # ys)" using that by auto
    then obtain s where s: "(x, s, False) \<in> set (l @ [(cur, cs, False)] @ r)"
      using okD(6) by (auto simp: free_offs_def)
    show ?thesis using uheap_blockD(1,2) [OF ok s] by simp
  qed
qed


lemma wr_view [simp]:
  "uh_size (write_word a x h) = uh_size h" "uh_base (write_word a x h) = uh_base h"
  "os (write_word a x h) = os h" "free_head (write_word a x h) = free_head h"
  "word_at (write_word a x h) w = (if w = a then x else word_at h w)"
  by (simp_all add: write_word_def)

text \<open>Cutting the start of a free block off, and taking one whole.\<close>

lemma take_split:
  assumes ok: "uheap_ok (l @ [(cur, cs, False)] @ r) (xs @ cur # ys) h" and n: "cur \<notin> free_offs (l @ r)"
    and d: "16 \<le> needed" "8 dvd needed" "16 \<le> cs - needed"
  obtains h' where "take_block (prev_of xs) cur cs needed h = returns h'"
    "uheap_ok (l @ [(cur, needed, True), (cur + needed, cs - needed, False)] @ r) (xs @ (cur + needed) # ys) h'"
    "payloads_kept (l @ r) h h'" "uh_base h' = uh_base h" "uh_size h' = uh_size h" "os h' = os h"
proof -
  note okD = uheap_okD [OF ok] and S = uheap_list_split [OF ok n]
  note B = uheap_blockD [OF ok, of cur cs False, simplified]
  let ?new = "cur + needed"
  let ?h1 = "write_word ?new (header (cs - needed) False) h"
  let ?h2 = "write_word (?new + 8) (word_at h (cur + 8)) ?h1"
  let ?h3 = "write_word cur (header needed True) ?h2"
  let ?mid = "[(cur, needed, True), (?new, cs - needed, False)]"
  have d8: "8 dvd cs - needed" using B(3) d(2) by simp
  have new: "?new + 16 \<le> uh_size h" "uadd cur needed = ?new" "uadd ?new 16 = ?new + 16" "uadd ?new 8 = ?new + 8"
    "?new \<noteq> UNULL"
    using d B(1,4) okD(2) by (auto simp: uadd_exact)
  have agree: "agree_on (l @ r) h ?h3"
    by (rule agree_onI [OF okD(1), of cur "cur + cs"]) (use d B(2,3) in auto)
  have c1: "set_header ?new (cs - needed) False h = returns ?h1"
    using new B(1) d or_header [OF d8, of False] by (auto simp: set_header_def)
  have c2: "next_free_block cur ?h1 = returns (word_at h (cur + 8))"
    using B d by (auto simp: next_free_block_def)
  have c3: "set_free_next ?new (word_at h (cur + 8)) ?h1 = returns ?h2"
    using new by (auto simp: set_free_next_def)
  have c4: "set_header cur needed True ?h2 = returns ?h3"
    using B(1,5) d or_header [OF d(2), of True] by (auto simp: set_header_def)
  have c5: "set_link (prev_of xs) ?new ?h3 = returns (relink xs ?new ?h3)"
    by (rule set_link_relink) (use S(4) okD(2) in auto)
  have run: "take_block (prev_of xs) cur cs needed h = returns (relink xs ?new ?h3)"
    using d by (simp add: take_block_def Let_def new(2) c1 c2 c3 c4 c5)
  have sub: "set (l @ r) \<subseteq> set (l @ [(cur, cs, False)] @ r)" by auto
  note fs = agree_fseg [OF agree okD(1) sub]
  have xs: "fseg ?h3 (free_head ?h3) xs cur" using fs [of xs] S(1,2) by auto
  have "fseg ?h3 (word_at h (cur + 8)) ys UNULL" using fs [of ys] S(1,3) by auto
  then have ys: "fseg ?h3 ?new (?new # ys) UNULL" using new d by auto
  have T: "tiles 0 (l @ ?mid @ r) (uh_size h)"
    using okD(1) d d8 by (auto simp: tiles_append)
  have nin: "?new \<notin> set xs \<union> set ys"
    using tiles_distinct [OF T] unfolding S(1) by (auto simp: free_offs_def) force+
  have hd: "headers_ok ?mid ?h3" using d by (auto simp: headers_ok_def)
  have "uheap_ok (l @ ?mid @ r) (xs @ ?new # ys) (relink xs ?new ?h3)"
    "payloads_kept (l @ r) h (relink xs ?new ?h3)"
    by (rule relink_ok [OF ok _ agree_keeps [OF agree] hd _ _ xs ys]; use d d8 nin okD(5) S(1) in auto)+
  then show thesis using that run by simp
qed

lemma take_whole:
  assumes ok: "uheap_ok (l @ [(cur, cs, False)] @ r) (xs @ cur # ys) h" and n: "cur \<notin> free_offs (l @ r)"
    and d: "\<not> 16 \<le> cs - needed"
  obtains h' where "take_block (prev_of xs) cur cs needed h = returns h'"
    "uheap_ok (l @ [(cur, cs, True)] @ r) (xs @ ys) h'"
    "payloads_kept (l @ r) h h'" "uh_base h' = uh_base h" "uh_size h' = uh_size h" "os h' = os h"
proof -
  note okD = uheap_okD [OF ok] and S = uheap_list_split [OF ok n]
  note B = uheap_blockD [OF ok, of cur cs False, simplified]
  let ?h1 = "write_word cur (header cs True) h"
  have agree: "agree_on (l @ r) h ?h1"
    by (rule agree_onI [OF okD(1), of cur "cur + cs"]) (use B(2,3) in auto)
  have c1: "set_header cur cs True h = returns ?h1"
    using B(1,5) or_header [OF B(3), of True] by (auto simp: set_header_def)
  have c2: "next_free_block cur ?h1 = returns (word_at h (cur + 8))"
    using B by (auto simp: next_free_block_def)
  have c3: "set_link (prev_of xs) (word_at h (cur + 8)) ?h1 = returns (relink xs (word_at h (cur + 8)) ?h1)"
    by (rule set_link_relink) (use S(4) okD(2) in auto)
  have run: "take_block (prev_of xs) cur cs needed h = returns (relink xs (word_at h (cur + 8)) ?h1)"
    using d by (simp add: take_block_def Let_def c1 c2 c3)
  have sub: "set (l @ r) \<subseteq> set (l @ [(cur, cs, False)] @ r)" by auto
  note fs = agree_fseg [OF agree okD(1) sub]
  have xs: "fseg ?h1 (free_head ?h1) xs cur" using fs [of xs] S(1,2) by auto
  have ys: "fseg ?h1 (word_at h (cur + 8)) ys UNULL" using fs [of ys] S(1,3) by auto
  have hd: "headers_ok [(cur, cs, True)] ?h1" by (auto simp: headers_ok_def)
  have "uheap_ok (l @ [(cur, cs, True)] @ r) (xs @ ys) (relink xs (word_at h (cur + 8)) ?h1)"
    "payloads_kept (l @ r) h (relink xs (word_at h (cur + 8)) ?h1)"
    by (rule relink_ok [OF ok _ agree_keeps [OF agree] hd _ _ xs ys]; use okD(5) S(1) in auto)+
  then show thesis using that run by simp
qed

end
