(* ===== verification/User_Heap_Alloc.thy ===== *)
theory User_Heap_Alloc
  imports User_Heap_Inv
begin

text \<open>
  Allocation on the user heap: the search takes the first block of the free list that is large
  enough; when there is none the region grows. \<open>region_provider\<close> is what the operating system
  promises about the region.
\<close>

section \<open>First fit\<close>

lemma uheap_list_word:
  assumes "uheap_ok bs (xs @ y # ys) h"
  obtains s where "(y, s, False) \<in> set bs" "fseg h (word_at h (y + 8)) ys UNULL" "y \<noteq> UNULL"
proof -
  have "y \<in> set (xs @ y # ys)" by simp
  then obtain s where "(y, s, False) \<in> set bs" using uheap_freeD [OF assms] by blast
  moreover have "fseg h (word_at h (y + 8)) ys UNULL" "y \<noteq> UNULL"
    using uheap_okD(4) [OF assms] by (auto simp: fseg_append)
  ultimately show thesis using that by blast
qed

definition too_small :: "block list \<Rightarrow> usize \<Rightarrow> usize list \<Rightarrow> bool" where
  "too_small bs needed xs \<longleftrightarrow> (\<forall>x \<in> set xs. \<forall>s. (x, s, False) \<in> set bs \<longrightarrow> s < needed)"

lemma alloc_search_cases:
  assumes "uheap_ok bs (xs @ ys) h" "fseg h a ys UNULL"
  shows "(too_small bs needed ys \<and> alloc_search needed (prev_of xs) a h = returns (None, h))
    \<or> (\<exists>ys1 y ys2 s. ys = ys1 @ y # ys2 \<and> too_small bs needed ys1 \<and> (y, s, False) \<in> set bs \<and> needed \<le> s
        \<and> alloc_search needed (prev_of xs) a h = and_then (take_block (prev_of (xs @ ys1)) y s needed h)
            (\<lambda>h1. returns (Some (uadd (uh_base h1) (uadd y 8)), h1)))"
  using assms
proof (induction ys arbitrary: xs a)
  case Nil
  then show ?case by (subst (1) alloc_search.simps) (simp add: too_small_def)
next
  case (Cons y ys)
  obtain s where s: "(y, s, False) \<in> set bs" "fseg h (word_at h (y + 8)) ys UNULL" "y \<noteq> UNULL"
    using uheap_list_word [OF Cons.prems(1)] by blast
  note B = uheap_blockD [OF Cons.prems(1) s(1)]
  have a: "a = y" using Cons.prems(2) by simp
  show ?case
  proof (cases "needed \<le> s")
    case True
    then have "alloc_search needed (prev_of xs) a h = and_then (take_block (prev_of (xs @ [])) y s needed h)
            (\<lambda>h1. returns (Some (uadd (uh_base h1) (uadd y 8)), h1))"
      by (subst alloc_search.simps) (simp add: a s(3) B(10))
    then show ?thesis using True s(1) by (intro disjI2 exI [of _ "[]"] exI [of _ y] exI [of _ ys] exI [of _ s]) (simp add: too_small_def)
  next
    case False
    have step: "alloc_search needed (prev_of xs) a h = alloc_search needed (prev_of (xs @ [y])) (word_at h (y + 8)) h"
      using False by (subst alloc_search.simps) (simp add: a s(3) B(10,12))
    have u: "t = s" if "(y, t, False) \<in> set bs" for t
      using tiles_same_offset [OF uheap_okD(1) [OF Cons.prems(1)] that s(1)] by simp
    have "uheap_ok bs ((xs @ [y]) @ ys) h" using Cons.prems(1) by simp
    from Cons.IH [OF this s(2)] show ?thesis
    proof
      assume "too_small bs needed ys \<and> alloc_search needed (prev_of (xs @ [y])) (word_at h (y + 8)) h = returns (None, h)"
      then show ?thesis using step False u by (auto simp: too_small_def)
    next
      assume "\<exists>ys1 z ys2 s. ys = ys1 @ z # ys2 \<and> too_small bs needed ys1 \<and> (z, s, False) \<in> set bs \<and> needed \<le> s
        \<and> alloc_search needed (prev_of (xs @ [y])) (word_at h (y + 8)) h = and_then (take_block (prev_of ((xs @ [y]) @ ys1)) z s needed h)
            (\<lambda>h1. returns (Some (uadd (uh_base h1) (uadd z 8)), h1))"
      then obtain ys1 z ys2 t where z: "ys = ys1 @ z # ys2" "too_small bs needed ys1" "(z, t, False) \<in> set bs" "needed \<le> t"
        "alloc_search needed (prev_of (xs @ [y])) (word_at h (y + 8)) h = and_then (take_block (prev_of ((xs @ [y]) @ ys1)) z t needed h)
            (\<lambda>h1. returns (Some (uadd (uh_base h1) (uadd z 8)), h1))" by blast
      have "too_small bs needed (y # ys1)" using z(2) False u by (auto simp: too_small_def)
      then show ?thesis using z step
        by (intro disjI2 exI [of _ "y # ys1"] exI [of _ z] exI [of _ ys2] exI [of _ t]) simp
    qed
  qed
qed

text \<open>The effect of a successful allocation: a live payload of at least the wanted size at a new
  address, and nothing else changes for the owners of the other payloads.\<close>

definition granted :: "block list \<Rightarrow> 'k uheap \<Rightarrow> usize \<Rightarrow> usize \<Rightarrow> block list \<Rightarrow> 'k uheap \<Rightarrow> bool" where
  "granted bs h n p bs' h' \<longleftrightarrow> (\<exists>m. n \<le> m \<and> p \<notin> fst ` live_blocks h bs \<and> live_blocks h' bs' = insert (p, m) (live_blocks h bs))
     \<and> payloads_kept bs h h' \<and> uh_base h' = uh_base h
     \<and> (\<exists>off. 8 dvd off \<and> p = uh_base h + off)"

lemma take_block_granted:
  assumes ok: "uheap_ok bs (xs @ y # ys) h" and s: "(y, s, False) \<in> set bs"
    and n: "16 \<le> needed" "8 dvd needed" "needed \<le> s"
  obtains h' bs' fl' where "take_block (prev_of xs) y s needed h = returns h'" "uheap_ok bs' fl' h'"
    "granted bs h (needed - 8) (uadd (uh_base h') (uadd y 8)) bs' h'" "uh_size h' = uh_size h" "os h' = os h"
proof -
  obtain l r where lr: "bs = l @ [(y, s, False)] @ r" "y \<notin> free_offs (l @ r)" using uheap_split [OF ok s] by blast
  note okD = uheap_okD [OF ok] and B = uheap_blockD [OF ok s]
  have ok': "uheap_ok (l @ [(y, s, False)] @ r) (xs @ y # ys) h" using ok lr(1) by simp
  have p: "uadd (uh_base h) (uadd y 8) = uh_base h + y + 8" using B okD(2) by (simp add: uadd_exact)
  have fresh: "uh_base h + y + 8 \<notin> fst ` live_blocks h bs"
  proof
    assume "uh_base h + y + 8 \<in> fst ` live_blocks h bs"
    then obtain t where "(y, t, True) \<in> set bs" by (auto simp: live_blocks_def)
    then show False using tiles_same_offset [OF okD(1) s] by blast
  qed
  have al: "8 dvd y + 8" using tiles_aligned [OF okD(1) _ s] by simp
  have kept: "payloads_kept bs h h'" if "payloads_kept (l @ r) h h'" for h'
    by (rule payloads_kept_sub [OF that]) (use lr(1) in auto)
  have *: "granted bs h (needed - 8) (uadd (uh_base h') (uadd y 8)) (l @ (y, m0, True) # rest @ r) h'"
    if "payloads_kept (l @ r) h h'" "uh_base h' = uh_base h" "needed \<le> m0" "\<forall>t \<in> set rest. \<not> snd (snd t)" for h' m0 rest
  proof -
    have rest: "live_blocks h' rest = {}" using that(4) by (auto simp: live_blocks_def)
    have "live_blocks h' (l @ (y, m0, True) # rest @ r) = insert (uh_base h + y + 8, m0 - 8) (live_blocks h bs)"
      using lr(1) rest that(2) by (simp add: live_blocks_base [OF that(2)])
    then have 1: "\<exists>m. needed - 8 \<le> m \<and> uh_base h + y + 8 \<notin> fst ` live_blocks h bs
        \<and> live_blocks h' (l @ (y, m0, True) # rest @ r) = insert (uh_base h + y + 8, m) (live_blocks h bs)"
      using that(3) fresh by (intro exI [of _ "m0 - 8"]) simp
    have 2: "\<exists>off. 8 dvd off \<and> uh_base h + y + 8 = uh_base h + off" using al by (intro exI [of _ "y + 8"]) simp
    show ?thesis unfolding granted_def that(2) p using 1 2 kept [OF that(1)] by simp
  qed
  show thesis
  proof (cases "16 \<le> s - needed")
    case True
    obtain h' where h': "take_block (prev_of xs) y s needed h = returns h'"
      "uheap_ok (l @ [(y, needed, True), (y + needed, s - needed, False)] @ r) (xs @ (y + needed) # ys) h'"
      "payloads_kept (l @ r) h h'" "uh_base h' = uh_base h" "uh_size h' = uh_size h" "os h' = os h"
      by (rule take_split [OF ok' lr(2) n(1,2) True])
    show thesis
      by (rule that [OF h'(1,2) _ h'(5,6)]) (use * [OF h'(3,4), of needed "[(y + needed, s - needed, False)]"] in simp)
  next
    case False
    obtain h' where h': "take_block (prev_of xs) y s needed h = returns h'"
      "uheap_ok (l @ [(y, s, True)] @ r) (xs @ ys) h'"
      "payloads_kept (l @ r) h h'" "uh_base h' = uh_base h" "uh_size h' = uh_size h" "os h' = os h"
      by (rule take_whole [OF ok' lr(2) False])
    show thesis
      by (rule that [OF h'(1,2) _ h'(5,6)]) (use * [OF h'(3,4) n(3), of "[]"] in simp)
  qed
qed


section \<open>Rounding\<close>

lemma align_up_pow:
  assumes "x + 2 ^ k \<le> usize_span"
  shows "align_up x (2 ^ k) = (x + 2 ^ k - 1) div 2 ^ k * 2 ^ k"
proof (cases "x + 2 ^ k = usize_span")
  case True
  have "1 \<le> (2::nat) ^ k" by simp
  moreover have "k \<le> 64"
  proof (rule ccontr)
    assume "\<not> k \<le> 64"
    then have "(2::nat) ^ 65 \<le> 2 ^ k" by (intro power_increasing) auto
    then show False using assms by simp
  qed
  moreover have "uadd x (2 ^ k) = 0" using True by (simp add: uadd_def)
  ultimately have "align_up x (2 ^ k) = and_not (usize_span - 1) (2 ^ k - 1)"
    by (simp add: align_up_def usub_def)
  also have "\<dots> = (usize_span - 1) div 2 ^ k * 2 ^ k" by (rule and_not_mask) simp
  finally show ?thesis using True by simp
next
  case False
  then have "uadd x (2 ^ k) = x + 2 ^ k" using assms by (simp add: uadd_exact)
  moreover have "usub (x + 2 ^ k) 1 = x + 2 ^ k - 1" "usub (2 ^ k) 1 = 2 ^ k - 1" by (rule usub_exact, simp add: Suc_le_eq)+
  moreover have "x + 2 ^ k - 1 < usize_span" using assms by linarith
  ultimately show ?thesis by (simp only: align_up_def and_not_mask)
qed

lemma align_up_facts:
  assumes "x + 2 ^ k \<le> usize_span"
  shows "x \<le> align_up x (2 ^ k)" "align_up x (2 ^ k) < x + 2 ^ k" "2 ^ k dvd align_up x (2 ^ k)"
proof -
  let ?y = "x + 2 ^ k - 1"
  have p: "1 \<le> (2::nat) ^ k" by simp
  have "?y div 2 ^ k * 2 ^ k + ?y mod 2 ^ k = ?y" "?y mod 2 ^ k < 2 ^ k" by (rule div_mult_mod_eq, simp)
  then show "x \<le> align_up x (2 ^ k)" "align_up x (2 ^ k) < x + 2 ^ k" "2 ^ k dvd align_up x (2 ^ k)"
    unfolding align_up_pow [OF assms] using p by linarith+ simp
qed

text \<open>The block size of a request: header, and payload rounded up to the alignment or to 8.\<close>

lemma needed_size_facts:
  assumes "0 < n" "n < 2 ^ 62" "k \<le> 12"
  shows "16 \<le> needed_size n (2 ^ k)" "8 dvd needed_size n (2 ^ k)" "n + 8 \<le> needed_size n (2 ^ k)"
    "needed_size n (2 ^ k) < 2 ^ 62 + 2 ^ 13"
proof -
  let ?m = "max k 3"
  have k: "(2::nat) ^ k \<le> 2 ^ 12" "(2::nat) ^ ?m \<le> 2 ^ 12" using assms(3) by (intro power_increasing; simp)+
  have a: "align_up (2 ^ k) 8 = 2 ^ ?m"
  proof -
    have r: "align_up (2 ^ k) (2 ^ 3) = (2 ^ k + 2 ^ 3 - 1) div 2 ^ 3 * 2 ^ 3" using k by (intro align_up_pow) simp
    show ?thesis
    proof (cases "k \<le> 3")
      case True
      then have "k \<in> {0, 1, 2, 3}" by auto
      then show ?thesis using r by auto
    next
      case False
      then have "(2::nat) ^ k = 2 ^ 3 * 2 ^ (k - 3)" by (metis le_add_diff_inverse linorder_le_cases power_add)
      then show ?thesis using r False by simp
    qed
  qed
  have b: "n + 2 ^ ?m \<le> usize_span" using assms(2) k(2) by simp
  note f = align_up_facts [OF b]
  have "align_up n (2 ^ ?m) < 2 ^ 62 + 2 ^ 12" using f(2) assms(2) k(2) by linarith
  then have e: "needed_size n (2 ^ k) = 8 + align_up n (2 ^ ?m)"
    by (simp add: needed_size_def a uadd_exact)
  have "(2::nat) ^ 3 dvd 2 ^ ?m" by (intro le_imp_power_dvd) simp
  then have d: "8 dvd align_up n (2 ^ ?m)" using dvd_trans [OF _ f(3), of "2 ^ 3"] by simp
  then show "8 dvd needed_size n (2 ^ k)" "n + 8 \<le> needed_size n (2 ^ k)" "needed_size n (2 ^ k) < 2 ^ 62 + 2 ^ 13"
    using e f(1) \<open>align_up n (2 ^ ?m) < 2 ^ 62 + 2 ^ 12\<close> by auto
  have "8 \<le> align_up n (2 ^ ?m)" using d f(1) assms(1) by (auto elim!: dvdE)
  then show "16 \<le> needed_size n (2 ^ k)" using e by simp
qed

section \<open>Growth\<close>

lemma last_free_ok:
  assumes "\<And>x. x \<in> set (xs @ [y]) \<Longrightarrow> x + 16 \<le> uh_size h" "uh_size h < usize_span" "fseg h a (xs @ [y]) UNULL"
  shows "last_free a h = returns y"
  using assms(1,3)
proof (induction xs arbitrary: a)
  case Nil
  then show ?case using assms(2) by (subst last_free.simps) (simp add: next_free_block_def uadd_exact)
next
  case (Cons x xs)
  have "word_at h (x + 8) \<noteq> UNULL" using Cons.prems(2) by (cases xs) auto
  then have "last_free a h = last_free (word_at h (x + 8)) h"
    using Cons.prems(1) [of x] Cons.prems(2) assms(2)
    by (subst last_free.simps) (simp add: next_free_block_def uadd_exact)
  then show ?case using Cons by simp
qed

lemma uheap_ok_os: "uheap_ok bs fl (h\<lparr>os := k\<rparr>) = uheap_ok bs fl h"
proof -
  have "fseg (h\<lparr>os := k\<rparr>) a xs b = fseg h a xs b" for a xs b by (rule fseg_cong) simp
  then show ?thesis by (simp add: uheap_ok_def headers_ok_def)
qed

text \<open>A larger region is the old one followed by a free block, which is last in the free list.\<close>

lemma uheap_grow_ok:
  assumes ok: "uheap_ok bs fl h"
    and call: "sys (int (align_up needed HEAP_GROW_SIZE)) (os h) = returns ((24, b, uh_size h + g), k')"
    and g: "16 \<le> g" "8 dvd g" "b \<noteq> 0" "uh_base h + (uh_size h + g) < usize_span"
  obtains h' where "uheap_grow sys needed h = returns (True, h')"
    "uheap_ok (bs @ [(uh_size h, g, False)]) (fl @ [uh_size h]) h'"
    "payloads_kept bs h h'" "uh_base h' = uh_base h" "uh_size h' = uh_size h + g" "os h' = k'"
proof -
  let ?old = "uh_size h"
  let ?h1 = "h\<lparr>os := k', uh_size := ?old + g\<rparr>"
  let ?h2 = "write_word (?old + 8) UNULL (write_word ?old g ?h1)"
  let ?h' = "relink fl ?old ?h2"
  note okD = uheap_okD [OF ok]
  have b8: "g OR 0 = g" by simp
  have call': "uheap_resize sys (int (align_up needed HEAP_GROW_SIZE)) h = returns (Some (b, ?old + g), h\<lparr>os := k'\<rparr>)"
    using call g by (simp add: uheap_resize_def)
  have c1: "set_header ?old (usub (?old + g) ?old) False ?h1 = returns (write_word ?old g ?h1)"
    using g by (simp add: set_header_def usub_exact)
  have c2: "set_free_next ?old UNULL (write_word ?old g ?h1) = returns ?h2"
    using g okD(2) by (simp add: set_free_next_def uadd_exact)
  have same: "word_at ?h2 (off + i) = word_at h (off + i)" if "(off, s, al) \<in> set bs" "i < s" for off s al i
    using tiles_member [OF okD(1) that(1)] that(2) by simp
  have fs: "fseg ?h2 a xs c = fseg h a xs c" if "set xs \<subseteq> set fl" for a xs c
  proof (rule fseg_cong)
    fix x assume "x \<in> set xs"
    then have "x \<in> set fl" using that by blast
    then obtain s where s: "(x, s, False) \<in> set bs" using uheap_free_ex [OF ok, of x] by auto
    then show "word_at ?h2 (x + 8) = word_at h (x + 8)" using same [OF s, of 8] tiles_member [OF okD(1) s] by auto
  qed
  have hds: "headers_ok (bs @ [(?old, g, False)]) ?h2"
    using same [of _ _ _ 0] tiles_member [OF okD(1)] headers_okD [OF okD(3)]
    by (auto simp: headers_ok_def header_def) (fastforce simp: header_def)+
  have T: "tiles 0 (bs @ [(?old, g, False)]) (?old + g)" using okD(1) g by (auto simp: tiles_append)
  have old: "?old \<notin> set fl" using tiles_member [OF okD(1)] okD(6) by (fastforce simp: free_offs_def)
  have seg2: "fseg ?h2 (free_head ?h2) fl UNULL" "fseg ?h2 ?old [?old] UNULL"
    using fs [of fl] okD(4) g by auto
  have dist: "distinct (fl @ [?old])" using okD(5) old by simp
  have set': "set (fl @ [?old]) = free_offs (bs @ [(?old, g, False)])" using okD(6) by auto
  have rk: "keeps (bs @ [(?old, g, False)]) ?h2 ?h'"
    by (rule relink_keeps [OF T]) (use okD(6) in auto)
  have "word_at ?h' off = header s al" if "(off, s, al) \<in> set (bs @ [(?old, g, False)])" for off s al
    using uheap_keepsD [OF rk that, of 0] headers_okD [OF hds that] tiles_member [OF T that] by simp
  then have hd': "headers_ok (bs @ [(?old, g, False)]) ?h'" unfolding headers_ok_def by auto
  have "fseg ?h' (free_head ?h') (fl @ [?old]) UNULL" by (rule relink_list [OF seg2 dist])
  then have "uheap_ok (bs @ [(?old, g, False)]) (fl @ [?old]) ?h'"
    unfolding uheap_ok_def using T g(4) hd' dist set' by simp
  moreover have "payloads_kept bs h ?h'"
    unfolding payloads_kept_def
  proof (clarify)
    fix off s al i assume m: "(off, s, al) \<in> set bs" "al" "i < s"
    then show "word_at ?h' (off + i) = word_at h (off + i)"
      using uheap_keepsD [OF rk, of off s al i] same [OF m(1,3)] by simp
  qed
  moreover have "uheap_grow sys needed h = returns (True, ?h')"
  proof (cases fl rule: rev_cases)
    case Nil
    then have "free_head h = UNULL" using okD(4) by simp
    then show ?thesis using Nil by (simp add: uheap_grow_def Let_def call' c1 c2 relink_def)
  next
    case (snoc ys y)
    then have nn: "free_head h \<noteq> UNULL" using okD(4) fseg_null by blast
    have bd: "x + 16 \<le> ?old" if "x \<in> set fl" for x
      using uheap_free_ex [OF ok that] tiles_member [OF okD(1), of x] by fastforce
    then have bnd: "y + 16 \<le> ?old" using snoc by simp
    have f1: "fseg ?h2 (free_head h) (ys @ [y]) UNULL" using seg2(1) snoc by simp
    have "last_free (free_head h) ?h2 = returns y"
      by (rule last_free_ok [OF _ _ f1]) (use bd snoc g(4) in fastforce)+
    moreover have "set_free_next y ?old ?h2 = returns ?h'"
      using bnd okD(2) by (simp add: set_free_next_def snoc relink_def uadd_exact)
    ultimately show ?thesis using nn by (simp add: uheap_grow_def Let_def call' c1 c2)
  qed
  ultimately show thesis using that by simp
qed


section \<open>What the operating system provides\<close>

text \<open>\<open>region k\<close> is the base and size of the heap region in the state \<open>k\<close>, and \<open>room k n\<close> says
  that \<open>n\<close> more bytes can be had.\<close>

locale region_provider =
  fixes sys :: "'k resize_call" and kinv :: "'k \<Rightarrow> bool" and region :: "'k \<Rightarrow> usize \<times> usize"
    and room :: "'k \<Rightarrow> nat \<Rightarrow> bool"
  assumes region_ok: "kinv k \<Longrightarrow> fst (region k) \<noteq> 0 \<and> fst (region k) + snd (region k) < usize_span \<and> 4096 dvd snd (region k)"
    and grows: "kinv k \<Longrightarrow> 0 < n \<Longrightarrow> n < 2 ^ 63 \<Longrightarrow> 4096 dvd n \<Longrightarrow> room k n \<Longrightarrow>
      \<exists>k'. sys (int n) k = returns ((24, fst (region k), snd (region k) + n), k') \<and> kinv k'
         \<and> region k' = (fst (region k), snd (region k) + n)"
begin

definition attached :: "block list \<Rightarrow> usize list \<Rightarrow> 'k uheap \<Rightarrow> bool" where
  "attached bs fl h \<longleftrightarrow> uheap_ok bs fl h \<and> kinv (os h) \<and> region (os h) = (uh_base h, uh_size h)"

lemma grow_attached:
  assumes a: "attached bs fl h" and n: "needed \<le> n" "n = align_up needed HEAP_GROW_SIZE"
    "0 < n" "n < 2 ^ 63" "4096 dvd n" and room: "room (os h) n"
  obtains h' where "uheap_grow sys needed h = returns (True, h')"
    "attached (bs @ [(uh_size h, n, False)]) (fl @ [uh_size h]) h'"
    "payloads_kept bs h h'" "uh_base h' = uh_base h"
proof -
  have k: "uheap_ok bs fl h" "kinv (os h)" "region (os h) = (uh_base h, uh_size h)"
    using a by (simp_all add: attached_def)
  obtain k' where g: "sys (int n) (os h) = returns ((24, uh_base h, uh_size h + n), k')" "kinv k'"
    "region k' = (uh_base h, uh_size h + n)"
    using grows [OF k(2) n(3-5) room] k(3) by auto
  have r: "uh_base h \<noteq> 0" "uh_base h + (uh_size h + n) < usize_span"
    using region_ok [OF k(2)] region_ok [OF g(2)] k(3) g(3) by auto
  have g': "sys (int (align_up needed HEAP_GROW_SIZE)) (os h) = returns ((24, uh_base h, uh_size h + n), k')"
    using g(1) n(2) by simp
  have d: "16 \<le> n" "8 dvd n" using n(3,5) by (auto elim!: dvdE)
  obtain h' where h': "uheap_grow sys needed h = returns (True, h')"
    "uheap_ok (bs @ [(uh_size h, n, False)]) (fl @ [uh_size h]) h'"
    "payloads_kept bs h h'" "uh_base h' = uh_base h" "uh_size h' = uh_size h + n" "os h' = k'"
    by (rule uheap_grow_ok [where g = n and sys = sys, OF k(1) g' d r])
  show thesis by (rule that [OF h'(1) _ h'(3,4)]) (use h' g in \<open>simp add: attached_def\<close>)
qed

lemma granted_attached:
  assumes a: "attached bs fl h" and n: "0 < n" "n < 2 ^ 62" "k \<le> 12"
    and fit: "\<not> too_small bs (needed_size n (2 ^ k)) fl"
  obtains p h' bs' fl' where "uheap_alloc sys n (2 ^ k) h = returns (Some p, h')" "attached bs' fl' h'"
    "granted bs h n p bs' h'"
proof -
  let ?needed = "needed_size n (2 ^ k)"
  have k: "uheap_ok bs fl h" "kinv (os h)" "region (os h) = (uh_base h, uh_size h)"
    using a by (simp_all add: attached_def)
  note N = needed_size_facts [OF n]
  have head: "free_head h \<noteq> UNULL"
    using fit fseg_null [OF uheap_okD(4) [OF k(1)]] by (auto simp: too_small_def)
  have pre: "uheap_ok bs ([] @ fl) h" using k(1) by simp
  obtain ys1 y ys2 s where y: "fl = ys1 @ y # ys2" "(y, s, False) \<in> set bs" "?needed \<le> s"
    "alloc_search ?needed None (free_head h) h = and_then (take_block (prev_of ys1) y s ?needed h)
            (\<lambda>h1. returns (Some (uadd (uh_base h1) (uadd y 8)), h1))"
    using alloc_search_cases [OF pre uheap_okD(4) [OF k(1)], of ?needed] fit by auto
  have ok: "uheap_ok bs (ys1 @ y # ys2) h" using k(1) y(1) by simp
  obtain h' bs' fl' where h': "take_block (prev_of ys1) y s ?needed h = returns h'" "uheap_ok bs' fl' h'"
    "granted bs h (?needed - 8) (uadd (uh_base h') (uadd y 8)) bs' h'" "uh_size h' = uh_size h" "os h' = os h"
    by (rule take_block_granted [OF ok y(2) N(1,2) y(3)])
  have run: "uheap_alloc sys n (2 ^ k) h = returns (Some (uadd (uh_base h') (uadd y 8)), h')"
    using head n(1) y(4) h'(1) by (subst uheap_alloc.simps) (simp add: Let_def)
  have "granted bs h n (uadd (uh_base h') (uadd y 8)) bs' h'"
    using h'(3) N(3) unfolding granted_def by (meson Nat.le_diff_conv2 N(1) le_trans add_leD2 le_diff_conv2)
  moreover have "uh_base h' = uh_base h" using h'(3) by (simp add: granted_def)
  ultimately show thesis
    using that [of "uadd (uh_base h') (uadd y 8)" h' bs' fl'] h' k run by (simp add: attached_def)
qed

text \<open>Every request that fits the free list or that the system has room for is granted.\<close>

lemma alloc_ok:
  assumes a: "attached bs fl h" and n: "0 < n" "n < 2 ^ 62" "k \<le> 12" and ini: "uh_size h \<noteq> 0"
    and room: "too_small bs (needed_size n (2 ^ k)) fl \<Longrightarrow> room (os h) (align_up (needed_size n (2 ^ k)) HEAP_GROW_SIZE)"
  obtains p h' bs' fl' where "uheap_alloc sys n (2 ^ k) h = returns (Some p, h')" "attached bs' fl' h'"
    "granted bs h n p bs' h'"
proof (cases "too_small bs (needed_size n (2 ^ k)) fl")
  case False
  then show thesis by (rule granted_attached [OF a n]) (rule that)
next
  case True
  let ?needed = "needed_size n (2 ^ k)" and ?g = "align_up (needed_size n (2 ^ k)) HEAP_GROW_SIZE"
  have k: "uheap_ok bs fl h" "kinv (os h)" "region (os h) = (uh_base h, uh_size h)"
    using a by (simp_all add: attached_def)
  note N = needed_size_facts [OF n]
  have p18: "(2::nat) ^ 18 = HEAP_GROW_SIZE" by simp
  have g: "?needed \<le> ?g" "?g < ?needed + 2 ^ 18" "2 ^ 18 dvd ?g"
    using align_up_facts [of ?needed 18] N(4) unfolding p18 by simp_all
  have g2: "0 < ?g" "?g < 2 ^ 63" "4096 dvd ?g"
    using g N(1,4) dvd_trans [of 4096 "2 ^ 18" ?g] by auto
  obtain h1 where h1: "uheap_grow sys ?needed h = returns (True, h1)"
    "attached (bs @ [(uh_size h, ?g, False)]) (fl @ [uh_size h]) h1"
    "payloads_kept bs h h1" "uh_base h1 = uh_base h"
    by (rule grow_attached [OF a g(1) refl g2 room [OF True]])
  have fit: "\<not> too_small (bs @ [(uh_size h, ?g, False)]) ?needed (fl @ [uh_size h])"
    using g(1) by (auto simp: too_small_def)
  obtain p h' bs' fl' where r: "uheap_alloc sys n (2 ^ k) h1 = returns (Some p, h')" "attached bs' fl' h'"
    "granted (bs @ [(uh_size h, ?g, False)]) h1 n p bs' h'"
    by (rule granted_attached [OF h1(2) n fit])
  have pre: "uheap_ok bs ([] @ fl) h" using k(1) by simp
  have miss: "alloc_search ?needed None (free_head h) h = returns (None, h)"
    using alloc_search_cases [OF pre uheap_okD(4) [OF k(1)], of ?needed] True
      tiles_same_offset [OF uheap_okD(1) [OF k(1)]]
    by (fastforce simp: too_small_def)
  have "uheap_alloc sys n (2 ^ k) h = uheap_alloc sys n (2 ^ k) h1"
    using ini n(1) miss h1(1)
    by (subst (1) uheap_alloc.simps) (cases "free_head h = UNULL", simp_all add: uheap_init_def Let_def)
  moreover have "granted bs h n p bs' h'"
    using r(3) h1(3,4) payloads_kept_sub [of _ _ _ bs]
    by (auto simp: granted_def live_blocks_base [OF h1(4)] elim!: payloads_kept_trans)
  ultimately show thesis using that r(1,2) by simp
qed

text \<open>The heap is set up on the first use.\<close>

lemma init_attached:
  assumes k: "kinv k" "room k INIT_HEAP_SIZE"
  obtains h n where "uheap_init sys (uheap_new k) = returns h" "INIT_HEAP_SIZE \<le> n"
    "attached [(0, n, False)] [0] h" "uh_size h = n"
proof -
  let ?b = "fst (region k)" and ?n = "snd (region k) + INIT_HEAP_SIZE"
  obtain k' where g: "sys (int INIT_HEAP_SIZE) k = returns ((24, ?b, ?n), k')" "kinv k'" "region k' = (?b, ?n)"
    using grows [OF k(1) _ _ _ k(2)] by auto
  have r: "?b \<noteq> 0" "?b + ?n < usize_span" "4096 dvd ?n" using region_ok [OF k(1)] region_ok [OF g(2)] g(3) by auto
  have d: "8 dvd ?n" using dvd_trans [OF _ r(3), of 8] by simp
  let ?h = "(write_word 8 UNULL (write_word 0 ?n ((uheap_new k)\<lparr>os := k', uh_base := ?b, uh_size := ?n\<rparr>)))\<lparr>free_head := 0\<rparr>"
  have "uheap_init sys (uheap_new k) = returns ?h"
    using r g(1) or_header [OF d, of False]
    by (simp add: uheap_init_def uheap_resize_def uheap_new_def set_header_def set_free_next_def uadd_exact)
  moreover have "attached [(0, ?n, False)] [0] ?h"
    using r d g(2,3) by (simp add: attached_def uheap_ok_def headers_ok_def header_def uheap_new_def)
  ultimately show thesis using that [of ?h ?n] by simp
qed

lemma first_alloc:
  assumes "uheap_init sys (uheap_new k) = returns h" "attached [(0, n, False)] [0] h"
  shows "uheap_alloc sys m a (uheap_new k) = uheap_alloc sys m a h"
proof -
  have "free_head h \<noteq> UNULL" using assms(2) by (simp add: attached_def uheap_ok_def)
  then show ?thesis
    by (subst (1 2) uheap_alloc.simps) (simp add: assms(1), simp add: uheap_new_def)
qed

end

end
