(* ===== verification/User_Heap_Free.thy ===== *)
theory User_Heap_Free
  imports User_Heap_Inv
begin

text \<open>
  Release on the user heap: the block goes to the head of the free list and is merged with the
  free blocks to its right, then with those to its left. After each merge the invariant holds,
  for a shorter list of blocks, which is why both loops end.
\<close>

section \<open>Removal from the free list\<close>

lemma find_free_cases:
  assumes "\<And>x. x \<in> set ys \<Longrightarrow> x + 16 \<le> uh_size h" "uh_size h < usize_span" "fseg h a ys UNULL"
  shows "(t \<notin> set ys \<and> find_free t (prev_of xs) a h = returns None)
    \<or> (\<exists>ys1 ys2. ys = ys1 @ t # ys2 \<and> find_free t (prev_of xs) a h = returns (Some (prev_of (xs @ ys1))))"
  using assms(1,3)
proof (induction ys arbitrary: xs a)
  case Nil
  then show ?case by (subst (1) find_free.simps) simp
next
  case (Cons y ys)
  have a: "a = y" "a \<noteq> UNULL" using Cons.prems(2) by auto
  show ?case
  proof (cases "y = t")
    case True
    then have "find_free t (prev_of xs) a h = returns (Some (prev_of (xs @ [])))"
      using a by (subst find_free.simps) simp
    then show ?thesis using True by (intro disjI2 exI [of _ "[]"] exI [of _ ys]) simp
  next
    case False
    have "find_free t (prev_of xs) a h = find_free t (prev_of (xs @ [y])) (word_at h (y + 8)) h"
      using False a Cons.prems(1) [of y] assms(2)
      by (subst find_free.simps) (simp add: next_free_block_def uadd_exact)
    moreover have "(t \<notin> set ys \<and> find_free t (prev_of (xs @ [y])) (word_at h (y + 8)) h = returns None)
      \<or> (\<exists>ys1 ys2. ys = ys1 @ t # ys2 \<and> find_free t (prev_of (xs @ [y])) (word_at h (y + 8)) h = returns (Some (prev_of ((xs @ [y]) @ ys1))))"
      by (rule Cons.IH) (use Cons.prems in auto)
    ultimately show ?thesis using False
      by (elim disjE exE conjE) (simp, intro disjI2 exI [of _ "y # _"] exI, simp)
  qed
qed

text \<open>A list of blocks that is linked from the head, for states between two updates.\<close>

definition linked :: "usize list \<Rightarrow> 'k uheap \<Rightarrow> bool" where
  "linked fl h \<longleftrightarrow> fseg h (free_head h) fl UNULL \<and> distinct fl \<and> (\<forall>x \<in> set fl. x + 16 \<le> uh_size h) \<and> uh_size h < usize_span"

lemma uheap_linked: "uheap_ok bs fl h \<Longrightarrow> linked fl h"
  using uheap_free_ex uheap_blockD(1,2) by (fastforce simp: linked_def uheap_ok_def)

lemma unlink_ok:
  assumes "linked (xs @ t # ys) h"
  shows "unlink_free (prev_of xs) t h = returns (relink xs (word_at h (t + 8)) h)"
    "linked (xs @ ys) (relink xs (word_at h (t + 8)) h)"
proof -
  have l: "fseg h (free_head h) xs t" "fseg h (word_at h (t + 8)) ys UNULL" "distinct (xs @ ys)"
    "\<forall>x \<in> set (xs @ ys). x + 16 \<le> uh_size h" "uh_size h < usize_span" "t + 16 \<le> uh_size h"
    using assms by (auto simp: linked_def fseg_append)
  have "set_link (prev_of xs) (word_at h (t + 8)) h = returns (relink xs (word_at h (t + 8)) h)"
    by (rule set_link_relink) (use l in auto)
  then show "unlink_free (prev_of xs) t h = returns (relink xs (word_at h (t + 8)) h)"
    using l(5,6) by (simp add: unlink_free_def next_free_block_def uadd_exact)
  show "linked (xs @ ys) (relink xs (word_at h (t + 8)) h)"
    unfolding linked_def using relink_list [OF l(1,2,3)] l by simp
qed

lemma remove_free_ok:
  assumes "linked fl h" "t \<in> set fl"
  obtains xs ys where "fl = xs @ t # ys" "remove_free t h = returns (relink xs (word_at h (t + 8)) h)"
    "linked (xs @ ys) (relink xs (word_at h (t + 8)) h)"
proof -
  have l: "fseg h (free_head h) fl UNULL" "\<And>x. x \<in> set fl \<Longrightarrow> x + 16 \<le> uh_size h" "uh_size h < usize_span"
    using assms(1) by (auto simp: linked_def)
  obtain xs ys where s: "fl = xs @ t # ys" "find_free t None (free_head h) h = returns (Some (prev_of xs))"
    using find_free_cases [OF l(2,3,1), of t "[]"] assms(2) by auto
  have "remove_free t h = returns (relink xs (word_at h (t + 8)) h)"
    using s(2) unlink_ok(1) assms(1) unfolding s(1) by (simp add: remove_free_def)
  then show thesis using that s(1) unlink_ok(2) assms(1) unfolding s(1) by blast
qed

section \<open>Merging\<close>

text \<open>What a merge leaves alone: the live blocks, their payloads, and the region.\<close>

definition merged :: "block list \<Rightarrow> 'k uheap \<Rightarrow> block list \<Rightarrow> 'k uheap \<Rightarrow> bool" where
  "merged bs h bs' h' \<longleftrightarrow> (\<forall>x s. (x, s, True) \<in> set bs' \<longleftrightarrow> (x, s, True) \<in> set bs) \<and> payloads_kept bs h h'
     \<and> uh_base h' = uh_base h \<and> uh_size h' = uh_size h \<and> os h' = os h"

lemma merged_refl: "merged bs h bs h"
  by (simp add: merged_def payloads_kept_refl)

lemma merged_trans: "merged bs h bs1 h1 \<Longrightarrow> merged bs1 h1 bs2 h2 \<Longrightarrow> merged bs h bs2 h2"
  unfolding merged_def using payloads_kept_trans by (metis (no_types, lifting))

lemma live_merged: "merged bs h bs' h' \<Longrightarrow> live_blocks h' bs' = live_blocks h bs"
  by (simp add: merged_def live_blocks_def)

lemma payloads_kept_mid:
  "payloads_kept (l @ r) h h' \<Longrightarrow> \<forall>t \<in> set mid. \<not> snd (snd t) \<Longrightarrow> payloads_kept (l @ mid @ r) h h'"
  by (fastforce simp: payloads_kept_def)

text \<open>The block to the right of one that does not end the region.\<close>

lemma block_right:
  assumes "uheap_ok bs fl h" "(b, s, al) \<in> set bs" "b + s < uh_size h"
  obtains l r s2 al2 where "bs = l @ [(b, s, al), (b + s, s2, al2)] @ r"
proof -
  obtain l r0 where lr: "bs = l @ (b, s, al) # r0" using split_list [OF assms(2)] by auto
  have "tiles (b + s) r0 (uh_size h)" using uheap_okD(1) [OF assms(1)] lr by (auto simp: tiles_append)
  then obtain s2 al2 r where "r0 = (b + s, s2, al2) # r" using assms(3) by (cases r0) auto
  then show thesis using that lr by simp
qed

lemma right_step:
  assumes ok: "uheap_ok (l @ [(b, s, False), (b + s, s2, False)] @ r) (xs @ (b + s) # ys) h"
  obtains h' where "and_then (set_header b (uadd s s2) False h) (unlink_free (prev_of xs) (b + s)) = returns h'"
    "uheap_ok (l @ [(b, s + s2, False)] @ r) (xs @ ys) h'"
    "merged (l @ [(b, s, False), (b + s, s2, False)] @ r) h (l @ [(b, s + s2, False)] @ r) h'" "uadd s s2 = s + s2"
proof -
  let ?bs = "l @ [(b, s, False), (b + s, s2, False)] @ r"
  note okD = uheap_okD [OF ok]
  note B = uheap_blockD [OF ok, of b s False, simplified] and C = uheap_blockD [OF ok, of "b + s" s2 False, simplified]
  let ?h1 = "write_word b (header (s + s2) False) h"
  have d8: "8 dvd s + s2" using B(3) C(3) by simp
  have a: "uadd s s2 = s + s2" using C(1,4) by (simp add: uadd_exact)
  have c1: "set_header b (s + s2) False h = returns ?h1"
    using B(5) C(1) or_header [OF d8, of False] by (auto simp: set_header_def)
  have agree: "agree_on (l @ r) h ?h1"
    by (rule agree_onI [OF okD(1), of b "b + s + s2"]) (use B(2,3) C(2,3) in auto)
  have fs: "fseg ?h1 a zs c = fseg h a zs c" if "set zs \<subseteq> set (xs @ (b + s) # ys)" for a zs c
  proof (rule fseg_cong)
    fix x assume "x \<in> set zs"
    then have "x \<in> set (xs @ (b + s) # ys)" using that by blast
    then obtain t where t: "(x, t, False) \<in> set ?bs" using uheap_free_ex [OF ok] by blast
    have "x + 8 \<noteq> b"
      using tiles_apart [OF okD(1) t, of b s False] tiles_member [OF okD(1) t] B(2) by auto
    then show "word_at ?h1 (x + 8) = word_at h (x + 8)" by simp
  qed
  have "fseg ?h1 (free_head ?h1) (xs @ (b + s) # ys) UNULL" using fs okD(4) by simp
  then have l: "linked (xs @ (b + s) # ys) ?h1" using uheap_linked [OF ok] by (simp add: linked_def)
  note u = unlink_ok [OF l]
  have seg: "fseg ?h1 (free_head ?h1) xs (b + s)" "fseg ?h1 (word_at ?h1 (b + s + 8)) ys UNULL"
    using l by (auto simp: linked_def fseg_append)
  have n: "b + s \<notin> free_offs l \<union> free_offs r" "b \<notin> free_offs l \<union> free_offs r" "b + s \<noteq> b"
    using tiles_distinct [OF okD(1)] by (auto simp: free_offs_def) force+
  have st: "set (xs @ ys) = free_offs (l @ [(b, s + s2, False)] @ r)"
  proof -
    have "insert (b + s) (set (xs @ ys)) = insert (b + s) (insert b (free_offs l \<union> free_offs r))"
      using okD(6) by auto
    moreover have "b + s \<notin> set (xs @ ys)" "b + s \<notin> insert b (free_offs l \<union> free_offs r)" using okD(5) n by auto
    ultimately have "set (xs @ ys) = insert b (free_offs l \<union> free_offs r)" using insert_ident by metis
    then show ?thesis by simp
  qed
  have hd: "headers_ok [(b, s + s2, False)] ?h1" by (simp add: headers_ok_def)
  have R: "uheap_ok (l @ [(b, s + s2, False)] @ r) (xs @ ys) (relink xs (word_at ?h1 (b + s + 8)) ?h1)"
    "payloads_kept (l @ r) h (relink xs (word_at ?h1 (b + s + 8)) ?h1)"
    by (rule relink_ok [OF ok _ agree_keeps [OF agree] hd _ _ seg _ st]; use okD(5) d8 in auto)+
  show thesis
    by (rule that [OF _ R(1)]) (use u(1) c1 a payloads_kept_mid [OF R(2), of "[(b, s, False), (b + s, s2, False)]"] in \<open>auto simp: merged_def\<close>)
qed

lemma merge_right_ok:
  assumes "uheap_ok bs fl h" "(b, s, False) \<in> set bs"
  shows "\<exists>bs' fl' h' s'. merge_right b s h = returns (s', h') \<and> uheap_ok bs' fl' h' \<and> (b, s', False) \<in> set bs'
    \<and> s \<le> s' \<and> merged bs h bs' h' \<and> b + s' \<notin> free_offs bs'"
  using assms
proof (induction "length bs" arbitrary: bs fl h s rule: less_induct)
  case less
  note ok = less.prems(1)
  note okD = uheap_okD [OF ok] and B = uheap_blockD [OF ok less.prems(2)]
  have fl: "\<And>x. x \<in> set fl \<Longrightarrow> x + 16 \<le> uh_size h" "uh_size h < usize_span"
    using uheap_linked [OF ok] by (auto simp: linked_def)
  note F = find_free_cases [OF fl okD(4), of "b + s" "[]", simplified]
  show ?case
  proof (cases "b + s \<in> set fl")
    case False
    then have "merge_right b s h = returns (s, h)"
      using F B(6) by (subst merge_right.simps) (auto simp: Let_def)
    then show ?thesis using less.prems False okD(6) merged_refl by blast
  next
    case True
    then obtain xs ys where xs: "fl = xs @ (b + s) # ys" "find_free (b + s) None (free_head h) h = returns (Some (prev_of xs))"
      using F by auto
    obtain s2 where s2: "(b + s, s2, False) \<in> set bs" using True uheap_free_ex [OF ok] by blast
    note C = uheap_blockD [OF ok s2]
    obtain l r s3 al3 where "bs = l @ [(b, s, False), (b + s, s3, al3)] @ r" by (rule block_right [OF ok less.prems(2) C(5)])
    moreover from this have "s3 = s2 \<and> al3 = False" using tiles_same_offset [OF okD(1) s2, of s3 al3] by auto
    ultimately have bs: "bs = l @ [(b, s, False), (b + s, s2, False)] @ r" by simp
    obtain h1 where h1: "and_then (set_header b (uadd s s2) False h) (unlink_free (prev_of xs) (b + s)) = returns h1"
      "uheap_ok (l @ [(b, s + s2, False)] @ r) (xs @ ys) h1" "merged bs h (l @ [(b, s + s2, False)] @ r) h1" "uadd s s2 = s + s2"
      using right_step ok unfolding bs xs(1) by blast
    have step: "merge_right b s h = merge_right b (s + s2) h1"
      using h1(1) C(5,10) xs(2) h1(4) B(6)
      by (subst merge_right.simps) (auto simp: Let_def and_then_returns)
    have len: "length (l @ [(b, s + s2, False)] @ r) < length bs" by (simp add: bs)
    have mem: "(b, s + s2, False) \<in> set (l @ [(b, s + s2, False)] @ r)" by simp
    from less.hyps [OF len h1(2) mem] obtain bs' fl' h' s' where "merge_right b (s + s2) h1 = returns (s', h')"
      "uheap_ok bs' fl' h'" "(b, s', False) \<in> set bs'" "s + s2 \<le> s'" "merged (l @ [(b, s + s2, False)] @ r) h1 bs' h'"
      "b + s' \<notin> free_offs bs'" by blast
    then show ?thesis using step merged_trans [OF h1(3)] by (intro exI [of _ bs'] exI [of _ fl'] exI [of _ h'] exI [of _ s']) simp
  qed
qed


section \<open>Merging to the left\<close>

lemma find_left_cases:
  assumes "uheap_ok bs fl h" "fseg h a ys UNULL" "set ys \<subseteq> set fl"
  shows "(find_left b a h = returns None \<and> (\<forall>x \<in> set ys. \<forall>t. (x, t, False) \<in> set bs \<longrightarrow> x + t \<noteq> b))
    \<or> (\<exists>c t. find_left b a h = returns (Some (c, t)) \<and> (c, t, False) \<in> set bs \<and> c \<in> set fl \<and> c + t = b)"
  using assms(2,3)
proof (induction ys arbitrary: a)
  case Nil
  then show ?case by (subst (1) find_left.simps) simp
next
  case (Cons y ys)
  obtain t where t: "(y, t, False) \<in> set bs" using Cons.prems(2) uheap_free_ex [OF assms(1), of y] by auto
  note B = uheap_blockD [OF assms(1) t]
  have a: "a = y" "a \<noteq> UNULL" using Cons.prems(1) by auto
  show ?case
  proof (cases "y + t = b")
    case True
    have "find_left b a h = returns (Some (y, t))"
      using a B(6,10) True by (subst find_left.simps) simp
    then show ?thesis using t Cons.prems(2) True by auto
  next
    case False
    have "find_left b a h = find_left b (word_at h (y + 8)) h"
      using a B(6,10,12) False by (subst find_left.simps) simp
    moreover have "z = t" if "(y, z, False) \<in> set bs" for z
      using tiles_same_offset [OF uheap_okD(1) [OF assms(1)] that t] by simp
    ultimately show ?thesis using Cons.IH [of "word_at h (y + 8)"] Cons.prems False by auto
  qed
qed

lemma set_remove_list: "distinct (xs @ t # ys) \<Longrightarrow> set (xs @ ys) = set (xs @ t # ys) - {t}"
  by auto

lemma left_step:
  assumes ok: "uheap_ok (l @ [(c, cs, False), (b, s, False)] @ r) fl h"
  obtains h' fl' where "and_then (remove_free c h) (\<lambda>h1. and_then (remove_free b h1) (\<lambda>h2.
      and_then (set_header c (uadd cs s) False h2) (push_free c))) = returns h'"
    "uheap_ok (l @ [(c, cs + s, False)] @ r) fl' h'"
    "merged (l @ [(c, cs, False), (b, s, False)] @ r) h (l @ [(c, cs + s, False)] @ r) h'" "uadd cs s = cs + s"
proof -
  let ?bs = "l @ [(c, cs, False), (b, s, False)] @ r"
  note okD = uheap_okD [OF ok]
  note C = uheap_blockD [OF ok, of c cs False, simplified] and B = uheap_blockD [OF ok, of b s False, simplified]
  have b: "b = c + cs" using okD(1) by (auto simp: tiles_append)
  have d8: "8 dvd cs + s" using B(3) C(3) by simp
  have a: "uadd cs s = cs + s" using B(1,4) b by (simp add: uadd_exact)
  have cb: "c \<in> set fl" "b \<in> set fl" "b \<noteq> c" using okD(6) b C(2) by auto
  obtain xs ys where 1: "fl = xs @ c # ys" "remove_free c h = returns (relink xs (word_at h (c + 8)) h)"
    "linked (xs @ ys) (relink xs (word_at h (c + 8)) h)"
    by (rule remove_free_ok [OF uheap_linked [OF ok] cb(1)])
  let ?h1 = "relink xs (word_at h (c + 8)) h"
  have "b \<in> set (xs @ ys)" using 1(1) cb by auto
  from remove_free_ok [OF 1(3) this]
  obtain us vs where 2: "xs @ ys = us @ b # vs" "remove_free b ?h1 = returns (relink us (word_at ?h1 (b + 8)) ?h1)"
    "linked (us @ vs) (relink us (word_at ?h1 (b + 8)) ?h1)" by blast
  let ?h2 = "relink us (word_at ?h1 (b + 8)) ?h1"
  let ?h3 = "write_word (c + 8) (free_head ?h2) (write_word c (header (cs + s) False) ?h2)"
  have "set xs \<subseteq> set fl" unfolding 1(1) by auto
  moreover have "set us \<subseteq> set (xs @ ys)" unfolding 2(1) by auto
  ultimately have sub: "set xs \<subseteq> free_offs ?bs" "set us \<subseteq> free_offs ?bs" using okD(6) 1(1) by auto
  have k2: "keeps ?bs h ?h2"
    using uheap_keeps_trans [OF relink_keeps [OF okD(1) sub(1)] relink_keeps [OF okD(1) sub(2)]] by blast
  have "agree_on (l @ r) ?h2 ?h3"
    by (rule agree_onI [OF okD(1), of c "c + cs + s"]) (use B(2,3) C(2,3) b in auto)
  then have k3: "keeps (l @ r) h ?h3"
    using uheap_keeps_trans [OF k2 agree_keeps, of "l @ r" ?h3] by auto
  have c1: "set_header c (uadd cs s) False ?h2 = returns (write_word c (header (cs + s) False) ?h2)"
    using C(5) B(1) b or_header [OF d8, of False] a by (auto simp: set_header_def)
  have c2: "push_free c (write_word c (header (cs + s) False) ?h2) = returns (relink [] c ?h3)"
    using C(1,2,4) by (simp add: push_free_def set_free_next_def uadd_exact relink_def)
  have n: "c \<notin> free_offs l \<union> free_offs r" "b \<notin> free_offs l \<union> free_offs r"
    using tiles_distinct [OF okD(1)] by (auto simp: free_offs_def) force+
  have "set (us @ vs) = set fl - {c} - {b}"
    using set_remove_list [of us b vs] set_remove_list [of xs c ys] okD(5) unfolding 1(1) 2(1) [symmetric] by auto
  then have st: "set (us @ vs) = free_offs l \<union> free_offs r" using okD(6) n cb(3) by auto
  have "fseg ?h3 a (us @ vs) UNULL = fseg ?h2 a (us @ vs) UNULL" for a
  proof (rule fseg_cong)
    fix x assume "x \<in> set (us @ vs)"
    then obtain t where t: "(x, t, False) \<in> set (l @ r)" unfolding st by (auto simp: free_offs_def)
    then have m: "(x, t, False) \<in> set ?bs" by auto
    have mc: "(c, cs, False) \<in> set ?bs" by simp
    have "x \<noteq> c" using t n by (auto simp: free_offs_def)
    then have "x + 8 \<noteq> c" "x + 8 \<noteq> c + 8"
      using tiles_apart [OF okD(1) m mc] tiles_member [OF okD(1) m] C(2) by auto
    then show "word_at ?h3 (x + 8) = word_at ?h2 (x + 8)" by simp
  qed
  then have ys: "fseg ?h3 c (c # us @ vs) UNULL" using 2(3) C(9) by (simp add: linked_def)
  have hd: "headers_ok [(c, cs + s, False)] ?h3" by (simp add: headers_ok_def)
  have xs: "fseg ?h3 (free_head ?h3) [] (free_head ?h3)" by simp
  have d: "distinct ([] @ c # us @ vs)" using 2(3) st n by (auto simp: linked_def)
  have st': "set ([] @ c # us @ vs) = free_offs (l @ [(c, cs + s, False)] @ r)" using st by auto
  have R: "uheap_ok (l @ [(c, cs + s, False)] @ r) ([] @ c # us @ vs) (relink [] c ?h3)"
    "payloads_kept (l @ r) h (relink [] c ?h3)"
    by (rule relink_ok [OF ok _ k3 hd _ _ xs ys d st']; use d8 B(2) C(2) in auto)+
  show thesis
    by (rule that [OF _ R(1)]) (use 1(2) 2(2) c1 c2 a payloads_kept_mid [OF R(2), of "[(c, cs, False), (b, s, False)]"] in \<open>auto simp: merged_def\<close>)
qed

lemma merge_left_ok:
  assumes "uheap_ok bs fl h" "(b, s, False) \<in> set bs" "b + s \<notin> free_offs bs"
  shows "\<exists>bs' fl' h' c s'. merge_left b s h = returns h' \<and> uheap_ok bs' fl' h' \<and> merged bs h bs' h'
    \<and> (c, s', False) \<in> set bs' \<and> c \<le> b \<and> c + s' = b + s \<and> c + s' \<notin> free_offs bs'
    \<and> (\<forall>x t. (x, t, False) \<in> set bs' \<longrightarrow> x + t \<noteq> c)"
  using assms
proof (induction "length bs" arbitrary: bs fl h b s rule: less_induct)
  case less
  note ok = less.prems(1)
  note okD = uheap_okD [OF ok] and B = uheap_blockD [OF ok less.prems(2)]
  have "(find_left b (free_head h) h = returns None \<and> (\<forall>x \<in> set fl. \<forall>t. (x, t, False) \<in> set bs \<longrightarrow> x + t \<noteq> b))
    \<or> (\<exists>c t. find_left b (free_head h) h = returns (Some (c, t)) \<and> (c, t, False) \<in> set bs \<and> c \<in> set fl \<and> c + t = b)"
    using find_left_cases [OF ok okD(4)] by simp
  then show ?case
  proof (elim disjE exE conjE)
    assume n: "find_left b (free_head h) h = returns None" "\<forall>x \<in> set fl. \<forall>t. (x, t, False) \<in> set bs \<longrightarrow> x + t \<noteq> b"
    have "x + t \<noteq> b" if "(x, t, False) \<in> set bs" for x t
      using n(2) that okD(6) by (auto simp: free_offs_def)
    moreover have "merge_left b s h = returns h" using n(1) by (subst merge_left.simps) simp
    ultimately show ?thesis using less.prems merged_refl
      by (intro exI [of _ bs] exI [of _ fl] exI [of _ h] exI [of _ b] exI [of _ s]) simp
  next
    fix c t assume c: "find_left b (free_head h) h = returns (Some (c, t))" "(c, t, False) \<in> set bs" "c + t = b"
    have "c + t < uh_size h" using c(3) B(5) by simp
    then obtain l r s3 al3 where "bs = l @ [(c, t, False), (c + t, s3, al3)] @ r" by (rule block_right [OF ok c(2)])
    moreover from this have "s3 = s \<and> al3 = False" using tiles_same_offset [OF okD(1) less.prems(2), of s3 al3] c(3) by auto
    ultimately have bs: "bs = l @ [(c, t, False), (b, s, False)] @ r" using c(3) by simp
    obtain h1 fl1 where h1: "and_then (remove_free c h) (\<lambda>h1. and_then (remove_free b h1) (\<lambda>h2.
      and_then (set_header c (uadd t s) False h2) (push_free c))) = returns h1"
      "uheap_ok (l @ [(c, t + s, False)] @ r) fl1 h1" "merged bs h (l @ [(c, t + s, False)] @ r) h1" "uadd t s = t + s"
      using left_step ok unfolding bs by blast
    have step: "merge_left b s h = merge_left c (t + s) h1"
      using h1(1) c(1) h1(4) by (subst merge_left.simps) (auto simp: and_then_returns)
    have len: "length (l @ [(c, t + s, False)] @ r) < length bs" by (simp add: bs)
    have mem: "(c, t + s, False) \<in> set (l @ [(c, t + s, False)] @ r)" by simp
    have e: "c + (t + s) = b + s" using c(3) by simp
    have nr: "c + (t + s) \<notin> free_offs (l @ [(c, t + s, False)] @ r)"
      using less.prems(3) B(2) unfolding e bs by auto
    from less.hyps [OF len h1(2) mem nr] obtain bs' fl' h' d s' where "merge_left c (t + s) h1 = returns h'"
      "uheap_ok bs' fl' h'" "merged (l @ [(c, t + s, False)] @ r) h1 bs' h'" "(d, s', False) \<in> set bs'" "d \<le> c"
      "d + s' = c + (t + s)" "d + s' \<notin> free_offs bs'" "\<forall>x t. (x, t, False) \<in> set bs' \<longrightarrow> x + t \<noteq> d" by blast
    then show ?thesis using step merged_trans [OF h1(3)] e c(3)
      by (intro exI [of _ bs'] exI [of _ fl'] exI [of _ h'] exI [of _ d] exI [of _ s']) simp
  qed
qed


section \<open>Release\<close>

text \<open>Marking a block free and putting it at the head of the list.\<close>

lemma mark_free_ok:
  assumes ok: "uheap_ok bs fl h" and m: "(b, s, True) \<in> set bs"
  obtains h' l r where "and_then (set_header b s False h) (push_free b) = returns h'"
    "bs = l @ [(b, s, True)] @ r" "uheap_ok (l @ [(b, s, False)] @ r) (b # fl) h'"
    "payloads_kept (l @ r) h h'" "uh_base h' = uh_base h" "uh_size h' = uh_size h" "os h' = os h"
proof -
  note okD = uheap_okD [OF ok] and B = uheap_blockD [OF ok m]
  obtain l r where lr: "bs = l @ [(b, s, True)] @ r" "b \<notin> free_offs (l @ r)" using uheap_split [OF ok m] by blast
  have ok': "uheap_ok (l @ [(b, s, True)] @ r) fl h" using ok lr(1) by simp
  let ?h1 = "write_word (b + 8) (free_head h) (write_word b (header s False) h)"
  have c1: "set_header b s False h = returns (write_word b (header s False) h)"
    using B(1,5) or_header [OF B(3), of False] by (auto simp: set_header_def)
  have c2: "push_free b (write_word b (header s False) h) = returns (relink [] b ?h1)"
    using B(1,2,4) by (simp add: push_free_def set_free_next_def uadd_exact relink_def)
  have agree: "agree_on (l @ r) h ?h1"
    by (rule agree_onI [OF uheap_okD(1) [OF ok'], of b "b + s"]) (use B(2,3) in auto)
  have fl: "set fl = free_offs (l @ r)" using okD(6) lr(1) by simp
  have "fseg ?h1 (free_head h) fl UNULL"
    using agree_fseg [OF agree uheap_okD(1) [OF ok'], of fl] okD(4) fl by auto
  then have ys: "fseg ?h1 b (b # fl) UNULL" using B(9) by simp
  have hd: "headers_ok [(b, s, False)] ?h1" by (simp add: headers_ok_def)
  have xs: "fseg ?h1 (free_head ?h1) [] (free_head ?h1)" by simp
  have d: "distinct ([] @ b # fl)" using okD(5) fl lr(2) by simp
  have st: "set ([] @ b # fl) = free_offs (l @ [(b, s, False)] @ r)" using fl by auto
  have R: "uheap_ok (l @ [(b, s, False)] @ r) ([] @ b # fl) (relink [] b ?h1)" "payloads_kept (l @ r) h (relink [] b ?h1)"
    by (rule relink_ok [OF ok' _ agree_keeps [OF agree] hd _ _ xs ys d st]; use B in auto)+
  show thesis by (rule that [of "relink [] b ?h1" l r]) (use c1 c2 lr(1) R in auto)
qed

text \<open>A live payload becomes part of a free block that has no free block next to it.\<close>

lemma uheap_free_ok:
  assumes ok: "uheap_ok bs fl h" and m: "(p, n) \<in> live_blocks h bs"
  obtains h' bs' fl' c t where "uheap_free (Some p) h = returns h'" "uheap_ok bs' fl' h'"
    "live_blocks h' bs' = live_blocks h bs - {(p, n)}" "payloads_kept bs' h h'"
    "uh_base h' = uh_base h" "uh_size h' = uh_size h" "os h' = os h"
    "(c, t, False) \<in> set bs'" "uh_base h + c + 8 \<le> p" "p + n \<le> uh_base h + c + t" "c + t \<notin> free_offs bs'"
    "\<forall>x u. (x, u, False) \<in> set bs' \<longrightarrow> x + u \<noteq> c"
proof -
  obtain b s where b: "(b, s, True) \<in> set bs" "p = uh_base h + b + 8" "n = s - 8" using m by (auto simp: live_blocks_def)
  note okD = uheap_okD [OF ok] and B = uheap_blockD [OF ok b(1)]
  obtain h1 l r where h1: "and_then (set_header b s False h) (push_free b) = returns h1"
    "bs = l @ [(b, s, True)] @ r" "uheap_ok (l @ [(b, s, False)] @ r) (b # fl) h1"
    "payloads_kept (l @ r) h h1" "uh_base h1 = uh_base h" "uh_size h1 = uh_size h" "os h1 = os h"
    by (rule mark_free_ok [OF ok b(1)])
  let ?bs = "l @ [(b, s, False)] @ r"
  have mem: "(b, s, False) \<in> set ?bs" by simp
  from merge_right_ok [OF h1(3) mem] obtain bs2 fl2 h2 s2 where h2: "merge_right b s h1 = returns (s2, h2)"
    "uheap_ok bs2 fl2 h2" "(b, s2, False) \<in> set bs2" "s \<le> s2" "merged ?bs h1 bs2 h2" "b + s2 \<notin> free_offs bs2" by blast
  from merge_left_ok [OF h2(2,3,6)] obtain bs3 fl3 h3 c t where h3: "merge_left b s2 h2 = returns h3"
    "uheap_ok bs3 fl3 h3" "merged bs2 h2 bs3 h3" "(c, t, False) \<in> set bs3" "c \<le> b" "c + t = b + s2" "c + t \<notin> free_offs bs3"
    "\<forall>x u. (x, u, False) \<in> set bs3 \<longrightarrow> x + u \<noteq> c" by blast
  have M: "merged ?bs h1 bs3 h3" using merged_trans [OF h2(5) h3(3)] .
  have off: "usub p (uh_base h) = b + 8" using b(2) by (simp add: usub_exact)
  have run: "uheap_free (Some p) h = returns h3"
    using h1(1) h2(1) h3(1) B by (auto simp: uheap_free_def Let_def off and_then_returns)
  have "live_blocks h1 ?bs = live_blocks h1 l \<union> live_blocks h1 r" by simp
  moreover have "(p, n) \<notin> live_blocks h l \<union> live_blocks h r"
    using tiles_distinct [OF okD(1)] unfolding h1(2) b(2) by (auto simp: live_blocks_def) force+
  moreover have "live_blocks h bs = insert (p, n) (live_blocks h l \<union> live_blocks h r)"
    unfolding h1(2) by (simp add: b(2,3))
  ultimately have "live_blocks h1 ?bs = live_blocks h bs - {(p, n)}"
    unfolding live_blocks_base [OF h1(5)] by simp
  then have lv: "live_blocks h3 bs3 = live_blocks h bs - {(p, n)}" using live_merged [OF M] by simp
  have "payloads_kept ?bs h h1" using payloads_kept_mid [OF h1(4), of "[(b, s, False)]"] by simp
  then have "payloads_kept ?bs h h3" using M by (auto simp: merged_def elim!: payloads_kept_trans)
  then have kp: "payloads_kept bs3 h h3" by (rule payloads_kept_sub) (use M in \<open>auto simp: merged_def\<close>)
  show thesis
    by (rule that [OF run h3(2) lv kp _ _ _ h3(4) _ _ h3(7,8)])
      (use M h1(5-7) b(2,3) h3(5,6) h2(4) B(2) in \<open>auto simp: merged_def\<close>)
qed

text \<open>What is not a live block is refused: pointers outside the region, and free blocks.\<close>

lemma uheap_free_ignored:
  assumes "uheap_ok bs fl h"
  shows "uheap_free None h = returns h"
    "p < usize_span \<Longrightarrow> usub p (uh_base h) < 8 \<or> uh_size h \<le> usub p (uh_base h) \<Longrightarrow> uheap_free (Some p) h = returns h"
    "x \<in> set fl \<Longrightarrow> uheap_free (Some (uh_base h + x + 8)) h = returns h"
proof -
  show "uheap_free None h = returns h" by (simp add: uheap_free_def)
  show "uheap_free (Some p) h = returns h" if "usub p (uh_base h) < 8 \<or> uh_size h \<le> usub p (uh_base h)"
    using that by (auto simp: uheap_free_def Let_def)
  assume "x \<in> set fl"
  then obtain s where "(x, s, False) \<in> set bs" using uheap_free_ex [OF assms] by blast
  note B = uheap_blockD [OF assms this]
  have "usub (uh_base h + x + 8) (uh_base h) = x + 8" by (simp add: usub_exact)
  then show "uheap_free (Some (uh_base h + x + 8)) h = returns h" using B(11) by (auto simp: uheap_free_def Let_def)
qed

end
