(* ===== verification/User_Heap_Props.thy ===== *)
theory User_Heap_Props
  imports User_Heap_Alloc User_Heap_Free Address_Props Object_Allocator
begin

text \<open>
  The user heap on the kernel: the system call that resizes the heap region of the current
  process (\<^verbatim>\<open>syscall_proc_control\<close> in \<^verbatim>\<open>kernel/src/kernel.rs\<close>) is what \<open>region_provider\<close>
  asks for, and the allocator is an \<open>object_allocator\<close>. The properties are those of a program's
  \<^verbatim>\<open>alloc\<close> and \<^verbatim>\<open>free\<close> with the kernel below them.
\<close>

section \<open>The system call\<close>

text \<open>The caller passes a zeroed base and size, which the kernel overwrites on success only.\<close>

definition resize_syscall :: "usize \<Rightarrow> 'f vspace resize_call" where
  "resize_syscall c delta vs = and_then (resize_heap c delta vs) (\<lambda>(r, vs'). case r of
       Inl e \<Rightarrow> returns ((0, 0, 0), vs')
     | Inr (base, n) \<Rightarrow> returns ((24, base, n), vs'))"

definition running :: "usize \<Rightarrow> usize \<Rightarrow> 'f vspace \<Rightarrow> bool" where
  "running c pid vs \<longleftrightarrow> current_pid c (kern vs) = returns pid
     \<and> (\<exists>p. bt_get (processes vs) pid = Some p \<and> proc_heap_ok p vs)"

definition heap_region :: "usize \<Rightarrow> 'f vspace \<Rightarrow> usize \<times> usize" where
  "heap_region pid vs = (case bt_get (processes vs) pid of
       Some p \<Rightarrow> (heap_base p, 4096 * heap_pages p) | None \<Rightarrow> (0, 0))"

definition heap_room :: "usize \<Rightarrow> 'f vspace \<Rightarrow> nat \<Rightarrow> bool" where
  "heap_room pid vs n \<longleftrightarrow> (case bt_get (processes vs) pid of
       Some p \<Rightarrow> heap_end p + n < stack_top p \<and> 3 * (n div 4096) \<le> card (free_frames_of vs) | None \<Rightarrow> False)"

lemma resize_keeps_current:
  assumes cur: "current_pid c (kern vs) = returns pid" "bt_get (processes vs) pid = Some p" and ok: "proc_heap_ok p vs"
    and d: "0 < n" "n < 2 ^ 63" "4096 dvd n" and room: "heap_room pid vs n"
  shows "\<exists>vs'. resize_heap c (int n) vs = returns (Inr (heap_base p, 4096 * heap_pages p + n), vs') \<and> running c pid vs'
    \<and> heap_region pid vs' = (heap_base p, 4096 * heap_pages p + n)"
proof -
  obtain k where k: "n = 4096 * k" using d(3) by (auto simp: dvd_def)
  have nk: "(n + 4095) div 4096 = k" by (simp add: k)
  have r: "heap_end p + 4096 * ((n + 4095) div 4096) < stack_top p" "3 * ((n + 4095) div 4096) \<le> card (free_frames_of vs)"
    using room cur(2) unfolding nk by (simp_all add: heap_room_def k)
  obtain fs p1 p' vs' where g: "grow_heap n (p, vs) = returns (Inr (heap_base p, 4096 * (heap_pages p + length fs)), p', vs')"
    "length fs = k" "p' = p1\<lparr>heap_pages := heap_pages p + length fs\<rparr>"
    "added (heap_end p) fs (entry_flags False True False Normal) p vs p1 vs'" "proc_heap_ok p' vs'"
    using grow_heap_ok [OF ok d(1,2) r] unfolding nk by blast
  let ?vs = "vs'\<lparr>processes := bt_insert pid p' (processes vs')\<rparr>"
  have a: "kern vs' = (kern vs)\<lparr>phys := phys (kern vs')\<rparr>" "p1 = p\<lparr>vmap := vmap p1\<rparr>" using g(4) unfolding added_def by blast+
  obtain m where m: "p1 = p\<lparr>vmap := m\<rparr>" using a(2) by blast
  have "current_pid c (kern ?vs) = returns pid"
    using cur(1) a(1) by (metis current_pid_phys vspace.simps(3,6) vspace.select_convs(3) vspace.surjective vspace.update_convs(1))
  moreover have "proc_heap_ok p' ?vs" using g(5) unfolding proc_heap_ok_def machine_of_simps by simp
  moreover have "resize_heap c (int n) vs = returns (Inr (heap_base p, 4096 * heap_pages p + n), ?vs)"
  proof -
    have "4096 * (heap_pages p + length fs) = 4096 * heap_pages p + n" using g(2) k by simp
    then show ?thesis
      using cur d(1) g(1) by (simp add: resize_heap_def in_current_process_def with_process_def)
  qed
  moreover have "heap_region pid ?vs = (heap_base p, 4096 * heap_pages p + n)"
    using g(2) by (simp add: heap_region_def g(3) m k)
  ultimately show ?thesis by (intro exI [of _ ?vs]) (simp add: running_def)
qed

interpretation user_region: region_provider "resize_syscall c" "running c pid" "heap_region pid" "heap_room pid"
  for c pid
proof (unfold_locales, goal_cases)
  case (1 vs)
  then obtain p where p: "bt_get (processes vs) pid = Some p" "proc_heap_ok p vs" by (auto simp: running_def)
  show ?case using p(1) heap_exact [OF p(2)] proc_heap_okD(3,4,5) [OF p(2)]
    by (simp add: heap_region_def heap_end_def)
next
  case (2 vs n)
  then obtain p where p: "current_pid c (kern vs) = returns pid" "bt_get (processes vs) pid = Some p" "proc_heap_ok p vs"
    by (auto simp: running_def)
  from resize_keeps_current [OF p 2(2-5)] show ?case
    using p(2) by (auto simp: resize_syscall_def heap_region_def)
qed

text \<open>The user heap of the running process and the region the kernel has for it.\<close>

definition user_heap_ok :: "usize \<Rightarrow> usize \<Rightarrow> block list \<Rightarrow> usize list \<Rightarrow> 'f vspace uheap \<Rightarrow> bool" where
  "user_heap_ok c pid bs fl h \<longleftrightarrow> uheap_ok bs fl h \<and> running c pid (os h)
     \<and> heap_region pid (os h) = (uh_base h, uh_size h)"

lemma user_heap_attached: "user_heap_ok c pid bs fl h = user_region.attached c pid bs fl h"
  by (simp add: user_heap_ok_def user_region.attached_def)


section \<open>The blocks of a state\<close>

lemma header_inject: "8 dvd s \<Longrightarrow> 8 dvd t \<Longrightarrow> header s al = header t al' \<Longrightarrow> s = t \<and> al = al'"
  by (auto simp: header_def elim!: dvdE split: if_splits) presburger+

lemma tiles_unique:
  assumes "tiles a bs b" "tiles a bs' b" "headers_ok bs h" "headers_ok bs' h"
  shows "bs = bs'"
  using assms
proof (induction a bs b arbitrary: bs' rule: tiles.induct)
  case (1 a b)
  then show ?case by (cases bs') (use tiles_le in force)+
next
  case (2 a off sz al bs b)
  then have "a < b" using tiles_le [of "a + sz" bs b] by auto
  then obtain s' al' cs where b': "bs' = (a, s', al') # cs" using 2 by (cases bs') auto
  have "sz = s' \<and> al = al'" using 2(2-) header_inject [of sz s' al al'] by (auto simp: b' headers_ok_def)
  then show ?case using 2 by (auto simp: b' headers_ok_def)
qed

lemma uheap_blocks_unique: "uheap_ok bs fl h \<Longrightarrow> uheap_ok bs' fl' h \<Longrightarrow> bs = bs'"
  using tiles_unique by (auto simp: uheap_ok_def)

lemma uheap_live_disjoint:
  assumes ok: "uheap_ok bs fl h" and m: "(p, n) \<in> live_blocks h bs" "(q, k) \<in> live_blocks h bs" "(p, n) \<noteq> (q, k)"
  shows "{p..<p + n} \<inter> {q..<q + k} = {}"
proof -
  obtain a s where a: "(a, s, True) \<in> set bs" "p = uh_base h + a + 8" "n = s - 8" using m(1) by (auto simp: live_blocks_def)
  obtain b t where b: "(b, t, True) \<in> set bs" "q = uh_base h + b + 8" "k = t - 8" using m(2) by (auto simp: live_blocks_def)
  show ?thesis using tiles_apart [OF uheap_okD(1) [OF ok] a(1) b(1)] a b m(3) by auto
qed

text \<open>What the heap keeps for itself: the headers, and the free blocks.\<close>

definition own_bytes :: "'k uheap \<Rightarrow> block list \<Rightarrow> usize set" where
  "own_bytes h bs = {uh_base h + off + i | off sz al i. (off, sz, al) \<in> set bs \<and> i < sz \<and> (al \<longrightarrow> i < 8)}"

lemma live_own_disjoint:
  assumes ok: "uheap_ok bs fl h" and m: "(p, n) \<in> live_blocks h bs"
  shows "{p..<p + n} \<inter> own_bytes h bs = {}"
proof -
  obtain a s where a: "(a, s, True) \<in> set bs" "p = uh_base h + a + 8" "n = s - 8" using m by (auto simp: live_blocks_def)
  have "x \<notin> {p..<p + n}" if x: "x \<in> own_bytes h bs" for x
  proof -
    obtain b t al i where b: "(b, t, al) \<in> set bs" "x = uh_base h + b + i" "i < t" "al \<longrightarrow> i < 8"
      using x by (auto simp: own_bytes_def)
    show ?thesis using tiles_apart [OF uheap_okD(1) [OF ok] a(1) b(1)] a b by auto
  qed
  then show ?thesis by blast
qed

text \<open>Requests that are granted, with the system's help if needed.\<close>

definition granted_request :: "usize \<Rightarrow> usize \<Rightarrow> block list \<Rightarrow> usize list \<Rightarrow> 'f vspace uheap \<Rightarrow> usize \<Rightarrow> nat \<Rightarrow> bool" where
  "granted_request c pid bs fl h n k \<longleftrightarrow> 0 < n \<and> n < 2 ^ 62 \<and> k \<le> 12 \<and> uh_size h \<noteq> 0
     \<and> (too_small bs (needed_size n (2 ^ k)) fl \<longrightarrow>
          heap_room pid (os h) (align_up (needed_size n (2 ^ k)) HEAP_GROW_SIZE))"

lemma user_alloc_ok:
  assumes "user_heap_ok c pid bs fl h" "granted_request c pid bs fl h n k"
  shows "\<exists>p h' bs' fl'. uheap_alloc (resize_syscall c) n (2 ^ k) h = returns (Some p, h')
    \<and> user_heap_ok c pid bs' fl' h' \<and> granted bs h n p bs' h'"
  using assms user_region.alloc_ok [of c pid bs fl h n k]
  unfolding user_heap_attached granted_request_def by metis

lemma user_free_ok:
  assumes "user_heap_ok c pid bs fl h" "(p, n) \<in> live_blocks h bs"
  shows "\<exists>h' bs' fl'. uheap_free (Some p) h = returns h' \<and> user_heap_ok c pid bs' fl' h'
    \<and> live_blocks h' bs' = live_blocks h bs - {(p, n)}"
proof -
  have ok: "uheap_ok bs fl h" using assms(1) by (simp add: user_heap_ok_def)
  show ?thesis
    by (rule uheap_free_ok [OF ok assms(2)]) (use assms(1) in \<open>auto simp: user_heap_ok_def\<close>)
qed

interpretation user_objects: object_allocator
  "\<lambda>(bs, fl, h). user_heap_ok c pid bs fl h" "\<lambda>(bs, fl, h). live_blocks h bs" "\<lambda>(p, n). {p..<p + n}"
  "\<lambda>(bs, fl, h). own_bytes h bs"
  "\<lambda>(bs, fl, h) x (bs', fl', h'). \<exists>n k. granted_request c pid bs fl h n k \<and> x \<in> live_blocks h' bs'
     \<and> uheap_alloc (resize_syscall c) n (2 ^ k) h = returns (Some (fst x), h') \<and> user_heap_ok c pid bs' fl' h'"
  "\<lambda>(bs, fl, h) x (bs', fl', h'). uheap_free (Some (fst x)) h = returns h' \<and> user_heap_ok c pid bs' fl' h'"
  for c pid
proof -
  have A: "x \<notin> live_blocks h bs \<and> live_blocks h' bs' = insert x (live_blocks h bs)"
    if t: "user_heap_ok c pid bs fl h" "granted_request c pid bs fl h n k" "x \<in> live_blocks h' bs'"
      "uheap_alloc (resize_syscall c) n (2 ^ k) h = returns (Some (fst x), h')" "user_heap_ok c pid bs' fl' h'"
    for bs fl h x bs' fl' n k and h' :: "'a vspace uheap"
  proof -
    obtain bs2 fl2 where g: "user_heap_ok c pid bs2 fl2 h'" "granted bs h n (fst x) bs2 h'"
      using user_alloc_ok [OF t(1,2)] t(4) by auto
    have "bs2 = bs'" using g(1) t(5) uheap_blocks_unique by (auto simp: user_heap_ok_def)
    then show ?thesis using g(2) t(3) unfolding granted_def by (cases x) force
  qed
  have F: "live_blocks h' bs' = live_blocks h bs - {x}"
    if t: "user_heap_ok c pid bs fl h" "x \<in> live_blocks h bs" "uheap_free (Some (fst x)) h = returns h'" "user_heap_ok c pid bs' fl' h'"
    for bs fl h x bs' fl' and h' :: "'a vspace uheap"
  proof -
    obtain bs2 fl2 where g: "user_heap_ok c pid bs2 fl2 h'" "live_blocks h' bs2 = live_blocks h bs - {x}"
      using user_free_ok [OF t(1), of "fst x" "snd x"] t(2,3) by auto
    have "bs2 = bs'" using g(1) t(4) uheap_blocks_unique by (auto simp: user_heap_ok_def)
    then show ?thesis using g(2) by simp
  qed
  show "object_allocator (\<lambda>(bs, fl, h :: 'a vspace uheap). user_heap_ok c pid bs fl h) (\<lambda>(bs, fl, h). live_blocks h bs) (\<lambda>(p, n). {p..<p + n})
    (\<lambda>(bs, fl, h). own_bytes h bs)
    (\<lambda>(bs, fl, h) x (bs', fl', h'). \<exists>n k. granted_request c pid bs fl h n k \<and> x \<in> live_blocks h' bs'
       \<and> uheap_alloc (resize_syscall c) n (2 ^ k) h = returns (Some (fst x), h') \<and> user_heap_ok c pid bs' fl' h')
    (\<lambda>(bs, fl, h) x (bs', fl', h'). uheap_free (Some (fst x)) h = returns h' \<and> user_heap_ok c pid bs' fl' h')"
  proof (unfold_locales, goal_cases)
    case (2 s x s')
    then show ?case using A by (cases s; cases s') (simp, blast)
  next
    case (3 s x s')
    obtain bs fl h bs' fl' h' where d: "s = (bs, fl, h)" "s' = (bs', fl', h')" by (metis surj_pair)
    show ?case using 3 A unfolding d prod.case by blast
  next
    case (5 s x s')
    obtain bs fl h bs' fl' h' where d: "s = (bs, fl, h)" "s' = (bs', fl', h')" by (metis surj_pair)
    show ?case using F [of bs fl h x h' bs' fl'] 5 by (simp add: d)
  next
    case (6 s x y)
    obtain bs fl h p n q k where d: "s = (bs, fl, h)" "x = (p, n)" "y = (q, k)" by (metis surj_pair)
    have "uheap_ok bs fl h" using 6(1) by (simp add: d user_heap_ok_def)
    from uheap_live_disjoint [OF this, of p n q k] 6(2-4) show ?case by (simp add: d)
  next
    case (7 s x)
    obtain bs fl h p n where d: "s = (bs, fl, h)" "x = (p, n)" by (metis surj_pair)
    have "uheap_ok bs fl h" using 7(1) by (simp add: d user_heap_ok_def)
    from live_own_disjoint [OF this, of p n] 7(2) show ?case by (simp add: d)
  qed (auto split: prod.splits)
qed


section \<open>A concrete process\<close>

definition big_bitmap :: frames_bitmap where
  "big_bitmap = \<lparr>total_frames = 512, free_frames = 505, first_phys_addr = 0,
     last_phys_addr = 2097151, bm_base = 0, bm_size = 64, red_zone_start = 0,
     red_zone_end = 4095, bm_words = (\<lambda>i. if i = 0 then 0xFFFFFFFFFFFFFF80 else 0xFFFFFFFFFFFFFFFF)\<rparr>"

lemma big_bitmap_free: "free_set big_bitmap = {7..511}"
proof -
  have s: "frame_span big_bitmap = 512" by (simp add: frame_span_def big_bitmap_def)
  have f: "frame_free big_bitmap k \<longleftrightarrow> 7 \<le> k" for k
  proof (cases "k < 64")
    case True
    have m: "(0xFFFFFFFFFFFFFF80 :: u64) = - 128" "NOT (mask 7) = (- 128 :: u64)"
      by simp (simp add: mask_eq_exp_minus_1)
    have "frame_free big_bitmap k \<longleftrightarrow> bit (NOT (mask 7) :: u64) k"
      unfolding frame_free_def big_bitmap_def m using True by simp
    also have "\<dots> \<longleftrightarrow> 7 \<le> k" unfolding bit_not_iff bit_mask_iff using True by auto
    finally show ?thesis .
  next
    case False
    have "bm_words big_bitmap (k div 64) = 0xFFFFFFFFFFFFFFFF" using False by (simp add: big_bitmap_def div_eq_0_iff)
    moreover have "(0xFFFFFFFFFFFFFFFF :: u64) = -1" by simp
    ultimately have "bm_words big_bitmap (k div 64) = -1" by (rule trans)
    then have "frame_free big_bitmap k" by (simp only: frame_free_def bit_minus_1_iff) simp
    then show ?thesis using False by simp
  qed
  show ?thesis unfolding free_set_def s f by (rule set_eqI) (simp, arith)
qed

lemma big_bitmap_ok: "pmm_ok big_bitmap"
proof -
  have "pmm_geom_ok big_bitmap" by (simp add: pmm_geom_ok_def span_ok_def big_bitmap_def)
  moreover have "free_frames big_bitmap = card (free_set big_bitmap)"
    unfolding big_bitmap_free by (simp add: big_bitmap_def)
  moreover have "\<forall>k \<in> free_set big_bitmap. \<not> in_red_zone big_bitmap k"
    unfolding big_bitmap_free by (auto simp: in_red_zone_def big_bitmap_def)
  ultimately show ?thesis by (simp add: pmm_ok_def)
qed

definition big_vspace :: "nat vspace" where
  "big_vspace = demo_vspace\<lparr>kern := demo_user_kernel\<lparr>phys := big_bitmap\<rparr>\<rparr>"

lemma big_machine_of: "machine_of big_vspace = demo_machine\<lparr>frames := big_bitmap\<rparr>"
  unfolding big_vspace_def machine_of_simps demo_machine_of by (simp add: demo_user_kernel_def)

lemma big_state:
  "current_pid 0 (kern big_vspace) = returns 7" "bt_get (processes big_vspace) 7 = Some demo_process"
  "free_frames_of big_vspace = {7..511}" "phys (kern big_vspace) = big_bitmap"
  using big_bitmap_free demo_state(2) by (simp_all add: current_pid_def big_vspace_def demo_user_kernel_def)

lemma big_proc_heap_ok: "proc_heap_ok demo_process big_vspace"
  unfolding proc_heap_ok_def demo_state
proof (intro conjI allI impI)
  have "nodes (pdpt0_base demo_map) demo_machine \<subseteq> {4096, 8192, 12288}"
    using demo_node by (auto simp: nodes_def demo_map_def)
  then have nn: "frame_of b \<notin> free_set big_bitmap" if "b \<in> nodes (pdpt0_base demo_map) demo_machine" for b
    using that unfolding big_bitmap_free by auto
  have l: "last_phys_addr big_bitmap < 2 ^ 40" by (simp add: big_bitmap_def)
  have "tables_ok (pdpt0_base demo_map) (demo_machine\<lparr>frames := big_bitmap\<rparr>)"
    by (rule tables_ok_frames [OF demo_tables_ok big_bitmap_ok l nn])
  then show "space_ok demo_process big_vspace" unfolding big_machine_of by (simp add: demo_process_def)
  show "user_entry_of demo_process big_vspace u = None" if "(0x200002000 :: nat) \<le> u \<and> u \<le> 0x7EFEFFFFFF" for u
    using demo_gap [of u] that unfolding big_machine_of demo_machine_of by simp
qed (auto simp: covers_def)

lemma big_heap_init:
  obtains h m where "uheap_init (resize_syscall 0) (uheap_new big_vspace) = returns h" "262144 \<le> m"
    "user_heap_ok 0 7 [(0, m, False)] [0] h" "uh_size h = m"
proof -
  have "running 0 7 big_vspace" using big_state big_proc_heap_ok by (auto simp: running_def)
  moreover have "heap_room 7 big_vspace INIT_HEAP_SIZE" by (simp add: heap_room_def big_state demo_state big_bitmap_free)
  ultimately show thesis
    using user_region.init_attached [of 0 7 big_vspace] that unfolding user_heap_attached by metis
qed

section \<open>Properties\<close>

text \<open>C25. A request of \<open>n\<close> bytes with alignment \<open>2 ^ k\<close> on the heap of the running process
  returns a pointer when a free block is large enough or the kernel has room to grow the heap:
  the payload has at least \<open>n\<close> bytes, is 8-byte aligned, overlaps no other live payload, no
  header and no free block, the other live payloads are still there with their contents, and
  the heap is consistent, on its own and with the region the kernel has for it.\<close>

theorem user_alloc_granted:
  assumes ok: "user_heap_ok c pid bs fl h" and r: "granted_request c pid bs fl h n k"
  shows "\<exists>p m h' bs' fl'. uheap_alloc (resize_syscall c) n (2 ^ k) h = returns (Some p, h')
    \<and> user_heap_ok c pid bs' fl' h' \<and> n \<le> m \<and> p mod 8 = 0 \<and> live_blocks h' bs' = insert (p, m) (live_blocks h bs)
    \<and> (\<forall>(q, j) \<in> live_blocks h bs. {p..<p + m} \<inter> {q..<q + j} = {}) \<and> {p..<p + m} \<inter> own_bytes h' bs' = {}
    \<and> payloads_kept bs h h'"
proof -
  obtain p h' bs' fl' where a: "uheap_alloc (resize_syscall c) n (2 ^ k) h = returns (Some p, h')"
    "user_heap_ok c pid bs' fl' h'" "granted bs h n p bs' h'"
    using user_alloc_ok [OF ok r] by blast
  obtain m off where m: "n \<le> m" "p \<notin> fst ` live_blocks h bs" "live_blocks h' bs' = insert (p, m) (live_blocks h bs)"
    "payloads_kept bs h h'" "8 dvd off" "p = uh_base h + off"
    using a(3) unfolding granted_def by blast
  have ok': "uheap_ok bs' fl' h'" using a(2) by (simp add: user_heap_ok_def)
  have new: "(p, m) \<in> live_blocks h' bs'" using m(3) by simp
  have dis: "{p..<p + m} \<inter> {q..<q + j} = {}" if "(q, j) \<in> live_blocks h bs" for q j
    by (rule uheap_live_disjoint [OF ok' new]) (use that m(2,3) in force)+
  have b: "uh_base h mod 4096 = 0"
    using ok by (auto simp: user_heap_ok_def running_def heap_region_def dest!: proc_heap_okD(2))
  then have "8 dvd uh_base h" using dvd_trans [of 8 4096 "uh_base h"] by (simp add: mod_eq_0_iff_dvd)
  then have "p mod 8 = 0" using m(5,6) by (simp add: mod_eq_0_iff_dvd)
  then show ?thesis
    using a(1,2) m(1,3,4) dis live_own_disjoint [OF ok' new]
    by (intro exI [of _ p] exI [of _ m] exI [of _ h'] exI [of _ bs'] exI [of _ fl']) auto
qed

theorem user_alloc_granted_witness:
  "\<exists>h p h'. uheap_init (resize_syscall 0) (uheap_new big_vspace) = returns h
     \<and> uheap_alloc (resize_syscall 0) 100 (2 ^ 3) h = returns (Some p, h') \<and> p mod 8 = 0"
proof -
  obtain h m where h: "uheap_init (resize_syscall 0) (uheap_new big_vspace) = returns h" "262144 \<le> m"
    "user_heap_ok 0 7 [(0, m, False)] [0] h" "uh_size h = m" by (rule big_heap_init)
  have "needed_size 100 (2 ^ 3) = 112"
    using align_up_pow [of 8 3] align_up_pow [of 100 3] by (simp add: needed_size_def uadd_exact)
  then have "granted_request 0 7 [(0, m, False)] [0] h 100 3"
    using h(2,4) by (simp add: granted_request_def too_small_def)
  from user_alloc_granted [OF h(3) this] obtain p h' where
    "uheap_alloc (resize_syscall 0) 100 (2 ^ 3) h = returns (Some p, h')" "p mod 8 = 0" by (elim exE conjE)
  then show ?thesis using h(1) by (intro exI [of _ h] exI [of _ p] exI [of _ h']) simp
qed

text \<open>C26. Freeing a live payload makes it part of a free block: that payload and no other is
  gone, the other payloads keep their contents, and the free block around it was merged with
  its neighbours, neither of which is free any more.\<close>

theorem user_free_coalesces:
  assumes ok: "user_heap_ok c pid bs fl h" and m: "(p, n) \<in> live_blocks h bs"
  shows "\<exists>h' bs' fl' b t. uheap_free (Some p) h = returns h' \<and> user_heap_ok c pid bs' fl' h'
    \<and> live_blocks h' bs' = live_blocks h bs - {(p, n)} \<and> payloads_kept bs' h h'
    \<and> (b, t, False) \<in> set bs' \<and> uh_base h + b + 8 \<le> p \<and> p + n \<le> uh_base h + b + t
    \<and> b + t \<notin> free_offs bs' \<and> (\<forall>x u. (x, u, False) \<in> set bs' \<longrightarrow> x + u \<noteq> b)"
proof -
  have "uheap_ok bs fl h" using ok by (simp add: user_heap_ok_def)
  from uheap_free_ok [OF this m] obtain h' bs' fl' b t where f: "uheap_free (Some p) h = returns h'" "uheap_ok bs' fl' h'"
    "live_blocks h' bs' = live_blocks h bs - {(p, n)}" "payloads_kept bs' h h'"
    "uh_base h' = uh_base h" "uh_size h' = uh_size h" "os h' = os h"
    "(b, t, False) \<in> set bs'" "uh_base h + b + 8 \<le> p" "p + n \<le> uh_base h + b + t" "b + t \<notin> free_offs bs'"
    "\<forall>x u. (x, u, False) \<in> set bs' \<longrightarrow> x + u \<noteq> b" by metis
  have "user_heap_ok c pid bs' fl' h'" using ok f(2,5-7) by (simp add: user_heap_ok_def)
  then show ?thesis using f(1,3,4,8-12) by blast
qed

lemma big_heap_alloc:
  obtains h p m h1 bs1 fl1 where "uheap_init (resize_syscall 0) (uheap_new big_vspace) = returns h"
    "user_heap_ok 0 7 [(0, uh_size h, False)] [0] h" "granted_request 0 7 [(0, uh_size h, False)] [0] h 100 3"
    "uheap_alloc (resize_syscall 0) 100 8 h = returns (Some p, h1)" "user_heap_ok 0 7 bs1 fl1 h1" "(p, m) \<in> live_blocks h1 bs1"
proof -
  obtain h m where h: "uheap_init (resize_syscall 0) (uheap_new big_vspace) = returns h" "262144 \<le> m"
    "user_heap_ok 0 7 [(0, m, False)] [0] h" "uh_size h = m" by (rule big_heap_init)
  have "needed_size 100 (2 ^ 3) = 112"
    using align_up_pow [of 8 3] align_up_pow [of 100 3] by (simp add: needed_size_def uadd_exact)
  then have r: "granted_request 0 7 [(0, m, False)] [0] h 100 3"
    using h(2,4) by (simp add: granted_request_def too_small_def)
  obtain p h1 bs1 fl1 where a: "uheap_alloc (resize_syscall 0) 100 (2 ^ 3) h = returns (Some p, h1)"
    "user_heap_ok 0 7 bs1 fl1 h1" "granted [(0, m, False)] h 100 p bs1 h1"
    using user_alloc_ok [OF h(3) r] by blast
  from a(3) obtain k where "(p, k) \<in> live_blocks h1 bs1" by (auto simp: granted_def)
  then show thesis using that [OF h(1) _ _ _ a(2)] h(3,4) r a(1) by simp
qed

theorem user_free_coalesces_witness:
  "\<exists>h p h1 h2. uheap_init (resize_syscall 0) (uheap_new big_vspace) = returns h
     \<and> uheap_alloc (resize_syscall 0) 100 8 h = returns (Some p, h1) \<and> uheap_free (Some p) h1 = returns h2"
proof -
  obtain h p m h1 bs1 fl1 where h: "uheap_init (resize_syscall 0) (uheap_new big_vspace) = returns h"
    "uheap_alloc (resize_syscall 0) 100 8 h = returns (Some p, h1)" "user_heap_ok 0 7 bs1 fl1 h1" "(p, m) \<in> live_blocks h1 bs1"
    by (rule big_heap_alloc)
  from user_free_coalesces [OF h(3,4)] obtain h2 where "uheap_free (Some p) h1 = returns h2" by (elim exE conjE)
  then show ?thesis using h(1,2) by (intro exI [of _ h] exI [of _ p] exI [of _ h1] exI [of _ h2]) simp
qed

text \<open>Allocating and freeing restores the set of live payloads.\<close>

theorem user_alloc_free_restores:
  assumes ok: "user_heap_ok c pid bs fl h" and r: "granted_request c pid bs fl h n k"
  shows "\<exists>p h1 h2 bs2 fl2. uheap_alloc (resize_syscall c) n (2 ^ k) h = returns (Some p, h1)
    \<and> uheap_free (Some p) h1 = returns h2 \<and> user_heap_ok c pid bs2 fl2 h2 \<and> live_blocks h2 bs2 = live_blocks h bs"
proof -
  obtain p h1 bs1 fl1 where a: "uheap_alloc (resize_syscall c) n (2 ^ k) h = returns (Some p, h1)"
    "user_heap_ok c pid bs1 fl1 h1" "granted bs h n p bs1 h1"
    using user_alloc_ok [OF ok r] by blast
  obtain m where m: "(p, m) \<in> live_blocks h1 bs1" using a(3) by (auto simp: granted_def)
  obtain h2 bs2 fl2 where f: "uheap_free (Some p) h1 = returns h2" "user_heap_ok c pid bs2 fl2 h2"
    using user_free_ok [OF a(2) m] by blast
  have "live_blocks h2 bs2 = live_blocks h bs"
    using user_objects.alloc_free_restores [of c pid "(bs, fl, h)" "(p, m)" "(bs1, fl1, h1)" "(bs2, fl2, h2)"]
      ok r a(1,2) m f by auto
  then show ?thesis using a(1) f by (intro exI [of _ p] exI [of _ h1] exI [of _ h2] exI [of _ bs2] exI [of _ fl2]) simp
qed

theorem user_alloc_free_restores_witness:
  "\<exists>h p h1 h2 bs2 fl2. uheap_init (resize_syscall 0) (uheap_new big_vspace) = returns h
     \<and> uheap_alloc (resize_syscall 0) 100 8 h = returns (Some p, h1) \<and> uheap_free (Some p) h1 = returns h2
     \<and> user_heap_ok 0 7 bs2 fl2 h2 \<and> live_blocks h2 bs2 = {}"
proof -
  obtain h where h: "uheap_init (resize_syscall 0) (uheap_new big_vspace) = returns h"
    "user_heap_ok 0 7 [(0, uh_size h, False)] [0] h" "granted_request 0 7 [(0, uh_size h, False)] [0] h 100 3"
    by (rule big_heap_alloc)
  from user_alloc_free_restores [OF h(2,3)] obtain p h1 h2 bs2 fl2 where
    "uheap_alloc (resize_syscall 0) 100 (2 ^ 3) h = returns (Some p, h1)" "uheap_free (Some p) h1 = returns h2"
    "user_heap_ok 0 7 bs2 fl2 h2" "live_blocks h2 bs2 = live_blocks h [(0, uh_size h, False)]" by (elim exE conjE)
  then show ?thesis using h(1)
    by (intro exI [of _ h] exI [of _ p] exI [of _ h1] exI [of _ h2] exI [of _ bs2] exI [of _ fl2]) simp
qed

text \<open>When no free block is large enough and the kernel refuses to grow the heap, the
  allocation does not return null but aborts the program: the kernel leaves the result at zero
  and the caller takes any result other than the size of the arguments for a bug.\<close>

theorem user_alloc_refused_panics:
  assumes ok: "user_heap_ok c pid bs fl h" and n: "0 < n" "n < 2 ^ 62" "k \<le> 12" "uh_size h \<noteq> 0"
    and small: "too_small bs (needed_size n (2 ^ k)) fl"
    and p: "bt_get (processes (os h)) pid = Some p"
  defines "g \<equiv> align_up (needed_size n (2 ^ k)) HEAP_GROW_SIZE"
  assumes no: "stack_top p \<le> heap_end p + g \<or> card (free_frames_of (os h)) < g div 4096"
  shows "uheap_alloc (resize_syscall c) n (2 ^ k) h = panics"
proof -
  have k: "uheap_ok bs fl h" and run: "current_pid c (kern (os h)) = returns pid" "proc_heap_ok p (os h)"
    using ok p by (auto simp: user_heap_ok_def running_def)
  note N = needed_size_facts [OF n(1-3)]
  have p18: "(2::nat) ^ 18 = HEAP_GROW_SIZE" by simp
  have gf: "needed_size n (2 ^ k) \<le> g" "g < needed_size n (2 ^ k) + 2 ^ 18" "2 ^ 18 dvd g"
    unfolding g_def using align_up_facts [of "needed_size n (2 ^ k)" 18] N(4) unfolding p18 by simp_all
  have g: "0 < g" "g < 2 ^ 63" using gf N(1,4) by auto
  obtain j where j: "g = 4096 * j" using dvd_trans [of 4096 "2 ^ 18" g] gf(3) by (auto simp: dvd_def)
  have "grow_heap g (p, os h) = returns (Inl OutOfMemory, p, os h)"
    by (rule grow_heap_refused [OF run(2) g]) (use no in \<open>simp add: j\<close>)
  then have "uheap_resize (resize_syscall c) (int g) h = panics"
    using run(1) p g(1) by (simp add: uheap_resize_def resize_syscall_def resize_heap_def in_current_process_def with_process_def)
  then have "uheap_grow (resize_syscall c) (needed_size n (2 ^ k)) h = panics"
    by (simp add: uheap_grow_def flip: g_def)
  moreover have "alloc_search (needed_size n (2 ^ k)) None (free_head h) h = returns (None, h)"
    using alloc_search_cases [of bs "[]" fl h "free_head h" "needed_size n (2 ^ k)"] k uheap_okD(1,4) [OF k]
      small tiles_same_offset [OF uheap_okD(1) [OF k]]
    by (fastforce simp: too_small_def)
  ultimately show ?thesis
    using n(1,4) by (subst uheap_alloc.simps) (cases "free_head h = UNULL", simp_all add: uheap_init_def Let_def)
qed

theorem user_alloc_refused_panics_witness:
  "\<exists>h. uheap_init (resize_syscall 0) (uheap_new big_vspace) = returns h
     \<and> uheap_alloc (resize_syscall 0) (2 ^ 40) 8 h = panics"
proof -
  obtain h where h: "uheap_init (resize_syscall 0) (uheap_new big_vspace) = returns h"
    "user_heap_ok 0 7 [(0, uh_size h, False)] [0] h" "granted_request 0 7 [(0, uh_size h, False)] [0] h 100 3"
    by (rule big_heap_alloc)
  obtain p where p: "bt_get (processes (os h)) 7 = Some p" "proc_heap_ok p (os h)" "4096 * heap_pages p = uh_size h"
    using h(2) by (auto simp: user_heap_ok_def running_def heap_region_def)
  have N: "(2::nat) ^ 40 + 8 \<le> needed_size (2 ^ 40) (2 ^ 3)" by (rule needed_size_facts) auto
  have N4: "needed_size (2 ^ 40) (2 ^ 3) < 2 ^ 62 + 2 ^ 13" by (rule needed_size_facts) auto
  have st: "stack_top p \<le> 2 ^ 39" "heap_end p \<le> 2 ^ 39" using proc_heap_okD(4,5) [OF p(2)] by auto
  then have "uh_size h \<le> 2 ^ 39" using p(3) by (simp add: heap_end_def)
  then have "too_small [(0, uh_size h, False)] (needed_size (2 ^ 40) (2 ^ 3)) [0]" using N by (auto simp: too_small_def)
  moreover have "needed_size (2 ^ 40) (2 ^ 3) \<le> align_up (needed_size (2 ^ 40) (2 ^ 3)) (2 ^ 18)"
    by (rule align_up_facts) (use N4 in simp)
  then have "stack_top p \<le> heap_end p + align_up (needed_size (2 ^ 40) (2 ^ 3)) HEAP_GROW_SIZE" using N st by simp
  moreover have "uh_size h \<noteq> 0" using h(3) by (simp add: granted_request_def)
  ultimately have "uheap_alloc (resize_syscall 0) (2 ^ 40) (2 ^ 3) h = panics"
    by (intro user_alloc_refused_panics [OF h(2) _ _ _ _ _ p(1)]) auto
  then show ?thesis using h(1) by (intro exI [of _ h]) simp
qed

end
