(* ===== verification/Png.thy ===== *)
theory Png
  imports Inflate
begin

text \<open>
  The PNG loader, \<^verbatim>\<open>programs/rtlib/src/graphics/png.rs\<close>: reading the chunks of a file, undoing the
  filters of the scan lines of the inflated data, and converting the pixels to RGBA.

  The file is a state \<open>'f\<close> with an operation \<open>rd n\<close>, one call of \<^verbatim>\<open>File::read\<close> with a fresh buffer
  of \<open>n\<close> bytes: the number of bytes read and the buffer afterwards. The buffers that
  \<^verbatim>\<open>vec!\<close> makes are assumed to fit in memory.
\<close>

section \<open>State\<close>

datatype color_type = Grayscale | RGB | Indexed | GrayscaleAlpha | RGBA

fun bytes_per_pixel :: "color_type \<Rightarrow> nat" where
  "bytes_per_pixel Grayscale = 1"
| "bytes_per_pixel RGB = 3"
| "bytes_per_pixel Indexed = 1"
| "bytes_per_pixel GrayscaleAlpha = 2"
| "bytes_per_pixel RGBA = 4"

record image =
  img_width :: nat
  img_height :: nat
  bit_depth :: u8
  img_color :: color_type
  interlaced :: bool

record png_image =
  img :: image
  comp :: u8
  filt :: u8
  idat :: "u8 list"
  plte :: "u8 list"
  trns :: "u8 list"

type_synonym rgba = "u8 \<times> u8 \<times> u8 \<times> u8"

definition png_new :: "nat \<Rightarrow> nat \<Rightarrow> png_image" where
  "png_new w h = \<lparr>img = \<lparr>img_width = w, img_height = h, bit_depth = 8, img_color = RGBA, interlaced = False\<rparr>,
     comp = 0, filt = 0, idat = [], plte = [], trns = []\<rparr>"

definition saturating_mul :: "usize \<Rightarrow> usize \<Rightarrow> usize" where
  "saturating_mul a b = min (a * b) (usize_span - 1)"

definition checked_mul :: "usize \<Rightarrow> usize \<Rightarrow> usize option" where
  "checked_mul a b = (if a * b < usize_span then Some (a * b) else None)"

definition pixel_count :: "png_image \<Rightarrow> usize" where
  "pixel_count p = saturating_mul (img_width (img p)) (img_height (img p))"

definition required_buffer_size :: "png_image \<Rightarrow> usize option" where
  "required_buffer_size p = checked_mul (pixel_count p) 4"

section \<open>Chunks\<close>

definition from_be_bytes :: "u8 list \<Rightarrow> nat" where
  "from_be_bytes bs = fold (\<lambda>b n. 256 * n + unat b) bs 0"

definition tag :: "string \<Rightarrow> u8 list" where
  "tag = map of_char"

definition png_signature :: "u8 list" where
  "png_signature = [0x89, 0x50, 0x4E, 0x47, 0x0D, 0x0A, 0x1A, 0x0A]"

definition color_type_of :: "u8 \<Rightarrow> color_type option" where
  "color_type_of b = (if b = 0 then Some Grayscale else if b = 2 then Some RGB else if b = 3 then Some Indexed
     else if b = 4 then Some GrayscaleAlpha else if b = 6 then Some RGBA else None)"

definition ihdr_chunk :: "u8 list \<Rightarrow> png_image \<Rightarrow> error_code + png_image" where
  "ihdr_chunk data p =
     (if length data \<noteq> 13 then Inl InvalidFormat
      else case color_type_of (data ! 9) of
        None \<Rightarrow> Inl NotSupported
      | Some c \<Rightarrow>
          let w = from_be_bytes (take 4 data); h = from_be_bytes (take 4 (drop 4 data));
              p' = p\<lparr>img := \<lparr>img_width = w, img_height = h, bit_depth = data ! 8, img_color = c,
                       interlaced = (data ! 12 \<noteq> 0)\<rparr>, comp := data ! 10, filt := data ! 11\<rparr>
          in if comp p' \<noteq> 0 \<or> filt p' \<noteq> 0 then Inl NotSupported
             else if w = 0 \<or> h = 0 then Inl InvalidFormat
             else if bit_depth (img p') \<noteq> 8 then Inl NotSupported
             else Inr p')"

datatype chunk_step = ChunkError error_code | ImageEnd | NextChunk png_image bool

definition png_chunk :: "u8 list \<Rightarrow> u8 list \<Rightarrow> png_image \<Rightarrow> bool \<Rightarrow> chunk_step" where
  "png_chunk typ data p valid =
     (if typ = tag ''IHDR''
      then (case ihdr_chunk data p of Inl e \<Rightarrow> ChunkError e | Inr p' \<Rightarrow> NextChunk p' True)
      else if typ = tag ''IDAT'' then NextChunk (p\<lparr>idat := idat p @ data\<rparr>) valid
      else if typ = tag ''IEND'' then ImageEnd
      else if typ = tag ''PLTE''
      then if length data mod 3 \<noteq> 0 then ChunkError InvalidFormat else NextChunk (p\<lparr>plte := data\<rparr>) valid
      else if typ = tag ''tRNS'' then NextChunk (p\<lparr>trns := data\<rparr>) valid
      else NextChunk p valid)"

type_synonym 'f reader = "nat \<Rightarrow> ('f, nat \<times> u8 list) fallible"

text \<open>\<^verbatim>\<open>f.read(&mut b).unwrap_or(0) != n\<close> is an \<^verbatim>\<open>IOError\<close>.\<close>

definition read_full :: "'f reader \<Rightarrow> nat \<Rightarrow> ('f, u8 list) fallible" where
  "read_full rd n f = and_then (rd n f) (\<lambda>(r, f'). case r of
       Inr (k, b) \<Rightarrow> if k = n then succeed b f' else throw IOError f'
     | Inl e \<Rightarrow> throw IOError f')"

partial_function (option) load_chunks ::
  "'f reader \<Rightarrow> png_image \<Rightarrow> bool \<Rightarrow> 'f \<Rightarrow> ((error_code + png_image \<times> bool) \<times> 'f) run" where
  "load_chunks rd p valid f =
     try_then (read_full rd 4) (\<lambda>len_b. try_then (read_full rd 4) (\<lambda>typ.
       try_then (if from_be_bytes len_b > 0 then read_full rd (from_be_bytes len_b) else succeed []) (\<lambda>data.
         try_then (read_full rd 4) (\<lambda>crc f'. case png_chunk typ data p valid of
             ChunkError e \<Rightarrow> throw e f'
           | ImageEnd \<Rightarrow> succeed (p, valid) f'
           | NextChunk p' valid' \<Rightarrow> load_chunks rd p' valid' f')))) f"

definition png_read :: "'f reader \<Rightarrow> ('f, png_image) fallible" where
  "png_read rd = try_then (rd 8) (\<lambda>(k, sig).
     if sig \<noteq> png_signature then throw InvalidFormat
     else try_then (load_chunks rd (png_new 0 0) False) (\<lambda>(p, valid).
       if valid then succeed p else throw InvalidFormat))"

section \<open>Scan lines\<close>

text \<open>The predicted value of the next byte, from the bytes \<open>acc\<close> of the row that are known and
  the row above.\<close>

definition left_byte :: "nat \<Rightarrow> u8 list \<Rightarrow> u8" where
  "left_byte bpp acc = (if length acc \<ge> bpp then acc ! (length acc - bpp) else 0)"

definition paeth :: "int \<Rightarrow> int \<Rightarrow> int \<Rightarrow> int" where
  "paeth a b c =
     (let p = a + b - c; pa = \<bar>p - a\<bar>; pb = \<bar>p - b\<bar>; pc = \<bar>p - c\<bar>
      in if pa \<le> pb \<and> pa \<le> pc then a else if pb \<le> pc then b else c)"

definition predicted :: "u8 \<Rightarrow> nat \<Rightarrow> u8 list \<Rightarrow> u8 list \<Rightarrow> u8" where
  "predicted ft bpp prev acc =
     (let i = length acc in
      if ft = 1 then left_byte bpp acc
      else if ft = 2 then prev ! i
      else if ft = 3 then of_nat ((unat (left_byte bpp acc) + unat (prev ! i)) div 2)
      else if ft = 4
      then of_int (paeth (uint (left_byte bpp acc)) (uint (prev ! i)) (if i \<ge> bpp then uint (prev ! (i - bpp)) else 0))
      else 0)"

fun recon_row :: "u8 \<Rightarrow> nat \<Rightarrow> u8 list \<Rightarrow> u8 list \<Rightarrow> u8 list \<Rightarrow> u8 list" where
  "recon_row ft bpp prev acc [] = acc"
| "recon_row ft bpp prev acc (s # scan) =
     recon_row ft bpp prev (acc @ [s + predicted ft bpp prev acc]) scan"

text \<open>\<open>out[dst..dst + n].copy_from_slice(row)\<close>.\<close>

definition copy_slice :: "nat \<Rightarrow> u8 list \<Rightarrow> u8 list \<Rightarrow> u8 list run" where
  "copy_slice dst row out =
     (if dst + length row \<le> length out then returns (take dst out @ row @ drop (dst + length row) out) else panics)"

fun recon_rows :: "nat \<Rightarrow> nat \<Rightarrow> nat \<Rightarrow> u8 list \<Rightarrow> nat \<Rightarrow> nat \<Rightarrow> u8 list \<Rightarrow> u8 list \<Rightarrow> (error_code + u8 list) run" where
  "recon_rows 0 bpp row_bytes dec src dst prev out = returns (Inr out)"
| "recon_rows (Suc n) bpp row_bytes dec src dst prev out = and_then (item_at dec src) (\<lambda>ft.
     if src + 1 + row_bytes > length dec then panics
     else if ft > 4 then returns (Inl NotSupported)
     else
       let row = recon_row ft bpp prev [] (take row_bytes (drop (src + 1) dec))
       in and_then (copy_slice dst row out) (\<lambda>out'.
            recon_rows n bpp row_bytes dec (src + 1 + row_bytes) (dst + row_bytes) row out'))"

text \<open>\<^verbatim>\<open>next_frame\<close>: the size of the frame and the contents of \<open>out\<close>.\<close>

definition next_frame :: "png_image \<Rightarrow> u8 list \<Rightarrow> (error_code + nat \<times> u8 list) run" where
  "next_frame p out = and_then (read_to_end [] (zlib_new (idat p))) (\<lambda>(r, z). case r of
       Inl e \<Rightarrow> returns (Inl e)
     | Inr u \<Rightarrow>
         let dec = out_vec z; bpp = bytes_per_pixel (img_color (img p));
             row_bytes = umul (img_width (img p)) bpp
         in (case checked_mul (img_height (img p)) (uadd 1 row_bytes) of
               None \<Rightarrow> returns (Inl InvalidFormat)
             | Some expected \<Rightarrow>
                 if length dec < expected then returns (Inl InvalidFormat)
                 else (case checked_mul (img_height (img p)) row_bytes of
                   None \<Rightarrow> returns (Inl InvalidFormat)
                 | Some out_len \<Rightarrow>
                     if length out < out_len then returns (Inl InvalidFormat)
                     else and_then (recon_rows (img_height (img p)) bpp row_bytes dec 0 0 (replicate row_bytes 0) out)
                            (\<lambda>r. case r of Inl e \<Rightarrow> returns (Inl e) | Inr out' \<Rightarrow> returns (Inr (out_len, out'))))))"

section \<open>Pixels\<close>

fun indexed_pixels :: "png_image \<Rightarrow> u8 list \<Rightarrow> error_code + rgba list" where
  "indexed_pixels p [] = Inr []"
| "indexed_pixels p (b # data) =
     (let idx = unat b in
      if idx \<ge> length (plte p) div 3 then Inl InvalidFormat
      else case indexed_pixels p data of
        Inl e \<Rightarrow> Inl e
      | Inr ps \<Rightarrow> Inr ((plte p ! (3 * idx), plte p ! (3 * idx + 1), plte p ! (3 * idx + 2),
            if idx < length (trns p) then trns p ! idx else 0xFF) # ps))"

definition pixels_of :: "png_image \<Rightarrow> nat \<Rightarrow> u8 list \<Rightarrow> error_code + rgba list" where
  "pixels_of p n data =
     (case img_color (img p) of
        RGBA \<Rightarrow> if length data \<noteq> umul n 4 then Inl InvalidFormat
          else Inr (map (\<lambda>i. (data ! (4 * i), data ! (4 * i + 1), data ! (4 * i + 2), data ! (4 * i + 3))) [0..<n])
      | RGB \<Rightarrow> if length data \<noteq> umul n 3 then Inl InvalidFormat
          else Inr (map (\<lambda>i. (data ! (3 * i), data ! (3 * i + 1), data ! (3 * i + 2), 0xFF)) [0..<n])
      | Grayscale \<Rightarrow> if length data \<noteq> n then Inl InvalidFormat
          else Inr (map (\<lambda>i. (data ! i, data ! i, data ! i, 0xFF)) [0..<n])
      | GrayscaleAlpha \<Rightarrow> if length data \<noteq> umul n 2 then Inl InvalidFormat
          else Inr (map (\<lambda>i. (data ! (2 * i), data ! (2 * i), data ! (2 * i), data ! (2 * i + 1))) [0..<n])
      | Indexed \<Rightarrow> if plte p = [] then Inl InvalidFormat
          else if length data \<noteq> n then Inl InvalidFormat
          else indexed_pixels p data)"

definition png_decode :: "png_image \<Rightarrow> (error_code + rgba list) run" where
  "png_decode p =
     (if interlaced (img p) then returns (Inl NotSupported)
      else
        let n = umul (img_width (img p)) (img_height (img p));
            size = saturating_mul (img_height (img p))
                     (uadd 1 (saturating_mul (img_width (img p)) (bytes_per_pixel (img_color (img p)))))
        in and_then (next_frame p (replicate size 0)) (\<lambda>r. case r of
             Inl e \<Rightarrow> returns (Inl e)
           | Inr (len, out) \<Rightarrow> if len \<le> length out then returns (pixels_of p n (take len out)) else panics))"

end
