(* ===== verification/Png_Props.thy ===== *)
theory Png_Props
  imports Png Inflate_Stream
begin

text \<open>
  The PNG loader against a PNG encoder: the filters of the format (\<open>filter_row\<close>,
  \<open>filtered_rows\<close>) and the order of the samples (\<open>rgba_bytes\<close>).
\<close>

section \<open>Filters\<close>

text \<open>The predictors of the PNG specification, from the bytes to the left (\<open>a\<close>), above (\<open>b\<close>)
  and above left (\<open>c\<close>) in the original image; Paeth's takes the first of the three that is
  nearest to \<open>a + b - c\<close>. An encoder subtracts the predictor from each byte.\<close>

definition png_predictor :: "u8 \<Rightarrow> nat \<Rightarrow> u8 list \<Rightarrow> u8 list \<Rightarrow> nat \<Rightarrow> u8" where
  "png_predictor ft bpp prev row i =
     (let a = if i < bpp then 0 else row ! (i - bpp); b = prev ! i; c = if i < bpp then 0 else prev ! (i - bpp)
      in if ft = 1 then a
         else if ft = 2 then b
         else if ft = 3 then of_nat ((unat a + unat b) div 2)
         else if ft = 4 then arg_min_list (\<lambda>x. \<bar>uint a + uint b - uint c - uint x\<bar>) [a, b, c]
         else 0)"

definition filter_row :: "u8 \<Rightarrow> nat \<Rightarrow> u8 list \<Rightarrow> u8 list \<Rightarrow> u8 list" where
  "filter_row ft bpp prev row = map (\<lambda>i. row ! i - png_predictor ft bpp prev row i) [0..<length row]"

fun filtered_rows :: "nat \<Rightarrow> u8 list \<Rightarrow> (u8 \<times> u8 list) list \<Rightarrow> u8 list" where
  "filtered_rows bpp prev [] = []"
| "filtered_rows bpp prev ((ft, row) # rows) = ft # filter_row ft bpp prev row @ filtered_rows bpp row rows"

lemma paeth_nearest:
  "of_int (paeth (uint a) (uint b) (uint c)) = arg_min_list (\<lambda>x. \<bar>uint a + uint b - uint c - uint x\<bar>) [a, b, c :: u8]"
  by (simp add: paeth_def Let_def)

lemma predicted_is_predictor:
  "i < length row \<Longrightarrow> 0 < bpp \<Longrightarrow> predicted ft bpp prev (take i row) = png_predictor ft bpp prev row i"
  using paeth_nearest [of 0 "prev ! i" 0]
  by (simp add: predicted_def png_predictor_def left_byte_def paeth_nearest Let_def not_less del: arg_min_list.simps)

lemma recon_rest:
  assumes "0 < bpp"
  shows "k \<le> length row \<Longrightarrow>
    recon_row ft bpp prev (take k row) (map (\<lambda>i. row ! i - png_predictor ft bpp prev row i) [k..<length row]) = row"
proof (induction "length row - k" arbitrary: k)
  case (Suc n)
  then have k: "k < length row" by simp
  then have "recon_row ft bpp prev (take (Suc k) row)
      (map (\<lambda>i. row ! i - png_predictor ft bpp prev row i) [Suc k..<length row]) = row"
    using Suc(1) [of "Suc k"] Suc(2) by simp
  then show ?case
    using k by (simp add: upt_conv_Cons predicted_is_predictor [OF k assms] take_Suc_conv_app_nth)
qed simp

lemma recon_filter_row: "0 < bpp \<Longrightarrow> recon_row ft bpp prev [] (filter_row ft bpp prev row) = row"
  using recon_rest [of bpp 0 row ft prev] by (simp add: filter_row_def)

lemma length_filter_row [simp]: "length (filter_row ft bpp prev row) = length row"
  by (simp add: filter_row_def)

definition rows_ok :: "nat \<Rightarrow> (u8 \<times> u8 list) list \<Rightarrow> bool" where
  "rows_ok row_bytes rows \<longleftrightarrow> (\<forall>(ft, row) \<in> set rows. ft \<le> 4 \<and> length row = row_bytes)"

lemma rows_ok_Cons [simp]: "rows_ok n ((ft, row) # rows) \<longleftrightarrow> ft \<le> 4 \<and> length row = n \<and> rows_ok n rows"
  by (simp add: rows_ok_def)

lemma length_filtered_rows: "rows_ok n rows \<Longrightarrow> length (filtered_rows bpp prev rows) = length rows * (1 + n)"
  by (induction bpp prev rows rule: filtered_rows.induct) simp_all

lemma length_concat_rows: "rows_ok n rows \<Longrightarrow> length (concat (map snd rows)) = length rows * n"
  by (induction rows) auto

lemma recon_filtered_rows:
  assumes "rows_ok n rows" "dec = pre @ filtered_rows bpp prev rows @ suf" "src = length pre"
    "dst + length rows * n \<le> length out" "0 < bpp"
  shows "recon_rows (length rows) bpp n dec src dst prev out
    = returns (Inr (take dst out @ concat (map snd rows) @ drop (dst + length rows * n) out))"
  using assms
proof (induction bpp prev rows arbitrary: pre src dst out rule: filtered_rows.induct)
  case (2 bpp prev ft row rows)
  let ?scan = "filter_row ft bpp prev row"
  have r: "length row = n" "ft \<le> 4" "rows_ok n rows" using "2.prems"(1) by simp_all
  have i: "item_at dec src = returns ft" using "2.prems"(2,3) by simp
  have sc: "take n (drop (src + 1) dec) = ?scan" "src + 1 + n \<le> length dec" using "2.prems"(2,3) r by simp_all
  let ?out = "take dst out @ row @ drop (dst + n) out"
  have c: "copy_slice dst row out = returns ?out" using "2.prems"(4) r by (simp add: copy_slice_def)
  have "recon_rows (length rows) bpp n dec (src + 1 + n) (dst + n) row ?out
      = returns (Inr (take (dst + n) ?out @ concat (map snd rows) @ drop (dst + n + length rows * n) ?out))"
  proof (rule "2.IH" [OF r(3)])
    show "dec = (pre @ [ft] @ ?scan) @ filtered_rows bpp row rows @ suf" using "2.prems"(2) by simp
  qed (use "2.prems"(3-5) r in simp_all)
  moreover have "take (dst + n) ?out = take dst out @ row" using "2.prems"(4) r by simp
  moreover have "drop (dst + n + length rows * n) ?out = drop (dst + (n + length rows * n)) out"
  proof -
    have "drop (dst + n + length rows * n) ?out = drop (length rows * n) (drop (dst + n) ?out)"
      by (simp only: drop_drop add.commute)
    also have "drop (dst + n) ?out = drop (dst + n) out" using "2.prems"(4) r by simp
    also have "drop (length rows * n) (drop (dst + n) out) = drop (dst + (n + length rows * n)) out"
      by (simp only: drop_drop) (simp only: ac_simps)
    finally show ?thesis .
  qed
  ultimately show ?case using i sc c r(2) recon_filter_row [of bpp ft prev row] "2.prems"(5)
    by (simp add: Let_def not_less)
qed simp

text \<open>One frame: data that inflates to filtered rows is unfiltered into the rows.\<close>

lemma bytes_per_pixel_pos: "0 < bytes_per_pixel c"
  by (cases c) simp_all

lemma next_frame_ok:
  assumes z: "read_to_end [] (zlib_new (idat p)) = returns (Inr (), z)"
    and dec: "out_vec z = filtered_rows bpp (replicate row_bytes 0) rows"
    and c: "bpp = bytes_per_pixel (img_color (img p))" "row_bytes = img_width (img p) * bpp" "length rows = img_height (img p)"
    and ok: "rows_ok row_bytes rows" and fits: "length rows * (1 + row_bytes) < usize_span"
    and pos: "rows \<noteq> []" and out: "length rows * row_bytes \<le> length out"
  shows "next_frame p out = returns (Inr (length rows * row_bytes, concat (map snd rows) @ drop (length rows * row_bytes) out))"
proof -
  have "1 + row_bytes \<le> length rows * (1 + row_bytes)" using pos by (cases rows) simp_all
  then have w: "1 + row_bytes < usize_span" using fits by (rule le_less_trans)
  have u: "umul (img_width (img p)) bpp = row_bytes" "uadd 1 row_bytes = 1 + row_bytes"
    using w c(2) by (simp_all add: umul_exact uadd_exact)
  have lr: "length rows * row_bytes < usize_span" using fits by simp
  have r: "recon_rows (length rows) bpp row_bytes (out_vec z) 0 0 (replicate row_bytes 0) out
      = returns (Inr (take 0 out @ concat (map snd rows) @ drop (0 + length rows * row_bytes) out))"
    by (rule recon_filtered_rows [OF ok, of _ "[]" _ _ "[]"]) (simp_all add: dec out c(1) bytes_per_pixel_pos)
  show ?thesis
    unfolding next_frame_def z and_then_simps split sum.case Let_def c(1) [symmetric] u c(3) [symmetric] checked_mul_def
    using fits lr out r length_filtered_rows [OF ok, of bpp "replicate row_bytes 0"] by (simp add: dec)
qed

section \<open>Pixels\<close>

definition rgba_bytes :: "rgba list \<Rightarrow> u8 list" where
  "rgba_bytes ps = concat (map (\<lambda>(r, g, b, a). [r, g, b, a]) ps)"

lemma length_rgba_bytes [simp]: "length (rgba_bytes ps) = 4 * length ps"
  by (induction ps) (auto simp: rgba_bytes_def)

lemma rgba_bytes_nth:
  assumes "i < length ps"
  shows "rgba_bytes ps ! (4 * i) = fst (ps ! i) \<and> rgba_bytes ps ! (4 * i + 1) = fst (snd (ps ! i))
    \<and> rgba_bytes ps ! (4 * i + 2) = fst (snd (snd (ps ! i))) \<and> rgba_bytes ps ! (4 * i + 3) = snd (snd (snd (ps ! i)))"
  using assms
proof (induction ps arbitrary: i)
  case (Cons p ps)
  have n: "rgba_bytes (p # ps) = fst p # fst (snd p) # fst (snd (snd p)) # snd (snd (snd p)) # rgba_bytes ps"
    by (cases p) (simp add: rgba_bytes_def)
  show ?case
  proof (cases i)
    case (Suc j)
    then have j: "4 * i = Suc (Suc (Suc (Suc (4 * j))))" "4 * i + 1 = Suc (Suc (Suc (Suc (4 * j + 1))))"
      "4 * i + 2 = Suc (Suc (Suc (Suc (4 * j + 2))))" "4 * i + 3 = Suc (Suc (Suc (Suc (4 * j + 3))))" by simp_all
    show ?thesis unfolding n j nth_Cons_Suc using Cons.IH [of j] Cons.prems Suc by (auto simp: add.commute)
  qed (simp add: n)
qed simp

lemma png_decode_pixels:
  assumes img: "img_color (img p) = RGBA" "\<not> interlaced (img p)" "length rows = img_height (img p)" "rows \<noteq> []"
    and rows: "rows_ok (4 * img_width (img p)) rows" "concat (map snd rows) = rgba_bytes ps"
    and z: "read_to_end [] (zlib_new (idat p)) = returns (Inr (), z)"
      "out_vec z = filtered_rows 4 (replicate (4 * img_width (img p)) 0) rows"
    and fits: "img_height (img p) * (1 + 4 * img_width (img p)) < usize_span"
  shows "png_decode p = returns (Inr ps)"
proof -
  let ?w = "img_width (img p)" and ?h = "img_height (img p)"
  have len: "4 * length ps = ?h * (4 * ?w)"
    using length_concat_rows [OF rows(1)] img(3) unfolding rows(2) by simp
  then have n: "length ps = ?w * ?h" by simp
  have h: "0 < ?h" using img(3,4) by (cases rows) (auto simp flip: img(3))
  have "1 + 4 * ?w \<le> ?h * (1 + 4 * ?w)" using h by (cases ?h) simp_all
  then have w: "1 + 4 * ?w < usize_span" using fits by (rule le_less_trans)
  have lb: "?h * (4 * ?w) < usize_span" using fits by simp
  have "?w * ?h \<le> ?h * (4 * ?w)" by simp
  then have wh: "?w * ?h < usize_span" using lb by (rule le_less_trans)
  have sz: "saturating_mul ?h (uadd 1 (saturating_mul ?w 4)) = ?h * (1 + 4 * ?w)"
    using w fits by (simp add: saturating_mul_def uadd_exact mult.commute)
  have f: "next_frame p (replicate (?h * (1 + 4 * ?w)) 0) = returns (Inr (length rows * (4 * ?w),
      concat (map snd rows) @ drop (length rows * (4 * ?w)) (replicate (?h * (1 + 4 * ?w)) 0)))"
    by (rule next_frame_ok [OF z(1), of 4]) (use z(2) img rows fits in \<open>simp_all add: mult.commute\<close>)
  have t: "take (length rows * (4 * ?w)) (rgba_bytes ps @ xs) = rgba_bytes ps" for xs using len img(3) by simp
  have u: "umul ?w ?h = length ps" "umul (length ps) 4 = 4 * length ps"
    using wh n len lb by (simp_all add: umul_exact mult.commute)
  have "map (\<lambda>i. (rgba_bytes ps ! (4 * i), rgba_bytes ps ! (4 * i + 1), rgba_bytes ps ! (4 * i + 2), rgba_bytes ps ! (4 * i + 3)))
      [0..<length ps] = ps"
  proof (rule nth_equalityI)
    fix i assume "i < length (map (\<lambda>i. (rgba_bytes ps ! (4 * i), rgba_bytes ps ! (4 * i + 1), rgba_bytes ps ! (4 * i + 2),
        rgba_bytes ps ! (4 * i + 3))) [0..<length ps])"
    then show "map (\<lambda>i. (rgba_bytes ps ! (4 * i), rgba_bytes ps ! (4 * i + 1), rgba_bytes ps ! (4 * i + 2),
        rgba_bytes ps ! (4 * i + 3))) [0..<length ps] ! i = ps ! i"
      using rgba_bytes_nth [of i ps] by (simp add: prod_eq_iff)
  qed simp
  then have px: "pixels_of p (length ps) (rgba_bytes ps) = Inr ps" using img(1) u(2) by (simp add: pixels_of_def)
  show ?thesis
    using img(2) px len img(3) unfolding png_decode_def Let_def img(1) bytes_per_pixel.simps sz u(1) f rows(2)
    by (simp add: t)
qed

text \<open>Round trip of the pixels: take an RGBA image, apply any of the five PNG filters to each
  of its rows, and compress the result into any zlib stream that inflates to it. \<^verbatim>\<open>decode\<close>
  returns exactly the pixels of the image.\<close>

theorem png_decode_roundtrip:
  assumes img: "img_color (img p) = RGBA" "\<not> interlaced (img p)" "length rows = img_height (img p)" "rows \<noteq> []"
    and rows: "rows_ok (4 * img_width (img p)) rows" "concat (map snd rows) = rgba_bytes ps"
    and z: "read_to_end [] (zlib_new (idat p)) = returns (Inr (), z)"
      "out_vec z = filtered_rows 4 (replicate (4 * img_width (img p)) 0) rows"
    and fits: "img_height (img p) * (1 + 4 * img_width (img p)) < usize_span"
  shows "png_decode p = returns (Inr ps)"
  using assms by (rule png_decode_pixels)

lemma read_to_end_stored:
  assumes "chunks \<noteq> []" and "\<forall>data \<in> set chunks. length data < 65536"
  shows "\<exists>z. read_to_end [] (zlib_new (zlib_store chunks checksum)) = returns (Inr (), z) \<and> out_vec z = concat chunks"
  using decompress_stored [OF assms, of checksum] by (auto simp: read_to_end_def zlib_new_def)

lemma png_decode_roundtrip_witness:
  "png_decode ((png_new 1 2)\<lparr>idat := zlib_store [[2, 10, 20, 30, 40, 4, 1, 1, 1, 1]] []\<rparr>)
    = returns (Inr [(10, 20, 30, 40), (11, 21, 31, 41)])"
proof -
  let ?rows = "[(2, [10, 20, 30, 40]), (4, [11, 21, 31, 41])]"
  let ?p = "(png_new 1 2)\<lparr>idat := zlib_store [[2, 10, 20, 30, 40, 4, 1, 1, 1, 1]] []\<rparr>"
  have dec: "filtered_rows 4 (replicate (4 * img_width (img ?p)) 0) ?rows = [2, 10, 20, 30, 40, 4, 1, 1, 1, 1]"
    by code_simp
  obtain z where z: "read_to_end [] (zlib_new (idat ?p)) = returns (Inr (), z)" "out_vec z = [2, 10, 20, 30, 40, 4, 1, 1, 1, 1]"
    using read_to_end_stored [of "[[2, 10, 20, 30, 40, 4, 1, 1, 1, 1]]" "[]"] by auto
  show ?thesis
    by (rule png_decode_roundtrip [where rows = ?rows, OF _ _ _ _ _ _ z(1)])
      (simp_all only: dec z(2), simp_all add: png_new_def rows_ok_def rgba_bytes_def)
qed

end
