(* ===== verification/Vfs.thy ===== *)
theory Vfs
  imports Byte_Strings BTree_Map "HOL-Library.List_Lexorder"
begin

text \<open>
  The virtual file system, \<^verbatim>\<open>kernel/src/fs/mod.rs\<close>: the table of mount points, and open files
  that share a device handle by reference counting.

  A handler \<open>'h\<close> stands for the function pointer \<^verbatim>\<open>fops\<close>; the argument \<open>ops\<close> of an operation
  says what each handler does on the state \<open>'d\<close> of the drivers (\<open>file_ops\<close>, one field per
  variant of \<^verbatim>\<open>FileOperation\<close>). The shared counter of a file and its clones is a cell
  \<open>ref_count\<close> in the store \<open>counts\<close>. Paths are byte lists.
\<close>

section \<open>State\<close>

record directory_entry =
  entry_name :: bytes
  entry_flags :: nat
  entry_size :: usize

definition directory_entry_new :: directory_entry where
  "directory_entry_new = \<lparr>entry_name = [], entry_flags = 0, entry_size = 0\<rparr>"

definition FLG_DIRECTORY :: nat where "FLG_DIRECTORY = 0x1"
definition FLG_DEVICE :: nat where "FLG_DEVICE = 0x8"
definition FLG_HIDDEN :: nat where "FLG_HIDDEN = 0x10"
definition FLG_ARCHIVE :: nat where "FLG_ARCHIVE = 0x20"
definition FLG_SYSTEM :: nat where "FLG_SYSTEM = 0x40"
definition FLG_PERM_READ :: nat where "FLG_PERM_READ = 0x100"
definition FLG_PERM_WRITE :: nat where "FLG_PERM_WRITE = 0x200"
definition FLG_PERM_EXEC :: nat where "FLG_PERM_EXEC = 0x400"

definition MODE_READ :: nat where "MODE_READ = 0x2"
definition MODE_WRITE :: nat where "MODE_WRITE = 0x4"
definition MODE_EXEC :: nat where "MODE_EXEC = 0x8"

record 'd file_ops =
  op_open :: "bytes \<Rightarrow> nat \<Rightarrow> ('d, usize \<times> directory_entry) fallible"
  op_enum :: "usize \<Rightarrow> ('d, directory_entry list) fallible"
  op_read :: "usize \<Rightarrow> usize \<Rightarrow> usize \<Rightarrow> ('d, usize \<times> bytes) fallible"
  op_write :: "usize \<Rightarrow> usize \<Rightarrow> bytes \<Rightarrow> ('d, usize) fallible"
  op_exec :: "usize \<Rightarrow> usize \<Rightarrow> bytes \<Rightarrow> ('d, usize \<times> bytes) fallible"
  op_close :: "usize \<Rightarrow> ('d, usize) fallible"

record 'h mount_point =
  mnt_name :: bytes
  fops :: 'h

type_synonym 'h mount_table = "(bytes, 'h mount_point) bt_map"

record 'h vfile =
  mnt :: "'h mount_point"
  dev_hnd :: usize
  file_mode :: nat
  entry :: directory_entry
  read_off :: usize
  write_off :: usize
  ref_count :: nat

record ('h, 'd) vfs =
  mount_points :: "'h mount_table"
  counts :: "nat \<Rightarrow> nat"
  next_count :: nat
  dev :: 'd

section \<open>Mount points\<close>

abbreviation COLON :: u8 where "COLON \<equiv> 0x3A"

definition device_relative_path :: "bytes \<Rightarrow> bytes" where
  "device_relative_path path = (case find_byte COLON path of Some i \<Rightarrow> drop (i + 1) path | None \<Rightarrow> path)"

definition mount_name_in_path :: "bytes \<Rightarrow> bytes" where
  "mount_name_in_path path = (case find_byte COLON path of Some i \<Rightarrow> take i path | None \<Rightarrow> path)"

definition get_mntname_devpath :: "bytes \<Rightarrow> (bytes \<times> bytes) option" where
  "get_mntname_devpath path = (case find_byte COLON path of
       Some i \<Rightarrow> Some (take i path, drop (i + 1) path) | None \<Rightarrow> None)"

definition mount_from_path :: "'h mount_table \<Rightarrow> bytes \<Rightarrow> error_code + 'h mount_point" where
  "mount_from_path mps path =
     (if path = [] then Inl InvalidPath
      else
        let mname = (case find_byte COLON path of Some i \<Rightarrow> take i path | None \<Rightarrow> path)
        in case bt_get mps mname of Some m \<Rightarrow> Inr m | None \<Rightarrow> Inl InvalidMountPoint)"

definition mount :: "'h mount_point \<Rightarrow> 'h mount_table \<Rightarrow> bool \<times> 'h mount_table" where
  "mount m mps = (case bt_get mps (mnt_name m) of
       Some x \<Rightarrow> (False, mps)
     | None \<Rightarrow> (True, bt_insert (mnt_name m) m mps))"

definition unmount :: "bytes \<Rightarrow> 'h mount_table \<Rightarrow> 'h mount_table" where
  "unmount name mps = bt_remove name mps"

definition list_names :: "'h mount_table \<Rightarrow> bytes list" where
  "list_names mps = map fst mps"

section \<open>Open files\<close>

type_synonym ('h, 'd, 'a) vfs_op = "(('h, 'd) vfs, 'a) fallible"

text \<open>A call of the handler of a mount point.\<close>

definition call_dev :: "('d, 'a) fallible \<Rightarrow> ('h, 'd, 'a) vfs_op" where
  "call_dev f v = and_then (f (dev v)) (\<lambda>(r, d). returns (r, v\<lparr>dev := d\<rparr>))"

text \<open>On an error of the driver the half-made \<^verbatim>\<open>File\<close> is dropped, which closes handle 0.\<close>

definition file_drop :: "('h \<Rightarrow> 'd file_ops) \<Rightarrow> 'h vfile \<Rightarrow> ('h, 'd) vfs \<Rightarrow> ('h, 'd) vfs run" where
  "file_drop ops f v =
     (if counts v (ref_count f) > 1
      then returns (v\<lparr>counts := (counts v)(ref_count f := counts v (ref_count f) - 1)\<rparr>)
      else and_then (call_dev (op_close (ops (fops (mnt f))) (dev_hnd f)) v) (\<lambda>(r, v'). returns v'))"

definition file_open :: "('h \<Rightarrow> 'd file_ops) \<Rightarrow> bytes \<Rightarrow> nat \<Rightarrow> ('h, 'd, 'h vfile) vfs_op" where
  "file_open ops full_path mode v = (case mount_from_path (mount_points v) full_path of
       Inl e \<Rightarrow> throw e v
     | Inr m \<Rightarrow>
         let c = next_count v;
             f = \<lparr>mnt = m, dev_hnd = 0, file_mode = mode, entry = directory_entry_new, read_off = 0,
                   write_off = 0, ref_count = c\<rparr>;
             v1 = v\<lparr>counts := (counts v)(c := 1), next_count := c + 1\<rparr>
         in and_then (call_dev (op_open (ops (fops m)) full_path mode) v1) (\<lambda>(r, v2). case r of
              Inl e \<Rightarrow> and_then (file_drop ops f v2) (throw e)
            | Inr (hnd, e) \<Rightarrow> succeed (f\<lparr>dev_hnd := hnd, entry := e\<rparr>) v2))"

definition file_enumerate :: "('h \<Rightarrow> 'd file_ops) \<Rightarrow> 'h vfile \<Rightarrow> ('h, 'd, directory_entry list) vfs_op" where
  "file_enumerate ops f =
     (if entry_flags (entry f) AND FLG_DIRECTORY = 0 then throw InvalidOp
      else call_dev (op_enum (ops (fops (mnt f))) (dev_hnd f)))"

definition file_read_at :: "('h \<Rightarrow> 'd file_ops) \<Rightarrow> usize \<Rightarrow> 'h vfile \<Rightarrow> ('h, 'd, (usize \<times> bytes) \<times> 'h vfile) vfs_op" where
  "file_read_at ops n f =
     (if entry_flags (entry f) AND FLG_PERM_READ = 0 \<or> file_mode f AND MODE_READ = 0 then throw NotAllowed
      else try_then (call_dev (op_read (ops (fops (mnt f))) (dev_hnd f) (read_off f) n)) (\<lambda>(count, buff).
             succeed ((count, buff), f\<lparr>read_off := uadd (read_off f) count\<rparr>)))"

definition file_write :: "('h \<Rightarrow> 'd file_ops) \<Rightarrow> bytes \<Rightarrow> 'h vfile \<Rightarrow> ('h, 'd, usize \<times> 'h vfile) vfs_op" where
  "file_write ops buff f =
     (if entry_flags (entry f) AND FLG_PERM_WRITE = 0 \<or> file_mode f AND MODE_WRITE = 0 then throw NotAllowed
      else try_then (call_dev (op_write (ops (fops (mnt f))) (dev_hnd f) (write_off f) buff)) (\<lambda>count.
             let f1 = f\<lparr>write_off := uadd (write_off f) count\<rparr>
             in succeed (count, if write_off f1 > entry_size (entry f1)
                   then f1\<lparr>entry := (entry f1)\<lparr>entry_size := write_off f1\<rparr>\<rparr> else f1)))"

definition file_execute :: "('h \<Rightarrow> 'd file_ops) \<Rightarrow> usize \<Rightarrow> bytes \<Rightarrow> 'h vfile \<Rightarrow> ('h, 'd, usize \<times> bytes) vfs_op" where
  "file_execute ops func buff f =
     (if entry_flags (entry f) AND FLG_DEVICE = 0 \<or> entry_flags (entry f) AND FLG_PERM_EXEC = 0
         \<or> file_mode f AND MODE_EXEC = 0 then throw NotAllowed
      else call_dev (op_exec (ops (fops (mnt f))) (dev_hnd f) func buff))"

definition file_clone :: "'h vfile \<Rightarrow> ('h, 'd) vfs \<Rightarrow> 'h vfile \<times> ('h, 'd) vfs" where
  "file_clone f v = (f, v\<lparr>counts := (counts v)(ref_count f := counts v (ref_count f) + 1)\<rparr>)"

datatype seek_origin = SeekStart | SeekCurrent | SeekEnd
datatype seek_cursor = ReadCursor | WriteCursor

text \<open>A value of type \<^verbatim>\<open>isize\<close> read as a \<^verbatim>\<open>usize\<close>.\<close>

definition as_usize :: "int \<Rightarrow> usize" where
  "as_usize x = nat (x mod 18446744073709551616)"

definition set_cursor :: "seek_cursor \<Rightarrow> usize \<Rightarrow> 'h vfile \<Rightarrow> 'h vfile" where
  "set_cursor c n f = (case c of ReadCursor \<Rightarrow> f\<lparr>read_off := n\<rparr> | WriteCursor \<Rightarrow> f\<lparr>write_off := n\<rparr>)"

definition cursor :: "seek_cursor \<Rightarrow> 'h vfile \<Rightarrow> usize" where
  "cursor c f = (case c of ReadCursor \<Rightarrow> read_off f | WriteCursor \<Rightarrow> write_off f)"

definition file_seek :: "int \<Rightarrow> seek_origin \<Rightarrow> seek_cursor \<Rightarrow> 'h vfile \<Rightarrow> error_code + (usize \<times> 'h vfile)" where
  "file_seek delta origin c f =
     (let fsize = entry_size (entry f);
          to = (\<lambda>n. Inr (n, set_cursor c n f))
      in case origin of
           SeekStart \<Rightarrow> if delta < 0 \<or> as_usize delta \<ge> fsize then Inl InvalidArgument else to (as_usize delta)
         | SeekCurrent \<Rightarrow>
             if delta < 0 \<and> as_usize (- delta) > read_off f
               \<or> delta > 0 \<and> uadd (read_off f) (as_usize delta) > fsize then Inl InvalidArgument
             else to (as_usize (int (cursor c f) + delta))
         | SeekEnd \<Rightarrow>
             if delta > 0 \<or> as_usize (- delta) > fsize then Inl InvalidArgument
             else to (usub fsize (as_usize (- delta))))"

end
