(* ===== verification/Input.thy ===== *)
theory Input
  imports Vfs "HOL-Library.Signed_Division"
begin

text \<open>
  The keyboard and mouse interface of the kernel, \<^verbatim>\<open>kernel/src/drivers/input/mod.rs\<close>: event
  queues for the programs that opened \<^verbatim>\<open>kbd:\<close> and \<^verbatim>\<open>mouse:\<close>, and the key tables.

  The globals of the file are one record. An operation that wakes waiting tasks returns the wait
  channels it signals. The mouse call-back is only known to be set or not; \<open>mouse_push\<close> says
  whether it is called.
\<close>

section \<open>State\<close>

record listener =
  lhnd :: usize
  dhnd :: usize
  events :: "u8 list"

record keyboard =
  kbd_initialized :: bool
  devices :: "bytes list"
  listeners :: "listener list"
  next_hnd :: usize
  next_dev :: usize

type_synonym mouse_event = "nat \<times> nat \<times> nat \<times> nat"

record mouse =
  cur_x :: nat
  cur_y :: nat
  max_x :: nat
  max_y :: nat
  xdiv :: int
  ydiv :: int
  btns_sts :: u8
  mouse_initialized :: bool
  mouse_events :: "mouse_event list"
  irq_cb :: bool

record input =
  kbd_lshift :: bool
  kbd_rshift :: bool
  last_keycode :: u8
  kbd :: keyboard
  mouse :: mouse

datatype kbd_channel = KBD_WC_PRESS | KBD_WC_RELE | KBD_WC_ANY

abbreviation KBD_ROOT_HND :: usize where "KBD_ROOT_HND \<equiv> 0"
abbreviation KBD_ALL_HND :: usize where "KBD_ALL_HND \<equiv> 1"
abbreviation KBD_LISTENER_INIT_HND :: usize where "KBD_LISTENER_INIT_HND \<equiv> 0x100"
abbreviation KBD_BUFF_SIZE :: usize where "KBD_BUFF_SIZE \<equiv> 128"
abbreviation MOUSE_ROOT_HND :: usize where "MOUSE_ROOT_HND \<equiv> 0"
abbreviation MOUSE_ALL_HND :: usize where "MOUSE_ALL_HND \<equiv> 1"
abbreviation MOUSE_BUFF_SIZE :: usize where "MOUSE_BUFF_SIZE \<equiv> 1024"
abbreviation KEY_RELEASED :: u8 where "KEY_RELEASED \<equiv> 0x80"
abbreviation LeftShift :: u8 where "LeftShift \<equiv> 0x2A"
abbreviation RightShift :: u8 where "RightShift \<equiv> 0x36"

definition keyboard_new :: keyboard where
  "keyboard_new = \<lparr>kbd_initialized = False, devices = [], listeners = [],
     next_hnd = KBD_LISTENER_INIT_HND, next_dev = KBD_ALL_HND + 1\<rparr>"

definition mouse_new :: mouse where
  "mouse_new = \<lparr>cur_x = 0, cur_y = 0, max_x = 1000, max_y = 1000, xdiv = 1, ydiv = - 1, btns_sts = 0,
     mouse_initialized = False, mouse_events = [], irq_cb = False\<rparr>"

definition DEV_R_DIR_FLAGS :: nat where
  "DEV_R_DIR_FLAGS = FLG_SYSTEM OR FLG_DEVICE OR FLG_DIRECTORY OR FLG_PERM_READ"
definition DEV_RX_DIR_FLAGS :: nat where
  "DEV_RX_DIR_FLAGS = FLG_SYSTEM OR FLG_DEVICE OR FLG_DIRECTORY OR FLG_PERM_READ OR FLG_PERM_EXEC"
definition DEV_R_FILE_FLAGS :: nat where
  "DEV_R_FILE_FLAGS = FLG_SYSTEM OR FLG_DEVICE OR FLG_PERM_READ"
definition DEV_RX_FILE_FLAGS :: nat where
  "DEV_RX_FILE_FLAGS = FLG_SYSTEM OR FLG_DEVICE OR FLG_PERM_READ OR FLG_PERM_EXEC"

section \<open>Key tables\<close>

definition key_range :: "u8 \<Rightarrow> u8 \<Rightarrow> u8 \<Rightarrow> bool" where
  "key_range lo hi c \<longleftrightarrow> lo \<le> c \<and> c < hi"

definition key_at :: "string \<Rightarrow> u8 \<Rightarrow> u8 \<Rightarrow> u8" where
  "key_at s lo c = ascii s ! unat (c - lo)"

definition keycode_to_ascii :: "bool \<Rightarrow> u8 \<Rightarrow> u8" where
  "keycode_to_ascii shift c =
     (if shift
      then if key_range 0x02 0x0E c then key_at ''!@#$%^&*()_+'' 0x02 c
        else if c = 0x0E then 0x8
        else if c = 0x0F then 0x20
        else if key_range 0x10 0x1C c then key_at ''QWERTYUIOP{}'' 0x10 c
        else if c = 0x1C then 0x0A
        else if key_range 0x1E 0x29 c then key_at ''ASDFGHJKL:\"'' 0x1E c
        else if c = 0x29 then 0x7E
        else if c = 0x2B then 0x7C
        else if key_range 0x2C 0x36 c then key_at ''ZXCVBNM<>?'' 0x2C c
        else if c = 0x39 then 0x20
        else 0
      else if key_range 0x02 0x0E c then key_at ''1234567890-='' 0x02 c
        else if c = 0x0E then 0x8
        else if c = 0x0F then 0x20
        else if key_range 0x10 0x1C c then key_at ''qwertyuiop[]'' 0x10 c
        else if c = 0x1C then 0x0A
        else if key_range 0x1E 0x29 c then key_at (''asdfghjkl;'' @ [CHR 0x27]) 0x1E c
        else if c = 0x29 then 0x60
        else if c = 0x2B then 0x5C
        else if key_range 0x2C 0x36 c then key_at ''zxcvbnm,./'' 0x2C c
        else if c = 0x39 then 0x20
        else 0)"

text \<open>The key code of a character, and whether it needs shift.\<close>

definition ASCII_TO_KEYCODE :: "(u8 \<times> bool) list" where
  "ASCII_TO_KEYCODE =
    [
     (0, False), (0, False), (0, False), (0, False), (0, False), (0, False), (0, False), (0, False),
     (0, False), (0x0F, False), (0x1C, False), (0, False), (0, False), (0x1C, False), (0, False), (0, False),
     (0, False), (0, False), (0, False), (0, False), (0, False), (0, False), (0, False), (0, False),
     (0, False), (0, False), (0, False), (0, False), (0, False), (0, False), (0, False), (0, False),
     (0x39, False), (0x02, True), (0x28, True), (0x04, True), (0x05, True), (0x06, True), (0x08, True), (0x28, False),
     (0x0A, True), (0x0B, True), (0x09, True), (0x0D, True), (0x33, False), (0x0C, False), (0x34, False), (0x35, False),
     (0x0B, False), (0x02, False), (0x03, False), (0x04, False), (0x05, False), (0x06, False), (0x07, False), (0x08, False),
     (0x09, False), (0x0A, False), (0x27, True), (0x27, False), (0x33, True), (0x0D, False), (0x34, True), (0x35, True),
     (0x03, True), (0x1E, True), (0x30, True), (0x2E, True), (0x20, True), (0x12, True), (0x21, True), (0x22, True),
     (0x23, True), (0x17, True), (0x24, True), (0x25, True), (0x26, True), (0x32, True), (0x31, True), (0x18, True),
     (0x19, True), (0x10, True), (0x13, True), (0x1F, True), (0x14, True), (0x16, True), (0x2F, True), (0x11, True),
     (0x2D, True), (0x15, True), (0x2C, True), (0x1A, False), (0x2B, False), (0x1B, False), (0x07, True), (0x0C, True),
     (0x29, False), (0x1E, False), (0x30, False), (0x2E, False), (0x20, False), (0x12, False), (0x21, False), (0x22, False),
     (0x23, False), (0x17, False), (0x24, False), (0x25, False), (0x26, False), (0x32, False), (0x31, False), (0x18, False),
     (0x19, False), (0x10, False), (0x13, False), (0x1F, False), (0x14, False), (0x16, False), (0x2F, False), (0x11, False),
     (0x2D, False), (0x15, False), (0x2C, False), (0x1A, True), (0x2B, True), (0x1B, True), (0x29, True), (0x0E, False)]"

definition ascii_to_keycode :: "u8 \<Rightarrow> u8" where
  "ascii_to_keycode c = (if c < 128 then fst (ASCII_TO_KEYCODE ! unat c) else 0)"

section \<open>Keyboard\<close>

text \<open>The mount table is changed when the first keyboard registers; \<open>h\<close> is the handler.\<close>

definition register_keyboard :: "'h \<Rightarrow> bytes \<Rightarrow> 'h mount_table \<times> keyboard \<Rightarrow> usize \<times> 'h mount_table \<times> keyboard" where
  "register_keyboard h name = (\<lambda>(mps, k).
     let add = (\<lambda>k mps. (next_dev k, mps, k\<lparr>devices := devices k @ [name], next_dev := uadd (next_dev k) 1\<rparr>))
     in if \<not> kbd_initialized k
        then (case mount \<lparr>mnt_name = ascii ''kbd'', fops = h\<rparr> mps of
            (False, mps') \<Rightarrow> (0, mps', k)
          | (True, mps') \<Rightarrow> add (k\<lparr>devices := devices k @ [ascii ''all''], kbd_initialized := True\<rparr>) mps')
        else add k mps)"

definition pop_ascii :: "input \<Rightarrow> u8 \<times> input" where
  "pop_ascii s = (keycode_to_ascii (kbd_lshift s \<or> kbd_rshift s) (last_keycode s), s\<lparr>last_keycode := 0\<rparr>)"

definition clear_buffer :: "input \<Rightarrow> input" where
  "clear_buffer s = s\<lparr>last_keycode := 0\<rparr>"

definition deliver :: "usize \<Rightarrow> u8 \<Rightarrow> listener \<Rightarrow> listener" where
  "deliver hnd code l = (if dhnd l = KBD_ALL_HND \<or> dhnd l = hnd then l\<lparr>events := events l @ [code]\<rparr> else l)"

definition kbd_push :: "usize \<Rightarrow> u8 \<Rightarrow> input \<Rightarrow> kbd_channel list \<times> input" where
  "kbd_push hnd code s =
     (let s1 = s\<lparr>kbd := (kbd s)\<lparr>listeners := map (deliver hnd code) (listeners (kbd s))\<rparr>\<rparr>;
          released = (code AND KEY_RELEASED > 0);
          s2 = (if code AND 0x7F = LeftShift then s1\<lparr>kbd_lshift := \<not> released\<rparr>
                else if code AND 0x7F = RightShift then s1\<lparr>kbd_rshift := \<not> released\<rparr>
                else s1\<lparr>last_keycode := code\<rparr>)
      in ([if released then KBD_WC_RELE else KBD_WC_PRESS, KBD_WC_ANY], s2))"

definition push_ascii :: "usize \<Rightarrow> u8 \<Rightarrow> input \<Rightarrow> kbd_channel list \<times> input" where
  "push_ascii hnd c s =
     (let (code, shift) = (if c < 128 then ASCII_TO_KEYCODE ! unat c else (0, False))
      in if code = 0 then ([], s)
         else fold (\<lambda>code (ws, s). let (w, s') = kbd_push hnd code s in (ws @ w, s'))
                ((if shift then [LeftShift] else []) @ [code, code OR KEY_RELEASED]
                 @ (if shift then [LeftShift OR KEY_RELEASED] else [])) ([], s))"

definition kbd_device_entry :: "bytes \<Rightarrow> nat \<Rightarrow> directory_entry" where
  "kbd_device_entry name flags = \<lparr>entry_name = name, entry_flags = flags, entry_size = KBD_BUFF_SIZE\<rparr>"

definition add_listener :: "usize \<Rightarrow> bytes \<Rightarrow> (keyboard, usize \<times> directory_entry) fallible" where
  "add_listener source name k = succeed (next_hnd k, kbd_device_entry name DEV_RX_FILE_FLAGS)
     (k\<lparr>listeners := listeners k @ [\<lparr>lhnd = next_hnd k, dhnd = source, events = []\<rparr>], next_hnd := uadd (next_hnd k) 1\<rparr>)"

text \<open>\<^verbatim>\<open>starts_with("/") && ends_with(name) && len() == name.len() + 1\<close>.\<close>

definition is_device_path :: "bytes \<Rightarrow> bytes \<Rightarrow> bool" where
  "is_device_path mpath name \<longleftrightarrow> mpath = 0x2F # name"

fun device_index :: "bytes \<Rightarrow> bytes list \<Rightarrow> nat option" where
  "device_index mpath [] = None"
| "device_index mpath (d # ds) = (if is_device_path mpath d then Some 0 else map_option Suc (device_index mpath ds))"

definition kbd_open :: "bytes \<Rightarrow> nat \<Rightarrow> (keyboard, usize \<times> directory_entry) fallible" where
  "kbd_open full_path mode k =
     (let mpath = device_relative_path full_path in
      if mpath = ascii ''/''
      then succeed (KBD_ROOT_HND, \<lparr>entry_name = [], entry_flags = DEV_RX_DIR_FLAGS, entry_size = 0\<rparr>) k
      else if mpath = ascii ''/all'' then add_listener KBD_ALL_HND (ascii ''all'') k
      else case device_index mpath (devices k) of
             None \<Rightarrow> throw InvalidPath k
           | Some i \<Rightarrow> add_listener (uadd i KBD_ALL_HND) (devices k ! i) k)"

definition kbd_enum :: "usize \<Rightarrow> (keyboard, directory_entry list) fallible" where
  "kbd_enum hnd k =
     (if hnd \<noteq> KBD_ROOT_HND then throw InvalidOp k
      else succeed (map (\<lambda>name. kbd_device_entry name DEV_R_FILE_FLAGS) (devices k)) k)"

fun remove_listener :: "usize \<Rightarrow> listener list \<Rightarrow> listener list option" where
  "remove_listener hnd [] = None"
| "remove_listener hnd (l # ls) = (if lhnd l = hnd then Some ls else map_option (\<lambda>ls. l # ls) (remove_listener hnd ls))"

definition kbd_close :: "usize \<Rightarrow> (keyboard, usize) fallible" where
  "kbd_close hnd k = (case remove_listener hnd (listeners k) of
       Some ls \<Rightarrow> succeed 0 (k\<lparr>listeners := ls\<rparr>)
     | None \<Rightarrow> throw InvalidHandle k)"

fun take_events :: "usize \<Rightarrow> nat \<Rightarrow> listener list \<Rightarrow> (bytes \<times> listener list) option" where
  "take_events hnd n [] = None"
| "take_events hnd n (l # ls) =
     (if lhnd l = hnd then Some (take n (events l), l\<lparr>events := drop n (events l)\<rparr> # ls)
      else map_option (\<lambda>(b, ls). (b, l # ls)) (take_events hnd n ls))"

definition kbd_read :: "usize \<Rightarrow> usize \<Rightarrow> usize \<Rightarrow> (keyboard, usize \<times> bytes) fallible" where
  "kbd_read hnd off n k = (case take_events hnd n (listeners k) of
       Some (buf, ls) \<Rightarrow> succeed (length buf, buf) (k\<lparr>listeners := ls\<rparr>)
     | None \<Rightarrow> throw InvalidHandle k)"

definition on_kbd :: "(keyboard, 'a) fallible \<Rightarrow> (input, 'a) fallible" where
  "on_kbd f s = and_then (f (kbd s)) (\<lambda>(r, k). returns (r, s\<lparr>kbd := k\<rparr>))"

definition kbd_fops :: "input file_ops" where
  "kbd_fops = \<lparr>op_open = (\<lambda>p m. on_kbd (kbd_open p m)), op_enum = (\<lambda>h. on_kbd (kbd_enum h)),
     op_read = (\<lambda>h off n. on_kbd (kbd_read h off n)), op_write = (\<lambda>h off b. throw InvalidOp),
     op_exec = (\<lambda>h f b. throw InvalidOp), op_close = (\<lambda>h. on_kbd (kbd_close h))\<rparr>"

section \<open>Mouse\<close>

definition as_i32 :: "int \<Rightarrow> int" where
  "as_i32 x = (x + 2 ^ 31) mod 2 ^ 32 - 2 ^ 31"

definition register_mouse :: "'h \<Rightarrow> 'h mount_table \<times> mouse \<Rightarrow> 'h mount_table \<times> mouse" where
  "register_mouse h = (\<lambda>(mps, m).
     if \<not> mouse_initialized m
     then (case mount \<lparr>mnt_name = ascii ''mouse'', fops = h\<rparr> mps of
         (False, mps') \<Rightarrow> (mps', m)
       | (True, mps') \<Rightarrow> (mps', m\<lparr>mouse_initialized := True\<rparr>))
     else (mps, m))"

definition reset_coordinates :: "nat \<Rightarrow> nat \<Rightarrow> nat \<Rightarrow> nat \<Rightarrow> mouse \<Rightarrow> mouse" where
  "reset_coordinates x y mx my m = m\<lparr>cur_x := x, cur_y := y, max_x := mx, max_y := my\<rparr>"

definition set_irq_callback :: "mouse \<Rightarrow> mouse" where
  "set_irq_callback m = m\<lparr>irq_cb := True\<rparr>"

definition current_position :: "mouse \<Rightarrow> nat \<times> nat" where
  "current_position m = (cur_x m, cur_y m)"

text \<open>The new value of one coordinate.\<close>

definition clip :: "int \<Rightarrow> nat \<Rightarrow> nat" where
  "clip v limit = (if v \<ge> 0 \<and> v < as_i32 (int limit) then nat v else if v < 0 then 0 else limit)"

definition moved :: "nat \<Rightarrow> int \<Rightarrow> int \<Rightarrow> int run" where
  "moved cur delta d = (if d = 0 then panics else returns (as_i32 (as_i32 (int cur) + delta sdiv d)))"

definition mouse_push :: "int \<Rightarrow> int \<Rightarrow> u8 \<Rightarrow> mouse \<Rightarrow> (bool \<times> mouse) run" where
  "mouse_push dx dy btn_mask m =
     and_then (moved (cur_x m) dx (xdiv m)) (\<lambda>x. and_then (moved (cur_y m) dy (ydiv m)) (\<lambda>y.
       let m1 = m\<lparr>btns_sts := btn_mask, cur_x := clip x (max_x m), cur_y := clip y (max_y m)\<rparr>
       in returns (irq_cb m, m1\<lparr>mouse_events := mouse_events m1 @ [(cur_x m1, cur_y m1, 0, unat (btns_sts m1))]\<rparr>)))"

definition event_line :: "mouse_event \<Rightarrow> bytes" where
  "event_line = (\<lambda>(x, y, z, b). hex x @ [0x2C] @ hex y @ [0x2C] @ hex z @ [0x2C] @ hex b @ [0x0A])"

fun drain_events :: "nat \<Rightarrow> bytes \<Rightarrow> mouse_event list \<Rightarrow> bytes \<times> mouse_event list" where
  "drain_events n out [] = (out, [])"
| "drain_events n out (e # es) =
     (if length out < n
      then drain_events n (if n - length out \<ge> length (event_line e) then out @ event_line e else out) es
      else (out, e # es))"

definition mouse_open :: "bytes \<Rightarrow> nat \<Rightarrow> (mouse, usize \<times> directory_entry) fallible" where
  "mouse_open full_path mode m =
     (let mpath = device_relative_path full_path in
      if mpath = ascii ''/''
      then succeed (MOUSE_ROOT_HND, \<lparr>entry_name = [], entry_flags = DEV_RX_DIR_FLAGS, entry_size = 0\<rparr>) m
      else if mpath = ascii ''/all''
      then succeed (MOUSE_ALL_HND, \<lparr>entry_name = ascii ''all'', entry_flags = DEV_RX_FILE_FLAGS, entry_size = MOUSE_BUFF_SIZE\<rparr>) m
      else throw InvalidPath m)"

definition mouse_enum :: "usize \<Rightarrow> (mouse, directory_entry list) fallible" where
  "mouse_enum hnd m =
     (if hnd \<noteq> MOUSE_ROOT_HND then throw InvalidOp m
      else succeed [\<lparr>entry_name = ascii ''all'', entry_flags = DEV_R_FILE_FLAGS, entry_size = MOUSE_BUFF_SIZE\<rparr>] m)"

definition mouse_read :: "usize \<Rightarrow> usize \<Rightarrow> usize \<Rightarrow> (mouse, usize \<times> bytes) fallible" where
  "mouse_read hnd off n m =
     (if hnd \<noteq> MOUSE_ALL_HND then throw InvalidHandle m
      else let (out, es) = drain_events n [] (mouse_events m)
           in succeed (length out, out) (m\<lparr>mouse_events := es\<rparr>))"

definition on_mouse :: "(mouse, 'a) fallible \<Rightarrow> (input, 'a) fallible" where
  "on_mouse f s = and_then (f (mouse s)) (\<lambda>(r, m). returns (r, s\<lparr>mouse := m\<rparr>))"

definition mouse_fops :: "input file_ops" where
  "mouse_fops = \<lparr>op_open = (\<lambda>p m. on_mouse (mouse_open p m)), op_enum = (\<lambda>h. on_mouse (mouse_enum h)),
     op_read = (\<lambda>h off n. on_mouse (mouse_read h off n)), op_write = (\<lambda>h off b. throw InvalidOp),
     op_exec = (\<lambda>h f b. throw InvalidOp), op_close = (\<lambda>h. succeed 0)\<rparr>"

end
