(* ===== verification/File_Syscalls.thy ===== *)
theory File_Syscalls
  imports Address_Space Input
begin

text \<open>
  The file system calls, \<^verbatim>\<open>kernel/src/kernel.rs\<close>: open, enumerate, read, write, execute and close,
  between the file table of the calling process, the open files of the virtual file system and
  the memory of the program.

  An argument structure of the program is a record that also holds the contents of the buffer it
  points to. A call returns this record as the program finds it afterwards, and what was written
  to \<^verbatim>\<open>ret_ptr\<close>, if anything. The state puts together the files, the address spaces, the running
  process, the keyboard and the text on the console. Debug output is left out.
\<close>

section \<open>State\<close>

record ('h, 'd) system =
  sys_fs :: "('h, 'd) vfs"
  sys_procs :: "'h vfile vspace"
  sys_pid :: usize
  sys_input :: input
  sys_console :: bytes

record open_args =
  arg_path :: bytes
  arg_mode :: nat
  arg_fd :: usize
  arg_attr :: nat
  arg_size :: usize

record enum_args =
  enum_fd :: usize
  enum_buf :: bytes
  enum_skip :: usize
  enum_count :: usize

record rw_args =
  rw_fd :: usize
  rw_offset :: usize
  rw_buf :: bytes
  rw_bytes :: usize

record exec_args =
  exec_fd :: usize
  exec_func :: usize
  exec_buf :: bytes
  exec_ret :: usize

abbreviation StandardIO :: usize where "StandardIO \<equiv> 0"
abbreviation SystemResources :: usize where "SystemResources \<equiv> 2"

abbreviation OPEN_ARGS_SIZE :: usize where "OPEN_ARGS_SIZE \<equiv> 48"
abbreviation ENUM_ARGS_SIZE :: usize where "ENUM_ARGS_SIZE \<equiv> 40"
abbreviation RW_ARGS_SIZE :: usize where "RW_ARGS_SIZE \<equiv> 40"
abbreviation EXEC_ARGS_SIZE :: usize where "EXEC_ARGS_SIZE \<equiv> 40"

text \<open>What is copied to \<^verbatim>\<open>ret_ptr\<close>: an error code, or (once) a whole \<^verbatim>\<open>Error\<close>.\<close>

datatype ret_value = Code error_code | ErrorStruct error_code

type_synonym ('s, 'a) syscall = "'s \<Rightarrow> (('a \<times> ret_value option) \<times> 's) run"

section \<open>Parts of the calls\<close>

definition reply :: "'a \<Rightarrow> ret_value \<Rightarrow> ('s, 'a) syscall" where
  "reply a r s = returns ((a, Some r), s)"

definition checked_args :: "usize \<Rightarrow> usize \<Rightarrow> usize \<Rightarrow> usize \<Rightarrow> ('a \<Rightarrow> ('s, 'a) syscall) \<Rightarrow> 'a \<Rightarrow> ('s, 'a) syscall" where
  "checked_args struct_size args_ptr args_len ret_ptr body a s =
     (if ret_ptr = 0 then returns ((a, None), s)
      else if args_ptr = 0 \<or> args_len \<noteq> struct_size then reply a (Code InvalidArgument) s
      else body a s)"

text \<open>\<open>get_file\<close> clones the file of the process; the clone is dropped when the call returns.\<close>

definition with_file :: "('h \<Rightarrow> 'd file_ops) \<Rightarrow> usize \<Rightarrow> 'a \<Rightarrow>
    ('h vfile \<Rightarrow> ('h, 'd) vfs \<Rightarrow> (('a \<times> ret_value option) \<times> 'h vfile \<times> ('h, 'd) vfs) run) \<Rightarrow> (('h, 'd) system, 'a) syscall" where
  "with_file ops fd a body s = (case get_file (sys_pid s) fd (sys_procs s) of
       Inl e \<Rightarrow> reply a (Code e) s
     | Inr g \<Rightarrow>
         let (f, v) = file_clone g (sys_fs s)
         in and_then (body f v) (\<lambda>(r, f', v').
              and_then (file_drop ops f' v') (\<lambda>v''. returns (r, s\<lparr>sys_fs := v''\<rparr>))))"

text \<open>The front of a buffer is overwritten.\<close>

definition overwrite :: "bytes \<Rightarrow> bytes \<Rightarrow> bytes" where
  "overwrite new buf = new @ drop (length new) buf"

text \<open>\<^verbatim>\<open>x as isize\<close>.\<close>

definition as_isize :: "usize \<Rightarrow> int" where
  "as_isize x = (if x < 2 ^ 63 then int x else int x - 2 ^ 64)"

definition resource_text :: "nat \<Rightarrow> bytes list \<Rightarrow> bytes" where
  "resource_text n names =
     fold (\<lambda>name out. if length name + 1 < n - length out then out @ name @ [0x0A] else out) names []"

definition syscall_read_resources :: "bytes list \<Rightarrow> bytes \<Rightarrow> usize \<times> bytes" where
  "syscall_read_resources names buf =
     (let out = resource_text (length buf) names
      in if out \<noteq> [] \<and> last out = 0x0A then (length out - 1, overwrite (butlast out @ [0]) buf)
         else (length out, overwrite out buf))"

definition entry_line :: "directory_entry \<Rightarrow> bytes" where
  "entry_line e = entry_name e @ [0x2C] @ hex (entry_size e) @ [0x2C] @ hex (entry_flags e) @ [0x0A]"

section \<open>The calls\<close>

definition open_body :: "('h \<Rightarrow> 'd file_ops) \<Rightarrow> open_args \<Rightarrow> (('h, 'd) system, open_args) syscall" where
  "open_body ops a s =
     (if \<not> utf8_valid (arg_path a) then reply a (Code InvalidPath) s
      else and_then (file_open ops (arg_path a) (arg_mode a) (sys_fs s)) (\<lambda>(r, v).
        let s1 = s\<lparr>sys_fs := v\<rparr> in
        case r of
          Inl e \<Rightarrow> reply a (ErrorStruct e) s1
        | Inr f \<Rightarrow> and_then (add_file (sys_pid s1) f (sys_procs s1)) (\<lambda>(fd, vs).
            reply (a\<lparr>arg_attr := entry_flags (entry f), arg_size := entry_size (entry f), arg_fd := fd\<rparr>)
              (Code NoError) (s1\<lparr>sys_procs := vs\<rparr>))))"

definition syscall_open :: "('h \<Rightarrow> 'd file_ops) \<Rightarrow> usize \<Rightarrow> usize \<Rightarrow> usize \<Rightarrow> open_args \<Rightarrow> (('h, 'd) system, open_args) syscall" where
  "syscall_open ops args_ptr args_len ret_ptr = checked_args OPEN_ARGS_SIZE args_ptr args_len ret_ptr (open_body ops)"

definition enum_body :: "('h \<Rightarrow> 'd file_ops) \<Rightarrow> enum_args \<Rightarrow> (('h, 'd) system, enum_args) syscall" where
  "enum_body ops a s =
     (if enum_fd a \<le> SystemResources then reply a (Code NotAllowed) s
      else with_file ops (enum_fd a) a (\<lambda>f v. and_then (file_enumerate ops f v) (\<lambda>(r, v').
        returns (case r of
            Inl e \<Rightarrow> (a, Some (Code e))
          | Inr es \<Rightarrow>
              let txt = concat (map entry_line es); len = min (length (enum_buf a)) (length txt)
              in (a\<lparr>enum_buf := overwrite (take len txt) (enum_buf a), enum_count := len\<rparr>, Some (Code NoError)), f, v'))) s)"

definition syscall_enum :: "('h \<Rightarrow> 'd file_ops) \<Rightarrow> usize \<Rightarrow> usize \<Rightarrow> usize \<Rightarrow> enum_args \<Rightarrow> (('h, 'd) system, enum_args) syscall" where
  "syscall_enum ops args_ptr args_len ret_ptr = checked_args ENUM_ARGS_SIZE args_ptr args_len ret_ptr (enum_body ops)"

definition read_body :: "('h \<Rightarrow> 'd file_ops) \<Rightarrow> rw_args \<Rightarrow> (('h, 'd) system, rw_args) syscall" where
  "read_body ops a s =
     (if rw_fd a = StandardIO \<and> length (rw_buf a) \<ge> 1
      then let (c, i) = pop_ascii (sys_input s)
           in reply (a\<lparr>rw_buf := overwrite [c] (rw_buf a), rw_bytes := 1\<rparr>) (Code NoError) (s\<lparr>sys_input := i\<rparr>)
      else if rw_fd a = SystemResources
      then let (len, buf) = syscall_read_resources (list_names (mount_points (sys_fs s))) (rw_buf a)
           in reply (a\<lparr>rw_buf := buf, rw_bytes := len\<rparr>) (Code NoError) s
      else with_file ops (rw_fd a) a (\<lambda>f v. case file_seek (as_isize (rw_offset a)) SeekStart ReadCursor f of
          Inl e \<Rightarrow> returns ((a, Some (Code e)), f, v)
        | Inr (pos, f1) \<Rightarrow> and_then (file_read_at ops (length (rw_buf a)) f1 v) (\<lambda>(r, v'). returns (case r of
              Inl e \<Rightarrow> ((a, Some (Code e)), f1, v')
            | Inr ((n, bs), f2) \<Rightarrow> ((a\<lparr>rw_buf := overwrite bs (rw_buf a), rw_bytes := n\<rparr>, Some (Code NoError)), f2, v')))) s)"

definition syscall_read :: "('h \<Rightarrow> 'd file_ops) \<Rightarrow> usize \<Rightarrow> usize \<Rightarrow> usize \<Rightarrow> rw_args \<Rightarrow> (('h, 'd) system, rw_args) syscall" where
  "syscall_read ops args_ptr args_len ret_ptr = checked_args RW_ARGS_SIZE args_ptr args_len ret_ptr (read_body ops)"

definition write_body :: "('h \<Rightarrow> 'd file_ops) \<Rightarrow> rw_args \<Rightarrow> (('h, 'd) system, rw_args) syscall" where
  "write_body ops a s =
     (if rw_fd a = StandardIO
      then reply (a\<lparr>rw_bytes := length (rw_buf a)\<rparr>) (Code NoError) (s\<lparr>sys_console := sys_console s @ rw_buf a\<rparr>)
      else with_file ops (rw_fd a) a (\<lambda>f v. case file_seek (as_isize (rw_offset a)) SeekStart WriteCursor f of
          Inl e \<Rightarrow> returns ((a, Some (Code e)), f, v)
        | Inr (pos, f1) \<Rightarrow> and_then (file_write ops (rw_buf a) f1 v) (\<lambda>(r, v'). returns (case r of
              Inl e \<Rightarrow> ((a, Some (Code e)), f1, v')
            | Inr (n, f2) \<Rightarrow> ((a\<lparr>rw_bytes := n\<rparr>, Some (Code NoError)), f2, v')))) s)"

definition syscall_write :: "('h \<Rightarrow> 'd file_ops) \<Rightarrow> usize \<Rightarrow> usize \<Rightarrow> usize \<Rightarrow> rw_args \<Rightarrow> (('h, 'd) system, rw_args) syscall" where
  "syscall_write ops args_ptr args_len ret_ptr = checked_args RW_ARGS_SIZE args_ptr args_len ret_ptr (write_body ops)"

definition exec_body :: "('h \<Rightarrow> 'd file_ops) \<Rightarrow> exec_args \<Rightarrow> (('h, 'd) system, exec_args) syscall" where
  "exec_body ops a s =
     (if exec_fd a = StandardIO
      then if exec_func a = 1 then reply a (Code NoError) (s\<lparr>sys_console := []\<rparr>) else reply a (Code InvalidOp) s
      else with_file ops (exec_fd a) a (\<lambda>f v. and_then (file_execute ops (exec_func a) (exec_buf a) f v) (\<lambda>(r, v').
        returns (case r of
            Inl e \<Rightarrow> (a, Some (Code e))
          | Inr (n, bs) \<Rightarrow> (a\<lparr>exec_buf := overwrite bs (exec_buf a), exec_ret := n\<rparr>, Some (Code NoError)), f, v'))) s)"

definition syscall_exec :: "('h \<Rightarrow> 'd file_ops) \<Rightarrow> usize \<Rightarrow> usize \<Rightarrow> usize \<Rightarrow> exec_args \<Rightarrow> (('h, 'd) system, exec_args) syscall" where
  "syscall_exec ops args_ptr args_len ret_ptr = checked_args EXEC_ARGS_SIZE args_ptr args_len ret_ptr (exec_body ops)"

text \<open>The file that leaves the table is dropped.\<close>

definition syscall_close :: "('h \<Rightarrow> 'd file_ops) \<Rightarrow> usize \<Rightarrow> ('h, 'd) system \<Rightarrow> ('h, 'd) system run" where
  "syscall_close ops fd s =
     (let s1 = s\<lparr>sys_procs := remove_file (sys_pid s) fd (sys_procs s)\<rparr>
      in case get_file (sys_pid s) fd (sys_procs s) of
           Inl e \<Rightarrow> returns s1
         | Inr f \<Rightarrow> and_then (file_drop ops f (sys_fs s)) (\<lambda>v. returns (s1\<lparr>sys_fs := v\<rparr>)))"

end
