(* ===== verification/User_File.thy ===== *)
theory User_File
  imports File_Syscalls
begin

text \<open>
  Files in user programs, \<^verbatim>\<open>programs/rtlib/src/fileio.rs\<close>: the wrappers of the system calls, the
  \<^verbatim>\<open>File\<close> object with its cursors and read and write loops, and \<^verbatim>\<open>Path\<close>.

  When opening fails, the kernel copies a whole \<^verbatim>\<open>Error\<close> to the address of a \<^verbatim>\<open>usize\<close>. Which of
  its fields comes first is up to the compiler: \<open>first_word\<close> is what the program reads there.
\<close>

section \<open>System call wrappers\<close>

text \<open>The addresses of the structures on the stack of the program are not null.\<close>

abbreviation STACK_PTR :: usize where "STACK_PTR \<equiv> 1"

definition ret_word :: "(error_code \<Rightarrow> usize) \<Rightarrow> usize \<Rightarrow> ret_value option \<Rightarrow> usize" where
  "ret_word first_word old r = (case r of
       None \<Rightarrow> old | Some (Code e) \<Rightarrow> error_number e | Some (ErrorStruct e) \<Rightarrow> first_word e)"

definition user_open :: "(error_code \<Rightarrow> usize) \<Rightarrow> ('h \<Rightarrow> 'd file_ops) \<Rightarrow> bytes \<Rightarrow> nat \<Rightarrow> (('h, 'd) system, open_args) fallible" where
  "user_open first_word ops path mode s =
     (if path = [] then throw InvalidPath s
      else and_then (syscall_open ops STACK_PTR OPEN_ARGS_SIZE STACK_PTR
               \<lparr>arg_path = path, arg_mode = mode, arg_fd = 0, arg_attr = 0, arg_size = 0\<rparr> s) (\<lambda>((a, r), s').
             let ret = ret_word first_word (error_number Other) r
             in if ret = error_number NoError then succeed a s' else throw (error_from ret) s'))"

definition user_read :: "('h \<Rightarrow> 'd file_ops) \<Rightarrow> usize \<Rightarrow> usize \<Rightarrow> bytes \<Rightarrow> (('h, 'd) system, usize \<times> bytes) fallible" where
  "user_read ops fd off buf s =
     (if buf = [] then panics
      else and_then (syscall_read ops STACK_PTR RW_ARGS_SIZE STACK_PTR
               \<lparr>rw_fd = fd, rw_offset = off, rw_buf = buf, rw_bytes = 0\<rparr> s) (\<lambda>((a, r), s').
             let ret = ret_word error_number 0 r
             in if ret = error_number NoError then succeed (rw_bytes a, rw_buf a) s' else throw (error_from ret) s'))"

definition user_write :: "('h \<Rightarrow> 'd file_ops) \<Rightarrow> usize \<Rightarrow> usize \<Rightarrow> bytes \<Rightarrow> (('h, 'd) system, usize) fallible" where
  "user_write ops fd off buf s =
     (if buf = [] then panics
      else and_then (syscall_write ops STACK_PTR RW_ARGS_SIZE STACK_PTR
               \<lparr>rw_fd = fd, rw_offset = off, rw_buf = buf, rw_bytes = 0\<rparr> s) (\<lambda>((a, r), s').
             let ret = ret_word error_number 0 r
             in if ret = error_number NoError then succeed (rw_bytes a) s' else throw (error_from ret) s'))"

definition user_enum :: "('h \<Rightarrow> 'd file_ops) \<Rightarrow> usize \<Rightarrow> bytes \<Rightarrow> (('h, 'd) system, usize \<times> bytes) fallible" where
  "user_enum ops fd buf s =
     (if buf = [] then panics
      else and_then (syscall_enum ops STACK_PTR ENUM_ARGS_SIZE STACK_PTR
               \<lparr>enum_fd = fd, enum_buf = buf, enum_skip = 0, enum_count = 0\<rparr> s) (\<lambda>((a, r), s').
             let ret = ret_word error_number 0 r
             in if ret = error_number NoError then succeed (enum_count a, enum_buf a) s' else throw (error_from ret) s'))"

definition user_exec :: "('h \<Rightarrow> 'd file_ops) \<Rightarrow> usize \<Rightarrow> usize \<Rightarrow> bytes \<Rightarrow> (('h, 'd) system, usize \<times> bytes) fallible" where
  "user_exec ops fd func buf s =
     (if buf = [] then panics
      else and_then (syscall_exec ops STACK_PTR EXEC_ARGS_SIZE STACK_PTR
               \<lparr>exec_fd = fd, exec_func = func, exec_buf = buf, exec_ret = 0\<rparr> s) (\<lambda>((a, r), s').
             let ret = ret_word error_number 0 r
             in if ret = error_number NoError then succeed (exec_ret a, exec_buf a) s' else throw (error_from ret) s'))"

section \<open>File objects\<close>

record user_file =
  uf_fd :: usize
  uf_open :: bool
  uf_flags :: nat
  uf_mode :: nat
  uf_size :: usize
  rd_offset :: usize
  wr_offset :: usize

abbreviation KMODE_MASK :: nat where "KMODE_MASK \<equiv> 0x1F"
abbreviation MODE_STREAM :: nat where "MODE_STREAM \<equiv> 0x1000"

definition user_file_new :: user_file where
  "user_file_new = \<lparr>uf_fd = 0, uf_open = False, uf_flags = 0, uf_mode = 0, uf_size = 0, rd_offset = 0, wr_offset = 0\<rparr>"

definition opened_file :: "nat \<Rightarrow> open_args \<Rightarrow> user_file" where
  "opened_file mode a = \<lparr>uf_fd = arg_fd a, uf_open = True, uf_flags = arg_attr a, uf_mode = mode, uf_size = arg_size a,
     rd_offset = 0, wr_offset = 0\<rparr>"

definition uf_from_path :: "(error_code \<Rightarrow> usize) \<Rightarrow> ('h \<Rightarrow> 'd file_ops) \<Rightarrow> bytes \<Rightarrow> nat \<Rightarrow> (('h, 'd) system, user_file) fallible" where
  "uf_from_path first_word ops path mode =
     try_then (user_open first_word ops path (mode AND KMODE_MASK)) (\<lambda>a. succeed (opened_file mode a))"

text \<open>Opening again does not close the descriptor that was open before.\<close>

definition uf_reopen :: "(error_code \<Rightarrow> usize) \<Rightarrow> ('h \<Rightarrow> 'd file_ops) \<Rightarrow> bytes \<Rightarrow> nat \<Rightarrow> user_file \<Rightarrow> (('h, 'd) system, user_file) fallible" where
  "uf_reopen first_word ops path mode f =
     try_then (user_open first_word ops path (mode AND KMODE_MASK)) (\<lambda>a. succeed (f\<lparr>uf_fd := arg_fd a, uf_open := True,
       uf_flags := arg_attr a, uf_mode := mode, uf_size := arg_size a, rd_offset := 0, wr_offset := 0\<rparr>))"

definition is_stream :: "user_file \<Rightarrow> bool" where
  "is_stream f \<longleftrightarrow> uf_mode f AND MODE_STREAM \<noteq> 0"

definition can_read :: "user_file \<Rightarrow> bool" where
  "can_read f \<longleftrightarrow> uf_flags f AND FLG_PERM_READ \<noteq> 0"

definition can_write :: "user_file \<Rightarrow> bool" where
  "can_write f \<longleftrightarrow> uf_flags f AND FLG_PERM_WRITE \<noteq> 0"

text \<open>The loop of \<^verbatim>\<open>read\<close>; \<open>rd off buf\<close> is one call of \<^verbatim>\<open>fread\<close>. The file object and the buffer keep
  what was read before an error.\<close>

partial_function (option) read_loop ::
  "(usize \<Rightarrow> bytes \<Rightarrow> ('k, usize \<times> bytes) fallible) \<Rightarrow> usize \<Rightarrow> usize \<Rightarrow> bytes \<Rightarrow> user_file \<times> 'k
    \<Rightarrow> ((error_code + usize \<times> bytes) \<times> user_file \<times> 'k) run" where
  "read_loop rd to_read sofar buf fk =
     (if sofar \<ge> to_read then returns (Inr (sofar, buf), fk)
      else if sofar > length buf then panics
      else and_then (rd (rd_offset (fst fk)) (drop sofar buf) (snd fk)) (\<lambda>(r, k). case r of
          Inl e \<Rightarrow> returns (Inl e, fst fk, k)
        | Inr (n, bs) \<Rightarrow>
            let buf' = take sofar buf @ bs; f = fst fk in
            if n = 0 then returns (Inr (sofar, buf'), f, k)
            else read_loop rd to_read (uadd sofar n) buf'
                   (if is_stream f then f else f\<lparr>rd_offset := uadd (rd_offset f) n\<rparr>, k)))"

definition uf_read :: "('h \<Rightarrow> 'd file_ops) \<Rightarrow> bytes \<Rightarrow> user_file \<times> ('h, 'd) system
    \<Rightarrow> ((error_code + usize \<times> bytes) \<times> user_file \<times> ('h, 'd) system) run" where
  "uf_read ops buf fk =
     (let f = fst fk in
      if \<not> uf_open f then throw NotAllowed fk
      else read_loop (user_read ops (uf_fd f)) (min (length buf) (usub (uf_size f) (rd_offset f))) 0 buf fk)"

partial_function (option) write_loop ::
  "(usize \<Rightarrow> bytes \<Rightarrow> ('k, usize) fallible) \<Rightarrow> usize \<Rightarrow> usize \<Rightarrow> bytes \<Rightarrow> user_file \<times> 'k
    \<Rightarrow> ((error_code + usize) \<times> user_file \<times> 'k) run" where
  "write_loop wr to_write sofar buf fk =
     (if sofar \<ge> to_write then returns (Inr sofar, fk)
      else if sofar > length buf then panics
      else and_then (wr (wr_offset (fst fk)) (drop sofar buf) (snd fk)) (\<lambda>(r, k). case r of
          Inl e \<Rightarrow> returns (Inl e, fst fk, k)
        | Inr n \<Rightarrow>
            let f = fst fk in
            if n = 0 then returns (Inr sofar, f, k)
            else write_loop wr to_write (uadd sofar n) buf
                   (if is_stream f then f else f\<lparr>wr_offset := uadd (wr_offset f) n\<rparr>, k)))"

definition uf_write :: "('h \<Rightarrow> 'd file_ops) \<Rightarrow> bytes \<Rightarrow> user_file \<times> ('h, 'd) system
    \<Rightarrow> ((error_code + usize) \<times> user_file \<times> ('h, 'd) system) run" where
  "uf_write ops buf fk =
     (let f = fst fk in
      if \<not> uf_open f then throw NotAllowed fk
      else write_loop (user_write ops (uf_fd f))
             (if is_stream f then min (length buf) (usub (uf_size f) (wr_offset f)) else length buf) 0 buf fk)"

definition uf_cursor :: "seek_cursor \<Rightarrow> user_file \<Rightarrow> error_code + usize" where
  "uf_cursor c f =
     (if \<not> uf_open f then Inl NotAllowed
      else case c of
        ReadCursor \<Rightarrow> if can_read f then Inr (rd_offset f) else Inl NotAllowed
      | WriteCursor \<Rightarrow> if can_write f then Inr (wr_offset f) else Inl NotAllowed)"

definition uf_seek_to :: "seek_origin \<Rightarrow> int \<Rightarrow> usize \<Rightarrow> usize \<Rightarrow> error_code + usize" where
  "uf_seek_to origin delta cur fsize = (case origin of
       SeekStart \<Rightarrow> if delta < 0 then Inl InvalidArgument else Inr (as_usize delta)
     | SeekCurrent \<Rightarrow>
         if delta < 0
         then if as_usize (- delta) > cur then Inl InvalidArgument else Inr (usub cur (as_usize (- delta)))
         else Inr (uadd cur (as_usize delta))
     | SeekEnd \<Rightarrow>
         if delta > 0 then Inl NotSupported
         else if as_usize (- delta) > fsize then Inl InvalidArgument
         else Inr (usub fsize (as_usize (- delta))))"

definition uf_seek :: "seek_cursor \<Rightarrow> seek_origin \<Rightarrow> int \<Rightarrow> user_file \<Rightarrow> error_code + usize \<times> user_file" where
  "uf_seek c origin delta f = (case uf_cursor c f of
       Inl e \<Rightarrow> Inl e
     | Inr cur \<Rightarrow> (case uf_seek_to origin delta cur (uf_size f) of
           Inl e \<Rightarrow> Inl e
         | Inr pos \<Rightarrow> Inr (pos, case c of ReadCursor \<Rightarrow> f\<lparr>rd_offset := pos\<rparr> | WriteCursor \<Rightarrow> f\<lparr>wr_offset := pos\<rparr>)))"

definition uf_exec :: "('h \<Rightarrow> 'd file_ops) \<Rightarrow> usize \<Rightarrow> bytes \<Rightarrow> user_file \<Rightarrow> (('h, 'd) system, usize \<times> bytes) fallible" where
  "uf_exec ops func buf f = (if \<not> uf_open f then throw NotAllowed else user_exec ops (uf_fd f) func buf)"

definition uf_enum_dir :: "('h \<Rightarrow> 'd file_ops) \<Rightarrow> bytes \<Rightarrow> user_file \<Rightarrow> (('h, 'd) system, usize \<times> bytes) fallible" where
  "uf_enum_dir ops buf f = (if \<not> uf_open f then throw NotAllowed else user_enum ops (uf_fd f) buf)"

definition uf_close :: "('h \<Rightarrow> 'd file_ops) \<Rightarrow> user_file \<times> ('h, 'd) system \<Rightarrow> (user_file \<times> ('h, 'd) system) run" where
  "uf_close ops fk =
     (let (f, k) = fk in
      if uf_open f then and_then (syscall_close ops (uf_fd f) k) (\<lambda>k'. returns (f\<lparr>uf_open := False\<rparr>, k'))
      else returns fk)"

section \<open>Paths\<close>

text \<open>\<open>cur_dir\<close> is the current directory, if it is set.\<close>

definition make_full_path :: "bytes option \<Rightarrow> bytes \<Rightarrow> bytes" where
  "make_full_path cur_dir path =
     (if path = [] then []
      else case cur_dir of
        None \<Rightarrow> []
      | Some d \<Rightarrow>
          if hd path = 0x2F
          then (case find_byte COLON d of Some i \<Rightarrow> take (i + 1) d @ path | None \<Rightarrow> path)
          else if find_byte COLON path \<noteq> None
          then path @ (if last path = COLON then [0x2F] else [])
          else d @ (if d \<noteq> [] \<and> last d = 0x2F then [] else [0x2F]) @ path)"

end
