(* ===== verification/Disk_IO.thy ===== *)
theory Disk_IO
  imports Phys_Mem
begin

text \<open>
  Buffered disk access, \<^verbatim>\<open>kernel/src/drivers/storage/mod.rs\<close>.

  What a disk driver does with a request is \<open>issue_io\<close>, the function pointer of \<^verbatim>\<open>Disk\<close>: from
  the first block, the number of sectors and the contents of the buffer it makes the new
  contents. A \<^verbatim>\<open>BufferedDiskIO\<close> caches 4096 bytes in a frame of its own, taken from the physical
  memory manager on the first access and given back when it is dropped. An \<^verbatim>\<open>IOBuffer\<close> is
  the address and the bytes there. Byte addresses are \<^verbatim>\<open>u64\<close>, for which the wrapping operations are
  those of \<^verbatim>\<open>usize\<close>.
\<close>

section \<open>State\<close>

record disk =
  sector_bytes :: nat
  sector_count :: nat
  issue_io :: "usize \<Rightarrow> nat \<Rightarrow> u8 list \<Rightarrow> u8 list"

datatype disk_address = LBA usize nat | ByteAddr usize

record bdio =
  io_buffer :: usize
  io_data :: "u8 list"
  io_first_lba :: usize
  io_sec_count :: usize
  io_disk :: disk

type_synonym io_block = "usize \<times> u8 list"

type_synonym 'a disk_op = "(bdio \<times> frames_bitmap, 'a) fallible"

abbreviation CACHE_SIZE :: usize where "CACHE_SIZE \<equiv> 4096"

section \<open>Operations\<close>

definition get_disk :: "disk list \<Rightarrow> usize \<Rightarrow> disk option" where
  "get_disk disks i = (if i \<ge> length disks then None else Some (disks ! i))"

definition bdio_new :: "disk list \<Rightarrow> usize \<Rightarrow> bdio option" where
  "bdio_new disks i = (case get_disk disks i of
       Some d \<Rightarrow> Some \<lparr>io_buffer = 0, io_data = [], io_first_lba = 0, io_sec_count = 0, io_disk = d\<rparr>
     | None \<Rightarrow> None)"

text \<open>\<^verbatim>\<open>self.buffer = PhysMem::alloc().expect(..)\<close> on the first access.\<close>

definition ensure_buffer :: "bdio \<times> frames_bitmap \<Rightarrow> (bdio \<times> frames_bitmap) run" where
  "ensure_buffer = (\<lambda>(b, bm).
     if io_buffer b = 0
     then and_then (pm_alloc bm) (\<lambda>(r, bm'). case r of
            Inl e \<Rightarrow> panics
          | Inr a \<Rightarrow> returns (b\<lparr>io_buffer := a\<rparr>, bm'))
     else returns (b, bm))"

definition fetch_from :: "disk_address \<Rightarrow> bdio \<times> frames_bitmap \<Rightarrow> (bdio \<times> frames_bitmap) run" where
  "fetch_from addr s = and_then (ensure_buffer s) (\<lambda>(b, bm).
     let ss = sector_bytes (io_disk b) in
     if ss = 0 then panics
     else
       let first = (case addr of LBA lba off \<Rightarrow> lba | ByteAddr a \<Rightarrow> a div ss);
           count = CACHE_SIZE div ss
       in returns (b\<lparr>io_first_lba := first, io_sec_count := count,
            io_data := issue_io (io_disk b) first (count mod 65536) (replicate 4096 0)\<rparr>, bm))"

definition bdio_read :: "disk_address \<Rightarrow> usize \<Rightarrow> io_block disk_op" where
  "bdio_read addr bytes = (\<lambda>(b, bm).
     let ss = sector_bytes (io_disk b);
         first_addr = umul (io_first_lba b) ss;
         last_addr = uadd first_addr (umul (io_sec_count b) ss);
         disk_byte_addr = (case addr of ByteAddr a \<Rightarrow> a | LBA lba off \<Rightarrow> uadd (umul lba ss) off)
     in and_then
          (if \<not> (disk_byte_addr \<ge> first_addr \<and> uadd disk_byte_addr bytes < last_addr)
           then fetch_from (ByteAddr disk_byte_addr) (b, bm) else returns (b, bm))
          (\<lambda>(b', bm').
             let first_addr = umul (io_first_lba b') ss;
                 bufsz = umul (io_sec_count b') ss;
                 off = usub disk_byte_addr first_addr
             in if bytes > usub bufsz off then throw NotIssued (b', bm')
                else succeed (uadd (io_buffer b') off, take bytes (drop off (io_data b'))) (b', bm')))"

definition bdio_drop :: "bdio \<times> frames_bitmap \<Rightarrow> frames_bitmap" where
  "bdio_drop = (\<lambda>(b, bm). if io_buffer b \<noteq> 0 then pm_free bm (io_buffer b) else bm)"

text \<open>A local \<^verbatim>\<open>BufferedDiskIO\<close>: made for one operation and dropped with every return.\<close>

definition with_bdio :: "disk list \<Rightarrow> usize \<Rightarrow> 'a disk_op \<Rightarrow> (frames_bitmap, 'a) fallible" where
  "with_bdio disks i f bm = (case bdio_new disks i of
       None \<Rightarrow> panics
     | Some b \<Rightarrow> and_then (f (b, bm)) (\<lambda>(r, s). returns (r, bdio_drop s)))"

section \<open>Reading what is on the disk\<close>

text \<open>\<open>disk_serves d D\<close>: the driver of \<open>d\<close> fills the buffer with the bytes \<open>D\<close> of the disk.\<close>

definition disk_bytes :: "disk \<Rightarrow> nat" where
  "disk_bytes d = sector_count d * sector_bytes d"

definition disk_serves :: "disk \<Rightarrow> (nat \<Rightarrow> u8) \<Rightarrow> bool" where
  "disk_serves d D \<longleftrightarrow> 0 < sector_bytes d \<and> sector_bytes d dvd 4096 \<and> disk_bytes d < 2 ^ 62
     \<and> (\<forall>lba buf. length buf = 4096 \<longrightarrow>
          length (issue_io d lba (4096 div sector_bytes d) buf) = 4096
        \<and> (\<forall>i < 4096. lba * sector_bytes d + i < disk_bytes d \<longrightarrow>
             issue_io d lba (4096 div sector_bytes d) buf ! i = D (lba * sector_bytes d + i)))"

definition bdio_ok :: "(nat \<Rightarrow> u8) \<Rightarrow> bdio \<Rightarrow> bool" where
  "bdio_ok D b \<longleftrightarrow> disk_serves (io_disk b) D
     \<and> (if io_sec_count b = 0 then io_first_lba b = 0
        else io_sec_count b = 4096 div sector_bytes (io_disk b) \<and> length (io_data b) = 4096
          \<and> io_first_lba b * sector_bytes (io_disk b) < disk_bytes (io_disk b)
          \<and> (\<forall>i < 4096. io_first_lba b * sector_bytes (io_disk b) + i < disk_bytes (io_disk b) \<longrightarrow>
               io_data b ! i = D (io_first_lba b * sector_bytes (io_disk b) + i)))"

definition disk_data :: "(nat \<Rightarrow> u8) \<Rightarrow> nat \<Rightarrow> nat \<Rightarrow> u8 list" where
  "disk_data D a n = map D [a..<a + n]"

text \<open>The frame of the buffer: none yet, or one that is not free.\<close>

definition frame_held :: "frames_bitmap \<Rightarrow> bdio \<times> frames_bitmap \<Rightarrow> bool" where
  "frame_held bm0 = (\<lambda>(b, bm). pmm_ok bm \<and> geometry bm = geometry bm0 \<and> 0 \<notin> free_set bm0
     \<and> (if io_buffer b = 0 then io_sec_count b = 0 \<and> free_set bm = free_set bm0
        else io_buffer b mod 4096 = 0 \<and> frame_of (io_buffer b) \<in> free_set bm0
          \<and> free_set bm = free_set bm0 - {frame_of (io_buffer b)}))"


lemma ensure_buffer_ok:
  assumes h: "frame_held bm0 (b, bm)" and ne: "free_set bm0 \<noteq> {}"
  shows "\<exists>a bm'. ensure_buffer (b, bm) = returns (b\<lparr>io_buffer := a\<rparr>, bm') \<and> a \<noteq> 0
    \<and> (\<forall>b'. io_buffer b' = a \<longrightarrow> frame_held bm0 (b', bm'))"
proof (cases "io_buffer b = 0")
  case False
  then show ?thesis using h by (intro exI [of _ "io_buffer b"] exI [of _ bm]) (simp add: ensure_buffer_def frame_held_def)
next
  case True
  then have f: "pmm_ok bm" "geometry bm = geometry bm0" "0 \<notin> free_set bm0" "free_set bm = free_set bm0"
    using h by (simp_all add: frame_held_def)
  let ?m = "Min (free_set bm)"
  let ?a = "PHY_FRAME_SIZE * ?m"
  have run: "pm_alloc bm = returns (Inr ?a, mark bm ?a True)" using pm_alloc_spec [OF f(1)] ne f(4) by simp
  have m: "?m \<in> free_set bm" using ne f(4) by (intro Min_in) auto
  have t: "pmm_ok (mark bm ?a True)" "free_set (mark bm ?a True) = free_set bm - {?m}" "geometry (mark bm ?a True) = geometry bm"
    using pm_take_facts [OF pm_take.take_one [OF run] f(1)] by auto
  have "?m \<noteq> 0" using m f(3,4) by metis
  then show ?thesis using True run t f m
    by (intro exI [of _ ?a] exI [of _ "mark bm ?a True"]) (simp add: ensure_buffer_def frame_held_def)
qed

lemma fetch_from_ok:
  assumes ok: "bdio_ok D b" and h: "frame_held bm0 (b, bm)" and ne: "free_set bm0 \<noteq> {}"
    and a: "a < disk_bytes (io_disk b)"
  obtains b' bm' where "fetch_from (ByteAddr a) (b, bm) = returns (b', bm')" "bdio_ok D b'" "frame_held bm0 (b', bm')"
    "io_disk b' = io_disk b" "io_first_lba b' = a div sector_bytes (io_disk b)" "io_sec_count b' = 4096 div sector_bytes (io_disk b)"
proof -
  let ?d = "io_disk b"
  have d: "0 < sector_bytes ?d" "sector_bytes ?d dvd 4096" "disk_serves ?d D"
    using ok by (simp_all add: bdio_ok_def disk_serves_def)
  have ss: "sector_bytes ?d \<le> 4096" using d(2) by (simp add: dvd_imp_le)
  obtain f bm' where e: "ensure_buffer (b, bm) = returns (b\<lparr>io_buffer := f\<rparr>, bm')" "f \<noteq> 0"
    "\<And>b'. io_buffer b' = f \<Longrightarrow> frame_held bm0 (b', bm')"
    using ensure_buffer_ok [OF h ne] by blast
  let ?lba = "a div sector_bytes ?d" and ?n = "4096 div sector_bytes ?d"
  let ?b = "b\<lparr>io_buffer := f, io_first_lba := ?lba, io_sec_count := ?n, io_data := issue_io ?d ?lba ?n (replicate 4096 0)\<rparr>"
  have "?n mod 65536 = ?n" by (rule mod_less, rule le_less_trans [OF div_le_dividend]) simp
  then have n: "?n mod 65536 = ?n" "?n \<noteq> 0" using d(1) ss by (simp_all add: div_eq_0_iff)
  have "?lba * sector_bytes ?d \<le> a" by simp
  then have lt: "?lba * sector_bytes ?d < disk_bytes ?d" using a by linarith
  have "bdio_ok D ?b" using d(3) n(2) lt by (simp add: bdio_ok_def disk_serves_def)
  moreover have "fetch_from (ByteAddr a) (b, bm) = returns (?b, bm')"
    using e(1) d(1) n(1) by (simp add: fetch_from_def Let_def)
  ultimately show thesis using that [of ?b bm'] e(3) by simp
qed

text \<open>An address in the buffer lies in its frame.\<close>

lemma held_offset:
  assumes h: "frame_held bm0 (b, bm)" and b: "io_buffer b \<noteq> 0" and i: "i < 4096"
  shows "frame_of (uadd (io_buffer b) i) = frame_of (io_buffer b)"
proof -
  have f: "io_buffer b mod 4096 = 0" "frame_of (io_buffer b) \<in> free_set bm0" "pmm_ok bm" "geometry bm = geometry bm0"
    using h b by (simp_all add: frame_held_def)
  have "frame_of (io_buffer b) \<le> last_phys_addr bm0 div 4096" using f(2) by (simp add: free_set_def frame_span_def)
  then have "io_buffer b div 4096 * 4096 \<le> last_phys_addr bm0 div 4096 * 4096" by (intro mult_le_mono1)
  moreover have "io_buffer b div 4096 * 4096 = io_buffer b" using f(1) by auto
  ultimately have "io_buffer b \<le> last_phys_addr bm0 div 4096 * 4096" by simp
  also have "\<dots> \<le> last_phys_addr bm0" by simp
  also have "last_phys_addr bm0 = last_phys_addr bm" using geometry_fields(2) [OF f(4)] by simp
  finally have "io_buffer b + 4096 < usize_span" using f(3) by (simp add: pmm_ok_def pmm_geom_ok_def span_ok_def)
  then have "uadd (io_buffer b) i = io_buffer b + i" using i by (simp add: uadd_exact)
  then show ?thesis using f(1) i by auto
qed

lemma bdio_read_ok:
  assumes ok: "bdio_ok D b" and h: "frame_held bm0 (b, bm)" and ne: "free_set bm0 \<noteq> {}"
    and a: "(case addr of ByteAddr x \<Rightarrow> x | LBA lba off \<Rightarrow> uadd (umul lba (sector_bytes (io_disk b))) off) = a"
    and n: "0 < n" "a + n \<le> disk_bytes (io_disk b)"
  obtains v b' bm' where "bdio_read addr n (b, bm) = returns
      (if a mod sector_bytes (io_disk b) + n \<le> 4096 then Inr (v, disk_data D a n) else Inl NotIssued, b', bm')"
    "frame_of v = frame_of (io_buffer b')" "io_buffer b' \<noteq> 0" "bdio_ok D b'" "frame_held bm0 (b', bm')" "io_disk b' = io_disk b"
proof -
  let ?d = "io_disk b" and ?ss = "sector_bytes (io_disk b)"
  let ?fits = "a mod ?ss + n \<le> 4096"
  have d: "0 < ?ss" "?ss dvd 4096" "disk_bytes ?d < 2 ^ 62"
    using ok by (simp_all add: bdio_ok_def disk_serves_def)
  have al: "a < disk_bytes ?d" using n by simp
  have cnt: "4096 div ?ss * ?ss = 4096" using d(2) by simp
  let ?first = "io_first_lba b * ?ss"
  define hit where "hit \<longleftrightarrow> a \<ge> umul (io_first_lba b) ?ss \<and> uadd a n < uadd (umul (io_first_lba b) ?ss) (umul (io_sec_count b) ?ss)"
  have an: "uadd a n = a + n" using n(2) d(3) by (simp add: uadd_exact)
  have serve: "(let first_addr = umul (io_first_lba b') ?ss; bufsz = umul (io_sec_count b') ?ss; off = usub a first_addr
       in if n > usub bufsz off then throw NotIssued (b', bm') else succeed (uadd (io_buffer b') off, take n (drop off (io_data b'))) (b', bm'))
     = returns (if a - io_first_lba b' * ?ss + n \<le> 4096 then Inr (uadd (io_buffer b') (a - io_first_lba b' * ?ss), disk_data D a n) else Inl NotIssued, b', bm')"
    if c: "bdio_ok D b'" "io_disk b' = ?d" "io_sec_count b' = 4096 div ?ss" "io_first_lba b' * ?ss \<le> a" "a < io_first_lba b' * ?ss + 4096"
    for b' bm'
  proof -
    let ?f = "io_first_lba b' * ?ss"
    have u: "umul (io_first_lba b') ?ss = ?f" "umul (io_sec_count b') ?ss = 4096" "usub a ?f = a - ?f" "usub 4096 (a - ?f) = 4096 - (a - ?f)"
      using c(3-5) al d(3) cnt by (simp_all add: umul_exact usub_exact)
    have cnz: "4096 div ?ss \<noteq> 0" using cnt d(1) by (metis mult_0 zero_neq_numeral)
    have dat: "length (io_data b') = 4096" "\<And>i. i < 4096 \<Longrightarrow> ?f + i < disk_bytes ?d \<Longrightarrow> io_data b' ! i = D (?f + i)"
      using c(1) unfolding bdio_ok_def c(2,3) using cnz by auto
    have "take n (drop (a - ?f) (io_data b')) = disk_data D a n" if "a - ?f + n \<le> 4096"
    proof (rule nth_equalityI)
      show "length (take n (drop (a - ?f) (io_data b'))) = length (disk_data D a n)"
        using that dat(1) by (simp add: disk_data_def)
      fix i assume "i < length (take n (drop (a - ?f) (io_data b')))"
      then have i: "i < n" by simp
      have "io_data b' ! (a - ?f + i) = D (?f + (a - ?f + i))"
        by (rule dat(2)) (use i that n(2) c(4) in linarith)+
      then show "take n (drop (a - ?f) (io_data b')) ! i = disk_data D a n ! i"
        using i that dat(1) c(4) by (simp add: disk_data_def add.assoc [symmetric])
    qed
    moreover have "4096 - (a - ?f) < n \<longleftrightarrow> \<not> a - ?f + n \<le> 4096" using c(4,5) by linarith
    ultimately show ?thesis unfolding Let_def u by (auto simp: throw_def succeed_def)
  qed
  have unfold: "bdio_read addr n (b, bm) = and_then (if \<not> hit then fetch_from (ByteAddr a) (b, bm) else returns (b, bm))
     (\<lambda>(b', bm'). let first_addr = umul (io_first_lba b') ?ss; bufsz = umul (io_sec_count b') ?ss; off = usub a first_addr
       in if n > usub bufsz off then throw NotIssued (b', bm') else succeed (uadd (io_buffer b') off, take n (drop off (io_data b'))) (b', bm'))"
    unfolding bdio_read_def hit_def split Let_def a ..
  show thesis
  proof (cases hit)
    case True
    have nz: "io_sec_count b \<noteq> 0"
    proof
      assume "io_sec_count b = 0"
      moreover from this have "io_first_lba b = 0" using ok by (simp add: bdio_ok_def)
      ultimately show False using True by (simp add: hit_def umul_def uadd_def)
    qed
    then have c: "io_sec_count b = 4096 div ?ss" "?first < disk_bytes ?d" using ok by (auto simp: bdio_ok_def)
    have u: "umul (io_first_lba b) ?ss = ?first" "umul (io_sec_count b) ?ss = 4096" "uadd ?first 4096 = ?first + 4096"
      using c d(3) cnt by (simp_all add: umul_exact uadd_exact)
    have r: "?first \<le> a" "a + n < ?first + 4096" using True unfolding hit_def u an by auto
    have "a mod ?ss = (a - ?first) mod ?ss" using r(1) by (metis mod_mult_self3 mult.commute le_add_diff_inverse)
    then have "a mod ?ss \<le> a - ?first" by simp
    then have f: ?fits "a - ?first + n \<le> 4096" using r by linarith+
    have "bdio_read addr n (b, bm) = returns (if ?fits then Inr (uadd (io_buffer b) (a - ?first), disk_data D a n) else Inl NotIssued, b, bm)"
      unfolding unfold using True serve [of b bm] ok c(1) r f by simp
    moreover have "io_buffer b \<noteq> 0" using h nz by (auto simp: frame_held_def split: if_splits)
    moreover from this have "frame_of (uadd (io_buffer b) (a - ?first)) = frame_of (io_buffer b)"
      by (rule held_offset [OF h]) (use f(2) n(1) in simp)
    ultimately show thesis using that ok h by blast
  next
    case False
    obtain b' bm' where f: "fetch_from (ByteAddr a) (b, bm) = returns (b', bm')" "bdio_ok D b'" "frame_held bm0 (b', bm')"
      "io_disk b' = ?d" "io_first_lba b' = a div ?ss" "io_sec_count b' = 4096 div ?ss"
      by (rule fetch_from_ok [OF ok h ne al])
    have md: "a div ?ss * ?ss + a mod ?ss = a" "a mod ?ss < ?ss" using d(1) by simp_all
    have "?ss \<le> 4096" using d(2) by (simp add: dvd_imp_le)
    then have r: "a div ?ss * ?ss \<le> a" "a < a div ?ss * ?ss + 4096" "a - a div ?ss * ?ss = a mod ?ss" using md by linarith+
    have "bdio_read addr n (b, bm) = returns (if ?fits then Inr (uadd (io_buffer b') (a mod ?ss), disk_data D a n) else Inl NotIssued, b', bm')"
    proof -
      have "io_first_lba b' * ?ss \<le> a" "a < io_first_lba b' * ?ss + 4096" using r unfolding f(5) by simp_all
      from serve [OF f(2,4,6) this, of bm'] show ?thesis
        unfolding unfold f(5) r(3) using False f(1,5) by (simp only: and_then_simps if_True split not_False_eq_True)
    qed
    moreover have bz: "io_buffer b' \<noteq> 0"
    proof
      assume "io_buffer b' = 0"
      then have "io_sec_count b' = 0" using f(3) by (simp add: frame_held_def)
      then show False using f(6) cnt by simp
    qed
    moreover have "frame_of (uadd (io_buffer b') (a mod ?ss)) = frame_of (io_buffer b')"
      by (rule held_offset [OF f(3) bz]) (use md(2) \<open>?ss \<le> 4096\<close> in simp)
    ultimately show thesis using that f(2-4) by blast
  qed
qed

text \<open>Dropping the buffer gives its frame back.\<close>

lemma bdio_drop_ok:
  assumes h: "frame_held bm0 (b, bm)" and ok: "pmm_ok bm0"
  shows "pmm_ok (bdio_drop (b, bm)) \<and> free_set (bdio_drop (b, bm)) = free_set bm0 \<and> geometry (bdio_drop (b, bm)) = geometry bm0"
proof (cases "io_buffer b = 0")
  case False
  then have f: "pmm_ok bm" "geometry bm = geometry bm0" "io_buffer b mod 4096 = 0" "frame_of (io_buffer b) \<in> free_set bm0"
    "free_set bm = free_set bm0 - {frame_of (io_buffer b)}"
    using h by (simp_all add: frame_held_def)
  have m: "{frame_of (io_buffer b)} \<subseteq> managed_frames bm"
    unfolding managed_cong [OF f(2)] using f(4) pm.avail_managed [OF ok] by blast
  show ?thesis
    using False pm_give_facts [OF pm_give.give_one [OF f(3)] f(1)] m f(2,4,5) by (auto simp: bdio_drop_def)
qed (use h in \<open>simp add: frame_held_def bdio_drop_def\<close>)

lemma bdio_new_ok:
  assumes "i < length disks" "disk_serves (disks ! i) D" "pmm_ok bm" "0 \<notin> free_set bm"
  obtains b where "bdio_new disks i = Some b" "bdio_ok D b" "frame_held bm (b, bm)" "io_disk b = disks ! i"
  using assms that by (simp add: bdio_new_def get_disk_def bdio_ok_def frame_held_def)

end
