(* ===== verification/Fat.thy ===== *)
theory Fat
  imports Disk_IO Vfs
begin

text \<open>
  The FAT12/16/32 driver, \<^verbatim>\<open>kernel/src/fs/fat/mod.rs\<close>: directory entries and short names, the
  allocation table, files as lists of clusters, path lookup, and reading.

  Strings and file names are byte lists. The packed structures on the disk are read field by
  field from their bytes (\<open>field\<close>). Narrow arithmetic wraps at its width: \<open>wadd\<close>, \<open>wsub\<close> and
  \<open>wmul\<close> are the operations on \<open>w\<close>-bit numbers.
\<close>

definition le_nat :: "bytes \<Rightarrow> nat" where
  "le_nat bs = foldr (\<lambda>b n. unat b + 256 * n) bs 0"

definition field :: "nat \<Rightarrow> nat \<Rightarrow> bytes \<Rightarrow> nat" where
  "field off n bs = le_nat (take n (drop off bs))"

definition wadd :: "nat \<Rightarrow> nat \<Rightarrow> nat \<Rightarrow> nat" where "wadd w a b = (a + b) mod 2 ^ w"
definition wmul :: "nat \<Rightarrow> nat \<Rightarrow> nat \<Rightarrow> nat" where "wmul w a b = (a * b) mod 2 ^ w"
definition wsub :: "nat \<Rightarrow> nat \<Rightarrow> nat \<Rightarrow> nat" where
  "wsub w a b = (if b \<le> a then a - b else a + 2 ^ w - b)"

section \<open>Directory entries\<close>

datatype fat_kind = FAT12 | FAT16 | FAT32 | UnknownFAT

datatype fat_entry = FreeEntry | ReservedEntry | InUse nat | BadCluster | EndOfChain | InvalidEntry

record dir_ent =
  sfn_name :: bytes
  attr :: u8
  nt_res :: u8
  create_time_tenth :: u8
  create_time :: nat
  create_date :: nat
  access_date :: nat
  first_cluster_hi :: nat
  write_time :: nat
  write_date :: nat
  first_cluster_lo :: nat
  file_size :: nat

definition dir_ent_from :: "bytes \<Rightarrow> dir_ent" where
  "dir_ent_from bs = \<lparr>sfn_name = take 11 bs, attr = bs ! 11, nt_res = bs ! 12, create_time_tenth = bs ! 13,
     create_time = field 14 2 bs, create_date = field 16 2 bs, access_date = field 18 2 bs,
     first_cluster_hi = field 20 2 bs, write_time = field 22 2 bs, write_date = field 24 2 bs,
     first_cluster_lo = field 26 2 bs, file_size = field 28 4 bs\<rparr>"

definition ATTR_READ_ONLY :: u8 where "ATTR_READ_ONLY = 0x01"
definition ATTR_HIDDEN :: u8 where "ATTR_HIDDEN = 0x02"
definition ATTR_SYSTEM :: u8 where "ATTR_SYSTEM = 0x04"
definition ATTR_DIRECTORY :: u8 where "ATTR_DIRECTORY = 0x10"
definition ATTR_ARCHIVE :: u8 where "ATTR_ARCHIVE = 0x20"
definition ATTR_LONG_FILE_NAME :: u8 where "ATTR_LONG_FILE_NAME = 0x0F"

abbreviation SPACE :: u8 where "SPACE \<equiv> 0x20"
abbreviation DOT :: u8 where "DOT \<equiv> 0x2E"
abbreviation SLASH :: u8 where "SLASH \<equiv> 0x2F"

definition to_ascii_uppercase :: "u8 \<Rightarrow> u8" where
  "to_ascii_uppercase b = (if 0x61 \<le> b \<and> b \<le> 0x7A then b - 0x20 else b)"

text \<open>\<open>i\<close> runs over the eleven bytes of the entry's name, \<open>j\<close> over the given name.\<close>

function sfn_match_from :: "bytes \<Rightarrow> bytes \<Rightarrow> nat \<Rightarrow> nat \<Rightarrow> bool" where
  "sfn_match_from name s i j =
     (if i \<ge> 11 then True
      else
        let src = to_ascii_uppercase (name ! i);
            dst = (if j \<ge> length s then SPACE else to_ascii_uppercase (s ! j))
        in if src \<noteq> dst then
             (if src = SPACE \<and> dst = DOT
              then sfn_match_from name s (i + 1) (if i < 10 \<and> name ! (i + 1) \<noteq> SPACE then j + 1 else j)
              else False)
           else sfn_match_from name s (i + 1) (j + 1))"
  by auto
termination by (relation "measure (\<lambda>(name, s, i, j). 11 - i)") auto

declare sfn_match_from.simps [simp del]

definition sfn_match :: "dir_ent \<Rightarrow> bytes \<Rightarrow> bool" where
  "sfn_match e s = sfn_match_from (sfn_name e) s 0 0"

definition ent_name :: "dir_ent \<Rightarrow> bytes run" where
  "ent_name e = from_utf8 (sfn_name e)"

section \<open>The volume and its allocation table\<close>

record fat_volume =
  kind :: fat_kind
  label :: bytes
  first_lba :: usize
  last_lba :: usize
  disk_index :: usize
  sector_size :: nat
  cluster_sectors :: nat
  cluster_size :: nat
  volume_sectors :: nat
  fat_count :: nat
  fat_start_sector :: nat
  fat_sectors :: nat
  root_start_sector :: nat
  root_entry_count :: nat
  root_sectors :: nat
  root32_cluster0 :: nat
  data_start_sector :: nat
  data_sectors :: nat
  data_clusters :: nat

fun fat_entry_from_value :: "fat_kind \<Rightarrow> nat \<Rightarrow> fat_entry" where
  "fat_entry_from_value FAT12 v =
     (if v = 0 then FreeEntry else if v = 1 then ReservedEntry
      else if v \<le> 0xFF6 then InUse v else if v = 0xFF7 then BadCluster
      else if v \<le> 0xFFF then EndOfChain else InvalidEntry)"
| "fat_entry_from_value FAT16 v =
     (if v = 0 then FreeEntry else if v = 1 then ReservedEntry
      else if v \<le> 0xFFF6 then InUse v else if v = 0xFFF7 then BadCluster
      else if v \<le> 0xFFFF then EndOfChain else InvalidEntry)"
| "fat_entry_from_value FAT32 v =
     (if v = 0 then FreeEntry else if v = 1 then ReservedEntry
      else if v \<le> 0x0FFFFFF6 then InUse v else if v = 0x0FFFFFF7 then BadCluster
      else if v = 0x0FFFFFF8 then EndOfChain else InvalidEntry)"
| "fat_entry_from_value UnknownFAT v = InvalidEntry"

text \<open>The block address of byte \<open>off\<close> of the allocation table; for FAT12 the code narrows the byte
  offset to 32 bits.\<close>

definition fat_address :: "fat_volume \<Rightarrow> usize \<Rightarrow> disk_address run" where
  "fat_address vol off =
     (if sector_size vol = 0 then panics
      else returns (LBA (uadd (uadd (first_lba vol) (fat_start_sector vol)) (off div sector_size vol))
             ((if kind vol = FAT12 then off mod 2 ^ 32 else off) mod sector_size vol)))"

definition load_fat_entry :: "fat_volume \<Rightarrow> usize \<Rightarrow> fat_entry disk_op" where
  "load_fat_entry vol i = (case kind vol of
       FAT12 \<Rightarrow> (\<lambda>s. and_then (fat_address vol (uadd i (i div 2))) (\<lambda>a.
         try_then (bdio_read a 2) (\<lambda>(va, buf).
           let entry = (if i AND 1 = 0 then unat (buf ! 0) + 256 * (unat (buf ! 1) mod 16)
                        else unat (buf ! 0) div 16 + 16 * unat (buf ! 1))
           in succeed (fat_entry_from_value FAT12 entry)) s))
     | FAT16 \<Rightarrow> (\<lambda>s. and_then (fat_address vol (umul i 2)) (\<lambda>a.
         try_then (bdio_read a 2) (\<lambda>(va, buf). succeed (fat_entry_from_value FAT16 (field 0 2 buf))) s))
     | FAT32 \<Rightarrow> (\<lambda>s. and_then (fat_address vol (umul i 4)) (\<lambda>a.
         try_then (bdio_read a 4) (\<lambda>(va, buf).
           succeed (fat_entry_from_value FAT32 (field 0 4 buf mod 0x10000000))) s))
     | UnknownFAT \<Rightarrow> (\<lambda>s. panics))"

section \<open>Files\<close>

datatype au_map = FAT1216Root nat nat | FATFile "nat list"

record fat_file =
  dir_entry :: dir_ent
  au_map :: au_map
  file_disk :: usize
  file_first_lba :: usize
  file_sector_size :: nat
  file_cluster_sectors :: nat
  file_cluster_size :: nat
  file_data_start :: nat

partial_function (option) load_chain ::
  "fat_volume \<Rightarrow> nat \<Rightarrow> nat list \<Rightarrow> bdio \<times> frames_bitmap \<Rightarrow> ((error_code + nat list) \<times> bdio \<times> frames_bitmap) run" where
  "load_chain vol cur clst s = try_then (load_fat_entry vol cur) (\<lambda>ent s'. case ent of
       InUse nxt \<Rightarrow> load_chain vol nxt (clst @ [cur]) s'
     | _ \<Rightarrow> succeed (clst @ [cur]) s') s"

definition first_cluster :: "dir_ent \<Rightarrow> nat" where
  "first_cluster e = 65536 * first_cluster_hi e + first_cluster_lo e"

definition make_file :: "fat_volume \<Rightarrow> dir_ent \<Rightarrow> au_map \<Rightarrow> fat_file" where
  "make_file vol e m = \<lparr>dir_entry = e, au_map = m, file_disk = disk_index vol, file_first_lba = first_lba vol,
     file_sector_size = sector_size vol, file_cluster_sectors = cluster_sectors vol,
     file_cluster_size = cluster_size vol, file_data_start = data_start_sector vol\<rparr>"

definition from_dir_entry :: "disk list \<Rightarrow> fat_volume \<Rightarrow> dir_ent \<Rightarrow> (frames_bitmap, fat_file) fallible" where
  "from_dir_entry disks vol e =
     (if first_cluster e = 0
      then succeed (make_file vol e (FAT1216Root (root_start_sector vol) (root_entry_count vol)))
      else try_then (with_bdio disks (disk_index vol) (load_chain vol (first_cluster e) []))
             (\<lambda>clst. succeed (make_file vol e (FATFile clst))))"

definition from_root :: "disk list \<Rightarrow> fat_volume \<Rightarrow> (frames_bitmap, fat_file) fallible" where
  "from_root disks vol = from_dir_entry disks vol
     \<lparr>sfn_name = ascii ''<ROOT_DIRE>'', attr = ATTR_DIRECTORY, nt_res = 0, create_time_tenth = 0,
      create_time = 0, create_date = 0, access_date = 0,
      first_cluster_hi = root32_cluster0 vol div 65536 mod 65536, write_time = 0, write_date = 0,
      first_cluster_lo = root32_cluster0 vol mod 65536, file_size = 0\<rparr>"

definition is_directory :: "fat_file \<Rightarrow> bool" where
  "is_directory f \<longleftrightarrow> attr (dir_entry f) AND ATTR_DIRECTORY > 0"

definition is_readable :: "fat_file \<Rightarrow> bool" where
  "is_readable f = True"

definition is_writable :: "fat_file \<Rightarrow> bool" where
  "is_writable f \<longleftrightarrow> attr (dir_entry f) AND ATTR_READ_ONLY = 0"

definition is_executable :: "fat_file \<Rightarrow> bool" where
  "is_executable f \<longleftrightarrow>
     (if attr (dir_entry f) AND ATTR_DIRECTORY \<noteq> 0 then False
      else drop 8 (sfn_name (dir_entry f)) = ascii ''BOX'')"

definition size_bytes :: "fat_file \<Rightarrow> usize" where
  "size_bytes f = file_size (dir_entry f)"

definition file_capacity :: "fat_file \<Rightarrow> usize run" where
  "file_capacity f = (case au_map f of
       FAT1216Root start_sec entry_count \<Rightarrow>
         if file_sector_size f = 0 then panics
         else returns (umul (wsub 16 (wadd 16 (wmul 16 32 entry_count) (file_sector_size f)) 1 div file_sector_size f)
                (file_sector_size f))
     | FATFile clst \<Rightarrow> returns (umul (length clst) (file_cluster_size f)))"

definition first_sector_of_cluster :: "fat_file \<Rightarrow> nat \<Rightarrow> usize" where
  "first_sector_of_cluster f c = uadd (file_data_start f) (umul (wsub 32 c 2) (file_cluster_sectors f))"

definition first_sector :: "fat_file \<Rightarrow> usize \<Rightarrow> usize run" where
  "first_sector f cluster_index = (case au_map f of
       FAT1216Root start_sec entry_count \<Rightarrow> returns start_sec
     | FATFile clst \<Rightarrow> and_then (item_at clst cluster_index) (\<lambda>c. returns (first_sector_of_cluster f c)))"

definition read_length :: "fat_file \<Rightarrow> usize \<Rightarrow> usize \<Rightarrow> usize" where
  "read_length f file_offset num_bytes =
     (let len = (if \<not> is_directory f \<and> uadd file_offset num_bytes > size_bytes f
                 then usub (size_bytes f) file_offset else num_bytes);
          cluster_offset = file_offset mod file_cluster_size f
      in if uadd cluster_offset len > file_cluster_size f then file_cluster_size f - cluster_offset else len)"

definition read_int :: "fat_file \<Rightarrow> usize \<Rightarrow> usize \<Rightarrow> io_block disk_op" where
  "read_int f file_offset num_bytes s = and_then (file_capacity f) (\<lambda>cap.
     if file_offset \<ge> cap then throw OutOfBoundIO s
     else if file_cluster_size f = 0 then panics
     else and_then (first_sector f (file_offset div file_cluster_size f)) (\<lambda>sec.
       let disk_off = uadd (umul (uadd (file_first_lba f) sec) (file_sector_size f))
                        (file_offset mod file_cluster_size f)
       in bdio_read (ByteAddr disk_off) (read_length f file_offset num_bytes) s))"

definition file_read :: "disk list \<Rightarrow> fat_file \<Rightarrow> usize \<Rightarrow> usize \<Rightarrow> (frames_bitmap, io_block) fallible" where
  "file_read disks f file_offset num_bytes = with_bdio disks (file_disk f) (read_int f file_offset num_bytes)"

section \<open>Directories and paths\<close>

abbreviation NAME_0_FREE_ENTRY :: u8 where "NAME_0_FREE_ENTRY \<equiv> 0xE5"
abbreviation NAME_0_LAST_ENTRY :: u8 where "NAME_0_LAST_ENTRY \<equiv> 0"

definition listed :: "dir_ent \<Rightarrow> bool" where
  "listed e \<longleftrightarrow> sfn_name e ! 0 \<noteq> NAME_0_FREE_ENTRY \<and> sfn_name e ! 0 \<noteq> NAME_0_LAST_ENTRY
     \<and> attr e AND ATTR_LONG_FILE_NAME = 0"

partial_function (option) find_child_from ::
  "fat_file \<Rightarrow> bytes \<Rightarrow> usize \<Rightarrow> bdio \<times> frames_bitmap \<Rightarrow> ((error_code + dir_ent) \<times> bdio \<times> frames_bitmap) run" where
  "find_child_from f s f_off st = try_then (read_int f f_off 32) (\<lambda>(va, buf) st'.
     if length buf = 32 then
       let e = dir_ent_from buf in
       if listed e \<and> sfn_match e s then succeed e st'
       else if sfn_name e ! 0 = NAME_0_LAST_ENTRY then throw InvalidPath st'
       else find_child_from f s (uadd f_off 32) st'
     else throw InvalidFormat st') st"

definition find_child_by_name :: "disk list \<Rightarrow> fat_file \<Rightarrow> bytes \<Rightarrow> (frames_bitmap, dir_ent) fallible" where
  "find_child_by_name disks f s =
     (if \<not> is_directory f then throw InvalidOp
      else with_bdio disks (file_disk f) (find_child_from f s 0))"

partial_function (option) dir_entries_from ::
  "fat_file \<Rightarrow> dir_ent list \<Rightarrow> usize \<Rightarrow> bdio \<times> frames_bitmap \<Rightarrow> ((error_code + dir_ent list) \<times> bdio \<times> frames_bitmap) run" where
  "dir_entries_from f v f_off st = try_then (read_int f f_off 32) (\<lambda>(va, buf) st'.
     if length buf = 32 then
       let e = dir_ent_from buf in
       if listed e then dir_entries_from f (v @ [e]) (uadd f_off 32) st'
       else if sfn_name e ! 0 = NAME_0_LAST_ENTRY then succeed v st'
       else dir_entries_from f v (uadd f_off 32) st'
     else succeed v st') st"

definition dir_entries :: "disk list \<Rightarrow> fat_file \<Rightarrow> (frames_bitmap, dir_ent list) fallible" where
  "dir_entries disks f =
     (if \<not> is_directory f then throw InvalidOp
      else with_bdio disks (file_disk f) (dir_entries_from f [] 0))"

fun walk_path :: "disk list \<Rightarrow> fat_volume \<Rightarrow> bytes list \<Rightarrow> fat_file \<Rightarrow> (frames_bitmap, fat_file) fallible" where
  "walk_path disks vol [] f = succeed f"
| "walk_path disks vol (fname # nodes) f =
     (if fname = [] then succeed f
      else if is_directory f
      then try_then (find_child_by_name disks f fname) (\<lambda>e.
             try_then (from_dir_entry disks vol e) (walk_path disks vol nodes))
      else walk_path disks vol nodes f)"

definition from_path :: "disk list \<Rightarrow> fat_volume \<Rightarrow> bytes \<Rightarrow> (frames_bitmap, fat_file) fallible" where
  "from_path disks vol path = try_then (from_root disks vol)
     (walk_path disks vol (split_byte SLASH (if path \<noteq> [] \<and> hd path = SLASH then tl path else path)))"

end
