(* ===== verification/Fat_Volume.thy ===== *)
theory Fat_Volume
  imports Fat
begin

text \<open>
  Mounting FAT volumes and the file operations of the driver (\<^verbatim>\<open>kernel/src/fs/fat/mod.rs\<close>), and
  the partition table (\<^verbatim>\<open>kernel/src/fs/gpt.rs\<close>).

  \<open>fat_dev\<close> is what the driver keeps: the volumes by mount point, the open files by handle, and
  the memory manager its buffers come from. \<open>h\<close> is the handler the driver registers.
\<close>

section \<open>State\<close>

record fat_dev =
  fat_disks :: "disk list"
  fat_volumes :: "(bytes, fat_volume) bt_map"
  open_files :: "(usize, fat_file) bt_map"
  next_handle :: usize
  fat_phys :: frames_bitmap

definition on_phys :: "(frames_bitmap, 'a) fallible \<Rightarrow> (fat_dev, 'a) fallible" where
  "on_phys f d = and_then (f (fat_phys d)) (\<lambda>(r, bm). returns (r, d\<lparr>fat_phys := bm\<rparr>))"

section \<open>Boot sectors\<close>

text \<open>What both kinds of boot sector have in common; \<open>tot\<close> and \<open>fsz\<close> are the sectors of the
  volume and of one table.\<close>

definition volume_from :: "fat_kind \<Rightarrow> bytes \<Rightarrow> usize \<Rightarrow> usize \<Rightarrow> usize \<Rightarrow> bytes \<Rightarrow> nat \<Rightarrow> nat \<Rightarrow> nat \<Rightarrow> fat_volume run" where
  "volume_from k lab disk start_lba end_lba bs tot fsz root_cluster =
     (let bps = field 11 2 bs; spc = field 13 1 bs; rsvd = field 14 2 bs; nfats = field 16 1 bs;
          root_ent_count = field 17 2 bs;
          fat_secs = wmul 32 fsz nfats;
          root_start = wadd 32 rsvd fat_secs
      in if bps = 0 then panics
      else
        let root_secs = wsub 16 (wadd 16 (wmul 16 32 root_ent_count) bps) 1 div bps;
            data_start = wadd 32 root_start root_secs;
            data_secs = wsub 32 tot data_start
        in if spc = 0 then panics
        else and_then (from_utf8 lab) (\<lambda>name.
          returns \<lparr>kind = k, label = name, first_lba = start_lba, last_lba = end_lba, disk_index = disk,
            sector_size = bps, cluster_sectors = spc, cluster_size = wmul 32 spc bps,
            volume_sectors = tot, fat_count = nfats, fat_start_sector = rsvd, fat_sectors = fat_secs,
            root_start_sector = root_start, root_entry_count = root_ent_count, root_sectors = root_secs,
            root32_cluster0 = root_cluster, data_start_sector = data_start, data_sectors = data_secs,
            data_clusters = data_secs div spc\<rparr>))"

definition boot_kind16 :: "bytes \<Rightarrow> fat_kind" where
  "boot_kind16 bs = (if take 8 (drop 54 bs) = ascii ''FAT12   '' then FAT12
     else if take 8 (drop 54 bs) = ascii ''FAT16   '' then FAT16 else UnknownFAT)"

definition boot_kind32 :: "fat_kind \<Rightarrow> bytes \<Rightarrow> fat_kind" where
  "boot_kind32 k bs = (if take 8 (drop 82 bs) = ascii ''FAT32   '' then FAT32 else k)"

text \<open>\<^verbatim>\<open>format!("disk{}.{}", disk_index, part_index)\<close>.\<close>

definition mount_name :: "usize \<Rightarrow> usize \<Rightarrow> bytes" where
  "mount_name disk part = ascii ''disk'' @ decimal disk @ [DOT] @ decimal part"

definition register_volume :: "'h \<Rightarrow> bytes \<Rightarrow> fat_volume \<Rightarrow> ('h mount_table \<times> fat_dev, unit) fallible" where
  "register_volume h name vol = (\<lambda>(mps, d).
     let (ok, mps') = mount \<lparr>mnt_name = name, fops = h\<rparr> mps
     in if ok then succeed () (mps', d\<lparr>fat_volumes := bt_insert name vol (fat_volumes d)\<rparr>) else panics)"

definition load_volume :: "disk list \<Rightarrow> usize \<Rightarrow> usize \<Rightarrow> usize \<Rightarrow> fat_volume disk_op" where
  "load_volume disks disk start_lba end_lba =
     try_then (bdio_read (LBA start_lba 0) 64) (\<lambda>(va, bs) s.
       let k = boot_kind16 bs in
       if field 38 1 bs = 0x29 \<and> (k = FAT12 \<or> k = FAT16)
       then and_then (volume_from k (take 11 (drop 43 bs)) disk start_lba end_lba bs (field 19 2 bs) (field 22 2 bs) 0)
              (\<lambda>vol. succeed vol s)
       else try_then (bdio_read (LBA start_lba 0) 90) (\<lambda>(va, bs) s.
         let k = boot_kind32 k bs in
         if field 66 1 bs = 0x29 \<and> k = FAT32
         then and_then (volume_from k (take 11 (drop 71 bs)) disk start_lba end_lba bs (field 32 4 bs) (field 36 4 bs) (field 44 4 bs))
                (\<lambda>vol. succeed vol s)
         else throw InvalidFormat s) s)"

definition fat_mount :: "'h \<Rightarrow> usize \<Rightarrow> usize \<Rightarrow> usize \<Rightarrow> usize \<Rightarrow> ('h mount_table \<times> fat_dev, unit) fallible" where
  "fat_mount h disk part start_lba end_lba = (\<lambda>(mps, d).
     if \<not> (end_lba > start_lba \<and> end_lba - start_lba > 2) then throw InvalidArgument (mps, d)
     else and_then (on_phys (with_bdio (fat_disks d) disk (load_volume (fat_disks d) disk start_lba end_lba)) d) (\<lambda>(r, d').
       case r of
         Inl e \<Rightarrow> throw e (mps, d')
       | Inr vol \<Rightarrow> register_volume h (mount_name disk part) vol (mps, d')))"

section \<open>The partition table\<close>

text \<open>One pass of the loop per entry; \<open>cur_off\<close> is the address of the entry and \<open>num\<close> the
  number of volumes found.\<close>

fun gpt_entries :: "'h \<Rightarrow> usize \<Rightarrow> nat \<Rightarrow> nat \<Rightarrow> usize \<Rightarrow> usize \<Rightarrow> bdio \<times> 'h mount_table \<times> fat_dev
    \<Rightarrow> (usize \<times> bdio \<times> 'h mount_table \<times> fat_dev) run" where
  "gpt_entries h disk ent_size 0 cur_off num st = returns (num, st)"
| "gpt_entries h disk ent_size (Suc n) cur_off num (b, mps, d) =
     and_then (bdio_read (ByteAddr cur_off) 128 (b, fat_phys d)) (\<lambda>(r, b', bm').
       let d' = d\<lparr>fat_phys := bm'\<rparr> in
       case r of
         Inl e \<Rightarrow> returns (num, b', mps, d')
       | Inr (va, ent) \<Rightarrow>
           if length ent < 128 then returns (num, b', mps, d')
           else if field 0 16 ent \<noteq> 0
           then and_then (fat_mount h disk num (field 32 8 ent) (field 40 8 ent) (mps, d')) (\<lambda>(r, mps', d'').
                  gpt_entries h disk ent_size n (uadd cur_off ent_size)
                    (case r of Inr u \<Rightarrow> uadd num 1 | Inl e \<Rightarrow> num) (b', mps', d''))
           else gpt_entries h disk ent_size n cur_off num (b', mps, d'))"

definition enumerate_partitions :: "'h \<Rightarrow> usize \<Rightarrow> 'h mount_table \<times> fat_dev \<Rightarrow> (usize \<times> 'h mount_table \<times> fat_dev) run" where
  "enumerate_partitions h disk = (\<lambda>(mps, d). case bdio_new (fat_disks d) disk of
       None \<Rightarrow> panics
     | Some b \<Rightarrow> and_then (bdio_read (LBA 1 0) 92 (b, fat_phys d)) (\<lambda>(r, b', bm').
         case r of
           Inl e \<Rightarrow> returns (0, mps, d\<lparr>fat_phys := bdio_drop (b', bm')\<rparr>)
         | Inr (va, hdr) \<Rightarrow>
             if length hdr < 92 then returns (0, mps, d\<lparr>fat_phys := bdio_drop (b', bm')\<rparr>)
             else (case get_disk (fat_disks d) disk of
               None \<Rightarrow> panics
             | Some dk \<Rightarrow>
                 if take 8 hdr = ascii ''EFI PART''
                 then and_then (gpt_entries h disk (field 84 4 hdr) (field 80 4 hdr)
                          (umul (field 72 8 hdr) (sector_bytes dk)) 0 (b', mps, d\<lparr>fat_phys := bm'\<rparr>))
                        (\<lambda>(num, b'', mps'', d''). returns (num, mps'', d''\<lparr>fat_phys := bdio_drop (b'', fat_phys d'')\<rparr>))
                 else returns (0, mps, d\<lparr>fat_phys := bdio_drop (b', bm')\<rparr>))))"

section \<open>File operations\<close>

definition attr_flags :: "u8 \<Rightarrow> bool \<Rightarrow> nat" where
  "attr_flags a exec =
     (if a AND ATTR_DIRECTORY > 0 then FLG_DIRECTORY else 0)
     OR (if a AND ATTR_ARCHIVE > 0 then FLG_ARCHIVE else 0)
     OR (if a AND ATTR_HIDDEN > 0 then FLG_HIDDEN else 0)
     OR (if a AND ATTR_SYSTEM > 0 then FLG_SYSTEM else 0)
     OR (if exec then FLG_PERM_EXEC else 0)
     OR (if a AND ATTR_READ_ONLY > 0 then FLG_PERM_READ else FLG_PERM_READ OR FLG_PERM_WRITE)"

definition get_directory_entry :: "fat_file \<Rightarrow> directory_entry run" where
  "get_directory_entry f = and_then (ent_name (dir_entry f)) (\<lambda>name.
     returns \<lparr>entry_name = name, entry_flags = attr_flags (attr (dir_entry f)) (is_executable f),
       entry_size = size_bytes f\<rparr>)"

definition fopen :: "fat_volume \<Rightarrow> bytes \<Rightarrow> nat \<Rightarrow> (fat_dev, usize \<times> directory_entry) fallible" where
  "fopen vol fpath mode d = try_then (on_phys (from_path (fat_disks d) vol fpath)) (\<lambda>fobj d.
     if \<not> is_readable fobj \<and> mode AND MODE_READ \<noteq> 0 \<or> \<not> is_writable fobj \<and> mode AND MODE_WRITE \<noteq> 0
        \<or> \<not> is_executable fobj \<and> mode AND MODE_EXEC \<noteq> 0
     then throw NotAllowed d
     else and_then (get_directory_entry fobj) (\<lambda>dent.
       let hnd = next_handle d in
       succeed (hnd, dent) (d\<lparr>next_handle := uadd hnd 1, open_files := bt_insert hnd fobj (open_files d)\<rparr>))) d"

definition child_entry :: "dir_ent \<Rightarrow> directory_entry run" where
  "child_entry e = and_then (ent_name e) (\<lambda>name.
     returns \<lparr>entry_name = name,
       entry_flags = attr_flags (attr e) (attr e AND ATTR_DIRECTORY = 0 \<and> drop 8 (sfn_name e) = ascii ''BOX''),
       entry_size = file_size e\<rparr>)"

fun child_entries :: "dir_ent list \<Rightarrow> directory_entry list run" where
  "child_entries [] = returns []"
| "child_entries (e # es) = and_then (child_entry e) (\<lambda>x. and_then (child_entries es) (\<lambda>xs. returns (x # xs)))"

definition with_handle :: "usize \<Rightarrow> (fat_file \<Rightarrow> (fat_dev, 'a) fallible) \<Rightarrow> (fat_dev, 'a) fallible" where
  "with_handle hnd f d = (case bt_get (open_files d) hnd of
       Some x \<Rightarrow> f x d | None \<Rightarrow> throw InvalidHandle d)"

definition fenum :: "usize \<Rightarrow> (fat_dev, directory_entry list) fallible" where
  "fenum hnd = with_handle hnd (\<lambda>file d.
     if \<not> is_directory file then throw InvalidOp d
     else try_then (on_phys (dir_entries (fat_disks d) file)) (\<lambda>es d.
       and_then (child_entries es) (\<lambda>xs. succeed xs d)) d)"

definition fread :: "usize \<Rightarrow> usize \<Rightarrow> usize \<Rightarrow> (fat_dev, usize \<times> bytes) fallible" where
  "fread hnd off n = with_handle hnd (\<lambda>file d.
     if is_directory file then throw InvalidOp d
     else try_then (on_phys (file_read (fat_disks d) file off n)) (\<lambda>(va, buf) d.
       if length buf > n then panics else succeed (length buf, buf) d) d)"

definition fwrite :: "usize \<Rightarrow> usize \<Rightarrow> bytes \<Rightarrow> (fat_dev, usize) fallible" where
  "fwrite hnd off buff = throw NotSupported"

definition fexec :: "usize \<Rightarrow> usize \<Rightarrow> bytes \<Rightarrow> (fat_dev, usize \<times> bytes) fallible" where
  "fexec hnd func buff = throw NotSupported"

definition fclose :: "usize \<Rightarrow> (fat_dev, usize) fallible" where
  "fclose hnd d = (case bt_get (open_files d) hnd of
       Some f \<Rightarrow> succeed 0 (d\<lparr>open_files := bt_remove hnd (open_files d)\<rparr>)
     | None \<Rightarrow> throw InvalidHandle d)"

definition fat_open :: "bytes \<Rightarrow> nat \<Rightarrow> (fat_dev, usize \<times> directory_entry) fallible" where
  "fat_open full_path mode d = (case get_mntname_devpath full_path of
       Some (mname, fpath) \<Rightarrow>
         (case bt_get (fat_volumes d) mname of
            Some vol \<Rightarrow> fopen vol fpath mode d
          | None \<Rightarrow> throw InvalidDrive d)
     | None \<Rightarrow> throw InvalidPath d)"

definition fat_fops_handler :: "fat_dev file_ops" where
  "fat_fops_handler = \<lparr>op_open = fat_open, op_enum = fenum, op_read = fread, op_write = fwrite,
     op_exec = fexec, op_close = fclose\<rparr>"

end
