(* ===== verification/Fat_Read.thy ===== *)
theory Fat_Read
  imports Fat_Volume
begin

text \<open>
  What the FAT driver reads from a disk that serves the bytes \<open>D\<close>: table entries (\<open>fat_at\<close>),
  cluster chains (\<open>fat_links\<close>) and file contents (\<open>file_bytes\<close>).
\<close>

section \<open>Table entries\<close>

definition fat_base :: "fat_volume \<Rightarrow> nat" where
  "fat_base vol = (first_lba vol + fat_start_sector vol) * sector_size vol"

definition fat_at :: "fat_volume \<Rightarrow> (nat \<Rightarrow> u8) \<Rightarrow> nat \<Rightarrow> fat_entry" where
  "fat_at vol D i = (let b = fat_base vol in case kind vol of
       FAT12 \<Rightarrow> let a = b + i + i div 2 in
         fat_entry_from_value FAT12 (if even i then unat (D a) + 256 * (unat (D (a + 1)) mod 16)
                                     else unat (D a) div 16 + 16 * unat (D (a + 1)))
     | FAT16 \<Rightarrow> fat_entry_from_value FAT16 (unat (D (b + 2 * i)) + 256 * unat (D (b + 2 * i + 1)))
     | FAT32 \<Rightarrow> fat_entry_from_value FAT32 (le_nat (disk_data D (b + 4 * i) 4) mod 0x10000000)
     | UnknownFAT \<Rightarrow> InvalidEntry)"

text \<open>The entry of cluster \<open>i\<close> lies on the disk, and the volume has the disk's sector size.\<close>

definition fat_covers :: "fat_volume \<Rightarrow> disk \<Rightarrow> nat \<Rightarrow> bool" where
  "fat_covers vol d i \<longleftrightarrow> kind vol \<noteq> UnknownFAT \<and> sector_size vol = sector_bytes d \<and> sector_bytes d \<le> 2048
     \<and> i < 2 ^ 28 \<and> fat_base vol + 4 * i + 4 \<le> disk_bytes d"

lemma disk_data_simps [simp]:
  "length (disk_data D a n) = n" "i < n \<Longrightarrow> disk_data D a n ! i = D (a + i)"
  by (simp_all add: disk_data_def)

lemma fat_address_ok:
  assumes ss: "0 < sector_size vol" and b: "fat_base vol + off < 2 ^ 62" and off: "off < 2 ^ 32"
  obtains lba o' where "fat_address vol off = returns (LBA lba o')"
    "uadd (umul lba (sector_size vol)) o' = fat_base vol + off"
proof -
  let ?l = "first_lba vol + fat_start_sector vol" and ?ss = "sector_size vol"
  have "?l \<le> fat_base vol" unfolding fat_base_def using ss by (cases ?ss) auto
  then have l: "?l < 2 ^ 62" using b by linarith
  have "off div ?ss \<le> off" by simp
  then have e: "uadd (uadd (first_lba vol) (fat_start_sector vol)) (off div ?ss) = ?l + off div ?ss"
    using l le_less_trans [OF \<open>off div ?ss \<le> off\<close> off] by (simp add: uadd_exact)
  have m: "(?l + off div ?ss) * ?ss + off mod ?ss = fat_base vol + off"
    using div_mult_mod_eq [of off ?ss] by (simp add: fat_base_def distrib_right)
  then have "uadd (umul (?l + off div ?ss) ?ss) (off mod ?ss) = fat_base vol + off"
    using b by (simp add: umul_exact uadd_exact)
  moreover have "(if kind vol = FAT12 then off mod 2 ^ 32 else off) mod ?ss = off mod ?ss" using off by simp
  ultimately show thesis using that ss e by (simp add: fat_address_def)
qed

lemma load_fat_entry_ok:
  assumes ok: "bdio_ok D b" and h: "frame_held bm0 (b, bm)" and ne: "free_set bm0 \<noteq> {}"
    and c: "fat_covers vol (io_disk b) i"
  obtains b' bm' where "load_fat_entry vol i (b, bm) = returns (Inr (fat_at vol D i), b', bm')"
    "bdio_ok D b'" "frame_held bm0 (b', bm')" "io_disk b' = io_disk b"
proof -
  let ?d = "io_disk b"
  have d: "0 < sector_bytes ?d" "disk_bytes ?d < 2 ^ 62" using ok by (simp_all add: bdio_ok_def disk_serves_def)
  have g: "sector_size vol = sector_bytes ?d" "sector_bytes ?d \<le> 2048" "i < 2 ^ 28" "fat_base vol + 4 * i + 4 \<le> disk_bytes ?d"
    "kind vol \<noteq> UnknownFAT"
    using c by (simp_all add: fat_covers_def)
  have rd: "\<exists>lba o' v b' bm'. fat_address vol off = returns (LBA lba o')
      \<and> bdio_read (LBA lba o') n (b, bm) = returns (Inr (v, disk_data D (fat_base vol + off) n), b', bm')
      \<and> bdio_ok D b' \<and> frame_held bm0 (b', bm') \<and> io_disk b' = ?d"
    if o: "0 < n" "n \<le> 4" "off + n \<le> 4 * i + 4" for off n
  proof -
    have b: "fat_base vol + off < 2 ^ 62" "off < 2 ^ 32" using o g(3,4) d(2) by simp_all
    obtain lba o' where a: "fat_address vol off = returns (LBA lba o')" "uadd (umul lba (sector_size vol)) o' = fat_base vol + off"
      by (rule fat_address_ok [OF _ b]) (use d(1) g(1) in simp)
    have ad: "(case LBA lba o' of ByteAddr x \<Rightarrow> x | LBA lba off \<Rightarrow> uadd (umul lba (sector_bytes ?d)) off) = fat_base vol + off"
      using a(2) g(1) by simp
    have "(fat_base vol + off) mod sector_bytes ?d < 2048" using d(1) g(2) mod_less_divisor [of "sector_bytes ?d"] less_le_trans by blast
    then have "(fat_base vol + off) mod sector_bytes ?d + n \<le> 4096" using o(2) by simp
    moreover have "fat_base vol + off + n \<le> disk_bytes ?d" using o g(4) by simp
    moreover obtain v b' bm' where "bdio_read (LBA lba o') n (b, bm) = returns
        (if (fat_base vol + off) mod sector_bytes ?d + n \<le> 4096 then Inr (v, disk_data D (fat_base vol + off) n) else Inl NotIssued, b', bm')"
      "bdio_ok D b'" "frame_held bm0 (b', bm')" "io_disk b' = ?d"
      by (rule bdio_read_ok [OF ok h ne ad o(1)]) (rule calculation(2))
    ultimately show ?thesis using a(1) by auto
  qed
  show thesis
  proof (cases "kind vol")
    case FAT12
    have u: "uadd i (i div 2) = i + i div 2" using g(3) by (simp add: uadd_exact)
    have "\<exists>lba o' v b' bm'. fat_address vol (i + i div 2) = returns (LBA lba o')
      \<and> bdio_read (LBA lba o') 2 (b, bm) = returns (Inr (v, disk_data D (fat_base vol + (i + i div 2)) 2), b', bm')
      \<and> bdio_ok D b' \<and> frame_held bm0 (b', bm') \<and> io_disk b' = ?d"
      by (rule rd) auto
    then obtain lba o' v b' bm' where r: "fat_address vol (i + i div 2) = returns (LBA lba o')"
      "bdio_read (LBA lba o') 2 (b, bm) = returns (Inr (v, disk_data D (fat_base vol + (i + i div 2)) 2), b', bm')"
      "bdio_ok D b'" "frame_held bm0 (b', bm')" "io_disk b' = ?d" by blast
    have "load_fat_entry vol i (b, bm) = returns (Inr (fat_at vol D i), b', bm')"
    proof -
      have e: "(i AND 1 = 0) = even i" by (simp add: and_one_eq even_iff_mod_2_eq_zero)
      have n: "disk_data D a 2 ! 0 = D a" "disk_data D a 2 ! 1 = D (a + 1)" for a by simp_all
      show ?thesis
        unfolding load_fat_entry_def fat_at_def FAT12 fat_kind.case u e add.assoc Let_def r(1) and_then_simps
          try_then_simps(4) [where m = "bdio_read (LBA lba o') 2", OF r(2)] split n succeed_def ..
    qed
    then show thesis using that r(3-5) by blast
  next
    case FAT16
    have u: "umul i 2 = 2 * i" using g(3) by (simp add: umul_exact)
    have "\<exists>lba o' v b' bm'. fat_address vol (2 * i) = returns (LBA lba o')
      \<and> bdio_read (LBA lba o') 2 (b, bm) = returns (Inr (v, disk_data D (fat_base vol + 2 * i) 2), b', bm')
      \<and> bdio_ok D b' \<and> frame_held bm0 (b', bm') \<and> io_disk b' = ?d"
      by (rule rd) auto
    then obtain lba o' v b' bm' where r: "fat_address vol (2 * i) = returns (LBA lba o')"
      "bdio_read (LBA lba o') 2 (b, bm) = returns (Inr (v, disk_data D (fat_base vol + 2 * i) 2), b', bm')"
      "bdio_ok D b'" "frame_held bm0 (b', bm')" "io_disk b' = ?d" by blast
    have "field 0 2 (disk_data D a 2) = unat (D a) + 256 * unat (D (a + 1))" for a
      by (simp add: field_def le_nat_def disk_data_def numeral_2_eq_2)
    then have "load_fat_entry vol i (b, bm) = returns (Inr (fat_at vol D i), b', bm')"
      using r(1,2) by (simp add: load_fat_entry_def FAT16 u fat_at_def Let_def succeed_def)
    then show thesis using that r(3-5) by blast
  next
    case FAT32
    have u: "umul i 4 = 4 * i" using g(3) by (simp add: umul_exact)
    have "\<exists>lba o' v b' bm'. fat_address vol (4 * i) = returns (LBA lba o')
      \<and> bdio_read (LBA lba o') 4 (b, bm) = returns (Inr (v, disk_data D (fat_base vol + 4 * i) 4), b', bm')
      \<and> bdio_ok D b' \<and> frame_held bm0 (b', bm') \<and> io_disk b' = ?d"
      by (rule rd) auto
    then obtain lba o' v b' bm' where r: "fat_address vol (4 * i) = returns (LBA lba o')"
      "bdio_read (LBA lba o') 4 (b, bm) = returns (Inr (v, disk_data D (fat_base vol + 4 * i) 4), b', bm')"
      "bdio_ok D b'" "frame_held bm0 (b', bm')" "io_disk b' = ?d" by blast
    have "load_fat_entry vol i (b, bm) = returns (Inr (fat_at vol D i), b', bm')"
      using r(1,2) by (simp add: load_fat_entry_def FAT32 u fat_at_def Let_def succeed_def field_def)
    then show thesis using that r(3-5) by blast
  qed (use g(5) in simp)
qed

section \<open>Cluster chains\<close>

fun fat_links :: "(nat \<Rightarrow> fat_entry) \<Rightarrow> nat list \<Rightarrow> bool" where
  "fat_links T [] = False"
| "fat_links T [c] = (\<forall>n. T c \<noteq> InUse n)"
| "fat_links T (c # d # cs) = (T c = InUse d \<and> fat_links T (d # cs))"

lemma load_chain_ok:
  assumes "fat_links (fat_at vol D) (c # cs)" and "bdio_ok D b" "frame_held bm0 (b, bm)" "free_set bm0 \<noteq> {}"
    and "\<forall>x \<in> set (c # cs). fat_covers vol (io_disk b) x"
  shows "\<exists>b' bm'. load_chain vol c acc (b, bm) = returns (Inr (acc @ c # cs), b', bm') \<and> bdio_ok D b'
    \<and> frame_held bm0 (b', bm') \<and> io_disk b' = io_disk b"
  using assms
proof (induction cs arbitrary: c acc b bm)
  case Nil
  have cv: "fat_covers vol (io_disk b) c" using Nil.prems(5) by simp
  obtain b' bm' where l: "load_fat_entry vol c (b, bm) = returns (Inr (fat_at vol D c), b', bm')"
    "bdio_ok D b'" "frame_held bm0 (b', bm')" "io_disk b' = io_disk b"
    by (rule load_fat_entry_ok [OF Nil.prems(2-4) cv])
  have "load_chain vol c acc (b, bm) = returns (Inr (acc @ [c]), b', bm')"
    using l(1) Nil.prems(1) by (subst load_chain.simps) (simp add: succeed_def split: fat_entry.split)
  then show ?case using l(2-4) by blast
next
  case (Cons d cs)
  have cv: "fat_covers vol (io_disk b) c" using Cons.prems(5) by simp
  obtain b' bm' where l: "load_fat_entry vol c (b, bm) = returns (Inr (fat_at vol D c), b', bm')"
    "bdio_ok D b'" "frame_held bm0 (b', bm')" "io_disk b' = io_disk b"
    by (rule load_fat_entry_ok [OF Cons.prems(2-4) cv])
  have "load_chain vol c acc (b, bm) = load_chain vol d (acc @ [c]) (b', bm')"
    using l(1) Cons.prems(1) by (subst load_chain.simps) simp
  moreover have "\<exists>b'' bm''. load_chain vol d (acc @ [c]) (b', bm') = returns (Inr ((acc @ [c]) @ d # cs), b'', bm'')
    \<and> bdio_ok D b'' \<and> frame_held bm0 (b'', bm'') \<and> io_disk b'' = io_disk b'"
    by (rule Cons.IH) (use Cons.prems l in auto)
  ultimately show ?case using l(4) by auto
qed

text \<open>A set of clusters that is closed under the links has no end.\<close>

lemma load_chain_diverges:
  assumes "load_chain vol c acc s = Some r"
    and "\<And>x. x \<in> R \<Longrightarrow> \<exists>n \<in> R. fat_at vol D x = InUse n" "\<And>x. x \<in> R \<Longrightarrow> fat_covers vol d x"
    and "free_set bm0 \<noteq> {}"
    and "c \<in> R" "bdio_ok D (fst s)" "frame_held bm0 s" "io_disk (fst s) = d"
  shows False
  using assms
proof (induction rule: load_chain.raw_induct [rotated, consumes 1])
  case (1 lc vol c acc s r)
  obtain b bm where s: "s = (b, bm)" by (cases s) auto
  have b: "bdio_ok D b" "frame_held bm0 (b, bm)" "fat_covers vol (io_disk b) c"
    using 1(4)[OF 1(6)] 1(7-9) by (simp_all add: s)
  obtain b' bm' where l: "load_fat_entry vol c (b, bm) = returns (Inr (fat_at vol D c), b', bm')"
    "bdio_ok D b'" "frame_held bm0 (b', bm')" "io_disk b' = io_disk b"
    by (rule load_fat_entry_ok [OF b(1,2) 1(5) b(3)])
  obtain n where n: "n \<in> R" "fat_at vol D c = InUse n" using 1(3)[OF 1(6)] by blast
  have "lc vol n (acc @ [c]) (b', bm') = Some r" using 1(2) l(1) n(2) by (simp add: s)
  then show ?case using 1(1) [of vol n "acc @ [c]" "(b', bm')" r] 1(3-9) n(1) l(2-4) by (simp add: s)
qed


section \<open>File contents\<close>

definition cluster_addr :: "fat_file \<Rightarrow> nat \<Rightarrow> nat" where
  "cluster_addr f c = (file_first_lba f + (file_data_start f + (c - 2) * file_cluster_sectors f)) * file_sector_size f"

text \<open>The contents of the clusters \<open>cs\<close> one after the other.\<close>

definition cluster_bytes :: "fat_file \<Rightarrow> (nat \<Rightarrow> u8) \<Rightarrow> nat list \<Rightarrow> bytes" where
  "cluster_bytes f D cs = concat (map (\<lambda>c. disk_data D (cluster_addr f c) (file_cluster_size f)) cs)"

definition file_geom :: "fat_file \<Rightarrow> disk \<Rightarrow> nat list \<Rightarrow> bool" where
  "file_geom f d cs \<longleftrightarrow> au_map f = FATFile cs \<and> file_sector_size f = sector_bytes d
     \<and> file_cluster_size f = file_cluster_sectors f * file_sector_size f \<and> 0 < file_cluster_sectors f
     \<and> length cs * file_cluster_size f < 2 ^ 62 \<and> size_bytes f \<le> length cs * file_cluster_size f
     \<and> (\<forall>c \<in> set cs. 2 \<le> c \<and> c < 2 ^ 32 \<and> cluster_addr f c + file_cluster_size f \<le> disk_bytes d)"

lemma file_geomD:
  assumes "file_geom f d cs"
  shows "au_map f = FATFile cs" "file_sector_size f = sector_bytes d"
    "file_cluster_size f = file_cluster_sectors f * file_sector_size f" "0 < file_cluster_sectors f"
    "length cs * file_cluster_size f < 2 ^ 62" "size_bytes f \<le> length cs * file_cluster_size f"
    "c \<in> set cs \<Longrightarrow> 2 \<le> c" "c \<in> set cs \<Longrightarrow> c < 2 ^ 32"
    "c \<in> set cs \<Longrightarrow> cluster_addr f c + file_cluster_size f \<le> disk_bytes d"
  using assms unfolding file_geom_def by blast+

lemma concat_block:
  assumes "\<forall>x \<in> set xss. length x = m" "i < length xss" "k + n \<le> m"
  shows "take n (drop (i * m + k) (concat xss)) = take n (drop k (xss ! i))"
  using assms
proof (induction xss arbitrary: i)
  case (Cons x xss)
  show ?case
  proof (cases i)
    case 0
    then show ?thesis using Cons.prems by (simp add: take_append)
  next
    case (Suc j)
    have "drop (i * m + k) (concat (x # xss)) = drop (j * m + k) (concat xss)"
      using Suc Cons.prems(1) by (simp add: add.assoc)
    then show ?thesis using Cons.IH [of j] Cons.prems Suc by simp
  qed
qed simp

lemma first_sector_exact:
  assumes g: "file_geom f d cs" and c: "c \<in> set cs" and d: "0 < sector_bytes d" "disk_bytes d < 2 ^ 62"
  shows "umul (uadd (file_first_lba f) (first_sector_of_cluster f c)) (file_sector_size f) = cluster_addr f c"
proof -
  let ?s = "(c - 2) * file_cluster_sectors f" and ?ss = "file_sector_size f"
  have f: "?ss = sector_bytes d" "2 \<le> c" "c < 2 ^ 32" "cluster_addr f c + file_cluster_size f \<le> disk_bytes d"
    using file_geomD(2,7,8,9) [OF g] c by simp_all
  have "file_first_lba f + (file_data_start f + ?s) \<le> cluster_addr f c"
    unfolding cluster_addr_def using d(1) f(1) by (cases ?ss) auto
  then have b: "file_first_lba f + (file_data_start f + ?s) < 2 ^ 62" "cluster_addr f c < 2 ^ 62" using f(4) d(2) by linarith+
  have w: "wsub 32 c 2 = c - 2" using f(2) by (simp add: wsub_def)
  have "umul (c - 2) (file_cluster_sectors f) = ?s" using b(1) by (simp add: umul_exact)
  then have "first_sector_of_cluster f c = file_data_start f + ?s"
    using b(1) by (simp add: first_sector_of_cluster_def w uadd_exact)
  then show ?thesis using b by (simp add: uadd_exact umul_exact cluster_addr_def)
qed

text \<open>The bytes a read of \<open>n\<close> bytes at \<open>off\<close> delivers: up to the end of the file and of the
  cluster.\<close>

definition read_span :: "fat_file \<Rightarrow> nat \<Rightarrow> nat \<Rightarrow> nat" where
  "read_span f off n = min (if is_directory f then n else min n (size_bytes f - off))
     (file_cluster_size f - off mod file_cluster_size f)"

lemma read_length_exact:
  assumes "is_directory f \<or> off \<le> size_bytes f" "0 < file_cluster_size f" "file_cluster_size f < 2 ^ 62"
    "size_bytes f < 2 ^ 62" "off < 2 ^ 62" "n < 2 ^ 63"
  shows "read_length f off n = read_span f off n"
proof -
  have m: "off mod file_cluster_size f < file_cluster_size f" using assms(2) by simp
  have u: "uadd off n = off + n" using assms(5,6) by (simp add: uadd_exact)
  let ?len = "if \<not> is_directory f \<and> uadd off n > size_bytes f then usub (size_bytes f) off else n"
  have l: "?len = (if is_directory f then n else min n (size_bytes f - off))"
    using assms(1) unfolding u by (auto simp: usub_exact)
  have "?len \<le> n" unfolding l by auto
  then have "off mod file_cluster_size f + ?len < 2 ^ 62 + 2 ^ 63" using m assms(3,6) by linarith
  then have "off mod file_cluster_size f + ?len < usize_span" by (rule less_trans) simp
  then have "uadd (off mod file_cluster_size f) ?len = off mod file_cluster_size f + ?len" by (rule uadd_exact)
  then show ?thesis unfolding read_length_def Let_def read_span_def l using m by auto
qed

lemma read_int_ok:
  assumes g: "file_geom f d cs" and ok: "bdio_ok D b" and h: "frame_held bm0 (b, bm)" and ne: "free_set bm0 \<noteq> {}"
    and d: "io_disk b = d" and off: "off < length cs * file_cluster_size f" "is_directory f \<or> off < size_bytes f"
    and n: "0 < n" "n < 2 ^ 63" and fit: "off mod sector_bytes d + read_span f off n \<le> 4096"
  obtains v b' bm' where "read_int f off n (b, bm) = returns (Inr (v, take (read_span f off n) (drop off (cluster_bytes f D cs))), b', bm')"
    "frame_of v = frame_of (io_buffer b')" "io_buffer b' \<noteq> 0" "bdio_ok D b'" "frame_held bm0 (b', bm')" "io_disk b' = d"
proof -
  let ?cz = "file_cluster_size f" and ?len = "read_span f off n"
  have dd: "0 < sector_bytes d" "disk_bytes d < 2 ^ 62" using ok d by (simp_all add: bdio_ok_def disk_serves_def)
  note f = file_geomD(1-6) [OF g]
  have cz: "0 < ?cz" using f(2-4) dd(1) by simp
  let ?i = "off div ?cz" and ?k = "off mod ?cz"
  have i: "?i < length cs" using off(1) by (simp add: less_mult_imp_div_less)
  let ?c = "cs ! ?i"
  have c: "?c \<in> set cs" using i by simp
  have ca: "cluster_addr f ?c + ?cz \<le> disk_bytes d" by (rule file_geomD(9) [OF g c])
  have czb: "?cz < 2 ^ 62" using ca dd(2) by simp
  have k: "?k < ?cz" using cz by simp
  have len: "0 < ?len" "?k + ?len \<le> ?cz" using k n(1) off(2) by (auto simp: read_span_def)
  have rl: "read_length f off n = ?len"
    by (rule read_length_exact) (use off f(5,6) cz czb n(2) in auto)
  have cap: "file_capacity f = returns (length cs * ?cz)" using f(1,5) by (simp add: file_capacity_def umul_exact)
  have fs: "first_sector f ?i = returns (first_sector_of_cluster f ?c)" using f(1) i by (simp add: first_sector_def)
  have ad: "uadd (umul (uadd (file_first_lba f) (first_sector_of_cluster f ?c)) (file_sector_size f)) ?k = cluster_addr f ?c + ?k"
    unfolding first_sector_exact [OF g c dd] using ca k dd(2) by (simp add: uadd_exact)
  have run: "read_int f off n (b, bm) = bdio_read (ByteAddr (cluster_addr f ?c + ?k)) ?len (b, bm)"
    unfolding read_int_def cap using off(1) cz by (simp add: fs ad rl)
  have "sector_bytes d dvd cluster_addr f ?c" "sector_bytes d dvd ?cz" using f(2,3) by (simp_all add: cluster_addr_def)
  then have md: "(cluster_addr f ?c + ?k) mod sector_bytes d = off mod sector_bytes d"
    by (metis mod_add_left_eq mod_mod_cancel dvd_imp_mod_0 add_0)
  have ad': "(case ByteAddr (cluster_addr f ?c + ?k) of ByteAddr x \<Rightarrow> x | LBA lba off \<Rightarrow> uadd (umul lba (sector_bytes (io_disk b))) off)
      = cluster_addr f ?c + ?k" by simp
  have bnd: "cluster_addr f ?c + ?k + ?len \<le> disk_bytes (io_disk b)" using ca len(2) d by simp
  obtain v b' bm' where r: "bdio_read (ByteAddr (cluster_addr f ?c + ?k)) ?len (b, bm) = returns
      (if (cluster_addr f ?c + ?k) mod sector_bytes (io_disk b) + ?len \<le> 4096
       then Inr (v, disk_data D (cluster_addr f ?c + ?k) ?len) else Inl NotIssued, b', bm')"
    "frame_of v = frame_of (io_buffer b')" "io_buffer b' \<noteq> 0" "bdio_ok D b'" "frame_held bm0 (b', bm')" "io_disk b' = io_disk b"
    by (rule bdio_read_ok [OF ok h ne ad' len(1) bnd])
  have "take ?len (drop off (cluster_bytes f D cs)) = take ?len (drop ?k (disk_data D (cluster_addr f ?c) ?cz))"
  proof -
    have "take ?len (drop (?i * ?cz + ?k) (concat (map (\<lambda>c. disk_data D (cluster_addr f c) ?cz) cs)))
        = take ?len (drop ?k (map (\<lambda>c. disk_data D (cluster_addr f c) ?cz) cs ! ?i))"
      by (rule concat_block) (use i len(2) in auto)
    then show ?thesis using i by (simp add: cluster_bytes_def)
  qed
  also have "\<dots> = disk_data D (cluster_addr f ?c + ?k) ?len"
    using len(2) by (simp add: disk_data_def drop_map take_map add.assoc)
  finally have "read_int f off n (b, bm) = returns (Inr (v, take ?len (drop off (cluster_bytes f D cs))), b', bm')"
    using r(1) run fit md d by simp
  then show thesis using that r(2-6) d by blast
qed

end
