(* ===== verification/Fat_Props.thy ===== *)
theory Fat_Props
  imports Fat_Read Phys_Mem_Props
begin

text \<open>
  The properties of the FAT driver: reading files, loading cluster chains, matching short names,
  and scanning the partition table.
\<close>

section \<open>A sample disk\<close>

text \<open>Sixteen sectors; the table is in sector 1. The chain of cluster 2 is 2, 3; that of cluster 5
  is 5, 6, 5, 6 and so on.\<close>

definition demo_content :: "nat \<Rightarrow> u8" where
  "demo_content = (\<lambda>a. of_nat a)(516 := 3, 517 := 0, 518 := 0xFF, 519 := 0xFF, 522 := 6, 523 := 0, 524 := 5, 525 := 0)"

definition demo_disk :: disk where
  "demo_disk = \<lparr>sector_bytes = 512, sector_count = 16,
     issue_io = (\<lambda>lba n buf. map demo_content [lba * 512..<lba * 512 + 4096])\<rparr>"

definition demo_volume :: fat_volume where
  "demo_volume = \<lparr>kind = FAT16, label = ascii ''DEMO       '', first_lba = 0, last_lba = 15, disk_index = 0,
     sector_size = 512, cluster_sectors = 1, cluster_size = 512, volume_sectors = 16, fat_count = 1,
     fat_start_sector = 1, fat_sectors = 1, root_start_sector = 2, root_entry_count = 32, root_sectors = 2,
     root32_cluster0 = 0, data_start_sector = 4, data_sectors = 12, data_clusters = 12\<rparr>"

definition demo_dirent :: "nat \<Rightarrow> dir_ent" where
  "demo_dirent c = \<lparr>sfn_name = ascii ''KERNEL  ELF'', attr = 0x20, nt_res = 0, create_time_tenth = 0, create_time = 0,
     create_date = 0, access_date = 0, first_cluster_hi = 0, write_time = 0, write_date = 0,
     first_cluster_lo = c, file_size = 600\<rparr>"

lemma demo_disk_serves: "disk_serves demo_disk demo_content"
  by (simp add: disk_serves_def demo_disk_def disk_bytes_def)

section \<open>Operations with a buffer of their own\<close>

text \<open>The disk of index \<open>i\<close> serves \<open>D\<close>, and there is a frame for the buffer.\<close>

definition io_ready :: "disk list \<Rightarrow> usize \<Rightarrow> (nat \<Rightarrow> u8) \<Rightarrow> frames_bitmap \<Rightarrow> bool" where
  "io_ready disks i D bm \<longleftrightarrow> i < length disks \<and> disk_serves (disks ! i) D \<and> pmm_ok bm
     \<and> free_set bm \<noteq> {} \<and> 0 \<notin> free_set bm"

lemma demo_io_ready: "io_ready [demo_disk] 0 demo_content demo_bitmap"
  by (simp add: io_ready_def demo_disk_serves demo_ok demo_free_set)

definition same_frames :: "frames_bitmap \<Rightarrow> frames_bitmap \<Rightarrow> bool" where
  "same_frames bm bm' \<longleftrightarrow> pmm_ok bm' \<and> free_set bm' = free_set bm \<and> geometry bm' = geometry bm"

lemma with_bdio_ok:
  assumes r: "io_ready disks i D bm"
    and step: "\<And>b. bdio_ok D b \<Longrightarrow> frame_held bm (b, bm) \<Longrightarrow> io_disk b = disks ! i \<Longrightarrow>
      \<exists>x b' bm'. f (b, bm) = returns (x, b', bm') \<and> frame_held bm (b', bm') \<and> P x b'"
  shows "\<exists>x b' bm'. with_bdio disks i f bm = returns (x, bm') \<and> same_frames bm bm' \<and> P x b'
    \<and> (io_buffer b' \<noteq> 0 \<longrightarrow> frame_of (io_buffer b') \<in> free_set bm')"
proof -
  have g: "i < length disks" "disk_serves (disks ! i) D" "pmm_ok bm" "0 \<notin> free_set bm" using r by (simp_all add: io_ready_def)
  obtain b where b: "bdio_new disks i = Some b" "bdio_ok D b" "frame_held bm (b, bm)" "io_disk b = disks ! i"
    by (rule bdio_new_ok [OF g])
  obtain x b' bm' where f: "f (b, bm) = returns (x, b', bm')" "frame_held bm (b', bm')" "P x b'"
    using step [OF b(2-4)] by blast
  have "same_frames bm (bdio_drop (b', bm'))" using bdio_drop_ok [OF f(2) g(3)] by (simp add: same_frames_def)
  moreover have "io_buffer b' \<noteq> 0 \<longrightarrow> frame_of (io_buffer b') \<in> free_set bm"
    using f(2) by (simp add: frame_held_def)
  moreover have "with_bdio disks i f bm = returns (x, bdio_drop (b', bm'))" using b(1) f(1) by (simp add: with_bdio_def)
  ultimately show ?thesis using f(3) by (auto simp: same_frames_def)
qed

section \<open>Short names\<close>

lemma sfn_run:
  assumes "\<And>k. k < n \<Longrightarrow> to_ascii_uppercase (name ! (i + k)) =
      (if j + k \<ge> length s then SPACE else to_ascii_uppercase (s ! (j + k)))" "i + n \<le> 11"
  shows "sfn_match_from name s i j = sfn_match_from name s (i + n) (j + n)"
  using assms
proof (induction n arbitrary: i j)
  case (Suc n)
  have "to_ascii_uppercase (name ! i) = (if length s \<le> j then SPACE else to_ascii_uppercase (s ! j))"
    using Suc.prems(1) [of 0] by simp
  then have "sfn_match_from name s i j = sfn_match_from name s (i + 1) (j + 1)"
    using Suc.prems(2) by (subst sfn_match_from.simps) (simp add: Let_def)
  also have "\<dots> = sfn_match_from name s (i + 1 + n) (j + 1 + n)"
    by (rule Suc.IH) (use Suc.prems(1) [of "Suc k" for k] Suc.prems(2) in auto)
  finally show ?case by simp
qed simp

text \<open>The first difference decides, unless a blank meets the dot.\<close>

lemma sfn_mismatch:
  assumes "i + n < 11" "\<And>k. k < n \<Longrightarrow> to_ascii_uppercase (name ! (i + k)) =
      (if j + k \<ge> length s then SPACE else to_ascii_uppercase (s ! (j + k)))"
    and "to_ascii_uppercase (name ! (i + n)) \<noteq> (if j + n \<ge> length s then SPACE else to_ascii_uppercase (s ! (j + n)))"
    and "\<not> (to_ascii_uppercase (name ! (i + n)) = SPACE \<and> j + n < length s \<and> to_ascii_uppercase (s ! (j + n)) = DOT)"
  shows "\<not> sfn_match_from name s i j"
proof -
  have "sfn_match_from name s i j = sfn_match_from name s (i + n) (j + n)"
    by (rule sfn_run) (use assms(1,2) in auto)
  also have "\<dots> = False" using assms(1,3,4) by (subst sfn_match_from.simps) (auto simp: Let_def)
  finally show ?thesis by simp
qed

text \<open>The blanks between base and extension are skipped at the dot of the given name.\<close>

lemma sfn_blanks:
  assumes "\<And>k. k < n \<Longrightarrow> name ! (i + k) = SPACE" "i + n < 11" "0 < n" "name ! (i + n) \<noteq> SPACE"
    "j < length s" "s ! j = DOT"
  shows "sfn_match_from name s i j = sfn_match_from name s (i + n) (j + 1)"
  using assms
proof (induction n arbitrary: i)
  case (Suc n)
  have i: "name ! i = SPACE" using Suc.prems(1) [of 0] by simp
  have u: "to_ascii_uppercase SPACE = SPACE" "to_ascii_uppercase DOT = DOT" "SPACE \<noteq> DOT"
    by (simp_all add: to_ascii_uppercase_def)
  have step: "sfn_match_from name s i j = sfn_match_from name s (i + 1) (if i < 10 \<and> name ! (i + 1) \<noteq> SPACE then j + 1 else j)"
    using Suc.prems(2,5,6) i u by (subst sfn_match_from.simps) (simp add: Let_def)
  show ?case
  proof (cases n)
    case 0
    then show ?thesis using step Suc.prems(2,4) by simp
  next
    case (Suc m)
    have "name ! (i + 1) = SPACE" using Suc.prems(1) [of 1] Suc by simp
    then have "sfn_match_from name s i j = sfn_match_from name s (i + 1) j" using step by simp
    also have "\<dots> = sfn_match_from name s (i + 1 + n) (j + 1)"
      by (rule Suc.IH) (use Suc.prems(1) [of "Suc k" for k] Suc.prems(2-6) Suc in auto)
    finally show ?thesis by simp
  qed
qed simp


text \<open>The byte of the given name at position \<open>j\<close>, blanks after its end.\<close>

abbreviation given :: "bytes \<Rightarrow> nat \<Rightarrow> u8" where
  "given s j \<equiv> if j \<ge> length s then SPACE else to_ascii_uppercase (s ! j)"

lemma upper_simps [simp]: "to_ascii_uppercase SPACE = SPACE" "to_ascii_uppercase DOT = DOT"
  "to_ascii_uppercase c = SPACE \<longleftrightarrow> c = SPACE" "to_ascii_uppercase c = DOT \<longleftrightarrow> c = DOT"
  "SPACE = to_ascii_uppercase c \<longleftrightarrow> c = SPACE" "DOT = to_ascii_uppercase c \<longleftrightarrow> c = DOT"
proof -
  have "to_ascii_uppercase c \<noteq> d" if "0x61 \<le> c" "c \<le> 0x7A" "d = 0x20 \<or> d = 0x2E" for d
  proof
    assume "to_ascii_uppercase c = d"
    then have "c = d + 0x20" using that(1,2) by (auto simp: to_ascii_uppercase_def)
    then show False using that by auto
  qed
  then show "to_ascii_uppercase SPACE = SPACE" "to_ascii_uppercase DOT = DOT"
    "to_ascii_uppercase c = SPACE \<longleftrightarrow> c = SPACE" "to_ascii_uppercase c = DOT \<longleftrightarrow> c = DOT"
    "SPACE = to_ascii_uppercase c \<longleftrightarrow> c = SPACE" "DOT = to_ascii_uppercase c \<longleftrightarrow> c = DOT"
    by (auto simp: to_ascii_uppercase_def split: if_splits)
qed

lemma sfn_first_mismatch:
  assumes ex: "k < n" "to_ascii_uppercase (name ! (i + k)) \<noteq> given s (j + k)" and n: "i + n \<le> 11"
    and no_dot: "\<And>k. k < n \<Longrightarrow> \<forall>m < k. to_ascii_uppercase (name ! (i + m)) = given s (j + m) \<Longrightarrow>
      name ! (i + k) = SPACE \<Longrightarrow> j + k < length s \<Longrightarrow> s ! (j + k) \<noteq> DOT"
  shows "\<not> sfn_match_from name s i j"
proof -
  let ?P = "\<lambda>k. to_ascii_uppercase (name ! (i + k)) \<noteq> given s (j + k)"
  obtain m where m: "?P m" "\<forall>l < m. \<not> ?P l" using ex(2) exists_least_iff [of ?P] by blast
  have "m < n" using m(2) ex by (meson leI le_less_trans)
  show ?thesis
  proof (rule sfn_mismatch)
    show "i + m < 11" using \<open>m < n\<close> n by simp
    show "\<not> (to_ascii_uppercase (name ! (i + m)) = SPACE \<and> j + m < length s \<and> to_ascii_uppercase (s ! (j + m)) = DOT)"
      using no_dot [OF \<open>m < n\<close>] m(2) by auto
  qed (use m in blast)+
qed

definition blank_padded :: "nat \<Rightarrow> bytes \<Rightarrow> bytes" where
  "blank_padded n w = w @ replicate (n - length w) SPACE"

definition name_chars :: "bytes \<Rightarrow> bool" where
  "name_chars w \<longleftrightarrow> SPACE \<notin> set w \<and> DOT \<notin> set w"

lemma name_chars_append [simp]: "name_chars (v @ w) \<longleftrightarrow> name_chars v \<and> name_chars w"
  by (auto simp: name_chars_def)

lemma name_chars_nth: "name_chars w \<Longrightarrow> i < length w \<Longrightarrow> w ! i \<noteq> SPACE \<and> w ! i \<noteq> DOT"
  by (auto simp: name_chars_def dest: nth_mem)

lemma blank_padded_nth: "i < n \<Longrightarrow> blank_padded n w ! i = (if i < length w then w ! i else SPACE)"
  by (simp add: blank_padded_def nth_append)

lemma length_blank_padded [simp]: "length w \<le> n \<Longrightarrow> length (blank_padded n w) = n"
  by (simp add: blank_padded_def)

lemma blank_padded_eq_iff:
  assumes "name_chars v" "name_chars w" "length v \<le> n" "length w \<le> n"
  shows "map to_ascii_uppercase v = map to_ascii_uppercase w \<longleftrightarrow>
    (\<forall>k < n. to_ascii_uppercase (blank_padded n v ! k) = given w k)"
proof
  assume e: "map to_ascii_uppercase v = map to_ascii_uppercase w"
  then have "length v = length w" by (metis length_map)
  moreover have "to_ascii_uppercase (v ! k) = to_ascii_uppercase (w ! k)" if "k < length v" for k
    using e that by (metis nth_map length_map)
  ultimately show "\<forall>k < n. to_ascii_uppercase (blank_padded n v ! k) = given w k" by (simp add: blank_padded_nth)
next
  assume a: "\<forall>k < n. to_ascii_uppercase (blank_padded n v ! k) = given w k"
  have "\<not> length v < length w"
  proof
    assume l: "length v < length w"
    then have "length v < n" using assms(4) by simp
    then have "to_ascii_uppercase (w ! length v) = SPACE" using spec [OF a, of "length v"] l by (simp add: blank_padded_nth)
    then show False using name_chars_nth [OF assms(2) l] by simp
  qed
  moreover have "\<not> length w < length v"
  proof
    assume l: "length w < length v"
    then have "length w < n" using assms(3) by simp
    then have "to_ascii_uppercase (v ! length w) = SPACE" using spec [OF a, of "length w"] l by (simp add: blank_padded_nth)
    then show False using name_chars_nth [OF assms(1) l] by simp
  qed
  ultimately have l: "length v = length w" by simp
  have "to_ascii_uppercase (v ! i) = to_ascii_uppercase (w ! i)" if "i < length w" for i
    using spec [OF a, of i] that l assms(4) by (simp add: blank_padded_nth)
  then show "map to_ascii_uppercase v = map to_ascii_uppercase w"
    by (intro nth_equalityI) (simp_all add: l)
qed



definition short_name :: "bytes \<Rightarrow> bytes \<Rightarrow> bytes" where
  "short_name b x = blank_padded 8 b @ blank_padded 3 x"

definition name_parts :: "bytes \<Rightarrow> bytes \<Rightarrow> bool" where
  "name_parts b x \<longleftrightarrow> length b \<le> 8 \<and> length x \<le> 3 \<and> name_chars b \<and> name_chars x"

abbreviation same_upper :: "bytes \<Rightarrow> bytes \<Rightarrow> bool" where
  "same_upper v w \<equiv> map to_ascii_uppercase v = map to_ascii_uppercase w"

lemma same_upper_nth: "same_upper v w \<Longrightarrow> k < length v \<Longrightarrow> to_ascii_uppercase (v ! k) = to_ascii_uppercase (w ! k)"
  by (metis nth_map length_map)

lemma short_name_base:
  "name_parts b x \<Longrightarrow> k < 8 \<Longrightarrow> short_name b x ! k = (if k < length b then b ! k else SPACE)"
  by (simp add: short_name_def name_parts_def nth_append blank_padded_nth)

lemma short_name_ext: "name_parts b x \<Longrightarrow> short_name b x ! (8 + k) = blank_padded 3 x ! k"
  by (simp add: short_name_def name_parts_def nth_append)

lemma short_name_ext0:
  assumes "name_parts b x" "x \<noteq> []"
  shows "short_name b x ! 8 \<noteq> SPACE \<and> short_name b x ! 8 \<noteq> DOT"
  using assms short_name_ext [OF assms(1), of 0] name_chars_nth [of x 0] by (simp add: name_parts_def blank_padded_nth)

text \<open>Behind the dot, the extensions decide.\<close>

lemma sfn_extension:
  assumes p: "name_parts b x" "name_parts b' x'"
  shows "sfn_match_from (short_name b x) (b' @ DOT # x') 8 (length b' + 1) \<longleftrightarrow> same_upper x x'"
proof -
  let ?s = "b' @ DOT # x'" and ?n = "short_name b x"
  have s2: "given ?s (length b' + 1 + k) = given x' k" for k by (simp add: nth_append)
  have iff: "same_upper x x' \<longleftrightarrow> (\<forall>k < 3. to_ascii_uppercase (blank_padded 3 x ! k) = given x' k)"
    by (rule blank_padded_eq_iff) (use p in \<open>simp_all add: name_parts_def\<close>)
  show ?thesis
  proof (cases "same_upper x x'")
    case True
    then have "\<forall>k < 3. to_ascii_uppercase (blank_padded 3 x ! k) = given x' k" using iff by simp
    then have "sfn_match_from ?n ?s 8 (length b' + 1) = sfn_match_from ?n ?s (8 + 3) (length b' + 1 + 3)"
      by (intro sfn_run) (unfold short_name_ext [OF p(1)] s2, blast, simp)
    then show ?thesis using True by (simp add: sfn_match_from.simps)
  next
    case ne: False
    then obtain k where k: "k < 3" "to_ascii_uppercase (blank_padded 3 x ! k) \<noteq> given x' k" using iff by blast
    have "\<not> sfn_match_from ?n ?s 8 (length b' + 1)"
    proof (rule sfn_first_mismatch [OF k(1)])
      show "to_ascii_uppercase (?n ! (8 + k)) \<noteq> given ?s (length b' + 1 + k)"
        using k(2) unfolding short_name_ext [OF p(1)] s2 .
    next
      fix m assume "length b' + 1 + m < length ?s"
      then show "?s ! (length b' + 1 + m) \<noteq> DOT"
        using name_chars_nth [of x' m] p(2) by (simp add: nth_append name_parts_def)
    qed simp
    then show ?thesis using ne by simp
  qed
qed

text \<open>Different base names are told apart before the dot.\<close>

lemma base_difference:
  assumes p: "name_parts b x" "name_parts b' x'" and ne: "\<not> same_upper b b'"
  shows "\<exists>k \<le> min (length b) (length b'). to_ascii_uppercase (short_name b x ! k) \<noteq> given (b' @ DOT # x') k"
proof (rule ccontr)
  let ?u = to_ascii_uppercase
  have len: "length b \<le> 8" "length b' \<le> 8" using p by (simp_all add: name_parts_def)
  assume "\<not> ?thesis"
  then have a: "k \<le> min (length b) (length b') \<Longrightarrow> ?u (short_name b x ! k) = given (b' @ DOT # x') k" for k by blast
  have "\<not> length b < length b'"
  proof
    assume l: "length b < length b'"
    then have "SPACE = ?u (b' ! length b)"
      using a [of "length b"] short_name_base [OF p(1), of "length b"] len by (simp add: nth_append)
    then show False using name_chars_nth [OF _ l] p(2) by (simp add: name_parts_def)
  qed
  moreover have "\<not> length b' < length b"
  proof
    assume l: "length b' < length b"
    then have "?u (b ! length b') = DOT"
      using a [of "length b'"] short_name_base [OF p(1), of "length b'"] len by simp
    then show False using name_chars_nth [OF _ l] p(1) by (simp add: name_parts_def)
  qed
  ultimately have l: "length b = length b'" by simp
  have "same_upper b b'"
  proof (rule nth_equalityI)
    fix k assume "k < length (map ?u b)"
    then show "map ?u b ! k = map ?u b' ! k"
      using a [of k] short_name_base [OF p(1), of k] l len by (simp add: nth_append)
  qed (simp add: l)
  then show False using ne by simp
qed

lemma sfn_base_differs:
  assumes p: "name_parts b x" "name_parts b' x'" and x: "x \<noteq> []" and ne: "\<not> same_upper b b'"
  shows "\<not> sfn_match_from (short_name b x) (b' @ DOT # x') 0 0"
proof -
  let ?n = "short_name b x" and ?s = "b' @ DOT # x'" and ?u = to_ascii_uppercase and ?k = "min (length b) (length b')"
  have len: "length b \<le> 8" "length b' \<le> 8" using p by (simp_all add: name_parts_def)
  obtain k where k: "k \<le> ?k" "?u (?n ! (0 + k)) \<noteq> given ?s (0 + k)" using base_difference [OF p ne] by auto
  show ?thesis
  proof (rule sfn_first_mismatch [where n = "Suc ?k", OF _ k(2)])
    fix m assume m: "m < Suc ?k" "\<forall>l < m. ?u (?n ! (0 + l)) = given ?s (0 + l)" "?n ! (0 + m) = SPACE"
    have b: "m = length b"
      using m(1,3) short_name_base [OF p(1), of m] short_name_ext0 [OF p(1) x] name_chars_nth [of b m] p(1) len(1)
      by (cases "m = 8") (auto simp: name_parts_def split: if_splits)
    show "?s ! (0 + m) \<noteq> DOT"
    proof
      assume "?s ! (0 + m) = DOT"
      then have b': "m = length b'"
        using m(1) name_chars_nth [of b' m] p(2) by (auto simp: nth_append less_Suc_eq_le name_parts_def split: if_splits)
      have "same_upper b b'"
      proof (rule nth_equalityI)
        fix l assume "l < length (map ?u b)"
        then show "map ?u b ! l = map ?u b' ! l"
          using spec [OF m(2), of l] short_name_base [OF p(1), of l] b b' len(1) by (simp add: nth_append)
      qed (use b b' in simp)
      then show False using ne by simp
    qed
  qed (use k len in auto)
qed

text \<open>\<^verbatim>\<open>sfn_match\<close>: an entry with base name \<open>b\<close> and extension \<open>x\<close>, padded with blanks to 8 and
  3 bytes, matches the dotted name \<open>b'.x'\<close> exactly when both parts agree without regard to
  case, provided that the base has fewer than eight characters. An entry whose base fills its
  eight bytes matches no dotted name: there is no blank to skip at the dot.\<close>

theorem short_name_match:
  assumes "sfn_name e = short_name b x" "name_parts b x" "name_parts b' x'" "x \<noteq> []"
  shows "sfn_match e (b' @ DOT # x') \<longleftrightarrow> length b < 8 \<and> same_upper b b' \<and> same_upper x x'"
proof (cases "same_upper b b'")
  case eq: True
  let ?n = "short_name b x" and ?s = "b' @ DOT # x'"
  note base = short_name_base [OF assms(2)] and ext0 = short_name_ext0 [OF assms(2,4)]
  have lb: "length b = length b'" using eq by (metis length_map)
  have len: "length b \<le> 8" using assms(2) by (simp add: name_parts_def)
  have pre: "to_ascii_uppercase (?n ! (0 + k)) = given ?s (0 + k)" if "k < length b" for k
    using same_upper_nth [OF eq that] that lb base [of k] len by (simp add: nth_append)
  show ?thesis
  proof (cases "length b = 8")
    case True
    have "\<not> sfn_match_from ?n ?s 0 0"
      by (rule sfn_mismatch [where n = 8]) (use pre True lb ext0 in \<open>auto simp: nth_append\<close>)
    then show ?thesis using True assms(1) by (simp add: sfn_match_def)
  next
    case False
    then have lt: "length b < 8" using len by simp
    have "sfn_match_from ?n ?s 0 0 = sfn_match_from ?n ?s (0 + length b) (0 + length b)"
      by (rule sfn_run [OF pre]) (use lt in simp_all)
    also have "\<dots> = sfn_match_from ?n ?s (length b + (8 - length b)) (length b' + 1)"
      unfolding add_0 lb [symmetric] by (rule sfn_blanks) (use lt base ext0 lb in auto)
    also have "length b + (8 - length b) = 8" using lt by simp
    finally show ?thesis using eq lt sfn_extension [OF assms(2,3)] assms(1) by (simp add: sfn_match_def)
  qed
next
  case False
  then show ?thesis using sfn_base_differs [OF assms(2,3,4)] assms(1) by (simp add: sfn_match_def)
qed


definition demo_entry :: "string \<Rightarrow> string \<Rightarrow> bytes \<Rightarrow> dir_ent" where
  "demo_entry b x rest = dir_ent_from (short_name (ascii b) (ascii x) @ rest)"

lemma short_name_match_witness:
  "sfn_match (demo_entry ''KERNEL'' ''ELF'' (replicate 21 0)) (ascii ''kernel'' @ DOT # ascii ''elf'')
   \<and> \<not> sfn_match (demo_entry ''TEXTEDIT'' ''BOX'' (replicate 21 0)) (ascii ''textedit'' @ DOT # ascii ''box'')"
proof -
  have n: "sfn_name (demo_entry b x r) = short_name (ascii b) (ascii x)" if "length b \<le> 8" "length x \<le> 3" for b x r
    using that by (simp add: demo_entry_def dir_ent_from_def short_name_def ascii_def)
  have p: "name_parts (ascii ''KERNEL'') (ascii ''ELF'')" "name_parts (ascii ''kernel'') (ascii ''elf'')"
    "name_parts (ascii ''TEXTEDIT'') (ascii ''BOX'')" "name_parts (ascii ''textedit'') (ascii ''box'')"
    by (simp_all add: name_parts_def name_chars_def ascii_def of_char_def)
  show ?thesis
    using short_name_match [OF n [of "''KERNEL''" "''ELF''"] p(1,2)] short_name_match [OF n [of "''TEXTEDIT''" "''BOX''"] p(3,4)]
    by (simp add: ascii_def of_char_def to_ascii_uppercase_def)
qed

section \<open>Reading files\<close>

lemma file_read_slice:
  assumes io: "io_ready disks (file_disk f) D bm" and g: "file_geom f (disks ! file_disk f) cs"
    and off: "off < length cs * file_cluster_size f" "is_directory f \<or> off < size_bytes f"
    and n: "0 < n" "n < 2 ^ 63" and fit: "off mod file_sector_size f + read_span f off n \<le> 4096"
  shows "\<exists>va bm'. file_read disks f off n bm
      = returns (Inr (va, take (read_span f off n) (drop off (cluster_bytes f D cs))), bm')
    \<and> same_frames bm bm' \<and> frame_of va \<in> free_set bm'"
proof -
  let ?d = "disks ! file_disk f" and ?v = "take (read_span f off n) (drop off (cluster_bytes f D cs))"
  have ne: "free_set bm \<noteq> {}" using io by (simp add: io_ready_def)
  have ft: "off mod sector_bytes ?d + read_span f off n \<le> 4096" using fit file_geomD(2) [OF g] by simp
  have "\<exists>x (b' :: bdio) bm'. with_bdio disks (file_disk f) (read_int f off n) bm = returns (x, bm') \<and> same_frames bm bm'
    \<and> (\<exists>va. x = Inr (va, ?v) \<and> frame_of va = frame_of (io_buffer b') \<and> io_buffer b' \<noteq> 0)
    \<and> (io_buffer b' \<noteq> 0 \<longrightarrow> frame_of (io_buffer b') \<in> free_set bm')"
  proof (rule with_bdio_ok [where P = "\<lambda>x b'. \<exists>va. x = Inr (va, ?v) \<and> frame_of va = frame_of (io_buffer b') \<and> io_buffer b' \<noteq> 0", OF io])
    fix b assume b: "bdio_ok D b" "frame_held bm (b, bm)" "io_disk b = ?d"
    obtain v b' bm' where "read_int f off n (b, bm) = returns (Inr (v, ?v), b', bm')"
      "frame_of v = frame_of (io_buffer b')" "io_buffer b' \<noteq> 0" "frame_held bm (b', bm')"
      by (rule read_int_ok [OF g b(1,2) ne b(3) off n ft])
    then show "\<exists>x b' bm'. read_int f off n (b, bm) = returns (x, b', bm') \<and> frame_held bm (b', bm')
      \<and> (\<exists>va. x = Inr (va, ?v) \<and> frame_of va = frame_of (io_buffer b') \<and> io_buffer b' \<noteq> 0)" by blast
  qed
  then show ?thesis unfolding file_read_def by metis
qed

text \<open>C27. \<^verbatim>\<open>FATFile::read\<close> delivers the contents of a file (or directory) that is stored as a cluster
  chain, as long as the bytes in question, counted from the beginning of their first sector, fit the
  driver's buffer of 4096 bytes (longer reads, possible only in clusters of more than 4096 bytes, are
  refused with NotIssued by the buffered disk): below the end of the file it returns exactly the bytes
  of the file's clusters from the offset on, up to the end of the file and of the cluster, and the
  memory manager has the same free frames afterwards. The buffer it returns, however, lies in a frame
  that is free again: it was dropped with the local \<^verbatim>\<open>BufferedDiskIO\<close>.\<close>

theorem file_read_correct:
  assumes io: "io_ready disks (file_disk f) D bm" and g: "file_geom f (disks ! file_disk f) cs"
    and off: "off < length cs * file_cluster_size f" "is_directory f \<or> off < size_bytes f"
    and n: "0 < n" "n < 2 ^ 63" and fit: "off mod file_sector_size f + read_span f off n \<le> 4096"
  shows "\<exists>va bm'. file_read disks f off n bm
      = returns (Inr (va, take (read_span f off n) (drop off (cluster_bytes f D cs))), bm')
    \<and> same_frames bm bm' \<and> frame_of va \<in> free_set bm'"
  using assms by (rule file_read_slice)

lemma file_read_correct_witness:
  "\<exists>va bm'. file_read [demo_disk] (make_file demo_volume (demo_dirent 2) (FATFile [2, 3])) 508 10 demo_bitmap
     = returns (Inr (va, [0xFC, 0xFD, 0xFE, 0xFF]), bm') \<and> same_frames demo_bitmap bm' \<and> frame_of va \<in> {1, 2, 3}"
proof -
  let ?f = "make_file demo_volume (demo_dirent 2) (FATFile [2, 3])"
  note d = make_file_def demo_volume_def demo_dirent_def demo_disk_def
  have g: "file_geom ?f ([demo_disk] ! file_disk ?f) [2, 3]"
    by (simp add: file_geom_def d size_bytes_def cluster_addr_def disk_bytes_def)
  have s: "read_span ?f 508 10 = 4" by (simp add: read_span_def d is_directory_def size_bytes_def ATTR_DIRECTORY_def)
  have c: "take 4 (drop 508 (cluster_bytes ?f demo_content [2, 3])) = [0xFC, 0xFD, 0xFE, 0xFF]"
    by (simp add: cluster_bytes_def cluster_addr_def d disk_data_def take_map drop_map upt_rec demo_content_def)
  have i: "io_ready [demo_disk] (file_disk ?f) demo_content demo_bitmap" using demo_io_ready by (simp add: d)
  have h: "508 < length [2, 3 :: nat] * file_cluster_size ?f" "is_directory ?f \<or> 508 < size_bytes ?f"
    "508 mod file_sector_size ?f + read_span ?f 508 10 \<le> 4096"
    unfolding s by (simp_all add: d size_bytes_def)
  show ?thesis
    using file_read_correct [OF i g h(1,2) _ _ h(3)] unfolding s c
    by (auto simp: same_frames_def demo_free_set)
qed

section \<open>Loading the clusters of a file\<close>

lemma from_dir_entry_chain:
  assumes io: "io_ready disks (disk_index vol) D bm" and chain: "fat_links (fat_at vol D) (first_cluster e # cs)"
    and cov: "\<forall>c \<in> set (first_cluster e # cs). fat_covers vol (disks ! disk_index vol) c" and nz: "first_cluster e \<noteq> 0"
  shows "\<exists>bm'. from_dir_entry disks vol e bm = returns (Inr (make_file vol e (FATFile (first_cluster e # cs))), bm')
    \<and> same_frames bm bm'"
proof -
  have ne: "free_set bm \<noteq> {}" using io by (simp add: io_ready_def)
  have "\<exists>x (b' :: bdio) bm'. with_bdio disks (disk_index vol) (load_chain vol (first_cluster e) []) bm = returns (x, bm')
    \<and> same_frames bm bm' \<and> x = Inr (first_cluster e # cs) \<and> (io_buffer b' \<noteq> 0 \<longrightarrow> frame_of (io_buffer b') \<in> free_set bm')"
  proof (rule with_bdio_ok [where P = "\<lambda>x b'. x = Inr (first_cluster e # cs)", OF io])
    fix b assume b: "bdio_ok D b" "frame_held bm (b, bm)" "io_disk b = disks ! disk_index vol"
    show "\<exists>x b' bm'. load_chain vol (first_cluster e) [] (b, bm) = returns (x, b', bm') \<and> frame_held bm (b', bm')
      \<and> x = Inr (first_cluster e # cs)"
      using load_chain_ok [OF chain b(1,2) ne, of "[]"] cov b(3) by auto
  qed
  then show ?thesis using nz by (auto simp: from_dir_entry_def succeed_def)
qed

text \<open>C28. \<^verbatim>\<open>FATFile::from_dir_entry\<close> caches the whole chain of clusters that the allocation table
  links from the entry's first cluster, without taking memory frames.\<close>

theorem cluster_chain_loaded:
  assumes io: "io_ready disks (disk_index vol) D bm" and chain: "fat_links (fat_at vol D) (first_cluster e # cs)"
    and cov: "\<forall>c \<in> set (first_cluster e # cs). fat_covers vol (disks ! disk_index vol) c" and nz: "first_cluster e \<noteq> 0"
  shows "\<exists>bm'. from_dir_entry disks vol e bm = returns (Inr (make_file vol e (FATFile (first_cluster e # cs))), bm')
    \<and> same_frames bm bm'"
  using assms by (rule from_dir_entry_chain)

lemma cluster_chain_loaded_witness:
  "\<exists>bm'. from_dir_entry [demo_disk] demo_volume (demo_dirent 2) demo_bitmap
     = returns (Inr (make_file demo_volume (demo_dirent 2) (FATFile [2, 3])), bm') \<and> same_frames demo_bitmap bm'"
proof -
  note d = demo_volume_def demo_dirent_def first_cluster_def
  have i: "io_ready [demo_disk] (disk_index demo_volume) demo_content demo_bitmap" using demo_io_ready by (simp add: d)
  have l: "fat_links (fat_at demo_volume demo_content) (first_cluster (demo_dirent 2) # [3])"
    by (simp add: d fat_at_def fat_base_def demo_content_def)
  have c: "\<forall>c \<in> set (first_cluster (demo_dirent 2) # [3]). fat_covers demo_volume ([demo_disk] ! disk_index demo_volume) c"
    by (simp add: d fat_covers_def fat_base_def demo_disk_def disk_bytes_def)
  have f: "first_cluster (demo_dirent 2) = 2" by (simp add: d)
  show ?thesis using cluster_chain_loaded [OF i l c] unfolding f by simp
qed

text \<open>A damaged table hangs the kernel: if the links never leave a set \<open>R\<close> of clusters, as
  in a cycle, \<^verbatim>\<open>from_dir_entry\<close> on an entry that starts in \<open>R\<close> never returns (and its list of
  clusters grows without bound).\<close>

theorem cyclic_chain_hangs:
  assumes io: "io_ready disks (disk_index vol) D bm" and first: "first_cluster e \<in> R" "first_cluster e \<noteq> 0"
    and closed: "\<forall>x \<in> R. fat_covers vol (disks ! disk_index vol) x \<and> (\<exists>n \<in> R. fat_at vol D x = InUse n)"
  shows "from_dir_entry disks vol e bm = None"
proof -
  have g: "disk_index vol < length disks" "disk_serves (disks ! disk_index vol) D" "pmm_ok bm" "0 \<notin> free_set bm" "free_set bm \<noteq> {}"
    using io by (simp_all add: io_ready_def)
  obtain b where b: "bdio_new disks (disk_index vol) = Some b" "bdio_ok D b" "frame_held bm (b, bm)" "io_disk b = disks ! disk_index vol"
    by (rule bdio_new_ok [OF g(1-4)])
  have "load_chain vol (first_cluster e) [] (b, bm) = None"
  proof (rule ccontr)
    assume "load_chain vol (first_cluster e) [] (b, bm) \<noteq> None"
    then obtain r where r: "load_chain vol (first_cluster e) [] (b, bm) = Some r" by blast
    show False
      by (rule load_chain_diverges [OF r, of R D "disks ! disk_index vol" bm]) (use closed g(5) first(1) b(2-4) in auto)
  qed
  then show ?thesis using first(2) b(1) by (simp add: from_dir_entry_def with_bdio_def)
qed


lemma cyclic_chain_hangs_witness:
  "from_dir_entry [demo_disk] demo_volume (demo_dirent 5) demo_bitmap = None"
proof -
  note d = demo_volume_def demo_dirent_def first_cluster_def
  have i: "io_ready [demo_disk] (disk_index demo_volume) demo_content demo_bitmap" using demo_io_ready by (simp add: d)
  show ?thesis
    by (rule cyclic_chain_hangs [OF i, where R = "{5, 6}"])
      (simp_all add: d fat_at_def fat_base_def demo_content_def fat_covers_def demo_disk_def disk_bytes_def)
qed


section \<open>The partition table\<close>

lemma zero_field: "\<forall>i < n. bs ! (k + i) = 0 \<Longrightarrow> k + n \<le> length bs \<Longrightarrow> field k n bs = 0"
proof -
  assume a: "\<forall>i < n. bs ! (k + i) = 0" "k + n \<le> length bs"
  have "take n (drop k bs) = replicate n 0" by (rule nth_equalityI) (use a in auto)
  moreover have "le_nat (replicate n 0) = 0" by (induction n) (auto simp: le_nat_def)
  ultimately show ?thesis by (simp add: field_def)
qed

text \<open>The scan of the partition table stays at the first unused entry: its address only
  advances behind used entries, so however many entries remain, the loop reads the same one
  again and mounts nothing more.\<close>

theorem gpt_stops_at_unused_entry:
  assumes b: "bdio_ok D b" "frame_held bm0 (b, fat_phys d)" "free_set bm0 \<noteq> {}"
    and entry: "cur_off + 128 \<le> disk_bytes (io_disk b)" "cur_off mod sector_bytes (io_disk b) + 128 \<le> 4096"
      "\<forall>i < 16. D (cur_off + i) = 0"
  shows "\<exists>b' bm'. gpt_entries h disk ent_size n cur_off num (b, mps, d) = returns (num, b', mps, d\<lparr>fat_phys := bm'\<rparr>)
    \<and> frame_held bm0 (b', bm')"
  using b entry
proof (induction n arbitrary: b d)
  case (Suc n)
  have ad: "(case ByteAddr cur_off of ByteAddr x \<Rightarrow> x | LBA lba off \<Rightarrow> uadd (umul lba (sector_bytes (io_disk b))) off) = cur_off"
    by simp
  obtain v b' bm' where r: "bdio_read (ByteAddr cur_off) 128 (b, fat_phys d) = returns
      (if cur_off mod sector_bytes (io_disk b) + 128 \<le> 4096 then Inr (v, disk_data D cur_off 128) else Inl NotIssued, b', bm')"
    "bdio_ok D b'" "frame_held bm0 (b', bm')" "io_disk b' = io_disk b"
    by (rule bdio_read_ok [OF Suc.prems(1-3) ad _ Suc.prems(4)]) (simp, blast)
  have z: "field 0 16 (disk_data D cur_off 128) = 0" by (rule zero_field) (use Suc.prems(6) in auto)
  have "\<exists>b'' bm''. gpt_entries h disk ent_size n cur_off num (b', mps, d\<lparr>fat_phys := bm'\<rparr>)
      = returns (num, b'', mps, (d\<lparr>fat_phys := bm'\<rparr>)\<lparr>fat_phys := bm''\<rparr>) \<and> frame_held bm0 (b'', bm'')"
    by (rule Suc.IH) (use r(2-4) Suc.prems(3-6) in simp_all)
  then show ?case using r(1) Suc.prems(5) z by simp
qed (auto intro: exI [of _ "fat_phys d" for d])

end
