(* ===== verification/Vfs_Files.thy ===== *)
theory Vfs_Files
  imports Vfs
begin

text \<open>
  Open files as the kernel uses them: instances of \<^verbatim>\<open>File\<close> come from \<^verbatim>\<open>open\<close> and \<^verbatim>\<open>clone\<close>, are used and
  are dropped. The interface to a driver is the locale \<open>file_driver\<close>; its consequence is that an
  open file keeps its driver handle until the last instance is dropped, with the exception of
  handle 0.
\<close>

section \<open>Runs\<close>

type_synonym ('h, 'd) vfs_run = "('h, 'd) vfs \<times> 'h vfile list"

text \<open>The list holds the live instances. \<open>room d\<close> says that the driver has unused handles.\<close>

inductive vfs_step :: "('h \<Rightarrow> 'd file_ops) \<Rightarrow> ('d \<Rightarrow> bool) \<Rightarrow> ('h, 'd) vfs_run \<Rightarrow> ('h, 'd) vfs_run \<Rightarrow> bool"
  for ops room where
  opened: "file_open ops path m v = returns (Inr f, v') \<Longrightarrow> room (dev v) \<Longrightarrow> vfs_step ops room (v, fs) (v', f # fs)"
| not_opened: "file_open ops path m v = returns (Inl e, v') \<Longrightarrow> vfs_step ops room (v, fs) (v', fs)"
| cloned: "f \<in> set fs \<Longrightarrow> file_clone f v = (f', v') \<Longrightarrow> vfs_step ops room (v, fs) (v', f' # fs)"
| dropped: "file_drop ops f v = returns v' \<Longrightarrow> vfs_step ops room (v, fs @ f # gs) (v', fs @ gs)"
| was_read: "file_read_at ops n f v = returns (Inr (x, f'), v') \<Longrightarrow> vfs_step ops room (v, fs @ f # gs) (v', fs @ f' # gs)"
| not_read: "file_read_at ops n f v = returns (Inl e, v') \<Longrightarrow> f \<in> set fs \<Longrightarrow> vfs_step ops room (v, fs) (v', fs)"
| written: "file_write ops buf f v = returns (Inr (x, f'), v') \<Longrightarrow> vfs_step ops room (v, fs @ f # gs) (v', fs @ f' # gs)"
| not_written: "file_write ops buf f v = returns (Inl e, v') \<Longrightarrow> f \<in> set fs \<Longrightarrow> vfs_step ops room (v, fs) (v', fs)"
| sought: "file_seek delta origin c f = Inr (x, f') \<Longrightarrow> vfs_step ops room (v, fs @ f # gs) (v, fs @ f' # gs)"
| enumerated: "file_enumerate ops f v = returns (r, v') \<Longrightarrow> f \<in> set fs \<Longrightarrow> vfs_step ops room (v, fs) (v', fs)"
| executed: "file_execute ops func buf f v = returns (r', v') \<Longrightarrow> f \<in> set fs \<Longrightarrow> vfs_step ops room (v, fs) (v', fs)"
| mounted: "mount m (mount_points v) = (ok, mps) \<Longrightarrow> vfs_step ops room (v, fs) (v\<lparr>mount_points := mps\<rparr>, fs)"
| unmounted: "vfs_step ops room (v, fs) (v\<lparr>mount_points := unmount name (mount_points v)\<rparr>, fs)"

inductive vfs_reaches :: "('h \<Rightarrow> 'd file_ops) \<Rightarrow> ('d \<Rightarrow> bool) \<Rightarrow> ('h, 'd) vfs_run \<Rightarrow> ('h, 'd) vfs_run \<Rightarrow> bool"
  for ops room s where
  start: "vfs_reaches ops room s s"
| step: "vfs_reaches ops room s t \<Longrightarrow> vfs_step ops room t u \<Longrightarrow> vfs_reaches ops room s u"

section \<open>Instances and handles\<close>

text \<open>The resource of a file: the driver and its handle.\<close>

abbreviation resource :: "'h vfile \<Rightarrow> 'h \<times> usize" where
  "resource f \<equiv> (fops (mnt f), dev_hnd f)"

definition instances :: "nat \<Rightarrow> 'h vfile list \<Rightarrow> nat" where
  "instances c fs = length (filter (\<lambda>g. ref_count g = c) fs)"

lemma instances_simps [simp]:
  "instances c [] = 0" "instances c (f # fs) = (if ref_count f = c then Suc (instances c fs) else instances c fs)"
  "instances c (fs @ gs) = instances c fs + instances c gs"
  by (simp_all add: instances_def)

lemma instances_0: "instances c fs = 0 \<longleftrightarrow> (\<forall>g \<in> set fs. ref_count g \<noteq> c)"
  by (auto simp: instances_def filter_empty_conv)

lemma instances_map: "instances c fs = length (filter (\<lambda>p. fst p = c) (map (\<lambda>f. (ref_count f, resource f)) fs))"
  by (induction fs) auto

text \<open>The shared counters count the instances; files share a resource exactly when they share a
  counter; their handles are open.\<close>

definition files_wf :: "('h \<times> usize) set \<Rightarrow> ('h, 'd) vfs_run \<Rightarrow> bool" where
  "files_wf H = (\<lambda>(v, fs).
     (\<forall>f \<in> set fs. ref_count f < next_count v \<and> counts v (ref_count f) = instances (ref_count f) fs)
   \<and> (\<forall>f \<in> set fs. dev_hnd f \<noteq> 0 \<longrightarrow> resource f \<in> H)
   \<and> (\<forall>f \<in> set fs. \<forall>g \<in> set fs. ref_count f = ref_count g \<longrightarrow> resource f = resource g)
   \<and> (\<forall>f \<in> set fs. \<forall>g \<in> set fs. dev_hnd f \<noteq> 0 \<and> resource f = resource g \<longrightarrow> ref_count f = ref_count g))"

lemma files_wfD:
  assumes "files_wf H (v, fs)"
  shows "f \<in> set fs \<Longrightarrow> ref_count f < next_count v"
    "f \<in> set fs \<Longrightarrow> counts v (ref_count f) = instances (ref_count f) fs"
    "f \<in> set fs \<Longrightarrow> dev_hnd f \<noteq> 0 \<Longrightarrow> resource f \<in> H"
    "f \<in> set fs \<Longrightarrow> g \<in> set fs \<Longrightarrow> ref_count f = ref_count g \<Longrightarrow> resource f = resource g"
    "f \<in> set fs \<Longrightarrow> g \<in> set fs \<Longrightarrow> dev_hnd f \<noteq> 0 \<Longrightarrow> resource f = resource g \<Longrightarrow> ref_count f = ref_count g"
  using assms unfolding files_wf_def split by blast+

lemma files_wfI:
  assumes "\<And>f. f \<in> set fs \<Longrightarrow> ref_count f < next_count v"
    "\<And>f. f \<in> set fs \<Longrightarrow> counts v (ref_count f) = instances (ref_count f) fs"
    "\<And>f. f \<in> set fs \<Longrightarrow> dev_hnd f \<noteq> 0 \<Longrightarrow> resource f \<in> H"
    "\<And>f g. f \<in> set fs \<Longrightarrow> g \<in> set fs \<Longrightarrow> ref_count f = ref_count g \<Longrightarrow> resource f = resource g"
    "\<And>f g. f \<in> set fs \<Longrightarrow> g \<in> set fs \<Longrightarrow> dev_hnd f \<noteq> 0 \<Longrightarrow> resource f = resource g \<Longrightarrow> ref_count f = ref_count g"
  shows "files_wf H (v, fs)"
  unfolding files_wf_def split
proof (intro conjI ballI impI)
  fix f assume f: "f \<in> set fs"
  show "ref_count f < next_count v" "counts v (ref_count f) = instances (ref_count f) fs" using assms(1,2) [OF f] .
  show "resource f \<in> H" if "dev_hnd f \<noteq> 0" by (rule assms(3) [OF f that])
  fix g assume g: "g \<in> set fs"
  show "resource f = resource g" if "ref_count f = ref_count g" by (rule assms(4) [OF f g that])
  show "ref_count f = ref_count g" if "dev_hnd f \<noteq> 0 \<and> resource f = resource g"
    by (rule assms(5) [OF f g conjunct1 [OF that] conjunct2 [OF that]])
qed

text \<open>Only the counters and the resources of the files matter.\<close>

lemma files_wf_cong:
  assumes "files_wf H (v, fs)" "counts v' = counts v" "next_count v' = next_count v"
    "map (\<lambda>f. (ref_count f, resource f)) gs = map (\<lambda>f. (ref_count f, resource f)) fs" "H \<subseteq> H'"
  shows "files_wf H' (v', gs)"
proof -
  have i: "instances c gs = instances c fs" for c
    unfolding instances_map [where 'a = 'a] assms(4) ..
  have m: "\<exists>g \<in> set fs. ref_count g = ref_count f \<and> resource g = resource f" if "f \<in> set gs" for f
  proof -
    have "(ref_count f, resource f) \<in> set (map (\<lambda>f. (ref_count f, resource f)) fs)"
      unfolding assms(4) [symmetric] using that by auto
    then show ?thesis by force
  qed
  note w = files_wfD [OF assms(1)]
  show ?thesis
  proof (rule files_wfI)
    fix f assume "f \<in> set gs"
    then obtain f' where f: "f' \<in> set fs" "ref_count f' = ref_count f" "resource f' = resource f" using m by blast
    then show "ref_count f < next_count v'" "counts v' (ref_count f) = instances (ref_count f) gs"
      using w(1,2) [of f'] assms(2,3) i by simp_all
    show "resource f \<in> H'" if "dev_hnd f \<noteq> 0" using w(3) [of f'] f that assms(5) by auto
    fix g assume "g \<in> set gs"
    then obtain g' where g: "g' \<in> set fs" "ref_count g' = ref_count g" "resource g' = resource g" using m by blast
    show "resource f = resource g" if "ref_count f = ref_count g" using w(4) [of f' g'] f g that by simp
    show "ref_count f = ref_count g" if "dev_hnd f \<noteq> 0" "resource f = resource g" using w(5) [of f' g'] f g that by simp
  qed
qed

lemma call_devE:
  assumes "call_dev f v = returns (r, v')"
  obtains d where "f (dev v) = returns (r, d)" "v' = v\<lparr>dev := d\<rparr>"
  using assms by (auto simp: call_dev_def and_then_def split: option.splits sum.splits)

lemma try_then_returns:
  "try_then m f s = returns (r, s') \<longleftrightarrow>
    (\<exists>e. m s = returns (Inl e, s') \<and> r = Inl e) \<or> (\<exists>x t. m s = returns (Inr x, t) \<and> f x t = returns (r, s'))"
  by (cases "m s") (auto simp: try_then_def and_then_def split: sum.splits)

lemma read_at_facts:
  assumes "file_read_at ops n f v = returns (r, v')"
  shows "v' = v \<or> (\<exists>x. call_dev (op_read (ops (fops (mnt f))) (dev_hnd f) (read_off f) n) v = returns (x, v'))"
    and "r = Inr (y, f') \<Longrightarrow> resource f' = resource f \<and> ref_count f' = ref_count f"
proof -
  have "v' = v \<and> (\<exists>e. r = Inl e) \<or> (\<exists>x. call_dev (op_read (ops (fops (mnt f))) (dev_hnd f) (read_off f) n) v = returns (x, v'))
    \<and> (\<forall>y f'. r = Inr (y, f') \<longrightarrow> resource f' = resource f \<and> ref_count f' = ref_count f)"
    using assms unfolding file_read_at_def
    by (simp add: try_then_returns throw_def succeed_def split: if_splits) auto
  then show "v' = v \<or> (\<exists>x. call_dev (op_read (ops (fops (mnt f))) (dev_hnd f) (read_off f) n) v = returns (x, v'))"
    "r = Inr (y, f') \<Longrightarrow> resource f' = resource f \<and> ref_count f' = ref_count f" by auto
qed

lemma write_facts:
  assumes "file_write ops buf f v = returns (r, v')"
  shows "v' = v \<or> (\<exists>x. call_dev (op_write (ops (fops (mnt f))) (dev_hnd f) (write_off f) buf) v = returns (x, v'))"
    and "r = Inr (y, f') \<Longrightarrow> resource f' = resource f \<and> ref_count f' = ref_count f"
proof -
  have "v' = v \<and> (\<exists>e. r = Inl e) \<or> (\<exists>x. call_dev (op_write (ops (fops (mnt f))) (dev_hnd f) (write_off f) buf) v = returns (x, v'))
    \<and> (\<forall>y f'. r = Inr (y, f') \<longrightarrow> resource f' = resource f \<and> ref_count f' = ref_count f)"
    using assms unfolding file_write_def
    by (simp add: try_then_returns throw_def succeed_def Let_def split: if_splits) auto
  then show "v' = v \<or> (\<exists>x. call_dev (op_write (ops (fops (mnt f))) (dev_hnd f) (write_off f) buf) v = returns (x, v'))"
    "r = Inr (y, f') \<Longrightarrow> resource f' = resource f \<and> ref_count f' = ref_count f" by auto
qed

text \<open>Adding an instance, and taking one away.\<close>

lemma files_wf_add:
  assumes w: "files_wf H (v, fs)" and H: "H \<subseteq> H'" and n: "next_count v \<le> next_count v'" "ref_count f < next_count v'"
    and c: "counts v' = (counts v)(ref_count f := Suc (instances (ref_count f) fs))"
    and f: "dev_hnd f \<noteq> 0 \<Longrightarrow> resource f \<in> H'"
    and g: "\<And>g. g \<in> set fs \<Longrightarrow> ref_count g = ref_count f \<Longrightarrow> resource g = resource f"
      "\<And>g. g \<in> set fs \<Longrightarrow> dev_hnd f \<noteq> 0 \<Longrightarrow> resource g = resource f \<Longrightarrow> ref_count g = ref_count f"
  shows "files_wf H' (v', f # fs)"
proof -
  note w = files_wfD [OF w]
  have h: "dev_hnd f \<noteq> 0" if "dev_hnd x \<noteq> 0" "resource x = resource f" for x using that by auto
  show ?thesis
  proof (rule files_wfI)
    fix x assume x: "x \<in> set (f # fs)"
    then show "ref_count x < next_count v'" using w(1) n by (auto dest: less_le_trans)
    show "counts v' (ref_count x) = instances (ref_count x) (f # fs)" using x w(2) c by auto
    show "resource x \<in> H'" if "dev_hnd x \<noteq> 0" using x w(3) f that H by auto
    fix y assume y: "y \<in> set (f # fs)"
    show "resource x = resource y" if "ref_count x = ref_count y" using x y w(4) [of x y] g(1) [of x] g(1) [of y] that by auto
    show "ref_count x = ref_count y" if "dev_hnd x \<noteq> 0" "resource x = resource y"
      using x y w(5) [of x y] g(2) [of x] g(2) [of y] h [of x] that by auto
  qed
qed

lemma files_wf_remove:
  assumes w: "files_wf H (v, fs @ f # gs)"
    and H: "\<And>g. g \<in> set (fs @ gs) \<Longrightarrow> dev_hnd g \<noteq> 0 \<Longrightarrow> resource g \<in> H \<Longrightarrow> resource g \<in> H'"
    and n: "next_count v' = next_count v"
    and c: "\<And>k. k \<noteq> ref_count f \<Longrightarrow> counts v' k = counts v k"
      "0 < instances (ref_count f) (fs @ gs) \<Longrightarrow> counts v' (ref_count f) = counts v (ref_count f) - 1"
  shows "files_wf H' (v', fs @ gs)"
proof -
  note w = files_wfD [OF w]
  show ?thesis
  proof (rule files_wfI)
    fix x assume x: "x \<in> set (fs @ gs)"
    then have x': "x \<in> set (fs @ f # gs)" by auto
    show "ref_count x < next_count v'" using w(1) [OF x'] n by simp
    show "counts v' (ref_count x) = instances (ref_count x) (fs @ gs)"
    proof (cases "ref_count x = ref_count f")
      case True
      then have "0 < instances (ref_count f) (fs @ gs)" using instances_0 [of "ref_count f" "fs @ gs"] x by (metis gr0I)
      then show ?thesis using c(2) w(2) [OF x'] True by simp
    next
      case False
      then show ?thesis using c(1) w(2) [OF x'] by simp
    qed
    show "resource x \<in> H'" if "dev_hnd x \<noteq> 0" using H [OF x that] w(3) [OF x' that] .
    fix y assume "y \<in> set (fs @ gs)"
    then have y': "y \<in> set (fs @ f # gs)" by auto
    show "resource x = resource y" if "ref_count x = ref_count y" by (rule w(4) [OF x' y' that])
    show "ref_count x = ref_count y" if "dev_hnd x \<noteq> 0" "resource x = resource y" by (rule w(5) [OF x' y' that])
  qed
qed

section \<open>The contract of a driver\<close>

locale file_driver =
  fixes ops :: "'h \<Rightarrow> 'd file_ops" and handles :: "'d \<Rightarrow> ('h \<times> usize) set" and ok room :: "'d \<Rightarrow> bool"
  assumes open_fresh: "ok d \<Longrightarrow> room d \<Longrightarrow> op_open (ops h) p m d = returns (Inr (hnd, e), d') \<Longrightarrow>
      ok d' \<and> (h, hnd) \<notin> handles d \<and> handles d' = insert (h, hnd) (handles d)"
    and open_error: "ok d \<Longrightarrow> op_open (ops h) p m d = returns (Inl x, d') \<Longrightarrow> ok d' \<and> handles d' = handles d"
    and enum_keeps: "ok d \<Longrightarrow> op_enum (ops h) hnd d = returns (r1, d') \<Longrightarrow> ok d' \<and> handles d' = handles d"
    and read_keeps: "ok d \<Longrightarrow> op_read (ops h) hnd off n d = returns (r2, d') \<Longrightarrow> ok d' \<and> handles d' = handles d"
    and write_keeps: "ok d \<Longrightarrow> op_write (ops h) hnd off buf d = returns (r3, d') \<Longrightarrow> ok d' \<and> handles d' = handles d"
    and exec_keeps: "ok d \<Longrightarrow> op_exec (ops h) hnd func buf d = returns (r2, d') \<Longrightarrow> ok d' \<and> handles d' = handles d"
    and close_frees: "ok d \<Longrightarrow> op_close (ops h) hnd d = returns (r3, d') \<Longrightarrow> ok d' \<and> handles d' = handles d - {(h, hnd)}"
begin

definition run_ok :: "('h, 'd) vfs_run \<Rightarrow> bool" where
  "run_ok s \<longleftrightarrow> ok (dev (fst s)) \<and> files_wf (handles (dev (fst s))) s"

lemma run_ok_cong:
  assumes "run_ok (v, fs)" "ok (dev v')" "handles (dev v') = handles (dev v)" "counts v' = counts v" "next_count v' = next_count v"
    "map (\<lambda>f. (ref_count f, resource f)) gs = map (\<lambda>f. (ref_count f, resource f)) fs"
  shows "run_ok (v', gs)"
  using assms files_wf_cong [of "handles (dev v)" v fs v' gs "handles (dev v')"] by (simp add: run_ok_def)

lemma drop_facts:
  assumes r: "run_ok (v, fs @ f # gs)" and d: "file_drop ops f v = returns v'"
  shows "run_ok (v', fs @ gs)"
    and "0 < instances (ref_count f) (fs @ gs) \<Longrightarrow> dev v' = dev v"
    and "instances (ref_count f) (fs @ gs) = 0 \<Longrightarrow> handles (dev v') = handles (dev v) - {resource f}"
proof -
  have w: "ok (dev v)" "files_wf (handles (dev v)) (v, fs @ f # gs)" using r by (simp_all add: run_ok_def)
  have n: "counts v (ref_count f) = Suc (instances (ref_count f) (fs @ gs))" using files_wfD(2) [OF w(2), of f] by simp
  have "run_ok (v', fs @ gs) \<and> (0 < instances (ref_count f) (fs @ gs) \<longrightarrow> dev v' = dev v)
    \<and> (instances (ref_count f) (fs @ gs) = 0 \<longrightarrow> handles (dev v') = handles (dev v) - {resource f})"
  proof (cases "0 < instances (ref_count f) (fs @ gs)")
    case True
    then have v': "v' = v\<lparr>counts := (counts v)(ref_count f := counts v (ref_count f) - 1)\<rparr>"
      using d n by (simp add: file_drop_def del: instances_simps)
    have "files_wf (handles (dev v)) (v', fs @ gs)" by (rule files_wf_remove [OF w(2)]) (simp_all add: v')
    then show ?thesis using True w(1) by (simp add: run_ok_def v' del: instances_simps)
  next
    case False
    then obtain r' where c: "call_dev (op_close (ops (fops (mnt f))) (dev_hnd f)) v = returns (r', v')"
      using d n by (auto simp: file_drop_def and_then_def simp del: instances_simps split: option.splits sum.splits)
    then obtain d' where d': "op_close (ops (fops (mnt f))) (dev_hnd f) (dev v) = returns (r', d')" "v' = v\<lparr>dev := d'\<rparr>"
      by (rule call_devE)
    note k = close_frees [OF w(1) d'(1)]
    have "files_wf (handles d') (v', fs @ gs)"
    proof (rule files_wf_remove [OF w(2)])
      fix g assume g: "g \<in> set (fs @ gs)" "dev_hnd g \<noteq> 0" "resource g \<in> handles (dev v)"
      have "ref_count g \<noteq> ref_count f" using False g(1) by (auto simp: instances_0)
      then have "resource g \<noteq> resource f" using files_wfD(5) [OF w(2), of g f] g(1,2) by auto
      then show "resource g \<in> handles d'" using k g(3) by auto
    qed (use False in \<open>simp_all add: d'(2)\<close>)
    then show ?thesis using k False by (simp add: run_ok_def d'(2))
  qed
  then show "run_ok (v', fs @ gs)" "0 < instances (ref_count f) (fs @ gs) \<Longrightarrow> dev v' = dev v"
    "instances (ref_count f) (fs @ gs) = 0 \<Longrightarrow> handles (dev v') = handles (dev v) - {resource f}" by blast+
qed

text \<open>A new file, before its driver is asked (\<open>hnd\<close> is 0) or afterwards.\<close>

lemma new_file_ok:
  assumes r: "run_ok (v, fs)" and m: "next_count v = c" and d: "ok d" "handles (dev v) \<subseteq> handles d"
    and f: "ref_count f = c" "dev_hnd f \<noteq> 0 \<Longrightarrow> resource f \<in> handles d \<and> resource f \<notin> handles (dev v)"
  shows "run_ok (v\<lparr>counts := (counts v)(c := 1), next_count := c + 1, dev := d\<rparr>, f # fs)"
proof -
  have w: "files_wf (handles (dev v)) (v, fs)" using r by (simp add: run_ok_def)
  have c: "ref_count g \<noteq> ref_count f" if "g \<in> set fs" for g using files_wfD(1) [OF w that] f(1) m by simp
  then have i: "instances (ref_count f) fs = 0" by (simp add: instances_0)
  have "files_wf (handles d) (v\<lparr>counts := (counts v)(c := 1), next_count := c + 1, dev := d\<rparr>, f # fs)"
  proof (rule files_wf_add [OF w d(2)])
    fix g assume g: "g \<in> set fs"
    show "resource g = resource f" if "ref_count g = ref_count f" using c [OF g] that by simp
    show "ref_count g = ref_count f" if "dev_hnd f \<noteq> 0" "resource g = resource f"
      using files_wfD(3) [OF w g] f(2) that by auto
  qed (use m f i in auto)
  then show ?thesis using d(1) by (simp add: run_ok_def)
qed

lemma open_facts:
  assumes r: "run_ok (v, fs)" and o: "file_open ops path md v = returns (Inr f, v')" and room: "room (dev v)"
  shows "run_ok (v', f # fs)"
proof -
  obtain m where m: "mount_from_path (mount_points v) path = Inr m" using o by (auto simp: file_open_def throw_def split: sum.splits)
  define v1 where "v1 = v\<lparr>counts := (counts v)(next_count v := 1), next_count := next_count v + 1\<rparr>"
  obtain hnd e v2 where c: "call_dev (op_open (ops (fops m)) path md) v1 = returns (Inr (hnd, e), v2)" "v' = v2"
    and f: "f = \<lparr>mnt = m, dev_hnd = hnd, file_mode = md, entry = e, read_off = 0, write_off = 0, ref_count = next_count v\<rparr>"
    using o m by (auto simp: file_open_def Let_def and_then_def succeed_def throw_def v1_def
        split: option.splits sum.splits)
  obtain d where d: "op_open (ops (fops m)) path md (dev v1) = returns (Inr (hnd, e), d)" "v2 = v1\<lparr>dev := d\<rparr>"
    by (rule call_devE [OF c(1)])
  have "ok d \<and> (fops m, hnd) \<notin> handles (dev v) \<and> handles d = insert (fops m, hnd) (handles (dev v))"
    by (rule open_fresh) (use r room d(1) in \<open>simp_all add: run_ok_def v1_def\<close>)
  then show ?thesis
    using new_file_ok [OF r refl, of d f] unfolding c(2) d(2) v1_def f by auto
qed

lemma not_open_facts:
  assumes r: "run_ok (v, fs)" and o: "file_open ops path md v = returns (Inl x, v')"
  shows "run_ok (v', fs)"
    and "mount_from_path (mount_points v) path = Inr m \<Longrightarrow> handles (dev v') = handles (dev v) - {(fops m, 0)}"
proof -
  have "run_ok (v', fs) \<and> (\<forall>m. mount_from_path (mount_points v) path = Inr m \<longrightarrow> handles (dev v') = handles (dev v) - {(fops m, 0)})"
  proof (cases "mount_from_path (mount_points v) path")
    case (Inl e)
    then show ?thesis using o r by (simp add: file_open_def throw_def)
  next
    case m: (Inr m)
    define v1 where "v1 = v\<lparr>counts := (counts v)(next_count v := 1), next_count := next_count v + 1\<rparr>"
    define f where "f = \<lparr>mnt = m, dev_hnd = 0, file_mode = md, entry = directory_entry_new, read_off = 0,
        write_off = 0, ref_count = next_count v\<rparr>"
    obtain v2 where c: "call_dev (op_open (ops (fops m)) path md) v1 = returns (Inl x, v2)" "file_drop ops f v2 = returns v'"
      using o m by (auto simp: file_open_def Let_def and_then_def succeed_def throw_def v1_def f_def
          split: option.splits sum.splits)
    obtain d where d: "op_open (ops (fops m)) path md (dev v1) = returns (Inl x, d)" "v2 = v1\<lparr>dev := d\<rparr>"
      by (rule call_devE [OF c(1)])
    have k: "ok d \<and> handles d = handles (dev v)"
      by (rule open_error) (use r d(1) in \<open>simp_all add: run_ok_def v1_def\<close>)
    then have r2: "run_ok (v2, f # fs)"
      using new_file_ok [OF r refl, of d f] by (simp add: d(2) v1_def f_def)
    have "instances (ref_count f) fs = 0"
      using files_wfD(1) [of "handles (dev v)" v fs] r by (force simp: instances_0 run_ok_def f_def)
    then show ?thesis
      using drop_facts [of v2 "[]" f fs v'] r2 c(2) k m by (simp add: d(2) f_def)
  qed
  then show "run_ok (v', fs)" "mount_from_path (mount_points v) path = Inr m \<Longrightarrow> handles (dev v') = handles (dev v) - {(fops m, 0)}"
    by blast+
qed

lemma used_ok:
  assumes r: "run_ok (v, fs)" and c: "v' = v \<or> (\<exists>x. call_dev g v = returns (x, v'))"
    and m: "map (\<lambda>f. (ref_count f, resource f)) gs = map (\<lambda>f. (ref_count f, resource f)) fs"
    and g: "\<And>x d'. g (dev v) = returns (x, d') \<Longrightarrow> ok (dev v) \<Longrightarrow> ok d' \<and> handles d' = handles (dev v)"
  shows "run_ok (v', gs)"
proof -
  have k: "ok (dev v)" using r by (simp add: run_ok_def)
  from c show ?thesis
  proof
    assume "v' = v"
    then show ?thesis using run_ok_cong [OF r k refl refl refl m] by simp
  next
    assume "\<exists>x. call_dev g v = returns (x, v')"
    then obtain x where x: "call_dev g v = returns (x, v')" by blast
    obtain d where d: "g (dev v) = returns (x, d)" "v' = v\<lparr>dev := d\<rparr>" by (rule call_devE [OF x])
    show ?thesis using g [OF d(1) k] by (intro run_ok_cong [OF r _ _ _ _ m]) (simp_all add: d(2))
  qed
qed

lemma step_ok:
  assumes "vfs_step ops room s t" and "run_ok s"
  shows "run_ok t"
  using assms
proof cases
  case (opened path m v f v' fs)
  then show ?thesis using open_facts assms(2) by simp
next
  case (not_opened path m v e v' fs)
  then show ?thesis using not_open_facts(1) assms(2) by simp
next
  case (cloned f fs v f' v')
  have w: "files_wf (handles (dev v)) (v, fs)" using assms(2) cloned by (simp add: run_ok_def)
  have e: "f' = f" "v' = v\<lparr>counts := (counts v)(ref_count f := counts v (ref_count f) + 1)\<rparr>"
    using cloned(4) by (auto simp: file_clone_def)
  note wf = files_wfD [OF w]
  have "files_wf (handles (dev v)) (v', f # fs)"
  proof (rule files_wf_add [OF w])
    show "resource f \<in> handles (dev v)" if "dev_hnd f \<noteq> 0" by (rule wf(3) [OF cloned(3) that])
    fix g assume g: "g \<in> set fs"
    show "resource g = resource f" if "ref_count g = ref_count f" by (rule wf(4) [OF g cloned(3) that])
    show "ref_count g = ref_count f" if "dev_hnd f \<noteq> 0" "resource g = resource f"
      using wf(5) [OF cloned(3) g that(1)] that(2) by simp
  qed (use wf(1,2) [OF cloned(3)] in \<open>simp_all add: e\<close>)
  then show ?thesis using assms(2) cloned(1,2) by (simp add: run_ok_def e)
next
  case (dropped f v v' fs gs)
  then show ?thesis using drop_facts(1) assms(2) by simp
next
  case (was_read n f v x f' v' fs gs)
  have "run_ok (v', fs @ f' # gs)"
    by (rule used_ok [OF _ read_at_facts(1) [OF was_read(3)] _ read_keeps, of "fs @ f # gs"])
      (use read_at_facts(2) [OF was_read(3) refl] assms(2) was_read(1) in simp_all)
  then show ?thesis using was_read(2) by simp
next
  case (not_read n f v e v' fs)
  have "run_ok (v', fs)"
    by (rule used_ok [OF _ read_at_facts(1) [OF not_read(3)] refl read_keeps]) (use assms(2) not_read(1) in simp_all)
  then show ?thesis using not_read(2) by simp
next
  case (written buf f v x f' v' fs gs)
  have "run_ok (v', fs @ f' # gs)"
    by (rule used_ok [OF _ write_facts(1) [OF written(3)] _ write_keeps, of "fs @ f # gs"])
      (use write_facts(2) [OF written(3) refl] assms(2) written(1) in simp_all)
  then show ?thesis using written(2) by simp
next
  case (not_written buf f v e v' fs)
  have "run_ok (v', fs)"
    by (rule used_ok [OF _ write_facts(1) [OF not_written(3)] refl write_keeps]) (use assms(2) not_written(1) in simp_all)
  then show ?thesis using not_written(2) by simp
next
  case (sought delta origin c f x f' v fs gs)
  then have "resource f' = resource f" "ref_count f' = ref_count f"
    by (auto simp: file_seek_def Let_def set_cursor_def split: seek_origin.splits seek_cursor.splits if_splits)
  then show ?thesis using run_ok_cong [of v "fs @ f # gs" v "fs @ f' # gs"] assms(2) sought(1,2) by (simp add: run_ok_def)
next
  case (enumerated f v r v' fs)
  then have "v' = v \<or> (\<exists>x. call_dev (op_enum (ops (fops (mnt f))) (dev_hnd f)) v = returns (x, v'))"
    by (auto simp: file_enumerate_def throw_def split: if_splits)
  then have "run_ok (v', fs)" by (rule used_ok [rotated, OF _ refl enum_keeps]) (use assms(2) enumerated(1) in simp_all)
  then show ?thesis using enumerated(2) by simp
next
  case (executed func buf f v r v' fs)
  then have "v' = v \<or> (\<exists>x. call_dev (op_exec (ops (fops (mnt f))) (dev_hnd f) func buf) v = returns (x, v'))"
    by (auto simp: file_execute_def throw_def split: if_splits)
  then have "run_ok (v', fs)" by (rule used_ok [rotated, OF _ refl exec_keeps]) (use assms(2) executed(1) in simp_all)
  then show ?thesis using executed(2) by simp
next
  case (mounted m v ok mps fs)
  then show ?thesis using run_ok_cong [of v fs _ fs] assms(2) by (simp add: run_ok_def)
next
  case (unmounted v fs name)
  then show ?thesis using run_ok_cong [of v fs _ fs] assms(2) by (simp add: run_ok_def)
qed

lemma reaches_ok: "vfs_reaches ops room s t \<Longrightarrow> run_ok s \<Longrightarrow> run_ok t"
  by (induction rule: vfs_reaches.induct) (auto intro: step_ok)

end

end
