(* ===== verification/Fat_Files.thy ===== *)
theory Fat_Files
  imports Fat_Props Vfs_Files
begin

text \<open>
  Open files on FAT volumes: the FAT driver keeps the contract \<open>file_driver\<close>, and what follows
  for the files the kernel opens.
\<close>

section \<open>The driver keeps its contract\<close>

text \<open>There is one handler, \<^verbatim>\<open>fat_fops_handler\<close>. Its handles are the keys of \<^verbatim>\<open>OPEN_FILES\<close>; they come
  from a counter, which must not have wrapped around.\<close>

abbreviation fat_ops :: "unit \<Rightarrow> fat_dev file_ops" where
  "fat_ops \<equiv> \<lambda>h. fat_fops_handler"

definition fat_handles :: "fat_dev \<Rightarrow> (unit \<times> usize) set" where
  "fat_handles d = {(h, hnd) |h hnd. bt_get (open_files d) hnd \<noteq> None}"

definition fat_ok :: "fat_dev \<Rightarrow> bool" where
  "fat_ok d \<longleftrightarrow> (\<forall>hnd. bt_get (open_files d) hnd \<noteq> None \<longrightarrow> hnd < next_handle d)"

definition fat_room :: "fat_dev \<Rightarrow> bool" where
  "fat_room d \<longleftrightarrow> next_handle d + 1 < usize_span"

lemma fat_handles_iff [simp]: "(h, hnd) \<in> fat_handles d \<longleftrightarrow> bt_get (open_files d) hnd \<noteq> None"
  by (simp add: fat_handles_def)

lemma fat_fops_simps [simp]:
  "op_open fat_fops_handler = fat_open" "op_enum fat_fops_handler = fenum" "op_read fat_fops_handler = fread"
  "op_write fat_fops_handler = fwrite" "op_exec fat_fops_handler = fexec" "op_close fat_fops_handler = fclose"
  by (simp_all add: fat_fops_handler_def)

definition same_files :: "fat_dev \<Rightarrow> fat_dev \<Rightarrow> bool" where
  "same_files d d' \<longleftrightarrow> open_files d' = open_files d \<and> next_handle d' = next_handle d"

lemma same_filesD: "same_files d d' \<Longrightarrow> fat_ok d \<Longrightarrow> fat_ok d' \<and> fat_handles d' = fat_handles d"
  by (simp add: same_files_def fat_ok_def fat_handles_def)

lemma same_files_refl [simp]: "same_files d d"
  by (simp add: same_files_def)

lemma on_phys_same: "on_phys f d = returns (r, d') \<Longrightarrow> same_files d d'"
  by (auto simp: on_phys_def and_then_returns same_files_def)

lemma with_handle_same:
  assumes "with_handle hnd f d = returns (r, d')" "\<And>x. f x d = returns (r, d') \<Longrightarrow> same_files d d'"
  shows "same_files d d'"
  using assms by (auto simp: with_handle_def throw_def split: option.splits)

lemma fenum_same: "fenum hnd d = returns (r, d') \<Longrightarrow> same_files d d'"
  unfolding fenum_def
  by (erule with_handle_same)
    (auto simp: try_then_returns and_then_returns throw_def succeed_def split: if_splits dest: on_phys_same)

lemma fread_same: "fread hnd off n d = returns (r, d') \<Longrightarrow> same_files d d'"
  unfolding fread_def
  by (erule with_handle_same)
    (auto simp: try_then_returns throw_def succeed_def split: if_splits dest: on_phys_same)

lemma fopen_facts:
  assumes "fopen vol p m d = returns (r, d')"
  shows "(case r of Inl e \<Rightarrow> same_files d d'
    | Inr (hnd, e) \<Rightarrow> hnd = next_handle d \<and> next_handle d' = uadd hnd 1 \<and> (\<exists>x. open_files d' = bt_insert hnd x (open_files d)))"
  using assms unfolding fopen_def
  by (auto simp: try_then_returns and_then_returns throw_def succeed_def Let_def split: if_splits dest!: on_phys_same)
    (auto simp: same_files_def)

lemma fat_open_facts:
  assumes "fat_open p m d = returns (r, d')"
  shows "(case r of Inl e \<Rightarrow> same_files d d'
    | Inr (hnd, e) \<Rightarrow> hnd = next_handle d \<and> next_handle d' = uadd hnd 1 \<and> (\<exists>x. open_files d' = bt_insert hnd x (open_files d)))"
  using assms fopen_facts unfolding fat_open_def by (force simp: throw_def split: option.splits)

interpretation fat_files: file_driver fat_ops fat_handles fat_ok fat_room
proof unfold_locales
  fix d p m hnd e d' and h :: unit
  assume d: "fat_ok d" "fat_room d" and o: "op_open fat_fops_handler p m d = returns (Inr (hnd, e), d')"
  obtain x where x: "hnd = next_handle d" "next_handle d' = uadd hnd 1" "open_files d' = bt_insert hnd x (open_files d)"
    using fat_open_facts [of p m d "Inr (hnd, e)" d'] o by auto
  have n: "next_handle d' = next_handle d + 1" using x(1,2) d(2) by (simp add: fat_room_def uadd_exact)
  have "bt_get (open_files d) hnd = None" using d(1) x(1) by (auto simp: fat_ok_def)
  then show "fat_ok d' \<and> (h, hnd) \<notin> fat_handles d \<and> fat_handles d' = insert (h, hnd) (fat_handles d)"
    using d(1) n x(1,3) by (auto simp: fat_ok_def fat_handles_def less_Suc_eq)
next
  fix d p m x d'
  assume "fat_ok d" "op_open fat_fops_handler p m d = returns (Inl x, d')"
  then show "fat_ok d' \<and> fat_handles d' = fat_handles d" using fat_open_facts [of p m d "Inl x" d'] same_filesD by auto
next
  fix d hnd r d' and h :: unit
  assume "fat_ok d" "op_close fat_fops_handler hnd d = returns (r, d')"
  then show "fat_ok d' \<and> fat_handles d' = fat_handles d - {(h, hnd)}"
    by (auto simp: fclose_def throw_def succeed_def fat_ok_def fat_handles_def split: option.splits if_splits)
qed (auto dest!: fenum_same fread_same dest: same_filesD simp: fwrite_def fexec_def throw_def)


section \<open>A sample run\<close>

definition demo_mnt :: "unit mount_point" where
  "demo_mnt = \<lparr>mnt_name = ascii ''disk0.0'', fops = ()\<rparr>"

definition demo_dev :: "(usize, fat_file) bt_map \<Rightarrow> usize \<Rightarrow> fat_dev" where
  "demo_dev files hnd = \<lparr>fat_disks = [demo_disk], fat_volumes = [(ascii ''disk0.0'', demo_volume)],
     open_files = files, next_handle = hnd, fat_phys = demo_bitmap\<rparr>"

definition demo_vfs :: "(unit, fat_dev) vfs" where
  "demo_vfs = \<lparr>mount_points = [(ascii ''disk0.0'', demo_mnt)], counts = (\<lambda>_. 0), next_count = 0, dev = demo_dev [] 0\<rparr>"

definition demo_root :: fat_file where
  "demo_root = make_file demo_volume
     \<lparr>sfn_name = ascii ''<ROOT_DIRE>'', attr = ATTR_DIRECTORY, nt_res = 0, create_time_tenth = 0,
      create_time = 0, create_date = 0, access_date = 0, first_cluster_hi = 0, write_time = 0, write_date = 0,
      first_cluster_lo = 0, file_size = 0\<rparr> (FAT1216Root 2 32)"

definition demo_root_file :: "unit vfile" where
  "demo_root_file = \<lparr>mnt = demo_mnt, dev_hnd = 0, file_mode = MODE_READ,
     entry = \<lparr>entry_name = ascii ''<ROOT_DIRE>'', entry_flags = 0x301, entry_size = 0\<rparr>, read_off = 0,
     write_off = 0, ref_count = 0\<rparr>"

definition demo_opened :: "(unit, fat_dev) vfs" where
  "demo_opened = \<lparr>mount_points = [(ascii ''disk0.0'', demo_mnt)], counts = (\<lambda>_. 0)(0 := 1), next_count = 1,
     dev = demo_dev [(0, demo_root)] 1\<rparr>"

lemma demo_open: "file_open fat_ops (ascii ''disk0.0:'') MODE_READ demo_vfs = returns (Inr demo_root_file, demo_opened)"
  by (simp add: file_open_def demo_vfs_def mount_from_path_def ascii_def of_char_def demo_mnt_def call_dev_def
      fat_open_def get_mntname_devpath_def demo_dev_def fopen_def on_phys_def from_path_def from_root_def from_dir_entry_def
      first_cluster_def demo_volume_def succeed_def try_then_def is_readable_def is_writable_def is_executable_def
      get_directory_entry_def ent_name_def from_utf8_def make_file_def demo_root_def demo_root_file_def demo_opened_def
      MODE_READ_def MODE_WRITE_def MODE_EXEC_def Let_def uadd_def attr_flags_def ATTR_DIRECTORY_def ATTR_ARCHIVE_def
      ATTR_HIDDEN_def ATTR_SYSTEM_def ATTR_READ_ONLY_def size_bytes_def FLG_DIRECTORY_def FLG_PERM_READ_def FLG_PERM_WRITE_def)

definition demo_lost :: "(unit, fat_dev) vfs" where
  "demo_lost = \<lparr>mount_points = [(ascii ''disk0.0'', demo_mnt)], counts = (\<lambda>_. 0)(0 := 1, 1 := 1), next_count = 2,
     dev = demo_dev [] 1\<rparr>"

lemma demo_open_fails: "file_open fat_ops (ascii ''disk0.0'') MODE_READ demo_opened = returns (Inl InvalidPath, demo_lost)"
  by (simp add: file_open_def demo_opened_def mount_from_path_def ascii_def of_char_def demo_mnt_def call_dev_def
      fat_open_def get_mntname_devpath_def demo_dev_def demo_lost_def throw_def file_drop_def Let_def fclose_def
      succeed_def bt_remove_def)

lemma demo_reach: "vfs_reaches fat_ops fat_room (demo_vfs, []) (demo_opened, [] @ demo_root_file # [])"
  using vfs_reaches.step [OF vfs_reaches.start vfs_step.opened [OF demo_open]]
  by (simp add: fat_room_def demo_vfs_def demo_dev_def)

lemma demo_start: "open_files (dev demo_vfs) = []"
  by (simp add: demo_vfs_def demo_dev_def)

section \<open>Consequences\<close>

lemma reached_run_ok:
  assumes "vfs_reaches fat_ops fat_room (v0, []) (v, fs)" and "open_files (dev v0) = []"
  shows "fat_files.run_ok (v, fs)"
  by (rule fat_files.reaches_ok [OF assms(1)]) (use assms(2) in \<open>simp add: fat_files.run_ok_def fat_ok_def files_wf_def\<close>)

text \<open>How the driver's handles develop: the counter only grows, and no handle below it is opened again.\<close>

definition evolves :: "fat_dev \<Rightarrow> fat_dev \<Rightarrow> bool" where
  "evolves d d' \<longleftrightarrow> next_handle d \<le> next_handle d'
     \<and> (\<forall>hnd < next_handle d. bt_get (open_files d) hnd = None \<longrightarrow> bt_get (open_files d') hnd = None)"

lemma evolves_trans: "evolves d d' \<Longrightarrow> evolves d' d'' \<Longrightarrow> evolves d d''"
  unfolding evolves_def by (meson dual_order.trans less_le_trans)

lemma evolves_refl [simp]: "evolves d d"
  by (simp add: evolves_def)

lemma same_files_evolves: "same_files d d' \<Longrightarrow> evolves d d'"
  by (simp add: same_files_def evolves_def)

lemma fclose_evolves: "fclose hnd d = returns (r, d') \<Longrightarrow> evolves d d'"
  by (auto simp: fclose_def throw_def succeed_def evolves_def split: option.splits)

lemma drop_evolves: "file_drop fat_ops f v = returns v' \<Longrightarrow> evolves (dev v) (dev v')"
  by (auto simp: file_drop_def and_then_returns call_dev_def split: if_splits dest!: fclose_evolves)

lemma open_evolves:
  assumes "fat_open p m d = returns (r, d')" "fat_room d"
  shows "evolves d d'" "r = Inr (hnd, e) \<Longrightarrow> hnd = next_handle d \<and> next_handle d' = hnd + 1"
proof -
  have u: "uadd (next_handle d) 1 = next_handle d + 1" using assms(2) by (simp add: fat_room_def uadd_exact)
  show "evolves d d'"
  proof (cases r)
    case (Inl e)
    then show ?thesis using fat_open_facts [OF assms(1)] same_files_evolves by simp
  next
    case (Inr x)
    then show ?thesis using fat_open_facts [OF assms(1)] u by (cases x) (auto simp: evolves_def)
  qed
  show "hnd = next_handle d \<and> next_handle d' = hnd + 1" if "r = Inr (hnd, e)"
    using fat_open_facts [OF assms(1)] u that by auto
qed

lemma failed_open_evolves:
  assumes "file_open fat_ops path m v = returns (Inl e, v')"
  shows "evolves (dev v) (dev v')"
proof (cases "mount_from_path (mount_points v) path")
  case (Inl x)
  then show ?thesis using assms by (simp add: file_open_def throw_def)
next
  case (Inr mp)
  define v1 where "v1 = v\<lparr>counts := (counts v)(next_count v := 1), next_count := next_count v + 1\<rparr>"
  define f where "f = \<lparr>mnt = mp, dev_hnd = 0, file_mode = m, entry = directory_entry_new, read_off = 0,
      write_off = 0, ref_count = next_count v\<rparr>"
  obtain v2 where o: "call_dev (fat_open path m) v1 = returns (Inl e, v2)" "file_drop fat_ops f v2 = returns v'"
    using assms Inr by (auto simp: file_open_def Let_def and_then_def succeed_def throw_def v1_def f_def
        split: option.splits sum.splits)
  obtain d where d: "fat_open path m (dev v1) = returns (Inl e, d)" "v2 = v1\<lparr>dev := d\<rparr>"
    by (rule call_devE [OF o(1)])
  have "same_files (dev v1) d" using fat_open_facts [OF d(1)] by simp
  then have "evolves (dev v) (dev v2)" using same_files_evolves by (simp add: d(2) v1_def)
  then show ?thesis using drop_evolves [OF o(2)] by (rule evolves_trans)
qed

lemma opened_file:
  assumes "file_open fat_ops path m v = returns (Inr f, v')" "fat_room (dev v)"
  shows "evolves (dev v) (dev v')" "dev_hnd f = next_handle (dev v)" "next_handle (dev v') = next_handle (dev v) + 1"
proof -
  define v1 where "v1 = v\<lparr>counts := (counts v)(next_count v := 1), next_count := next_count v + 1\<rparr>"
  obtain hnd e v2 where o: "call_dev (fat_open path m) v1 = returns (Inr (hnd, e), v2)" "v' = v2" "dev_hnd f = hnd"
    using assms(1) by (auto simp: file_open_def Let_def and_then_def succeed_def throw_def v1_def
        split: option.splits sum.splits)
  obtain d where d: "fat_open path m (dev v1) = returns (Inr (hnd, e), d)" "v2 = v1\<lparr>dev := d\<rparr>"
    by (rule call_devE [OF o(1)])
  then have d1: "fat_open path m (dev v) = returns (Inr (hnd, e), d)" "dev v' = d" using o(2) by (simp_all add: v1_def)
  show "evolves (dev v) (dev v')" "dev_hnd f = next_handle (dev v)" "next_handle (dev v') = next_handle (dev v) + 1"
    using open_evolves(1) [OF d1(1) assms(2)] open_evolves(2) [OF d1(1) assms(2) refl] o(3) d1(2) by simp_all
qed

lemma used_evolves:
  assumes "v' = v \<or> (\<exists>x. call_dev g v = returns (x, v'))" "\<And>x d'. g (dev v) = returns (x, d') \<Longrightarrow> evolves (dev v) d'"
  shows "evolves (dev v) (dev v')"
  using assms(1)
proof
  assume "\<exists>x. call_dev g v = returns (x, v')"
  then obtain x where "call_dev g v = returns (x, v')" by blast
  then obtain d where "g (dev v) = returns (x, d)" "v' = v\<lparr>dev := d\<rparr>" by (rule call_devE)
  then show ?thesis using assms(2) by simp
qed simp

lemmas same_evolves = fenum_same [THEN same_files_evolves] fread_same [THEN same_files_evolves]

lemma rejected_evolves: "fwrite hnd off buf d = returns (r, d') \<Longrightarrow> evolves d d'"
  "fexec hnd func buf d = returns (r', d') \<Longrightarrow> evolves d d'"
  by (auto simp: fwrite_def fexec_def throw_def)

text \<open>Two live files never have the same handle unless they are instances of one, not even handle 0.\<close>

definition handles_apart :: "(unit, fat_dev) vfs_run \<Rightarrow> bool" where
  "handles_apart = (\<lambda>(v, fs). (\<forall>f \<in> set fs. dev_hnd f < next_handle (dev v))
     \<and> (\<forall>f \<in> set fs. \<forall>g \<in> set fs. dev_hnd f = dev_hnd g \<longrightarrow> ref_count f = ref_count g))"

lemma handles_apartD:
  assumes "handles_apart (v, fs)" "f \<in> set fs"
  shows "dev_hnd f < next_handle (dev v)" "g \<in> set fs \<Longrightarrow> dev_hnd f = dev_hnd g \<Longrightarrow> ref_count f = ref_count g"
  using assms unfolding handles_apart_def split by blast+

lemma handles_apartI:
  assumes "\<And>f. f \<in> set fs \<Longrightarrow> dev_hnd f < next_handle (dev v)"
    "\<And>f g. f \<in> set fs \<Longrightarrow> g \<in> set fs \<Longrightarrow> dev_hnd f = dev_hnd g \<Longrightarrow> ref_count f = ref_count g"
  shows "handles_apart (v, fs)"
  using assms unfolding handles_apart_def split by blast

lemma handles_apart_cong:
  assumes "handles_apart (v, fs)" "evolves (dev v) (dev v')"
    "\<forall>g \<in> set gs. \<exists>f \<in> set fs. ref_count g = ref_count f \<and> dev_hnd g = dev_hnd f"
  shows "handles_apart (v', gs)"
proof -
  have le: "next_handle (dev v) \<le> next_handle (dev v')" using assms(2) by (simp add: evolves_def)
  note a = handles_apartD [OF assms(1)]
  have "dev_hnd g < next_handle (dev v')" if g: "g \<in> set gs" for g
  proof -
    obtain f where "f \<in> set fs" "dev_hnd g = dev_hnd f" using assms(3) g by blast
    then show ?thesis using a(1) [of f] le by simp
  qed
  moreover have "ref_count g = ref_count h" if g: "g \<in> set gs" "h \<in> set gs" and e: "dev_hnd g = dev_hnd h" for g h
  proof -
    obtain f where f: "f \<in> set fs" "ref_count g = ref_count f" "dev_hnd g = dev_hnd f" using assms(3) g(1) by blast
    obtain k where k: "k \<in> set fs" "ref_count h = ref_count k" "dev_hnd h = dev_hnd k" using assms(3) g(2) by blast
    show ?thesis using a(2) [OF f(1) k(1)] f(2,3) k(2,3) e by simp
  qed
  ultimately show ?thesis by (rule handles_apartI)
qed

lemma fat_step:
  assumes "vfs_step fat_ops fat_room s t"
  shows "evolves (dev (fst s)) (dev (fst t)) \<and> (handles_apart s \<longrightarrow> handles_apart t)"
  using assms
proof cases
  case (opened path m v f v' fs)
  note o = opened_file [OF opened(3,4)]
  have "handles_apart (v', f # fs)" if a: "handles_apart (v, fs)"
  proof (rule handles_apartI)
    fix g assume g: "g \<in> set (f # fs)"
    show "dev_hnd g < next_handle (dev v')" using g handles_apartD(1) [OF a, of g] o(2,3) by auto
    fix k assume k: "k \<in> set (f # fs)" and e: "dev_hnd g = dev_hnd k"
    show "ref_count g = ref_count k"
    proof (cases "g \<in> set fs \<and> k \<in> set fs")
      case True
      then show ?thesis using handles_apartD(2) [OF a _ _ e] by blast
    next
      case False
      then have "g = k" using g k e handles_apartD(1) [OF a, of g] handles_apartD(1) [OF a, of k] o(2) by auto
      then show ?thesis by simp
    qed
  qed
  then show ?thesis using opened o(1) by simp
next
  case (not_opened path m v e v' fs)
  then show ?thesis using failed_open_evolves [OF not_opened(3)] handles_apart_cong [of v fs v' fs] by auto
next
  case (cloned f fs v f' v')
  have "f' = f" "dev v' = dev v" using cloned(4) by (auto simp: file_clone_def)
  then show ?thesis using cloned handles_apart_cong [of v fs v' "f # fs"] by auto
next
  case (dropped f v v' fs gs)
  then show ?thesis using drop_evolves [OF dropped(3)] handles_apart_cong [of v "fs @ f # gs" v' "fs @ gs"] by auto
next
  case (was_read n f v x f' v' fs gs)
  have e: "evolves (dev v) (dev v')" by (rule used_evolves [OF read_at_facts(1) [OF was_read(3)]]) (simp add: same_evolves)
  show ?thesis using was_read(1,2) e read_at_facts(2) [OF was_read(3) refl] handles_apart_cong [OF _ e, of "fs @ f # gs" "fs @ f' # gs"] by auto
next
  case (not_read n f v e v' fs)
  have e: "evolves (dev v) (dev v')" by (rule used_evolves [OF read_at_facts(1) [OF not_read(3)]]) (simp add: same_evolves)
  then show ?thesis using not_read(1,2) handles_apart_cong [OF _ e, of fs fs] by auto
next
  case (written buf f v x f' v' fs gs)
  have e: "evolves (dev v) (dev v')" by (rule used_evolves [OF write_facts(1) [OF written(3)]]) (simp add: rejected_evolves)
  show ?thesis using written(1,2) e write_facts(2) [OF written(3) refl] handles_apart_cong [OF _ e, of "fs @ f # gs" "fs @ f' # gs"] by auto
next
  case (not_written buf f v e v' fs)
  have e: "evolves (dev v) (dev v')" by (rule used_evolves [OF write_facts(1) [OF not_written(3)]]) (simp add: rejected_evolves)
  then show ?thesis using not_written(1,2) handles_apart_cong [OF _ e, of fs fs] by auto
next
  case (sought delta origin c f x f' v fs gs)
  then have "dev_hnd f' = dev_hnd f" "ref_count f' = ref_count f"
    by (auto simp: file_seek_def Let_def set_cursor_def split: seek_origin.splits seek_cursor.splits if_splits)
  then show ?thesis using sought(1,2) handles_apart_cong [of v "fs @ f # gs" v "fs @ f' # gs"] by auto
next
  case (enumerated f v r v' fs)
  then have "v' = v \<or> (\<exists>x. call_dev (fenum (dev_hnd f)) v = returns (x, v'))"
    by (auto simp: file_enumerate_def throw_def split: if_splits)
  then have e: "evolves (dev v) (dev v')" by (rule used_evolves) (simp add: same_evolves)
  then show ?thesis using enumerated(1,2) handles_apart_cong [OF _ e, of fs fs] by auto
next
  case (executed func buf f v r v' fs)
  then have "v' = v \<or> (\<exists>x. call_dev (fexec (dev_hnd f) func buf) v = returns (x, v'))"
    by (auto simp: file_execute_def throw_def split: if_splits)
  then have e: "evolves (dev v) (dev v')" by (rule used_evolves) (simp add: rejected_evolves)
  then show ?thesis using executed(1,2) handles_apart_cong [OF _ e, of fs fs] by auto
next
  case (mounted m v ok mps fs)
  then show ?thesis using handles_apart_cong [of v fs "v\<lparr>mount_points := mps\<rparr>" fs] by auto
next
  case (unmounted v fs name)
  then show ?thesis using handles_apart_cong [of v fs "v\<lparr>mount_points := unmount name (mount_points v)\<rparr>" fs] by auto
qed

lemma no_handles_apart [simp]: "handles_apart (v, [])"
  by (simp add: handles_apart_def)

lemma fat_reaches:
  "vfs_reaches fat_ops fat_room s t \<Longrightarrow> evolves (dev (fst s)) (dev (fst t)) \<and> (handles_apart s \<longrightarrow> handles_apart t)"
  by (induction rule: vfs_reaches.induct) (auto dest: fat_step intro: evolves_trans)

text \<open>C29. Open files stay well formed, with the FAT driver behind every mount point: whatever sequence
  of opening, cloning, using, seeking, dropping, mounting and unmounting the kernel goes through from a
  state without open files, and as long as the handle counter has not wrapped around, the shared
  counter of every live file is the number of its instances; two live files have the same driver
  handle exactly when they are instances of the same file, which share the counter; and every live
  file whose handle is not 0 is open in the driver. (For handle 0 the last part fails, see C31.)\<close>

theorem open_files_consistent:
  assumes "vfs_reaches fat_ops fat_room (v0, []) (v, fs)" and "open_files (dev v0) = []"
  shows "(\<forall>f \<in> set fs. counts v (ref_count f) = length (filter (\<lambda>g. ref_count g = ref_count f) fs))
    \<and> (\<forall>f \<in> set fs. \<forall>g \<in> set fs. dev_hnd f = dev_hnd g \<longleftrightarrow> ref_count f = ref_count g)
    \<and> (\<forall>f \<in> set fs. dev_hnd f \<noteq> 0 \<longrightarrow> bt_get (open_files (dev v)) (dev_hnd f) \<noteq> None)"
proof -
  have w: "files_wf (fat_handles (dev v)) (v, fs)" using reached_run_ok [OF assms] by (simp add: fat_files.run_ok_def)
  have a: "handles_apart (v, fs)" using fat_reaches [OF assms(1)] no_handles_apart by blast
  have "dev_hnd f = dev_hnd g \<longleftrightarrow> ref_count f = ref_count g" if "f \<in> set fs" "g \<in> set fs" for f g
  proof
    show "ref_count f = ref_count g" if "dev_hnd f = dev_hnd g" by (rule handles_apartD(2) [OF a \<open>f \<in> set fs\<close> \<open>g \<in> set fs\<close> that])
    show "dev_hnd f = dev_hnd g" if "ref_count f = ref_count g" using files_wfD(4) [OF w \<open>f \<in> set fs\<close> \<open>g \<in> set fs\<close> that] by simp
  qed
  moreover have "bt_get (open_files (dev v)) (dev_hnd f) \<noteq> None" if "f \<in> set fs" "dev_hnd f \<noteq> 0" for f
    using files_wfD(3) [OF w that] by simp
  moreover have "counts v (ref_count f) = length (filter (\<lambda>g. ref_count g = ref_count f) fs)" if "f \<in> set fs" for f
    using files_wfD(2) [OF w that] by (simp add: instances_def)
  ultimately show ?thesis by blast
qed

lemma open_files_consistent_witness: "counts demo_opened (ref_count demo_root_file) = 1"
  using open_files_consistent [OF demo_reach demo_start] by simp

lemma bt_remove_id: "bt_get m k = None \<Longrightarrow> bt_remove k m = m"
  unfolding bt_remove_def by (induction m) (auto split: if_splits)

text \<open>C30. Dropping an instance always returns, and closes the file in the driver exactly when it
  is the last instance: while another one lives, the driver is not called.\<close>

theorem last_drop_closes:
  assumes "vfs_reaches fat_ops fat_room (v0, []) (v, fs @ f # gs)" and "open_files (dev v0) = []"
  shows "\<exists>v'. file_drop fat_ops f v = returns v'
    \<and> dev v' = (if \<exists>g \<in> set (fs @ gs). ref_count g = ref_count f then dev v
        else (dev v)\<lparr>open_files := bt_remove (dev_hnd f) (open_files (dev v))\<rparr>)"
proof -
  have w: "files_wf (fat_handles (dev v)) (v, fs @ f # gs)"
    using reached_run_ok [OF assms] by (simp add: fat_files.run_ok_def)
  have n: "counts v (ref_count f) = Suc (instances (ref_count f) (fs @ gs))" using files_wfD(2) [OF w, of f] by simp
  have i: "0 < instances (ref_count f) (fs @ gs) \<longleftrightarrow> (\<exists>g \<in> set (fs @ gs). ref_count g = ref_count f)"
    unfolding neq0_conv [symmetric] instances_0 by blast
  show ?thesis
  proof (cases "0 < instances (ref_count f) (fs @ gs)")
    case True
    then show ?thesis using n i by (simp add: file_drop_def del: instances_simps)
  next
    case False
    then have "\<not> 1 < counts v (ref_count f)" using n by simp
    then show ?thesis using False i
      by (cases "bt_get (open_files (dev v)) (dev_hnd f)")
        (auto simp: file_drop_def call_dev_def fclose_def throw_def succeed_def bt_remove_id)
  qed
qed

lemma last_drop_closes_witness: "\<exists>v'. file_drop fat_ops demo_root_file demo_opened = returns v' \<and> open_files (dev v') = []"
  using last_drop_closes [OF demo_reach demo_start]
  by (auto simp: demo_opened_def demo_dev_def demo_root_file_def bt_remove_def)

text \<open>C31. A failed open closes handle 0: when the driver refuses to open a file, the half-made
  \<^verbatim>\<open>File\<close> that \<^verbatim>\<open>File::open\<close> drops has handle 0 and counts as a last instance. If a live file has this
  handle (the first one opened since the driver started), then from then on, whatever the kernel does
  with its files, every read of a live file with handle 0 that is readable and opened for reading fails with InvalidHandle
  and changes nothing.\<close>

theorem failed_open_closes_handle_0:
  assumes "vfs_reaches fat_ops fat_room (v0, []) (v, fs)" and "open_files (dev v0) = []"
    and "f0 \<in> set fs" "dev_hnd f0 = 0"
    and o: "mount_from_path (mount_points v) path = Inr m" "file_open fat_ops path md v = returns (Inl e, v1)"
    and later: "vfs_reaches fat_ops fat_room (v1, fs) (v2, gs)"
    and f: "f \<in> set gs" "dev_hnd f = 0" "entry_flags (entry f) AND FLG_PERM_READ \<noteq> 0" "file_mode f AND MODE_READ \<noteq> 0"
  shows "file_read_at fat_ops n f v2 = returns (Inl InvalidHandle, v2)"
proof -
  have "fat_handles (dev v1) = fat_handles (dev v) - {(fops m, 0)}"
    by (rule fat_files.not_open_facts(2) [OF reached_run_ok [OF assms(1,2)] o(2,1)])
  then have "((), 0) \<notin> fat_handles (dev v1)" by simp
  then have "bt_get (open_files (dev v1)) 0 = None" by simp
  moreover have "0 < next_handle (dev v1)"
  proof -
    have "handles_apart (v, fs)" using fat_reaches [OF assms(1)] no_handles_apart by blast
    then have "0 < next_handle (dev v)" using handles_apartD(1) [of v fs f0] assms(3,4) by simp
    then show ?thesis using failed_open_evolves [OF o(2)] by (simp add: evolves_def)
  qed
  ultimately have "bt_get (open_files (dev v2)) 0 = None" using fat_reaches [OF later] by (simp add: evolves_def)
  then show ?thesis using f
    by (simp add: file_read_at_def call_dev_def fread_def with_handle_def throw_def try_then_def)
qed

text \<open>The root directory is opened, a second open fails, and the root is cloned and read.\<close>

lemma failed_open_closes_handle_0_witness:
  "\<exists>v2. vfs_reaches fat_ops fat_room (demo_lost, [demo_root_file]) (v2, [demo_root_file, demo_root_file])
     \<and> file_read_at fat_ops 16 demo_root_file v2 = returns (Inl InvalidHandle, v2)"
proof -
  have m: "mount_from_path (mount_points demo_opened) (ascii ''disk0.0'') = Inr demo_mnt"
    by (simp add: demo_opened_def mount_from_path_def ascii_def of_char_def)
  have f: "dev_hnd demo_root_file = 0" "entry_flags (entry demo_root_file) AND FLG_PERM_READ \<noteq> 0"
    "file_mode demo_root_file AND MODE_READ \<noteq> 0"
    by (simp_all add: demo_root_file_def FLG_PERM_READ_def MODE_READ_def)
  obtain v2 where c: "file_clone demo_root_file demo_lost = (demo_root_file, v2)" by (simp add: file_clone_def)
  have r: "vfs_reaches fat_ops fat_room (demo_lost, [demo_root_file]) (v2, [demo_root_file, demo_root_file])"
    by (rule vfs_reaches.step [OF vfs_reaches.start vfs_step.cloned [OF _ c]]) simp
  have o: "demo_root_file \<in> set ([] @ demo_root_file # [])" "demo_root_file \<in> set [demo_root_file, demo_root_file]"
    by simp_all
  have "file_read_at fat_ops 16 demo_root_file v2 = returns (Inl InvalidHandle, v2)"
    by (rule failed_open_closes_handle_0 [OF demo_reach demo_start o(1) f(1) m demo_open_fails _ o(2) f]) (use r in simp)
  then show ?thesis using r by blast
qed

end
