(* ===== verification/Fat_Lookup.thy ===== *)
theory Fat_Lookup
  imports Fat_Props
begin

text \<open>
  Directories: looking up a name and listing the entries, against the list of entries that the
  clusters of the directory hold, and the walk along a path.
\<close>

section \<open>The entries of a directory\<close>

definition entry_at :: "bytes \<Rightarrow> nat \<Rightarrow> dir_ent" where
  "entry_at bs i = dir_ent_from (take 32 (drop (32 * i) bs))"

definition entries_of :: "bytes \<Rightarrow> dir_ent list" where
  "entries_of bs = map (entry_at bs) [0..<length bs div 32]"

definition end_mark :: "dir_ent \<Rightarrow> bool" where
  "end_mark e \<longleftrightarrow> sfn_name e ! 0 = NAME_0_LAST_ENTRY"

text \<open>The entries in front of the end mark.\<close>

definition used_entries :: "bytes \<Rightarrow> dir_ent list" where
  "used_entries bs = takeWhile (\<lambda>e. \<not> end_mark e) (entries_of bs)"

lemma end_mark_not_listed: "end_mark e \<Longrightarrow> \<not> listed e"
  by (simp add: end_mark_def listed_def)

lemma used_nth:
  assumes "i < length (used_entries bs)"
  shows "used_entries bs ! i = entry_at bs i" "\<not> end_mark (entry_at bs i)"
proof -
  have l: "length (used_entries bs) \<le> length (entries_of bs)"
    unfolding used_entries_def by (rule length_takeWhile_le)
  have e: "entries_of bs ! i = entry_at bs i" using assms l by (simp add: entries_of_def)
  show "used_entries bs ! i = entry_at bs i"
    using assms e takeWhile_nth [of i "\<lambda>e. \<not> end_mark e" "entries_of bs"] by (simp add: used_entries_def)
  then show "\<not> end_mark (entry_at bs i)"
    using nth_mem [OF assms] unfolding used_entries_def by (metis set_takeWhileD)
qed

lemma end_mark_at:
  assumes "\<exists>e \<in> set (entries_of bs). end_mark e"
  shows "length (used_entries bs) < length bs div 32" "end_mark (entry_at bs (length (used_entries bs)))"
proof -
  let ?k = "length (used_entries bs)"
  have "used_entries bs \<noteq> entries_of bs"
    using assms unfolding used_entries_def by (metis set_takeWhileD)
  moreover have "?k \<le> length (entries_of bs)" unfolding used_entries_def by (rule length_takeWhile_le)
  ultimately have k: "?k < length (entries_of bs)"
    unfolding used_entries_def by (metis nless_le takeWhile_eq_take take_all_iff)
  then show "?k < length bs div 32" by (simp add: entries_of_def)
  have "end_mark (entries_of bs ! ?k)" using k nth_length_takeWhile [of "\<lambda>e. \<not> end_mark e" "entries_of bs"]
    by (simp add: used_entries_def)
  then show "end_mark (entry_at bs ?k)" using k by (simp add: entries_of_def)
qed

text \<open>The directory \<open>f\<close> on the disk of \<open>b\<close>, whose sectors hold whole entries.\<close>

definition dir_geom :: "fat_file \<Rightarrow> disk \<Rightarrow> nat list \<Rightarrow> bool" where
  "dir_geom f d cs \<longleftrightarrow> is_directory f \<and> file_geom f d cs \<and> 32 dvd sector_bytes d"

lemma length_cluster_bytes: "length (cluster_bytes f D cs) = length cs * file_cluster_size f"
  by (induction cs) (simp_all add: cluster_bytes_def)

lemma read_entry:
  assumes g: "dir_geom f d cs" and ok: "bdio_ok D b" "frame_held bm0 (b, bm)" "free_set bm0 \<noteq> {}" "io_disk b = d"
    and i: "i < length (cluster_bytes f D cs) div 32"
  obtains v b' bm' where "read_int f (32 * i) 32 (b, bm)
      = returns (Inr (v, take 32 (drop (32 * i) (cluster_bytes f D cs))), b', bm')"
    "bdio_ok D b'" "frame_held bm0 (b', bm')" "io_disk b' = d"
proof -
  let ?cz = "file_cluster_size f" and ?ss = "sector_bytes d"
  have g': "is_directory f" "file_geom f d cs" "32 dvd ?ss" using g by (simp_all add: dir_geom_def)
  note fg = file_geomD(2-4) [OF g'(2)]
  have ss: "0 < ?ss" "?ss dvd 4096" using ok(1,4) by (simp_all add: bdio_ok_def disk_serves_def)
  have cz: "32 dvd ?cz" "0 < ?cz" using fg g'(3) ss(1) by simp_all
  have fits: "32 * i mod n + 32 \<le> n" if n: "32 dvd n" "0 < n" for n
  proof -
    obtain m where m: "n = 32 * m" using n(1) by (elim dvdE)
    then have "i mod m < m" using n(2) by simp
    then show ?thesis unfolding m by (simp flip: mult_mod_right)
  qed
  have sp: "read_span f (32 * i) 32 = 32" using fits [OF cz] g'(1) by (simp add: read_span_def)
  have "?ss \<le> 4096" using ss(2) by (simp add: dvd_imp_le)
  then have fit: "32 * i mod ?ss + read_span f (32 * i) 32 \<le> 4096" unfolding sp using fits [OF g'(3) ss(1)] by linarith
  have off: "32 * i < length cs * ?cz" using i unfolding length_cluster_bytes by simp
  have n: "0 < (32 :: nat)" "(32 :: nat) < 2 ^ 63" "is_directory f \<or> 32 * i < size_bytes f" using g'(1) by simp_all
  show thesis
    by (rule read_int_ok [OF g'(2) ok off n(3) n(1,2) fit]) (use that sp in auto)
qed

lemma length_entry: "i < length bs div 32 \<Longrightarrow> length (take 32 (drop (32 * i) bs)) = 32"
  by simp

section \<open>Looking up a name\<close>

abbreviation named :: "bytes \<Rightarrow> dir_ent \<Rightarrow> bool" where
  "named s e \<equiv> listed e \<and> sfn_match e s"

lemma find_child_ok:
  assumes g: "dir_geom f d cs" and ne: "free_set bm0 \<noteq> {}"
    and bs: "bs = cluster_bytes f D cs" and fin: "\<exists>e \<in> set (entries_of bs). end_mark e" and small: "length bs < 2 ^ 62"
  shows "i \<le> length (used_entries bs) \<Longrightarrow> bdio_ok D b \<Longrightarrow> frame_held bm0 (b, bm) \<Longrightarrow> io_disk b = d \<Longrightarrow>
    \<exists>b' bm'. find_child_from f s (32 * i) (b, bm)
      = returns (case List.find (named s) (drop i (used_entries bs)) of None \<Rightarrow> Inl InvalidPath | Some e \<Rightarrow> Inr e, b', bm')
    \<and> frame_held bm0 (b', bm')"
proof (induction "length (used_entries bs) - i" arbitrary: i b bm)
  case 0
  let ?n = "length (used_entries bs)"
  have i: "i = ?n" using 0 by simp
  have n: "?n < length bs div 32" "end_mark (entry_at bs ?n)" using end_mark_at [OF fin] by simp_all
  obtain v b' bm' where r: "read_int f (32 * ?n) 32 (b, bm) = returns (Inr (v, take 32 (drop (32 * ?n) bs)), b', bm')"
    "frame_held bm0 (b', bm')"
    using read_entry [OF g 0(3,4) ne 0(5), of ?n] n(1) unfolding bs by metis
  have "\<not> listed (entry_at bs ?n)" by (rule end_mark_not_listed [OF n(2)])
  then have "find_child_from f s (32 * ?n) (b, bm) = throw InvalidPath (b', bm')"
    using n length_entry [OF n(1)] by (subst find_child_from.simps) (simp add: r Let_def entry_at_def end_mark_def del: length_take)
  then show ?case using r(2) by (simp add: i throw_def)
next
  case (Suc k)
  have i: "i < length (used_entries bs)" using Suc(2) by simp
  have ib: "i < length bs div 32" using i end_mark_at(1) [OF fin] by simp
  let ?e = "entry_at bs i"
  have e: "used_entries bs ! i = ?e" "\<not> end_mark ?e" using used_nth [OF i] by simp_all
  have dr: "drop i (used_entries bs) = ?e # drop (Suc i) (used_entries bs)"
    using e(1) i by (simp add: Cons_nth_drop_Suc [symmetric])
  obtain v b' bm' where r: "read_int f (32 * i) 32 (b, bm) = returns (Inr (v, take 32 (drop (32 * i) bs)), b', bm')"
    "bdio_ok D b'" "frame_held bm0 (b', bm')" "io_disk b' = d"
    using read_entry [OF g Suc(4,5) ne Suc(6), of i] ib unfolding bs by metis
  have u: "uadd (32 * i) 32 = 32 * Suc i" using ib small by (simp add: uadd_exact)
  have st: "find_child_from f s (32 * i) (b, bm)
      = (if named s ?e then succeed ?e (b', bm') else find_child_from f s (32 * Suc i) (b', bm'))"
    using length_entry [OF ib] e(2) u
    by (subst find_child_from.simps) (simp add: r Let_def entry_at_def end_mark_def del: length_take mult_Suc_right)
  show ?case
  proof (cases "named s ?e")
    case True
    then show ?thesis using st r(3) by (simp add: dr succeed_def)
  next
    case False
    have "\<exists>b2 bm2. find_child_from f s (32 * Suc i) (b', bm')
      = returns (case List.find (named s) (drop (Suc i) (used_entries bs)) of None \<Rightarrow> Inl InvalidPath | Some e \<Rightarrow> Inr e, b2, bm2)
      \<and> frame_held bm0 (b2, bm2)"
      by (rule Suc(1)) (use Suc(2) i r in simp_all)
    then show ?thesis using False by (simp only: st dr List.find.simps if_False)
  qed
qed

text \<open>A directory stored as a cluster chain, with its contents, among them an end mark. (The root
  directory of FAT12 and FAT16 volumes is a fixed range of sectors instead, and outside this.)\<close>

definition directory_of :: "disk list \<Rightarrow> (nat \<Rightarrow> u8) \<Rightarrow> fat_file \<Rightarrow> bytes \<Rightarrow> bool" where
  "directory_of disks D f bs \<longleftrightarrow> (\<exists>cs. dir_geom f (disks ! file_disk f) cs \<and> bs = cluster_bytes f D cs)
     \<and> (\<exists>e \<in> set (entries_of bs). end_mark e)"

lemma directoryD:
  assumes "directory_of disks D f bs"
  obtains cs where "dir_geom f (disks ! file_disk f) cs" "bs = cluster_bytes f D cs" "is_directory f" "length bs < 2 ^ 62"
    "\<exists>e \<in> set (entries_of bs). end_mark e"
proof -
  obtain cs where cs: "dir_geom f (disks ! file_disk f) cs" "bs = cluster_bytes f D cs"
    using assms by (auto simp: directory_of_def)
  have g: "is_directory f" "file_geom f (disks ! file_disk f) cs" using cs(1) by (simp_all add: dir_geom_def)
  have "length bs < 2 ^ 62" using file_geomD(5) [OF g(2)] by (simp add: cs(2) length_cluster_bytes)
  then show thesis using that [OF cs g(1)] assms by (simp add: directory_of_def)
qed

lemma find_child_lookup:
  assumes io: "io_ready disks (file_disk f) D bm" and dir: "directory_of disks D f bs"
  shows "\<exists>bm'. find_child_by_name disks f s bm
      = returns (case List.find (named s) (used_entries bs) of None \<Rightarrow> Inl InvalidPath | Some e \<Rightarrow> Inr e, bm')
    \<and> same_frames bm bm'"
proof -
  obtain cs where d: "dir_geom f (disks ! file_disk f) cs" "bs = cluster_bytes f D cs" "is_directory f" "length bs < 2 ^ 62"
    "\<exists>e \<in> set (entries_of bs). end_mark e"
    by (rule directoryD [OF dir])
  let ?r = "case List.find (named s) (used_entries bs) of None \<Rightarrow> Inl InvalidPath | Some e \<Rightarrow> Inr e"
  have ne: "free_set bm \<noteq> {}" using io by (simp add: io_ready_def)
  have "\<exists>x (b' :: bdio) bm'. with_bdio disks (file_disk f) (find_child_from f s 0) bm = returns (x, bm')
    \<and> same_frames bm bm' \<and> x = ?r \<and> (io_buffer b' \<noteq> 0 \<longrightarrow> frame_of (io_buffer b') \<in> free_set bm')"
  proof (rule with_bdio_ok [where P = "\<lambda>x b'. x = ?r", OF io])
    fix b assume b: "bdio_ok D b" "frame_held bm (b, bm)" "io_disk b = disks ! file_disk f"
    show "\<exists>x b' bm'. find_child_from f s 0 (b, bm) = returns (x, b', bm') \<and> frame_held bm (b', bm') \<and> x = ?r"
      using find_child_ok [OF d(1) ne d(2,5,4), of 0 b bm s] b by auto
  qed
  then show ?thesis using d(3) by (auto simp: find_child_by_name_def)
qed

section \<open>A sample tree\<close>

text \<open>A FAT32 volume whose root directory (cluster 2) holds \<^verbatim>\<open>README.TXT\<close>, the bytes \<open>bs\<close>, at
  most 1024, in the clusters 3 and 4.\<close>

definition tree_content :: "bytes \<Rightarrow> nat \<Rightarrow> u8" where
  "tree_content bs = (\<lambda>a. if 1536 \<le> a \<and> a - 1536 < length bs then bs ! (a - 1536) else 0)
     (520 := 0xF8, 521 := 0xFF, 522 := 0xFF, 523 := 0x0F, 524 := 4, 528 := 0xF8, 529 := 0xFF, 530 := 0xFF, 531 := 0x0F,
      1024 := 0x52, 1025 := 0x45, 1026 := 0x41, 1027 := 0x44, 1028 := 0x4D, 1029 := 0x45, 1030 := 0x20, 1031 := 0x20,
      1032 := 0x54, 1033 := 0x58, 1034 := 0x54, 1035 := 0x20, 1050 := 3,
      1052 := of_nat (length bs), 1053 := of_nat (length bs div 256))"

definition tree_disk :: "bytes \<Rightarrow> disk" where
  "tree_disk bs = \<lparr>sector_bytes = 512, sector_count = 16,
     issue_io = (\<lambda>lba n buf. map (tree_content bs) [lba * 512..<lba * 512 + 4096])\<rparr>"

definition tree_volume :: fat_volume where
  "tree_volume = demo_volume\<lparr>kind := FAT32, root32_cluster0 := 2, data_start_sector := 2\<rparr>"

definition tree_root :: fat_file where
  "tree_root = make_file tree_volume
     \<lparr>sfn_name = ascii ''<ROOT_DIRE>'', attr = ATTR_DIRECTORY, nt_res = 0, create_time_tenth = 0,
      create_time = 0, create_date = 0, access_date = 0, first_cluster_hi = 0, write_time = 0, write_date = 0,
      first_cluster_lo = 2, file_size = 0\<rparr> (FATFile [2])"

definition readme_entry :: "nat \<Rightarrow> dir_ent" where
  "readme_entry n = \<lparr>sfn_name = ascii ''README  TXT'', attr = 0x20, nt_res = 0, create_time_tenth = 0, create_time = 0,
     create_date = 0, access_date = 0, first_cluster_hi = 0, write_time = 0, write_date = 0,
     first_cluster_lo = 3, file_size = n\<rparr>"

definition readme_file :: "nat \<Rightarrow> fat_file" where
  "readme_file n = make_file tree_volume (readme_entry n) (FATFile [3, 4])"

lemmas tree_defs = tree_volume_def demo_volume_def tree_root_def make_file_def readme_file_def readme_entry_def

lemma tree_serves: "disk_serves (tree_disk bs) (tree_content bs)"
  by (simp add: disk_serves_def tree_disk_def disk_bytes_def)

lemma tree_ready: "io_ready [tree_disk bs] 0 (tree_content bs) demo_bitmap"
  by (simp add: io_ready_def tree_serves demo_ok demo_free_set)

lemma tree_root_bytes: "cluster_bytes tree_root (tree_content bs) [2] = disk_data (tree_content bs) 1024 512"
  by (simp add: cluster_bytes_def cluster_addr_def tree_defs)

lemma entry_at_disk: "32 * i + 32 \<le> n \<Longrightarrow> entry_at (disk_data D a n) i = dir_ent_from (disk_data D (a + 32 * i) 32)"
  by (simp add: entry_at_def disk_data_def drop_map take_map add.commute)

lemma size_field: "n < 65536 \<Longrightarrow> unat (of_nat n :: u8) + 256 * unat (of_nat (n div 256) :: u8) = n"
  by (simp add: unsigned_of_nat take_bit_eq_mod)

lemma tree_entries:
  assumes "length bs \<le> 1024"
  shows "entry_at (disk_data (tree_content bs) 1024 512) 0 = readme_entry (length bs)"
    and "end_mark (entry_at (disk_data (tree_content bs) 1024 512) 1)"
  using assms size_field [of "length bs"]
  by (simp_all add: entry_at_disk end_mark_def)
    (simp_all add: disk_data_def upt_rec dir_ent_from_def field_def le_nat_def tree_content_def readme_entry_def ascii_def of_char_def)

lemma tree_used:
  assumes "length bs \<le> 1024"
  shows "used_entries (disk_data (tree_content bs) 1024 512) = [readme_entry (length bs)]"
    and "\<exists>e \<in> set (entries_of (disk_data (tree_content bs) 1024 512)). end_mark e"
proof -
  let ?d = "disk_data (tree_content bs) 1024 512"
  have "[0..<16] = 0 # 1 # [2..<16]" by (simp add: upt_rec)
  then have e: "entries_of ?d = readme_entry (length bs) # entry_at ?d 1 # map (entry_at ?d) [2..<16]"
    using tree_entries(1) [OF assms] by (simp add: entries_of_def del: upt_rec_numeral)
  have "\<not> end_mark (readme_entry n)" for n by (simp add: end_mark_def readme_entry_def ascii_def of_char_def)
  then show "used_entries ?d = [readme_entry (length bs)]"
    using tree_entries(2) [OF assms] unfolding used_entries_def e by simp
  show "\<exists>e \<in> set (entries_of ?d). end_mark e" using tree_entries(2) [OF assms] unfolding e by auto
qed

lemma tree_directory:
  assumes "length bs \<le> 1024"
  shows "directory_of [tree_disk bs] (tree_content bs) tree_root (disk_data (tree_content bs) 1024 512)"
proof -
  have "dir_geom tree_root ([tree_disk bs] ! file_disk tree_root) [2]"
    by (simp add: dir_geom_def file_geom_def is_directory_def size_bytes_def cluster_addr_def disk_bytes_def tree_disk_def
        ATTR_DIRECTORY_def tree_defs)
  then show ?thesis using tree_used(2) [OF assms] tree_root_bytes unfolding directory_of_def by metis
qed

lemma readme_named: "listed (readme_entry n)" "sfn_match (readme_entry n) (ascii ''readme.txt'')"
proof -
  show "listed (readme_entry n)"
    by (simp add: listed_def readme_entry_def ascii_def of_char_def ATTR_LONG_FILE_NAME_def)
  have "sfn_match (readme_entry 0) (ascii ''readme.txt'')" by code_simp
  then show "sfn_match (readme_entry n) (ascii ''readme.txt'')" by (simp add: sfn_match_def readme_entry_def)
qed

text \<open>C33. Looking up a name in a directory that is stored as a cluster chain and has an end mark finds
  what a search of its entries finds: the first entry in front of the end mark that is listed and whose
  short name matches, or \<^verbatim>\<open>InvalidPath\<close> when there is none. No memory frame is lost. (The fixed root
  directories of FAT12 and FAT16 are not cluster chains, and in a directory without an end mark the
  search for a missing name runs into an error of the disk instead.)\<close>

theorem directory_lookup:
  assumes "io_ready disks (file_disk f) D bm" "directory_of disks D f bs"
  shows "\<exists>bm'. find_child_by_name disks f s bm
      = returns (case List.find (\<lambda>e. listed e \<and> sfn_match e s) (used_entries bs) of None \<Rightarrow> Inl InvalidPath | Some e \<Rightarrow> Inr e, bm')
    \<and> same_frames bm bm'"
  by (rule find_child_lookup [OF assms])

lemma directory_lookup_witness:
  "\<exists>bm'. find_child_by_name [tree_disk [1, 2]] tree_root (ascii ''readme.txt'') demo_bitmap = returns (Inr (readme_entry 2), bm')
    \<and> same_frames demo_bitmap bm'"
proof -
  have "io_ready [tree_disk [1, 2]] (file_disk tree_root) (tree_content [1, 2]) demo_bitmap"
    using tree_ready by (simp add: tree_defs)
  from directory_lookup [OF this tree_directory, of "ascii ''readme.txt''"] show ?thesis using readme_named
    by (simp add: tree_used numeral_2_eq_2)
qed

section \<open>Listing\<close>

lemma dir_entries_ok:
  assumes g: "dir_geom f d cs" and ne: "free_set bm0 \<noteq> {}"
    and bs: "bs = cluster_bytes f D cs" and fin: "\<exists>e \<in> set (entries_of bs). end_mark e" and small: "length bs < 2 ^ 62"
  shows "i \<le> length (used_entries bs) \<Longrightarrow> bdio_ok D b \<Longrightarrow> frame_held bm0 (b, bm) \<Longrightarrow> io_disk b = d \<Longrightarrow>
    \<exists>b' bm'. dir_entries_from f v (32 * i) (b, bm) = returns (Inr (v @ filter listed (drop i (used_entries bs))), b', bm')
    \<and> frame_held bm0 (b', bm')"
proof (induction "length (used_entries bs) - i" arbitrary: i v b bm)
  case 0
  let ?n = "length (used_entries bs)"
  have i: "i = ?n" using 0 by simp
  have n: "?n < length bs div 32" "end_mark (entry_at bs ?n)" using end_mark_at [OF fin] by simp_all
  obtain va b' bm' where r: "read_int f (32 * ?n) 32 (b, bm) = returns (Inr (va, take 32 (drop (32 * ?n) bs)), b', bm')"
    "frame_held bm0 (b', bm')"
    using read_entry [OF g 0(3,4) ne 0(5), of ?n] n(1) unfolding bs by metis
  have "\<not> listed (entry_at bs ?n)" by (rule end_mark_not_listed [OF n(2)])
  then have "dir_entries_from f v (32 * ?n) (b, bm) = succeed v (b', bm')"
    using n length_entry [OF n(1)] by (subst dir_entries_from.simps) (simp add: r Let_def entry_at_def end_mark_def del: length_take)
  then show ?case using r(2) by (simp add: i succeed_def)
next
  case (Suc k)
  have i: "i < length (used_entries bs)" using Suc(2) by simp
  have ib: "i < length bs div 32" using i end_mark_at(1) [OF fin] by simp
  let ?e = "entry_at bs i"
  have e: "used_entries bs ! i = ?e" "\<not> end_mark ?e" using used_nth [OF i] by simp_all
  have dr: "drop i (used_entries bs) = ?e # drop (Suc i) (used_entries bs)"
    using e(1) i by (simp add: Cons_nth_drop_Suc [symmetric])
  obtain va b' bm' where r: "read_int f (32 * i) 32 (b, bm) = returns (Inr (va, take 32 (drop (32 * i) bs)), b', bm')"
    "bdio_ok D b'" "frame_held bm0 (b', bm')" "io_disk b' = d"
    using read_entry [OF g Suc(4,5) ne Suc(6), of i] ib unfolding bs by metis
  have u: "uadd (32 * i) 32 = 32 * Suc i" using ib small by (simp add: uadd_exact)
  have st: "dir_entries_from f v (32 * i) (b, bm)
      = dir_entries_from f (if listed ?e then v @ [?e] else v) (32 * Suc i) (b', bm')"
    using length_entry [OF ib] e(2) u
    by (subst dir_entries_from.simps) (simp add: r Let_def entry_at_def end_mark_def del: length_take mult_Suc_right)
  have "\<exists>b2 bm2. dir_entries_from f (if listed ?e then v @ [?e] else v) (32 * Suc i) (b', bm')
      = returns (Inr ((if listed ?e then v @ [?e] else v) @ filter listed (drop (Suc i) (used_entries bs))), b2, bm2)
    \<and> frame_held bm0 (b2, bm2)"
    by (rule Suc(1)) (use Suc(2) i r in simp_all)
  then show ?case unfolding st dr by (cases "listed ?e") simp_all
qed

lemma dir_entries_list:
  assumes io: "io_ready disks (file_disk f) D bm" and dir: "directory_of disks D f bs"
  shows "\<exists>bm'. dir_entries disks f bm = returns (Inr (filter listed (used_entries bs)), bm') \<and> same_frames bm bm'"
proof -
  obtain cs where d: "dir_geom f (disks ! file_disk f) cs" "bs = cluster_bytes f D cs" "is_directory f" "length bs < 2 ^ 62"
    "\<exists>e \<in> set (entries_of bs). end_mark e"
    by (rule directoryD [OF dir])
  let ?r = "Inr (filter listed (used_entries bs))"
  have ne: "free_set bm \<noteq> {}" using io by (simp add: io_ready_def)
  have "\<exists>x (b' :: bdio) bm'. with_bdio disks (file_disk f) (dir_entries_from f [] 0) bm = returns (x, bm')
    \<and> same_frames bm bm' \<and> x = ?r \<and> (io_buffer b' \<noteq> 0 \<longrightarrow> frame_of (io_buffer b') \<in> free_set bm')"
  proof (rule with_bdio_ok [where P = "\<lambda>x b'. x = ?r", OF io])
    fix b assume b: "bdio_ok D b" "frame_held bm (b, bm)" "io_disk b = disks ! file_disk f"
    show "\<exists>x b' bm'. dir_entries_from f [] 0 (b, bm) = returns (x, b', bm') \<and> frame_held bm (b', bm') \<and> x = ?r"
      using dir_entries_ok [OF d(1) ne d(2,5,4), of 0 b bm "[]"] b by auto
  qed
  then show ?thesis using d(3) by (auto simp: dir_entries_def)
qed

section \<open>Walking a path\<close>

text \<open>What the tree of directories on the disk says about a path.\<close>

inductive leads :: "disk list \<Rightarrow> (nat \<Rightarrow> u8) \<Rightarrow> fat_volume \<Rightarrow> fat_file \<Rightarrow> bytes list \<Rightarrow> fat_file \<Rightarrow> bool" for disks D vol where
  here: "leads disks D vol f [] f"
| down: "leads disks D vol f (name # names) h" if
    "name \<noteq> []" "file_disk f = disk_index vol" "directory_of disks D f bs" "List.find (named name) (used_entries bs) = Some e"
    "fat_links (fat_at vol D) (first_cluster e # cs)" "first_cluster e \<noteq> 0"
    "\<forall>c \<in> set (first_cluster e # cs). fat_covers vol (disks ! disk_index vol) c"
    "leads disks D vol (make_file vol e (FATFile (first_cluster e # cs))) names h"

lemma same_frames_trans: "same_frames a b \<Longrightarrow> same_frames b c \<Longrightarrow> same_frames a c"
  by (simp add: same_frames_def)

lemma same_frames_ready: "same_frames bm bm' \<Longrightarrow> io_ready ds i D bm \<Longrightarrow> io_ready ds i D bm'"
  by (simp add: same_frames_def io_ready_def)

lemma walk_leads:
  "leads disks D vol f names h \<Longrightarrow> io_ready disks (disk_index vol) D bm \<Longrightarrow>
    \<exists>bm'. walk_path disks vol names f bm = returns (Inr h, bm') \<and> (names = [] \<or> same_frames bm bm') \<and> io_ready disks (disk_index vol) D bm'"
proof (induction arbitrary: bm rule: leads.induct)
  case (here f)
  then show ?case by (auto simp: succeed_def)
next
  case (down name f bs e cs names h)
  let ?g = "make_file vol e (FATFile (first_cluster e # cs))"
  have io: "io_ready disks (file_disk f) D bm" using down by simp
  have dir: "is_directory f" by (rule directoryD [OF down(3)])
  obtain bm1 where b1: "find_child_by_name disks f name bm = returns (Inr e, bm1)" "same_frames bm bm1"
    using find_child_lookup [OF io down(3), of name] down(4) by auto
  have io1: "io_ready disks (disk_index vol) D bm1" by (rule same_frames_ready [OF b1(2)]) (use down in simp)
  obtain bm2 where b2: "from_dir_entry disks vol e bm1 = returns (Inr ?g, bm2)" "same_frames bm1 bm2"
    using from_dir_entry_chain [OF io1 down(5,7,6)] by blast
  have io2: "io_ready disks (disk_index vol) D bm2" by (rule same_frames_ready [OF b2(2) io1])
  obtain bm3 where b3: "walk_path disks vol names ?g bm2 = returns (Inr h, bm3)" "names = [] \<or> same_frames bm2 bm3"
    "io_ready disks (disk_index vol) D bm3"
    using down(9) [OF io2] by blast
  have w: "walk_path disks vol (name # names) f bm = returns (Inr h, bm3)" using down(1) dir b1(1) b2(1) b3(1) by simp
  have "same_frames bm bm3"
  proof (cases "names = []")
    case True
    then show ?thesis using same_frames_trans [OF b1(2) b2(2)] b3(1) by (simp add: succeed_def)
  next
    case False
    then show ?thesis using b3(2) same_frames_trans [OF same_frames_trans [OF b1(2) b2(2)]] by blast
  qed
  then show ?case using w b3(3) by blast
qed

text \<open>The whole path, from the root of a volume whose root directory is a chain of clusters.\<close>

definition root_entry :: "fat_volume \<Rightarrow> dir_ent" where
  "root_entry vol = \<lparr>sfn_name = ascii ''<ROOT_DIRE>'', attr = ATTR_DIRECTORY, nt_res = 0, create_time_tenth = 0,
     create_time = 0, create_date = 0, access_date = 0,
     first_cluster_hi = root32_cluster0 vol div 65536 mod 65536, write_time = 0, write_date = 0,
     first_cluster_lo = root32_cluster0 vol mod 65536, file_size = 0\<rparr>"

definition tree_leads :: "disk list \<Rightarrow> (nat \<Rightarrow> u8) \<Rightarrow> fat_volume \<Rightarrow> bytes \<Rightarrow> fat_file \<Rightarrow> bool" where
  "tree_leads disks D vol path h \<longleftrightarrow> (\<exists>cs. let c = first_cluster (root_entry vol) in
     c \<noteq> 0 \<and> fat_links (fat_at vol D) (c # cs) \<and> (\<forall>x \<in> set (c # cs). fat_covers vol (disks ! disk_index vol) x)
     \<and> leads disks D vol (make_file vol (root_entry vol) (FATFile (c # cs)))
         (split_byte SLASH (if path \<noteq> [] \<and> hd path = SLASH then tl path else path)) h)"

lemma from_path_leads:
  assumes io: "io_ready disks (disk_index vol) D bm" and t: "tree_leads disks D vol path h"
  shows "\<exists>bm'. from_path disks vol path bm = returns (Inr h, bm') \<and> io_ready disks (disk_index vol) D bm'"
proof -
  let ?c = "first_cluster (root_entry vol)" and ?names = "split_byte SLASH (if path \<noteq> [] \<and> hd path = SLASH then tl path else path)"
  obtain cs where cs: "?c \<noteq> 0" "fat_links (fat_at vol D) (?c # cs)" "\<forall>x \<in> set (?c # cs). fat_covers vol (disks ! disk_index vol) x"
    "leads disks D vol (make_file vol (root_entry vol) (FATFile (?c # cs))) ?names h"
    using t by (auto simp: tree_leads_def Let_def)
  have r: "from_root disks vol = from_dir_entry disks vol (root_entry vol)" by (simp add: from_root_def root_entry_def)
  obtain bm1 where b1: "from_root disks vol bm = returns (Inr (make_file vol (root_entry vol) (FATFile (?c # cs))), bm1)"
    "same_frames bm bm1"
    using from_dir_entry_chain [OF io cs(2,3,1)] unfolding r by blast
  show ?thesis
    using walk_leads [OF cs(4) same_frames_ready [OF b1(2) io]] b1(1) by (auto simp: from_path_def)
qed

lemma tree_readme:
  assumes "length bs \<le> 1024"
  shows "tree_leads [tree_disk bs] (tree_content bs) tree_volume (ascii ''/readme.txt'') (readme_file (length bs))"
proof -
  let ?e = "readme_entry (length bs)" and ?D = "tree_content bs" and ?ds = "[tree_disk bs]"
  have r: "first_cluster (root_entry tree_volume) = 2" "make_file tree_volume (root_entry tree_volume) (FATFile [2]) = tree_root"
    by (simp_all add: first_cluster_def root_entry_def tree_defs)
  have fat: "fat_at tree_volume ?D 2 = EndOfChain" "fat_at tree_volume ?D 3 = InUse 4" "fat_at tree_volume ?D 4 = EndOfChain"
    by (simp_all add: fat_at_def fat_base_def tree_volume_def demo_volume_def disk_data_def le_nat_def tree_content_def)
  have cov: "fat_covers tree_volume (?ds ! disk_index tree_volume) c" if "c \<le> 4" for c
    using that by (simp add: fat_covers_def fat_base_def tree_defs tree_disk_def disk_bytes_def)
  have e: "first_cluster ?e = 3" by (simp add: first_cluster_def readme_entry_def)
  have "leads ?ds ?D tree_volume tree_root [ascii ''readme.txt''] (readme_file (length bs))"
  proof (rule leads.down [OF _ _ tree_directory [OF assms], of "ascii ''readme.txt''" tree_volume ?e "[4]" "[]"])
    show "List.find (named (ascii ''readme.txt'')) (used_entries (disk_data ?D 1024 512)) = Some ?e"
      using readme_named by (simp add: tree_used [OF assms])
    show "\<forall>c \<in> set (first_cluster ?e # [4]). fat_covers tree_volume (?ds ! disk_index tree_volume) c"
      using cov by (simp add: e)
    show "leads ?ds ?D tree_volume (make_file tree_volume ?e (FATFile (first_cluster ?e # [4]))) [] (readme_file (length bs))"
      using leads.here by (simp add: e readme_file_def)
    show "fat_links (fat_at tree_volume ?D) (first_cluster ?e # [4])" by (simp add: e fat)
    show "first_cluster ?e \<noteq> 0" "ascii ''readme.txt'' \<noteq> []" by (simp_all add: e ascii_def)
    show "file_disk tree_root = disk_index tree_volume" by (simp add: tree_root_def make_file_def)
  qed
  moreover have "split_byte SLASH (ascii ''readme.txt'') = [ascii ''readme.txt'']" by code_simp
  moreover have "ascii ''/readme.txt'' = SLASH # ascii ''readme.txt''" by (simp add: ascii_def of_char_def)
  ultimately show ?thesis using fat cov by (auto simp: tree_leads_def r intro: exI [of _ "[]"])
qed

end
