(* ===== verification/User_File_Props.thy ===== *)
theory User_File_Props
  imports User_File Fat_Files Fat_Lookup
begin

text \<open>
  Reading a file through all the layers: the loop of the user's \<^verbatim>\<open>File::read\<close>, the system call,
  the descriptor table, the open file, the FAT driver and the disk.
\<close>

section \<open>A source of bytes\<close>

text \<open>What one call of \<^verbatim>\<open>fread\<close> promises below the end of the contents: at least one byte, and the
  bytes at the offset.\<close>

locale byte_source =
  fixes rd :: "usize \<Rightarrow> bytes \<Rightarrow> ('k, usize \<times> bytes) fallible" and content :: bytes and ok :: "'k \<Rightarrow> bool"
  assumes read_some: "ok k \<Longrightarrow> off < length content \<Longrightarrow> buf \<noteq> [] \<Longrightarrow> length buf < 2 ^ 62 \<Longrightarrow>
      \<exists>m k'. rd off buf k = returns (Inr (m, overwrite (take m (drop off content)) buf), k') \<and> ok k'
        \<and> 0 < m \<and> m \<le> length buf \<and> off + m \<le> length content"
begin

lemma loop_reads:
  assumes "ok k" "\<not> is_stream f" "length buf < 2 ^ 62" "length content < 2 ^ 62" "sofar \<le> length buf"
    "n = min (length buf) (sofar + (length content - rd_offset f))"
  shows "\<exists>k'. read_loop rd n sofar buf (f, k)
      = returns (Inr (n, take sofar buf @ take (n - sofar) (drop (rd_offset f) content) @ drop n buf),
          f\<lparr>rd_offset := rd_offset f + (n - sofar)\<rparr>, k') \<and> ok k'"
  using assms
proof (induction "n - sofar" arbitrary: sofar buf f k rule: less_induct)
  case less
  show ?case
  proof (cases "sofar \<ge> n")
    case True
    then have n: "n = sofar" using less.prems(5,6) by simp
    show ?thesis using less.prems(1) unfolding n by (subst read_loop.simps) simp
  next
    case False
    let ?o = "rd_offset f"
    have o: "?o < length content" "drop sofar buf \<noteq> []" using False less.prems(6) by simp_all
    obtain m k1 where r: "rd ?o (drop sofar buf) k = returns (Inr (m, overwrite (take m (drop ?o content)) (drop sofar buf)), k1)"
      and k1: "ok k1" and m: "0 < m" "m \<le> length buf - sofar" "?o + m \<le> length content"
      using read_some [OF less.prems(1) o] less.prems(3) by (auto simp: less_imp_diff_less)
    let ?buf = "take sofar buf @ overwrite (take m (drop ?o content)) (drop sofar buf)"
    let ?f = "f\<lparr>rd_offset := ?o + m\<rparr>"
    have u: "uadd sofar m = sofar + m" "uadd ?o m = ?o + m" using m less.prems(3,4) by (simp_all add: uadd_exact)
    have lt: "length (take m (drop ?o content)) = m" using m(3) by simp
    have lb: "length ?buf = length buf" using m(2) less.prems(5) lt by (simp add: overwrite_def)
    have n': "n = min (length ?buf) (sofar + m + (length content - rd_offset ?f))" unfolding lb using less.prems(6) m by simp
    have st: "\<not> is_stream ?f" using less.prems(2) by (simp add: is_stream_def)
    have lbd: "length ?buf < 2 ^ 62" unfolding lb by (rule less.prems(3))
    have sm: "sofar + m \<le> length ?buf" unfolding lb using m(2) less.prems(5) by simp
    have lt2: "n - (sofar + m) < n - sofar" using False m by simp
    obtain k2 where k2: "read_loop rd n (sofar + m) ?buf (?f, k1)
      = returns (Inr (n, take (sofar + m) ?buf @ take (n - (sofar + m)) (drop (rd_offset ?f) content) @ drop n ?buf),
          ?f\<lparr>rd_offset := rd_offset ?f + (n - (sofar + m))\<rparr>, k2)" "ok k2"
      using less.hyps [OF lt2 k1 st lbd less.prems(4) sm n'] by blast
    have mn: "sofar + m \<le> n" using m less.prems(5) unfolding less.prems(6) by linarith
    have e: "take (sofar + m) ?buf = take sofar buf @ take m (drop ?o content)" "drop n ?buf = drop n buf"
      using lt less.prems(5) mn by (simp_all add: overwrite_def)
    have s: "take m (drop ?o content) @ take (n - (sofar + m)) (drop (?o + m) content) = take (n - sofar) (drop ?o content)"
      using take_add [of m "n - (sofar + m)" "drop ?o content"] mn by (simp add: add.commute)
    have fo: "?o + m + (n - (sofar + m)) = ?o + (n - sofar)" using mn by simp
    have "read_loop rd n sofar buf (f, k) = read_loop rd n (sofar + m) ?buf (?f, k1)"
      by (subst read_loop.simps) (use False less.prems(2,5) r m(1) u in simp)
    then show ?thesis using k2 unfolding e by (auto simp: fo s [symmetric])
  qed
qed

end

section \<open>A file on a FAT volume\<close>

text \<open>The descriptor \<open>fd\<close> of the running process is a file that was opened for reading; its
  clusters \<open>cs\<close> are at most 4096 bytes long, and hold \<open>content\<close> on the disk \<open>D\<close>.\<close>

definition holds_content :: "fat_dev \<Rightarrow> fat_file \<Rightarrow> bytes \<Rightarrow> bool" where
  "holds_content d ff content \<longleftrightarrow> (\<exists>D cs. io_ready (fat_disks d) (file_disk ff) D (fat_phys d)
     \<and> file_geom ff (fat_disks d ! file_disk ff) cs \<and> file_cluster_size ff \<le> 4096
     \<and> content = take (size_bytes ff) (cluster_bytes ff D cs))"

definition serves :: "usize \<Rightarrow> bytes \<Rightarrow> (unit, fat_dev) system \<Rightarrow> bool" where
  "serves fd content s \<longleftrightarrow> 3 \<le> fd \<and> (\<exists>g ff.
     get_file (sys_pid s) fd (sys_procs s) = Inr g \<and> 0 < counts (sys_fs s) (ref_count g)
     \<and> entry_flags (entry g) AND FLG_PERM_READ \<noteq> 0 \<and> file_mode g AND MODE_READ \<noteq> 0
     \<and> entry_size (entry g) = length content
     \<and> bt_get (open_files (dev (sys_fs s))) (dev_hnd g) = Some ff \<and> \<not> is_directory ff
     \<and> size_bytes ff = length content \<and> holds_content (dev (sys_fs s)) ff content)"

lemma fread_content:
  assumes c: "holds_content d ff content" and ff: "bt_get (open_files d) hnd = Some ff" "\<not> is_directory ff"
    and sz: "size_bytes ff = length content" and off: "off < length content" and n: "0 < n" "n < 2 ^ 62"
  shows "\<exists>m bm'. fread hnd off n d = returns (Inr (m, take m (drop off content)), d\<lparr>fat_phys := bm'\<rparr>)
    \<and> holds_content (d\<lparr>fat_phys := bm'\<rparr>) ff content \<and> 0 < m \<and> m \<le> n \<and> off + m \<le> length content"
proof -
  obtain D cs where io: "io_ready (fat_disks d) (file_disk ff) D (fat_phys d)"
    and g: "file_geom ff (fat_disks d ! file_disk ff) cs" and cz: "file_cluster_size ff \<le> 4096"
    and ct: "content = take (size_bytes ff) (cluster_bytes ff D cs)"
    using c by (auto simp: holds_content_def)
  let ?m = "read_span ff off n" and ?cz = "file_cluster_size ff" and ?ss = "file_sector_size ff"
  note fg = file_geomD(1-6) [OF g]
  have len: "off < length cs * ?cz" using off fg(6) sz by simp
  then have czp: "0 < ?cz" by (cases ?cz) simp_all
  have m: "0 < ?m" "?m \<le> n" "off + ?m \<le> length content" "?m \<le> ?cz - off mod ?cz"
    using off n(1) czp ff(2) sz by (auto simp: read_span_def)
  have "?ss dvd ?cz" using fg(3) by simp
  then have "off mod ?ss = off mod ?cz mod ?ss" by (simp add: mod_mod_cancel)
  also have "\<dots> \<le> off mod ?cz" by simp
  finally have fit: "off mod ?ss + ?m \<le> 4096"
    using m(4) cz mod_less_divisor [OF czp, of off] by linarith
  have nb: "n < 2 ^ 63" using n(2) by simp
  have offs: "is_directory ff \<or> off < size_bytes ff" using off sz by simp
  obtain va bm' where r: "file_read (fat_disks d) ff off n (fat_phys d)
      = returns (Inr (va, take ?m (drop off (cluster_bytes ff D cs))), bm')" and s: "same_frames (fat_phys d) bm'"
    using file_read_slice [OF io g len offs n(1) nb fit] by blast
  have sl: "take ?m (drop off (cluster_bytes ff D cs)) = take ?m (drop off content)"
  proof -
    have "content = take (length content) (cluster_bytes ff D cs)" using ct unfolding sz .
    then have "take ?m (drop off content) = take ?m (drop off (take (length content) (cluster_bytes ff D cs)))"
      by (rule arg_cong)
    then show ?thesis using m(3) by (simp add: drop_take)
  qed
  have lt: "length (take ?m (drop off content)) = ?m" using m(3) by simp
  have "fread hnd off n d = returns (Inr (?m, take ?m (drop off content)), d\<lparr>fat_phys := bm'\<rparr>)"
    using r m(2) lt unfolding sl by (simp add: fread_def with_handle_def ff try_then_def on_phys_def succeed_def)
  moreover have "holds_content (d\<lparr>fat_phys := bm'\<rparr>) ff content"
    using same_frames_ready [OF s io] g cz ct unfolding holds_content_def by auto
  ultimately show ?thesis using m by blast
qed

lemma content_size:
  assumes "holds_content d ff content" "size_bytes ff = length content"
  shows "length content < 2 ^ 62"
proof -
  obtain cs where "file_geom ff (fat_disks d ! file_disk ff) cs" using assms(1) by (auto simp: holds_content_def)
  then show ?thesis using file_geomD(5,6) [of ff "fat_disks d ! file_disk ff" cs] assms(2) by simp
qed

lemma user_read_content:
  assumes "serves fd content s" "off < length content" "buf \<noteq> []" "length buf < 2 ^ 62"
  shows "\<exists>m s'. user_read fat_ops fd off buf s = returns (Inr (m, overwrite (take m (drop off content)) buf), s')
    \<and> serves fd content s' \<and> 0 < m \<and> m \<le> length buf \<and> off + m \<le> length content"
proof -
  obtain g ff where fd: "3 \<le> fd" and g: "get_file (sys_pid s) fd (sys_procs s) = Inr g" "0 < counts (sys_fs s) (ref_count g)"
    "entry_flags (entry g) AND FLG_PERM_READ \<noteq> 0" "file_mode g AND MODE_READ \<noteq> 0" "entry_size (entry g) = length content"
    and ff: "bt_get (open_files (dev (sys_fs s))) (dev_hnd g) = Some ff" "\<not> is_directory ff"
    "size_bytes ff = length content" "holds_content (dev (sys_fs s)) ff content"
    using assms(1) by (auto simp: serves_def)
  obtain m bm' where r: "fread (dev_hnd g) off (length buf) (dev (sys_fs s))
      = returns (Inr (m, take m (drop off content)), (dev (sys_fs s))\<lparr>fat_phys := bm'\<rparr>)"
    and h: "holds_content ((dev (sys_fs s))\<lparr>fat_phys := bm'\<rparr>) ff content" and m: "0 < m" "m \<le> length buf" "off + m \<le> length content"
    using fread_content [OF ff(4,1,2,3) assms(2) _ assms(4)] assms(3) by auto
  have off: "off < 2 ^ 62" using assms(2) content_size [OF ff(4,3)] by simp
  have sk: "file_seek (as_isize off) SeekStart ReadCursor g = Inr (off, g\<lparr>read_off := off\<rparr>)"
    using off assms(2) g(5) by (simp add: file_seek_def as_isize_def as_usize_def set_cursor_def)
  let ?s = "s\<lparr>sys_fs := (sys_fs s)\<lparr>dev := (dev (sys_fs s))\<lparr>fat_phys := bm'\<rparr>\<rparr>\<rparr>"
  have c: "(counts (sys_fs s))(ref_count g := counts (sys_fs s) (ref_count g)) = counts (sys_fs s)" by simp
  have "user_read fat_ops fd off buf s = returns (Inr (m, overwrite (take m (drop off content)) buf), ?s)"
    using assms(3) fd g r sk
    by (simp add: user_read_def syscall_read_def checked_args_def read_body_def with_file_def file_clone_def file_read_at_def
        call_dev_def try_then_def succeed_def file_drop_def ret_word_def)
  moreover have "serves fd content ?s" using fd g ff h by (auto simp: serves_def)
  ultimately show ?thesis using m by blast
qed

interpretation fat_source: byte_source "user_read fat_ops fd" content "serves fd content" for fd content
  by unfold_locales (rule user_read_content)

lemma serves_size: "serves fd content s \<Longrightarrow> length content < 2 ^ 62"
  by (auto simp: serves_def dest: content_size)

lemma uf_read_content:
  assumes "serves (uf_fd f) content s" "uf_open f" "\<not> is_stream f" "uf_size f = length content"
    "rd_offset f \<le> length content" "length buf < 2 ^ 62"
    and n: "n = min (length buf) (length content - rd_offset f)"
  shows "\<exists>s'. uf_read fat_ops buf (f, s)
      = returns (Inr (n, overwrite (take n (drop (rd_offset f) content)) buf), f\<lparr>rd_offset := rd_offset f + n\<rparr>, s')
    \<and> serves (uf_fd f) content s'"
  using fat_source.loop_reads [OF assms(1,3,6) serves_size [OF assms(1)], of 0 n] assms(2,4,5) n
  by (simp add: uf_read_def usub_exact overwrite_def)

section \<open>Opening\<close>

lemma attr_flags_read: "attr_flags a x AND FLG_PERM_READ \<noteq> 0"
  by (simp add: attr_flags_def FLG_DIRECTORY_def FLG_ARCHIVE_def FLG_HIDDEN_def FLG_SYSTEM_def FLG_PERM_EXEC_def
      FLG_PERM_READ_def FLG_PERM_WRITE_def)

text \<open>The tree of directories of a mounted FAT volume leads from the path to the file \<open>ff\<close>, and
  these are its contents.\<close>

definition path_leads_to :: "(unit, fat_dev) system \<Rightarrow> bytes \<Rightarrow> fat_file \<Rightarrow> bytes \<Rightarrow> bool" where
  "path_leads_to s path ff content \<longleftrightarrow> path \<noteq> [] \<and> utf8_valid path \<and> (\<exists>m mname fpath vol D cs.
     mount_from_path (mount_points (sys_fs s)) path = Inr m
     \<and> get_mntname_devpath path = Some (mname, fpath) \<and> bt_get (fat_volumes (dev (sys_fs s))) mname = Some vol
     \<and> io_ready (fat_disks (dev (sys_fs s))) (disk_index vol) D (fat_phys (dev (sys_fs s)))
     \<and> tree_leads (fat_disks (dev (sys_fs s))) D vol fpath ff \<and> utf8_valid (sfn_name (dir_entry ff))
     \<and> \<not> is_directory ff \<and> file_disk ff = disk_index vol \<and> file_cluster_size ff \<le> 4096
     \<and> file_geom ff (fat_disks (dev (sys_fs s)) ! disk_index vol) cs
     \<and> content = take (size_bytes ff) (cluster_bytes ff D cs))"

lemma uf_from_path_opens:
  assumes p: "path_leads_to s path ff content"
    and as: "bt_get (processes (sys_procs s)) (sys_pid s) = Some as" "length (files as) < 2 ^ 62"
  shows "\<exists>f s'. uf_from_path first_word fat_ops path MODE_READ s = returns (Inr f, s') \<and> uf_open f \<and> \<not> is_stream f
    \<and> uf_size f = length content \<and> rd_offset f = 0 \<and> serves (uf_fd f) content s'"
proof -
  obtain m mname fpath vol D cs where path: "path \<noteq> []" "utf8_valid path"
    and m: "mount_from_path (mount_points (sys_fs s)) path = Inr m" "get_mntname_devpath path = Some (mname, fpath)"
      "bt_get (fat_volumes (dev (sys_fs s))) mname = Some vol"
    and io: "io_ready (fat_disks (dev (sys_fs s))) (disk_index vol) D (fat_phys (dev (sys_fs s)))"
    and tr: "tree_leads (fat_disks (dev (sys_fs s))) D vol fpath ff"
    and f: "utf8_valid (sfn_name (dir_entry ff))" "\<not> is_directory ff" "file_disk ff = disk_index vol" "file_cluster_size ff \<le> 4096"
      "file_geom ff (fat_disks (dev (sys_fs s)) ! disk_index vol) cs"
    and ct: "content = take (size_bytes ff) (cluster_bytes ff D cs)"
    using p by (auto simp: path_leads_to_def)
  obtain bm where ff: "from_path (fat_disks (dev (sys_fs s))) vol fpath (fat_phys (dev (sys_fs s))) = returns (Inr ff, bm)"
    and io1: "io_ready (fat_disks (dev (sys_fs s))) (disk_index vol) D bm"
    using from_path_leads [OF io tr] by blast
  obtain e where e: "get_directory_entry ff = returns e"
    using f(1) by (simp add: get_directory_entry_def ent_name_def from_utf8_def)
  have h: "holds_content ((dev (sys_fs s))\<lparr>fat_phys := bm\<rparr>) ff content"
    unfolding holds_content_def using io1 f(3-5) ct by auto
  have sz: "\<not> is_directory ff" "size_bytes ff = length content"
    using f(2) file_geomD(6) [OF f(5)] by (simp_all add: ct length_cluster_bytes)
  let ?v = "sys_fs s" and ?hnd = "next_handle (dev (sys_fs s))"
  let ?d = "(dev ?v)\<lparr>fat_phys := bm, next_handle := uadd ?hnd 1, open_files := bt_insert ?hnd ff (open_files (dev ?v))\<rparr>"
  let ?g = "\<lparr>mnt = m, dev_hnd = ?hnd, file_mode = MODE_READ, entry = e, read_off = 0, write_off = 0, ref_count = next_count ?v\<rparr>"
  let ?v' = "?v\<lparr>counts := (counts ?v)(next_count ?v := 1), next_count := next_count ?v + 1, dev := ?d\<rparr>"
  let ?as = "as\<lparr>files := files as @ [?g]\<rparr>"
  let ?vs = "(sys_procs s)\<lparr>processes := bt_insert (sys_pid s) ?as (processes (sys_procs s))\<rparr>"
  let ?s = "s\<lparr>sys_fs := ?v', sys_procs := ?vs\<rparr>" and ?fd = "length (files as) + 3"
  have md: "is_readable ff" "MODE_READ AND MODE_WRITE = 0" "MODE_READ AND MODE_EXEC = 0" "MODE_READ AND KMODE_MASK = MODE_READ"
    by (simp_all add: is_readable_def MODE_READ_def MODE_WRITE_def MODE_EXEC_def)
  have o: "file_open fat_ops path MODE_READ ?v = returns (Inr ?g, ?v')"
    using m ff e md by (simp add: file_open_def call_dev_def fat_open_def fopen_def on_phys_def try_then_def succeed_def Let_def)
  have af: "add_file (sys_pid s) ?g (sys_procs s) = returns (?fd, ?vs)"
    using as by (simp add: add_file_def Let_def usub_exact uadd_exact)
  have sys: "user_open first_word fat_ops path MODE_READ s = returns (Inr \<lparr>arg_path = path, arg_mode = MODE_READ, arg_fd = ?fd,
      arg_attr = entry_flags e, arg_size = entry_size e\<rparr>, ?s)"
    using path o af by (simp add: user_open_def syscall_open_def checked_args_def open_body_def reply_def ret_word_def succeed_def)
  have e': "entry_flags e AND FLG_PERM_READ \<noteq> 0" "entry_size e = length content"
    using e sz(2) attr_flags_read by (auto simp: get_directory_entry_def and_then_returns)
  have g: "get_file (sys_pid s) ?fd ?vs = Inr ?g" using as(2) by (simp add: get_file_def usub_exact Let_def)
  have hc: "holds_content ?d ff content" using h by (simp add: holds_content_def)
  have "serves ?fd content ?s"
    unfolding serves_def using g e' hc sz md(2) by (auto simp: MODE_READ_def)
  then show ?thesis using sys e'(2) md(4)
    by (simp add: uf_from_path_def try_then_def succeed_def opened_file_def is_stream_def MODE_READ_def)
qed

text \<open>C34. A program reads a file on a FAT32 volume, whose root directory is a cluster chain, with
  clusters of at most 4096 bytes: opening a path that leads to the file, through directories with end
  marks, gives a file object on which one \<^verbatim>\<open>read\<close> returns the contents from
  the beginning, as many bytes as the buffer holds or the file has. This goes through the loop of
  the user library, the system call, the descriptor table, the open file and the FAT driver, and
  leaves a system in which the descriptor still serves the file.\<close>

theorem program_reads_file:
  assumes "path_leads_to s path ff content"
    and "bt_get (processes (sys_procs s)) (sys_pid s) = Some as" "length (files as) < 2 ^ 62" "length buf < 2 ^ 62"
    and n: "n = min (length buf) (length content)"
  shows "\<exists>f s1 s2. uf_from_path first_word fat_ops path MODE_READ s = returns (Inr f, s1)
    \<and> uf_read fat_ops buf (f, s1) = returns (Inr (n, overwrite (take n content) buf), f\<lparr>rd_offset := n\<rparr>, s2)
    \<and> serves (uf_fd f) content s2"
proof -
  obtain f s1 where f: "uf_from_path first_word fat_ops path MODE_READ s = returns (Inr f, s1)" "uf_open f" "\<not> is_stream f"
    "uf_size f = length content" "rd_offset f = 0" "serves (uf_fd f) content s1"
    using uf_from_path_opens [OF assms(1-3)] by blast
  show ?thesis using f(1) uf_read_content [OF f(6,2-4) _ assms(4), of n] f(5) n by auto
qed

text \<open>A program in process 7 with the sample tree mounted as \<^verbatim>\<open>disk0.0\<close>.\<close>

definition tree_dev :: "bytes \<Rightarrow> fat_dev" where
  "tree_dev bs = \<lparr>fat_disks = [tree_disk bs], fat_volumes = [(ascii ''disk0.0'', tree_volume)], open_files = [],
     next_handle = 0, fat_phys = demo_bitmap\<rparr>"

definition tree_process :: "unit vfile address_space" where
  "tree_process = proc_new\<lparr>as_pid := 7\<rparr>"

definition tree_kernel :: kernel where
  "tree_kernel = \<lparr>cpu = (\<lambda>c. \<lparr>curr_tid = 0, task_pool = [], sched = FirstComeFirstServe \<lparr>fcfs_queue = []\<rparr>\<rparr>),
     default_kstack_size = 4096, next_task_id = 1, msg_queue = [], tid_cpu_map = [], lbal = [], phys = demo_bitmap\<rparr>"

definition tree_system :: "bytes \<Rightarrow> (unit, fat_dev) system" where
  "tree_system bs = \<lparr>sys_fs = \<lparr>mount_points = [(ascii ''disk0.0'', demo_mnt)], counts = (\<lambda>_. 0), next_count = 0, dev = tree_dev bs\<rparr>,
     sys_procs = \<lparr>processes = [(7, tree_process)], next_pid = 8, kern = tree_kernel, memory = (\<lambda>_. 0)\<rparr>,
     sys_pid = 7, sys_input = \<lparr>kbd_lshift = False, kbd_rshift = False, last_keycode = 0, kbd = keyboard_new, mouse = mouse_new\<rparr>,
     sys_console = []\<rparr>"

lemma tree_process_found:
  "bt_get (processes (sys_procs (tree_system bs))) (sys_pid (tree_system bs)) = Some tree_process" "length (files tree_process) < 2 ^ 62"
  by (simp_all add: tree_system_def tree_process_def proc_new_def)

lemma readme_clusters:
  assumes "length bs \<le> 1024"
  shows "bs = take (length bs) (cluster_bytes (readme_file (length bs)) (tree_content bs) [3, 4])"
proof -
  let ?c = "cluster_bytes (readme_file (length bs)) (tree_content bs) [3, 4]"
  have "?c = disk_data (tree_content bs) 1536 512 @ disk_data (tree_content bs) 2048 512"
    by (simp add: cluster_bytes_def cluster_addr_def tree_defs)
  also have "\<dots> = disk_data (tree_content bs) 1536 1024"
    unfolding disk_data_def map_append [symmetric]
    by (rule arg_cong [where f = "map (tree_content bs)"]) (use upt_add_eq_append [of 1536 2048 512] in \<open>simp del: upt_rec_numeral\<close>)
  finally have c: "?c = disk_data (tree_content bs) 1536 1024" .
  show ?thesis
    unfolding c by (rule nth_equalityI) (use assms in \<open>simp_all add: tree_content_def\<close>)
qed

lemma tree_path:
  assumes "length bs \<le> 1024"
  shows "path_leads_to (tree_system bs) (ascii ''disk0.0:/readme.txt'') (readme_file (length bs)) bs"
proof -
  let ?p = "ascii ''disk0.0:/readme.txt''" and ?d = "dev (sys_fs (tree_system bs))" and ?f = "readme_file (length bs)"
  have d: "fat_disks ?d = [tree_disk bs]" "fat_phys ?d = demo_bitmap" "bt_get (fat_volumes ?d) (ascii ''disk0.0'') = Some tree_volume"
    by (simp_all add: tree_system_def tree_dev_def)
  have p: "get_mntname_devpath ?p = Some (ascii ''disk0.0'', ascii ''/readme.txt'')" "utf8_valid ?p" "?p \<noteq> []" by code_simp+
  have m: "mount_from_path (mount_points (sys_fs (tree_system bs))) ?p = Inr demo_mnt"
    by (simp add: mount_from_path_def tree_system_def ascii_def of_char_def)
  have i: "disk_index tree_volume = 0" by (simp add: tree_defs)
  have f: "utf8_valid (sfn_name (dir_entry ?f))" "\<not> is_directory ?f" "file_disk ?f = 0"
    "file_cluster_size ?f \<le> 4096" "size_bytes ?f = length bs"
    by (simp_all add: tree_defs is_directory_def size_bytes_def ATTR_DIRECTORY_def ascii_def of_char_def byte_in_def)
  have g: "file_geom ?f (tree_disk bs) [3, 4]"
    using assms by (simp add: file_geom_def tree_defs size_bytes_def cluster_addr_def tree_disk_def disk_bytes_def)
  show ?thesis
    unfolding path_leads_to_def
    by (intro conjI exI [of _ demo_mnt] exI [of _ "ascii ''disk0.0''"] exI [of _ "ascii ''/readme.txt''"] exI [of _ tree_volume]
        exI [of _ "tree_content bs"] exI [of _ "[3, 4]"])
      (use p m d i f g readme_clusters [OF assms] tree_ready tree_readme [OF assms] in simp_all)
qed

lemma program_reads_file_witness:
  "\<exists>f s1 s2. uf_from_path error_number fat_ops (ascii ''disk0.0:/readme.txt'') MODE_READ (tree_system (replicate 600 7)) = returns (Inr f, s1)
    \<and> uf_read fat_ops (replicate 1000 0) (f, s1) = returns (Inr (600, replicate 600 7 @ replicate 400 0), f\<lparr>rd_offset := 600\<rparr>, s2)
    \<and> serves (uf_fd f) (replicate 600 7) s2"
proof -
  have "length (replicate 600 (7 :: u8)) \<le> 1024" by simp
  from program_reads_file [OF tree_path [OF this] tree_process_found, of "replicate 1000 0" 600 error_number] show ?thesis
    by (simp add: overwrite_def)
qed

end
