(* ===== verification/Png_File.thy ===== *)
theory Png_File
  imports Png_Props User_File_Props
begin

text \<open>
  PNG files: what an encoder writes (\<open>png_bytes\<close>), loading it from any file whose reads deliver
  its contents in order, and from a file on a FAT volume.
\<close>

section \<open>The format\<close>

definition be32 :: "nat \<Rightarrow> u8 list" where
  "be32 n = [of_nat (n div 2 ^ 24), of_nat (n div 2 ^ 16), of_nat (n div 2 ^ 8), of_nat n]"

definition chunk_bytes :: "u8 list \<Rightarrow> u8 list \<Rightarrow> u8 list \<Rightarrow> u8 list" where
  "chunk_bytes ty data crc = be32 (length data) @ ty @ data @ crc"

definition ihdr_data :: "nat \<Rightarrow> nat \<Rightarrow> u8 list" where
  "ihdr_data w h = be32 w @ be32 h @ [8, 6, 0, 0, 0]"

text \<open>An RGBA image of 8 bits per sample; \<open>blocks\<close> are the data and check sums of the \<^verbatim>\<open>IDAT\<close>
  chunks, and ancillary chunks, with types the loader does not know, may stand between them.\<close>

type_synonym chunk = "u8 list \<times> u8 list \<times> u8 list"

definition ancillary :: "u8 list \<Rightarrow> bool" where
  "ancillary ty \<longleftrightarrow> ty \<notin> tag ` {''IHDR'', ''IDAT'', ''IEND'', ''PLTE'', ''tRNS''}"

definition chunk_ok :: "chunk \<Rightarrow> bool" where
  "chunk_ok = (\<lambda>(ty, data, crc). length ty = 4 \<and> length crc = 4 \<and> length data < 2 ^ 32 \<and> (ty = tag ''IDAT'' \<or> ancillary ty))"

definition image_data :: "chunk list \<Rightarrow> u8 list" where
  "image_data cs = concat (map (\<lambda>(ty, data, crc). if ty = tag ''IDAT'' then data else []) cs)"

definition chunks_bytes :: "chunk list \<Rightarrow> u8 list" where
  "chunks_bytes cs = concat (map (\<lambda>(ty, data, crc). chunk_bytes ty data crc) cs)"

definition png_bytes :: "nat \<Rightarrow> nat \<Rightarrow> chunk list \<Rightarrow> u8 list" where
  "png_bytes w h cs = png_signature @ chunk_bytes (tag ''IHDR'') (ihdr_data w h) [0, 0, 0, 0] @ chunks_bytes cs
     @ chunk_bytes (tag ''IEND'') [] [0, 0, 0, 0]"

lemma length_be32 [simp]: "length (be32 n) = 4"
  by (simp add: be32_def)

lemma from_be32 [simp]: "n < 2 ^ 32 \<Longrightarrow> from_be_bytes (be32 n) = n"
proof -
  assume n: "n < 2 ^ 32"
  let ?a = "n div 256" and ?b = "n div 256 div 256" and ?c = "n div 256 div 256 div 256"
  have d: "n div 65536 = ?b" "n div 16777216 = ?c" by (simp_all add: div_mult2_eq [symmetric])
  have c: "?c < 256" using n by (simp add: div_less_iff_less_mult)
  have "from_be_bytes (be32 n) = 256 * (256 * (256 * (?c mod 256) + ?b mod 256) + ?a mod 256) + n mod 256"
    by (simp add: from_be_bytes_def be32_def unsigned_of_nat take_bit_eq_mod d)
  also have "256 * (?c mod 256) + ?b mod 256 = ?b" using c by simp
  also have "256 * ?b + ?a mod 256 = ?a" by simp
  also have "256 * ?a + n mod 256 = n" by simp
  finally show ?thesis .
qed

section \<open>Loading from a source of bytes\<close>

text \<open>A file of which \<open>rest f bs\<close> bytes are left: a read with a buffer that is not larger returns
  the next ones.\<close>

locale byte_stream =
  fixes rd :: "'f reader" and rest :: "'f \<Rightarrow> u8 list \<Rightarrow> bool"
  assumes rd_next: "rest f (xs @ ys) \<Longrightarrow> \<exists>f'. rd (length xs) f = returns (Inr (length xs, xs), f') \<and> rest f' ys"
begin

lemma read_full_next: "rest f (xs @ ys) \<Longrightarrow> n = length xs \<Longrightarrow> \<exists>f'. read_full rd n f = returns (Inr xs, f') \<and> rest f' ys"
  using rd_next [of f xs ys] by (auto simp: read_full_def succeed_def)

text \<open>One turn of the loop reads one chunk.\<close>

lemma load_chunk:
  assumes r: "rest f (chunk_bytes ty data crc @ ys)" and l: "length ty = 4" "length crc = 4" "length data < 2 ^ 32"
  obtains f' where "rest f' ys" "load_chunks rd p valid f = (case png_chunk ty data p valid of
      ChunkError e \<Rightarrow> throw e f' | ImageEnd \<Rightarrow> succeed (p, valid) f' | NextChunk p' valid' \<Rightarrow> load_chunks rd p' valid' f')"
proof -
  have r0: "rest f (be32 (length data) @ ty @ data @ crc @ ys)" using r by (simp add: chunk_bytes_def)
  obtain f1 where f1: "read_full rd 4 f = returns (Inr (be32 (length data)), f1)" "rest f1 (ty @ data @ crc @ ys)"
    using read_full_next [OF r0, of 4] by auto
  obtain f2 where f2: "read_full rd 4 f1 = returns (Inr ty, f2)" "rest f2 (data @ crc @ ys)"
    using read_full_next [OF f1(2), of 4] l(1) by auto
  obtain f3 where f3: "(if 0 < length data then read_full rd (length data) else succeed []) f2 = returns (Inr data, f3)" "rest f3 (crc @ ys)"
    using read_full_next [OF f2(2), of "length data"] f2(2) by (cases "data = []") (auto simp: succeed_def)
  obtain f4 where f4: "read_full rd 4 f3 = returns (Inr crc, f4)" "rest f4 ys"
    using read_full_next [OF f3(2), of 4] l(2) by auto
  show thesis
  proof (rule that [OF f4(2)])
    have f3': "(if 0 < from_be_bytes (be32 (length data)) then read_full rd (from_be_bytes (be32 (length data))) else succeed []) f2
        = returns (Inr data, f3)" using f3(1) unfolding from_be32 [OF l(3)] .
    show "load_chunks rd p valid f = (case png_chunk ty data p valid of
        ChunkError e \<Rightarrow> throw e f4 | ImageEnd \<Rightarrow> succeed (p, valid) f4 | NextChunk p' valid' \<Rightarrow> load_chunks rd p' valid' f4)"
      by (subst load_chunks.simps) (simp add: f1(1) f2(1) f3' f4(1) del: from_be32 split del: if_split)
  qed
qed

lemma load_body:
  "rest f (chunks_bytes cs @ chunk_bytes (tag ''IEND'') [] [0, 0, 0, 0] @ ys) \<Longrightarrow> list_all chunk_ok cs \<Longrightarrow>
    \<exists>f'. load_chunks rd p valid f = returns (Inr (p\<lparr>idat := idat p @ image_data cs\<rparr>, valid), f') \<and> rest f' ys"
proof (induction cs arbitrary: p f)
  case Nil
  have r: "rest f (chunk_bytes (tag ''IEND'') [] [0, 0, 0, 0] @ ys)" using Nil(1) by (simp add: chunks_bytes_def)
  obtain f' where "rest f' ys" "load_chunks rd p valid f = succeed (p, valid) f'"
    by (rule load_chunk [OF r, of p valid]) (simp_all add: png_chunk_def tag_def of_char_def)
  then show ?case by (auto simp: image_data_def succeed_def)
next
  case (Cons c cs)
  obtain ty data crc where c: "c = (ty, data, crc)" by (cases c) auto
  have r: "rest f (chunk_bytes ty data crc @ chunks_bytes cs @ chunk_bytes (tag ''IEND'') [] [0, 0, 0, 0] @ ys)"
    using Cons.prems(1) by (simp add: chunks_bytes_def c)
  have l: "length ty = 4" "length crc = 4" "length data < 2 ^ 32" "ty = tag ''IDAT'' \<or> ancillary ty"
    using Cons.prems(2) by (simp_all add: chunk_ok_def c)
  let ?p = "p\<lparr>idat := idat p @ (if ty = tag ''IDAT'' then data else [])\<rparr>"
  have s: "png_chunk ty data p valid = NextChunk ?p valid"
    using l(4) by (auto simp: png_chunk_def ancillary_def tag_def of_char_def)
  obtain f1 where f1: "rest f1 (chunks_bytes cs @ chunk_bytes (tag ''IEND'') [] [0, 0, 0, 0] @ ys)"
    "load_chunks rd p valid f = load_chunks rd ?p valid f1"
    using load_chunk [OF r l(1-3), of p valid] s by auto
  show ?case using Cons.IH [OF f1(1), of ?p] Cons.prems(2) f1(2) by (simp add: image_data_def c)
qed

lemma png_read_file:
  assumes r: "rest f (png_bytes w h cs)" and ok: "list_all chunk_ok cs" and wh: "0 < w" "w < 2 ^ 32" "0 < h" "h < 2 ^ 32"
  shows "\<exists>f'. png_read rd f = returns (Inr ((png_new w h)\<lparr>idat := image_data cs\<rparr>), f')"
proof -
  let ?hdr = "chunk_bytes (tag ''IHDR'') (ihdr_data w h) [0, 0, 0, 0]" and ?fin = "chunk_bytes (tag ''IEND'') [] [0, 0, 0, 0]"
  have r0: "rest f (png_signature @ ?hdr @ chunks_bytes cs @ ?fin)" using r by (simp add: png_bytes_def)
  have sig: "length png_signature = 8" by (simp add: png_signature_def)
  obtain f1 where f1: "rd 8 f = returns (Inr (8, png_signature), f1)" "rest f1 (?hdr @ chunks_bytes cs @ ?fin)"
    using rd_next [OF r0] sig by auto
  have hd: "length (ihdr_data w h) = 13" "take 4 (ihdr_data w h) = be32 w" "take 4 (drop 4 (ihdr_data w h)) = be32 h"
    "ihdr_data w h ! 8 = 8" "ihdr_data w h ! 9 = 6" "ihdr_data w h ! 10 = 0" "ihdr_data w h ! 11 = 0" "ihdr_data w h ! 12 = 0"
    by (simp_all add: ihdr_data_def be32_def)
  have "ihdr_chunk (ihdr_data w h) (png_new 0 0) = Inr (png_new w h)"
    unfolding ihdr_chunk_def hd using wh by (simp add: color_type_of_def png_new_def)
  then have s: "png_chunk (tag ''IHDR'') (ihdr_data w h) (png_new 0 0) False = NextChunk (png_new w h) True"
    by (simp add: png_chunk_def)
  obtain f2 where f2: "rest f2 (chunks_bytes cs @ ?fin)" "load_chunks rd (png_new 0 0) False f1 = load_chunks rd (png_new w h) True f2"
    using load_chunk [OF f1(2), of "png_new 0 0" False] s hd(1) by (auto simp: tag_def)
  obtain f3 where "load_chunks rd (png_new w h) True f2 = returns (Inr ((png_new w h)\<lparr>idat := image_data cs\<rparr>, True), f3)"
    using load_body [of f2 cs "[]" "png_new w h" True] f2(1) ok by (auto simp: png_new_def)
  then show ?thesis using f1(1) f2(2) by (simp add: png_read_def succeed_def)
qed

end

section \<open>Loading from a FAT volume\<close>

text \<open>A file object and the system with \<open>bs\<close> still to be read.\<close>

definition left_to_read :: "user_file \<times> (unit, fat_dev) system \<Rightarrow> u8 list \<Rightarrow> bool" where
  "left_to_read = (\<lambda>(f, s) bs. \<exists>content. serves (uf_fd f) content s \<and> uf_open f \<and> \<not> is_stream f
     \<and> uf_size f = length content \<and> rd_offset f \<le> length content \<and> bs = drop (rd_offset f) content)"

abbreviation file_reader :: "(user_file \<times> (unit, fat_dev) system) reader" where
  "file_reader n \<equiv> uf_read fat_ops (replicate n 0)"

interpretation fat_stream: byte_stream file_reader left_to_read
proof unfold_locales
  fix fs :: "user_file \<times> (unit, fat_dev) system" and xs ys
  assume l: "left_to_read fs (xs @ ys)"
  obtain f s where fs: "fs = (f, s)" by (cases fs) auto
  obtain content where c: "serves (uf_fd f) content s" "uf_open f" "\<not> is_stream f" "uf_size f = length content"
    "rd_offset f \<le> length content" "xs @ ys = drop (rd_offset f) content"
    using l by (auto simp: left_to_read_def fs)
  have "length (xs @ ys) = length content - rd_offset f" unfolding c(6) by simp
  then have len: "length xs = min (length (replicate (length xs) (0 :: u8))) (length content - rd_offset f)"
    "rd_offset f + length xs \<le> length content" using c(5) by simp_all
  have small: "length (replicate (length xs) (0 :: u8)) < 2 ^ 62" using len(2) serves_size [OF c(1)] by simp
  have x: "take (length xs) (drop (rd_offset f) content) = xs" "drop (length xs) (drop (rd_offset f) content) = ys"
    unfolding c(6) [symmetric] by simp_all
  obtain s' where s': "uf_read fat_ops (replicate (length xs) 0) (f, s)
      = returns (Inr (length xs, overwrite (take (length xs) (drop (rd_offset f) content)) (replicate (length xs) 0)),
          f\<lparr>rd_offset := rd_offset f + length xs\<rparr>, s')" "serves (uf_fd f) content s'"
    using uf_read_content [OF c(1-5) small len(1)] by blast
  have "left_to_read (f\<lparr>rd_offset := rd_offset f + length xs\<rparr>, s') ys"
    using c(2-4) s'(2) len(2) x(2) by (auto simp: left_to_read_def is_stream_def add.commute intro!: exI [of _ content])
  then show "\<exists>fs'. uf_read fat_ops (replicate (length xs) 0) fs = returns (Inr (length xs, xs), fs') \<and> left_to_read fs' ys"
    using s'(1) unfolding x(1) fs by (auto simp: overwrite_def)
qed

text \<open>\<^verbatim>\<open>PngImage::from_path\<close>: the file is closed when the function returns.\<close>

definition png_from_path :: "(error_code \<Rightarrow> usize) \<Rightarrow> ('h \<Rightarrow> 'd file_ops) \<Rightarrow> bytes \<Rightarrow> (('h, 'd) system, png_image) fallible" where
  "png_from_path first_word ops path = try_then (uf_from_path first_word ops path MODE_READ) (\<lambda>f s.
     and_then (png_read (\<lambda>n. uf_read ops (replicate n 0)) (f, s)) (\<lambda>(r, fs).
       and_then (uf_close ops fs) (\<lambda>(f', s'). returns (r, s'))))"

lemma fat_close_returns: "\<exists>fs'. uf_close fat_ops fs = returns fs'"
proof -
  have d: "\<exists>v'. file_drop fat_ops g v = returns v'" for g :: "unit vfile" and v
    by (simp add: file_drop_def call_dev_def fclose_def succeed_def throw_def split: option.splits)
  obtain f k where fs: "fs = (f, k)" by (cases fs) auto
  have "\<exists>k'. syscall_close fat_ops fd k = returns k'" for fd
  proof (cases "get_file (sys_pid k) fd (sys_procs k)")
    case (Inr g)
    then show ?thesis using d [of g "sys_fs k"] by (auto simp: syscall_close_def)
  qed (simp add: syscall_close_def)
  then obtain k' where "syscall_close fat_ops (uf_fd f) k = returns k'" by blast
  then show ?thesis by (simp add: uf_close_def fs)
qed

text \<open>C35. An image arrives: encode an RGBA image as a PNG file - filter each row with any of the five
  filters, compress the rows into any zlib stream that inflates to them, cut the stream into
  \<^verbatim>\<open>IDAT\<close> chunks of any size with unknown chunks between them - and store it on a FAT32 volume with
  clusters of at most 4096 bytes under a path, through directories with end marks. A program that calls \<^verbatim>\<open>PngImage::from_path\<close> with the path and \<^verbatim>\<open>decode\<close> gets exactly
  the pixels of the image.\<close>

theorem png_file_arrives:
  assumes stored: "path_leads_to s path ff (png_bytes w h cs)"
    and proc: "bt_get (processes (sys_procs s)) (sys_pid s) = Some as" "length (files as) < 2 ^ 62"
    and chunks: "list_all chunk_ok cs" and wh: "0 < w" "w < 2 ^ 32" "h < 2 ^ 32" "h * (1 + 4 * w) < usize_span"
    and rows: "length rows = h" "rows \<noteq> []" "rows_ok (4 * w) rows" "concat (map snd rows) = rgba_bytes ps"
    and z: "read_to_end [] (zlib_new (image_data cs)) = returns (Inr (), z)" "out_vec z = filtered_rows 4 (replicate (4 * w) 0) rows"
  shows "\<exists>p s'. png_from_path first_word fat_ops path s = returns (Inr p, s') \<and> png_decode p = returns (Inr ps)"
proof -
  let ?p = "(png_new w h)\<lparr>idat := image_data cs\<rparr>"
  obtain f s1 where f: "uf_from_path first_word fat_ops path MODE_READ s = returns (Inr f, s1)" "uf_open f" "\<not> is_stream f"
    "uf_size f = length (png_bytes w h cs)" "rd_offset f = 0" "serves (uf_fd f) (png_bytes w h cs) s1"
    using uf_from_path_opens [OF stored proc] by blast
  have l: "left_to_read (f, s1) (png_bytes w h cs)" using f(2-6) by (auto simp: left_to_read_def intro!: exI [of _ "png_bytes w h cs"])
  have h: "0 < h" using rows(1,2) by auto
  obtain fs where r: "png_read file_reader (f, s1) = returns (Inr ?p, fs)"
    using fat_stream.png_read_file [OF l chunks wh(1,2) h wh(3)] by blast
  obtain f' s' where c: "uf_close fat_ops fs = returns (f', s')" using fat_close_returns [of fs] by auto
  have "png_from_path first_word fat_ops path s = returns (Inr ?p, s')"
    using f(1) r c by (simp add: png_from_path_def)
  moreover have "png_decode ?p = returns (Inr ps)"
    by (rule png_decode_pixels [where rows = rows and z = z]) (use rows z wh(4) in \<open>simp_all add: png_new_def\<close>)
  ultimately show ?thesis by blast
qed

lemma png_file_arrives_witness:
  "\<exists>p s'. png_from_path error_number fat_ops (ascii ''disk0.0:/readme.txt'')
      (tree_system (png_bytes 1 2 [(tag ''IDAT'', zlib_store [[2, 10, 20, 30, 40, 4, 1, 1, 1, 1]] [], [1, 2, 3, 4])])) = returns (Inr p, s')
    \<and> png_decode p = returns (Inr [(10, 20, 30, 40), (11, 21, 31, 41)])"
proof -
  let ?z = "zlib_store [[2, 10, 20, 30, 40, 4, 1, 1, 1, 1]] []" and ?rows = "[(2, [10, 20, 30, 40]), (4, [11, 21, 31, 41])]"
  let ?cs = "[(tag ''IDAT'', ?z, [1, 2, 3, 4 :: u8])]"
  have len: "length ?z \<le> 100" by code_simp
  have cs: "list_all chunk_ok ?cs" using len by (simp add: chunk_ok_def tag_def)
  have "length (png_bytes 1 2 ?cs) \<le> 1024"
    using len by (simp add: png_bytes_def chunks_bytes_def chunk_bytes_def png_signature_def tag_def ihdr_data_def)
  note path = tree_path [OF this]
  obtain z where z: "read_to_end [] (zlib_new (image_data ?cs)) = returns (Inr (), z)" "out_vec z = [2, 10, 20, 30, 40, 4, 1, 1, 1, 1]"
    using read_to_end_stored [of "[[2, 10, 20, 30, 40, 4, 1, 1, 1, 1]]" "[]"] by (auto simp: image_data_def)
  have dec: "filtered_rows 4 (replicate (4 * 1) 0) ?rows = [2, 10, 20, 30, 40, 4, 1, 1, 1, 1]" by code_simp
  show ?thesis
    by (rule png_file_arrives [where rows = ?rows, OF path tree_process_found cs _ _ _ _ _ _ _ _ z(1)])
      (simp_all only: z(2) dec, simp_all add: rows_ok_def rgba_bytes_def)
qed

end
