(* ===== verification/Hid.thy ===== *)
theory Hid
  imports Input
begin

text \<open>
  Keyboard and mouse in user programs, \<^verbatim>\<open>programs/rtlib/src/hid/mod.rs\<close>: the bytes read from
  \<^verbatim>\<open>kbd:/all\<close> and \<^verbatim>\<open>mouse:/all\<close> become events. A key is its number (\<^verbatim>\<open>u16\<close>), which the code
  turns into the enumeration without a check. The buffers read from the files are arguments.
\<close>

section \<open>Keyboard\<close>

record hid_keyboard =
  shift_pressed :: bool
  ctrl_pressed :: bool
  alt_pressed :: bool
  expect_extended_code :: bool

record key_event =
  key :: nat
  released :: bool
  modifiers :: nat

definition hid_keyboard_new :: hid_keyboard where
  "hid_keyboard_new = \<lparr>shift_pressed = False, ctrl_pressed = False, alt_pressed = False, expect_extended_code = False\<rparr>"

abbreviation MODIFIER_SHIFT :: nat where "MODIFIER_SHIFT \<equiv> 1"
abbreviation MODIFIER_CTRL :: nat where "MODIFIER_CTRL \<equiv> 2"
abbreviation MODIFIER_ALT :: nat where "MODIFIER_ALT \<equiv> 4"

definition stop_listening :: "hid_keyboard \<Rightarrow> hid_keyboard" where
  "stop_listening k = k\<lparr>expect_extended_code := False\<rparr>"

text \<open>One turn of the loop of \<^verbatim>\<open>fetch_events\<close>.\<close>

definition decode_code :: "u8 \<Rightarrow> hid_keyboard \<times> key_event list \<Rightarrow> hid_keyboard \<times> key_event list" where
  "decode_code raw = (\<lambda>(k, evs).
     if \<not> expect_extended_code k \<and> raw = 0xE0 then (k\<lparr>expect_extended_code := True\<rparr>, evs)
     else
       let base = (if expect_extended_code k then 0xE000 else 0 :: nat);
           released = (raw AND 0x80 \<noteq> 0);
           code = base + unat (raw AND 0x7F);
           k1 = k\<lparr>expect_extended_code := False\<rparr>;
           k2 = (if code = 0x2A \<or> code = 0x36 then k1\<lparr>shift_pressed := \<not> released\<rparr>
                 else if code = 0x1D \<or> code = 0xE01D then k1\<lparr>ctrl_pressed := \<not> released\<rparr>
                 else if code = 0x38 \<or> code = 0xE038 then k1\<lparr>alt_pressed := \<not> released\<rparr>
                 else k1)
       in (k2, evs @ [\<lparr>key = code, released = released,
             modifiers = (if shift_pressed k2 then MODIFIER_SHIFT else 0) + (if ctrl_pressed k2 then MODIFIER_CTRL else 0)
               + (if alt_pressed k2 then MODIFIER_ALT else 0)\<rparr>]))"

definition fetch_events :: "bytes \<Rightarrow> hid_keyboard \<Rightarrow> hid_keyboard \<times> key_event list" where
  "fetch_events buf k = fold decode_code buf (k, [])"

definition key_char :: "string \<Rightarrow> nat \<Rightarrow> nat \<Rightarrow> u8" where
  "key_char s lo c = ascii s ! (c - lo)"

definition to_ascii :: "key_event \<Rightarrow> u8 option" where
  "to_ascii e =
     (let c = key e;
          a = (if modifiers e AND MODIFIER_SHIFT \<noteq> 0
               then if 0x02 \<le> c \<and> c < 0x0E then key_char ''!@#$%^&*()_+'' 0x02 c
                 else if c = 0x0E then 0x8
                 else if c = 0x0F then 0x09
                 else if 0x10 \<le> c \<and> c < 0x1C then key_char ''QWERTYUIOP{}'' 0x10 c
                 else if c = 0x1C then 0x0A
                 else if 0x1E \<le> c \<and> c < 0x29 then key_char ''ASDFGHJKL:\"'' 0x1E c
                 else if c = 0x29 then 0x7E
                 else if c = 0x2B then 0x7C
                 else if 0x2C \<le> c \<and> c < 0x36 then key_char ''ZXCVBNM<>?'' 0x2C c
                 else if c = 0x39 then 0x20
                 else 0
               else if 0x02 \<le> c \<and> c < 0x0E then key_char ''1234567890-='' 0x02 c
                 else if c = 0x0E then 0x8
                 else if c = 0x0F then 0x09
                 else if 0x10 \<le> c \<and> c < 0x1C then key_char ''qwertyuiop[]'' 0x10 c
                 else if c = 0x1C then 0x0A
                 else if 0x1E \<le> c \<and> c < 0x29 then key_char (''asdfghjkl;'' @ [CHR 0x27]) 0x1E c
                 else if c = 0x29 then 0x60
                 else if c = 0x2B then 0x5C
                 else if 0x2C \<le> c \<and> c < 0x36 then key_char ''zxcvbnm,./'' 0x2C c
                 else if c = 0x39 then 0x20
                 else 0 :: u8)
      in if a \<noteq> 0 then Some a else None)"

section \<open>Mouse\<close>

record pointer_event =
  ev_x :: nat
  ev_y :: nat
  ev_z :: nat
  left_btn :: bool
  right_btn :: bool
  middle_btn :: bool

definition parse_event :: "bytes \<Rightarrow> pointer_event option" where
  "parse_event line = (case map from_hex (split_byte 0x2C line) of
       [Some x, Some y, Some z, Some b] \<Rightarrow> Some \<lparr>ev_x = x, ev_y = y, ev_z = z, left_btn = (b AND 1 > 0),
         right_btn = (b AND 2 > 0), middle_btn = (b AND 4 > 0)\<rparr>
     | _ \<Rightarrow> None)"

definition fetch_mouse_events :: "bytes \<Rightarrow> pointer_event list" where
  "fetch_mouse_events buf = (if utf8_valid buf then List.map_filter parse_event (split_byte 0x0A buf) else [])"

end
