(* ===== verification/Text_Edit.thy ===== *)
theory Text_Edit
  imports Hid
begin

text \<open>
  The text editor widget, \<^verbatim>\<open>programs/rtlib/src/gui/textedit.rs\<close>: the lines of a text, the cursor
  and the visible lines, and what the keys do. Drawing is left out; what it decides is the number
  of visible lines, which is a field of the state.

  Lines are strings in UTF-8, and the cursor column counts bytes: an operation on a byte that does
  not start a character panics.
\<close>

section \<open>Strings\<close>

definition char_boundary :: "bytes \<Rightarrow> usize \<Rightarrow> bool" where
  "char_boundary s i \<longleftrightarrow> i = length s \<or> i < length s \<and> \<not> continuation (s ! i)"

definition char_len :: "u8 \<Rightarrow> nat" where
  "char_len b = (if b < 0x80 then 1 else if b < 0xE0 then 2 else if b < 0xF0 then 3 else 4)"

text \<open>\<^verbatim>\<open>String::remove\<close>, \<^verbatim>\<open>String::insert\<close> of an ASCII character, \<^verbatim>\<open>String::split_off\<close>.\<close>

definition str_remove :: "bytes \<Rightarrow> usize \<Rightarrow> bytes run" where
  "str_remove s i = (if i < length s \<and> char_boundary s i then returns (take i s @ drop (i + char_len (s ! i)) s) else panics)"

definition str_insert :: "bytes \<Rightarrow> usize \<Rightarrow> u8 \<Rightarrow> bytes run" where
  "str_insert s i c = (if char_boundary s i then returns (take i s @ [c] @ drop i s) else panics)"

definition str_split_off :: "bytes \<Rightarrow> usize \<Rightarrow> (bytes \<times> bytes) run" where
  "str_split_off s i = (if char_boundary s i then returns (take i s, drop i s) else panics)"

text \<open>\<^verbatim>\<open>join("\n")\<close>.\<close>

fun join_lines :: "bytes list \<Rightarrow> bytes" where
  "join_lines [] = []"
| "join_lines [l] = l"
| "join_lines (l # ls) = l @ 0x0A # join_lines ls"

section \<open>State\<close>

record text_edit =
  read_only :: bool
  ted_lines :: "bytes list"
  cursor_line :: usize
  cursor_col :: usize
  visible_top_line :: usize
  visible_left_col :: usize
  num_visible_lines :: usize

definition text_edit_new :: text_edit where
  "text_edit_new = \<lparr>read_only = False, ted_lines = [], cursor_line = 0, cursor_col = 0, visible_top_line = 0,
     visible_left_col = 0, num_visible_lines = 0\<rparr>"

definition get_text :: "text_edit \<Rightarrow> bytes" where
  "get_text e = join_lines (ted_lines e)"

definition set_text :: "bytes \<Rightarrow> text_edit \<Rightarrow> text_edit" where
  "set_text s e = e\<lparr>ted_lines := split_byte 0x0A s, cursor_line := 0, cursor_col := 0, visible_top_line := 0, visible_left_col := 0\<rparr>"

definition get_cursor_position :: "text_edit \<Rightarrow> usize \<times> usize" where
  "get_cursor_position e = (cursor_line e, cursor_col e)"

section \<open>The cursor\<close>

definition scroll_up :: "text_edit \<Rightarrow> text_edit" where
  "scroll_up e = (if cursor_line e < visible_top_line e then e\<lparr>visible_top_line := usub (visible_top_line e) 1\<rparr> else e)"

definition scroll_down :: "text_edit \<Rightarrow> text_edit" where
  "scroll_down e = (if cursor_line e \<ge> uadd (visible_top_line e) (num_visible_lines e)
     then e\<lparr>visible_top_line := uadd (visible_top_line e) 1\<rparr> else e)"

definition move_cursor_up :: "text_edit \<Rightarrow> text_edit run" where
  "move_cursor_up e =
     (if cursor_line e > 0
      then and_then (item_at (ted_lines e) (cursor_line e - 1)) (\<lambda>line.
        returns (scroll_up (e\<lparr>cursor_line := cursor_line e - 1, cursor_col := min (cursor_col e) (length line)\<rparr>)))
      else returns e)"

definition move_cursor_down :: "text_edit \<Rightarrow> text_edit run" where
  "move_cursor_down e =
     (if cursor_line e < usub (length (ted_lines e)) 1
      then and_then (item_at (ted_lines e) (cursor_line e + 1)) (\<lambda>line.
        returns (scroll_down (e\<lparr>cursor_line := cursor_line e + 1, cursor_col := min (cursor_col e) (length line)\<rparr>)))
      else and_then (item_at (ted_lines e) (cursor_line e)) (\<lambda>line. returns (e\<lparr>cursor_col := length line\<rparr>)))"

definition move_cursor_left :: "text_edit \<Rightarrow> text_edit run" where
  "move_cursor_left e =
     (if cursor_col e > 0 then returns (e\<lparr>cursor_col := cursor_col e - 1\<rparr>)
      else if cursor_line e > 0
      then and_then (item_at (ted_lines e) (cursor_line e - 1)) (\<lambda>line.
        returns (scroll_up (e\<lparr>cursor_line := cursor_line e - 1, cursor_col := length line\<rparr>)))
      else returns e)"

definition move_cursor_right :: "text_edit \<Rightarrow> text_edit run" where
  "move_cursor_right e = and_then (item_at (ted_lines e) (cursor_line e)) (\<lambda>line.
     if cursor_col e < length line then returns (e\<lparr>cursor_col := cursor_col e + 1\<rparr>)
     else if cursor_line e < usub (length (ted_lines e)) 1
     then returns (scroll_down (e\<lparr>cursor_line := cursor_line e + 1, cursor_col := 0\<rparr>))
     else returns e)"

section \<open>Keys\<close>

abbreviation KEY_BACKSPACE :: nat where "KEY_BACKSPACE \<equiv> 0x0E"
abbreviation KEY_ENTER :: nat where "KEY_ENTER \<equiv> 0x1C"
abbreviation KEY_UP :: nat where "KEY_UP \<equiv> 0xE048"
abbreviation KEY_PAGE_UP :: nat where "KEY_PAGE_UP \<equiv> 0xE049"
abbreviation KEY_LEFT :: nat where "KEY_LEFT \<equiv> 0xE04B"
abbreviation KEY_RIGHT :: nat where "KEY_RIGHT \<equiv> 0xE04D"
abbreviation KEY_DOWN :: nat where "KEY_DOWN \<equiv> 0xE050"
abbreviation KEY_PAGE_DOWN :: nat where "KEY_PAGE_DOWN \<equiv> 0xE051"
abbreviation KEY_DELETE :: nat where "KEY_DELETE \<equiv> 0xE053"

text \<open>Replace the line \<open>i\<close>.\<close>

definition set_line :: "usize \<Rightarrow> bytes \<Rightarrow> text_edit \<Rightarrow> text_edit" where
  "set_line i l e = e\<lparr>ted_lines := (ted_lines e)[i := l]\<rparr>"

definition delete_line :: "usize \<Rightarrow> text_edit \<Rightarrow> text_edit" where
  "delete_line i e = e\<lparr>ted_lines := take i (ted_lines e) @ drop (Suc i) (ted_lines e)\<rparr>"

definition key_backspace :: "text_edit \<Rightarrow> text_edit run" where
  "key_backspace e =
     (if cursor_col e > 0
      then and_then (item_at (ted_lines e) (cursor_line e)) (\<lambda>line. and_then (str_remove line (cursor_col e - 1)) (\<lambda>line'.
        move_cursor_left (set_line (cursor_line e) line' e)))
      else if cursor_line e > 0
      then and_then (item_at (ted_lines e) (cursor_line e)) (\<lambda>line.
        let e1 = delete_line (cursor_line e) e in
        and_then (item_at (ted_lines e1) (cursor_line e1 - 1)) (\<lambda>prev.
          move_cursor_up ((set_line (cursor_line e1 - 1) (prev @ line) e1)\<lparr>cursor_col := length prev\<rparr>)))
      else returns e)"

definition key_delete :: "text_edit \<Rightarrow> text_edit run" where
  "key_delete e = and_then (item_at (ted_lines e) (cursor_line e)) (\<lambda>line.
     if cursor_col e < length line
     then and_then (str_remove line (cursor_col e)) (\<lambda>line'. returns (set_line (cursor_line e) line' e))
     else if cursor_line e < usub (length (ted_lines e)) 1
     then and_then (item_at (ted_lines e) (cursor_line e + 1)) (\<lambda>nxt.
       returns (set_line (cursor_line e) (line @ nxt) (delete_line (cursor_line e + 1) e)))
     else returns e)"

definition key_enter :: "text_edit \<Rightarrow> text_edit run" where
  "key_enter e = and_then (item_at (ted_lines e) (cursor_line e)) (\<lambda>line.
     and_then (str_split_off line (cursor_col e)) (\<lambda>(l, r).
       let i = cursor_line e;
           e1 = e\<lparr>ted_lines := take i (ted_lines e) @ [l, r] @ drop (Suc i) (ted_lines e)\<rparr>
       in and_then (move_cursor_down e1) (\<lambda>e2. returns (e2\<lparr>cursor_col := 0\<rparr>))))"

definition key_character :: "u8 \<Rightarrow> text_edit \<Rightarrow> text_edit run" where
  "key_character c e = and_then (item_at (ted_lines e) (cursor_line e)) (\<lambda>line.
     and_then (str_insert line (cursor_col e) c) (\<lambda>line'. move_cursor_right (set_line (cursor_line e) line' e)))"

definition handle_keyboard_event :: "key_event \<Rightarrow> text_edit \<Rightarrow> text_edit run" where
  "handle_keyboard_event k e =
     (if released k then returns e
      else if key k = KEY_PAGE_UP then run_fold (\<lambda>_. move_cursor_up) [0..<num_visible_lines e] e
      else if key k = KEY_PAGE_DOWN then run_fold (\<lambda>_. move_cursor_down) [0..<num_visible_lines e] e
      else if key k = KEY_UP then move_cursor_up e
      else if key k = KEY_DOWN then move_cursor_down e
      else if key k = KEY_LEFT then move_cursor_left e
      else if key k = KEY_RIGHT then move_cursor_right e
      else if key k = KEY_BACKSPACE then (if read_only e then returns e else key_backspace e)
      else if key k = KEY_DELETE then (if read_only e then returns e else key_delete e)
      else if key k = KEY_ENTER then (if read_only e then returns e else key_enter e)
      else if read_only e then returns e
      else case to_ascii k of None \<Rightarrow> returns e | Some c \<Rightarrow> key_character c e)"

end
