(* ===== verification/Input_Props.thy ===== *)
theory Input_Props
  imports Hid
begin

text \<open>
  Keyboard and mouse from the driver to the program: what is pushed into the kernel's queues
  comes out of the decoders of the run-time library.
\<close>

section \<open>Numbers in hexadecimal\<close>

lemma hex_value_digit: "d < 16 \<Longrightarrow> hex_value (hex_digit d) = Some d"
proof -
  have "list_all (\<lambda>d. hex_value (hex_digit d) = Some d) [0..<16]" by code_simp
  then show "d < 16 \<Longrightarrow> hex_value (hex_digit d) = Some d" by (simp add: list_all_iff)
qed

lemma hex_digit_sep: "d < 16 \<Longrightarrow> hex_digit d \<noteq> 0x2C \<and> hex_digit d \<noteq> 0x0A \<and> hex_digit d \<noteq> 0x2B \<and> hex_digit d < 0x80"
proof -
  have "list_all (\<lambda>d. hex_digit d \<noteq> 0x2C \<and> hex_digit d \<noteq> 0x0A \<and> hex_digit d \<noteq> 0x2B \<and> hex_digit d < 0x80) [0..<16]" by code_simp
  then show "d < 16 \<Longrightarrow> hex_digit d \<noteq> 0x2C \<and> hex_digit d \<noteq> 0x0A \<and> hex_digit d \<noteq> 0x2B \<and> hex_digit d < 0x80"
    by (simp add: list_all_iff)
qed

lemma parse_digits_append:
  "parse_digits n (bs @ cs) = (case parse_digits n bs of None \<Rightarrow> None | Some m \<Rightarrow> parse_digits m cs)"
  by (induction n bs rule: parse_digits.induct) (auto split: option.splits)

lemma parse_hex: "n < 2 ^ 32 \<Longrightarrow> parse_digits 0 (hex n) = Some n"
proof (induction n rule: hex.induct)
  case (1 n)
  show ?case
  proof (cases "n < 16")
    case True
    then show ?thesis by (simp add: hex.simps [of n] hex_value_digit)
  next
    case False
    then have "parse_digits 0 (hex (n div 16)) = Some (n div 16)" using 1 by simp
    then show ?thesis using False 1(2) by (simp add: hex.simps [of n] parse_digits_append hex_value_digit)
  qed
qed

definition hex_text :: "bytes \<Rightarrow> bool" where
  "hex_text w \<longleftrightarrow> (\<forall>b \<in> set w. b \<noteq> 0x2C \<and> b \<noteq> 0x0A \<and> b \<noteq> 0x2B \<and> b < 0x80)"

lemma hex_text_hex: "hex_text (hex n)" and hex_not_Nil: "hex n \<noteq> []"
proof -
  have "hex_text (hex n) \<and> hex n \<noteq> []"
    by (induction n rule: hex.induct) (subst (1 2) hex.simps, auto simp: hex_text_def hex_digit_sep)
  then show "hex_text (hex n)" "hex n \<noteq> []" by auto
qed

lemma from_hex_hex: "n < 2 ^ 32 \<Longrightarrow> from_hex (hex n) = Some n"
proof -
  have "hd (hex n) \<noteq> 0x2B" using hex_text_hex [of n] hex_not_Nil [of n] by (cases "hex n") (auto simp: hex_text_def)
  then show "n < 2 ^ 32 \<Longrightarrow> from_hex (hex n) = Some n" using hex_not_Nil [of n] by (simp add: from_hex_def parse_hex)
qed

section \<open>Splitting\<close>

lemma split_byte_not_Nil: "split_byte c w \<noteq> []"
  by (induction w) (auto split: list.splits)

lemma split_byte_word: "c \<notin> set w \<Longrightarrow> split_byte c (w @ c # rest) = w # split_byte c rest"
  by (induction w) (auto split: list.splits)

lemma split_byte_single: "c \<notin> set w \<Longrightarrow> split_byte c w = [w]"
  by (induction w) auto

lemma utf8_valid_ascii: "\<forall>b \<in> set w. b < 0x80 \<Longrightarrow> utf8_valid w"
  by (induction w) simp_all

section \<open>Mouse\<close>

definition event_fields_ok :: "mouse_event \<Rightarrow> bool" where
  "event_fields_ok = (\<lambda>(x, y, z, b). x < 2 ^ 32 \<and> y < 2 ^ 32 \<and> z < 2 ^ 32 \<and> b < 2 ^ 32)"

definition pointer_of :: "mouse_event \<Rightarrow> pointer_event" where
  "pointer_of = (\<lambda>(x, y, z, b). \<lparr>ev_x = x, ev_y = y, ev_z = z, left_btn = (b AND 1 > 0),
     right_btn = (b AND 2 > 0), middle_btn = (b AND 4 > 0)\<rparr>)"

lemma parse_event_line:
  assumes "event_fields_ok e"
  obtains w where "event_line e = w @ [0x0A]" "0x0A \<notin> set w" "\<forall>b \<in> set w. b < 0x80" "parse_event w = Some (pointer_of e)"
proof -
  obtain x y z b where e: "e = (x, y, z, b)" by (cases e) auto
  have n: "x < 2 ^ 32" "y < 2 ^ 32" "z < 2 ^ 32" "b < 2 ^ 32" using assms by (simp_all add: event_fields_ok_def e)
  let ?w = "hex x @ 0x2C # hex y @ 0x2C # hex z @ 0x2C # hex b"
  have h: "0x2C \<notin> set (hex k)" "0x0A \<notin> set (hex k)" "\<forall>b \<in> set (hex k). b < 0x80" for k
    using hex_text_hex [of k] by (auto simp: hex_text_def)
  have "split_byte 0x2C ?w = [hex x, hex y, hex z, hex b]"
    by (simp add: split_byte_word split_byte_single h)
  then have "parse_event ?w = Some (pointer_of e)" using n by (simp add: parse_event_def from_hex_hex pointer_of_def e)
  moreover have "event_line e = ?w @ [0x0A]" by (simp add: event_line_def e)
  moreover have "0x0A \<notin> set ?w" "\<forall>b \<in> set ?w. b < 0x80" using h by auto
  ultimately show thesis using that by blast
qed

lemma drain_all:
  "length out + length (concat (map event_line es)) \<le> n \<Longrightarrow> drain_events n out es = (out @ concat (map event_line es), [])"
proof (induction es arbitrary: out)
  case (Cons e es)
  have "event_line e \<noteq> []" by (cases e) (simp add: event_line_def)
  then have "length out < n" using Cons.prems by (cases "event_line e") simp_all
  moreover have "length (event_line e) \<le> n - length out" using Cons.prems by simp
  ultimately show ?case using Cons.IH [of "out @ event_line e"] Cons.prems by simp
qed simp

lemma fetch_lines:
  "\<forall>e \<in> set es. event_fields_ok e \<Longrightarrow>
    utf8_valid (concat (map event_line es)) \<and> List.map_filter parse_event (split_byte 0x0A (concat (map event_line es))) = map pointer_of es"
proof -
  assume ok: "\<forall>e \<in> set es. event_fields_ok e"
  have "(\<forall>b \<in> set (concat (map event_line es)). b < 0x80)
    \<and> List.map_filter parse_event (split_byte 0x0A (concat (map event_line es))) = map pointer_of es"
    using ok
  proof (induction es)
    case Nil
    then show ?case by (simp add: parse_event_def from_hex_def List.map_filter_def)
  next
    case (Cons e es)
    obtain w where w: "event_line e = w @ [0x0A]" "0x0A \<notin> set w" "\<forall>b \<in> set w. b < 0x80" "parse_event w = Some (pointer_of e)"
      using parse_event_line Cons.prems by (metis list.set_intros(1))
    then show ?case using Cons by (auto simp: split_byte_word List.map_filter_def)
  qed
  then show ?thesis by (simp add: utf8_valid_ascii)
qed

text \<open>Mouse events survive the text they are passed in: a read of \<^verbatim>\<open>mouse:/all\<close> with a buffer
  that is large enough empties the queue, and the program's parser returns exactly the queued
  positions and buttons, in order.\<close>

theorem mouse_events_roundtrip:
  assumes "\<forall>e \<in> set (mouse_events m). event_fields_ok e" and "length (concat (map event_line (mouse_events m))) \<le> n"
  shows "\<exists>buf. mouse_read MOUSE_ALL_HND off n m = returns (Inr (length buf, buf), m\<lparr>mouse_events := []\<rparr>)
    \<and> fetch_mouse_events buf = map pointer_of (mouse_events m)"
  using drain_all [of "[]" "mouse_events m" n] fetch_lines [OF assms(1)] assms(2)
  by (simp add: mouse_read_def succeed_def fetch_mouse_events_def)

lemma mouse_events_roundtrip_witness:
  "\<exists>buf. mouse_read MOUSE_ALL_HND 0 512 (mouse_new\<lparr>mouse_events := [(300, 20, 0, 1), (299, 25, 0, 0)]\<rparr>)
      = returns (Inr (length buf, buf), mouse_new\<lparr>mouse_events := []\<rparr>)
    \<and> map ev_x (fetch_mouse_events buf) = [300, 299] \<and> map left_btn (fetch_mouse_events buf) = [True, False]"
proof -
  let ?m = "mouse_new\<lparr>mouse_events := [(300, 20, 0, 1), (299, 25, 0, 0)]\<rparr>"
  have l: "length (concat (map event_line (mouse_events ?m))) \<le> 512" by code_simp
  show ?thesis using mouse_events_roundtrip [OF _ l, of 0] by (auto simp: event_fields_ok_def pointer_of_def)
qed

lemma as_i32_exact: "- (2 ^ 31) \<le> x \<Longrightarrow> x < 2 ^ 31 \<Longrightarrow> as_i32 x = x"
  by (simp add: as_i32_def)

text \<open>C32. Movements of the pointer, with the divisors the driver starts with (1 across, -1 down), limits
  below $2^{30}$, a position within them and deltas of at most $2^{15}$: every movement returns, the
  new column is the old one plus \<open>dx\<close> and the new line the old one minus \<open>dy\<close>, each clamped to the range
  from 0 to the limit, which it may reach. The event that is queued has this position.\<close>

theorem mouse_stays_in_bounds:
  assumes "cur_x m \<le> max_x m" "cur_y m \<le> max_y m" "max_x m < 2 ^ 30" "max_y m < 2 ^ 30" "xdiv m = 1" "ydiv m = - 1"
    and "\<bar>dx\<bar> \<le> 2 ^ 15" "\<bar>dy\<bar> \<le> 2 ^ 15"
  shows "\<exists>m'. mouse_push dx dy b m = returns (irq_cb m, m')
    \<and> int (cur_x m') = max 0 (min (int (cur_x m) + dx) (int (max_x m)))
    \<and> int (cur_y m') = max 0 (min (int (cur_y m) - dy) (int (max_y m)))
    \<and> mouse_events m' = mouse_events m @ [(cur_x m', cur_y m', 0, unat b)]"
proof -
  have v: "as_i32 (int (cur_x m)) = int (cur_x m)" "as_i32 (int (cur_y m)) = int (cur_y m)"
    "as_i32 (int (max_x m)) = int (max_x m)" "as_i32 (int (max_y m)) = int (max_y m)"
    "as_i32 (int (cur_x m) + dx) = int (cur_x m) + dx" "as_i32 (int (cur_y m) - dy) = int (cur_y m) - dy"
    using assms by (auto intro!: as_i32_exact)
  have "moved (cur_x m) dx 1 = returns (int (cur_x m) + dx)" "moved (cur_y m) dy (- 1) = returns (int (cur_y m) - dy)"
    using v by (simp_all add: moved_def)
  then show ?thesis using v(3,4) assms(5,6) by (simp add: mouse_push_def Let_def clip_def)
qed

lemma mouse_stays_in_bounds_witness:
  "\<exists>m'. mouse_push 2000 (- 7) 1 mouse_new = returns (False, m') \<and> cur_x m' = 1000 \<and> cur_y m' = 7"
  using mouse_stays_in_bounds [of mouse_new 2000 "- 7" 1] by (auto simp: mouse_new_def)

section \<open>Keyboard\<close>

definition key_codes :: "u8 \<Rightarrow> u8 list" where
  "key_codes c = (let (code, shift) = ASCII_TO_KEYCODE ! unat c in
     (if shift then [LeftShift] else []) @ [code, code OR KEY_RELEASED] @ (if shift then [LeftShift OR KEY_RELEASED] else []))"

text \<open>The characters a program sees: those of the keys pressed.\<close>

definition typed :: "key_event list \<Rightarrow> u8 list" where
  "typed evs = List.map_filter to_ascii (filter (\<lambda>e. \<not> released e) evs)"

definition printable :: "u8 \<Rightarrow> bool" where
  "printable c \<longleftrightarrow> c = 0x09 \<or> c = 0x0A \<or> 0x20 \<le> c \<and> c < 0x7F"

text \<open>Keys of the main block, without the one that erases.\<close>

definition plain_key :: "key_event \<Rightarrow> bool" where
  "plain_key e \<longleftrightarrow> key e < 0x80 \<and> key e \<noteq> 0x0E"

definition reads_back :: "u8 \<Rightarrow> bool" where
  "reads_back c \<longleftrightarrow> fst (fetch_events (key_codes c) hid_keyboard_new) = hid_keyboard_new
     \<and> typed (snd (fetch_events (key_codes c) hid_keyboard_new)) = [c]
     \<and> list_all plain_key (snd (fetch_events (key_codes c) hid_keyboard_new))
     \<and> c < 128 \<and> fst (ASCII_TO_KEYCODE ! unat c) \<noteq> 0"

lemmas key_defs = reads_back_def plain_key_def key_codes_def ASCII_TO_KEYCODE_def fetch_events_def decode_code_def hid_keyboard_new_def
  typed_def List.map_filter_def to_ascii_def key_char_def ascii_def of_char_def

lemma reads_back_1: "list_all reads_back [9, 0xa, 0x20, 0x21, 0x22, 0x23, 0x24, 0x25, 0x26, 0x27, 0x28, 0x29, 0x2a, 0x2b, 0x2c, 0x2d, 0x2e, 0x2f]"
  by (simp add: key_defs)

lemma reads_back_2: "list_all reads_back [0x30, 0x31, 0x32, 0x33, 0x34, 0x35, 0x36, 0x37, 0x38, 0x39, 0x3a, 0x3b, 0x3c, 0x3d, 0x3e, 0x3f, 0x40]"
  by (simp add: key_defs)

lemma reads_back_3: "list_all reads_back [0x41, 0x42, 0x43, 0x44, 0x45, 0x46, 0x47, 0x48, 0x49, 0x4a, 0x4b, 0x4c, 0x4d, 0x4e, 0x4f, 0x50, 0x51]"
  by (simp add: key_defs)

lemma reads_back_4: "list_all reads_back [0x52, 0x53, 0x54, 0x55, 0x56, 0x57, 0x58, 0x59, 0x5a, 0x5b, 0x5c, 0x5d, 0x5e, 0x5f, 0x60]"
  by (simp add: key_defs)

lemma reads_back_5: "list_all reads_back [0x61, 0x62, 0x63, 0x64, 0x65, 0x66, 0x67, 0x68, 0x69, 0x6a, 0x6b, 0x6c, 0x6d, 0x6e, 0x6f]"
  by (simp add: key_defs)

lemma reads_back_6: "list_all reads_back [0x70, 0x71, 0x72, 0x73, 0x74, 0x75, 0x76, 0x77, 0x78, 0x79, 0x7a, 0x7b, 0x7c, 0x7d, 0x7e]"
  by (simp add: key_defs)

lemma printable_reads_back:
  assumes "printable c"
  shows "reads_back c"
proof -
  have t: "\<forall>n \<in> set (9 # 10 # [32..<127]). reads_back (of_nat n)"
    using reads_back_1 reads_back_2 reads_back_3 reads_back_4 reads_back_5 reads_back_6 by (simp add: upt_rec)
  have "unat c = 9 \<or> unat c = 10 \<or> 32 \<le> unat c \<and> unat c < 127"
    using assms by (auto simp: printable_def word_le_nat_alt word_less_nat_alt)
  then have "unat c \<in> set (9 # 10 # [32..<127])" by (simp only: list.set insert_iff set_upt atLeastLessThan_iff)
  then have "reads_back (of_nat (unat c))" using t by blast
  then show ?thesis by simp
qed

lemma decode_append: "fold decode_code codes (k, evs) = (let (k', evs') = fold decode_code codes (k, []) in (k', evs @ evs'))"
proof (induction codes arbitrary: k evs)
  case (Cons c codes)
  have d: "decode_code c (k, evs) = (fst (decode_code c (k, [])), evs @ snd (decode_code c (k, [])))"
    unfolding decode_code_def Let_def by simp
  obtain k1 e1 where "decode_code c (k, []) = (k1, e1)" by (cases "decode_code c (k, [])") auto
  then show ?case using d Cons.IH [of k1 "evs @ e1"] Cons.IH [of k1 e1]
    by (simp add: Let_def split: prod.splits)
qed simp

lemma typed_append: "typed (xs @ ys) = typed xs @ typed ys"
  by (simp add: typed_def List.map_filter_def)

lemma decode_text:
  "\<forall>c \<in> set cs. printable c \<Longrightarrow>
    \<exists>evs. fetch_events (concat (map key_codes cs)) hid_keyboard_new = (hid_keyboard_new, evs) \<and> typed evs = cs \<and> list_all plain_key evs"
proof (induction cs)
  case (Cons c cs)
  obtain e1 where e1: "fetch_events (key_codes c) hid_keyboard_new = (hid_keyboard_new, e1)" "typed e1 = [c]" "list_all plain_key e1"
    using printable_reads_back [of c] Cons.prems by (cases "fetch_events (key_codes c) hid_keyboard_new") (auto simp: reads_back_def)
  obtain e2 where e2: "fetch_events (concat (map key_codes cs)) hid_keyboard_new = (hid_keyboard_new, e2)" "typed e2 = cs" "list_all plain_key e2"
    using Cons by auto
  have "fetch_events (concat (map key_codes (c # cs))) hid_keyboard_new = (hid_keyboard_new, e1 @ e2)"
    using e1(1) e2(1) decode_append [of "concat (map key_codes cs)" hid_keyboard_new e1] by (simp add: fetch_events_def)
  then show ?case using e1(2,3) e2(2,3) by (auto simp: typed_append)
qed (simp add: fetch_events_def typed_def List.map_filter_def)

text \<open>From the queue of the kernel to the program.\<close>

definition kbd_ok :: "keyboard \<Rightarrow> bool" where
  "kbd_ok k \<longleftrightarrow> (\<forall>l \<in> set (listeners k). lhnd l < next_hnd k)"

definition type_text :: "usize \<Rightarrow> bytes \<Rightarrow> input \<Rightarrow> input" where
  "type_text hnd cs s = fold (\<lambda>c s. snd (push_ascii hnd c s)) cs s"

definition queue_codes :: "usize \<Rightarrow> u8 list \<Rightarrow> listener \<Rightarrow> listener" where
  "queue_codes hnd codes l = (if dhnd l = KBD_ALL_HND \<or> dhnd l = hnd then l\<lparr>events := events l @ codes\<rparr> else l)"

lemma queue_codes_Nil: "queue_codes hnd [] = id"
  by (rule ext) (simp add: queue_codes_def)

lemma deliver_queue: "deliver hnd c (queue_codes hnd cs l) = queue_codes hnd (cs @ [c]) l"
  by (simp add: deliver_def queue_codes_def)

lemma queue_codes_append: "queue_codes hnd ds (queue_codes hnd cs l) = queue_codes hnd (cs @ ds) l"
  by (simp add: queue_codes_def)

lemma kbd_push_kbd: "kbd (snd (kbd_push hnd c s)) = (kbd s)\<lparr>listeners := map (deliver hnd c) (listeners (kbd s))\<rparr>"
  by (simp add: kbd_push_def Let_def)

lemma push_codes_kbd:
  "kbd (snd (fold (\<lambda>code (ws, s). let (w, s') = kbd_push hnd code s in (ws @ w, s')) codes (ws, s)))
     = (kbd s)\<lparr>listeners := map (queue_codes hnd codes) (listeners (kbd s))\<rparr>"
proof (induction codes arbitrary: ws s)
  case Nil
  then show ?case by (simp add: queue_codes_Nil)
next
  case (Cons c codes)
  obtain w s' where p: "kbd_push hnd c s = (w, s')" by (cases "kbd_push hnd c s") auto
  then have k: "kbd s' = (kbd s)\<lparr>listeners := map (deliver hnd c) (listeners (kbd s))\<rparr>"
    using kbd_push_kbd [of hnd c s] by simp
  have "deliver hnd c = queue_codes hnd [c]"
    by (rule ext) (simp add: deliver_def queue_codes_def)
  then show ?case using Cons.IH [of "ws @ w" s'] by (simp add: p k queue_codes_append cong: map_cong)
qed

lemma push_ascii_kbd:
  assumes "printable c"
  shows "kbd (snd (push_ascii hnd c s)) = (kbd s)\<lparr>listeners := map (queue_codes hnd (key_codes c)) (listeners (kbd s))\<rparr>"
proof -
  obtain code shift where t: "ASCII_TO_KEYCODE ! unat c = (code, shift)" by (cases "ASCII_TO_KEYCODE ! unat c") auto
  have "c < 128" "code \<noteq> 0" using printable_reads_back [OF assms] by (simp_all add: reads_back_def t)
  then show ?thesis using push_codes_kbd [of hnd "key_codes c" "[]" s]
    by (simp add: push_ascii_def key_codes_def t del: fold_append fold_simps)
qed

lemma type_text_kbd:
  "\<forall>c \<in> set cs. printable c \<Longrightarrow>
    kbd (type_text hnd cs s) = (kbd s)\<lparr>listeners := map (queue_codes hnd (concat (map key_codes cs))) (listeners (kbd s))\<rparr>"
proof (induction cs arbitrary: s)
  case Nil
  then show ?case by (simp add: type_text_def queue_codes_Nil)
next
  case (Cons c cs)
  have "type_text hnd (c # cs) s = type_text hnd cs (snd (push_ascii hnd c s))" by (simp add: type_text_def)
  then show ?case using Cons.IH [of "snd (push_ascii hnd c s)"] Cons.prems push_ascii_kbd [of c hnd s]
    by (simp add: queue_codes_append cong: map_cong)
qed

lemma take_events_last:
  "\<forall>l \<in> set ls. lhnd l \<noteq> hnd \<Longrightarrow> lhnd l0 = hnd \<Longrightarrow>
    take_events hnd n (ls @ [l0]) = Some (take n (events l0), ls @ [l0\<lparr>events := drop n (events l0)\<rparr>])"
  by (induction ls) auto

lemma lhnd_queue [simp]: "lhnd (queue_codes hnd codes l) = lhnd l"
  by (simp add: queue_codes_def)

lemma key_codes_length: "length (key_codes c) \<le> 4"
  by (simp add: key_codes_def split: prod.split)

lemma text_codes_length: "length (concat (map key_codes cs)) \<le> 4 * length cs"
proof (induction cs)
  case (Cons c cs)
  then show ?case using key_codes_length [of c] by simp
qed simp

text \<open>A program that opens \<^verbatim>\<open>kbd:/all\<close> before a text of printable characters is pushed into the
  keyboard driver, and then reads with a buffer of four bytes per character, decodes key events
  whose characters are exactly this text; its own decoder is back in the initial state.\<close>

lemma typed_text_arrives:
  assumes "kbd_ok (kbd s)" and "device_relative_path path = ascii ''/all''" and "\<forall>c \<in> set cs. printable c" and "4 * length cs \<le> n"
  shows "\<exists>hnd e k. kbd_open path mode (kbd s) = returns (Inr (hnd, e), k)
    \<and> (\<exists>codes k' evs. kbd_read hnd off n (kbd (type_text kb cs (s\<lparr>kbd := k\<rparr>))) = returns (Inr (length codes, codes), k')
        \<and> fetch_events codes hid_keyboard_new = (hid_keyboard_new, evs) \<and> typed evs = cs \<and> list_all plain_key evs)"
proof -
  let ?h = "next_hnd (kbd s)" and ?codes = "concat (map key_codes cs)"
  let ?l = "\<lparr>lhnd = ?h, dhnd = KBD_ALL_HND, events = []\<rparr>"
  obtain e k where o: "kbd_open path mode (kbd s) = returns (Inr (?h, e), k)"
    and k: "listeners k = listeners (kbd s) @ [?l]"
    using assms(2) by (simp add: kbd_open_def add_listener_def succeed_def ascii_def)
  obtain evs where evs: "fetch_events ?codes hid_keyboard_new = (hid_keyboard_new, evs)" "typed evs = cs" "list_all plain_key evs"
    using decode_text [OF assms(3)] by blast
  have "\<forall>l \<in> set (map (queue_codes kb ?codes) (listeners (kbd s))). lhnd l \<noteq> ?h"
    using assms(1) by (auto simp: kbd_ok_def)
  moreover have "queue_codes kb ?codes ?l = ?l\<lparr>events := ?codes\<rparr>" by (simp add: queue_codes_def)
  ultimately have "\<exists>k'. kbd_read ?h off n (kbd (type_text kb cs (s\<lparr>kbd := k\<rparr>))) = returns (Inr (length ?codes, ?codes), k')"
    using text_codes_length [of cs] assms(4) take_events_last [of _ ?h "?l\<lparr>events := ?codes\<rparr>" n]
    by (simp add: kbd_read_def type_text_kbd [OF assms(3)] k succeed_def)
  then show ?thesis using o evs by blast
qed

definition input_new :: input where
  "input_new = \<lparr>kbd_lshift = False, kbd_rshift = False, last_keycode = 0, kbd = keyboard_new, mouse = mouse_new\<rparr>"

text \<open>The shell of the kernel reads characters with \<^verbatim>\<open>pop_ascii\<close>, which only sees the code pushed
  last: after a whole character it is a release code, which stands for no character.\<close>

lemma pop_after_push: "fst (pop_ascii (snd (push_ascii 2 (of_char CHR ''a'') input_new))) = 0"
  by code_simp

end
