(* ===== verification/Text_Edit_Props.thy ===== *)
theory Text_Edit_Props
  imports Text_Edit Input_Props
begin

text \<open>
  The editor against the simplest one: a text and a position in it. The lines and the cursor
  represent the text \<open>get_text\<close> and the position \<open>offset\<close>; every key does to these what it should.
\<close>

section \<open>Invariant and abstraction\<close>

definition plain :: "bytes \<Rightarrow> bool" where
  "plain l \<longleftrightarrow> (\<forall>b \<in> set l. b < 0x80 \<and> b \<noteq> 0x0A)"

definition editor_ok :: "text_edit \<Rightarrow> bool" where
  "editor_ok e \<longleftrightarrow> cursor_line e < length (ted_lines e) \<and> cursor_col e \<le> length (ted_lines e ! cursor_line e)
     \<and> list_all plain (ted_lines e) \<and> visible_top_line e \<le> cursor_line e"

definition small :: "text_edit \<Rightarrow> bool" where
  "small e \<longleftrightarrow> length (ted_lines e) < 2 ^ 62 \<and> num_visible_lines e < 2 ^ 62"

definition above :: "bytes list \<Rightarrow> bytes" where
  "above ls = concat (map (\<lambda>l. l @ [0x0A]) ls)"

definition below :: "bytes list \<Rightarrow> bytes" where
  "below ls = concat (map (\<lambda>l. 0x0A # l) ls)"

definition offset :: "text_edit \<Rightarrow> nat" where
  "offset e = length (above (take (cursor_line e) (ted_lines e))) + cursor_col e"

lemma above_simps [simp]: "above [] = []" "above (ls @ [l]) = above ls @ l @ [0x0A]" "above (l # ls) = l @ 0x0A # above ls"
  and below_simps [simp]: "below [] = []" "below (l # ls) = 0x0A # l @ below ls"
  by (simp_all add: above_def below_def)

lemma join_lines_below: "join_lines (l # rs) = l @ below rs"
  by (induction rs arbitrary: l) simp_all

lemma join_lines_split: "join_lines (ls @ l # rs) = above ls @ l @ below rs"
proof (induction ls)
  case Nil
  then show ?case by (simp add: join_lines_below)
next
  case (Cons k ls)
  then show ?case by (cases ls) simp_all
qed

text \<open>The lines around the cursor.\<close>

definition view :: "text_edit \<Rightarrow> bytes list \<Rightarrow> bytes \<Rightarrow> bytes list \<Rightarrow> nat \<Rightarrow> bool" where
  "view e ls l rs col \<longleftrightarrow> ted_lines e = ls @ l # rs \<and> cursor_line e = length ls \<and> cursor_col e = col \<and> col \<le> length l
     \<and> list_all plain (ls @ l # rs) \<and> visible_top_line e \<le> length ls"

lemma view_ok: "view e ls l rs col \<Longrightarrow> editor_ok e"
  by (simp add: view_def editor_ok_def)

lemma ok_view:
  assumes "editor_ok e"
  obtains ls l rs col where "view e ls l rs col"
proof -
  let ?i = "cursor_line e" and ?t = "ted_lines e"
  have i: "?i < length ?t" using assms by (simp add: editor_ok_def)
  have "?t = take ?i ?t @ ?t ! ?i # drop (Suc ?i) ?t" by (rule id_take_nth_drop [OF i])
  then have "view e (take ?i ?t) (?t ! ?i) (drop (Suc ?i) ?t) (cursor_col e)"
    using assms i by (simp add: view_def editor_ok_def min.absorb2 list_all_length)
  then show thesis by (rule that)
qed

lemma view_text:
  assumes "view e ls l rs col"
  shows "get_text e = above ls @ l @ below rs" "offset e = length (above ls) + col"
  using assms by (simp_all add: view_def get_text_def join_lines_split offset_def)

lemma view_lines [simp]:
  assumes "view e ls l rs col"
  shows "item_at (ted_lines e) (cursor_line e) = returns l"
  using assms by (simp add: view_def)

lemma view_prev:
  assumes "view e (ls @ [p]) l rs col"
  shows "item_at (ted_lines e) (cursor_line e - 1) = returns p"
  using assms by (simp add: view_def nth_append)

lemma view_next:
  assumes "view e ls l (n # rs) col"
  shows "item_at (ted_lines e) (cursor_line e + 1) = returns n"
  using assms by (simp add: view_def nth_append)

lemma view_last:
  assumes "view e ls l rs col" "small e"
  shows "cursor_line e < usub (length (ted_lines e)) 1 \<longleftrightarrow> rs \<noteq> []"
  using assms by (cases rs) (simp_all add: view_def usub_exact)

section \<open>Moving\<close>

lemma scroll_up_view:
  assumes "ted_lines e = ls @ l # rs" "cursor_line e = length ls" "cursor_col e = col" "col \<le> length l"
    "list_all plain (ls @ l # rs)" "visible_top_line e \<le> Suc (length ls)"
  shows "view (scroll_up e) ls l rs col"
  using assms by (auto simp: scroll_up_def view_def usub_exact)

lemma scroll_down_view:
  assumes "ted_lines e = ls @ l # rs" "cursor_line e = length ls" "cursor_col e = col" "col \<le> length l"
    "list_all plain (ls @ l # rs)" "visible_top_line e < length ls" "length ls < 2 ^ 62" "num_visible_lines e < 2 ^ 62"
  shows "view (scroll_down e) ls l rs col"
  using assms by (auto simp: scroll_down_def view_def uadd_exact)

lemma left_view:
  assumes v: "view e ls l rs col"
  shows "\<exists>e'. move_cursor_left e = returns e' \<and>
    (if col > 0 then view e' ls l rs (col - 1)
     else if ls = [] then e' = e
     else view e' (butlast ls) (last ls) (l # rs) (length (last ls)))"
proof (cases "col > 0")
  case True
  moreover have "col - 1 \<le> length l" using v by (auto simp: view_def)
  ultimately show ?thesis using v by (simp add: move_cursor_left_def view_def)
next
  case False
  show ?thesis
  proof (cases ls rule: rev_cases)
    case Nil
    then show ?thesis using v False by (simp add: move_cursor_left_def view_def)
  next
    case (snoc ps p)
    have c: "cursor_col e = 0" "cursor_line e > 0" using v False snoc by (simp_all add: view_def)
    have "view (scroll_up (e\<lparr>cursor_line := cursor_line e - 1, cursor_col := length p\<rparr>)) ps p (l # rs) (length p)"
      by (rule scroll_up_view) (use v snoc in \<open>auto simp: view_def\<close>)
    then show ?thesis using v c snoc view_prev [of e ps p l rs col] False by (simp add: move_cursor_left_def)
  qed
qed

lemma right_view:
  assumes v: "view e ls l rs col" and s: "small e"
  shows "\<exists>e'. move_cursor_right e = returns e' \<and>
    (if col < length l then view e' ls l rs (col + 1)
     else case rs of [] \<Rightarrow> e' = e | n # ns \<Rightarrow> view e' (ls @ [l]) n ns 0)"
proof (cases "col < length l")
  case True
  then show ?thesis using v by (simp add: move_cursor_right_def) (simp add: view_def)
next
  case False
  show ?thesis
  proof (cases rs)
    case Nil
    then show ?thesis using v False view_last [OF v s] by (simp add: move_cursor_right_def) (simp add: view_def)
  next
    case (Cons n ns)
    have "view (scroll_down (e\<lparr>cursor_line := cursor_line e + 1, cursor_col := 0\<rparr>)) (ls @ [l]) n ns 0"
      by (rule scroll_down_view) (use v s Cons in \<open>auto simp: view_def small_def\<close>)
    then show ?thesis using v False view_last [OF v s] Cons by (simp add: move_cursor_right_def) (simp add: view_def)
  qed
qed

lemma up_view:
  assumes v: "view e ls l rs col"
  shows "\<exists>e'. move_cursor_up e = returns e' \<and>
    (if ls = [] then e' = e else view e' (butlast ls) (last ls) (l # rs) (min col (length (last ls))))"
proof (cases ls rule: rev_cases)
  case Nil
  then show ?thesis using v by (simp add: move_cursor_up_def view_def)
next
  case (snoc ps p)
  have c: "cursor_col e = col" "cursor_line e > 0" using v snoc by (simp_all add: view_def)
  have "view (scroll_up (e\<lparr>cursor_line := cursor_line e - 1, cursor_col := min (cursor_col e) (length p)\<rparr>)) ps p (l # rs)
      (min col (length p))"
    by (rule scroll_up_view) (use v snoc in \<open>auto simp: view_def\<close>)
  then show ?thesis using v c snoc view_prev [of e ps p l rs col] by (simp add: move_cursor_up_def)
qed

lemma down_view:
  assumes v: "view e ls l rs col" and s: "small e"
  shows "\<exists>e'. move_cursor_down e = returns e' \<and>
    (case rs of [] \<Rightarrow> view e' ls l rs (length l) | n # ns \<Rightarrow> view e' (ls @ [l]) n ns (min col (length n)))"
proof (cases rs)
  case Nil
  then show ?thesis using v view_last [OF v s] by (simp add: move_cursor_down_def) (simp add: view_def)
next
  case (Cons n ns)
  have "view (scroll_down (e\<lparr>cursor_line := cursor_line e + 1, cursor_col := min (cursor_col e) (length n)\<rparr>)) (ls @ [l]) n ns (min col (length n))"
    by (rule scroll_down_view) (use v s Cons in \<open>auto simp: view_def small_def\<close>)
  then show ?thesis using v view_last [OF v s] view_next [of e ls l n ns col] Cons by (simp add: move_cursor_down_def)
qed

section \<open>Editing\<close>

lemma plain_simps [simp]: "plain []" "plain (c # l) \<longleftrightarrow> c < 0x80 \<and> c \<noteq> 0x0A \<and> plain l" "plain (l @ m) \<longleftrightarrow> plain l \<and> plain m"
  by (auto simp: plain_def)

lemma plain_take_drop: "plain l \<Longrightarrow> plain (take i l)" "plain l \<Longrightarrow> plain (drop i l)"
  by (auto simp: plain_def dest: in_set_takeD in_set_dropD)

lemma plain_boundary: "plain l \<Longrightarrow> i \<le> length l \<Longrightarrow> char_boundary l i"
  by (cases "i = length l") (auto simp: char_boundary_def plain_def byte_in_def not_le)

lemma plain_remove:
  assumes "plain l" "i < length l"
  shows "str_remove l i = returns (take i l @ drop (Suc i) l)"
proof -
  have "l ! i < 0x80" using assms by (simp add: plain_def)
  then show ?thesis using plain_boundary [OF assms(1), of i] assms(2) by (simp add: str_remove_def char_len_def)
qed

lemma set_line_view:
  assumes "view e ls l rs col" "plain l'" "col' \<le> length l'"
  shows "view ((set_line (cursor_line e) l' e)\<lparr>cursor_col := col'\<rparr>) ls l' rs col'"
  using assms by (simp add: view_def set_line_def)

lemma set_line_same:
  assumes "view e ls l rs col" "plain l'" "col \<le> length l'"
  shows "view (set_line (cursor_line e) l' e) ls l' rs col"
  using assms by (simp add: view_def set_line_def)

lemma backspace_view:
  assumes v: "view e ls l rs col"
  shows "\<exists>e'. key_backspace e = returns e' \<and>
    (if col > 0 then view e' ls (take (col - 1) l @ drop col l) rs (col - 1)
     else if ls = [] then e' = e
     else view e' (butlast ls) (last ls @ l) rs (length (last ls)))"
proof (cases "col > 0")
  case True
  have p: "plain l" "col \<le> length l" "cursor_col e = col" using v by (simp_all add: view_def)
  let ?l = "take (col - 1) l @ drop col l"
  have r: "str_remove l (col - 1) = returns ?l" using plain_remove [OF p(1), of "col - 1"] True p(2) by simp
  have "move_cursor_left (set_line (cursor_line e) ?l e) = returns ((set_line (cursor_line e) ?l e)\<lparr>cursor_col := col - 1\<rparr>)"
    using True p(3) by (simp add: move_cursor_left_def set_line_def)
  moreover have "view ((set_line (cursor_line e) ?l e)\<lparr>cursor_col := col - 1\<rparr>) ls ?l rs (col - 1)"
    by (rule set_line_view [OF v]) (use p plain_take_drop in auto)
  ultimately show ?thesis using v True p(3) r by (simp add: key_backspace_def)
next
  case False
  show ?thesis
  proof (cases ls rule: rev_cases)
    case Nil
    then show ?thesis using v False by (simp add: key_backspace_def view_def)
  next
    case (snoc ps p)
    have c: "cursor_col e = 0" "cursor_line e = Suc (length ps)" "cursor_line e > 0" "ted_lines e = (ps @ [p]) @ l # rs"
      using v False snoc by (simp_all add: view_def)
    let ?e1 = "delete_line (cursor_line e) e"
    let ?e2 = "(set_line (cursor_line ?e1 - 1) (p @ l) ?e1)\<lparr>cursor_col := length p\<rparr>"
    have e1: "ted_lines ?e1 = ps @ p # rs" "cursor_line ?e1 = Suc (length ps)" using c by (simp_all add: delete_line_def)
    have e2: "ted_lines ?e2 = ps @ (p @ l) # rs" "cursor_line ?e2 = Suc (length ps)" "cursor_col ?e2 = length p"
      "visible_top_line ?e2 = visible_top_line e"
      using e1 by (simp_all add: set_line_def delete_line_def)
    have "move_cursor_up ?e2 = returns (scroll_up (?e2\<lparr>cursor_line := length ps, cursor_col := length p\<rparr>))"
      using e2 by (simp add: move_cursor_up_def)
    moreover have "view (scroll_up (?e2\<lparr>cursor_line := length ps, cursor_col := length p\<rparr>)) ps (p @ l) rs (length p)"
      by (rule scroll_up_view) (use v e2 snoc in \<open>auto simp: view_def\<close>)
    moreover have "item_at (ted_lines ?e1) (cursor_line ?e1 - 1) = returns p" using e1 by simp
    ultimately show ?thesis using v c(1,3) snoc False by (simp add: key_backspace_def Let_def)
  qed
qed

lemma delete_view:
  assumes v: "view e ls l rs col" and s: "small e"
  shows "\<exists>e'. key_delete e = returns e' \<and>
    (if col < length l then view e' ls (take col l @ drop (Suc col) l) rs col
     else case rs of [] \<Rightarrow> e' = e | n # ns \<Rightarrow> view e' ls (l @ n) ns col)"
proof -
  have p: "plain l" "col \<le> length l" "cursor_col e = col" using v by (simp_all add: view_def)
  show ?thesis
  proof (cases "col < length l")
    case True
    have "view (set_line (cursor_line e) (take col l @ drop (Suc col) l) e) ls (take col l @ drop (Suc col) l) rs col"
      by (rule set_line_same [OF v]) (use p plain_take_drop True in auto)
    then show ?thesis using v p True plain_remove [OF p(1) True] by (simp add: key_delete_def)
  next
    case False
    show ?thesis
    proof (cases rs)
      case Nil
      then show ?thesis using v p False view_last [OF v s] by (simp add: key_delete_def)
    next
      case (Cons n ns)
      have "view (set_line (cursor_line e) (l @ n) (delete_line (cursor_line e + 1) e)) ls (l @ n) ns col"
        using v Cons by (simp add: view_def set_line_def delete_line_def)
      then show ?thesis using v p False view_last [OF v s] view_next [of e ls l n ns col] Cons by (simp add: key_delete_def)
    qed
  qed
qed

lemma enter_view:
  assumes v: "view e ls l rs col" and s: "small e" "Suc (length (ted_lines e)) < 2 ^ 62"
  shows "\<exists>e'. key_enter e = returns e' \<and> view e' (ls @ [take col l]) (drop col l) rs 0"
proof -
  have p: "plain l" "col \<le> length l" "cursor_col e = col" "cursor_line e = length ls" "ted_lines e = ls @ l # rs" using v by (simp_all add: view_def)
  have sp: "str_split_off l col = returns (take col l, drop col l)"
    using plain_boundary [OF p(1,2)] by (simp add: str_split_off_def)
  let ?e1 = "e\<lparr>ted_lines := take (cursor_line e) (ted_lines e) @ [take col l, drop col l] @ drop (Suc (cursor_line e)) (ted_lines e)\<rparr>"
  have e1: "view ?e1 ls (take col l) (drop col l # rs) col"
    using v plain_take_drop [OF p(1), of col] by (simp add: view_def)
  have s1: "small ?e1" using s p by (simp add: small_def)
  obtain e2 where e2: "move_cursor_down ?e1 = returns e2" "view e2 (ls @ [take col l]) (drop col l) rs (min col (length (drop col l)))"
    using down_view [OF e1 s1] by auto
  have "view (e2\<lparr>cursor_col := 0\<rparr>) (ls @ [take col l]) (drop col l) rs 0" using e2(2) by (simp add: view_def)
  then show ?thesis using v p(3) sp e2(1) by (simp add: key_enter_def Let_def)
qed

lemma character_view:
  assumes v: "view e ls l rs col" and s: "small e" and c: "c < 0x80" "c \<noteq> 0x0A"
  shows "\<exists>e'. key_character c e = returns e' \<and> view e' ls (take col l @ c # drop col l) rs (col + 1)"
proof -
  have p: "plain l" "col \<le> length l" "cursor_col e = col" using v by (simp_all add: view_def)
  let ?l = "take col l @ c # drop col l"
  let ?e1 = "set_line (cursor_line e) ?l e"
  have e1: "view ?e1 ls ?l rs col" by (rule set_line_same [OF v]) (use p c plain_take_drop in auto)
  have s1: "small ?e1" using s by (simp add: small_def set_line_def)
  have "col < length ?l" using p(2) by simp
  then obtain e2 where "move_cursor_right ?e1 = returns e2" "view e2 ls ?l rs (col + 1)"
    using right_view [OF e1 s1] p(2) by auto
  moreover have "str_insert l col c = returns ?l" using plain_boundary [OF p(1,2)] by (simp add: str_insert_def)
  ultimately show ?thesis using v p(3) by (simp add: key_character_def)
qed

section \<open>Characters\<close>

lemma key_char_plain: "list_all (\<lambda>c. c < 0x80 \<and> c \<noteq> 0x0A) (ascii s) \<Longrightarrow> lo \<le> c \<Longrightarrow> c - lo < length (ascii s) \<Longrightarrow>
    key_char s lo c < 0x80 \<and> key_char s lo c \<noteq> 0x0A"
  by (simp add: key_char_def list_all_length)

lemma length_ascii: "length (ascii s) = length s"
  by (simp add: ascii_def)

lemma to_ascii_plain:
  assumes "to_ascii k = Some c" "key k \<noteq> KEY_ENTER"
  shows "c < 0x80 \<and> c \<noteq> 0x0A"
proof -
  let ?ok = "\<lambda>s. list_all (\<lambda>c. c < 0x80 \<and> c \<noteq> 0x0A) (ascii s)"
  have ok: "?ok ''!@#$%^&*()_+''" "?ok ''QWERTYUIOP{}''" "?ok ''ASDFGHJKL:\"''" "?ok ''ZXCVBNM<>?''"
    "?ok ''1234567890-=''" "?ok ''qwertyuiop[]''" "?ok (''asdfghjkl;'' @ [CHR 0x27])" "?ok ''zxcvbnm,./''"
    by code_simp+
  define Q where "Q c \<longleftrightarrow> c < 0x80 \<and> (key k \<noteq> KEY_ENTER \<longrightarrow> c \<noteq> 0x0A)" for c :: u8
  have q: "Q (if b then x else y)" if "b \<Longrightarrow> Q x" "\<not> b \<Longrightarrow> Q y" for b x y using that by simp
  have kc: "Q (key_char s lo (key k))" if "?ok s" "lo \<le> key k \<and> key k < lo + length s" for s lo
  proof -
    have "lo \<le> key k" "key k - lo < length (ascii s)" using that(2) unfolding length_ascii by linarith+
    then show ?thesis using key_char_plain [OF that(1)] by (simp add: Q_def)
  qed
  have num: "Q 0" "Q 0x8" "Q 0x09" "Q 0x20" "Q 0x7E" "Q 0x7C" "Q 0x60" "Q 0x5C" "key k = 0x1C \<Longrightarrow> Q 0x0A"
    by (simp_all add: Q_def)
  have eq: "c = a" if "(if a \<noteq> 0 then Some a else None) = Some c" for a using that by (simp split: if_splits)
  have "Q c"
    by (subst eq [OF assms(1) [unfolded to_ascii_def Let_def]]) (intro q num kc ok; simp)
  then show ?thesis using assms(2) by (simp add: Q_def)
qed

section \<open>The editor refines a text with a position\<close>

text \<open>The line of a text around a position: where it starts, and where it ends (at its new line, or
  with the text).\<close>

definition line_start :: "bytes \<Rightarrow> nat \<Rightarrow> nat" where
  "line_start t p = p - length (takeWhile (\<lambda>b. b \<noteq> 0x0A) (rev (take p t)))"

definition line_end :: "bytes \<Rightarrow> nat \<Rightarrow> nat" where
  "line_end t p = p + length (takeWhile (\<lambda>b. b \<noteq> 0x0A) (drop p t))"

text \<open>One line up: the same column of the line before, or its end when it is shorter; on the first line
  nothing happens. One line down: the same, and from the last line to the end of the text.\<close>

definition up_pos :: "bytes \<Rightarrow> nat \<Rightarrow> nat" where
  "up_pos t p = (let s = line_start t p in
     if s = 0 then p else min (line_start t (s - 1) + (p - s)) (s - 1))"

definition down_pos :: "bytes \<Rightarrow> nat \<Rightarrow> nat" where
  "down_pos t p = (let s = line_start t p; e = line_end t p in
     if e = length t then e else min (e + 1 + (p - s)) (line_end t (e + 1)))"

text \<open>What a key does to a text \<open>t\<close> and a position \<open>p\<close> in it, in an editor that is read only or not and
  shows \<open>n\<close> lines.\<close>

definition edit_text :: "bool \<Rightarrow> nat \<Rightarrow> key_event \<Rightarrow> bytes \<times> nat \<Rightarrow> bytes \<times> nat" where
  "edit_text ro n k = (\<lambda>(t, p).
     if released k then (t, p)
     else if key k = KEY_UP then (t, up_pos t p)
     else if key k = KEY_DOWN then (t, down_pos t p)
     else if key k = KEY_PAGE_UP then (t, (up_pos t ^^ n) p)
     else if key k = KEY_PAGE_DOWN then (t, (down_pos t ^^ n) p)
     else if key k = KEY_LEFT then (t, p - 1)
     else if key k = KEY_RIGHT then (t, min (p + 1) (length t))
     else if ro then (t, p)
     else if key k = KEY_BACKSPACE then (if p = 0 then (t, p) else (take (p - 1) t @ drop p t, p - 1))
     else if key k = KEY_DELETE then (take p t @ drop (Suc p) t, p)
     else case to_ascii k of None \<Rightarrow> (t, p) | Some c \<Rightarrow> (take p t @ c # drop p t, p + 1))"

definition vertical :: "key_event \<Rightarrow> bool" where
  "vertical k \<longleftrightarrow> key k \<in> {KEY_UP, KEY_DOWN, KEY_PAGE_UP, KEY_PAGE_DOWN}"

lemma line_bounds:
  assumes "plain l" "col \<le> length l"
  shows "line_start (above ls @ l @ below rs) (length (above ls) + col) = length (above ls)"
    "line_end (above ls @ l @ below rs) (length (above ls) + col) = length (above ls) + length l"
proof -
  let ?P = "\<lambda>b :: u8. b \<noteq> 0x0A"
  have a: "takeWhile ?P (rev (above ls)) = []" by (cases ls rule: rev_cases) simp_all
  have b: "takeWhile ?P (below rs) = []" by (cases rs) simp_all
  have l: "\<forall>b \<in> set l. ?P b" using assms(1) by (simp add: plain_def)
  have "takeWhile ?P (rev (take col l) @ rev (above ls)) = rev (take col l)"
    using l a by (subst takeWhile_append2) (auto dest: in_set_takeD)
  then show "line_start (above ls @ l @ below rs) (length (above ls) + col) = length (above ls)"
    using assms(2) by (simp add: line_start_def min.absorb2)
  have "takeWhile ?P (drop col l @ below rs) = drop col l"
    using l b by (subst takeWhile_append2) (auto dest: in_set_dropD)
  then show "line_end (above ls @ l @ below rs) (length (above ls) + col) = length (above ls) + length l"
    using assms(2) by (simp add: line_end_def)
qed

definition goes_by :: "(nat \<Rightarrow> nat) \<Rightarrow> text_edit \<Rightarrow> text_edit run \<Rightarrow> bool" where
  "goes_by f e m \<longleftrightarrow> (\<exists>e'. m = returns e' \<and> editor_ok e' \<and> ted_lines e' = ted_lines e
     \<and> num_visible_lines e' = num_visible_lines e \<and> offset e' = f (offset e))"

lemma up_keeps: "move_cursor_up e = returns e' \<Longrightarrow> ted_lines e' = ted_lines e \<and> num_visible_lines e' = num_visible_lines e"
  by (auto simp: move_cursor_up_def and_then_returns scroll_up_def split: if_splits)

lemma down_keeps: "move_cursor_down e = returns e' \<Longrightarrow> ted_lines e' = ted_lines e \<and> num_visible_lines e' = num_visible_lines e"
  by (auto simp: move_cursor_down_def and_then_returns scroll_down_def split: if_splits)

lemma up_goes:
  assumes "editor_ok e"
  shows "goes_by (up_pos (get_text e)) e (move_cursor_up e)"
proof -
  obtain ls l rs col where v: "view e ls l rs col" by (rule ok_view [OF assms])
  have l: "plain l" "col \<le> length l" using v by (simp_all add: view_def)
  note b = line_bounds(1) [OF l, of ls rs]
  obtain e' where e': "move_cursor_up e = returns e'"
    "if ls = [] then e' = e else view e' (butlast ls) (last ls) (l # rs) (min col (length (last ls)))"
    using up_view [OF v] by blast
  have "editor_ok e' \<and> offset e' = up_pos (get_text e) (offset e)"
  proof (cases ls rule: rev_cases)
    case Nil
    then show ?thesis using e'(2) assms b by (simp add: up_pos_def view_text [OF v])
  next
    case (snoc ps p)
    have p: "plain p" using v snoc by (simp add: view_def)
    have v': "view e' ps p (l # rs) (min col (length p))" using e'(2) snoc by simp
    have "line_start (get_text e) (length (above ps) + length p) = length (above ps)"
      using line_bounds(1) [OF p order.refl, of ps "l # rs"] by (simp add: view_text [OF v] snoc)
    then have "up_pos (get_text e) (offset e) = min (length (above ps) + col) (length (above ps) + length p)"
      using b by (simp add: up_pos_def Let_def view_text [OF v] snoc)
    then show ?thesis using view_ok [OF v'] by (simp add: view_text [OF v'] min_def)
  qed
  then show ?thesis using e'(1) up_keeps [OF e'(1)] by (simp add: goes_by_def)
qed

lemma down_goes:
  assumes "editor_ok e" "small e"
  shows "goes_by (down_pos (get_text e)) e (move_cursor_down e)"
proof -
  obtain ls l rs col where v: "view e ls l rs col" by (rule ok_view [OF assms(1)])
  have l: "plain l" "col \<le> length l" using v by (simp_all add: view_def)
  note b = line_bounds [OF l, of ls rs]
  obtain e' where e': "move_cursor_down e = returns e'"
    "case rs of [] \<Rightarrow> view e' ls l rs (length l) | n # ns \<Rightarrow> view e' (ls @ [l]) n ns (min col (length n))"
    using down_view [OF v assms(2)] by blast
  have "editor_ok e' \<and> offset e' = down_pos (get_text e) (offset e)"
  proof (cases rs)
    case Nil
    then have v': "view e' ls l [] (length l)" using e'(2) by simp
    show ?thesis using b view_ok [OF v'] by (simp add: down_pos_def view_text [OF v] view_text [OF v'] Nil)
  next
    case (Cons n ns)
    have n: "plain n" using v Cons by (simp add: view_def)
    have v': "view e' (ls @ [l]) n ns (min col (length n))" using e'(2) Cons by simp
    have "line_end (get_text e) (Suc (length (above ls) + length l)) = length (above ls) + length l + 1 + length n"
      using line_bounds(2) [OF n le0, of "ls @ [l]" ns] by (simp add: view_text [OF v] Cons)
    then have "down_pos (get_text e) (offset e) = length (above ls) + length l + 1 + min col (length n)"
      using b by (simp add: down_pos_def Let_def view_text [OF v] Cons)
    then show ?thesis using view_ok [OF v'] by (simp add: view_text [OF v'])
  qed
  then show ?thesis using e'(1) down_keeps [OF e'(1)] by (simp add: goes_by_def)
qed

text \<open>Some number of such moves.\<close>

lemma goes_times:
  assumes step: "\<And>s. editor_ok s \<Longrightarrow> ted_lines s = ts \<Longrightarrow> num_visible_lines s = n \<Longrightarrow> goes_by f s (m s)"
  shows "editor_ok e \<Longrightarrow> ted_lines e = ts \<Longrightarrow> num_visible_lines e = n \<Longrightarrow> goes_by (f ^^ length xs) e (run_fold (\<lambda>_. m) xs e)"
proof (induction xs arbitrary: e)
  case Nil
  then show ?case by (simp add: goes_by_def)
next
  case (Cons x xs)
  obtain e1 where e1: "m e = returns e1" "editor_ok e1" "ted_lines e1 = ts" "num_visible_lines e1 = n" "offset e1 = f (offset e)"
    using step [OF Cons.prems] Cons.prems(2,3) by (auto simp: goes_by_def)
  have "goes_by (f ^^ length xs) e1 (run_fold (\<lambda>_. m) xs e1)" by (rule Cons.IH [OF e1(2-4)])
  then show ?case using e1 Cons.prems(2,3) by (simp add: goes_by_def funpow_swap1 del: funpow.simps(2)) (simp add: funpow_swap1)
qed

lemma vertical_ok:
  assumes "editor_ok e" "small e" "vertical k" "\<not> released k"
  shows "\<exists>e'. handle_keyboard_event k e = returns e' \<and> editor_ok e'
    \<and> (get_text e', offset e') = edit_text (read_only e) (num_visible_lines e) k (get_text e, offset e)"
proof -
  let ?n = "num_visible_lines e" and ?t = "get_text e"
  have t: "get_text s = ?t" if "ted_lines s = ted_lines e" for s using that by (simp add: get_text_def)
  have up: "goes_by (up_pos ?t) s (move_cursor_up s)" if "editor_ok s" "ted_lines s = ted_lines e" for s
    using up_goes [OF that(1)] t [OF that(2)] by simp
  have down: "goes_by (down_pos ?t) s (move_cursor_down s)" if "editor_ok s" "ted_lines s = ted_lines e" "num_visible_lines s = ?n" for s
    using down_goes [OF that(1)] t [OF that(2)] that(2,3) assms(2) by (simp add: small_def)
  have "goes_by (up_pos ?t ^^ length [0..<?n]) e (run_fold (\<lambda>_. move_cursor_up) [0..<?n] e)"
    by (rule goes_times [where ts = "ted_lines e" and n = ?n]) (rule up assms(1) refl | assumption)+
  moreover have "goes_by (down_pos ?t ^^ length [0..<?n]) e (run_fold (\<lambda>_. move_cursor_down) [0..<?n] e)"
    by (rule goes_times [where ts = "ted_lines e" and n = ?n]) (rule down assms(1) refl | assumption)+
  ultimately have pages: "goes_by (up_pos ?t ^^ ?n) e (run_fold (\<lambda>_. move_cursor_up) [0..<?n] e)"
    "goes_by (down_pos ?t ^^ ?n) e (run_fold (\<lambda>_. move_cursor_down) [0..<?n] e)" by simp_all
  have fin: ?thesis if g: "goes_by f e m" and h: "handle_keyboard_event k e = m"
    "edit_text (read_only e) ?n k (?t, offset e) = (?t, f (offset e))" for f m
  proof -
    obtain e' where "m = returns e'" "editor_ok e'" "ted_lines e' = ted_lines e" "offset e' = f (offset e)"
      using g by (auto simp: goes_by_def)
    then show ?thesis using h t [of e'] by simp
  qed
  consider "key k = KEY_UP" | "key k = KEY_DOWN" | "key k = KEY_PAGE_UP" | "key k = KEY_PAGE_DOWN"
    using assms(3) by (auto simp: vertical_def)
  then show ?thesis
  proof cases
    case 1
    then show ?thesis using fin [OF up [OF assms(1) refl]] assms(4) by (simp add: handle_keyboard_event_def edit_text_def)
  next
    case 2
    then show ?thesis using fin [OF down [OF assms(1) refl refl]] assms(4) by (simp add: handle_keyboard_event_def edit_text_def)
  next
    case 3
    then show ?thesis using fin [OF pages(1)] assms(4) by (simp add: handle_keyboard_event_def edit_text_def)
  next
    case 4
    then show ?thesis using fin [OF pages(2)] assms(4) by (simp add: handle_keyboard_event_def edit_text_def)
  qed
qed

text \<open>The horizontal keys, in terms of the text.\<close>

lemma left_refines:
  assumes "editor_ok e"
  shows "\<exists>e'. move_cursor_left e = returns e' \<and> editor_ok e' \<and> get_text e' = get_text e \<and> offset e' = offset e - 1"
proof -
  obtain ls l rs col where v: "view e ls l rs col" by (rule ok_view [OF assms])
  obtain e' where e': "move_cursor_left e = returns e'" "if col > 0 then view e' ls l rs (col - 1)
     else if ls = [] then e' = e else view e' (butlast ls) (last ls) (l # rs) (length (last ls))"
    using left_view [OF v] by blast
  show ?thesis
  proof (cases "col > 0")
    case True
    then show ?thesis using e' view_text [OF v] view_text [of e' ls l rs "col - 1"] view_ok by auto
  next
    case False
    then show ?thesis using e' view_text [OF v] view_ok [of e'] view_text [of e' "butlast ls" "last ls" "l # rs" "length (last ls)"] assms
      by (cases ls rule: rev_cases) auto
  qed
qed

lemma right_refines:
  assumes "editor_ok e" "small e"
  shows "\<exists>e'. move_cursor_right e = returns e' \<and> editor_ok e' \<and> get_text e' = get_text e
    \<and> offset e' = min (offset e + 1) (length (get_text e))"
proof -
  obtain ls l rs col where v: "view e ls l rs col" by (rule ok_view [OF assms(1)])
  have c: "col \<le> length l" using v by (simp add: view_def)
  obtain e' where e': "move_cursor_right e = returns e'" "if col < length l then view e' ls l rs (col + 1)
     else case rs of [] \<Rightarrow> e' = e | n # ns \<Rightarrow> view e' (ls @ [l]) n ns 0"
    using right_view [OF v assms(2)] by blast
  show ?thesis
  proof (cases "col < length l")
    case True
    then show ?thesis using e' view_text [OF v] view_text [of e' ls l rs "col + 1"] view_ok by auto
  next
    case False
    show ?thesis
    proof (cases rs)
      case Nil
      then show ?thesis using False c e' view_text [OF v] assms(1) by auto
    next
      case (Cons n ns)
      then show ?thesis using False c e' view_text [OF v] view_text [of e' "ls @ [l]" n ns 0] view_ok [of e'] by auto
    qed
  qed
qed

lemma backspace_refines:
  assumes "editor_ok e"
  shows "\<exists>e'. key_backspace e = returns e' \<and> editor_ok e'
    \<and> (get_text e', offset e') = (if offset e = 0 then (get_text e, offset e)
        else (take (offset e - 1) (get_text e) @ drop (offset e) (get_text e), offset e - 1))"
proof -
  obtain ls l rs col where v: "view e ls l rs col" by (rule ok_view [OF assms])
  have c: "col \<le> length l" using v by (simp add: view_def)
  obtain e' where e': "key_backspace e = returns e'" "if col > 0 then view e' ls (take (col - 1) l @ drop col l) rs (col - 1)
     else if ls = [] then e' = e else view e' (butlast ls) (last ls @ l) rs (length (last ls))"
    using backspace_view [OF v] by blast
  show ?thesis
  proof (cases "col > 0")
    case True
    then show ?thesis
      using e' c view_text [OF v] view_text [of e' ls "take (col - 1) l @ drop col l" rs "col - 1"] view_ok by auto
  next
    case False
    show ?thesis
    proof (cases ls rule: rev_cases)
      case Nil
      then show ?thesis using False e' view_text [OF v] assms by auto
    next
      case (snoc ps p)
      then have v': "view e' ps (p @ l) rs (length p)" using False e'(2) by simp
      show ?thesis using e'(1) False snoc view_text [OF v] view_text [OF v'] view_ok [OF v'] by auto
    qed
  qed
qed

lemma delete_refines:
  assumes "editor_ok e" "small e"
  shows "\<exists>e'. key_delete e = returns e' \<and> editor_ok e' \<and> offset e' = offset e
    \<and> get_text e' = take (offset e) (get_text e) @ drop (Suc (offset e)) (get_text e)"
proof -
  obtain ls l rs col where v: "view e ls l rs col" by (rule ok_view [OF assms(1)])
  have c: "col \<le> length l" using v by (simp add: view_def)
  obtain e' where e': "key_delete e = returns e'" "if col < length l then view e' ls (take col l @ drop (Suc col) l) rs col
     else case rs of [] \<Rightarrow> e' = e | n # ns \<Rightarrow> view e' ls (l @ n) ns col"
    using delete_view [OF v assms(2)] by blast
  show ?thesis
  proof (cases "col < length l")
    case True
    then show ?thesis
      using e' c view_text [OF v] view_text [of e' ls "take col l @ drop (Suc col) l" rs col] view_ok by auto
  next
    case False
    show ?thesis
    proof (cases rs)
      case Nil
      then show ?thesis using False c e' view_text [OF v] assms(1) by auto
    next
      case (Cons n ns)
      then have v': "view e' ls (l @ n) ns col" using False e'(2) by simp
      show ?thesis using e'(1) False c Cons view_text [OF v] view_text [OF v'] view_ok [OF v'] by auto
    qed
  qed
qed

lemma insert_refines:
  assumes "editor_ok e" "small e" "Suc (length (ted_lines e)) < 2 ^ 62" "c < 0x80"
  shows "\<exists>e'. (if c = 0x0A then key_enter e else key_character c e) = returns e' \<and> editor_ok e'
    \<and> get_text e' = take (offset e) (get_text e) @ c # drop (offset e) (get_text e) \<and> offset e' = offset e + 1"
proof -
  obtain ls l rs col where v: "view e ls l rs col" by (rule ok_view [OF assms(1)])
  have c: "col \<le> length l" using v by (simp add: view_def)
  show ?thesis
  proof (cases "c = 0x0A")
    case True
    obtain e' where e': "key_enter e = returns e'" "view e' (ls @ [take col l]) (drop col l) rs 0"
      using enter_view [OF v assms(2,3)] by blast
    show ?thesis using True c e'(1) view_text [OF v] view_text [OF e'(2)] view_ok [OF e'(2)] by auto
  next
    case False
    obtain e' where e': "key_character c e = returns e'" "view e' ls (take col l @ c # drop col l) rs (col + 1)"
      using character_view [OF v assms(2,4) False] by blast
    show ?thesis using False c e'(1) view_text [OF v] view_text [OF e'(2)] view_ok [OF e'(2)] by auto
  qed
qed

lemma enter_ascii: "key k = KEY_ENTER \<Longrightarrow> to_ascii k = Some 0x0A"
  by (simp add: to_ascii_def)

text \<open>A key that is none of the special ones.\<close>

lemma character_refines:
  assumes e: "editor_ok e" "small e" "Suc (length (ted_lines e)) < 2 ^ 62" and w: "\<not> read_only e" "\<not> released k"
    and k: "\<not> vertical k" "key k \<notin> {KEY_LEFT, KEY_RIGHT, KEY_BACKSPACE, KEY_DELETE}"
  shows "\<exists>e'. handle_keyboard_event k e = returns e' \<and> editor_ok e'
    \<and> (get_text e', offset e') = edit_text (read_only e) n k (get_text e, offset e)"
proof (cases "to_ascii k")
  case None
  then have "key k \<noteq> KEY_ENTER" using enter_ascii by auto
  then show ?thesis using None k w e(1) by (simp add: handle_keyboard_event_def edit_text_def vertical_def)
next
  case (Some c)
  have c: "c < 0x80" "c = 0x0A \<longleftrightarrow> key k = KEY_ENTER"
    using to_ascii_plain [OF Some] enter_ascii [of k] Some by (cases "key k = KEY_ENTER"; auto)+
  have "handle_keyboard_event k e = (if c = 0x0A then key_enter e else key_character c e)"
    using k w Some c(2) by (auto simp: handle_keyboard_event_def vertical_def)
  then show ?thesis using insert_refines [OF e c(1)] k w Some by (auto simp: edit_text_def vertical_def)
qed

text \<open>C36. The editor is a text with a position: whatever key is pressed, on a plain text (ASCII, at least
  one line, fewer than $2^{62}$ lines in the text and on the screen) the handler returns, the cursor stays inside the
  text, and the text and the position change as \<open>edit_text\<close> says. There Left and Right go one character
  back and forth; Up and Down go to the same column of the line before or after, or to its end if it is
  shorter, Up does nothing on the first line and Down goes to the end of the last; Page Up and Page Down
  do so as often as there are visible lines; Backspace and Delete remove the character before and after
  the position, Enter and characters are inserted, and none of these does anything when the editor is
  read only.\<close>

theorem text_edit_refines:
  assumes e: "editor_ok e" "small e" "Suc (length (ted_lines e)) < 2 ^ 62"
  shows "\<exists>e'. handle_keyboard_event k e = returns e' \<and> editor_ok e'
    \<and> (get_text e', offset e') = edit_text (read_only e) (num_visible_lines e) k (get_text e, offset e)"
proof (cases "released k")
  case True
  then show ?thesis using e(1) by (simp add: handle_keyboard_event_def edit_text_def)
next
  case False
  consider "vertical k" | "key k = KEY_LEFT" | "key k = KEY_RIGHT" | "\<not> vertical k" "key k \<notin> {KEY_LEFT, KEY_RIGHT}" "read_only e"
    | "key k = KEY_BACKSPACE" "\<not> read_only e" | "key k = KEY_DELETE" "\<not> read_only e"
    | "\<not> vertical k" "key k \<notin> {KEY_LEFT, KEY_RIGHT, KEY_BACKSPACE, KEY_DELETE}" "\<not> read_only e" by blast
  then show ?thesis
  proof cases
    case 1
    then show ?thesis using vertical_ok [OF e(1,2) 1 False] by blast
  next
    case 2
    then show ?thesis using left_refines [OF e(1)] False by (auto simp: handle_keyboard_event_def edit_text_def)
  next
    case 3
    then show ?thesis using right_refines [OF e(1,2)] False by (auto simp: handle_keyboard_event_def edit_text_def)
  next
    case 4
    then show ?thesis using e(1) by (auto simp: handle_keyboard_event_def edit_text_def vertical_def)
  next
    case 5
    then show ?thesis using backspace_refines [OF e(1)] False by (auto simp: handle_keyboard_event_def edit_text_def)
  next
    case 6
    then show ?thesis using delete_refines [OF e(1,2)] False by (auto simp: handle_keyboard_event_def edit_text_def)
  next
    case 7
    then show ?thesis using character_refines [OF e 7(3) False 7(1,2)] by simp
  qed
qed

lemma set_text_ok:
  assumes "\<forall>b \<in> set s. b < 0x80"
  shows "editor_ok (set_text s e)" "get_text (set_text s e) = s" "offset (set_text s e) = 0"
proof -
  have j: "join_lines (split_byte 0x0A s) = s \<and> list_all plain (split_byte 0x0A s)" using assms
  proof (induction s)
    case (Cons b s)
    obtain w ws where w: "split_byte 0x0A s = w # ws" using split_byte_not_Nil by (cases "split_byte 0x0A s") auto
    then show ?case using Cons by (cases ws) auto
  qed simp
  then show "get_text (set_text s e) = s" by (simp add: get_text_def set_text_def)
  show "editor_ok (set_text s e)" using j split_byte_not_Nil [of "0x0A" s] by (auto simp: editor_ok_def set_text_def)
  show "offset (set_text s e) = 0" by (simp add: offset_def set_text_def)
qed

lemma text_edit_refines_witness:
  "\<exists>e'. handle_keyboard_event \<lparr>key = KEY_DELETE, released = False, modifiers = 0\<rparr> (set_text (ascii ''cat'') text_edit_new) = returns e'
    \<and> get_text e' = ascii ''at''"
proof -
  let ?e = "set_text (ascii ''cat'') text_edit_new" and ?k = "\<lparr>key = KEY_DELETE, released = False, modifiers = 0\<rparr>"
  have p: "\<forall>b \<in> set (ascii ''cat''). b < 0x80" by (simp add: ascii_def of_char_def)
  have l: "ted_lines ?e = [ascii ''cat'']" by (simp add: set_text_def ascii_def of_char_def)
  have r: "small ?e" "Suc (length (ted_lines ?e)) < 2 ^ 62" "\<not> read_only ?e"
    using l by (simp_all add: small_def set_text_def text_edit_new_def)
  from text_edit_refines [OF set_text_ok(1) [OF p] r(1,2), of ?k] r(3) show ?thesis
    unfolding set_text_ok(2,3) [OF p] by (auto simp: edit_text_def ascii_def)
qed

section \<open>Typing\<close>

lemma lines_text: "length (ted_lines e) \<le> Suc (length (get_text e))"
proof -
  have "length ls \<le> Suc (length (join_lines ls))" for ls by (induction ls rule: join_lines.induct) simp_all
  then show ?thesis by (simp add: get_text_def)
qed

lemma moves_keep:
  "move_cursor_down e = returns e' \<Longrightarrow> read_only e' = read_only e \<and> num_visible_lines e' = num_visible_lines e"
  "move_cursor_right e = returns e' \<Longrightarrow> read_only e' = read_only e \<and> num_visible_lines e' = num_visible_lines e"
  by (auto simp: move_cursor_down_def move_cursor_right_def and_then_returns scroll_down_def split: if_splits)

lemma insert_keeps:
  assumes "handle_keyboard_event k e = returns e'" "\<not> vertical k" "key k \<notin> {KEY_LEFT, KEY_RIGHT, KEY_BACKSPACE, KEY_DELETE}"
  shows "read_only e' = read_only e \<and> num_visible_lines e' = num_visible_lines e"
  using assms
  by (auto simp: handle_keyboard_event_def vertical_def key_enter_def key_character_def set_line_def and_then_returns Let_def
      split: if_splits option.splits dest!: moves_keep)

lemma typing:
  "list_all plain_key evs \<Longrightarrow> editor_ok e \<Longrightarrow> \<not> read_only e \<Longrightarrow> num_visible_lines e < 2 ^ 62 \<Longrightarrow>
    length (get_text e) + length (typed evs) < 2 ^ 61 \<Longrightarrow>
    \<exists>e'. run_fold handle_keyboard_event evs e = returns e'
      \<and> get_text e' = take (offset e) (get_text e) @ typed evs @ drop (offset e) (get_text e)"
proof (induction evs arbitrary: e)
  case Nil
  then show ?case by (simp add: typed_def List.map_filter_def)
next
  case (Cons k evs)
  have k: "\<not> vertical k" "key k \<notin> {KEY_LEFT, KEY_RIGHT, KEY_BACKSPACE, KEY_DELETE}"
    using Cons.prems(1) by (auto simp: plain_key_def vertical_def)
  have s: "small e" "Suc (length (ted_lines e)) < 2 ^ 62" using lines_text [of e] Cons.prems(4,5) by (simp_all add: small_def)
  obtain e1 where e1: "handle_keyboard_event k e = returns e1" "editor_ok e1"
    "(get_text e1, offset e1) = edit_text (read_only e) 0 k (get_text e, offset e)"
  proof (cases "released k")
    case True
    then show thesis using that [of e] Cons.prems(2) by (simp add: handle_keyboard_event_def edit_text_def)
  next
    case False
    then show thesis using character_refines [OF Cons.prems(2) s Cons.prems(3) False k] that by blast
  qed
  have kp: "\<not> read_only e1" "num_visible_lines e1 < 2 ^ 62" using insert_keeps [OF e1(1) k] Cons.prems(3,4) by simp_all
  have op: "offset e \<le> length (get_text e)"
  proof -
    obtain ls l rs col where v: "view e ls l rs col" by (rule ok_view [OF Cons.prems(2)])
    then show ?thesis using view_text [OF v] by (simp add: view_def)
  qed
  show ?case
  proof (cases "released k \<or> to_ascii k = None")
    case True
    then have "edit_text (read_only e) 0 k (get_text e, offset e) = (get_text e, offset e)" using k by (auto simp: edit_text_def vertical_def)
    moreover have "typed (k # evs) = typed evs" using True by (auto simp: typed_def List.map_filter_def)
    ultimately have "get_text e1 = get_text e" "offset e1 = offset e" "typed (k # evs) = typed evs" using e1(3) by simp_all
    then show ?thesis using Cons.IH [of e1] Cons.prems(1,5) e1 kp by simp
  next
    case False
    then obtain c where c: "to_ascii k = Some c" "\<not> released k" by auto
    then have t: "get_text e1 = take (offset e) (get_text e) @ c # drop (offset e) (get_text e)" "offset e1 = offset e + 1"
      "typed (k # evs) = c # typed evs"
      using e1(3) k Cons.prems(3) by (auto simp: edit_text_def vertical_def typed_def List.map_filter_def)
    then show ?thesis using Cons.IH [of e1] Cons.prems(1,5) e1(1,2) kp op by simp
  qed
qed

text \<open>C37. From the keyboard into the text: a program opens \<^verbatim>\<open>kbd:/all\<close>, a text of printable characters
  and new lines is pushed into the keyboard driver of the kernel, and the program passes the
  events it decodes from one read to its editor. The editor then shows the text inserted at its
  cursor.\<close>

theorem typed_text_edited:
  assumes k: "kbd_ok (kbd s)" "device_relative_path path = ascii ''/all''" "\<forall>c \<in> set cs. printable c" "4 * length cs \<le> n"
    and e: "editor_ok e" "\<not> read_only e" "num_visible_lines e < 2 ^ 62" "length (get_text e) + length cs < 2 ^ 61"
  shows "\<exists>hnd d kb1. kbd_open path mode (kbd s) = returns (Inr (hnd, d), kb1)
    \<and> (\<exists>codes kb2 evs e'. kbd_read hnd off n (kbd (type_text kbd_dev cs (s\<lparr>kbd := kb1\<rparr>))) = returns (Inr (length codes, codes), kb2)
        \<and> fetch_events codes hid_keyboard_new = (hid_keyboard_new, evs)
        \<and> run_fold handle_keyboard_event evs e = returns e'
        \<and> get_text e' = take (offset e) (get_text e) @ cs @ drop (offset e) (get_text e))"
proof -
  obtain hnd d kb1 codes kb2 evs where o: "kbd_open path mode (kbd s) = returns (Inr (hnd, d), kb1)"
    and r: "kbd_read hnd off n (kbd (type_text kbd_dev cs (s\<lparr>kbd := kb1\<rparr>))) = returns (Inr (length codes, codes), kb2)"
    and f: "fetch_events codes hid_keyboard_new = (hid_keyboard_new, evs)" "typed evs = cs" "list_all plain_key evs"
    using typed_text_arrives [OF k] by blast
  have l: "length (get_text e) + length (typed evs) < 2 ^ 61" using e(4) f(2) by simp
  show ?thesis using typing [OF f(3) e(1-3) l] o r f(1) unfolding f(2) by blast
qed

lemma typed_text_edited_witness:
  "\<exists>hnd d kb1. kbd_open (ascii ''kbd:/all'') 1 keyboard_new = returns (Inr (hnd, d), kb1)
    \<and> (\<exists>codes kb2 evs e'. kbd_read hnd 0 64 (kbd (type_text 2 (ascii ''Ls -l'') (input_new\<lparr>kbd := kb1\<rparr>))) = returns (Inr (length codes, codes), kb2)
        \<and> fetch_events codes hid_keyboard_new = (hid_keyboard_new, evs)
        \<and> run_fold handle_keyboard_event evs (set_text (ascii ''$'') text_edit_new) = returns e'
        \<and> get_text e' = ascii ''Ls -l$'')"
proof -
  let ?e = "set_text (ascii ''$'') text_edit_new"
  have c: "\<forall>c \<in> set (ascii ''Ls -l''). printable c" by (simp add: ascii_def printable_def of_char_def)
  have d: "device_relative_path (ascii ''kbd:/all'') = ascii ''/all''" by code_simp
  have p: "\<forall>b \<in> set (ascii ''$''). b < 0x80" by (simp add: ascii_def of_char_def)
  have k: "kbd_ok (kbd input_new)" "kbd input_new = keyboard_new" "4 * length (ascii ''Ls -l'') \<le> 64"
    by (simp_all add: kbd_ok_def input_new_def keyboard_new_def ascii_def)
  have e: "\<not> read_only ?e" "num_visible_lines ?e < 2 ^ 62" "length (get_text ?e) + length (ascii ''Ls -l'') < 2 ^ 61"
    unfolding set_text_ok(2) [OF p] by (simp_all add: set_text_def text_edit_new_def ascii_def)
  from typed_text_edited [OF k(1) d c k(3) set_text_ok(1) [OF p] e, of 1 0 2] show ?thesis
    unfolding set_text_ok(2,3) [OF p] k(2) by (simp add: ascii_def)
qed

end
