(* ===== verification/Tetris.thy ===== *)
theory Tetris
  imports Blight_Prelude
begin

text \<open>
  The rules of the Tetris program, \<^verbatim>\<open>programs/tetris/main.rs\<close>: one step of the game, the test for
  collisions, placing a piece and clearing rows. Drawing, sound and timing are left out.

  The atomics \<^verbatim>\<open>INPUT\<close> and \<^verbatim>\<open>VIDEO_LOOP\<close> are fields of the game; the time stamp that \<^verbatim>\<open>rand()\<close> reads
  is an argument. A session is a sequence of frames of \<^verbatim>\<open>render_loop\<close>, each with the keys that the
  main task has read since the frame before. Coordinates are integers; they stay within \<open>- 3\<close> and the size of the arena, far from
  the bounds of \<^verbatim>\<open>i32\<close>.
\<close>

section \<open>State\<close>

type_synonym arena = "u8 list list"

abbreviation ARENA_WIDTH :: nat where "ARENA_WIDTH \<equiv> 15"
abbreviation ARENA_HEIGHT :: nat where "ARENA_HEIGHT \<equiv> 30"
abbreviation TEROMINO_TYPES :: nat where "TEROMINO_TYPES \<equiv> 8"

record game =
  arena :: arena
  cur_shape :: nat
  cur_rot :: nat
  piece_x :: int
  piece_y :: int
  has_piece :: bool
  move_down :: bool
  redraw :: bool
  key_input :: u8
  video_loop :: bool

definition game_state_new :: "arena \<Rightarrow> game" where
  "game_state_new a = \<lparr>arena = a, cur_shape = 0, cur_rot = 0, piece_x = 0, piece_y = 0, has_piece = False,
     move_down = False, redraw = True, key_input = 0, video_loop = True\<rparr>"

datatype step_result = Continue | BlockPlaced | RowCleared | GameOver

definition TETROMINO_SHAPES :: "nat list list list" where
  "TETROMINO_SHAPES =
    [[[0, 0, 0, 0], [1, 1, 1, 1], [0, 0, 0, 0], [0, 0, 0, 0]],
     [[1, 1, 0, 0], [1, 1, 0, 0], [0, 0, 0, 0], [0, 0, 0, 0]],
     [[1, 1, 1, 0], [1, 1, 1, 0], [1, 1, 1, 0], [0, 0, 0, 0]],
     [[0, 1, 0, 0], [1, 1, 1, 0], [0, 0, 0, 0], [0, 0, 0, 0]],
     [[0, 1, 1, 0], [1, 1, 0, 0], [0, 0, 0, 0], [0, 0, 0, 0]],
     [[1, 1, 0, 0], [0, 1, 1, 0], [0, 0, 0, 0], [0, 0, 0, 0]],
     [[1, 1, 1, 0], [1, 0, 0, 0], [0, 0, 0, 0], [0, 0, 0, 0]],
     [[1, 1, 1, 0], [0, 0, 1, 0], [0, 0, 0, 0], [0, 0, 0, 0]]]"

section \<open>Pieces\<close>

definition shape_cell :: "nat \<Rightarrow> nat \<Rightarrow> nat \<Rightarrow> nat \<Rightarrow> nat" where
  "shape_cell shape rot r c =
     (let base = TETROMINO_SHAPES ! shape in
      if shape = 1 \<or> shape = 2 then base ! r ! c
      else if rot mod 4 = 0 then base ! r ! c
      else if rot mod 4 = 1 then base ! (3 - c) ! r
      else if rot mod 4 = 2 then base ! (3 - r) ! (3 - c)
      else base ! c ! (3 - r))"

definition collides :: "arena \<Rightarrow> nat \<Rightarrow> nat \<Rightarrow> int \<Rightarrow> int \<Rightarrow> bool" where
  "collides a shape rot nx ny \<longleftrightarrow>
     list_ex (\<lambda>pr. list_ex (\<lambda>pc. shape_cell shape rot pr pc = 1 \<and>
         (let ax = nx + int pc; ay = ny + int pr in
          ax < 0 \<or> ay < 0 \<or> ax \<ge> int ARENA_WIDTH \<or> ay \<ge> int ARENA_HEIGHT \<or> a ! nat ay ! nat ax \<noteq> 0)) [0..<4]) [0..<4]"

definition place_cell :: "nat \<Rightarrow> nat \<Rightarrow> int \<Rightarrow> int \<Rightarrow> nat \<times> nat \<Rightarrow> arena \<Rightarrow> arena" where
  "place_cell shape rot nx ny = (\<lambda>(pr, pc) a.
     let ax = nx + int pc; ay = ny + int pr in
     if shape_cell shape rot pr pc = 1 \<and> 0 \<le> ax \<and> ax < int ARENA_WIDTH \<and> 0 \<le> ay \<and> ay < int ARENA_HEIGHT
     then a[nat ay := (a ! nat ay)[nat ax := of_nat (shape + 1)]] else a)"

definition place_piece :: "nat \<Rightarrow> nat \<Rightarrow> int \<Rightarrow> int \<Rightarrow> arena \<Rightarrow> arena" where
  "place_piece shape rot nx ny = fold (place_cell shape rot nx ny) (List.product [0..<4] [0..<4])"

section \<open>Rows\<close>

abbreviation full :: "u8 list \<Rightarrow> bool" where
  "full row \<equiv> list_all (\<lambda>b. b \<noteq> 0) row"

abbreviation zero_row :: "u8 list" where
  "zero_row \<equiv> replicate ARENA_WIDTH 0"

definition clear_step :: "nat \<Rightarrow> bool \<times> nat \<times> arena \<Rightarrow> bool \<times> nat \<times> arena" where
  "clear_step read_row = (\<lambda>(cleared, write_row, a).
     if \<not> full (a ! read_row)
     then (cleared, if write_row > 0 then write_row - 1 else write_row,
       if write_row \<noteq> read_row then a[write_row := a ! read_row] else a)
     else (True, write_row, a))"

definition clear_full_rows :: "arena \<Rightarrow> bool \<times> arena" where
  "clear_full_rows a =
     (let (cleared, write_row, a') = fold clear_step (rev [0..<ARENA_HEIGHT]) (False, ARENA_HEIGHT - 1, a)
      in (cleared, replicate (write_row + 1) zero_row @ drop (write_row + 1) a'))"

section \<open>A step of the game\<close>

definition rand :: "u64 \<Rightarrow> nat" where
  "rand tick = unat ((tick * 1103515245 + 12345) div 65536) mod 32768"

definition spawn_piece :: "u64 \<Rightarrow> game \<Rightarrow> bool \<times> game" where
  "spawn_piece tick g =
     (let g1 = g\<lparr>cur_shape := rand tick mod TEROMINO_TYPES, cur_rot := 0, piece_x := int (ARENA_WIDTH div 2) - 2, piece_y := 0\<rparr>
      in if collides (arena g1) (cur_shape g1) (cur_rot g1) (piece_x g1) (piece_y g1)
         then (False, g1\<lparr>video_loop := False\<rparr>)
         else (True, g1\<lparr>has_piece := True\<rparr>))"

definition try_move :: "nat \<Rightarrow> int \<Rightarrow> game \<Rightarrow> game" where
  "try_move rot x g =
     (if \<not> collides (arena g) (cur_shape g) rot x (piece_y g)
      then g\<lparr>cur_rot := rot, piece_x := x, redraw := True\<rparr> else g)"

definition handle_input :: "game \<Rightarrow> game" where
  "handle_input g =
     (let ev = key_input g; g1 = g\<lparr>key_input := 0\<rparr> in
      if ev = 0 then g
      else if ev = of_char CHR ''a'' then try_move (cur_rot g1) (piece_x g1 - 1) g1
      else if ev = of_char CHR ''d'' then try_move (cur_rot g1) (piece_x g1 + 1) g1
      else if ev = of_char CHR ''e'' then try_move ((cur_rot g1 + 3) mod 4) (piece_x g1) g1
      else if ev = of_char CHR ''w'' then try_move ((cur_rot g1 + 1) mod 4) (piece_x g1) g1
      else if ev = 0x20 \<or> ev = 0x0A \<or> ev = of_char CHR ''s'' then g1\<lparr>move_down := True\<rparr>
      else g1)"

definition drop_piece :: "game \<Rightarrow> step_result \<times> game" where
  "drop_piece g =
     (if collides (arena g) (cur_shape g) (cur_rot g) (piece_x g) (piece_y g + 1)
      then let (cleared, a) = clear_full_rows (place_piece (cur_shape g) (cur_rot g) (piece_x g) (piece_y g) (arena g))
           in (if cleared then RowCleared else BlockPlaced, g\<lparr>arena := a, has_piece := False, redraw := True\<rparr>)
      else (Continue, g\<lparr>piece_y := piece_y g + 1, redraw := True\<rparr>))"

definition game_logic :: "u64 \<Rightarrow> game \<Rightarrow> step_result \<times> game" where
  "game_logic tick g =
     (let (alive, g1) = (if has_piece g then (True, g) else spawn_piece tick g) in
      if \<not> alive then (GameOver, g1)
      else let g2 = handle_input g1 in if move_down g2 then drop_piece g2 else (Continue, g2))"

section \<open>A session\<close>

record session =
  play :: game
  game_speed :: nat
  fall_tick :: nat
  game_tick :: nat

definition session_new :: session where
  "session_new = \<lparr>play = game_state_new (replicate ARENA_HEIGHT (replicate ARENA_WIDTH 0)),
     game_speed = 1, fall_tick = 0, game_tick = 0\<rparr>"

text \<open>The main task: a key is passed to the game, and \<open>q\<close> ends it.\<close>

definition key_press :: "u8 \<Rightarrow> game \<Rightarrow> game" where
  "key_press k g =
     (if k = of_char CHR ''q'' then g\<lparr>video_loop := False\<rparr>
      else if k \<in> set (map of_char ''asdwe'' @ [0x0A, 0x20] @ map of_char ''ASDWE'') then g\<lparr>key_input := k\<rparr>
      else g)"

definition frame :: "u64 \<Rightarrow> session \<Rightarrow> step_result \<times> session" where
  "frame tick s =
     (let ft = fall_tick s + 1; gt = game_tick s + 1;
          falls = (ft \<ge> 200 div game_speed s);
          s1 = s\<lparr>fall_tick := if falls then 0 else ft, game_tick := gt,
            game_speed := if gt mod 1000 = 0 \<and> game_speed s < 10 then game_speed s + 1 else game_speed s\<rparr>;
          (r, g) = game_logic tick ((play s)\<lparr>move_down := falls\<rparr>)
      in (r, s1\<lparr>play := if r \<noteq> GameOver \<and> redraw g then g\<lparr>redraw := False\<rparr> else g\<rparr>))"

fun run_session :: "(u8 list \<times> u64) list \<Rightarrow> session \<Rightarrow> session" where
  "run_session [] s = s"
| "run_session ((keys, tick) # fs) s =
     (let s1 = s\<lparr>play := fold key_press keys (play s)\<rparr>
      in if video_loop (play s1) then run_session fs (snd (frame tick s1)) else s1)"

end
