(* ===== verification/Tetris_Props.thy ===== *)
theory Tetris_Props
  imports Tetris
begin

text \<open>
  The rules of the game over the cells of the arena, and that every step and session follows them. The
  piece stays inside the arena and off the blocks; exactly the full rows are cleared, with one
  exception: when no row is full, the topmost row is erased.
\<close>

section \<open>Clearing rows\<close>

definition arena_ok :: "arena \<Rightarrow> bool" where
  "arena_ok a \<longleftrightarrow> length a = ARENA_HEIGHT \<and> (\<forall>row \<in> set a. length row = ARENA_WIDTH)"

text \<open>The loop after the rows from \<open>r\<close> on.\<close>

lemma clear_loop:
  assumes "length a = n" "r \<le> n" "0 < n"
  shows "\<exists>a'. fold clear_step (rev [r..<n]) (False, n - 1, a)
      = (length (filter (Not \<circ> full) (drop r a)) < n - r, n - 1 - length (filter (Not \<circ> full) (drop r a)), a')
    \<and> length a' = n \<and> take r a' = take r a
    \<and> drop (n - length (filter (Not \<circ> full) (drop r a))) a' = filter (Not \<circ> full) (drop r a)"
  using assms(2)
proof (induction "n - r" arbitrary: r)
  case 0
  then show ?case using assms(1) by simp
next
  case (Suc m)
  then have r: "r < n" by simp
  let ?nf = "filter (Not \<circ> full) (drop (Suc r) a)" let ?k = "length ?nf"
  obtain a' where f: "fold clear_step (rev [Suc r..<n]) (False, n - 1, a) = (?k < n - Suc r, n - 1 - ?k, a')"
    and a': "length a' = n" "take (Suc r) a' = take (Suc r) a" "drop (n - ?k) a' = ?nf"
  proof -
    have "m = n - Suc r" "Suc r \<le> n" using Suc(2) r by simp_all
    from Suc(1) [OF this] show thesis using that by auto
  qed
  have k: "?k \<le> n - Suc r" using length_filter_le [of "Not \<circ> full" "drop (Suc r) a"] assms(1) by simp
  have ar: "a' ! r = a ! r" "take r a' = take r a"
    using arg_cong [OF a'(2), of "\<lambda>xs. xs ! r"] arg_cong [OF a'(2), of "take r"] r a'(1) assms(1) by simp_all
  have st: "fold clear_step (rev [r..<n]) (False, n - 1, a) = clear_step r (?k < n - Suc r, n - 1 - ?k, a')"
    using f r by (simp add: upt_conv_Cons)
  have dr: "drop r a = a ! r # drop (Suc r) a" using r assms(1) by (simp add: Cons_nth_drop_Suc)
  show ?case
  proof (cases "full (a ! r)")
    case True
    then have "filter (Not \<circ> full) (drop r a) = ?nf" by (simp add: dr)
    moreover have "?k < n - r" using k r by simp
    ultimately show ?thesis using st True ar a' by (simp add: clear_step_def)
  next
    case False
    then have nf: "filter (Not \<circ> full) (drop r a) = a ! r # ?nf" by (simp add: dr)
    define w where "w = n - 1 - ?k"
    let ?a = "if w \<noteq> r then a'[w := a' ! r] else a'"
    have w: "r \<le> w" "w < n" "Suc w = n - ?k" using k r by (auto simp: w_def)
    have la: "length ?a = n" using a'(1) by simp
    have "take r ?a = take r a" "?a ! w = a ! r" using ar a'(1) w(1,2) by auto
    moreover have "drop w ?a = ?a ! w # drop (Suc w) ?a"
      by (rule Cons_nth_drop_Suc [symmetric]) (unfold la, rule w(2))
    moreover have "drop (Suc w) ?a = ?nf" using a'(3) unfolding w(3) [symmetric] by (cases "w = r") auto
    moreover have "clear_step r (c, w, a') = (c, w - 1, ?a)" for c
      using False ar(1) by (cases w) (simp_all add: clear_step_def)
    moreover have "n - length (filter (Not \<circ> full) (drop r a)) = w" "n - 1 - length (filter (Not \<circ> full) (drop r a)) = w - 1"
      "length (filter (Not \<circ> full) (drop r a)) < n - r \<longleftrightarrow> ?k < n - Suc r"
      using w k r unfolding nf by (auto simp: w_def)
    ultimately show ?thesis using st la unfolding w_def [symmetric] nf by auto
  qed
qed

lemma full_rows_shape:
  assumes "arena_ok a"
  shows "clear_full_rows a =
    (if list_ex full a
     then (True, replicate (length (filter full a)) zero_row @ filter (Not \<circ> full) a)
     else (False, zero_row # tl a))"
proof -
  let ?nf = "filter (Not \<circ> full) a" let ?k = "length ?nf"
  have l: "length a = ARENA_HEIGHT" using assms by (simp add: arena_ok_def)
  obtain a' where f: "fold clear_step (rev [0..<ARENA_HEIGHT]) (False, ARENA_HEIGHT - 1, a) = (?k < ARENA_HEIGHT, ARENA_HEIGHT - 1 - ?k, a')"
    and a': "length a' = ARENA_HEIGHT" "drop (ARENA_HEIGHT - ?k) a' = ?nf"
    using clear_loop [OF l, of 0] by auto
  have s: "length (filter full a) + ?k = ARENA_HEIGHT"
    using sum_length_filter_compl [of full a] l by (simp add: comp_def)
  show ?thesis
  proof (cases "list_ex full a")
    case True
    then have "0 < length (filter full a)" by (auto simp: list_ex_iff filter_empty_conv)
    then have "?k < ARENA_HEIGHT" "ARENA_HEIGHT - 1 - ?k + 1 = length (filter full a)" "ARENA_HEIGHT - ?k = length (filter full a)"
      using s by linarith+
    note k = this
    have "clear_full_rows a = (True, replicate (ARENA_HEIGHT - 1 - ?k + 1) zero_row @ drop (ARENA_HEIGHT - 1 - ?k + 1) a')"
      using f k(1) unfolding clear_full_rows_def by simp
    then show ?thesis using True a'(2) unfolding k(2) k(3) by simp
  next
    case False
    then have nf: "?nf = a" by (auto simp: list_ex_iff intro!: filter_True)
    then have "a' = a" using a'(2) l by simp
    then show ?thesis using False f l unfolding nf by (simp add: clear_full_rows_def drop_Suc del: upt_rec_numeral)
  qed
qed

text \<open>C38. Clearing rows: when some row is full, exactly the full rows disappear, the others keep their
  order and empty rows come in at the top. When no row is full the arena should stay as it is, but
  its topmost row is erased.\<close>

theorem full_rows_cleared:
  assumes "arena_ok a"
  shows "clear_full_rows a =
    (if list_ex full a
     then (True, replicate (length (filter full a)) zero_row @ filter (Not \<circ> full) a)
     else (False, zero_row # tl a))"
  by (rule full_rows_shape [OF assms])

lemma full_rows_cleared_witness:
  "clear_full_rows (replicate 1 (replicate 15 1) @ replicate 28 zero_row @ replicate 1 (1 # replicate 14 0))
     = (True, zero_row # replicate 28 zero_row @ [1 # replicate 14 0])
   \<and> clear_full_rows (replicate 1 (1 # replicate 14 0) @ replicate 29 zero_row) = (False, replicate 30 zero_row)"
proof -
  have "arena_ok (replicate 1 (replicate 15 1) @ replicate 28 zero_row @ replicate 1 (1 # replicate 14 0))"
    "arena_ok (replicate 1 (1 # replicate 14 0) @ replicate 29 zero_row)" by (simp_all add: arena_ok_def)
  from this [THEN full_rows_cleared] show ?thesis by (simp add: numeral_eq_Suc)
qed

section \<open>Pieces\<close>

text \<open>The cells of the arena that hold a block, and those that a piece covers.\<close>

definition box :: "(int \<times> int) set" where
  "box = {(r, c). 0 \<le> r \<and> r < int ARENA_HEIGHT \<and> 0 \<le> c \<and> c < int ARENA_WIDTH}"

definition blocks :: "arena \<Rightarrow> (int \<times> int) set" where
  "blocks a = {(r, c) \<in> box. a ! nat r ! nat c \<noteq> 0}"

definition cells :: "nat \<Rightarrow> nat \<Rightarrow> int \<Rightarrow> int \<Rightarrow> (int \<times> int) set" where
  "cells shape rot x y = {(y + int pr, x + int pc) |pr pc. pr < 4 \<and> pc < 4 \<and> shape_cell shape rot pr pc = 1}"

lemma collides_iff: "collides a shape rot x y \<longleftrightarrow> \<not> cells shape rot x y \<subseteq> box - blocks a"
proof -
  have q: "(let ax = x + int pc; ay = y + int pr in
      ax < 0 \<or> ay < 0 \<or> ax \<ge> int ARENA_WIDTH \<or> ay \<ge> int ARENA_HEIGHT \<or> a ! nat ay ! nat ax \<noteq> 0)
    \<longleftrightarrow> (y + int pr, x + int pc) \<notin> box - blocks a" for pr pc
    by (auto simp: Let_def box_def blocks_def)
  have "collides a shape rot x y \<longleftrightarrow> (\<exists>pr < 4. \<exists>pc < 4. shape_cell shape rot pr pc = 1
    \<and> (y + int pr, x + int pc) \<notin> box - blocks a)"
    unfolding collides_def list_ex_iff q set_upt Bex_def atLeastLessThan_iff by simp
  moreover have "cells shape rot x y \<subseteq> X
    \<longleftrightarrow> (\<forall>pr < 4. \<forall>pc < 4. shape_cell shape rot pr pc = 1 \<longrightarrow> (y + int pr, x + int pc) \<in> X)" for X
    unfolding cells_def by auto
  ultimately show ?thesis by (simp only: not_all not_imp de_Morgan_conj)
qed

lemma arena_okD: "arena_ok a \<Longrightarrow> i < ARENA_HEIGHT \<Longrightarrow> length (a ! i) = ARENA_WIDTH"
  by (simp add: arena_ok_def)

text \<open>Placing a piece: the arena with the cells of the piece in its colour.\<close>

type_synonym piece = "nat \<times> nat \<times> int \<times> int"

definition stamped :: "piece \<Rightarrow> arena \<Rightarrow> arena" where
  "stamped = (\<lambda>(shape, rot, x, y) a. map (\<lambda>r. map (\<lambda>c.
     if (int r, int c) \<in> cells shape rot x y then of_nat (shape + 1) else a ! r ! c) [0..<ARENA_WIDTH]) [0..<ARENA_HEIGHT])"

lemma place_cell_at:
  assumes a: "arena_ok a"
  shows "arena_ok (place_cell shape rot x y (pr, pc) a)"
    and "i < ARENA_HEIGHT \<Longrightarrow> j < ARENA_WIDTH \<Longrightarrow> place_cell shape rot x y (pr, pc) a ! i ! j
      = (if shape_cell shape rot pr pc = 1 \<and> (int i, int j) = (y + int pr, x + int pc) then of_nat (shape + 1) else a ! i ! j)"
proof -
  let ?r = "y + int pr" and ?c = "x + int pc"
  have l: "length a = ARENA_HEIGHT" using a by (simp add: arena_ok_def)
  show "arena_ok (place_cell shape rot x y (pr, pc) a)"
  proof (cases "nat ?r < length a")
    case True
    then show ?thesis using a
      by (auto simp: place_cell_def Let_def arena_ok_def dest!: set_update_subset_insert [THEN subsetD])
  next
    case False
    then show ?thesis using a l by (auto simp: place_cell_def Let_def)
  qed
  assume ij: "i < ARENA_HEIGHT" "j < ARENA_WIDTH"
  then have e: "i < length a" "j < length (a ! i)" using l arena_okD [OF a ij(1)] by simp_all
  show "place_cell shape rot x y (pr, pc) a ! i ! j
      = (if shape_cell shape rot pr pc = 1 \<and> (int i, int j) = (?r, ?c) then of_nat (shape + 1) else a ! i ! j)"
  proof (cases "int i = ?r")
    case True
    then have "nat ?r = i" by linarith
    then show ?thesis using True e ij by (cases "int j = ?c") (auto simp: place_cell_def Let_def nth_list_update)
  next
    case False
    then have "0 \<le> ?r \<Longrightarrow> nat ?r \<noteq> i" by linarith
    then show ?thesis using False by (simp add: place_cell_def Let_def)
  qed
qed

lemma place_cells_at:
  "arena_ok a \<Longrightarrow> arena_ok (fold (place_cell shape rot x y) ps a) \<and> (\<forall>i < ARENA_HEIGHT. \<forall>j < ARENA_WIDTH.
    fold (place_cell shape rot x y) ps a ! i ! j
      = (if \<exists>(pr, pc) \<in> set ps. shape_cell shape rot pr pc = 1 \<and> (int i, int j) = (y + int pr, x + int pc)
         then of_nat (shape + 1) else a ! i ! j))"
proof (induction ps arbitrary: a)
  case (Cons p ps)
  obtain pr pc where p: "p = (pr, pc)" by (cases p) auto
  note c = place_cell_at [OF Cons.prems, where shape = shape and rot = rot and x = x and y = y and pr = pr and pc = pc]
  show ?case using Cons.IH [OF c(1)] c(2) unfolding p by simp
qed simp

lemma place_piece_stamps:
  assumes "arena_ok a"
  shows "place_piece shape rot x y a = stamped (shape, rot, x, y) a" "arena_ok (stamped (shape, rot, x, y) a)"
proof -
  let ?ps = "List.product [0..<4] [0..<4]"
  have c: "(\<exists>(pr, pc) \<in> set ?ps. shape_cell shape rot pr pc = 1 \<and> (r, c) = (y + int pr, x + int pc)) \<longleftrightarrow> (r, c) \<in> cells shape rot x y" for r c
    by (auto simp: cells_def simp del: upt_rec_numeral)
  note pl = place_cells_at [OF assms, of shape rot x y ?ps, unfolded c, folded place_piece_def]
  show "arena_ok (stamped (shape, rot, x, y) a)" by (simp add: arena_ok_def stamped_def del: upt_rec_numeral)
  show "place_piece shape rot x y a = stamped (shape, rot, x, y) a"
  proof (rule nth_equalityI)
    show l: "length (place_piece shape rot x y a) = length (stamped (shape, rot, x, y) a)"
      using pl by (simp add: arena_ok_def stamped_def del: upt_rec_numeral)
    fix i assume i: "i < length (place_piece shape rot x y a)"
    then have ih: "i < ARENA_HEIGHT" using l by (simp add: stamped_def del: upt_rec_numeral)
    show "place_piece shape rot x y a ! i = stamped (shape, rot, x, y) a ! i"
    proof (rule nth_equalityI)
      show m: "length (place_piece shape rot x y a ! i) = length (stamped (shape, rot, x, y) a ! i)"
        using pl arena_okD ih by (simp add: stamped_def del: upt_rec_numeral)
      fix j assume "j < length (place_piece shape rot x y a ! i)"
      then have "j < ARENA_WIDTH" using m ih by (simp add: stamped_def del: upt_rec_numeral)
      then show "place_piece shape rot x y a ! i ! j = stamped (shape, rot, x, y) a ! i ! j"
        using pl ih by (simp add: stamped_def del: upt_rec_numeral)
    qed
  qed
qed

section \<open>A step of the game\<close>

text \<open>The rules, over the cells of the arena. A piece is a shape, a rotation, a column and a row; it is
  free where all of its cells are inside and off the blocks.\<close>

definition piece_of :: "game \<Rightarrow> piece" where
  "piece_of g = (cur_shape g, cur_rot g, piece_x g, piece_y g)"

definition free_at :: "arena \<Rightarrow> piece \<Rightarrow> bool" where
  "free_at a = (\<lambda>(shape, rot, x, y). cells shape rot x y \<subseteq> box - blocks a)"

definition row_of :: "piece \<Rightarrow> int" where
  "row_of = (\<lambda>(shape, rot, x, y). y)"

definition lowered :: "piece \<Rightarrow> piece" where
  "lowered = (\<lambda>(shape, rot, x, y). (shape, rot, x, y + 1))"

text \<open>The piece at the beginning of a step: the falling one, or a random one at the top.\<close>

definition entering :: "u64 \<Rightarrow> game \<Rightarrow> piece" where
  "entering tick g = (if has_piece g then piece_of g else (rand tick mod 8, 0, 5, 0))"

text \<open>Where a key moves it, as far as this place is free.\<close>

definition wanted :: "u8 \<Rightarrow> piece \<Rightarrow> piece" where
  "wanted k = (\<lambda>(shape, rot, x, y).
     if k = of_char CHR ''a'' then (shape, rot, x - 1, y)
     else if k = of_char CHR ''d'' then (shape, rot, x + 1, y)
     else if k = of_char CHR ''e'' then (shape, (rot + 3) mod 4, x, y)
     else if k = of_char CHR ''w'' then (shape, (rot + 1) mod 4, x, y)
     else (shape, rot, x, y))"

definition steered :: "arena \<Rightarrow> u8 \<Rightarrow> piece \<Rightarrow> piece" where
  "steered a k p = (if free_at a (wanted k p) then wanted k p else p)"

definition drop_key :: "u8 \<Rightarrow> bool" where
  "drop_key k \<longleftrightarrow> k \<in> {0x20, 0x0A, of_char CHR ''s''}"

text \<open>The rows after a piece has landed; see C38.\<close>

definition rows_cleared :: "arena \<Rightarrow> arena" where
  "rows_cleared a = (if list_ex full a
     then replicate (length (filter full a)) zero_row @ filter (Not \<circ> full) a
     else zero_row # tl a)"

definition step_spec :: "u64 \<Rightarrow> game \<Rightarrow> step_result \<Rightarrow> game \<Rightarrow> bool" where
  "step_spec tick g r g' \<longleftrightarrow>
     (let p0 = entering tick g; p = steered (arena g) (key_input g) p0 in
      if \<not> free_at (arena g) p0
      then r = GameOver \<and> arena g' = arena g \<and> \<not> has_piece g' \<and> \<not> video_loop g'
      else key_input g' = 0 \<and> video_loop g' = video_loop g
        \<and> (if \<not> (move_down g \<or> drop_key (key_input g))
           then r = Continue \<and> arena g' = arena g \<and> has_piece g' \<and> piece_of g' = p
           else if free_at (arena g) (lowered p)
           then r = Continue \<and> arena g' = arena g \<and> has_piece g' \<and> piece_of g' = lowered p
           else r = (if list_ex full (stamped p (arena g)) then RowCleared else BlockPlaced)
             \<and> arena g' = rows_cleared (stamped p (arena g)) \<and> \<not> has_piece g'))"

definition game_ok :: "game \<Rightarrow> bool" where
  "game_ok g \<longleftrightarrow> arena_ok (arena g)
     \<and> (has_piece g \<longrightarrow> cur_shape g < TEROMINO_TYPES \<and> cur_rot g < 4 \<and> free_at (arena g) (piece_of g))"

lemma collides_free: "collides a shape rot x y \<longleftrightarrow> \<not> free_at a (shape, rot, x, y)"
  by (simp add: collides_iff free_at_def)

lemma rows_cleared:
  assumes "arena_ok a"
  shows "clear_full_rows a = (list_ex full a, rows_cleared a)" "arena_ok (rows_cleared a)"
proof -
  show "clear_full_rows a = (list_ex full a, rows_cleared a)" by (simp add: full_rows_shape [OF assms] rows_cleared_def)
  have l: "length a = ARENA_HEIGHT" "\<forall>row \<in> set a. length row = ARENA_WIDTH" using assms by (simp_all add: arena_ok_def)
  have "length (filter full a) + length (filter (Not \<circ> full) a) = ARENA_HEIGHT"
    using sum_length_filter_compl [of full a] l(1) by (simp add: comp_def)
  then show "arena_ok (rows_cleared a)" using l by (cases a) (auto simp: arena_ok_def rows_cleared_def)
qed

lemma spawn_entering:
  assumes "game_ok g"
  shows "\<exists>g1. (if has_piece g then (True, g) else spawn_piece tick g) = (free_at (arena g) (entering tick g), g1)
    \<and> arena g1 = arena g \<and> key_input g1 = key_input g \<and> move_down g1 = move_down g
    \<and> (if free_at (arena g) (entering tick g) then has_piece g1 \<and> game_ok g1 \<and> piece_of g1 = entering tick g \<and> video_loop g1 = video_loop g
       else \<not> has_piece g1 \<and> game_ok g1 \<and> \<not> video_loop g1)"
  using assms by (auto simp: spawn_piece_def entering_def game_ok_def collides_free Let_def piece_of_def)

lemma input_steers:
  assumes "game_ok g" "has_piece g"
  shows "game_ok (handle_input g) \<and> has_piece (handle_input g) \<and> arena (handle_input g) = arena g
    \<and> piece_of (handle_input g) = steered (arena g) (key_input g) (piece_of g) \<and> key_input (handle_input g) = 0
    \<and> video_loop (handle_input g) = video_loop g
    \<and> move_down (handle_input g) = (move_down g \<or> drop_key (key_input g))"
proof -
  define g1 where "g1 = g\<lparr>key_input := 0\<rparr>"
  have f: "game_ok g1" "has_piece g1" "free_at (arena g) (piece_of g)" "cur_rot g < 4" using assms by (simp_all add: g1_def game_ok_def piece_of_def)
  have m: "game_ok (try_move rot x g1) \<and> has_piece (try_move rot x g1) \<and> arena (try_move rot x g1) = arena g
      \<and> piece_of (try_move rot x g1) = (if free_at (arena g) (cur_shape g, rot, x, piece_y g) then (cur_shape g, rot, x, piece_y g) else piece_of g)
      \<and> key_input (try_move rot x g1) = 0 \<and> video_loop (try_move rot x g1) = video_loop g \<and> move_down (try_move rot x g1) = move_down g"
    if "rot < 4" for rot x
    using f that by (auto simp: try_move_def collides_free game_ok_def piece_of_def g1_def)
  have d: "game_ok (g1\<lparr>move_down := True\<rparr>)" using f(1) by (simp add: game_ok_def piece_of_def)
  have k: "handle_input g = (if key_input g = 0 then g
      else if key_input g = of_char CHR ''a'' then try_move (cur_rot g) (piece_x g - 1) g1
      else if key_input g = of_char CHR ''d'' then try_move (cur_rot g) (piece_x g + 1) g1
      else if key_input g = of_char CHR ''e'' then try_move ((cur_rot g + 3) mod 4) (piece_x g) g1
      else if key_input g = of_char CHR ''w'' then try_move ((cur_rot g + 1) mod 4) (piece_x g) g1
      else if drop_key (key_input g) then g1\<lparr>move_down := True\<rparr> else g1)"
    by (simp add: handle_input_def Let_def g1_def drop_key_def)
  have dk: "drop_key (key_input g) \<Longrightarrow> wanted (key_input g) (piece_of g) = piece_of g" "\<not> drop_key 0"
    "drop_key k' \<Longrightarrow> k' \<notin> {of_char CHR ''a'', of_char CHR ''d'', of_char CHR ''e'', of_char CHR ''w''}" for k'
    by (auto simp: drop_key_def wanted_def piece_of_def of_char_def)
  show ?thesis
    unfolding k using m f d dk assms
    by (auto simp: steered_def wanted_def piece_of_def g1_def of_char_def drop_key_def)
qed

lemma drop_lowers:
  assumes "game_ok g" "has_piece g" "drop_piece g = (r, g')"
  shows "game_ok g' \<and> key_input g' = key_input g \<and> video_loop g' = video_loop g
    \<and> (if free_at (arena g) (lowered (piece_of g))
       then r = Continue \<and> arena g' = arena g \<and> has_piece g' \<and> piece_of g' = lowered (piece_of g)
       else r = (if list_ex full (stamped (piece_of g) (arena g)) then RowCleared else BlockPlaced)
         \<and> arena g' = rows_cleared (stamped (piece_of g) (arena g)) \<and> \<not> has_piece g')"
proof -
  have a: "arena_ok (arena g)" using assms(1) by (simp add: game_ok_def)
  have l: "lowered (piece_of g) = (cur_shape g, cur_rot g, piece_x g, piece_y g + 1)" by (simp add: lowered_def piece_of_def)
  have p: "place_piece (cur_shape g) (cur_rot g) (piece_x g) (piece_y g) (arena g) = stamped (piece_of g) (arena g)"
    "arena_ok (stamped (piece_of g) (arena g))"
    unfolding piece_of_def by (rule place_piece_stamps [OF a])+
  show ?thesis
  proof (cases "free_at (arena g) (lowered (piece_of g))")
    case True
    then have "\<not> collides (arena g) (cur_shape g) (cur_rot g) (piece_x g) (piece_y g + 1)" by (simp add: collides_free l)
    then have e: "r = Continue" "g' = g\<lparr>piece_y := piece_y g + 1, redraw := True\<rparr>" using assms(3) by (simp_all add: drop_piece_def)
    then have q: "piece_of g' = lowered (piece_of g)" by (simp add: l) (simp add: piece_of_def)
    have "game_ok g'" using assms(1,2) True q unfolding game_ok_def e(2) by simp
    then show ?thesis using True assms(2) e q by simp
  next
    case False
    then show ?thesis using assms(3) rows_cleared [OF p(2)]
      by (auto simp: drop_piece_def collides_free l p(1) game_ok_def)
  qed
qed

lemma game_step:
  assumes g: "game_ok g" and l: "game_logic tick g = (r, g')"
  shows "game_ok g' \<and> step_spec tick g r g'"
proof -
  let ?p = "entering tick g"
  obtain g1 where s: "(if has_piece g then (True, g) else spawn_piece tick g) = (free_at (arena g) ?p, g1)"
    and g1: "arena g1 = arena g" "key_input g1 = key_input g" "move_down g1 = move_down g"
      "if free_at (arena g) ?p then has_piece g1 \<and> game_ok g1 \<and> piece_of g1 = ?p \<and> video_loop g1 = video_loop g
       else \<not> has_piece g1 \<and> game_ok g1 \<and> \<not> video_loop g1"
    using spawn_entering [OF g, of tick] by blast
  show ?thesis
  proof (cases "free_at (arena g) ?p")
    case False
    then show ?thesis using l s g1 by (simp add: game_logic_def step_spec_def)
  next
    case True
    then have h: "has_piece g1" "game_ok g1" "piece_of g1 = ?p" "video_loop g1 = video_loop g" using g1(4) by simp_all
    note i = input_steers [OF h(2,1), unfolded g1(1-3) h(3,4)]
    have e: "(r, g') = (if move_down (handle_input g1) then drop_piece (handle_input g1) else (Continue, handle_input g1))"
      using True l s by (simp add: game_logic_def Let_def)
    show ?thesis
    proof (cases "move_down g \<or> drop_key (key_input g)")
      case False
      then show ?thesis using True e i by (simp add: step_spec_def)
    next
      case fall: True
      then have "drop_piece (handle_input g1) = (r, g')" using e i by simp
      from drop_lowers [OF _ _ this] show ?thesis using True fall i by (simp add: step_spec_def Let_def)
    qed
  qed
qed

text \<open>C39. A step of the game, from a state whose piece (if there is one) is inside the arena and off its
  blocks; the same holds after it. The step follows the rules: without a falling piece a random one
  enters at the top, and if it does not fit the game is over. A key moves or turns the piece where the
  new place is free. If the timer says so or the key asks for it, the piece goes one row down; if that
  place is not free it lands instead: the arena gets its cells, in its colour, and then its full rows
  are removed, or, when there are none, its topmost row is erased (see C38), and the outcome says
  whether there were any. In every other case the arena stays as it is.\<close>

theorem tetris_step_safe:
  assumes "game_ok g" "game_logic tick g = (r, g')"
  shows "game_ok g' \<and> step_spec tick g r g'"
  by (rule game_step [OF assms])

text \<open>A square on the floor fills the gap of the bottom row.\<close>

definition demo_game :: game where
  "demo_game = (game_state_new (replicate 29 zero_row @ [0 # 0 # replicate 13 1]))
     \<lparr>cur_shape := 1, piece_x := 0, piece_y := 28, has_piece := True, move_down := True\<rparr>"

lemma tetris_step_safe_witness:
  "game_ok (snd (game_logic 5 demo_game)) \<and> fst (game_logic 5 demo_game) = RowCleared
   \<and> arena (snd (game_logic 5 demo_game)) = rows_cleared (stamped (1, 0, 0, 28) (arena demo_game))"
proof -
  have f: "free_at (arena demo_game) (piece_of demo_game)" "\<not> free_at (arena demo_game) (1, 0, 0, 29)"
  proof -
    have "\<not> collides (arena demo_game) 1 0 0 28" "collides (arena demo_game) 1 0 0 29" by code_simp+
    then show "free_at (arena demo_game) (piece_of demo_game)" "\<not> free_at (arena demo_game) (1, 0, 0, 29)"
      unfolding collides_free by (simp_all add: piece_of_def) (simp_all add: demo_game_def game_state_new_def)
  qed
  have g: "cur_shape demo_game = 1" "cur_rot demo_game = 0" "piece_of demo_game = (1, 0, 0, 28)" "has_piece demo_game"
    "key_input demo_game = 0" "move_down demo_game"
    by (simp_all add: demo_game_def game_state_new_def piece_of_def)
  have "arena_ok (arena demo_game)" by (simp add: arena_ok_def demo_game_def game_state_new_def)
  then have ok: "game_ok demo_game" using f g by (simp add: game_ok_def)
  have r: "fst (game_logic 5 demo_game) = RowCleared" by code_simp
  have s: "steered (arena demo_game) 0 (1, 0, 0, 28) = (1, 0, 0, 28)" by (simp add: steered_def wanted_def of_char_def)
  from tetris_step_safe [OF ok surjective_pairing [of "game_logic 5 demo_game"]] r show ?thesis
    using f g s by (simp add: step_spec_def entering_def lowered_def Let_def)
qed

section \<open>A session\<close>

definition session_ok :: "session \<Rightarrow> bool" where
  "session_ok s \<longleftrightarrow> game_ok (play s) \<and> 1 \<le> game_speed s \<and> game_speed s \<le> 10 \<and> fall_tick s < 200"

lemma key_press_ok: "game_ok (key_press k g) = game_ok g"
  by (simp add: key_press_def game_ok_def piece_of_def)

lemma keys_ok: "game_ok (fold key_press ks g) = game_ok g"
  by (induction ks arbitrary: g) (simp_all add: key_press_ok)

lemma step_spec_redraw [simp]: "step_spec tick g r (g'\<lparr>redraw := b\<rparr>) = step_spec tick g r g'"
  by (simp add: step_spec_def piece_of_def Let_def)

text \<open>A frame follows the rules with a timer that falls when the counter has been reset.\<close>

lemma frame_ok:
  assumes s: "session_ok s" and f: "frame tick s = (r, s')"
  shows "session_ok s'" "step_spec tick ((play s)\<lparr>move_down := fall_tick s' = 0\<rparr>) r (play s')"
    "fall_tick s' = 0 \<or> fall_tick s' = fall_tick s + 1"
proof -
  let ?falls = "fall_tick s + 1 \<ge> 200 div game_speed s"
  obtain r' g where l: "game_logic tick ((play s)\<lparr>move_down := ?falls\<rparr>) = (r', g)" by (metis surj_pair)
  have "game_ok ((play s)\<lparr>move_down := ?falls\<rparr>)" using s by (simp add: session_ok_def game_ok_def piece_of_def)
  from game_step [OF this l] have g: "game_ok g" "step_spec tick ((play s)\<lparr>move_down := ?falls\<rparr>) r' g" by simp_all
  have r: "r = r'" "play s' = (if r \<noteq> GameOver \<and> redraw g then g\<lparr>redraw := False\<rparr> else g)"
    "fall_tick s' = (if ?falls then 0 else fall_tick s + 1)"
    "game_speed s' = game_speed s \<or> game_speed s' = game_speed s + 1 \<and> game_speed s < 10"
    using f l s by (auto simp: frame_def Let_def session_ok_def split: if_splits)
  have t: "fall_tick s' = 0 \<longleftrightarrow> ?falls" using r(3) by simp
  have "fall_tick s' < 200" using r(3) div_le_dividend [of 200 "game_speed s"] by (auto simp del: div_le_dividend split: if_splits)
  moreover have "1 \<le> game_speed s' \<and> game_speed s' \<le> 10" using r(4) s by (auto simp: session_ok_def)
  moreover have "game_ok (play s')" using g(1) unfolding r(1,2) by (auto simp: game_ok_def piece_of_def)
  ultimately show "session_ok s'" by (simp add: session_ok_def)
  show "step_spec tick ((play s)\<lparr>move_down := fall_tick s' = 0\<rparr>) r (play s')" using g(2) unfolding t r(1,2) by simp
  show "fall_tick s' = 0 \<or> fall_tick s' = fall_tick s + 1" using r(3) by simp
qed

abbreviation pressing :: "u8 list \<Rightarrow> session \<Rightarrow> session" where
  "pressing keys s \<equiv> s\<lparr>play := fold key_press keys (play s)\<rparr>"

lemma pressing_ok: "session_ok s \<Longrightarrow> session_ok (pressing keys s)"
  by (simp add: session_ok_def keys_ok)

lemma session_new_ok: "session_ok session_new"
  by (simp add: session_ok_def session_new_def game_ok_def game_state_new_def arena_ok_def)

lemma run_session_ok: "session_ok s \<Longrightarrow> session_ok (run_session fs s)"
proof (induction fs arbitrary: s)
  case (Cons f fs)
  obtain keys tick where f: "f = (keys, tick)" by (cases f) auto
  note p = pressing_ok [OF Cons.prems, of keys]
  show ?case using Cons.IH [OF frame_ok(1) [OF p surjective_pairing]] p by (simp add: f Let_def)
qed simp

text \<open>In one of these frames the piece goes one row down, lands or cannot enter, unless the session
  has ended.\<close>

fun falls_within :: "(u8 list \<times> u64) list \<Rightarrow> session \<Rightarrow> bool" where
  "falls_within [] s = False"
| "falls_within ((keys, tick) # fs) s =
     (let s1 = pressing keys s; (r, s2) = frame tick s1 in
      \<not> video_loop (play s1) \<or> r \<noteq> Continue \<or> row_of (piece_of (play s2)) = row_of (entering tick (play s1)) + 1
      \<or> falls_within fs s2)"

lemma steered_row: "row_of (steered a k p) = row_of p"
  by (simp add: steered_def wanted_def row_of_def split: prod.splits)

lemma spec_falls:
  assumes "step_spec tick (g\<lparr>move_down := True\<rparr>) r g'"
  shows "r \<noteq> Continue \<or> row_of (piece_of g') = row_of (entering tick g) + 1"
proof -
  have e: "entering tick (g\<lparr>move_down := True\<rparr>) = entering tick g" by (simp add: entering_def piece_of_def)
  have l: "row_of (lowered p) = row_of p + 1" for p by (cases p) (simp add: row_of_def lowered_def)
  show ?thesis using assms unfolding step_spec_def e by (auto simp: Let_def l steered_row split: if_splits)
qed

lemma piece_falls: "session_ok s \<Longrightarrow> 200 - fall_tick s \<le> length fs \<Longrightarrow> falls_within fs s"
proof (induction fs arbitrary: s)
  case Nil
  then show ?case by (simp add: session_ok_def)
next
  case (Cons f fs)
  obtain keys tick where f: "f = (keys, tick)" by (cases f) auto
  obtain r s2 where fr: "frame tick (pressing keys s) = (r, s2)" by (metis surj_pair)
  note k = frame_ok [OF pressing_ok [OF Cons.prems(1)] fr]
  show ?case
  proof (cases "fall_tick s2 = 0")
    case True
    then show ?thesis using spec_falls [of tick "play (pressing keys s)" r "play s2"] k(2) fr by (simp add: f Let_def)
  next
    case False
    then have "200 - fall_tick s2 \<le> length fs" using k(3) Cons.prems(2) by simp
    then show ?thesis using Cons.IH [OF k(1)] fr by (simp add: f Let_def)
  qed
qed

text \<open>C40. A whole session, with any keys at any time and any time stamps: the piece is always inside the
  arena and off its blocks, and the speed between 1 and 10. Every further frame follows the rules of
  C39, with the keys pressed in it and a timer that falls in the frames in which its counter starts
  again, which stays below 200. And a piece falls at least every 200 frames: whatever happens in 200
  further frames, in one of them it goes one row down, lands or cannot enter, unless the session has
  been ended.\<close>

theorem tetris_session_ok:
  "session_ok (run_session fs session_new)
   \<and> (let s = pressing keys (run_session fs session_new); (r, s') = frame tick s in
        step_spec tick ((play s)\<lparr>move_down := fall_tick s' = 0\<rparr>) r (play s'))
   \<and> falls_within (map further [0..<200]) (run_session fs session_new)"
proof -
  let ?s = "run_session fs session_new"
  have ok: "session_ok ?s" by (rule run_session_ok [OF session_new_ok])
  have "falls_within (map further [0..<200]) ?s" by (rule piece_falls [OF ok]) (simp del: upt_rec_numeral)
  moreover have "step_spec tick ((play (pressing keys ?s))\<lparr>move_down := fall_tick (snd (frame tick (pressing keys ?s))) = 0\<rparr>)
      (fst (frame tick (pressing keys ?s))) (play (snd (frame tick (pressing keys ?s))))"
    by (rule frame_ok(2) [OF pressing_ok [OF ok] surjective_pairing])
  ultimately show ?thesis using ok by (simp add: case_prod_beta Let_def del: upt_rec_numeral)
qed

end
