(* ===== verification/Spec2Isabelle.thy ===== *)
theory Spec2Isabelle
  imports Kernel_Heap_Props Sched_Props2 Inflate_Props Mmu_Props Address_Props User_Heap_Props Png_File Text_Edit_Props
    Tetris_Props
begin

text \<open>
  A verification development for BlightOS, an operating system in Rust for x86-64 and AArch64.

  \<^bold>\<open>The program.\<close> The kernel (\<^verbatim>\<open>kernel/src\<close>) hands out the frames of physical memory
  (\<^verbatim>\<open>mem/phys.rs\<close>), runs a heap on them (\<^verbatim>\<open>mem/heap.rs\<close>), schedules tasks on several CPUs
  (\<^verbatim>\<open>sched/\<close>), gives every process an address space (\<^verbatim>\<open>arch/x86_64/mmu.rs\<close>, \<^verbatim>\<open>mem/virt.rs\<close>), and
  offers files: a virtual file system with mount points (\<^verbatim>\<open>fs/mod.rs\<close>), a FAT driver on buffered disks
  (\<^verbatim>\<open>fs/fat\<close>, \<^verbatim>\<open>fs/gpt.rs\<close>, \<^verbatim>\<open>drivers/storage/mod.rs\<close>), and keyboard and mouse, which are files too
  (\<^verbatim>\<open>drivers/input/mod.rs\<close>). Programs reach the kernel through system calls (\<^verbatim>\<open>kernel.rs\<close>) and are linked
  with a run-time library (\<^verbatim>\<open>programs/rtlib/src\<close>): a heap on the region the kernel grows for the process
  (\<^verbatim>\<open>heap.rs\<close>), file objects (\<^verbatim>\<open>fileio.rs\<close>), decoded input events (\<^verbatim>\<open>hid\<close>), a zlib decoder and a PNG
  loader (\<^verbatim>\<open>zlib.rs\<close>, \<^verbatim>\<open>graphics/png.rs\<close>), and widgets, of which the text editor has a model
  (\<^verbatim>\<open>gui/textedit.rs\<close>). Tetris (\<^verbatim>\<open>programs/tetris\<close>) is one of the programs.

  \<^bold>\<open>Conventions.\<close> An operation of the source is a definition with its name. An operation that can panic or
  run forever has a result of type \<open>run\<close> (\<open>Blight_Prelude\<close>): no value when the code does not return, a
  panic, or a value; a \<^verbatim>\<open>Result\<close> is a value of a sum type inside it, and \<open>try_then\<close> (\<open>Fallible\<close>) is the
  operator \<^verbatim>\<open>?\<close>, which keeps the changes made before the error. The release build is modelled:
  \<^verbatim>\<open>usize\<close> arithmetic wraps around (\<open>uadd\<close>, \<open>usub\<close>, \<open>umul\<close> on numbers below \<open>2 ^ 64\<close>), narrower
  arithmetic wraps at its width, indexing out of range panics. Bit masks are words. What the code
  guards with a spin lock for the whole of a function is one operation on the state.

  Structural loops are \<open>fun\<close> or \<open>fold\<close>; loops that need not end are \<open>partial_function (option)\<close>, so that
  running forever is a value. There is no fuel. Where a property says that a call returns, its
  conclusion is an equation with \<open>returns\<close>, never an implication from it.

  \<^bold>\<open>Theories and sources.\<close>

  \<^item> \<open>Blight_Prelude\<close>, \<open>Fallible\<close>, \<open>BTree_Map\<close>, \<open>Byte_Strings\<close>: arithmetic, results, error codes, and
    the parts of the standard library in use.
  \<^item> \<open>Frame_Pool\<close> (the interface of a memory manager, as a locale), \<open>Phys_Mem\<close>, \<open>Phys_Mem_Props\<close>:
    \<^verbatim>\<open>mem/phys.rs\<close>. The state is \<open>frames_bitmap\<close>; its words are those behind the raw pointers. Shown:
    on a map whose reserved entries are whole pages, start-up leaves exactly the usable frames without a
    reserved byte free (unaligned entries are rounded, and can lose reserved bytes:
    \<open>init_frees_reserved_bytes\<close>); single and contiguous allocation take the lowest fit or fail without effect; allocations that are live at the same time never overlap.
  \<^item> \<open>Object_Allocator\<close> (the interface of a heap, as a locale, interpreted by both heaps), \<open>Kernel_Heap\<close>,
    \<open>Kernel_Heap_Inv\<close>, \<open>Kernel_Heap_Props\<close>: \<^verbatim>\<open>mem/heap.rs\<close>. The descriptor pages are a store from addresses to
    pages; a ghost list per size class gives the order of the chain. Shown: the units handed out are
    free, aligned to the size class and apart from all others, for any history; releasing undoes
    allocating; the frames of a cluster are given back with its last live unit, and only then.
  \<^item> \<open>Run_Queue\<close> (the locale \<open>run_queue\<close>, interpreted by both policies and by the dispatch over them),
    \<open>Scheduler\<close>, \<open>Task_Ops\<close>, \<open>Sched_Inv\<close>, \<open>Sched_Steps\<close>, \<open>Sched_Policy\<close>, \<open>Sched_Props\<close>, \<open>Sched_Props2\<close>: \<^verbatim>\<open>sched/\<close>.
    The state \<open>kernel\<close> has the per-CPU variables of all CPUs and the shared ones. \<open>sys_step\<close> is the step
    relation of the machine: its operations are atomic, a panic has no next state, and a task with a
    wake-up pending does not migrate. Shown: every task is in at most one place and the run queue of a CPU
    agrees with its pool in every reachable state; round robin lets every task run; a task that
    blocks is woken, a wake-up that comes early is not lost; joiners are woken; stacks are given back.
  \<^item> \<open>Mmu\<close>, \<open>Mmu_Inv\<close>, \<open>Mmu_Map\<close>, \<open>Mmu_Release\<close>, \<open>Mmu_Drop\<close>, \<open>Mmu_Props\<close>: \<^verbatim>\<open>arch/x86_64/mmu.rs\<close>, on the words of
    physical memory. Shown: the tables refine a map from pages to entries; mapping and unmapping
    are inverse and lose no frame; dropping an address space gives back its frames but one.
  \<^item> \<open>Address_Space\<close>, \<open>Address_Inv\<close>, \<open>Address_Heap\<close>, \<open>Address_Stack\<close>, \<open>Address_Props\<close>: \<^verbatim>\<open>mem/virt.rs\<close>, on top of paging
    and the scheduler. Shown: the heap of a process grows and shrinks as asked, errors included; a
    page fault below a stack grows the stack so far that the access succeeds. Both assume frames for
    pages and tables, and the stack also the room that the check in \<^verbatim>\<open>expand_stack\<close> asks for.
  \<^item> \<open>User_Heap\<close>, \<open>User_Heap_Inv\<close>, \<open>User_Heap_Alloc\<close>, \<open>User_Heap_Free\<close>, \<open>User_Heap_Props\<close>: \<^verbatim>\<open>rtlib/src/heap.rs\<close>. The
    locale \<open>region_provider\<close> says what the allocator relies on; it is interpreted by the model of the
    kernel's own heap system call. Shown: blocks tile the region; allocation and release do what
    \<open>object_allocator\<close> promises, and the search and merge loops end.
  \<^item> \<open>Inflate\<close>, \<open>Inflate_Bits\<close>, \<open>Huffman_Code\<close>, \<open>Huffman_Table\<close>, \<open>Inflate_Total\<close>, \<open>Inflate_Decode\<close>, \<open>Inflate_Stream\<close>,
    \<open>Inflate_Props\<close>: \<^verbatim>\<open>zlib.rs\<close>. Shown: decoding returns for every input; the tables decode exactly the
    canonical code words; a copy of a distance below its length repeats bytes; streams of fixed and
    stored blocks decode to what was encoded. The encoders are specifications.
  \<^item> \<open>Png\<close>, \<open>Png_Props\<close>, \<open>Png_File\<close>: \<^verbatim>\<open>graphics/png.rs\<close>. The locale \<open>byte_stream\<close> is a file whose reads deliver
    its contents; it is interpreted by a file on a FAT32 volume read through all layers. Shown: an RGBA
    image with any filters, split into any chunks, is loaded pixel by pixel.
  \<^item> \<open>Disk_IO\<close>: \<^verbatim>\<open>drivers/storage/mod.rs\<close>; \<open>Vfs\<close>, \<open>Vfs_Files\<close>: \<^verbatim>\<open>fs/mod.rs\<close>; \<open>Fat\<close>, \<open>Fat_Volume\<close>, \<open>Fat_Read\<close>, \<open>Fat_Props\<close>,
    \<open>Fat_Files\<close>, \<open>Fat_Lookup\<close>: \<^verbatim>\<open>fs/fat\<close> and \<^verbatim>\<open>fs/gpt.rs\<close>. The locale \<open>file_driver\<close> is the contract of a file system
    with the kernel; the FAT driver is its interpretation. Shown: reading returns the bytes of the
    cluster chain and chains are loaded as the table links them (FAT12, FAT16, FAT32); a directory that
    is a cluster chain with an end mark is searched as the list of its entries; whole paths start at
    the root of a FAT32 volume, the fixed root directories of FAT12 and FAT16 are modelled but have no
    theorem; the reference counts of open files are right whatever the kernel does with
    them, the last drop closes, and a failed open closes handle 0 for good.
  \<^item> \<open>Input\<close>, \<open>Hid\<close>, \<open>Input_Props\<close>: \<^verbatim>\<open>drivers/input/mod.rs\<close> and \<^verbatim>\<open>rtlib/src/hid\<close>; \<open>File_Syscalls\<close>: the six file system
    calls of \<^verbatim>\<open>kernel.rs\<close>; \<open>User_File\<close>, \<open>User_File_Props\<close>: \<^verbatim>\<open>fileio.rs\<close>. Shown: the pointer moves by
    the deltas and is clamped to its limits; a program that opens a file on a FAT32 volume with clusters
    of at most 4096 bytes reads its contents.
  \<^item> \<open>Text_Edit\<close>, \<open>Text_Edit_Props\<close>: \<^verbatim>\<open>gui/textedit.rs\<close>. Shown: every key, moves between
    lines included, changes text and cursor as an editor on one plain text would; what is typed on the
    keyboard of the kernel arrives in the text.
  \<^item> \<open>Tetris\<close>, \<open>Tetris_Props\<close>: \<^verbatim>\<open>programs/tetris/main.rs\<close>. The rules are stated over the cells of
    the arena (\<open>step_spec\<close>). Shown: every step follows them, and among them is that a landing that fills no
    row erases the topmost one; in every session the piece is inside the arena and off the blocks, and it
    falls within 200 frames.

  \<^bold>\<open>What the models assume.\<close> The paging code and the address spaces see physical memory as words, the
  FAT driver sees its buffers as bytes; these are two separate memories, and each of \<open>vspace\<close> and
  \<open>fat_dev\<close> has its own memory manager. Disks are functions from a block and a number of sectors to a
  buffer; properties of the FAT driver assume a disk that serves fixed contents (\<open>disk_serves\<close>). Clocks and
  random seeds are arguments. A step of the scheduler runs on one CPU at a time; what other CPUs do
  happens between steps, and a task that blocks continues in an operation of its own. Hypotheses such
  as sizes below \<open>2 ^ 62\<close> bound what fits into the address space, so that sums do not wrap.

  \<^bold>\<open>Not modelled.\<close> The drivers of disks (AHCI, eMMC), of the keyboard controller and the serial line, of
  sound and of video, PCI enumeration and the device tree: their behaviour is that of device registers.
  The architecture layers: boot, interrupt entry, timers and context switches in assembly, and the
  AArch64 page tables. Glyph tables and all drawing. The kernel's tests. Start-up, the dispatch of system
  calls and the calls for tasks, processes and time, which only pass their arguments on. The other
  widgets and programs, which consist of drawing and of calls to what is modelled.
\<close>

end
